(* ===== verification/Prelude.thy ===== *)
theory Prelude
  imports Main "HOL-Library.Word"
begin

text \<open>
  Shared material of the development: the widths of the C types of the netX 4000 target
  (\<open>char\<close> 8, \<open>short\<close> 16, \<open>int\<close>, \<open>long\<close>, \<open>size_t\<close> and pointers 32, \<open>long long\<close> 64 bits,
  little endian), the byte-addressed memory the code reads and writes through its pointers
  (\<open>memcpy\<close>, \<open>memset\<close>, \<open>memcmp\<close> and the unaligned loads and stores of packed structures),
  and the generic lemmas on words, lists and memory that the component theories use.
\<close>

unbundle bit_operations_syntax

subsection \<open>Machine types\<close>

type_synonym u8 = "8 word"
type_synonym u16 = "16 word"
type_synonym u32 = "32 word"
type_synonym u64 = "64 word"

text \<open>A pointer is an address; \<open>NULL\<close> is the address 0.\<close>

type_synonym ptr = u32
type_synonym memory = "ptr \<Rightarrow> u8"

abbreviation NULL :: ptr where
  "NULL \<equiv> 0"

named_theorems mem_simps \<open>loads from updated memory\<close>
named_theorems frame_simps \<open>what an operation leaves unchanged\<close>

subsection \<open>Memory\<close>

fun rdbytes :: "memory \<Rightarrow> ptr \<Rightarrow> nat \<Rightarrow> u8 list" where
  "rdbytes m a 0 = []"
| "rdbytes m a (Suc n) = m a # rdbytes m (a + 1) n"

fun wrbytes :: "memory \<Rightarrow> ptr \<Rightarrow> u8 list \<Rightarrow> memory" where
  "wrbytes m a [] = m"
| "wrbytes m a (b # bs) = wrbytes (m(a := b)) (a + 1) bs"

definition memcpy :: "memory \<Rightarrow> ptr \<Rightarrow> ptr \<Rightarrow> nat \<Rightarrow> memory" where
  "memcpy m d s n = wrbytes m d (rdbytes m s n)"

definition memset :: "memory \<Rightarrow> ptr \<Rightarrow> u8 \<Rightarrow> nat \<Rightarrow> memory" where
  "memset m d v n = wrbytes m d (replicate n v)"

text \<open>The bytes of a string literal, without the zero at its end.\<close>

definition ascii :: "string \<Rightarrow> u8 list" where
  "ascii s = map (\<lambda>c. of_nat (of_char c)) s"

definition rd16 :: "memory \<Rightarrow> ptr \<Rightarrow> u16" where
  "rd16 m a = ucast (m a) OR push_bit 8 (ucast (m (a + 1)))"

definition rd32 :: "memory \<Rightarrow> ptr \<Rightarrow> u32" where
  "rd32 m a = ucast (m a) OR push_bit 8 (ucast (m (a + 1)))
     OR push_bit 16 (ucast (m (a + 2))) OR push_bit 24 (ucast (m (a + 3)))"

definition le16 :: "u16 \<Rightarrow> u8 list" where
  "le16 v = [ucast v, ucast (drop_bit 8 v)]"

definition le32 :: "u32 \<Rightarrow> u8 list" where
  "le32 v = [ucast v, ucast (drop_bit 8 v), ucast (drop_bit 16 v), ucast (drop_bit 24 v)]"

definition wr8 :: "memory \<Rightarrow> ptr \<Rightarrow> u8 \<Rightarrow> memory" where
  "wr8 m a v = m(a := v)"

definition wr16 :: "memory \<Rightarrow> ptr \<Rightarrow> u16 \<Rightarrow> memory" where
  "wr16 m a v = m(a := ucast v, a + 1 := ucast (drop_bit 8 v))"

definition wr32 :: "memory \<Rightarrow> ptr \<Rightarrow> u32 \<Rightarrow> memory" where
  "wr32 m a v = m(a := ucast v, a + 1 := ucast (drop_bit 8 v),
     a + 2 := ucast (drop_bit 16 v), a + 3 := ucast (drop_bit 24 v))"

text \<open>The value of two or four little-endian bytes of a list.\<close>

definition of_le16 :: "u8 \<Rightarrow> u8 \<Rightarrow> u16" where
  "of_le16 b0 b1 = ucast b0 OR push_bit 8 (ucast b1)"

definition of_le32 :: "u8 \<Rightarrow> u8 \<Rightarrow> u8 \<Rightarrow> u8 \<Rightarrow> u32" where
  "of_le32 b0 b1 b2 b3 = ucast b0 OR push_bit 8 (ucast b1)
     OR push_bit 16 (ucast b2) OR push_bit 24 (ucast b3)"

text \<open>Overwriting a part of an array that is modelled as a list.\<close>

definition put_bytes :: "'a list \<Rightarrow> nat \<Rightarrow> 'a list \<Rightarrow> 'a list" where
  "put_bytes xs off bs = take off xs @ bs @ drop (off + length bs) xs"

subsection \<open>Words and bytes\<close>

lemma unat_u8_less [simp]: "unat (b :: u8) < 256"
  by (rule order_less_le_trans [OF unsigned_less]) simp

lemma unat_u16_less [simp]: "unat (b :: u16) < 65536"
  by (rule order_less_le_trans [OF unsigned_less]) simp

lemma unat_u32_less [simp]: "unat (b :: u32) < 4294967296"
  by (rule order_less_le_trans [OF unsigned_less]) simp

lemma unat_ucast_u8_u16 [simp]: "unat (ucast (b :: u8) :: u16) = unat b"
  by (simp add: unsigned_ucast_eq take_bit_nat_eq_self_iff order_less_trans [OF unat_u8_less])

lemma unat_ucast_u8_u32 [simp]: "unat (ucast (b :: u8) :: u32) = unat b"
  by (simp add: unsigned_ucast_eq take_bit_nat_eq_self_iff order_less_trans [OF unat_u8_less])

lemma unat_ucast_u16_u32 [simp]: "unat (ucast (b :: u16) :: u32) = unat b"
  by (simp add: unsigned_ucast_eq take_bit_nat_eq_self_iff order_less_trans [OF unat_u16_less])

lemma ucast_u8_u32_inject [simp]: "(ucast (a :: u8) = (ucast b :: u32)) = (a = b)"
proof
  assume "ucast a = (ucast b :: u32)"
  then have "unat (ucast a :: u32) = unat (ucast b :: u32)" by simp
  then show "a = b" by (simp add: word_unat_eq_iff)
qed simp

lemma unat_and_mask: "unat (w AND mask n) = unat (w :: 'a::len word) mod 2 ^ n"
proof -
  have "unat (take_bit n w) = unat w mod 2 ^ n"
    by (rule trans [OF unsigned_take_bit_eq take_bit_eq_mod])
  then show ?thesis by (simp only: take_bit_eq_mask)
qed

lemma unat_drop_bit: "unat (drop_bit n w) = unat (w :: 'a::len word) div 2 ^ n"
  by (rule trans [OF unat_drop_bit_eq drop_bit_eq_div])

lemma of_le16_inverse [simp]: "of_le16 (ucast v) (ucast (drop_bit 8 v)) = v"
  by (rule bit_word_eqI) (auto simp: of_le16_def bit_simps)

lemma of_le32_inverse [simp]:
  "of_le32 (ucast v) (ucast (drop_bit 8 v)) (ucast (drop_bit 16 v)) (ucast (drop_bit 24 v)) = v"
proof (rule bit_word_eqI)
  fix n :: nat
  assume "n < LENGTH(32)"
  then consider "n < 8" | "8 \<le> n" "n < 16" | "16 \<le> n" "n < 24" | "24 \<le> n" "n < 32"
    by fastforce
  then show "bit (of_le32 (ucast v) (ucast (drop_bit 8 v)) (ucast (drop_bit 16 v)) (ucast (drop_bit 24 v))) n
    = bit v n"
    by cases (auto simp: of_le32_def bit_simps)
qed

lemma rd16_le: "rd16 m a = of_le16 (m a) (m (a + 1))"
  by (simp add: rd16_def of_le16_def)

lemma rd32_le: "rd32 m a = of_le32 (m a) (m (a + 1)) (m (a + 2)) (m (a + 3))"
  by (simp add: rd32_def of_le32_def)

lemma le16_of_le16 [simp]: "le16 (of_le16 a b) = [a, b]"
proof -
  have "ucast (of_le16 a b) = a"
    by (rule bit_word_eqI) (auto simp: of_le16_def bit_simps dest: bit_imp_le_length)
  moreover have "(ucast (drop_bit 8 (of_le16 a b)) :: u8) = b"
    by (rule bit_word_eqI) (auto simp: of_le16_def bit_simps dest: bit_imp_le_length)
  ultimately show ?thesis by (simp add: le16_def)
qed

lemma le32_of_le32 [simp]: "le32 (of_le32 a b c d) = [a, b, c, d]"
proof -
  have "ucast (of_le32 a b c d) = a"
    by (rule bit_word_eqI) (auto simp: of_le32_def bit_simps dest: bit_imp_le_length)
  moreover have "(ucast (drop_bit 8 (of_le32 a b c d)) :: u8) = b"
    by (rule bit_word_eqI) (auto simp: of_le32_def bit_simps dest: bit_imp_le_length)
  moreover have "(ucast (drop_bit 16 (of_le32 a b c d)) :: u8) = c"
    by (rule bit_word_eqI) (auto simp: of_le32_def bit_simps dest: bit_imp_le_length)
  moreover have "(ucast (drop_bit 24 (of_le32 a b c d)) :: u8) = d"
    by (rule bit_word_eqI) (auto simp: of_le32_def bit_simps dest: bit_imp_le_length)
  ultimately show ?thesis by (simp add: le32_def)
qed

lemma length_le16 [simp]: "length (le16 v) = 2"
  by (simp add: le16_def)

lemma length_le32 [simp]: "length (le32 v) = 4"
  by (simp add: le32_def)

lemma length_put_bytes [simp]: "off + length bs \<le> length xs \<Longrightarrow> length (put_bytes xs off bs) = length xs"
  by (simp add: put_bytes_def)

subsection \<open>Reading and writing ranges\<close>

lemma length_rdbytes [simp]: "length (rdbytes m a n) = n"
  by (induction n arbitrary: a) auto

lemma rdbytes_numeral: "rdbytes m a (numeral k) = m a # rdbytes m (a + 1) (pred_numeral k)"
  by (simp add: numeral_eq_Suc)

lemma nth_rdbytes [simp]: "i < n \<Longrightarrow> rdbytes m a n ! i = m (a + of_nat i)"
proof (induction n arbitrary: a i)
  case (Suc n)
  then show ?case by (cases i) (auto simp: add.assoc)
qed simp

lemma rdbytes_map: "rdbytes m a n = map (\<lambda>i. m (a + of_nat i)) [0..<n]"
  by (rule nth_equalityI) auto

lemma rdbytes_add: "rdbytes m a (k + n) = rdbytes m a k @ rdbytes m (a + of_nat k) n"
  by (induction k arbitrary: a) (auto simp: add.assoc)

lemma rdbytes_cong:
  "(\<And>i. i < n \<Longrightarrow> m (a + of_nat i) = m' (a + of_nat i)) \<Longrightarrow> rdbytes m a n = rdbytes m' a n"
  by (rule nth_equalityI) auto

lemma take_rdbytes: "k \<le> n \<Longrightarrow> take k (rdbytes m a n) = rdbytes m a k"
  by (rule nth_equalityI) auto

lemma drop_rdbytes: "k \<le> n \<Longrightarrow> drop k (rdbytes m a n) = rdbytes m (a + of_nat k) (n - k)"
  by (rule nth_equalityI) (auto simp: algebra_simps)

lemma wrbytes_outside:
  "(\<And>i. i < length bs \<Longrightarrow> x \<noteq> a + of_nat i) \<Longrightarrow> wrbytes m a bs x = m x"
proof (induction bs arbitrary: m a)
  case (Cons b bs)
  have "x \<noteq> a" using Cons.prems [of 0] by simp
  moreover have "x \<noteq> a + 1 + of_nat i" if "i < length bs" for i
    using Cons.prems [of "Suc i"] that by (simp add: add.assoc)
  ultimately show ?case by (simp add: Cons.IH)
qed simp

lemma of_nat_u32_eq: "i < 2 ^ 32 \<Longrightarrow> j < 2 ^ 32 \<Longrightarrow> (of_nat i = (of_nat j :: u32)) = (i = j)"
  by (auto dest!: arg_cong [where f = unat] simp: unat_of_nat)

lemma wrbytes_inside:
  "i < length bs \<Longrightarrow> length bs \<le> 2 ^ 32 \<Longrightarrow> wrbytes m a bs (a + of_nat i) = bs ! i"
proof (induction bs arbitrary: m a i)
  case (Cons b bs)
  show ?case
  proof (cases i)
    case 0
    have ne: "(0 :: u32) \<noteq> 1 + of_nat j" if "j < length bs" for j
    proof -
      have "(of_nat 0 :: u32) \<noteq> of_nat (Suc j)"
        using that Cons.prems(2) by (subst of_nat_u32_eq) auto
      then show ?thesis by simp
    qed
    have "a \<noteq> a + 1 + of_nat j" if "j < length bs" for j
      using ne [OF that] by (simp add: add.assoc)
    then show ?thesis using 0 by (simp add: wrbytes_outside)
  next
    case (Suc k)
    have "wrbytes (m(a := b)) (a + 1) bs (a + 1 + of_nat k) = bs ! k"
      using Suc Cons.prems by (intro Cons.IH) auto
    then show ?thesis using Suc by (simp add: add.assoc)
  qed
qed simp

lemma rdbytes_wrbytes [simp]:
  "length bs \<le> 2 ^ 32 \<Longrightarrow> rdbytes (wrbytes m a bs) a (length bs) = bs"
  by (rule nth_equalityI) (auto simp: wrbytes_inside)

lemma wrbytes_append:
  "wrbytes m a (xs @ ys) = wrbytes (wrbytes m a xs) (a + of_nat (length xs)) ys"
  by (induction xs arbitrary: m a) (auto simp: add.assoc)

subsection \<open>Disjoint ranges\<close>

text \<open>The range of \<open>n\<close> addresses that starts at \<open>a\<close>.\<close>

definition in_range :: "ptr \<Rightarrow> ptr \<Rightarrow> nat \<Rightarrow> bool" where
  "in_range x a n \<longleftrightarrow> unat (x - a) < n"

lemma in_rangeI: "i < n \<Longrightarrow> in_range (a + of_nat i) a n"
  using mod_less_eq_dividend [of i "2 ^ 32"] by (simp add: in_range_def unat_of_nat del: mod_less_eq_dividend)

lemma in_rangeD: "in_range x a n \<Longrightarrow> \<exists>i < n. x = a + of_nat i"
  by (rule exI [of _ "unat (x - a)"]) (simp add: in_range_def)

lemma wrbytes_not_in_range [mem_simps]:
  "\<not> in_range x a (length bs) \<Longrightarrow> wrbytes m a bs x = m x"
  by (rule wrbytes_outside) (auto dest: in_rangeI)

definition ranges_disjoint :: "ptr \<Rightarrow> nat \<Rightarrow> ptr \<Rightarrow> nat \<Rightarrow> bool" where
  "ranges_disjoint a n b k \<longleftrightarrow> (\<forall>i < n. \<not> in_range (a + of_nat i) b k)"

lemma rdbytes_wrbytes_disjoint [mem_simps]:
  "ranges_disjoint a n b (length bs) \<Longrightarrow> rdbytes (wrbytes m b bs) a n = rdbytes m a n"
  by (rule rdbytes_cong) (simp add: ranges_disjoint_def wrbytes_not_in_range)

lemma ranges_disjointI:
  assumes "unat a + n \<le> unat b \<or> unat b + k \<le> unat a" and "unat a + n \<le> 2 ^ 32" and "unat b + k \<le> 2 ^ 32"
  shows "ranges_disjoint a n b k"
  unfolding ranges_disjoint_def in_range_def
proof (intro allI impI)
  fix i
  assume i: "i < n"
  have ai: "unat (a + of_nat i) = unat a + i" using i assms(2) by (simp add: unat_word_ariths unat_of_nat)
  show "\<not> unat (a + of_nat i - b) < k"
  proof (cases "unat b + k \<le> unat a")
    case True
    then have "b \<le> a + of_nat i" using ai by (simp add: word_le_nat_alt)
    then show ?thesis using True ai by (simp add: unat_sub)
  next
    case False
    then have "unat a + i < unat b" using assms(1) i by simp
    then have "unat (a + of_nat i - b) = 2 ^ 32 + (unat a + i) - unat b"
      using ai by (simp add: unat_sub_if')
    then show ?thesis using assms(3) by linarith
  qed
qed

lemma rd16_wr16 [mem_simps]: "rd16 (wr16 m a v) a = v"
  by (simp add: rd16_le wr16_def)

lemma rd32_wr32 [mem_simps]: "rd32 (wr32 m a v) a = v"
  by (simp add: rd32_le wr32_def)

lemma wr16_wrbytes: "wr16 m a v = wrbytes m a (le16 v)"
  by (simp add: wr16_def le16_def)

lemma wr32_wrbytes: "wr32 m a v = wrbytes m a (le32 v)"
  by (simp add: wr32_def le32_def add.assoc)

lemma wr8_wrbytes: "m(a := v) = wrbytes m a [v]"
  by simp

text \<open>A write inside a range that is read back.\<close>

lemma rdbytes_wrbytes_put:
  assumes "k + length bs \<le> n" and "n \<le> 2 ^ 32"
  shows "rdbytes (wrbytes m (a + of_nat k) bs) a n = put_bytes (rdbytes m a n) k bs"
proof (rule nth_equalityI)
  show "length (rdbytes (wrbytes m (a + of_nat k) bs) a n) = length (put_bytes (rdbytes m a n) k bs)"
    using assms(1) by simp
next
  fix i
  assume "i < length (rdbytes (wrbytes m (a + of_nat k) bs) a n)"
  then have i: "i < n" by simp
  show "rdbytes (wrbytes m (a + of_nat k) bs) a n ! i = put_bytes (rdbytes m a n) k bs ! i"
  proof (cases "k \<le> i \<and> i < k + length bs")
    case True
    then have "a + of_nat i = a + of_nat k + of_nat (i - k)" by (simp add: of_nat_diff)
    moreover have "wrbytes m (a + of_nat k) bs (a + of_nat k + of_nat (i - k)) = bs ! (i - k)"
      using True assms by (intro wrbytes_inside) auto
    ultimately show ?thesis using True i assms(1) by (simp add: put_bytes_def nth_append min_def less_diff_conv2 add.commute)
  next
    case False
    have "a + of_nat i \<noteq> a + of_nat k + of_nat j" if "j < length bs" for j
    proof
      assume "a + of_nat i = a + of_nat k + of_nat j"
      then have "(of_nat i :: u32) = of_nat (k + j)" by (simp add: add.assoc)
      then have "i = k + j" using of_nat_u32_eq [of i "k + j"] i that assms by simp
      then show False using False that by simp
    qed
    then have "wrbytes m (a + of_nat k) bs (a + of_nat i) = m (a + of_nat i)" by (rule wrbytes_outside)
    then show ?thesis using False i assms(1) by (auto simp: put_bytes_def nth_append min_def add.commute)
  qed
qed

text \<open>Overwriting a part of what was just written.\<close>

lemma wrbytes_overwrite:
  assumes "k + length cs \<le> length bs" and "length bs \<le> 2 ^ 32"
  shows "wrbytes (wrbytes m a bs) (a + of_nat k) cs = wrbytes m a (put_bytes bs k cs)"
proof (rule ext)
  fix x
  show "wrbytes (wrbytes m a bs) (a + of_nat k) cs x = wrbytes m a (put_bytes bs k cs) x"
  proof (cases "in_range x a (length bs)")
    case True
    then obtain i where i: "i < length bs" "x = a + of_nat i" using in_rangeD by blast
    have "rdbytes (wrbytes (wrbytes m a bs) (a + of_nat k) cs) a (length bs) = put_bytes bs k cs"
      using assms by (simp add: rdbytes_wrbytes_put)
    also have "\<dots> = rdbytes (wrbytes m a (put_bytes bs k cs)) a (length bs)"
      using assms rdbytes_wrbytes [of "put_bytes bs k cs" m a] by simp
    finally show ?thesis using i nth_rdbytes by metis
  next
    case False
    have "x \<noteq> a + of_nat k + of_nat j" if "j < length cs" for j
      using False in_rangeI [of "k + j" "length bs" a] that assms(1) by (auto simp: add.assoc)
    then have "wrbytes (wrbytes m a bs) (a + of_nat k) cs x = wrbytes m a bs x" by (rule wrbytes_outside)
    then show ?thesis using False assms(1) by (simp add: wrbytes_not_in_range)
  qed
qed

lemma ranges_disjoint_sub:
  assumes "ranges_disjoint a n b k" and "i + n' \<le> n" and "j + k' \<le> k"
  shows "ranges_disjoint (a + of_nat i) n' (b + of_nat j) k'"
  unfolding ranges_disjoint_def
proof (intro allI impI notI)
  fix x
  assume x: "x < n'" and "in_range (a + of_nat i + of_nat x) (b + of_nat j) k'"
  then obtain t where t: "t < k'" "a + of_nat i + of_nat x = b + of_nat j + of_nat t" using in_rangeD by blast
  then have "in_range (a + of_nat (i + x)) b k"
    using in_rangeI [of "j + t" k b] assms(3) by (simp add: add.assoc)
  moreover have "i + x < n" using x assms(2) by simp
  ultimately show False using assms(1) unfolding ranges_disjoint_def by blast
qed

lemma ranges_disjoint_offset:
  assumes "i + n \<le> j" and "j + k \<le> 2 ^ 32"
  shows "ranges_disjoint (p + of_nat j) k (p + of_nat i) n"
  unfolding ranges_disjoint_def in_range_def
proof (intro allI impI)
  fix x
  assume x: "x < k"
  have "p + of_nat j + of_nat x - (p + of_nat i) = of_nat (j + x - i)"
    using assms(1) by (simp add: of_nat_diff)
  moreover have "unat (of_nat (j + x - i) :: u32) = j + x - i"
    using x assms(2) by (simp add: unat_of_nat)
  ultimately have "unat (p + of_nat j + of_nat x - (p + of_nat i)) = j + x - i" by (simp only:)
  then show "\<not> unat (p + of_nat j + of_nat x - (p + of_nat i)) < n" using assms(1) by linarith
qed

end
