(* ===== verification/Device.thy ===== *)
theory Device
  imports Prelude
begin

text \<open>
  The data the parts of the flash application share: \<open>DEVICE_INFO_T\<close> (device_info.h), which
  is filled step by step from the flash device label, from the info file and from the
  download, and the interface of the flasher library (\<open>flasher_interface.h\<close>,
  \<open>flasher_spi.h\<close>, \<open>flasher_sdio.h\<close>). The library is not part of the repository: it is a
  record of functions over a state \<open>'w\<close> of the flash devices, an argument of every definition
  that calls it. \<open>'i\<close> is the library's device handle, the union \<open>uInfo\<close> of its device
  description.
\<close>

record DEVICE_INFO_T =
  ulManufacturer :: u32
  ulDeviceNr :: u32
  ulHwRev :: u32
  ulSerial :: u32
  acDataUri :: "u8 list"
  tHash :: "u8 list"
  pucWfpImage :: ptr
  sizWfpImage :: u32

text \<open>What \<open>memset(&tDeviceInfo, 0, sizeof(DEVICE_INFO_T))\<close> leaves.\<close>

definition DEVICE_INFO_zero :: DEVICE_INFO_T where
  "DEVICE_INFO_zero = \<lparr>ulManufacturer = 0, ulDeviceNr = 0, ulHwRev = 0, ulSerial = 0,
     acDataUri = replicate 1024 0, tHash = replicate 48 0, pucWfpImage = NULL, sizWfpImage = 0\<rparr>"

record FLASHER_SPI_CONFIGURATION_T =
  spi_uiUnit :: u32
  spi_uiChipSelect :: u32
  spi_ulInitialSpeedKhz :: u32
  spi_ulMaximumSpeedKhz :: u32
  spi_uiIdleCfg :: u32
  spi_uiMode :: u32
  spi_aucMmio :: "u8 list"

record 'i DEVICE_DESCRIPTION_T =
  fIsValid :: u32
  sizThis :: u32
  ulVersion :: u32
  tSourceTyp :: u32
  uInfo :: 'i

text \<open>
  The constants and functions of the flasher library. A function that reads \<open>n\<close> bytes through
  a pointer takes those bytes as a list, one that fills a buffer returns the bytes. The result
  codes are words, \<open>RESULT_OK\<close> is \<open>NETX_CONSOLEAPP_RESULT_OK\<close>.
\<close>

record ('i, 'w) flasher =
  BUS_ParFlash :: u32
  BUS_SPI :: u32
  BUS_IFlash :: u32
  BUS_SDIO :: u32
  RESULT_OK :: u32
  MSK_SQI_CFG_IDLE :: u32
  FLASHER_INTERFACE_VERSION :: u32
  SIZEOF_DEVICE_DESCRIPTION :: u32
  info_zero :: 'i
  spi_detect :: "FLASHER_SPI_CONFIGURATION_T \<Rightarrow> 'i \<Rightarrow> 'w \<Rightarrow> u32 \<times> 'i \<times> 'w"
  spi_read :: "'i \<Rightarrow> u32 \<Rightarrow> u32 \<Rightarrow> 'w \<Rightarrow> u32 \<times> u8 list \<times> 'w"
  spi_getEraseArea :: "'i \<Rightarrow> u32 \<Rightarrow> u32 \<Rightarrow> 'w \<Rightarrow> u32 \<times> u32 \<times> u32 \<times> 'w"
  spi_isErased :: "'i \<Rightarrow> u32 \<Rightarrow> u32 \<Rightarrow> 'w \<Rightarrow> u32 \<times> u32 \<times> 'w"
  spi_erase :: "'i \<Rightarrow> u32 \<Rightarrow> u32 \<Rightarrow> 'w \<Rightarrow> u32 \<times> 'w"
  spi_flash :: "'i \<Rightarrow> u32 \<Rightarrow> u32 \<Rightarrow> u8 list \<Rightarrow> 'w \<Rightarrow> u32 \<times> 'w"
  sdio_detect_wrap :: "'i \<Rightarrow> 'w \<Rightarrow> u32 \<times> 'i \<times> 'w"
  sdio_write :: "'i DEVICE_DESCRIPTION_T \<Rightarrow> u32 \<Rightarrow> u32 \<Rightarrow> u8 list \<Rightarrow> 'w \<Rightarrow> u32 \<times> 'w"

text \<open>The SPI configuration that \<open>readFDL\<close> and \<open>processWfp\<close> set up before a detection.\<close>

definition spi_configuration :: "u32 \<Rightarrow> u32 \<Rightarrow> u32 \<Rightarrow> FLASHER_SPI_CONFIGURATION_T" where
  "spi_configuration idle unit cs =
     \<lparr>spi_uiUnit = unit, spi_uiChipSelect = cs, spi_ulInitialSpeedKhz = 1000, spi_ulMaximumSpeedKhz = 25000,
      spi_uiIdleCfg = idle, spi_uiMode = 3, spi_aucMmio = [0xff, 0xff, 0xff, 0xff]\<rparr>"

end
