(* ===== verification/Wfp.thy ===== *)
theory Wfp
  imports Device
begin

text \<open>
  The flash image processor, wfp.c. \<open>flashDataFile\<close> erases and programs one chunk,
  \<open>processWfp\<close> walks over the downloaded SWFP image. The image is read through 32-bit pointers,
  so the bounds checks are modelled with their wrap-around. The loop of \<open>processWfp\<close> is a
  \<open>partial_function\<close>: a run that never returns is \<open>None\<close>.
  The abstract side is a parser of the image into chunks and a function that flashes a list
  of chunks; the refinement theorem says that \<open>processWfp\<close> does exactly this on every image
  whose size fields do not make the pointers wrap.
\<close>

subsection \<open>Flashing one chunk\<close>

definition flashDataFile_erase ::
  "('i, 'w) flasher \<Rightarrow> 'i DEVICE_DESCRIPTION_T \<Rightarrow> u32 \<Rightarrow> u32 \<Rightarrow> 'w \<Rightarrow> int \<times> 'w" where
  "flashDataFile_erase fl desc ulAlignedStartAdr ulAlignedEndAdr w =
    (case spi_isErased fl (uInfo desc) ulAlignedStartAdr ulAlignedEndAdr w of (tResult, ul, w) \<Rightarrow>
      if tResult = RESULT_OK fl then
        (if ul = 0xff then (0, w)
         else (case spi_erase fl (uInfo desc) ulAlignedStartAdr ulAlignedEndAdr w of (tResult, w) \<Rightarrow>
           if tResult = RESULT_OK fl then
             (case spi_isErased fl (uInfo desc) ulAlignedStartAdr ulAlignedEndAdr w of (tResult, ul, w) \<Rightarrow>
               if ul = 0xff then (0, w) else (-1, w))
           else (-1, w)))
      else (-1, w))"

definition flashDataFile ::
  "('i, 'w) flasher \<Rightarrow> u32 \<Rightarrow> 'i DEVICE_DESCRIPTION_T \<Rightarrow> u32 \<Rightarrow> u8 list \<Rightarrow> u32 \<Rightarrow> 'w \<Rightarrow> int \<times> 'w" where
  "flashDataFile fl tBus desc ulOffsetInBytes pucData ulDataSizeInBytes w =
    (if tBus = BUS_ParFlash fl then (-1, w)
     else if tBus = BUS_SPI fl then
       (case spi_getEraseArea fl (uInfo desc) ulOffsetInBytes (ulOffsetInBytes + ulDataSizeInBytes) w of
         (tResult, ulAlignedStartAdr, ulAlignedEndAdr, w) \<Rightarrow>
           if tResult = RESULT_OK fl then
             (case flashDataFile_erase fl desc ulAlignedStartAdr ulAlignedEndAdr w of (r, w) \<Rightarrow>
               if r = 0 then
                 (case spi_flash fl (uInfo desc) ulOffsetInBytes ulDataSizeInBytes pucData w of (tResult, w) \<Rightarrow>
                   if tResult = RESULT_OK fl then (0, w) else (-1, w))
               else (r, w))
           else (-1, w))
     else if tBus = BUS_IFlash fl then (-1, w)
     else if tBus = BUS_SDIO fl then
       (case sdio_write fl desc ulOffsetInBytes ulDataSizeInBytes pucData w of (tResult, w) \<Rightarrow>
         if tResult = RESULT_OK fl then (0, w) else (-1, w))
     else (-1, w))"

subsection \<open>The image loop\<close>

record ('i, 'w) wfp_state =
  pucDataCnt :: ptr
  pucDataEnd :: ptr
  uiLastBus :: u32
  uiLastUnit :: u32
  uiLastCs :: u32
  tDeviceDesc :: "'i DEVICE_DESCRIPTION_T"
  wfp_iResult :: int
  world :: 'w

definition wfp_desc_clear :: "('i, 'w) flasher \<Rightarrow> 'i DEVICE_DESCRIPTION_T" where
  "wfp_desc_clear fl = \<lparr>fIsValid = 0, sizThis = 0, ulVersion = 0, tSourceTyp = 0, uInfo = info_zero fl\<rparr>"

text \<open>Detect the device of a chunk: the result code, the description and the new device state.\<close>

definition wfp_detect ::
  "('i, 'w) flasher \<Rightarrow> u32 \<Rightarrow> u32 \<Rightarrow> u32 \<Rightarrow> 'w \<Rightarrow> int \<times> 'i DEVICE_DESCRIPTION_T \<times> 'w" where
  "wfp_detect fl uiBus uiUnit uiCs w =
    (let desc = wfp_desc_clear fl in
     if uiBus = BUS_ParFlash fl then (-1, desc, w)
     else if uiBus = BUS_SPI fl then
       (case spi_detect fl (spi_configuration (MSK_SQI_CFG_IDLE fl) uiUnit uiCs) (uInfo desc) w of
         (tResult, info, w) \<Rightarrow>
           (if tResult = RESULT_OK fl then 0 else -1, desc\<lparr>uInfo := info\<rparr>, w))
     else if uiBus = BUS_IFlash fl then (-1, desc, w)
     else if uiBus = BUS_SDIO fl then
       (case sdio_detect_wrap fl (uInfo desc) w of (tResult, info, w) \<Rightarrow>
           (if tResult = RESULT_OK fl then 0 else -1, desc\<lparr>uInfo := info\<rparr>, w))
     else (-1, desc, w))"

definition wfp_desc_valid ::
  "('i, 'w) flasher \<Rightarrow> u32 \<Rightarrow> 'i DEVICE_DESCRIPTION_T \<Rightarrow> 'i DEVICE_DESCRIPTION_T" where
  "wfp_desc_valid fl tBus desc =
     desc\<lparr>fIsValid := 1, sizThis := SIZEOF_DEVICE_DESCRIPTION fl,
          ulVersion := FLASHER_INTERFACE_VERSION fl, tSourceTyp := tBus\<rparr>"

text \<open>
  Select the device of a chunk: reuse the last one or detect a new one. The flag is
  \<open>False\<close> for the \<open>break\<close> after a failed detection.
\<close>

definition wfp_select ::
  "('i, 'w) flasher \<Rightarrow> u32 \<Rightarrow> u32 \<Rightarrow> u32 \<Rightarrow> ('i, 'w) wfp_state \<Rightarrow> bool \<times> ('i, 'w) wfp_state" where
  "wfp_select fl uiBus uiUnit uiCs s =
    (if uiLastBus s = uiBus \<and> uiLastUnit s = uiUnit \<and> uiLastCs s = uiCs then (True, s)
     else (case wfp_detect fl uiBus uiUnit uiCs (world s) of (r, desc, w) \<Rightarrow>
       if r \<noteq> 0 then (False, s\<lparr>wfp_iResult := r, tDeviceDesc := desc, world := w\<rparr>)
       else (True, s\<lparr>wfp_iResult := r, tDeviceDesc := wfp_desc_valid fl uiBus desc, world := w,
                     uiLastBus := uiBus, uiLastUnit := uiUnit, uiLastCs := uiCs\<rparr>)))"

text \<open>One iteration of the loop. The flag is \<open>False\<close> when the iteration leaves the loop.\<close>

definition wfp_chunk ::
  "('i, 'w) flasher \<Rightarrow> memory \<Rightarrow> ('i, 'w) wfp_state \<Rightarrow> bool \<times> ('i, 'w) wfp_state" where
  "wfp_chunk fl m s =
    (let p = pucDataCnt s in
     if p + 12 > pucDataEnd s then (False, s\<lparr>wfp_iResult := -1\<rparr>)
     else
       let uiBus = ucast (m p); uiUnit = ucast (m (p + 1)); uiCs = ucast (m (p + 2));
           ulOffset = rd32 m (p + 3); ulDataSizeInBytes = rd32 m (p + 7);
           q = p + 11; s = s\<lparr>pucDataCnt := q\<rparr> in
       if q + ulDataSizeInBytes > pucDataEnd s then (False, s\<lparr>wfp_iResult := -1\<rparr>)
       else
         (case wfp_select fl uiBus uiUnit uiCs s of (ok, s) \<Rightarrow>
           if \<not> ok then (False, s)
           else
             (case flashDataFile fl uiBus (tDeviceDesc s) ulOffset
                     (rdbytes m q (unat ulDataSizeInBytes)) ulDataSizeInBytes (world s) of (r, w) \<Rightarrow>
               if r = 0 then (True, s\<lparr>wfp_iResult := r, world := w, pucDataCnt := q + ulDataSizeInBytes\<rparr>)
               else (False, s\<lparr>wfp_iResult := r, world := w\<rparr>))))"

partial_function (option) wfp_loop ::
  "('i, 'w) flasher \<Rightarrow> memory \<Rightarrow> ('i, 'w) wfp_state \<Rightarrow> ('i, 'w) wfp_state option" where
  "wfp_loop fl m s =
    (if pucDataCnt s < pucDataEnd s then
       (case wfp_chunk fl m s of (continue, s') \<Rightarrow>
         if continue then wfp_loop fl m s' else Some s')
     else Some s)"

text \<open>\<open>desc0\<close> is the uninitialised device description on the stack.\<close>

definition processWfp ::
  "('i, 'w) flasher \<Rightarrow> memory \<Rightarrow> DEVICE_INFO_T \<Rightarrow> 'i DEVICE_DESCRIPTION_T \<Rightarrow> 'w \<Rightarrow> (int \<times> 'w) option" where
  "processWfp fl m info desc0 w =
    (let p = pucWfpImage info; e = pucWfpImage info + sizWfpImage info in
     if p + 4 > e then Some (-1, w)
     else if m p = 0x53 \<and> m (p + 1) = 0x57 \<and> m (p + 2) = 0x46 \<and> m (p + 3) = 0x50 then
       map_option (\<lambda>s. (wfp_iResult s, world s))
         (wfp_loop fl m \<lparr>pucDataCnt = p + 4, pucDataEnd = e, uiLastBus = 0xffffffff,
            uiLastUnit = 0xffffffff, uiLastCs = 0xffffffff, tDeviceDesc = desc0,
            wfp_iResult = 0, world = w\<rparr>)
     else Some (-1, w))"

subsection \<open>The image format\<close>

record wfp_chunk_t =
  cBus :: u8
  cUnit :: u8
  cCs :: u8
  cOffset :: u32
  cData :: "u8 list"

definition wfp_magic :: "u8 list" where
  "wfp_magic = [0x53, 0x57, 0x46, 0x50]"

definition wfp_encode_chunk :: "wfp_chunk_t \<Rightarrow> u8 list" where
  "wfp_encode_chunk c =
     [cBus c, cUnit c, cCs c] @ le32 (cOffset c) @ le32 (of_nat (length (cData c))) @ cData c"

definition wfp_encode :: "wfp_chunk_t list \<Rightarrow> u8 list" where
  "wfp_encode cs = concat (map wfp_encode_chunk cs)"

definition wfp_size_field :: "u8 list \<Rightarrow> nat" where
  "wfp_size_field bs = unat (of_le32 (bs ! 7) (bs ! 8) (bs ! 9) (bs ! 10))"

definition wfp_head :: "u8 list \<Rightarrow> wfp_chunk_t" where
  "wfp_head bs = \<lparr>cBus = bs ! 0, cUnit = bs ! 1, cCs = bs ! 2,
     cOffset = of_le32 (bs ! 3) (bs ! 4) (bs ! 5) (bs ! 6),
     cData = take (wfp_size_field bs) (drop 11 bs)\<rparr>"

text \<open>
  The parser of the bytes behind the magic: the chunks up to the first error and whether the
  image ended without one.
\<close>

function wfp_parse :: "u8 list \<Rightarrow> wfp_chunk_t list \<times> bool" where
  "wfp_parse bs =
    (if bs = [] then ([], True)
     else if length bs < 12 then ([], False)
     else if length bs < 11 + wfp_size_field bs then ([], False)
     else (case wfp_parse (drop (11 + wfp_size_field bs) bs) of (cs, ok) \<Rightarrow> (wfp_head bs # cs, ok)))"
  by pat_completeness auto
termination
  by (relation "measure length") auto

text \<open>Every size field the parser meets is at most \<open>lim\<close>.\<close>

function wfp_sizes_le :: "nat \<Rightarrow> u8 list \<Rightarrow> bool" where
  "wfp_sizes_le lim bs =
    (if bs = [] \<or> length bs < 12 then True
     else wfp_size_field bs \<le> lim \<and>
       (length bs < 11 + wfp_size_field bs \<or> wfp_sizes_le lim (drop (11 + wfp_size_field bs) bs)))"
  by pat_completeness auto
termination
  by (relation "measure (length \<circ> snd)") auto

declare wfp_parse.simps [simp del] wfp_sizes_le.simps [simp del]

subsection \<open>Flashing a list of chunks\<close>

type_synonym wfp_key = "u8 \<times> u8 \<times> u8"

fun wfp_flash ::
  "('i, 'w) flasher \<Rightarrow> (wfp_key \<times> 'i DEVICE_DESCRIPTION_T) option \<Rightarrow> wfp_chunk_t list \<Rightarrow> bool \<Rightarrow> 'w \<Rightarrow> int \<times> 'w" where
  "wfp_flash fl dev [] ok w = (if ok then 0 else -1, w)"
| "wfp_flash fl dev (c # cs) ok w =
    (let key = (cBus c, cUnit c, cCs c);
         flash = (\<lambda>desc w. case flashDataFile fl (ucast (cBus c)) desc (cOffset c) (cData c)
                    (of_nat (length (cData c))) w of (r, w) \<Rightarrow>
                  if r = 0 then wfp_flash fl (Some (key, desc)) cs ok w else (r, w)) in
     case dev of
       Some (key', desc) \<Rightarrow>
         if key' = key then flash desc w
         else (case wfp_detect fl (ucast (cBus c)) (ucast (cUnit c)) (ucast (cCs c)) w of (r, desc, w) \<Rightarrow>
           if r \<noteq> 0 then (r, w) else flash (wfp_desc_valid fl (ucast (cBus c)) desc) w)
     | None \<Rightarrow>
         (case wfp_detect fl (ucast (cBus c)) (ucast (cUnit c)) (ucast (cCs c)) w of (r, desc, w) \<Rightarrow>
           if r \<noteq> 0 then (r, w) else flash (wfp_desc_valid fl (ucast (cBus c)) desc) w))"

subsection \<open>Lemmas on the parser and the pointers\<close>

lemma wfp_parse_Nil [simp]: "wfp_parse [] = ([], True)"
  by (simp add: wfp_parse.simps)

lemma length_wfp_magic [simp]: "length wfp_magic = 4"
  by (simp add: wfp_magic_def)

lemma length_encode_chunk [simp]: "length (wfp_encode_chunk c) = 11 + length (cData c)"
  by (simp add: wfp_encode_chunk_def)

lemma wfp_size_field_encode:
  "length (cData c) < 2 ^ 32 \<Longrightarrow> wfp_size_field (wfp_encode_chunk c @ bs) = length (cData c)"
  by (simp add: wfp_size_field_def wfp_encode_chunk_def le32_def unat_of_nat nth_append)

lemma wfp_head_encode:
  "length (cData c) < 2 ^ 32 \<Longrightarrow> wfp_head (wfp_encode_chunk c @ bs) = c"
  unfolding wfp_head_def
  by (simp add: wfp_size_field_encode) (simp add: wfp_encode_chunk_def le32_def nth_append)

lemma wfp_parse_encode:
  "(\<And>c. c \<in> set cs \<Longrightarrow> length (cData c) < 2 ^ 32) \<Longrightarrow> (cs \<noteq> [] \<Longrightarrow> cData (last cs) \<noteq> []) \<Longrightarrow>
   wfp_parse (wfp_encode cs) = (cs, True)"
proof (induction cs)
  case Nil
  then show ?case by (simp add: wfp_encode_def)
next
  case (Cons c cs)
  let ?bs = "wfp_encode_chunk c @ wfp_encode cs"
  have sz: "wfp_size_field ?bs = length (cData c)"
    using Cons.prems(1) by (simp add: wfp_size_field_encode)
  have "12 \<le> length ?bs"
  proof (cases cs)
    case Nil
    with Cons.prems(2) have "cData c \<noteq> []" by simp
    then show ?thesis by (cases "cData c") auto
  next
    case (Cons c' cs')
    then show ?thesis by (simp add: wfp_encode_def)
  qed
  moreover have "wfp_parse (wfp_encode cs) = (cs, True)"
    using Cons.prems by (intro Cons.IH) (auto split: if_splits)
  moreover have "wfp_head ?bs = c"
    using Cons.prems(1) by (simp add: wfp_head_encode)
  moreover have "?bs \<noteq> []" by (simp add: wfp_encode_chunk_def)
  ultimately have "wfp_parse ?bs = (c # cs, True)"
    by (subst wfp_parse.simps) (auto simp: sz)
  then show ?case by (simp add: wfp_encode_def)
qed

lemma ucast_u8_ne_all_ones [simp]: "ucast (b :: u8) \<noteq> (0xffffffff :: u32)"
proof
  assume "ucast b = (0xffffffff :: u32)"
  then have "unat (ucast b :: u32) = unat (0xffffffff :: u32)" by simp
  then show False using unat_u8_less [of b] by simp
qed

lemma ptr_add_greater:
  "unat p + k < 2 ^ 32 \<Longrightarrow> unat p + n = unat e \<Longrightarrow> (p + of_nat k > (e :: u32)) = (n < k)"
  by (auto simp: word_less_nat_alt unat_word_ariths unat_of_nat)

subsection \<open>The loop refines the parser and the flashing of chunks\<close>

text \<open>The last-device fields of the loop against the device of the abstract run.\<close>

definition wfp_dev ::
  "('i, 'w) wfp_state \<Rightarrow> (wfp_key \<times> 'i DEVICE_DESCRIPTION_T) option \<Rightarrow> bool" where
  "wfp_dev s dev = (case dev of
       None \<Rightarrow> uiLastBus s = 0xffffffff
     | Some ((b, u, c), desc) \<Rightarrow> uiLastBus s = ucast b \<and> uiLastUnit s = ucast u \<and>
         uiLastCs s = ucast c \<and> tDeviceDesc s = desc)"

lemma wfp_select_reuse:
  "wfp_dev s (Some ((b, u, c), desc)) \<Longrightarrow>
   wfp_select fl (ucast b) (ucast u) (ucast c) s = (True, s) \<and> tDeviceDesc s = desc"
  by (simp add: wfp_dev_def wfp_select_def)

lemma wfp_select_new:
  assumes "wfp_dev s dev" and "\<And>desc. dev \<noteq> Some ((b, u, c), desc)"
  shows "wfp_select fl (ucast b) (ucast u) (ucast c) s =
    (case wfp_detect fl (ucast b) (ucast u) (ucast c) (world s) of (r, desc, w) \<Rightarrow>
       if r \<noteq> 0 then (False, s\<lparr>wfp_iResult := r, tDeviceDesc := desc, world := w\<rparr>)
       else (True, s\<lparr>wfp_iResult := r, tDeviceDesc := wfp_desc_valid fl (ucast b) desc, world := w,
                     uiLastBus := ucast b, uiLastUnit := ucast u, uiLastCs := ucast c\<rparr>))"
proof -
  have "\<not> (uiLastBus s = ucast b \<and> uiLastUnit s = ucast u \<and> uiLastCs s = ucast c)"
  proof (cases dev)
    case None
    then show ?thesis using assms(1) ucast_u8_ne_all_ones [of b] by (auto simp: wfp_dev_def)
  next
    case (Some d)
    then show ?thesis using assms(1) assms(2) [of "tDeviceDesc s"]
      by (cases d) (auto simp: wfp_dev_def)
  qed
  then show ?thesis by (auto simp: wfp_select_def)
qed

lemma wfp_flash_new:
  assumes "\<And>desc. dev \<noteq> Some ((cBus c, cUnit c, cCs c), desc)"
  shows "wfp_flash fl dev (c # cs) ok w =
    (case wfp_detect fl (ucast (cBus c)) (ucast (cUnit c)) (ucast (cCs c)) w of (r, desc, w) \<Rightarrow>
       if r \<noteq> 0 then (r, w)
       else (case flashDataFile fl (ucast (cBus c)) (wfp_desc_valid fl (ucast (cBus c)) desc)
               (cOffset c) (cData c) (of_nat (length (cData c))) w of (r, w) \<Rightarrow>
         if r = 0 then wfp_flash fl (Some ((cBus c, cUnit c, cCs c),
             wfp_desc_valid fl (ucast (cBus c)) desc)) cs ok w
         else (r, w)))"
  using assms by (auto simp: Let_def split: option.splits prod.splits)

text \<open>The loop stands in front of the bytes \<open>bs\<close>, and no pointer it computes wraps.\<close>

definition wfp_at :: "memory \<Rightarrow> ('i, 'w) wfp_state \<Rightarrow> nat \<Rightarrow> u8 list \<Rightarrow> bool" where
  "wfp_at m s lim bs \<longleftrightarrow> unat (pucDataCnt s) + length bs = unat (pucDataEnd s) \<and>
     rdbytes m (pucDataCnt s) (length bs) = bs \<and> 12 \<le> lim \<and>
     unat (pucDataEnd s) + lim < 2 ^ 32 \<and> wfp_sizes_le lim bs"

lemma wfp_at_nth:
  assumes "wfp_at m s lim bs" and "i < length bs"
  shows "m (pucDataCnt s + of_nat i) = bs ! i"
  using assms nth_rdbytes [of i "length bs" m "pucDataCnt s"] by (simp add: wfp_at_def)

lemma wfp_at_fields:
  assumes "wfp_at m s lim bs" and "12 \<le> length bs"
  shows "m (pucDataCnt s) = bs ! 0" "m (pucDataCnt s + 1) = bs ! 1" "m (pucDataCnt s + 2) = bs ! 2"
    and "rd32 m (pucDataCnt s + 3) = cOffset (wfp_head bs)"
    and "rd32 m (pucDataCnt s + 7) = of_nat (wfp_size_field bs)"
proof -
  have nth: "m (pucDataCnt s + of_nat i) = bs ! i" if "i < 12" for i
    using wfp_at_nth [OF assms(1)] assms(2) that by simp
  show "m (pucDataCnt s) = bs ! 0" "m (pucDataCnt s + 1) = bs ! 1" "m (pucDataCnt s + 2) = bs ! 2"
    using nth [of 0] nth [of 1] nth [of 2] by simp_all
  show "rd32 m (pucDataCnt s + 3) = cOffset (wfp_head bs)"
    using nth [of 3] nth [of 4] nth [of 5] nth [of 6] by (simp add: rd32_le wfp_head_def add.assoc)
  show "rd32 m (pucDataCnt s + 7) = of_nat (wfp_size_field bs)"
    using nth [of 7] nth [of 8] nth [of 9] nth [of 10]
    by (simp add: rd32_le wfp_size_field_def add.assoc)
qed

lemma wfp_at_data:
  assumes "wfp_at m s lim bs" and "11 + n \<le> length bs"
  shows "rdbytes m (pucDataCnt s + 11) n = take n (drop 11 bs)"
proof -
  have "rdbytes m (pucDataCnt s) (length bs) = bs" using assms(1) by (simp add: wfp_at_def)
  then have "take n (drop 11 (rdbytes m (pucDataCnt s) (length bs))) = take n (drop 11 bs)" by simp
  then show ?thesis using assms(2) by (simp add: drop_rdbytes take_rdbytes)
qed

lemma wfp_at_short:
  assumes "wfp_at m s lim bs"
  shows "(pucDataCnt s + 12 > pucDataEnd s) = (length bs < 12)"
proof -
  have "(pucDataCnt s + of_nat 12 > pucDataEnd s) = (length bs < 12)"
    using assms by (intro ptr_add_greater) (auto simp: wfp_at_def)
  then show ?thesis by simp
qed

lemma wfp_at_exceeds:
  assumes "wfp_at m s lim bs" and "12 \<le> length bs"
  shows "(pucDataCnt s + 11 + of_nat (wfp_size_field bs) > pucDataEnd s) =
         (length bs < 11 + wfp_size_field bs)"
proof -
  have "wfp_size_field bs \<le> lim"
    using assms wfp_sizes_le.simps [of lim bs] by (auto simp: wfp_at_def split: if_splits)
  then have "(pucDataCnt s + of_nat (11 + wfp_size_field bs) > pucDataEnd s) =
      (length bs < 11 + wfp_size_field bs)"
    using assms by (intro ptr_add_greater) (auto simp: wfp_at_def)
  then show ?thesis by (simp add: add.assoc)
qed

lemma wfp_at_next:
  assumes "wfp_at m s lim bs" and "12 \<le> length bs" and "11 + wfp_size_field bs \<le> length bs"
    and "pucDataCnt s' = pucDataCnt s + 11 + of_nat (wfp_size_field bs)"
    and "pucDataEnd s' = pucDataEnd s"
  shows "wfp_at m s' lim (drop (11 + wfp_size_field bs) bs)"
proof -
  let ?k = "11 + wfp_size_field bs"
  have p: "pucDataCnt s' = pucDataCnt s + of_nat ?k" using assms(4) by (simp add: add.assoc)
  have "unat (pucDataCnt s) + ?k < 2 ^ 32" using assms by (auto simp: wfp_at_def)
  then have "unat (pucDataCnt s') = unat (pucDataCnt s) + ?k"
    by (simp add: p unat_word_ariths unat_of_nat)
  moreover have "rdbytes m (pucDataCnt s') (length (drop ?k bs)) = drop ?k bs"
    using assms(1,3) drop_rdbytes [of ?k "length bs" m "pucDataCnt s"] by (simp add: p wfp_at_def)
  moreover have "wfp_sizes_le lim (drop ?k bs)"
    using assms wfp_sizes_le.simps [of lim bs] by (auto simp: wfp_at_def split: if_splits)
  ultimately show ?thesis using assms by (auto simp: wfp_at_def)
qed

lemma wfp_chunk_fits:
  assumes at: "wfp_at m s lim bs" and long: "12 \<le> length bs" and fits: "11 + wfp_size_field bs \<le> length bs"
    and sel: "wfp_select fl (ucast (cBus (wfp_head bs))) (ucast (cUnit (wfp_head bs)))
        (ucast (cCs (wfp_head bs))) (s\<lparr>pucDataCnt := pucDataCnt s + 11\<rparr>) = (sel, t)"
    and fd: "flashDataFile fl (ucast (cBus (wfp_head bs))) (tDeviceDesc t) (cOffset (wfp_head bs))
        (cData (wfp_head bs)) (of_nat (length (cData (wfp_head bs)))) (world t) = (r, w)"
  shows "wfp_chunk fl m s =
    (if \<not> sel then (False, t)
     else if r = 0 then (True, t\<lparr>wfp_iResult := 0, world := w,
        pucDataCnt := pucDataCnt s + 11 + of_nat (wfp_size_field bs)\<rparr>)
     else (False, t\<lparr>wfp_iResult := r, world := w\<rparr>))"
proof -
  have c: "bs ! 0 = cBus (wfp_head bs)" "bs ! 1 = cUnit (wfp_head bs)" "bs ! 2 = cCs (wfp_head bs)"
    by (simp_all add: wfp_head_def)
  have size: "unat (of_nat (wfp_size_field bs) :: u32) = wfp_size_field bs"
    by (simp add: wfp_size_field_def)
  have data: "rdbytes m (pucDataCnt s + 11) (wfp_size_field bs) = cData (wfp_head bs)"
    using wfp_at_data [OF at fits] by (simp add: wfp_head_def)
  have len: "length (cData (wfp_head bs)) = wfp_size_field bs"
    using fits by (simp add: wfp_head_def)
  show ?thesis
    using long fits wfp_at_short [OF at] wfp_at_exceeds [OF at long] sel fd
    by (simp add: wfp_chunk_def Let_def wfp_at_fields [OF at long, unfolded c] size data len)
qed

lemma wfp_loop_refines:
  assumes "wfp_at m s lim bs" and "wfp_dev s dev" and "wfp_iResult s = 0"
  shows "map_option (\<lambda>s. (wfp_iResult s, world s)) (wfp_loop fl m s) =
    Some (case wfp_parse bs of (cs, ok) \<Rightarrow> wfp_flash fl dev cs ok (world s))"
  using assms
proof (induction bs arbitrary: s dev rule: wfp_parse.induct)
  case (1 bs)
  note at = "1.prems"(1)
  let ?c = "wfp_head bs" and ?n = "wfp_size_field bs"
  let ?key = "(cBus ?c, cUnit ?c, cCs ?c)"
  have guard: "(pucDataCnt s < pucDataEnd s) = (bs \<noteq> [])"
    using at by (auto simp: wfp_at_def word_less_nat_alt simp flip: length_greater_0_conv)
  show ?case
  proof (cases "length bs < 12 \<or> length bs < 11 + ?n")
    case True
    then show ?thesis using "1.prems" guard wfp_at_short [OF at] wfp_at_exceeds [OF at] wfp_at_fields [OF at]
      by (cases "bs = []"; cases "length bs < 12")
         (auto simp: wfp_loop.simps [of fl m s] wfp_parse.simps [of bs] wfp_chunk_def Let_def)
  next
    case False
    then have long: "12 \<le> length bs" and ne: "bs \<noteq> []" and fits: "11 + ?n \<le> length bs" by auto
    define s' where "s' = s\<lparr>pucDataCnt := pucDataCnt s + 11\<rparr>"
    have dev: "wfp_dev s' dev" using "1.prems"(2) by (auto simp: s'_def wfp_dev_def split: option.splits)
    obtain cs ok where rest: "wfp_parse (drop (11 + ?n) bs) = (cs, ok)" by fastforce
    have parse: "wfp_parse bs = (?c # cs, ok)"
      using long ne fits rest by (subst wfp_parse.simps) auto
    have IH: "map_option (\<lambda>s. (wfp_iResult s, world s)) (wfp_loop fl m t) = Some (wfp_flash fl d cs ok (world t))"
      if "pucDataCnt t = pucDataCnt s + 11 + of_nat ?n" "pucDataEnd t = pucDataEnd s"
        "wfp_iResult t = 0" "wfp_dev t d" for t d
      using "1.IH" [of t d] that wfp_at_next [OF at long] long ne fits rest by auto
    note step = wfp_chunk_fits [OF at long fits, folded s'_def]
    note loop = wfp_loop.simps [of fl m s]
    show ?thesis
    proof (cases "\<exists>desc. dev = Some (?key, desc)")
      case True
      then obtain desc where d: "dev = Some (?key, desc)" by blast
      with dev have sel: "wfp_select fl (ucast (cBus ?c)) (ucast (cUnit ?c)) (ucast (cCs ?c)) s' = (True, s')"
        and desc: "tDeviceDesc s' = desc" by (auto dest: wfp_select_reuse)
      obtain r w where fd: "flashDataFile fl (ucast (cBus ?c)) (tDeviceDesc s') (cOffset ?c) (cData ?c)
          (of_nat (length (cData ?c))) (world s') = (r, w)" by fastforce
      have "wfp_dev (s'\<lparr>wfp_iResult := 0, world := w, pucDataCnt := pucDataCnt s + 11 + of_nat ?n\<rparr>) dev"
        using dev by (auto simp: wfp_dev_def split: option.splits)
      then show ?thesis
        using IH [of "s'\<lparr>wfp_iResult := 0, world := w, pucDataCnt := pucDataCnt s + 11 + of_nat ?n\<rparr>" dev]
          fd desc guard ne
        by (simp add: loop step [OF sel fd] parse d) (auto simp: s'_def)
    next
      case False
      then have new: "\<And>desc. dev \<noteq> Some (?key, desc)" by blast
      obtain r desc w where det: "wfp_detect fl (ucast (cBus ?c)) (ucast (cUnit ?c)) (ucast (cCs ?c)) (world s)
          = (r, desc, w)" using prod_cases3 by blast
      note sel = wfp_select_new [OF dev new, of fl] and flash = wfp_flash_new [OF new, of fl cs ok]
      define t where "t = (if r \<noteq> 0 then s'\<lparr>wfp_iResult := r, tDeviceDesc := desc, world := w\<rparr>
        else s'\<lparr>wfp_iResult := r, tDeviceDesc := wfp_desc_valid fl (ucast (cBus ?c)) desc, world := w,
               uiLastBus := ucast (cBus ?c), uiLastUnit := ucast (cUnit ?c), uiLastCs := ucast (cCs ?c)\<rparr>)"
      have sel': "wfp_select fl (ucast (cBus ?c)) (ucast (cUnit ?c)) (ucast (cCs ?c)) s' = (r = 0, t)"
        using sel det by (simp add: t_def) (simp add: s'_def)
      obtain r' w' where fd: "flashDataFile fl (ucast (cBus ?c)) (tDeviceDesc t) (cOffset ?c) (cData ?c)
          (of_nat (length (cData ?c))) (world t) = (r', w')" by fastforce
      let ?t' = "t\<lparr>wfp_iResult := 0, world := w', pucDataCnt := pucDataCnt s + 11 + of_nat ?n\<rparr>"
      have "r = 0 \<Longrightarrow> wfp_dev ?t' (Some (?key, wfp_desc_valid fl (ucast (cBus ?c)) desc))"
        by (simp add: t_def wfp_dev_def)
      then show ?thesis
        using IH [of ?t' "Some (?key, wfp_desc_valid fl (ucast (cBus ?c)) desc)"] fd guard ne det
        by (simp add: loop step [OF sel' fd] parse flash del: wfp_flash.simps)
           (auto simp: t_def s'_def simp del: wfp_flash.simps)
    qed
  qed
qed

lemma wfp_chunk_continue:
  assumes "\<not> pucDataCnt s + 12 > pucDataEnd s" and "rd32 m (pucDataCnt s + 7) = sz"
    and "\<not> pucDataCnt s + 11 + sz > pucDataEnd s"
    and "wfp_select fl (ucast (m (pucDataCnt s))) (ucast (m (pucDataCnt s + 1)))
      (ucast (m (pucDataCnt s + 2))) (s\<lparr>pucDataCnt := pucDataCnt s + 11\<rparr>) = (True, t)"
    and "flashDataFile fl (ucast (m (pucDataCnt s))) (tDeviceDesc t) (rd32 m (pucDataCnt s + 3))
      (rdbytes m (pucDataCnt s + 11) (unat sz)) sz (world t) = (0, w)"
  shows "wfp_chunk fl m s = (True, t\<lparr>wfp_iResult := 0, world := w, pucDataCnt := pucDataCnt s + 11 + sz\<rparr>)"
  using assms by (simp add: wfp_chunk_def Let_def)

lemma wfp_select_detected:
  "fst (wfp_detect fl b u c (world s)) = 0 \<Longrightarrow>
   \<exists>t. wfp_select fl b u c s = (True, t) \<and> pucDataEnd t = pucDataEnd s"
  by (auto simp: wfp_select_def split: prod.split)

lemma wfp_loop_diverges:
  assumes step: "\<And>s. Q s \<Longrightarrow> pucDataCnt s < pucDataEnd s \<and> (\<exists>s'. wfp_chunk fl m s = (True, s') \<and> Q s')"
    and "Q s"
  shows "wfp_loop fl m s = None"
proof (rule ccontr)
  assume "wfp_loop fl m s \<noteq> None"
  then obtain r where ret: "wfp_loop fl m s = Some r" by blast
  have "fl = fl \<longrightarrow> m = m \<longrightarrow> \<not> Q s"
  proof (rule wfp_loop.raw_induct [where P = "\<lambda>fl' m' s r. fl' = fl \<longrightarrow> m' = m \<longrightarrow> \<not> Q s", OF _ ret])
    fix f :: "('a, 'b) flasher \<Rightarrow> memory \<Rightarrow> ('a, 'b) wfp_state \<Rightarrow> ('a, 'b) wfp_state option"
    fix fl' m' s r
    assume IH: "\<And>fl' m' s r. f fl' m' s = Some r \<Longrightarrow> fl' = fl \<longrightarrow> m' = m \<longrightarrow> \<not> Q s"
      and eq: "(if pucDataCnt s < pucDataEnd s
          then (case wfp_chunk fl' m' s of (continue, s') \<Rightarrow> if continue then f fl' m' s' else Some s')
          else Some s) = Some r"
    then show "fl' = fl \<longrightarrow> m' = m \<longrightarrow> \<not> Q s" using step [of s] by fastforce
  qed
  then show False using assms(2) by simp
qed

lemma processWfp_image:
  assumes img: "rdbytes m (pucWfpImage info) (length img) = img"
    and size: "unat (sizWfpImage info) = length img"
    and room: "unat (pucWfpImage info) + length img + lim < 2 ^ 32" "12 \<le> lim"
    and sizes: "wfp_sizes_le lim (drop 4 img)"
  shows "processWfp fl m info desc0 w =
    (if length img < 4 \<or> take 4 img \<noteq> wfp_magic then Some (-1, w)
     else Some (case wfp_parse (drop 4 img) of (cs, ok) \<Rightarrow> wfp_flash fl None cs ok w))"
proof -
  let ?p = "pucWfpImage info"
  let ?e = "?p + sizWfpImage info"
  have e: "unat ?p + length img = unat ?e" using size room by (simp add: unat_word_ariths)
  have "(?p + of_nat 4 > ?e) = (length img < 4)"
    using e room by (intro ptr_add_greater) auto
  then have short: "(?p + 4 > ?e) = (length img < 4)" by simp
  have magic: "(m ?p = 0x53 \<and> m (?p + 1) = 0x57 \<and> m (?p + 2) = 0x46 \<and> m (?p + 3) = 0x50) =
      (take 4 img = wfp_magic)" if "4 \<le> length img"
  proof -
    have "take 4 (rdbytes m ?p (length img)) = [m ?p, m (?p + 1), m (?p + 2), m (?p + 3)]"
      using that by (simp add: take_rdbytes numeral_eq_Suc add.assoc)
    then show ?thesis by (simp add: img wfp_magic_def)
  qed
  have at: "wfp_at m (s\<lparr>pucDataCnt := ?p + 4, pucDataEnd := ?e\<rparr>) lim (drop 4 img)" if "4 \<le> length img" for s
  proof -
    have "unat (?p + 4) = unat ?p + 4" using e room that by (simp add: unat_word_ariths)
    moreover have "rdbytes m (?p + of_nat 4) (length img - 4) = drop 4 img"
      using that img drop_rdbytes [of 4 "length img" m ?p] by simp
    ultimately show ?thesis using e room sizes that by (simp add: wfp_at_def)
  qed
  let ?s0 = "\<lparr>pucDataCnt = ?p + 4, pucDataEnd = ?e, uiLastBus = 0xffffffff, uiLastUnit = 0xffffffff,
     uiLastCs = 0xffffffff, tDeviceDesc = desc0, wfp_iResult = 0, world = w\<rparr>"
  have "map_option (\<lambda>s. (wfp_iResult s, world s)) (wfp_loop fl m ?s0) =
    Some (case wfp_parse (drop 4 img) of (cs, ok) \<Rightarrow> wfp_flash fl None cs ok (world ?s0))"
    if "4 \<le> length img"
    using at [OF that, of ?s0] by (intro wfp_loop_refines) (auto simp: wfp_dev_def)
  then show ?thesis using short magic by (auto simp: processWfp_def Let_def)
qed

lemma wfp_sizes_le_encode:
  "(\<And>c. c \<in> set cs \<Longrightarrow> length (cData c) \<le> lim) \<Longrightarrow> lim < 2 ^ 32 \<Longrightarrow> wfp_sizes_le lim (wfp_encode cs)"
proof (induction cs)
  case Nil
  then show ?case by (simp add: wfp_encode_def wfp_sizes_le.simps)
next
  case (Cons c cs)
  have len: "length (cData c) \<le> lim" "length (cData c) < 2 ^ 32" using Cons.prems by fastforce+
  then have "wfp_size_field (wfp_encode_chunk c @ wfp_encode cs) = length (cData c)"
    by (simp add: wfp_size_field_encode)
  then have "wfp_sizes_le lim (wfp_encode_chunk c @ wfp_encode cs)"
    using Cons len by (subst wfp_sizes_le.simps) auto
  then show ?case by (simp add: wfp_encode_def)
qed

lemma length_wfp_encode_ge: "c \<in> set cs \<Longrightarrow> 11 + length (cData c) \<le> length (wfp_encode cs)"
  by (induction cs) (auto simp: wfp_encode_def)

subsection \<open>A flasher library for the witnesses\<close>

text \<open>A library that accepts every request; its state is the log of what was programmed.\<close>

definition log_flasher :: "(unit, (u32 \<times> u8 list) list) flasher" where
  "log_flasher = \<lparr>BUS_ParFlash = 0, BUS_SPI = 1, BUS_IFlash = 2, BUS_SDIO = 3, RESULT_OK = 0,
     MSK_SQI_CFG_IDLE = 0, FLASHER_INTERFACE_VERSION = 3, SIZEOF_DEVICE_DESCRIPTION = 128, info_zero = (),
     spi_detect = \<lambda>cfg i w. (0, (), w), spi_read = \<lambda>i a b w. (0, [], w),
     spi_getEraseArea = \<lambda>i a b w. (0, a, b, w), spi_isErased = \<lambda>i a b w. (0, 0xff, w),
     spi_erase = \<lambda>i a b w. (0, w), spi_flash = \<lambda>i off n bs w. (0, w @ [(off, bs)]),
     sdio_detect_wrap = \<lambda>i w. (0, (), w), sdio_write = \<lambda>d off n bs w. (0, w @ [(off, bs)])\<rparr>"

definition desc_unit :: "unit DEVICE_DESCRIPTION_T" where
  "desc_unit = \<lparr>fIsValid = 0, sizThis = 0, ulVersion = 0, tSourceTyp = 0, uInfo = ()\<rparr>"

definition wfp_sample :: "wfp_chunk_t list" where
  "wfp_sample = [\<lparr>cBus = 1, cUnit = 0, cCs = 0, cOffset = 0x1000, cData = [1, 2, 3]\<rparr>,
     \<lparr>cBus = 3, cUnit = 0, cCs = 0, cOffset = 0x20, cData = [7]\<rparr>]"

definition wfp_sample_mem :: memory where
  "wfp_sample_mem = wrbytes (\<lambda>_. 0) 0x40000000 (wfp_magic @ wfp_encode wfp_sample)"

definition wfp_sample_info :: DEVICE_INFO_T where
  "wfp_sample_info = DEVICE_INFO_zero\<lparr>pucWfpImage := 0x40000000, sizWfpImage := 30\<rparr>"

lemmas wfp_sample_simps = wfp_sample_def wfp_encode_def wfp_encode_chunk_def wfp_magic_def le32_def
  log_flasher_def flashDataFile_def flashDataFile_erase_def wfp_detect_def wfp_desc_clear_def

subsection \<open>Properties\<close>

text \<open>(C3) On an image whose size fields are at most \<open>lim\<close>, where the end of the image and \<open>lim\<close> together
  stay below \<open>2^32\<close>, so that no pointer wraps, \<open>processWfp\<close>
  returns and does what the abstract machine does: it rejects an image without the SWFP magic,
  and otherwise flashes the chunks of the parsed image in order, each on its own device, and
  stops with the first error.  What happens to an image that breaks the condition is shown below.\<close>

theorem processWfp_refines:
  assumes "rdbytes m (pucWfpImage info) (length img) = img"
    and "unat (sizWfpImage info) = length img"
    and "unat (pucWfpImage info) + length img + lim < 2 ^ 32" and "12 \<le> lim"
    and "wfp_sizes_le lim (drop 4 img)"
  shows "processWfp fl m info desc0 w =
    (if length img < 4 \<or> take 4 img \<noteq> wfp_magic then Some (-1, w)
     else Some (case wfp_parse (drop 4 img) of (cs, ok) \<Rightarrow> wfp_flash fl None cs ok w))"
  using assms by (rule processWfp_image)

text \<open>(C3) Witness: the two chunks of a sample image.\<close>

theorem processWfp_refines_witness:
  "processWfp log_flasher wfp_sample_mem wfp_sample_info desc_unit [] =
     Some (case wfp_parse (wfp_encode wfp_sample) of (cs, ok) \<Rightarrow> wfp_flash log_flasher None cs ok [])"
proof -
  let ?img = "wfp_magic @ wfp_encode wfp_sample"
  have len: "length ?img = 30" by (simp add: wfp_sample_simps)
  have img: "rdbytes wfp_sample_mem (pucWfpImage wfp_sample_info) (length ?img) = ?img"
    using rdbytes_wrbytes [of ?img "\<lambda>_. 0" "0x40000000"] len
    by (simp add: wfp_sample_mem_def wfp_sample_info_def)
  have sizes: "wfp_sizes_le 100 (drop 4 ?img)"
    by (simp add: wfp_magic_def) (rule wfp_sizes_le_encode, auto simp: wfp_sample_def)
  show ?thesis
    using processWfp_refines [OF img _ _ _ sizes, where fl = log_flasher and ?desc0.0 = desc_unit and w = "[]"] len
    by (simp add: wfp_sample_info_def wfp_magic_def)
qed

text \<open>(C11) Round trip: when an image was put together from a list of chunks, whose last one has
  data, and lies far enough from the end of the address space, exactly these chunks are handed to the
  devices, in their order, until one of them fails.\<close>

theorem processWfp_encoded_image:
  assumes "rdbytes m (pucWfpImage info) (4 + length (wfp_encode cs)) = wfp_magic @ wfp_encode cs"
    and "unat (sizWfpImage info) = 4 + length (wfp_encode cs)"
    and "unat (pucWfpImage info) + 2 * length (wfp_encode cs) + 16 < 2 ^ 32"
    and "cs \<noteq> []" and "cData (last cs) \<noteq> []"
  shows "processWfp fl m info desc0 w = Some (wfp_flash fl None cs True w)"
proof -
  let ?n = "length (wfp_encode cs)"
  have bound: "length (cData c) \<le> ?n" "length (cData c) < 2 ^ 32" if "c \<in> set cs" for c
    using length_wfp_encode_ge [OF that] assms(3) by auto
  have "12 \<le> ?n"
    using length_wfp_encode_ge [OF last_in_set [OF assms(4)]] assms(5)
    by (cases "cData (last cs)") auto
  moreover have "wfp_sizes_le ?n (wfp_encode cs)"
    using bound assms(3) by (intro wfp_sizes_le_encode) auto
  ultimately have "processWfp fl m info desc0 w =
      Some (case wfp_parse (wfp_encode cs) of (cs, ok) \<Rightarrow> wfp_flash fl None cs ok w)"
    using assms(1-3) by (subst processWfp_image [of m info "wfp_magic @ wfp_encode cs" ?n]) simp_all
  then show ?thesis using wfp_parse_encode [of cs] bound(2) assms(5) by simp
qed

text \<open>(C11) Witness: the sample image, and what it programs.\<close>

theorem processWfp_encoded_image_witness:
  "processWfp log_flasher wfp_sample_mem wfp_sample_info desc_unit [] =
     Some (0, [(0x1000, [1, 2, 3]), (0x20, [7])])"
proof -
  have len: "length (wfp_encode wfp_sample) = 26" by (simp add: wfp_sample_simps)
  have img: "rdbytes wfp_sample_mem (pucWfpImage wfp_sample_info) (4 + length (wfp_encode wfp_sample)) =
      wfp_magic @ wfp_encode wfp_sample"
    using rdbytes_wrbytes [of "wfp_magic @ wfp_encode wfp_sample" "\<lambda>_. 0" "0x40000000"] len
    by (simp add: wfp_sample_mem_def wfp_sample_info_def wfp_magic_def)
  have "processWfp log_flasher wfp_sample_mem wfp_sample_info desc_unit [] =
      Some (wfp_flash log_flasher None wfp_sample True [])"
    using processWfp_encoded_image [OF img, where fl = log_flasher and ?desc0.0 = desc_unit and w = "[]"] len
    by (simp add: wfp_sample_info_def) (simp add: wfp_sample_def)
  then show ?thesis by (simp add: wfp_sample_simps Let_def)
qed

text \<open>(C39) The pointer check does not hold for large size fields.  A chunk of 12 bytes at the end of an image
  that claims \<open>2^32 - 11\<close> bytes is not in the format, but it passes the check: whatever the devices do, the loop
  selects the device and, when this works, calls \<open>flashDataFile\<close> with this size on the memory
  behind the header; when that reports success, the loop goes on with the same chunk.\<close>

theorem wfp_loop_size_wrap:
  assumes "rdbytes m (pucDataCnt s) 12 = [b, u, c] @ le32 off @ le32 0xfffffff5 @ [x]"
    and "pucDataEnd s = pucDataCnt s + 12" and "unat (pucDataCnt s) + 12 < 2 ^ 32"
  shows "wfp_parse ([b, u, c] @ le32 off @ le32 0xfffffff5 @ [x]) = ([], False) \<and>
    wfp_loop fl m s =
     (case wfp_select fl (ucast b) (ucast u) (ucast c) (s\<lparr>pucDataCnt := pucDataCnt s + 11\<rparr>) of (ok, t) \<Rightarrow>
       if \<not> ok then Some t
       else case flashDataFile fl (ucast b) (tDeviceDesc t) off (rdbytes m (pucDataCnt s + 11) 4294967285) 0xfffffff5
           (world t) of (r, w) \<Rightarrow>
         if r = 0 then wfp_loop fl m (t\<lparr>wfp_iResult := 0, world := w, pucDataCnt := pucDataCnt s\<rparr>)
         else Some (t\<lparr>wfp_iResult := r, world := w\<rparr>))"
proof
  let ?p = "pucDataCnt s"
  have bytes: "m ?p = b" "m (?p + 1) = u" "m (?p + 2) = c" and off: "rd32 m (?p + 3) = off"
    using assms(1) by (simp_all add: rdbytes_numeral le32_def rd32_le add.assoc)
  have size: "rd32 m (?p + 7) = 0xfffffff5"
    using assms(1) by (simp add: rdbytes_numeral le32_def rd32_le add.assoc) (simp add: of_le32_def)
  have less: "?p < ?p + 12" using assms(3) by (simp add: word_less_nat_alt unat_word_ariths)
  have zero: "4294967296 = (0 :: u32)" by simp
  show "wfp_loop fl m s =
     (case wfp_select fl (ucast b) (ucast u) (ucast c) (s\<lparr>pucDataCnt := pucDataCnt s + 11\<rparr>) of (ok, t) \<Rightarrow>
       if \<not> ok then Some t
       else case flashDataFile fl (ucast b) (tDeviceDesc t) off (rdbytes m (pucDataCnt s + 11) 4294967285) 0xfffffff5
           (world t) of (r, w) \<Rightarrow>
         if r = 0 then wfp_loop fl m (t\<lparr>wfp_iResult := 0, world := w, pucDataCnt := pucDataCnt s\<rparr>)
         else Some (t\<lparr>wfp_iResult := r, world := w\<rparr>))"
    using less assms(2)
    by (simp add: wfp_loop.simps [of fl m s] wfp_chunk_def Let_def bytes off size zero order_less_not_sym split: prod.split)
  show "wfp_parse ([b, u, c] @ le32 off @ le32 0xfffffff5 @ [x]) = ([], False)"
    by (simp add: wfp_parse.simps wfp_size_field_def le32_def of_le32_def)
qed

text \<open>When the device accepts the data every time, \<open>processWfp\<close> never returns.\<close>

theorem processWfp_size_wrap_diverges:
  assumes "m p = 0x53" "m (p + 1) = 0x57" "m (p + 2) = 0x46" "m (p + 3) = 0x50"
    and "ucast (m (p + 4)) = BUS_SDIO fl" and "rd32 m (p + 11) = 0xfffffff5"
    and "BUS_SDIO fl \<notin> {BUS_ParFlash fl, BUS_SPI fl, BUS_IFlash fl}"
    and "\<And>i w. fst (sdio_detect_wrap fl i w) = RESULT_OK fl"
    and "\<And>d off n bs w. fst (sdio_write fl d off n bs w) = RESULT_OK fl"
    and "pucWfpImage info = p" and "sizWfpImage info = 16" and "unat p + 16 < 2 ^ 32"
  shows "processWfp fl m info desc0 w = None"
proof -
  define at :: "('a, 'b) wfp_state \<Rightarrow> bool" where "at = (\<lambda>s. pucDataCnt s = p + 4 \<and> pucDataEnd s = p + 16)"
  have p: "unat (p + 16) = unat p + 16" "unat (p + 4) = unat p + 4"
    using assms(12) by (simp_all add: unat_word_ariths)
  have step: "\<exists>s'. wfp_chunk fl m s = (True, s') \<and> at s'" if "at s" for s
  proof -
    have q: "p + 4 + 12 = p + 16" "p + 4 + 7 = p + 11" "p + 4 + 11 + 0xfffffff5 = p + 4"
      by (simp_all add: add.assoc)
    have less: "p + 4 < p + 16" using p by (simp add: word_less_nat_alt)
    have detect: "fst (wfp_detect fl (BUS_SDIO fl) u c w) = 0" for u c w
      using assms(7,8) by (auto simp: wfp_detect_def Let_def split: prod.split) (metis fst_conv)
    have flash: "\<exists>w'. flashDataFile fl (BUS_SDIO fl) d off bs n w = (0, w')" for d off bs n w
      using assms(7) assms(9) [of d off n bs w] by (auto simp: flashDataFile_def split: prod.split)
    obtain t where sel: "wfp_select fl (BUS_SDIO fl) (ucast (m (p + 4 + 1))) (ucast (m (p + 4 + 2)))
        (s\<lparr>pucDataCnt := p + 4 + 11\<rparr>) = (True, t)" "pucDataEnd t = pucDataEnd s"
      using wfp_select_detected [OF detect, where s = "s\<lparr>pucDataCnt := p + 4 + 11\<rparr>"] by fastforce
    obtain w' where "flashDataFile fl (BUS_SDIO fl) (tDeviceDesc t) (rd32 m (p + 4 + 3))
        (rdbytes m (p + 4 + 11) (unat (0xfffffff5 :: u32))) 0xfffffff5 (world t) = (0, w')"
      using flash by blast
    moreover have cnt: "pucDataCnt s = p + 4" "pucDataEnd s = p + 16" using that by (simp_all add: at_def)
    moreover have "\<not> p + 16 < p + 4" using less by (rule order_less_not_sym)
    ultimately have "wfp_chunk fl m s = (True, t\<lparr>wfp_iResult := 0, world := w',
        pucDataCnt := pucDataCnt s + 11 + 0xfffffff5\<rparr>)"
      using sel(1) assms(5,6) by (intro wfp_chunk_continue) (simp_all only: q, simp_all)
    then show ?thesis using sel(2) cnt by (simp add: at_def q)
  qed
  have "wfp_loop fl m s = None" if "at s" for s
    using that p step
    by (intro wfp_loop_diverges [where Q = at]) (auto simp: at_def word_less_nat_alt)
  then show ?thesis using assms(1-4,10,11) p
    by (simp add: processWfp_def Let_def at_def word_less_nat_alt not_less)
qed

definition wfp_wrap_mem :: memory where
  "wfp_wrap_mem = wrbytes (\<lambda>_. 0) 0x40000000
     (wfp_magic @ [3, 0, 0, 0, 0, 0, 0, 0xf5, 0xff, 0xff, 0xff, 0])"

text \<open>(C39) Witness: such a chunk at the download address, and a library that accepts it.\<close>

theorem wfp_loop_size_wrap_witness:
  "let s = (\<lambda>d w. \<lparr>pucDataCnt = 0x40000004, pucDataEnd = 0x40000010, uiLastBus = 3, uiLastUnit = 0, uiLastCs = 0,
       tDeviceDesc = d, wfp_iResult = 0, world = w\<rparr>) in
   wfp_loop log_flasher wfp_wrap_mem (s desc_unit []) =
   wfp_loop log_flasher wfp_wrap_mem (s desc_unit [(0, rdbytes wfp_wrap_mem 0x4000000f 4294967285)])"
proof -
  let ?s = "\<lparr>pucDataCnt = 0x40000004, pucDataEnd = 0x40000010, uiLastBus = 3, uiLastUnit = 0, uiLastCs = 0,
       tDeviceDesc = desc_unit, wfp_iResult = 0, world = []\<rparr>"
  have "rdbytes wfp_wrap_mem (pucDataCnt ?s) 12 = [3, 0, 0] @ le32 0 @ le32 0xfffffff5 @ [0]"
    by (simp add: wfp_wrap_mem_def wfp_magic_def rdbytes_numeral le32_def)
  from wfp_loop_size_wrap [OF this, of log_flasher] show ?thesis
    by (simp add: wfp_select_def flashDataFile_def log_flasher_def)
qed

text \<open>Witness for the endless run: such an image at the download address.\<close>

theorem processWfp_size_wrap_diverges_witness:
  "processWfp log_flasher wfp_wrap_mem
     (DEVICE_INFO_zero\<lparr>pucWfpImage := 0x40000000, sizWfpImage := 16\<rparr>) desc_unit [] = None"
proof -
  have "rd32 wfp_wrap_mem (0x40000000 + 11) = 0xfffffff5"
    by (simp add: wfp_wrap_mem_def wfp_magic_def rd32_def)
  then show ?thesis
    by (intro processWfp_size_wrap_diverges [where p = "0x40000000"])
       (simp_all add: wfp_wrap_mem_def wfp_magic_def log_flasher_def)
qed

text \<open>(C13) Erase before program, on an SPI device: either the result is an error that does not depend on what
  \<open>spi_flash\<close> does, so it is not called, or the erase area of the chunk was determined, the check of this
  area reported it as blank, directly or after an erase without an error, and \<open>spi_flash\<close> is called with the chunk in the state
  this check left; its result code decides then.  The result code of the check behind the erase is not
  looked at.\<close>

theorem flashDataFile_programs_erased:
  assumes "BUS_SPI fl \<noteq> BUS_ParFlash fl"
  shows "fst (flashDataFile fl (BUS_SPI fl) desc off bs n w) = -1 \<and>
      (\<forall>g. flashDataFile (fl\<lparr>spi_flash := g\<rparr>) (BUS_SPI fl) desc off bs n w = flashDataFile fl (BUS_SPI fl) desc off bs n w) \<or>
    (\<exists>a b w1 w2. spi_getEraseArea fl (uInfo desc) off (off + n) w = (RESULT_OK fl, a, b, w1) \<and>
      (spi_isErased fl (uInfo desc) a b w1 = (RESULT_OK fl, 0xff, w2) \<or>
       (\<exists>v w3 w4 r. spi_isErased fl (uInfo desc) a b w1 = (RESULT_OK fl, v, w3) \<and> v \<noteq> 0xff \<and>
          spi_erase fl (uInfo desc) a b w3 = (RESULT_OK fl, w4) \<and> spi_isErased fl (uInfo desc) a b w4 = (r, 0xff, w2))) \<and>
      flashDataFile fl (BUS_SPI fl) desc off bs n w =
        (case spi_flash fl (uInfo desc) off n bs w2 of (r, w') \<Rightarrow> (if r = RESULT_OK fl then 0 else -1, w')))"
proof -
  obtain r a b w1 where area: "spi_getEraseArea fl (uInfo desc) off (off + n) w = (r, a, b, w1)"
    using prod_cases4 by blast
  obtain e w2 where erase: "flashDataFile_erase fl desc a b w1 = (e, w2)" by fastforce
  have same: "flashDataFile_erase (fl\<lparr>spi_flash := g\<rparr>) desc a b w1 = (e, w2)" for g
    using erase by (simp add: flashDataFile_erase_def cong: if_cong prod.case_cong)
  have e: "e = -1 \<or> e = 0 \<and> (spi_isErased fl (uInfo desc) a b w1 = (RESULT_OK fl, 0xff, w2) \<or>
       (\<exists>v w3 w4 r. spi_isErased fl (uInfo desc) a b w1 = (RESULT_OK fl, v, w3) \<and> v \<noteq> 0xff \<and>
          spi_erase fl (uInfo desc) a b w3 = (RESULT_OK fl, w4) \<and> spi_isErased fl (uInfo desc) a b w4 = (r, 0xff, w2)))"
    using erase by (auto simp: flashDataFile_erase_def split: prod.splits if_splits)
  show ?thesis
  proof (cases "r = RESULT_OK fl \<and> e = 0")
    case True
    then have "flashDataFile fl (BUS_SPI fl) desc off bs n w =
        (case spi_flash fl (uInfo desc) off n bs w2 of (r, w') \<Rightarrow> (if r = RESULT_OK fl then 0 else -1, w'))"
      using area erase assms by (simp add: flashDataFile_def split: prod.split)
    then show ?thesis using area True e by (intro disjI2 exI [of _ a] exI [of _ b] exI [of _ w1] exI [of _ w2]) simp
  next
    case False
    then show ?thesis using area erase same e assms by (intro disjI1) (auto simp: flashDataFile_def)
  qed
qed

definition erase_flasher :: "(unit, bool \<times> (u32 \<times> u8 list) list) flasher" where
  "erase_flasher = \<lparr>BUS_ParFlash = 0, BUS_SPI = 1, BUS_IFlash = 2, BUS_SDIO = 3, RESULT_OK = 0,
     MSK_SQI_CFG_IDLE = 0, FLASHER_INTERFACE_VERSION = 3, SIZEOF_DEVICE_DESCRIPTION = 128, info_zero = (),
     spi_detect = \<lambda>cfg i w. (0, (), w), spi_read = \<lambda>i a b w. (0, [], w),
     spi_getEraseArea = \<lambda>i a b w. (0, a AND 0xfffff000, b, w),
     spi_isErased = \<lambda>i a b w. (0, if fst w then 0xff else 0, w),
     spi_erase = \<lambda>i a b w. (0, True, snd w), spi_flash = \<lambda>i off n bs w. (0, False, snd w @ [(off, bs)]),
     sdio_detect_wrap = \<lambda>i w. (0, (), w), sdio_write = \<lambda>d off n bs w. (0, w)\<rparr>"

text \<open>(C13) Witness: one byte on a device that is not blank at first.\<close>

theorem flashDataFile_programs_erased_witness:
  "\<exists>a b w1 w2. spi_getEraseArea erase_flasher () 16 (16 + 1) (False, []) = (RESULT_OK erase_flasher, a, b, w1) \<and>
     \<not> fst w1 \<and> fst w2 \<and> spi_flash erase_flasher () 16 1 [5] w2 = (RESULT_OK erase_flasher, False, [(16, [5])])"
proof -
  have run: "flashDataFile erase_flasher (BUS_SPI erase_flasher) desc_unit 16 [5] 1 (False, []) =
      (0, False, [(16, [5])])"
    by (simp add: erase_flasher_def flashDataFile_def flashDataFile_erase_def desc_unit_def)
  have "BUS_SPI erase_flasher \<noteq> BUS_ParFlash erase_flasher" by (simp add: erase_flasher_def)
  from flashDataFile_programs_erased [OF this, of desc_unit 16 "[5]" 1 "(False, [])"] run show ?thesis
    by (auto simp: erase_flasher_def desc_unit_def split: if_splits prod.splits)
qed

end
