(* ===== verification/Info_File.thy ===== *)
theory Info_File
  imports Device
begin

text \<open>
  The parser of the info file, \<open>parseInfoFile\<close> in main.c. The file names the data file in its
  first line and gives the SHA384 sum of the data file as 96 hex digits behind the line end.
  The buffer is the list of the downloaded bytes (\<open>getDeviceInfo\<close> downloads at most 2047 bytes
  into an array, so no counter of the parser can wrap); the array \<open>acDataUri\<close> has 1024 and the
  hash 48 bytes.
\<close>

subsection \<open>Definitions\<close>

definition is_newline :: "u8 \<Rightarrow> bool" where
  "is_newline c \<longleftrightarrow> c = 13 \<or> c = 10"

text \<open>The loop that looks for the first line end; \<open>pcCnt\<close> and \<open>uiLineSize\<close> run in step.\<close>

function find_newline :: "u8 list \<Rightarrow> nat \<Rightarrow> nat" where
  "find_newline buf i =
     (if i < length buf then (if is_newline (buf ! i) then i else find_newline buf (i + 1)) else i)"
  by pat_completeness auto
termination
  by (relation "measure (\<lambda>(buf, i). length buf - i)") auto

function skip_newline :: "u8 list \<Rightarrow> nat \<Rightarrow> nat" where
  "skip_newline buf i =
     (if i < length buf \<and> is_newline (buf ! i) then skip_newline buf (i + 1) else i)"
  by pat_completeness auto
termination
  by (relation "measure (\<lambda>(buf, i). length buf - i)") auto

declare find_newline.simps [simp del] skip_newline.simps [simp del]

text \<open>The value of a digit; \<open>None\<close> is the branch that leaves the loop.\<close>

definition hex_digit :: "u8 \<Rightarrow> u8 option" where
  "hex_digit cDigit =
     (if 0x30 \<le> cDigit \<and> cDigit \<le> 0x39 then Some (cDigit - 0x30)
      else if 0x61 \<le> cDigit \<and> cDigit \<le> 0x66 then Some (cDigit - 0x61 + 10)
      else if 0x41 \<le> cDigit \<and> cDigit \<le> 0x46 then Some (cDigit - 0x41 + 10)
      else None)"

text \<open>
  The digit loop: \<open>c\<close> is \<open>pcCnt\<close>, \<open>n\<close> is \<open>uiLineSize\<close>, \<open>h\<close> the index of \<open>pucHash\<close>. It returns the
  number of digits read and the hash.
\<close>

function hash_loop :: "u8 list \<Rightarrow> nat \<Rightarrow> nat \<Rightarrow> nat \<Rightarrow> u8 list \<Rightarrow> nat \<times> u8 list" where
  "hash_loop buf c n h hash =
     (let uiInc = n mod 2; uiShift = (if uiInc = 0 then 4 else 0) in
      case hex_digit (buf ! (c + n)) of
        None \<Rightarrow> (n, hash)
      | Some d \<Rightarrow>
          let hash' = hash[h := hash ! h OR push_bit uiShift d] in
          if n + 1 < 96 then hash_loop buf c (n + 1) (h + uiInc) hash' else (n + 1, hash'))"
  by pat_completeness auto
termination
  by (relation "measure (\<lambda>(buf, c, n, h, hash). 96 - n)") auto

declare hash_loop.simps [simp del]

definition parseInfoFile :: "u8 list \<Rightarrow> DEVICE_INFO_T \<Rightarrow> int \<times> DEVICE_INFO_T" where
  "parseInfoFile buf info =
    (let n = find_newline buf 0 in
     if n < length buf then
       if n < length (acDataUri info) - 1 then
         let uri = put_bytes (put_bytes (put_bytes (acDataUri info) 0 [0x2f]) 1 (take n buf)) (n + 1) [0];
             c = skip_newline buf n;
             info = info\<lparr>acDataUri := uri, tHash := replicate 48 0\<rparr> in
         if c + 96 < length buf then
           (case hash_loop buf c 0 0 (tHash info) of (k, hash) \<Rightarrow>
              (if k = 96 then 0 else -1, info\<lparr>tHash := hash\<rparr>))
         else (-1, info)
       else (-1, info)
     else (-1, info))"

subsection \<open>What the loops compute\<close>

lemma find_newline_eq:
  "i \<le> length buf \<Longrightarrow> find_newline buf i = i + length (takeWhile (\<lambda>c. \<not> is_newline c) (drop i buf))"
proof (induction buf i rule: find_newline.induct)
  case (1 buf i)
  show ?case
  proof (cases "i < length buf")
    case True
    then have "drop i buf = buf ! i # drop (Suc i) buf" by (simp add: Cons_nth_drop_Suc)
    then show ?thesis using 1 True by (auto simp: find_newline.simps [of buf i])
  next
    case False
    then show ?thesis using "1.prems" by (subst find_newline.simps) simp
  qed
qed

lemma skip_newline_eq:
  "i \<le> length buf \<Longrightarrow> skip_newline buf i = i + length (takeWhile is_newline (drop i buf))"
proof (induction buf i rule: skip_newline.induct)
  case (1 buf i)
  show ?case
  proof (cases "i < length buf")
    case True
    then have "drop i buf = buf ! i # drop (Suc i) buf" by (simp add: Cons_nth_drop_Suc)
    then show ?thesis using 1 True by (auto simp: skip_newline.simps [of buf i])
  next
    case False
    then show ?thesis using "1.prems" by (subst skip_newline.simps) simp
  qed
qed

abbreviation is_hex :: "u8 \<Rightarrow> bool" where
  "is_hex c \<equiv> hex_digit c \<noteq> None"

text \<open>The bytes that pairs of hex digits stand for.\<close>

fun hex_bytes :: "u8 list \<Rightarrow> u8 list" where
  "hex_bytes (a # b # ds) = (push_bit 4 (the (hex_digit a)) OR the (hex_digit b)) # hex_bytes ds"
| "hex_bytes _ = []"

lemma hash_loop_count:
  "n < 96 \<Longrightarrow> (fst (hash_loop buf c n h hash) = 96) = (\<forall>i. n \<le> i \<and> i < 96 \<longrightarrow> is_hex (buf ! (c + i)))"
proof (induction buf c n h hash rule: hash_loop.induct)
  case (1 buf c n h hash)
  show ?case
  proof (cases "hex_digit (buf ! (c + n))")
    case None
    then show ?thesis using "1.prems" by (auto simp: hash_loop.simps [of buf c n h])
  next
    case (Some d)
    let ?hash = "hash[h := hash ! h OR push_bit (if n mod 2 = 0 then 4 else 0) d]"
    have split: "(\<forall>i. n \<le> i \<and> i < 96 \<longrightarrow> is_hex (buf ! (c + i))) =
        (\<forall>i. n + 1 \<le> i \<and> i < 96 \<longrightarrow> is_hex (buf ! (c + i)))"
      using Some by (auto simp: Suc_le_eq) (metis Some option.distinct(1) le_neq_implies_less)
    show ?thesis
    proof (cases "n + 1 < 96")
      case True
      have "(fst (hash_loop buf c (n + 1) (h + n mod 2) ?hash) = 96) =
          (\<forall>i. n + 1 \<le> i \<and> i < 96 \<longrightarrow> is_hex (buf ! (c + i)))"
        using "1.IH" [OF refl refl Some refl True] True by simp
      then show ?thesis using True Some
        by (subst split) (simp add: hash_loop.simps [of buf c n h] Let_def)
    next
      case False
      with "1.prems" have n: "n = 95" by simp
      then have "fst (hash_loop buf c n h hash) = 96"
        using Some by (subst hash_loop.simps) (simp add: Let_def)
      then show ?thesis using n by (subst split) auto
    qed
  qed
qed

lemma hash_loop_pair:
  assumes d: "hex_digit (buf ! (c + 2 * k)) = Some d" "hex_digit (buf ! (c + 2 * k + 1)) = Some e"
    and k: "k < 48" "k < length hash"
  shows "hash_loop buf c (2 * k) k hash =
    (let hash' = hash[k := hash ! k OR push_bit 4 d OR e] in
     if k + 1 < 48 then hash_loop buf c (2 * (k + 1)) (k + 1) hash' else (96, hash'))"
proof -
  have "hash_loop buf c (2 * k) k hash = hash_loop buf c (2 * k + 1) k (hash[k := hash ! k OR push_bit 4 d])"
    using d(1) k by (subst hash_loop.simps) (simp add: Let_def)
  also have "\<dots> = (let hash' = hash[k := hash ! k OR push_bit 4 d OR e] in
     if k + 1 < 48 then hash_loop buf c (2 * (k + 1)) (k + 1) hash' else (96, hash'))"
    using d(2) k by (subst hash_loop.simps) (auto simp: Let_def or.assoc)
  finally show ?thesis .
qed

lemma hash_loop_hex:
  assumes hex: "\<And>i. i < 96 \<Longrightarrow> is_hex (buf ! (c + i))" and "k < 48" and "length pre = k"
  shows "hash_loop buf c (2 * k) k (pre @ replicate (48 - k) 0) =
    (96, pre @ hex_bytes (map (\<lambda>i. buf ! (c + i)) [2 * k..<96]))"
  using assms(2,3)
proof (induction "48 - k" arbitrary: k pre)
  case 0
  then show ?case by simp
next
  case (Suc x)
  obtain d e where d: "hex_digit (buf ! (c + 2 * k)) = Some d" "hex_digit (buf ! (c + 2 * k + 1)) = Some e"
    using hex [of "2 * k"] hex [of "2 * k + 1"] Suc.prems(1) by auto
  have upt: "[2 * k..<96] = 2 * k # (2 * k + 1) # [2 * (k + 1)..<96]"
    using Suc.prems(1) by (simp add: upt_conv_Cons)
  have rep: "replicate (48 - k) (0 :: u8) = 0 # replicate (48 - (k + 1)) 0"
    using Suc.prems(1) by (simp add: Suc_diff_Suc flip: replicate_Suc)
  have upd: "(pre @ replicate (48 - k) 0)[k := (pre @ replicate (48 - k) 0) ! k OR push_bit 4 d OR e] =
      (pre @ [push_bit 4 d OR e]) @ replicate (48 - (k + 1)) 0"
    using Suc.prems(2) by (simp add: rep list_update_append nth_append)
  show ?case
  proof (cases "k + 1 < 48")
    case True
    then show ?thesis
      using Suc.hyps(1) [of "k + 1" "pre @ [push_bit 4 d OR e]"] Suc.hyps(2) Suc.prems d
      by (subst hash_loop_pair [OF d]) (simp_all add: upd upt Let_def)
  next
    case False
    then have "48 - (k + 1) = 0" "[2 * (k + 1)..<96] = []" by simp_all
    then show ?thesis
      using False Suc.prems d by (subst hash_loop_pair [OF d]) (simp_all add: upd upt Let_def)
  qed
qed

lemma map_nth_append_block:
  "length ds = 96 \<Longrightarrow> map (\<lambda>i. (xs @ ds @ ys) ! (length xs + i)) [0..<96] = ds"
  by (rule nth_equalityI) (auto simp: nth_append)

subsection \<open>The accepted files\<close>

text \<open>The format of an info file: the name of the data file, line ends and 96 hex digits; what
  follows them is not looked at.\<close>

definition info_file :: "u8 list \<Rightarrow> u8 list \<Rightarrow> u8 list \<Rightarrow> bool" where
  "info_file name nl digits \<longleftrightarrow> list_all (\<lambda>c. \<not> is_newline c) name \<and>
     nl \<noteq> [] \<and> list_all is_newline nl \<and> length digits = 96 \<and> list_all is_hex digits"

lemma hex_not_newline: "is_hex c \<Longrightarrow> \<not> is_newline c"
  by (auto simp: is_newline_def hex_digit_def)

lemma takeWhile_append_stop:
  "list_all P xs \<Longrightarrow> (ys = [] \<or> \<not> P (hd ys)) \<Longrightarrow> takeWhile P (xs @ ys) = xs"
  by (induction xs) (auto simp: takeWhile_eq_Nil_iff)

lemma parseInfoFile_accepts:
  assumes inf: "info_file name nl digits" and rest: "rest \<noteq> []"
    and room: "length name < length (acDataUri info) - 1"
  shows "parseInfoFile (name @ nl @ digits @ rest) info =
    (0, info\<lparr>acDataUri := put_bytes (acDataUri info) 0 (0x2f # name @ [0]), tHash := hex_bytes digits\<rparr>)"
proof -
  let ?buf = "name @ nl @ digits @ rest"
  obtain d ds where ds: "digits = d # ds" using inf by (cases digits) (auto simp: info_file_def)
  have find: "find_newline ?buf 0 = length name"
    using inf by (cases nl) (auto simp: info_file_def find_newline_eq takeWhile_append_stop)
  have skip: "skip_newline ?buf (length name) = length (name @ nl)"
    using inf ds hex_not_newline [of d]
    by (auto simp: info_file_def skip_newline_eq takeWhile_append_stop)
  have nth: "?buf ! (length (name @ nl) + i) = digits ! i" if "i < 96" for i
    using that inf by (simp add: info_file_def nth_append)
  have "hash_loop ?buf (length (name @ nl)) (2 * 0) 0 ([] @ replicate (48 - 0) 0) =
      (96, [] @ hex_bytes (map (\<lambda>i. ?buf ! (length (name @ nl) + i)) [2 * 0..<96]))"
    using inf nth by (intro hash_loop_hex) (auto simp: info_file_def list_all_length)
  moreover have "map (\<lambda>i. ?buf ! (length (name @ nl) + i)) [0..<96] = digits"
    using inf map_nth_append_block [of digits "name @ nl" rest] by (simp add: info_file_def)
  ultimately have loop: "hash_loop ?buf (length (name @ nl)) 0 0 (replicate 48 0) = (96, hex_bytes digits)"
    by simp
  have uri: "put_bytes (put_bytes (put_bytes (acDataUri info) 0 [0x2f]) 1 name) (length name + 1) [0] =
      put_bytes (acDataUri info) 0 (0x2f # name @ [0])"
    using room by (simp add: put_bytes_def min_def)
  have "length nl > 0" "length rest > 0" "length digits = 96" using inf rest by (auto simp: info_file_def)
  then show ?thesis using room uri loop
    by (simp add: parseInfoFile_def find skip Let_def)
qed

lemma parseInfoFile_accepts_only:
  assumes ok: "fst (parseInfoFile buf info) = 0"
  shows "\<exists>name nl digits rest. buf = name @ nl @ digits @ rest \<and> info_file name nl digits \<and> rest \<noteq> [] \<and>
    length name < length (acDataUri info) - 1"
proof -
  define name where "name = takeWhile (\<lambda>c. \<not> is_newline c) buf"
  define tl1 where "tl1 = dropWhile (\<lambda>c. \<not> is_newline c) buf"
  define nl where "nl = takeWhile is_newline tl1"
  define tl2 where "tl2 = dropWhile is_newline tl1"
  have buf: "buf = name @ tl1" "tl1 = nl @ tl2" by (simp_all add: name_def tl1_def nl_def tl2_def)
  have find: "find_newline buf 0 = length name" by (simp add: find_newline_eq name_def)
  have short: "length name < length buf" "length name < length (acDataUri info) - 1"
    using ok by (auto simp: parseInfoFile_def find Let_def split: if_splits)
  have "drop (length name) buf = tl1" by (subst buf(1)) simp
  then have skip: "skip_newline buf (length name) = length (name @ nl)"
    using short(1) by (simp add: skip_newline_eq flip: nl_def)
  have len: "length (name @ nl) + 96 < length buf"
    and cnt: "fst (hash_loop buf (length (name @ nl)) 0 0 (replicate 48 0)) = 96"
    using ok short by (auto simp: parseInfoFile_def find skip Let_def split: if_splits prod.splits)
  have whole: "buf = (name @ nl) @ tl2" using buf by simp
  have hex: "is_hex (tl2 ! i)" if "i < 96" for i
  proof -
    have "is_hex (buf ! (length (name @ nl) + i))"
      using cnt that hash_loop_count [of 0 buf "length (name @ nl)" 0 "replicate 48 0"] by auto
    then show ?thesis by (subst (asm) whole) (simp only: nth_append_length_plus not_False_eq_True)
  qed
  have "tl1 \<noteq> []" using short(1) arg_cong [OF buf(1), of length] by auto
  then have "is_newline (hd tl1)" using hd_dropWhile [of "\<lambda>c. \<not> is_newline c" buf] by (simp add: tl1_def)
  then have nl: "nl \<noteq> []" using \<open>tl1 \<noteq> []\<close> by (cases tl1) (auto simp: nl_def)
  have "96 < length tl2" using len arg_cong [OF whole, of length] by simp
  then have "info_file name nl (take 96 tl2)" "drop 96 tl2 \<noteq> []"
    using hex nl by (auto simp: info_file_def name_def nl_def list_all_iff in_set_conv_nth
        dest: set_takeWhileD)
  moreover have "buf = name @ nl @ take 96 tl2 @ drop 96 tl2" using whole by simp
  ultimately show ?thesis using short(2) by blast
qed

subsection \<open>Printing a hash\<close>

definition hex_char :: "u8 \<Rightarrow> u8" where
  "hex_char d = (if d < 10 then d + 0x30 else d - 10 + 0x61)"

definition hex_print :: "u8 list \<Rightarrow> u8 list" where
  "hex_print bs = concat (map (\<lambda>b. [hex_char (drop_bit 4 b), hex_char (b AND 15)]) bs)"

lemma hex_digit_char: "d < 16 \<Longrightarrow> hex_digit (hex_char d) = Some d"
  unfolding hex_digit_def hex_char_def by unat_arith simp_all

lemma nibble_mask: "(15 :: u8) = mask 4"
  by (simp add: mask_eq_exp_minus_1)

lemma nibbles: "push_bit 4 (drop_bit 4 b) OR (b AND 15) = (b :: u8)"
  by (subst nibble_mask) (rule bit_word_eqI, auto simp: bit_simps)

lemma nibble_less: "drop_bit 4 (b :: u8) < 16" "b AND 15 < (16 :: u8)"
proof -
  have "unat (drop_bit 4 b) = unat b div 2 ^ 4"
    by (rule trans [OF unat_drop_bit_eq drop_bit_eq_div])
  moreover have "unat b div 2 ^ 4 < 16" using unat_u8_less [of b] by (simp add: less_mult_imp_div_less)
  ultimately show "drop_bit 4 b < 16" by (simp only: word_less_nat_alt) simp
  have "unat (b AND 15) \<le> unat (15 :: u8)" using word_and_le1 [of b 15] by (simp only: word_le_nat_alt)
  then show "b AND 15 < 16" by (simp only: word_less_nat_alt) simp
qed

lemma hex_print_parse [simp]: "hex_bytes (hex_print bs) = bs"
  by (induction bs) (auto simp: hex_print_def hex_digit_char nibble_less nibbles)

lemma hex_print_hex: "list_all is_hex (hex_print bs)"
  by (induction bs) (auto simp: hex_print_def hex_digit_char nibble_less)

lemma length_hex_print [simp]: "length (hex_print bs) = 2 * length bs"
  by (induction bs) (auto simp: hex_print_def)

subsection \<open>Properties\<close>

text \<open>(C14) \<open>parseInfoFile\<close> succeeds exactly on the files of a name, line ends and 96 hex digits
  for which in addition at least one more byte follows the digits and the name is at least two bytes
  shorter than the URI array; it has then stored the URI, a slash and the name with a terminating
  zero, and the value of the digits, and nothing else.  The two additional conditions are stricter than
  the comment (\<open>Expect 96 hex digits\<close>) and the message (\<open>It must not exceed\<close>) of the code say.\<close>

theorem parseInfoFile_ok_iff:
  "parseInfoFile buf info = (0, info') \<longleftrightarrow>
     (\<exists>name nl digits rest. buf = name @ nl @ digits @ rest \<and> info_file name nl digits \<and>
        rest \<noteq> [] \<and> length name + 2 \<le> length (acDataUri info) \<and>
        info' = info\<lparr>acDataUri := put_bytes (acDataUri info) 0 (0x2f # name @ [0]), tHash := hex_bytes digits\<rparr>)"
    (is "?L \<longleftrightarrow> ?R")
proof
  assume ok: ?L
  then obtain name nl digits rest where f: "buf = name @ nl @ digits @ rest" "info_file name nl digits"
    "rest \<noteq> []" "length name < length (acDataUri info) - 1"
    using parseInfoFile_accepts_only [of buf info] by auto
  moreover have "info' = info\<lparr>acDataUri := put_bytes (acDataUri info) 0 (0x2f # name @ [0]), tHash := hex_bytes digits\<rparr>"
    using ok parseInfoFile_accepts [OF f(2,3,4)] by (simp add: f(1))
  moreover have "length name + 2 \<le> length (acDataUri info)" using f(4) by simp
  ultimately show ?R by blast
next
  assume ?R
  then show ?L by (elim exE conjE) (simp add: parseInfoFile_accepts)
qed

text \<open>The parts of a file in the format are determined by the file.\<close>

lemma dropWhile_append_stop:
  "list_all P xs \<Longrightarrow> (ys = [] \<or> \<not> P (hd ys)) \<Longrightarrow> dropWhile P (xs @ ys) = ys"
  by (induction xs) (auto simp: dropWhile_eq_self_iff)

lemma info_file_heads:
  assumes "info_file n l d"
  shows "is_newline (hd (l @ d @ r))" and "\<not> is_newline (hd (d @ r))"
proof -
  show "is_newline (hd (l @ d @ r))" using assms by (cases l) (simp_all add: info_file_def)
  have "d \<noteq> []" "list_all is_hex d" using assms by (auto simp only: info_file_def list.size)
  then show "\<not> is_newline (hd (d @ r))" by (cases d) (simp_all add: hex_not_newline)
qed

lemma info_file_name:
  assumes "info_file n l d"
  shows "takeWhile (\<lambda>c. \<not> is_newline c) (n @ l @ d @ r) = n"
  using assms info_file_heads(1) [OF assms, of r] by (intro takeWhile_append_stop) (simp_all add: info_file_def)

lemma info_file_newlines:
  assumes "info_file n l d"
  shows "takeWhile is_newline (dropWhile (\<lambda>c. \<not> is_newline c) (n @ l @ d @ r)) = l"
proof -
  have "dropWhile (\<lambda>c. \<not> is_newline c) (n @ l @ d @ r) = l @ d @ r"
    using assms info_file_heads(1) [OF assms, of r] by (intro dropWhile_append_stop) (simp_all add: info_file_def)
  then show ?thesis
    using assms info_file_heads(2) [OF assms, of r] by (simp add: takeWhile_append_stop info_file_def)
qed

text \<open>The file that ends with its last digit, and the file whose name needs all but one byte of the
  URI array, are in the format and are rejected.\<close>

theorem parseInfoFile_rejects_in_format:
  assumes "info_file name nl digits" and "rest = [] \<or> length name + 1 = length (acDataUri info)"
  shows "fst (parseInfoFile (name @ nl @ digits @ rest) info) \<noteq> 0"
proof
  assume "fst (parseInfoFile (name @ nl @ digits @ rest) info) = 0"
  from parseInfoFile_accepts_only [OF this] obtain name' nl' digits' rest' where
    eq: "name @ nl @ digits @ rest = name' @ nl' @ digits' @ rest'" and f: "info_file name' nl' digits'"
      "rest' \<noteq> []" "length name' < length (acDataUri info) - 1"
    by (elim exE conjE)
  have "name = name'" using info_file_name [OF assms(1), of rest] info_file_name [OF f(1), of rest'] by (simp only: eq)
  moreover have "nl = nl'" using info_file_newlines [OF assms(1), of rest] info_file_newlines [OF f(1), of rest'] by (simp only: eq)
  ultimately have "rest = rest'" using eq assms(1) f(1) by (simp add: info_file_def append_eq_append_conv)
  then show False using assms(2) f(2,3) \<open>name = name'\<close> by auto
qed

text \<open>Witness: the file \<open>a\<close> without a byte behind its digits.\<close>

theorem parseInfoFile_rejects_in_format_witness:
  "fst (parseInfoFile ([0x61] @ [10] @ replicate 96 0x30 @ []) DEVICE_INFO_zero) \<noteq> 0"
  by (rule parseInfoFile_rejects_in_format) (simp_all add: info_file_def is_newline_def hex_digit_def list_all_iff)

text \<open>Round trip: the info file written for a file name and a 48-byte hash gives back the URI
  (a slash, the name, a terminating zero) and the hash, and changes nothing else.\<close>

theorem parseInfoFile_roundtrip:
  assumes "list_all (\<lambda>c. \<not> is_newline c) name" and "length name < 1023" and "length hash = 48"
    and "length (acDataUri info) = 1024"
  shows "parseInfoFile (name @ [10] @ hex_print hash @ [10]) info =
    (0, info\<lparr>acDataUri := put_bytes (acDataUri info) 0 (0x2f # name @ [0]), tHash := hash\<rparr>)"
  using assms hex_print_hex [of hash] parseInfoFile_accepts [of name "[10]" "hex_print hash" "[10]" info]
  by (simp add: info_file_def is_newline_def)

text \<open>Witness: the file \<open>a.swfp\<close> with a hash of 48 bytes \<open>0xab\<close>.\<close>

theorem parseInfoFile_roundtrip_witness:
  "parseInfoFile ([0x61, 0x2e, 0x73] @ [10] @ hex_print (replicate 48 0xab) @ [10]) DEVICE_INFO_zero =
    (0, DEVICE_INFO_zero\<lparr>acDataUri := put_bytes (replicate 1024 0) 0 [0x2f, 0x61, 0x2e, 0x73, 0],
        tHash := replicate 48 0xab\<rparr>)"
  using parseInfoFile_roundtrip [of "[0x61, 0x2e, 0x73]" "replicate 48 0xab" DEVICE_INFO_zero]
  by (simp add: is_newline_def DEVICE_INFO_zero_def)

lemma length_hash_loop: "length (snd (hash_loop buf c n h hash)) = length hash"
proof (induction buf c n h hash rule: hash_loop.induct)
  case (1 buf c n h hash)
  show ?case
    using "1.IH" [OF refl refl _ refl]
    by (cases "hex_digit (buf ! (c + n))"; cases "n < 95")
      (simp_all add: hash_loop.simps [of buf c n] Let_def split del: if_split)
qed

lemma parseInfoFile_lengths:
  assumes "length (acDataUri info) = 1024" and "length (tHash info) = 48"
  shows "length (acDataUri (snd (parseInfoFile buf info))) = 1024 \<and>
    length (tHash (snd (parseInfoFile buf info))) = 48"
  using assms length_hash_loop [of buf "skip_newline buf (find_newline buf 0)" 0 0 "replicate 48 0"]
  by (auto simp: parseInfoFile_def Let_def split: prod.split)

text \<open>The parser keeps the two arrays at their size on every path, and on success the URI
  array holds a string: it starts with a slash and a terminating zero lies inside the array.\<close>

theorem parseInfoFile_arrays:
  assumes "length (acDataUri info) = 1024" and "length (tHash info) = 48"
    and "parseInfoFile buf info = (r, info')"
  shows "length (acDataUri info') = 1024 \<and> length (tHash info') = 48 \<and>
    (r = 0 \<longrightarrow> acDataUri info' ! 0 = 0x2f \<and> (\<exists>k < 1024. acDataUri info' ! k = 0))"
proof (intro conjI impI)
  show "length (acDataUri info') = 1024" "length (tHash info') = 48"
    using parseInfoFile_lengths [OF assms(1,2), of buf] assms(3) by simp_all
next
  assume "r = 0"
  then obtain name nl digits rest where f: "buf = name @ nl @ digits @ rest"
    "info_file name nl digits" "rest \<noteq> []" "length name < length (acDataUri info) - 1"
    using parseInfoFile_accepts_only [of buf info] assms(3) by auto
  then have uri: "acDataUri info' = put_bytes (acDataUri info) 0 (0x2f # name @ [0])"
    using parseInfoFile_accepts [OF f(2,3,4)] assms(3) by auto
  then show "acDataUri info' ! 0 = 0x2f" by (simp add: put_bytes_def)
  have "acDataUri info' ! (length name + 1) = 0" by (simp add: uri put_bytes_def nth_append)
  then show "\<exists>k < 1024. acDataUri info' ! k = 0" using f(4) assms(1) by (intro exI conjI) auto
qed

text \<open>Witness: the file \<open>a\<close> with a hash of zeros.\<close>

theorem parseInfoFile_arrays_witness:
  "\<exists>info. parseInfoFile ([0x61] @ [10] @ replicate 96 0x30 @ [10]) DEVICE_INFO_zero = (0, info) \<and>
    length (acDataUri info) = 1024 \<and> length (tHash info) = 48 \<and> acDataUri info ! 0 = 0x2f \<and>
    (\<exists>k < 1024. acDataUri info ! k = 0)"
proof -
  have "info_file [0x61] [10] (replicate 96 0x30)"
    by (simp add: info_file_def is_newline_def hex_digit_def list_all_iff)
  from parseInfoFile_accepts [OF this, of "[10]" DEVICE_INFO_zero] show ?thesis
    using parseInfoFile_arrays [of DEVICE_INFO_zero] by (fastforce simp: DEVICE_INFO_zero_def)
qed

end
