(* ===== verification/Crc32.thy ===== *)
theory Crc32
  imports Device
begin

text \<open>
  The driver of the CRC unit (crc32.c). The unit is hardware, a record of functions over the
  state \<open>'w\<close>. What its registers do is the predicate \<open>crc_regs\<close>: the configuration, the polynomial and
  the CRC register keep what is written to them, and in the mode for 32 bits with a shift to the right and 8 bits per access,
  least significant bit first, a write to the data register feeds these bits one by one into the CRC
  register, for whatever polynomial is set. The theorem shows that the values which the driver writes make this the reference CRC32b.
\<close>

record 'w crc =
  SRT_crc_config_crc_len :: nat
  MSK_crc_config_crc_shift_right :: u32
  SRT_crc_config_crc_nof_bits :: nat
  MSK_crc_config_crc_in_msb_low :: u32
  wr_crc_config :: "u32 \<Rightarrow> 'w \<Rightarrow> 'w"
  wr_crc_polynomial :: "u32 \<Rightarrow> 'w \<Rightarrow> 'w"
  wr_crc_crc :: "u32 \<Rightarrow> 'w \<Rightarrow> 'w"
  wr_crc_data_in :: "u32 \<Rightarrow> 'w \<Rightarrow> 'w"
  rd_crc_crc :: "'w \<Rightarrow> u32 \<times> 'w"

text \<open>The value of the configuration register.\<close>

definition crc_config :: "'w crc \<Rightarrow> u32" where
  "crc_config hw = push_bit (SRT_crc_config_crc_len hw) 31 OR MSK_crc_config_crc_shift_right hw OR
     push_bit (SRT_crc_config_crc_nof_bits hw) 3 OR MSK_crc_config_crc_in_msb_low hw"

text \<open>The loop over the data; the list holds the \<open>uiSizData\<close> bytes at \<open>pucData\<close>.\<close>

fun crc_loop :: "'w crc \<Rightarrow> u8 list \<Rightarrow> 'w \<Rightarrow> 'w" where
  "crc_loop hw [] w = w"
| "crc_loop hw (b # bs) w = crc_loop hw bs (wr_crc_data_in hw (ucast b) w)"

definition crc_gen_crc32b :: "'w crc \<Rightarrow> u8 list \<Rightarrow> 'w \<Rightarrow> u32 \<times> 'w" where
  "crc_gen_crc32b hw data w =
     (let w = wr_crc_config hw (crc_config hw) w;
          w = wr_crc_polynomial hw 0x04c11db7 w;
          w = wr_crc_crc hw 0xffffffff w;
          w = crc_loop hw data w in
      case rd_crc_crc hw w of (ulValue, w) \<Rightarrow> (ulValue XOR 0xffffffff, w))"

subsection \<open>The reference\<close>

text \<open>CRC32b, one bit and one byte at a time: the register is shifted right and the polynomial
  \<open>0x04c11db7\<close> is used with its bits reversed.\<close>

definition crc32b_bit :: "u32 \<Rightarrow> u32" where
  "crc32b_bit c = (if bit c 0 then drop_bit 1 c XOR 0xedb88320 else drop_bit 1 c)"

definition crc32b_byte :: "u8 \<Rightarrow> u32 \<Rightarrow> u32" where
  "crc32b_byte b c = (crc32b_bit ^^ 8) (c XOR ucast b)"

definition crc32b :: "u8 list \<Rightarrow> u32" where
  "crc32b bs = fold crc32b_byte bs 0xffffffff XOR 0xffffffff"

text \<open>What the callers of the driver rely on: with the configuration of \<open>crc_gen_crc32b\<close> and the
  CRC32 polynomial, each data word advances the register \<open>reg\<close> by its low byte. \<open>configured\<close> says that
  the unit is set up this way. The registers of the unit, specified below by themselves, give this contract (\<open>crc_regs_unit\<close>).\<close>

definition crc_unit :: "'w crc \<Rightarrow> ('w \<Rightarrow> bool) \<Rightarrow> ('w \<Rightarrow> u32) \<Rightarrow> bool" where
  "crc_unit hw configured reg \<longleftrightarrow>
     (\<forall>w. configured (wr_crc_polynomial hw 0x04c11db7 (wr_crc_config hw (crc_config hw) w))) \<and>
     (\<forall>v w. configured w \<longrightarrow> configured (wr_crc_crc hw v w) \<and> reg (wr_crc_crc hw v w) = v) \<and>
     (\<forall>b w. configured w \<longrightarrow> configured (wr_crc_data_in hw (ucast (b :: u8)) w) \<and>
        reg (wr_crc_data_in hw (ucast b) w) = crc32b_byte b (reg w)) \<and>
     (\<forall>w. configured w \<longrightarrow> fst (rd_crc_crc hw w) = reg w)"

lemma crc_loop_reg:
  "crc_unit hw configured reg \<Longrightarrow> configured w \<Longrightarrow>
   configured (crc_loop hw bs w) \<and> reg (crc_loop hw bs w) = fold crc32b_byte bs (reg w)"
  by (induction bs arbitrary: w) (auto simp: crc_unit_def)

lemma crc_gen_crc32b_value:
  assumes "crc_unit hw configured reg"
  shows "fst (crc_gen_crc32b hw data w) = crc32b data"
proof -
  let ?w = "wr_crc_crc hw 0xffffffff (wr_crc_polynomial hw 0x04c11db7 (wr_crc_config hw (crc_config hw) w))"
  have "configured ?w" "reg ?w = 0xffffffff" using assms by (auto simp: crc_unit_def)
  then have "configured (crc_loop hw data ?w)" "reg (crc_loop hw data ?w) = fold crc32b_byte data 0xffffffff"
    using crc_loop_reg [OF assms, of ?w data] by auto
  then have "fst (rd_crc_crc hw (crc_loop hw data ?w)) = fold crc32b_byte data 0xffffffff"
    using assms by (auto simp: crc_unit_def)
  then show ?thesis by (simp add: crc_gen_crc32b_def crc32b_def Let_def split: prod.split) (metis fst_conv)
qed

subsection \<open>The unit\<close>

text \<open>The register shifted by one bit: the bit that is fed and the bit that is shifted out decide whether the polynomial is
  subtracted; its highest coefficient is in bit 0 of the register, so it is used reversed.\<close>

definition crc_shift :: "u32 \<Rightarrow> bool \<Rightarrow> u32 \<Rightarrow> u32" where
  "crc_shift poly b c = drop_bit 1 c XOR (if bit c 0 \<noteq> b then word_reverse poly else 0)"

text \<open>The lowest \<open>n\<close> bits of a data word, least significant bit first.\<close>

primrec crc_feed :: "u32 \<Rightarrow> nat \<Rightarrow> u32 \<Rightarrow> u32 \<Rightarrow> u32" where
  "crc_feed poly 0 v c = c"
| "crc_feed poly (Suc n) v c = crc_feed poly n (drop_bit 1 v) (crc_shift poly (bit v 0) c)"

text \<open>The mode of the unit: a CRC of \<open>crc_len + 1\<close> bits, shifted to the right, \<open>2^nof_bits\<close> bits per access, least significant
  bit first, and nothing else set in the configuration.\<close>

definition crc_mode_lsb_8 :: "'w crc \<Rightarrow> u32 \<Rightarrow> bool" where
  "crc_mode_lsb_8 hw cfg \<longleftrightarrow>
     take_bit 5 (drop_bit (SRT_crc_config_crc_len hw) cfg) + 1 = 32 \<and> cfg AND MSK_crc_config_crc_shift_right hw \<noteq> 0 \<and>
     2 ^ unat (take_bit 2 (drop_bit (SRT_crc_config_crc_nof_bits hw) cfg)) = (8 :: nat) \<and> cfg AND MSK_crc_config_crc_in_msb_low hw \<noteq> 0 \<and>
     cfg AND NOT (push_bit (SRT_crc_config_crc_len hw) (mask 5) OR MSK_crc_config_crc_shift_right hw OR
       push_bit (SRT_crc_config_crc_nof_bits hw) (mask 2) OR MSK_crc_config_crc_in_msb_low hw) = 0"

text \<open>The behaviour of the unit: \<open>cfg\<close>, \<open>poly\<close> and \<open>reg\<close> are the contents of its registers; the fields lie inside of the configuration
  register.\<close>

definition crc_regs :: "'w crc \<Rightarrow> ('w \<Rightarrow> u32 \<times> u32) \<Rightarrow> ('w \<Rightarrow> u32) \<Rightarrow> bool" where
  "crc_regs hw setup reg \<longleftrightarrow>
     SRT_crc_config_crc_len hw + 5 \<le> 32 \<and> SRT_crc_config_crc_nof_bits hw + 2 \<le> 32 \<and>
     MSK_crc_config_crc_shift_right hw \<noteq> 0 \<and> MSK_crc_config_crc_in_msb_low hw \<noteq> 0 \<and>
     (\<forall>v w. setup (wr_crc_config hw v w) = (v, snd (setup w))) \<and>
     (\<forall>v w. setup (wr_crc_polynomial hw v w) = (fst (setup w), v)) \<and>
     (\<forall>v w. setup (wr_crc_crc hw v w) = setup w \<and> reg (wr_crc_crc hw v w) = v) \<and>
     (\<forall>v w. crc_mode_lsb_8 hw (fst (setup w)) \<longrightarrow> setup (wr_crc_data_in hw v w) = setup w \<and>
        reg (wr_crc_data_in hw v w) = crc_feed (snd (setup w)) 8 v (reg w)) \<and>
     (\<forall>w. fst (rd_crc_crc hw w) = reg w)"

subsection \<open>The driver and the reference\<close>

lemma crc_config_mode:
  assumes "crc_regs hw setup reg"
  shows "crc_mode_lsb_8 hw (crc_config hw)"
proof -
  let ?l = "SRT_crc_config_crc_len hw" and ?n = "SRT_crc_config_crc_nof_bits hw"
  let ?c = "crc_config hw"
  have c: "?c = push_bit ?l (mask 5) OR MSK_crc_config_crc_shift_right hw OR push_bit ?n (mask 2) OR MSK_crc_config_crc_in_msb_low hw"
    by (simp add: crc_config_def mask_eq_exp_minus_1)
  have "take_bit 5 (drop_bit ?l ?c) = mask 5" "take_bit 2 (drop_bit ?n ?c) = mask 2"
    using assms by (auto simp: c crc_regs_def intro!: bit_word_eqI simp: bit_simps)
  moreover have "?c AND MSK_crc_config_crc_shift_right hw = MSK_crc_config_crc_shift_right hw"
    "?c AND MSK_crc_config_crc_in_msb_low hw = MSK_crc_config_crc_in_msb_low hw"
    by (auto simp: c intro!: bit_word_eqI simp: bit_simps)
  moreover have "?c AND NOT ?c = 0" by simp
  ultimately show ?thesis using assms by (simp add: crc_mode_lsb_8_def c [symmetric] crc_regs_def) (simp add: mask_eq_exp_minus_1)
qed

text \<open>Feeding the bits one by one is adding them first and shifting then.\<close>

lemma poly_reversed: "word_reverse (0x04c11db7 :: u32) = 0xedb88320"
  by (simp add: word_reverse_def upt_rec)

lemma crc_shift_xor: "crc32b_bit (c XOR v) = crc_shift 0x04c11db7 (bit v 0) c XOR drop_bit 1 v"
  by (simp add: crc32b_bit_def crc_shift_def poly_reversed drop_bit_xor bit_xor_iff xor.assoc xor.left_commute xor.commute)

lemma crc_feed_shifts: "(crc32b_bit ^^ n) (c XOR v) = crc_feed 0x04c11db7 n v c XOR drop_bit n v"
proof (induction n arbitrary: c v)
  case (Suc n)
  have "(crc32b_bit ^^ Suc n) (c XOR v) = (crc32b_bit ^^ n) (crc_shift 0x04c11db7 (bit v 0) c XOR drop_bit 1 v)"
    by (simp add: funpow_swap1 crc_shift_xor)
  then show ?case by (simp add: Suc.IH)
qed simp

lemma crc_feed_byte: "crc_feed 0x04c11db7 8 (ucast b) c = crc32b_byte b c"
proof -
  have "drop_bit 8 (ucast (b :: u8) :: u32) = 0"
    by (rule bit_word_eqI) (auto simp: bit_simps dest: bit_imp_le_length)
  then show ?thesis using crc_feed_shifts [of 8 c "ucast b"] by (simp add: crc32b_byte_def)
qed

lemma crc_regs_unit:
  assumes "crc_regs hw setup reg"
  shows "crc_unit hw (\<lambda>w. setup w = (crc_config hw, 0x04c11db7)) reg"
  using assms crc_config_mode [OF assms] by (simp add: crc_regs_def crc_unit_def crc_feed_byte)

subsection \<open>Properties\<close>

text \<open>A unit in software; its state is the contents of its three registers.\<close>

definition soft_regs :: "(u32 \<times> u32 \<times> u32) crc" where
  "soft_regs = \<lparr>SRT_crc_config_crc_len = 0, MSK_crc_config_crc_shift_right = 0x20,
     SRT_crc_config_crc_nof_bits = 6, MSK_crc_config_crc_in_msb_low = 0x100,
     wr_crc_config = (\<lambda>v (_, p, c). (v, p, c)), wr_crc_polynomial = (\<lambda>v (f, _, c). (f, v, c)),
     wr_crc_crc = (\<lambda>v (f, p, _). (f, p, v)), wr_crc_data_in = (\<lambda>v (f, p, c). (f, p, crc_feed p 8 v c)),
     rd_crc_crc = (\<lambda>w. (snd (snd w), w))\<rparr>"

lemma soft_regs_ok: "crc_regs soft_regs (\<lambda>(f, p, c). (f, p)) (\<lambda>(f, p, c). c)"
  by (auto simp: crc_regs_def soft_regs_def split: prod.split)

lemma ucast_u8_u32_u8: "(ucast (ucast (b :: u8) :: u32) :: u8) = b"
  by (rule bit_word_eqI) (auto simp: bit_simps)

text \<open>A unit for the callers; its state is the CRC register.\<close>

definition soft_crc :: "u32 crc" where
  "soft_crc = \<lparr>SRT_crc_config_crc_len = 0, MSK_crc_config_crc_shift_right = 0x100,
     SRT_crc_config_crc_nof_bits = 9, MSK_crc_config_crc_in_msb_low = 0x1000,
     wr_crc_config = (\<lambda>_ w. w), wr_crc_polynomial = (\<lambda>_ w. w), wr_crc_crc = (\<lambda>v _. v),
     wr_crc_data_in = (\<lambda>v w. crc32b_byte (ucast v) w), rd_crc_crc = (\<lambda>w. (w, w))\<rparr>"

lemma soft_crc_unit: "crc_unit soft_crc (\<lambda>_. True) (\<lambda>w. w)"
  by (simp add: crc_unit_def soft_crc_def ucast_u8_u32_u8)

lemma crc32b_byte_bits:
  "crc32b_byte b c = crc32b_bit (crc32b_bit (crc32b_bit (crc32b_bit
     (crc32b_bit (crc32b_bit (crc32b_bit (crc32b_bit (c XOR ucast b))))))))"
  by (simp add: crc32b_byte_def numeral_eq_Suc)

lemma crc32b_check: "crc32b [0x31, 0x32, 0x33, 0x34, 0x35, 0x36, 0x37, 0x38, 0x39] = 0xcbf43926"
  by (simp add: crc32b_def crc32b_byte_bits crc32b_bit_def)

text \<open>(C15) \<open>crc_gen_crc32b\<close> drives the unit so that the value is the CRC32b of the data, for data of
  every length and whatever the unit did before: the configuration it writes selects the mode that feeds 8 bits per access, the polynomial
  register gets the generator of CRC32, and the start value and the final inversion are those of CRC32b.\<close>

theorem crc_gen_crc32b_correct:
  assumes "crc_regs hw setup reg"
  shows "fst (crc_gen_crc32b hw data w) = crc32b data"
  by (rule crc_gen_crc32b_value [OF crc_regs_unit [OF assms]])

text \<open>(C15) Witness: the check value of CRC32b, the CRC of the digits 1 to 9.\<close>

theorem crc_gen_crc32b_correct_witness:
  "fst (crc_gen_crc32b soft_regs [0x31, 0x32, 0x33, 0x34, 0x35, 0x36, 0x37, 0x38, 0x39] (1, 2, 3)) = 0xcbf43926"
  using crc_gen_crc32b_correct [OF soft_regs_ok, of "[0x31, 0x32, 0x33, 0x34, 0x35, 0x36, 0x37, 0x38, 0x39]" "(1, 2, 3)"]
  by (simp add: crc32b_check)

end
