(* ===== verification/Fdl.thy ===== *)
theory Fdl
  imports Crc32
begin

text \<open>
  The flash device label (fdl.h, fdl.c): the structures of the label as records, their layout
  in memory as a pair of functions between records and bytes (no member needs padding, all
  numbers are little endian), and \<open>readFDL\<close>, which reads the label from the SPI flash, checks it and
  extracts the device data.
\<close>

subsection \<open>Layout\<close>

text \<open>An array of \<open>n\<close> elements of \<open>k\<close> bytes.\<close>

fun chunks :: "nat \<Rightarrow> nat \<Rightarrow> 'a list \<Rightarrow> 'a list list" where
  "chunks k 0 bs = []"
| "chunks k (Suc n) bs = take k bs # chunks k n (drop k bs)"

definition bytes_at :: "nat \<Rightarrow> nat \<Rightarrow> 'a list \<Rightarrow> 'a list" where
  "bytes_at off n bs = take n (drop off bs)"

definition get16 :: "nat \<Rightarrow> u8 list \<Rightarrow> u16" where
  "get16 off bs = of_le16 (bs ! off) (bs ! (off + 1))"

definition get32 :: "nat \<Rightarrow> u8 list \<Rightarrow> u32" where
  "get32 off bs = of_le32 (bs ! off) (bs ! (off + 1)) (bs ! (off + 2)) (bs ! (off + 3))"

record FDL_HEADER_T =
  acStartToken :: "u8 list"
  usLabelSize :: u16
  usContentSize :: u16

record FDL_BASIC_DEVICE_DATA_T =
  usManufacturerID :: u16
  usDeviceClassificationNumber :: u16
  ulDeviceNumber :: u32
  ulSerialNumber :: u32
  ucHardwareCompatibilityNumber :: u8
  ucHardwareRevisionNumber :: u8
  usProductionDate :: u16
  ucReserved1 :: u8
  ucReserved2 :: u8
  basic_aucReservedFields :: "u8 list"

record FDL_MAC_T =
  aucMAC :: "u8 list"
  mac_aucReserved :: "u8 list"

record FDL_PRODUCT_IDENTIFICATION_T =
  usUSBVendorID :: u16
  usUSBProductID :: u16
  aucUSBVendorName :: "u8 list"
  aucUSBProductName :: "u8 list"
  prod_aucReservedFields :: "u8 list"

record FDL_OEM_IDENTIFICATION_T =
  ulOEMDataOptionFlags :: u32
  aucOEMSerialNumber :: "u8 list"
  aucOEMOrderNumber :: "u8 list"
  aucOEMHardwareRevision :: "u8 list"
  aucOEMProductionDateTime :: "u8 list"
  aucOEMReservedFields :: "u8 list"
  aucOEMSpecificData :: "u8 list"

record FDL_FLASH_LAYOUT_AREA_T =
  ulAreaContentType :: u32
  ulAreaStartAddress :: u32
  ulAreaSize :: u32
  area_ulChipNumber :: u32
  aucAreaName :: "u8 list"
  ucAreaAccessType :: u8
  area_aucReserved :: "u8 list"

record FDL_FLASH_LAYOUT_CHIP_T =
  chip_ulChipNumber :: u32
  aucFlashDriverName :: "u8 list"
  ulBlockSize :: u32
  ulFlashSize :: u32
  ulMaxEraseWriteCycles :: u32

record FDL_FLASH_LAYOUT_T =
  atArea :: "FDL_FLASH_LAYOUT_AREA_T list"
  atChip :: "FDL_FLASH_LAYOUT_CHIP_T list"

record FDL_DATA_T =
  tBasicDeviceData :: FDL_BASIC_DEVICE_DATA_T
  atMacCOM :: "FDL_MAC_T list"
  atMacAPP :: "FDL_MAC_T list"
  tProductIdentification :: FDL_PRODUCT_IDENTIFICATION_T
  tOEMIdentification :: FDL_OEM_IDENTIFICATION_T
  tFlashLayout :: FDL_FLASH_LAYOUT_T

record FDL_FOOTER_T =
  ulChecksum :: u32
  acEndLabel :: "u8 list"

record FDL_T =
  tHeader :: FDL_HEADER_T
  tData :: FDL_DATA_T
  tFooter :: FDL_FOOTER_T

text \<open>Reading a structure out of its bytes, as the unions of the header file do.\<close>

definition header_of :: "u8 list \<Rightarrow> FDL_HEADER_T" where
  "header_of bs = \<lparr>acStartToken = bytes_at 0 12 bs, usLabelSize = get16 12 bs, usContentSize = get16 14 bs\<rparr>"

definition basic_of :: "u8 list \<Rightarrow> FDL_BASIC_DEVICE_DATA_T" where
  "basic_of bs = \<lparr>usManufacturerID = get16 0 bs, usDeviceClassificationNumber = get16 2 bs,
     ulDeviceNumber = get32 4 bs, ulSerialNumber = get32 8 bs,
     ucHardwareCompatibilityNumber = bs ! 12, ucHardwareRevisionNumber = bs ! 13,
     usProductionDate = get16 14 bs, ucReserved1 = bs ! 16, ucReserved2 = bs ! 17,
     basic_aucReservedFields = bytes_at 18 14 bs\<rparr>"

definition mac_of :: "u8 list \<Rightarrow> FDL_MAC_T" where
  "mac_of bs = \<lparr>aucMAC = bytes_at 0 6 bs, mac_aucReserved = bytes_at 6 2 bs\<rparr>"

definition product_of :: "u8 list \<Rightarrow> FDL_PRODUCT_IDENTIFICATION_T" where
  "product_of bs = \<lparr>usUSBVendorID = get16 0 bs, usUSBProductID = get16 2 bs,
     aucUSBVendorName = bytes_at 4 16 bs, aucUSBProductName = bytes_at 20 16 bs,
     prod_aucReservedFields = bytes_at 36 76 bs\<rparr>"

definition oem_of :: "u8 list \<Rightarrow> FDL_OEM_IDENTIFICATION_T" where
  "oem_of bs = \<lparr>ulOEMDataOptionFlags = get32 0 bs, aucOEMSerialNumber = bytes_at 4 28 bs,
     aucOEMOrderNumber = bytes_at 32 32 bs, aucOEMHardwareRevision = bytes_at 64 16 bs,
     aucOEMProductionDateTime = bytes_at 80 32 bs, aucOEMReservedFields = bytes_at 112 12 bs,
     aucOEMSpecificData = bytes_at 124 112 bs\<rparr>"

definition area_of :: "u8 list \<Rightarrow> FDL_FLASH_LAYOUT_AREA_T" where
  "area_of bs = \<lparr>ulAreaContentType = get32 0 bs, ulAreaStartAddress = get32 4 bs,
     ulAreaSize = get32 8 bs, area_ulChipNumber = get32 12 bs, aucAreaName = bytes_at 16 16 bs,
     ucAreaAccessType = bs ! 32, area_aucReserved = bytes_at 33 3 bs\<rparr>"

definition chip_of :: "u8 list \<Rightarrow> FDL_FLASH_LAYOUT_CHIP_T" where
  "chip_of bs = \<lparr>chip_ulChipNumber = get32 0 bs, aucFlashDriverName = bytes_at 4 16 bs,
     ulBlockSize = get32 20 bs, ulFlashSize = get32 24 bs, ulMaxEraseWriteCycles = get32 28 bs\<rparr>"

definition layout_of :: "u8 list \<Rightarrow> FDL_FLASH_LAYOUT_T" where
  "layout_of bs = \<lparr>atArea = map area_of (chunks 36 10 (bytes_at 0 360 bs)),
     atChip = map chip_of (chunks 32 4 (bytes_at 360 128 bs))\<rparr>"

definition data_of :: "u8 list \<Rightarrow> FDL_DATA_T" where
  "data_of bs = \<lparr>tBasicDeviceData = basic_of (bytes_at 0 32 bs),
     atMacCOM = map mac_of (chunks 8 8 (bytes_at 32 64 bs)), atMacAPP = map mac_of (chunks 8 4 (bytes_at 96 32 bs)),
     tProductIdentification = product_of (bytes_at 128 112 bs), tOEMIdentification = oem_of (bytes_at 240 236 bs),
     tFlashLayout = layout_of (bytes_at 476 488 bs)\<rparr>"

definition footer_of :: "u8 list \<Rightarrow> FDL_FOOTER_T" where
  "footer_of bs = \<lparr>ulChecksum = get32 0 bs, acEndLabel = bytes_at 4 12 bs\<rparr>"

definition sizeof_FDL_HEADER_T :: nat where "sizeof_FDL_HEADER_T = 16"
definition sizeof_FDL_DATA_T :: nat where "sizeof_FDL_DATA_T = 964"
definition sizeof_FDL_FOOTER_T :: nat where "sizeof_FDL_FOOTER_T = 16"
definition sizeof_FDL_T :: nat where "sizeof_FDL_T = 996"

definition FDL_of :: "u8 list \<Rightarrow> FDL_T" where
  "FDL_of bs = \<lparr>tHeader = header_of (bytes_at 0 16 bs), tData = data_of (bytes_at 16 964 bs),
     tFooter = footer_of (bytes_at 980 16 bs)\<rparr>"

text \<open>Writing a structure.\<close>

definition header_bytes :: "FDL_HEADER_T \<Rightarrow> u8 list" where
  "header_bytes h = acStartToken h @ le16 (usLabelSize h) @ le16 (usContentSize h)"

definition basic_bytes :: "FDL_BASIC_DEVICE_DATA_T \<Rightarrow> u8 list" where
  "basic_bytes d = le16 (usManufacturerID d) @ le16 (usDeviceClassificationNumber d) @
     le32 (ulDeviceNumber d) @ le32 (ulSerialNumber d) @ [ucHardwareCompatibilityNumber d,
     ucHardwareRevisionNumber d] @ le16 (usProductionDate d) @ [ucReserved1 d, ucReserved2 d] @
     basic_aucReservedFields d"

definition mac_bytes :: "FDL_MAC_T \<Rightarrow> u8 list" where
  "mac_bytes d = aucMAC d @ mac_aucReserved d"

definition product_bytes :: "FDL_PRODUCT_IDENTIFICATION_T \<Rightarrow> u8 list" where
  "product_bytes d = le16 (usUSBVendorID d) @ le16 (usUSBProductID d) @ aucUSBVendorName d @
     aucUSBProductName d @ prod_aucReservedFields d"

definition oem_bytes :: "FDL_OEM_IDENTIFICATION_T \<Rightarrow> u8 list" where
  "oem_bytes d = le32 (ulOEMDataOptionFlags d) @ aucOEMSerialNumber d @ aucOEMOrderNumber d @
     aucOEMHardwareRevision d @ aucOEMProductionDateTime d @ aucOEMReservedFields d @ aucOEMSpecificData d"

definition area_bytes :: "FDL_FLASH_LAYOUT_AREA_T \<Rightarrow> u8 list" where
  "area_bytes d = le32 (ulAreaContentType d) @ le32 (ulAreaStartAddress d) @ le32 (ulAreaSize d) @
     le32 (area_ulChipNumber d) @ aucAreaName d @ [ucAreaAccessType d] @ area_aucReserved d"

definition chip_bytes :: "FDL_FLASH_LAYOUT_CHIP_T \<Rightarrow> u8 list" where
  "chip_bytes d = le32 (chip_ulChipNumber d) @ aucFlashDriverName d @ le32 (ulBlockSize d) @
     le32 (ulFlashSize d) @ le32 (ulMaxEraseWriteCycles d)"

definition layout_bytes :: "FDL_FLASH_LAYOUT_T \<Rightarrow> u8 list" where
  "layout_bytes d = concat (map area_bytes (atArea d)) @ concat (map chip_bytes (atChip d))"

definition data_bytes :: "FDL_DATA_T \<Rightarrow> u8 list" where
  "data_bytes d = basic_bytes (tBasicDeviceData d) @ concat (map mac_bytes (atMacCOM d)) @
     concat (map mac_bytes (atMacAPP d)) @ product_bytes (tProductIdentification d) @
     oem_bytes (tOEMIdentification d) @ layout_bytes (tFlashLayout d)"

definition footer_bytes :: "FDL_FOOTER_T \<Rightarrow> u8 list" where
  "footer_bytes d = le32 (ulChecksum d) @ acEndLabel d"

definition FDL_bytes :: "FDL_T \<Rightarrow> u8 list" where
  "FDL_bytes f = header_bytes (tHeader f) @ data_bytes (tData f) @ footer_bytes (tFooter f)"

text \<open>The sizes of the arrays of the structures.\<close>

definition mac_wf :: "FDL_MAC_T \<Rightarrow> bool" where
  "mac_wf d \<longleftrightarrow> length (aucMAC d) = 6 \<and> length (mac_aucReserved d) = 2"

definition product_wf :: "FDL_PRODUCT_IDENTIFICATION_T \<Rightarrow> bool" where
  "product_wf d \<longleftrightarrow> length (aucUSBVendorName d) = 16 \<and> length (aucUSBProductName d) = 16 \<and>
     length (prod_aucReservedFields d) = 76"

definition oem_wf :: "FDL_OEM_IDENTIFICATION_T \<Rightarrow> bool" where
  "oem_wf d \<longleftrightarrow> length (aucOEMSerialNumber d) = 28 \<and> length (aucOEMOrderNumber d) = 32 \<and>
     length (aucOEMHardwareRevision d) = 16 \<and> length (aucOEMProductionDateTime d) = 32 \<and>
     length (aucOEMReservedFields d) = 12 \<and> length (aucOEMSpecificData d) = 112"

definition area_wf :: "FDL_FLASH_LAYOUT_AREA_T \<Rightarrow> bool" where
  "area_wf d \<longleftrightarrow> length (aucAreaName d) = 16 \<and> length (area_aucReserved d) = 3"

definition chip_wf :: "FDL_FLASH_LAYOUT_CHIP_T \<Rightarrow> bool" where
  "chip_wf d \<longleftrightarrow> length (aucFlashDriverName d) = 16"

definition layout_wf :: "FDL_FLASH_LAYOUT_T \<Rightarrow> bool" where
  "layout_wf d \<longleftrightarrow> length (atArea d) = 10 \<and> list_all area_wf (atArea d) \<and>
     length (atChip d) = 4 \<and> list_all chip_wf (atChip d)"

definition data_wf :: "FDL_DATA_T \<Rightarrow> bool" where
  "data_wf d \<longleftrightarrow> length (basic_aucReservedFields (tBasicDeviceData d)) = 14 \<and>
     length (atMacCOM d) = 8 \<and> list_all mac_wf (atMacCOM d) \<and>
     length (atMacAPP d) = 4 \<and> list_all mac_wf (atMacAPP d) \<and>
     product_wf (tProductIdentification d) \<and> oem_wf (tOEMIdentification d) \<and> layout_wf (tFlashLayout d)"

definition FDL_wf :: "FDL_T \<Rightarrow> bool" where
  "FDL_wf f \<longleftrightarrow> length (acStartToken (tHeader f)) = 12 \<and> data_wf (tData f) \<and>
     length (acEndLabel (tFooter f)) = 12"

subsection \<open>Reading the label\<close>

text \<open>The strings \<open>ProductData>\<close> and \<open><ProductData\<close>.\<close>

definition fdl_start_token :: "u8 list" where
  "fdl_start_token = [0x50, 0x72, 0x6f, 0x64, 0x75, 0x63, 0x74, 0x44, 0x61, 0x74, 0x61, 0x3e]"

definition fdl_end_token :: "u8 list" where
  "fdl_end_token = [0x3c, 0x50, 0x72, 0x6f, 0x64, 0x75, 0x63, 0x74, 0x44, 0x61, 0x74, 0x61]"

text \<open>\<open>readFDL\<close>: \<open>uninit\<close> is the content of the device handle before the detection. The sum of the
  sizes is computed as \<open>size_t\<close>, so it cannot wrap.\<close>

definition readFDL ::
    "('i, 'w) flasher \<Rightarrow> 'w crc \<Rightarrow> 'i \<Rightarrow> DEVICE_INFO_T \<Rightarrow> 'w \<Rightarrow> int \<times> DEVICE_INFO_T \<times> 'w" where
  "readFDL fl hw uninit ptDeviceInfo w =
    (let ulOffset = 0xff0000 in
     case spi_detect fl (spi_configuration (MSK_SQI_CFG_IDLE fl) 0 0) uninit w of (tResult, tSpiInfo, w) \<Rightarrow>
     if tResult \<noteq> RESULT_OK fl then (-1, ptDeviceInfo, w)
     else case spi_read fl tSpiInfo ulOffset (ulOffset + of_nat sizeof_FDL_T) w of (tResult, tBuf, w) \<Rightarrow>
     if tResult \<noteq> RESULT_OK fl then (-1, ptDeviceInfo, w)
     else let t = FDL_of tBuf in
     if acStartToken (tHeader t) \<noteq> fdl_start_token then (-1, ptDeviceInfo, w)
     else if acEndLabel (tFooter t) \<noteq> fdl_end_token then (-1, ptDeviceInfo, w)
     else if unat (usLabelSize (tHeader t)) \<noteq>
         unat (usContentSize (tHeader t)) + sizeof_FDL_HEADER_T + sizeof_FDL_FOOTER_T then (-1, ptDeviceInfo, w)
     else if sizeof_FDL_T < unat (usLabelSize (tHeader t)) then (-1, ptDeviceInfo, w)
     else case crc_gen_crc32b hw (take (unat (usContentSize (tHeader t))) (bytes_at 16 964 tBuf)) w of
       (ulCrc, w) \<Rightarrow>
       if ulCrc \<noteq> ulChecksum (tFooter t) then (-1, ptDeviceInfo, w)
       else let d = tBasicDeviceData (tData t) in
         (0, ptDeviceInfo\<lparr>ulManufacturer := ucast (usManufacturerID d), ulDeviceNr := ulDeviceNumber d,
            ulHwRev := ucast (ucHardwareRevisionNumber d), ulSerial := ulSerialNumber d\<rparr>, w))"

subsection \<open>The layout loses nothing\<close>

lemma slice_exact: "length xs = n \<Longrightarrow> bytes_at 0 n xs = xs"
  by (simp add: bytes_at_def)

lemma slice_append_left: "off + n \<le> length xs \<Longrightarrow> bytes_at off n (xs @ ys) = bytes_at off n xs"
  by (simp add: bytes_at_def)

lemma slice_append_right: "length xs \<le> off \<Longrightarrow> bytes_at off n (xs @ ys) = bytes_at (off - length xs) n ys"
  by (simp add: bytes_at_def)

lemmas slice_append = slice_append_left slice_append_right slice_exact

lemma get16_append_left: "off + 2 \<le> length xs \<Longrightarrow> get16 off (xs @ ys) = get16 off xs"
  by (simp add: get16_def nth_append)

lemma get16_append_right: "length xs \<le> off \<Longrightarrow> get16 off (xs @ ys) = get16 (off - length xs) ys"
  by (simp add: get16_def nth_append Suc_diff_le)

lemma get32_append_left: "off + 4 \<le> length xs \<Longrightarrow> get32 off (xs @ ys) = get32 off xs"
  by (simp add: get32_def nth_append)

lemma get32_append_right: "length xs \<le> off \<Longrightarrow> get32 off (xs @ ys) = get32 (off - length xs) ys"
  by (simp add: get32_def nth_append Suc_diff_le)

lemma get16_le16: "get16 0 (le16 v) = v"
  by (simp add: get16_def le16_def)

lemma get32_le32: "get32 0 (le32 v) = v"
  by (simp add: get32_def le32_def nth_Cons')

lemma slice_Cons: "0 < off \<Longrightarrow> bytes_at off n (x # xs) = bytes_at (off - 1) n xs"
  by (cases off) (simp_all add: bytes_at_def)

lemma get16_Cons: "0 < off \<Longrightarrow> get16 off (x # xs) = get16 (off - 1) xs"
  by (cases off) (simp_all add: get16_def)

lemmas layout_simps = slice_append slice_Cons get16_Cons get16_append_left get16_append_right get32_append_left
  get32_append_right get16_le16 get32_le32 nth_append

lemma chunks_concat:
  "list_all (\<lambda>xs. length xs = k) xss \<Longrightarrow> n = length xss \<Longrightarrow> chunks k n (concat xss) = xss"
  by (induction xss arbitrary: n) auto

lemma length_concat_const: "list_all (\<lambda>xs. length xs = k) xss \<Longrightarrow> length (concat xss) = k * length xss"
  by (induction xss) auto

lemma chunks_map_concat:
  assumes "\<And>x. ok x \<Longrightarrow> length (enc x) = k \<and> dec (enc x) = x" and "list_all ok xs" and "length xs = n"
  shows "length (concat (map enc xs)) = k * n \<and> map dec (chunks k n (concat (map enc xs))) = xs"
proof -
  have l: "list_all (\<lambda>bs. length bs = k) (map enc xs)" using assms(1,2) by (auto simp: list_all_iff)
  moreover have "map dec (map enc xs) = xs" using assms(1,2) by (auto simp: list_all_iff intro: map_idI)
  ultimately show ?thesis using chunks_concat [OF l, of n] length_concat_const [OF l] assms(3) by simp
qed

lemma header_roundtrip:
  "length (acStartToken h) = 12 \<Longrightarrow> length (header_bytes h) = 16 \<and> header_of (header_bytes h) = h"
  by (simp add: header_of_def header_bytes_def layout_simps)

lemma basic_roundtrip:
  "length (basic_aucReservedFields d) = 14 \<Longrightarrow> length (basic_bytes d) = 32 \<and> basic_of (basic_bytes d) = d"
  by (simp add: basic_of_def basic_bytes_def layout_simps)

lemma mac_roundtrip: "mac_wf d \<Longrightarrow> length (mac_bytes d) = 8 \<and> mac_of (mac_bytes d) = d"
  by (simp add: mac_of_def mac_bytes_def mac_wf_def layout_simps)

lemma product_roundtrip: "product_wf d \<Longrightarrow> length (product_bytes d) = 112 \<and> product_of (product_bytes d) = d"
  by (simp add: product_of_def product_bytes_def product_wf_def layout_simps)

lemma oem_roundtrip: "oem_wf d \<Longrightarrow> length (oem_bytes d) = 236 \<and> oem_of (oem_bytes d) = d"
  by (simp add: oem_of_def oem_bytes_def oem_wf_def layout_simps)

lemma area_roundtrip: "area_wf d \<Longrightarrow> length (area_bytes d) = 36 \<and> area_of (area_bytes d) = d"
  by (simp add: area_of_def area_bytes_def area_wf_def layout_simps)

lemma chip_roundtrip: "chip_wf d \<Longrightarrow> length (chip_bytes d) = 32 \<and> chip_of (chip_bytes d) = d"
  by (simp add: chip_of_def chip_bytes_def chip_wf_def layout_simps)

lemma layout_roundtrip: "layout_wf d \<Longrightarrow> length (layout_bytes d) = 488 \<and> layout_of (layout_bytes d) = d"
  using chunks_map_concat [where ok = area_wf and enc = area_bytes and k = 36 and dec = area_of and xs = "atArea d" and n = 10, OF area_roundtrip]
    chunks_map_concat [where ok = chip_wf and enc = chip_bytes and k = 32 and dec = chip_of and xs = "atChip d" and n = 4, OF chip_roundtrip]
  by (simp add: layout_of_def layout_bytes_def layout_wf_def area_roundtrip chip_roundtrip layout_simps)

lemma data_roundtrip: "data_wf d \<Longrightarrow> length (data_bytes d) = 964 \<and> data_of (data_bytes d) = d"
  using chunks_map_concat [where ok = mac_wf and enc = mac_bytes and k = 8 and dec = mac_of and xs = "atMacCOM d" and n = 8, OF mac_roundtrip]
    chunks_map_concat [where ok = mac_wf and enc = mac_bytes and k = 8 and dec = mac_of and xs = "atMacAPP d" and n = 4, OF mac_roundtrip]
  by (simp add: data_of_def data_bytes_def data_wf_def mac_roundtrip basic_roundtrip product_roundtrip
      oem_roundtrip layout_roundtrip layout_simps)

lemma footer_roundtrip:
  "length (acEndLabel d) = 12 \<Longrightarrow> length (footer_bytes d) = 16 \<and> footer_of (footer_bytes d) = d"
  by (simp add: footer_of_def footer_bytes_def layout_simps)

lemma FDL_bytes_roundtrip: "FDL_wf f \<Longrightarrow> length (FDL_bytes f) = 996 \<and> FDL_of (FDL_bytes f) = f"
  using header_roundtrip [of "tHeader f"] data_roundtrip [of "tData f"] footer_roundtrip [of "tFooter f"]
  by (simp add: FDL_of_def FDL_bytes_def FDL_wf_def layout_simps)

subsection \<open>The accepted labels\<close>

definition fdl_valid :: "u8 list \<Rightarrow> bool" where
  "fdl_valid bs \<longleftrightarrow>
     (let h = tHeader (FDL_of bs); f = tFooter (FDL_of bs); n = unat (usContentSize h) in
      acStartToken h = fdl_start_token \<and> acEndLabel f = fdl_end_token \<and>
      unat (usLabelSize h) = n + 32 \<and> n \<le> 964 \<and>
      ulChecksum f = crc32b (take n (bytes_at 16 964 bs)))"

definition fdl_device_info :: "u8 list \<Rightarrow> DEVICE_INFO_T \<Rightarrow> DEVICE_INFO_T" where
  "fdl_device_info bs info =
     (let d = tBasicDeviceData (tData (FDL_of bs)) in
      info\<lparr>ulManufacturer := ucast (usManufacturerID d), ulDeviceNr := ulDeviceNumber d,
        ulHwRev := ucast (ucHardwareRevisionNumber d), ulSerial := ulSerialNumber d\<rparr>)"

lemma readFDL_eq:
  assumes hw: "crc_unit hw configured reg"
    and det: "spi_detect fl (spi_configuration (MSK_SQI_CFG_IDLE fl) 0 0) uninit w = (r1, i, w1)"
    and rd: "spi_read fl i 0xff0000 0xff03e4 w1 = (r2, bs, w2)"
  shows "\<exists>w'. readFDL fl hw uninit info w =
    (if r1 = RESULT_OK fl \<and> r2 = RESULT_OK fl \<and> fdl_valid bs then (0, fdl_device_info bs info, w')
     else (-1, info, w'))"
proof -
  have rd': "spi_read fl i 0xff0000 (0xff0000 + of_nat sizeof_FDL_T) w1 = (r2, bs, w2)"
    using rd by (simp add: sizeof_FDL_T_def)
  let ?n = "unat (usContentSize (tHeader (FDL_of bs)))"
  obtain c w3 where c: "crc_gen_crc32b hw (take ?n (bytes_at 16 964 bs)) w2 = (c, w3)" by force
  then have "c = crc32b (take ?n (bytes_at 16 964 bs))"
    using crc_gen_crc32b_value [OF hw, of "take ?n (bytes_at 16 964 bs)" w2] by simp
  then show ?thesis
    by (cases "r1 = RESULT_OK fl"; cases "r2 = RESULT_OK fl")
      (auto simp: readFDL_def det rd' c Let_def fdl_valid_def fdl_device_info_def
        sizeof_FDL_HEADER_T_def sizeof_FDL_FOOTER_T_def sizeof_FDL_T_def rd)
qed

text \<open>The label of a device: \<open>n\<close> bytes of the data are covered by the checksum.\<close>

definition make_FDL :: "nat \<Rightarrow> FDL_DATA_T \<Rightarrow> FDL_T" where
  "make_FDL n d =
     \<lparr>tHeader = \<lparr>acStartToken = fdl_start_token, usLabelSize = of_nat (n + 32), usContentSize = of_nat n\<rparr>,
      tData = d,
      tFooter = \<lparr>ulChecksum = crc32b (take n (data_bytes d)), acEndLabel = fdl_end_token\<rparr>\<rparr>"

lemma make_FDL_valid:
  assumes d: "data_wf d" and n: "n \<le> 964"
  shows "fdl_valid (FDL_bytes (make_FDL n d)) \<and>
    fdl_device_info (FDL_bytes (make_FDL n d)) info =
      info\<lparr>ulManufacturer := ucast (usManufacturerID (tBasicDeviceData d)),
        ulDeviceNr := ulDeviceNumber (tBasicDeviceData d),
        ulHwRev := ucast (ucHardwareRevisionNumber (tBasicDeviceData d)),
        ulSerial := ulSerialNumber (tBasicDeviceData d)\<rparr>"
proof -
  have "FDL_wf (make_FDL n d)"
    using d by (simp add: FDL_wf_def make_FDL_def fdl_start_token_def fdl_end_token_def)
  then have f: "FDL_of (FDL_bytes (make_FDL n d)) = make_FDL n d" by (simp add: FDL_bytes_roundtrip)
  have len: "length (header_bytes (tHeader (make_FDL n d))) = 16" "length (data_bytes d) = 964"
    using header_roundtrip [of "tHeader (make_FDL n d)"] data_roundtrip [OF d]
    by (simp_all add: make_FDL_def fdl_start_token_def)
  then have "bytes_at 16 964 (FDL_bytes (make_FDL n d)) = data_bytes d"
    by (simp add: FDL_bytes_def layout_simps) (simp add: make_FDL_def layout_simps)
  moreover have "unat (of_nat n :: u16) = n" "unat (of_nat (n + 32) :: u16) = n + 32"
    using n by (simp_all only: unat_of_nat) simp_all
  ultimately show ?thesis
    using n by (simp add: fdl_valid_def fdl_device_info_def f Let_def) (simp add: make_FDL_def)
qed

subsection \<open>Properties\<close>

text \<open>A flash that holds a fixed content at the place of the label; no other operation of the
  library is available. The CRC unit is the one that computes in software.\<close>

definition label_flasher :: "u8 list \<Rightarrow> (unit, u32) flasher" where
  "label_flasher bs = \<lparr>BUS_ParFlash = 0, BUS_SPI = 1, BUS_IFlash = 2, BUS_SDIO = 3, RESULT_OK = 0,
     MSK_SQI_CFG_IDLE = 0, FLASHER_INTERFACE_VERSION = 0, SIZEOF_DEVICE_DESCRIPTION = 0, info_zero = (),
     spi_detect = (\<lambda>_ _ w. (0, (), w)), spi_read = (\<lambda>_ _ _ w. (0, bs, w)),
     spi_getEraseArea = (\<lambda>_ a b w. (1, a, b, w)), spi_isErased = (\<lambda>_ _ _ w. (1, 0, w)),
     spi_erase = (\<lambda>_ _ _ w. (1, w)), spi_flash = (\<lambda>_ _ _ _ w. (1, w)),
     sdio_detect_wrap = (\<lambda>_ w. (1, (), w)), sdio_write = (\<lambda>_ _ _ _ w. (1, w))\<rparr>"

lemma label_flasher_ops:
  "spi_detect (label_flasher bs) c i w = (RESULT_OK (label_flasher bs), (), w)"
  "spi_read (label_flasher bs) i a b w = (RESULT_OK (label_flasher bs), bs, w)"
  by (simp_all add: label_flasher_def)

definition sample_data :: FDL_DATA_T where
  "sample_data = \<lparr>tBasicDeviceData = \<lparr>usManufacturerID = 1, usDeviceClassificationNumber = 2,
       ulDeviceNumber = 7321000, ulSerialNumber = 20042, ucHardwareCompatibilityNumber = 0,
       ucHardwareRevisionNumber = 3, usProductionDate = 0, ucReserved1 = 0, ucReserved2 = 0,
       basic_aucReservedFields = replicate 14 0\<rparr>,
     atMacCOM = replicate 8 \<lparr>aucMAC = replicate 6 0, mac_aucReserved = replicate 2 0\<rparr>,
     atMacAPP = replicate 4 \<lparr>aucMAC = replicate 6 0, mac_aucReserved = replicate 2 0\<rparr>,
     tProductIdentification = \<lparr>usUSBVendorID = 0, usUSBProductID = 0, aucUSBVendorName = replicate 16 0,
       aucUSBProductName = replicate 16 0, prod_aucReservedFields = replicate 76 0\<rparr>,
     tOEMIdentification = \<lparr>ulOEMDataOptionFlags = 0, aucOEMSerialNumber = replicate 28 0,
       aucOEMOrderNumber = replicate 32 0, aucOEMHardwareRevision = replicate 16 0,
       aucOEMProductionDateTime = replicate 32 0, aucOEMReservedFields = replicate 12 0,
       aucOEMSpecificData = replicate 112 0\<rparr>,
     tFlashLayout = \<lparr>atArea = replicate 10 \<lparr>ulAreaContentType = 0, ulAreaStartAddress = 0, ulAreaSize = 0,
         area_ulChipNumber = 0, aucAreaName = replicate 16 0, ucAreaAccessType = 0,
         area_aucReserved = replicate 3 0\<rparr>,
       atChip = replicate 4 \<lparr>chip_ulChipNumber = 0, aucFlashDriverName = replicate 16 0, ulBlockSize = 0,
         ulFlashSize = 0, ulMaxEraseWriteCycles = 0\<rparr>\<rparr>\<rparr>"

lemma sample_data_wf: "data_wf sample_data"
  by (simp add: data_wf_def sample_data_def mac_wf_def product_wf_def oem_wf_def layout_wf_def area_wf_def
      chip_wf_def list_all_iff)

lemma sample_data_basic:
  "usManufacturerID (tBasicDeviceData sample_data) = 1"
  "ulDeviceNumber (tBasicDeviceData sample_data) = 7321000"
  "ucHardwareRevisionNumber (tBasicDeviceData sample_data) = 3"
  "ulSerialNumber (tBasicDeviceData sample_data) = 20042"
  by (simp_all add: sample_data_def)

text \<open>(C4) \<open>readFDL\<close> on every branch: it succeeds iff the flash is detected, the read succeeds and the
  996 bytes are a valid label (both tokens, a label size that is the content size plus header and
  footer and fits, and the CRC32b of the content). Then the manufacturer, the device number, the
  revision and the serial of the label are stored and nothing else; otherwise the result is -1
  and the device information is unchanged.\<close>

theorem readFDL_correct:
  assumes "crc_unit hw configured reg"
    and "spi_detect fl (spi_configuration (MSK_SQI_CFG_IDLE fl) 0 0) uninit w = (r1, i, w1)"
    and "spi_read fl i 0xff0000 0xff03e4 w1 = (r2, bs, w2)"
  shows "\<exists>w'. readFDL fl hw uninit info w =
    (if r1 = RESULT_OK fl \<and> r2 = RESULT_OK fl \<and> fdl_valid bs then (0, fdl_device_info bs info, w')
     else (-1, info, w'))"
  using readFDL_eq [OF assms] .

text \<open>(C4) Witness: an erased flash has no label.\<close>

theorem readFDL_correct_witness:
  "\<exists>w'. readFDL (label_flasher (replicate 996 0xff)) soft_crc () DEVICE_INFO_zero 0 = (-1, DEVICE_INFO_zero, w')"
proof -
  have "\<not> fdl_valid (replicate 996 0xff)"
    by (auto simp: fdl_valid_def Let_def FDL_of_def header_of_def bytes_at_def fdl_start_token_def
        dest: arg_cong [where f = hd])
  then show ?thesis
    using readFDL_correct [OF soft_crc_unit label_flasher_ops, where bs = "replicate 996 0xff" and uninit = "()" and info = DEVICE_INFO_zero and w = 0]
    by simp
qed

text \<open>(C32) Round trip: when the flash holds the bytes of a label made for some device data, with a
  content size that covers all of it, \<open>readFDL\<close> succeeds with exactly the values of that data.\<close>

theorem readFDL_roundtrip:
  assumes "crc_unit hw configured reg" and "data_wf d"
    and "spi_detect fl (spi_configuration (MSK_SQI_CFG_IDLE fl) 0 0) uninit w = (RESULT_OK fl, i, w1)"
    and "spi_read fl i 0xff0000 0xff03e4 w1 = (RESULT_OK fl, FDL_bytes (make_FDL sizeof_FDL_DATA_T d), w2)"
  shows "\<exists>w'. readFDL fl hw uninit info w =
    (0, info\<lparr>ulManufacturer := ucast (usManufacturerID (tBasicDeviceData d)),
        ulDeviceNr := ulDeviceNumber (tBasicDeviceData d),
        ulHwRev := ucast (ucHardwareRevisionNumber (tBasicDeviceData d)),
        ulSerial := ulSerialNumber (tBasicDeviceData d)\<rparr>, w')"
  using readFDL_eq [OF assms(1,3,4), of info] make_FDL_valid [OF assms(2), of 964 info]
  by (simp add: sizeof_FDL_DATA_T_def)

text \<open>(C32) Witness: the sample device.\<close>

theorem readFDL_roundtrip_witness:
  "\<exists>w'. readFDL (label_flasher (FDL_bytes (make_FDL sizeof_FDL_DATA_T sample_data))) soft_crc () DEVICE_INFO_zero 0 =
    (0, DEVICE_INFO_zero\<lparr>ulManufacturer := 1, ulDeviceNr := 7321000, ulHwRev := 3, ulSerial := 20042\<rparr>, w')"
  using readFDL_roundtrip [OF soft_crc_unit sample_data_wf label_flasher_ops,
      where uninit = "()" and info = DEVICE_INFO_zero and w = 0]
  by (simp add: sample_data_basic)

text \<open>The checksum need not protect the device data: a label with content size 0 and the checksum
  0 is accepted whatever the device data is, and the device is identified by unchecked bytes.\<close>

theorem readFDL_unprotected:
  assumes "crc_unit hw configured reg" and "data_wf d"
    and "spi_detect fl (spi_configuration (MSK_SQI_CFG_IDLE fl) 0 0) uninit w = (RESULT_OK fl, i, w1)"
    and "spi_read fl i 0xff0000 0xff03e4 w1 = (RESULT_OK fl, FDL_bytes
      \<lparr>tHeader = \<lparr>acStartToken = fdl_start_token, usLabelSize = 32, usContentSize = 0\<rparr>, tData = d,
       tFooter = \<lparr>ulChecksum = 0, acEndLabel = fdl_end_token\<rparr>\<rparr>, w2)"
  shows "\<exists>info' w'. readFDL fl hw uninit info w = (0, info', w') \<and>
    ulDeviceNr info' = ulDeviceNumber (tBasicDeviceData d) \<and>
    ulSerial info' = ulSerialNumber (tBasicDeviceData d)"
proof -
  have "make_FDL 0 d =
      \<lparr>tHeader = \<lparr>acStartToken = fdl_start_token, usLabelSize = 32, usContentSize = 0\<rparr>, tData = d,
       tFooter = \<lparr>ulChecksum = 0, acEndLabel = fdl_end_token\<rparr>\<rparr>"
    by (simp add: make_FDL_def crc32b_def)
  then show ?thesis
    using readFDL_eq [OF assms(1,3,4), of info] make_FDL_valid [OF assms(2), of 0 info] by auto
qed

text \<open>Witness: the sample device with a label of content size 0.\<close>

theorem readFDL_unprotected_witness:
  "\<exists>info' w'. readFDL (label_flasher (FDL_bytes
      \<lparr>tHeader = \<lparr>acStartToken = fdl_start_token, usLabelSize = 32, usContentSize = 0\<rparr>, tData = sample_data,
       tFooter = \<lparr>ulChecksum = 0, acEndLabel = fdl_end_token\<rparr>\<rparr>)) soft_crc () DEVICE_INFO_zero 0 =
    (0, info', w') \<and> ulDeviceNr info' = 7321000"
  using readFDL_unprotected [OF soft_crc_unit sample_data_wf label_flasher_ops,
      where uninit = "()" and info = DEVICE_INFO_zero and w = 0]
  by (simp add: sample_data_basic) blast

text \<open>The layout of the label is a round trip: the structure read from the bytes of a label is
  the label, and the bytes have the size of the structure.\<close>

theorem FDL_layout_roundtrip:
  assumes "FDL_wf f"
  shows "length (FDL_bytes f) = sizeof_FDL_T \<and> FDL_of (FDL_bytes f) = f"
  using FDL_bytes_roundtrip [OF assms] by (simp add: sizeof_FDL_T_def)

text \<open>Witness: the label of the sample device.\<close>

theorem FDL_layout_roundtrip_witness:
  "ulSerialNumber (tBasicDeviceData (tData (FDL_of (FDL_bytes (make_FDL 964 sample_data))))) = 20042"
proof -
  have "FDL_wf (make_FDL 964 sample_data)"
    using sample_data_wf by (simp add: FDL_wf_def make_FDL_def fdl_start_token_def fdl_end_token_def)
  then show ?thesis using FDL_layout_roundtrip [of "make_FDL 964 sample_data"]
    by (simp add: make_FDL_def sample_data_basic)
qed

end
