(* ===== verification/Options.thy ===== *)
theory Options
  imports Prelude
begin

text \<open>
  The network configuration (boot_drv_eth.h) and the options of the loader (options.h). The
  application finds a configuration of the ROM code at a fixed address; \<open>ethernet_configuration_at\<close>
  reads the structure from memory with the layout of the target.
\<close>

record ETHERNET_CONFIGURATION_T =
  ac_tftp_server_name :: "u8 list"
  ac_tftp_bootfile_name :: "u8 list"
  aucMac :: "u8 list"
  usTftpPort :: u16
  ulIp :: u32
  ulGatewayIp :: u32
  ulNetmask :: u32
  ulTftpIp :: u32
  ulDnsIp :: u32
  ulPhyControl :: u32
  ausLvdsPortControl :: "u16 list"
  usLinkUpDelay :: u16
  usArpTimeout :: u16
  usDhcpTimeout :: u16
  usDnsTimeout :: u16
  usTftpTimeout :: u16
  ucArpRetries :: u8
  ucDhcpRetries :: u8
  ucDnsRetries :: u8
  ucTftpRetries :: u8
  aucMmioCfg :: "u8 list"

record ROMLOADER_OPTIONS_T =
  t_ethernet :: ETHERNET_CONFIGURATION_T

definition ethernet_configuration_at :: "memory \<Rightarrow> ptr \<Rightarrow> ETHERNET_CONFIGURATION_T" where
  "ethernet_configuration_at m p = \<lparr>
     ac_tftp_server_name = rdbytes m p 64, ac_tftp_bootfile_name = rdbytes m (p + 64) 128,
     aucMac = rdbytes m (p + 192) 6, usTftpPort = rd16 m (p + 198), ulIp = rd32 m (p + 200),
     ulGatewayIp = rd32 m (p + 204), ulNetmask = rd32 m (p + 208), ulTftpIp = rd32 m (p + 212),
     ulDnsIp = rd32 m (p + 216), ulPhyControl = rd32 m (p + 220),
     ausLvdsPortControl = [rd16 m (p + 224), rd16 m (p + 226)], usLinkUpDelay = rd16 m (p + 228),
     usArpTimeout = rd16 m (p + 230), usDhcpTimeout = rd16 m (p + 232), usDnsTimeout = rd16 m (p + 234),
     usTftpTimeout = rd16 m (p + 236), ucArpRetries = m (p + 238), ucDhcpRetries = m (p + 239),
     ucDnsRetries = m (p + 240), ucTftpRetries = m (p + 241), aucMmioCfg = rdbytes m (p + 242) 2\<rparr>"

end
