(* ===== verification/Sha384.thy ===== *)
theory Sha384
  imports Device
begin

text \<open>
  The driver of the SHA384 unit (sha384.c). The crypto unit is hardware: its registers are a
  record of functions over a state \<open>'w\<close>. What the driver relies on, that the unit hashes the
  bytes written to its data register in their order, is the predicate \<open>crypt_unit\<close>, a hypothesis
  of the theorems. They show that the driver feeds the unit exactly the bytes of the chunk and
  the padding of FIPS 180-4.
\<close>

subsection \<open>Registers\<close>

text \<open>\<open>ulCrypt_sha_din\<close> takes accesses of 32 and of 8 bits. The masks are those of the platform's
  register header.\<close>

record 'w crypt =
  MSK_crypt_sha_cfg_reset :: u32
  SRT_crypt_sha_cfg_mode :: nat
  MSK_crypt_irq_raw_hash_ready :: u32
  wr_sha_cfg :: "u32 \<Rightarrow> 'w \<Rightarrow> 'w"
  wr_sha_din :: "u32 \<Rightarrow> 'w \<Rightarrow> 'w"
  wr_sha_din_uc :: "u8 \<Rightarrow> 'w \<Rightarrow> 'w"
  wr_irq_raw :: "u32 \<Rightarrow> 'w \<Rightarrow> 'w"
  rd_irq_raw :: "'w \<Rightarrow> u32 \<times> 'w"
  rd_sha_hash :: "nat \<Rightarrow> 'w \<Rightarrow> u32 \<times> 'w"

subsection \<open>The driver\<close>

definition sha384_initialize :: "'w crypt \<Rightarrow> 'w \<Rightarrow> 'w" where
  "sha384_initialize hw w =
     wr_sha_cfg hw (MSK_crypt_sha_cfg_reset hw OR push_bit (SRT_crypt_sha_cfg_mode hw) 1) w"

text \<open>The first loop of \<open>sha384_update\<close>: it stops at the next address aligned to 4.\<close>

definition align_dist :: "ptr \<Rightarrow> nat" where
  "align_dist p = (4 - unat p mod 4) mod 4"

lemma unat_and_3: "unat (p AND 3 :: u32) = unat p mod 4"
proof -
  have "p AND 3 = take_bit 2 p" by (simp add: take_bit_eq_mask mask_eq_exp_minus_1)
  then show ?thesis by (simp add: take_bit_eq_mod unat_mod_distrib)
qed

lemma align_dist_step: "p AND 3 \<noteq> 0 \<Longrightarrow> align_dist p = Suc (align_dist (p + 1))"
proof -
  assume "p AND 3 \<noteq> 0"
  then have "unat p mod 4 \<noteq> 0" by (metis unat_and_3 unat_eq_zero)
  then have "unat p mod 4 = 1 \<or> unat p mod 4 = 2 \<or> unat p mod 4 = 3"
    using mod_less_divisor [of 4 "unat p"] by linarith
  moreover have "unat (p + 1) mod 4 = Suc (unat p) mod 4"
    by (simp add: unat_word_ariths mod_mod_cancel)
  ultimately show ?thesis by (auto simp: align_dist_def mod_Suc)
qed

lemma align_dist_stop: "p AND 3 = 0 \<Longrightarrow> align_dist p = 0"
  using unat_and_3 [of p] by (simp add: align_dist_def)

function sha384_align :: "'w crypt \<Rightarrow> memory \<Rightarrow> ptr \<Rightarrow> 'w \<Rightarrow> ptr \<times> 'w" where
  "sha384_align hw m p w =
     (if p AND 3 \<noteq> 0 then sha384_align hw m (p + 1) (wr_sha_din_uc hw (m p) w) else (p, w))"
  by pat_completeness auto
termination
  by (relation "measure (\<lambda>(hw, m, p, w). align_dist p)") (auto simp: align_dist_step)

text \<open>The second loop. The sum in its condition wraps at the end of the address space, where the
  loop does not end; \<open>None\<close> is that case.\<close>

partial_function (option) sha384_dwords ::
    "'w crypt \<Rightarrow> memory \<Rightarrow> u32 \<Rightarrow> ptr \<Rightarrow> 'w \<Rightarrow> (ptr \<times> 'w) option" where
  "sha384_dwords hw m ulEnd p w =
     (if p + 4 \<le> ulEnd then sha384_dwords hw m ulEnd (p + 4) (wr_sha_din hw (rd32 m p) w)
      else Some (p, w))"

function sha384_bytes :: "'w crypt \<Rightarrow> memory \<Rightarrow> u32 \<Rightarrow> ptr \<Rightarrow> 'w \<Rightarrow> 'w" where
  "sha384_bytes hw m ulEnd p w =
     (if p < ulEnd then sha384_bytes hw m ulEnd (p + 1) (wr_sha_din_uc hw (m p) w) else w)"
  by pat_completeness auto
termination
  by (relation "measure (\<lambda>(hw, m, ulEnd, p, w). unat (ulEnd - p))") (auto, unat_arith)

declare sha384_align.simps [simp del] sha384_bytes.simps [simp del]

definition sha384_update :: "'w crypt \<Rightarrow> memory \<Rightarrow> ptr \<Rightarrow> u32 \<Rightarrow> 'w \<Rightarrow> 'w option" where
  "sha384_update hw m pvData sizChunk w =
     (let ulEnd = pvData + sizChunk in
      case sha384_align hw m pvData w of (p, w) \<Rightarrow>
      case sha384_dwords hw m ulEnd p w of
        None \<Rightarrow> None
      | Some (p, w) \<Rightarrow> Some (sha384_bytes hw m ulEnd p w))"

text \<open>\<open>ulValueRev\<close>: the bytes of a DWORD in the opposite order.\<close>

definition rev_dword :: "u32 \<Rightarrow> u32" where
  "rev_dword v = push_bit 24 (v AND 0x000000ff) OR push_bit 8 (v AND 0x0000ff00) OR
     drop_bit 8 (v AND 0x00ff0000) OR drop_bit 24 (v AND 0xff000000)"

text \<open>The loop that waits for the hash.\<close>

partial_function (option) sha384_wait :: "'w crypt \<Rightarrow> 'w \<Rightarrow> 'w option" where
  "sha384_wait hw w =
     (case rd_irq_raw hw w of (ulValue, w) \<Rightarrow>
        if ulValue AND MSK_crypt_irq_raw_hash_ready hw = 0 then sha384_wait hw w else Some w)"

fun sha384_copy_hash :: "'w crypt \<Rightarrow> nat \<Rightarrow> u8 list \<Rightarrow> 'w \<Rightarrow> u8 list \<times> 'w" where
  "sha384_copy_hash hw 0 hash w = (hash, w)"
| "sha384_copy_hash hw (Suc sizHash) hash w =
     (case rd_sha_hash hw sizHash w of (v, w) \<Rightarrow>
        sha384_copy_hash hw sizHash (put_bytes hash (4 * sizHash) (le32 v)) w)"

text \<open>What both functions do behind the padding: the number of bits, the wait and the copy of the
  hash. \<open>ptHash\<close> is the array behind the pointer, \<open>None\<close> the null pointer.\<close>

definition sha384_finish ::
    "'w crypt \<Rightarrow> u8 list option \<Rightarrow> u64 \<Rightarrow> 'w \<Rightarrow> (u8 list option \<times> 'w) option" where
  "sha384_finish hw ptHash ullBits w =
     (let w = wr_sha_din hw (rev_dword (ucast (drop_bit 32 ullBits AND 0xffffffff))) w;
          w = wr_irq_raw hw (MSK_crypt_irq_raw_hash_ready hw) w;
          w = wr_sha_din hw (rev_dword (ucast (ullBits AND 0xffffffff))) w in
      case sha384_wait hw w of
        None \<Rightarrow> None
      | Some w \<Rightarrow>
          (case ptHash of
             None \<Rightarrow> Some (None, w)
           | Some hash \<Rightarrow> (case sha384_copy_hash hw 12 hash w of (hash, w) \<Rightarrow> Some (Some hash, w))))"

definition sha384_finalize ::
    "'w crypt \<Rightarrow> u8 list option \<Rightarrow> u32 \<Rightarrow> 'w \<Rightarrow> (u8 list option \<times> 'w) option" where
  "sha384_finalize hw ptHash ulDataSizeDw w =
     (let ulPadDw = ulDataSizeDw AND 0x1f;
          ulPadDw = (if ulPadDw < 28 then 29 - ulPadDw else 61 - ulPadDw);
          w = wr_sha_din hw 0x00000080 w;
          w = (wr_sha_din hw 0 ^^ unat ulPadDw) w in
      sha384_finish hw ptHash (ucast ulDataSizeDw * 32) w)"

definition sha384_finalize_byte ::
    "'w crypt \<Rightarrow> u8 list option \<Rightarrow> u32 \<Rightarrow> 'w \<Rightarrow> (u8 list option \<times> 'w) option" where
  "sha384_finalize_byte hw ptHash ulDataSizeByte w =
     (let ulPadByte = ulDataSizeByte AND 0x7f;
          ulPadByte = (if ulPadByte < 112 then 119 - ulPadByte else 247 - ulPadByte);
          w = wr_sha_din_uc hw 0x80 w;
          w = (wr_sha_din_uc hw 0 ^^ unat ulPadByte) w in
      sha384_finish hw ptHash (ucast ulDataSizeByte * 8) w)"

subsection \<open>The crypto unit\<close>

text \<open>
  The documented behaviour of the unit: \<open>stream\<close> is the data the unit has taken since its last
  reset, \<open>digest\<close> the 12 DWORDs of the hash of a whole number of blocks (of 128 bytes), and
  \<open>ready\<close> says that the unit has finished. Within finitely many polls a unit that holds whole
  blocks reports the flag.
\<close>

definition polls :: "'w crypt \<Rightarrow> 'w \<Rightarrow> nat \<Rightarrow> 'w" where
  "polls hw w n = ((snd \<circ> rd_irq_raw hw) ^^ n) w"

definition flag :: "'w crypt \<Rightarrow> 'w \<Rightarrow> bool" where
  "flag hw w \<longleftrightarrow> fst (rd_irq_raw hw w) AND MSK_crypt_irq_raw_hash_ready hw \<noteq> 0"

definition crypt_unit ::
    "'w crypt \<Rightarrow> ('w \<Rightarrow> u8 list) \<Rightarrow> (u8 list \<Rightarrow> u32 list) \<Rightarrow> ('w \<Rightarrow> bool) \<Rightarrow> bool" where
  "crypt_unit hw stream digest ready \<longleftrightarrow>
     (\<forall>v w. v AND MSK_crypt_sha_cfg_reset hw \<noteq> 0 \<longrightarrow> stream (wr_sha_cfg hw v w) = []) \<and>
     MSK_crypt_sha_cfg_reset hw \<noteq> 0 \<and>
     (\<forall>v w. stream (wr_sha_din hw v w) = stream w @ le32 v) \<and>
     (\<forall>b w. stream (wr_sha_din_uc hw b w) = stream w @ [b]) \<and>
     (\<forall>v w. stream (wr_irq_raw hw v w) = stream w) \<and>
     (\<forall>w. stream (snd (rd_irq_raw hw w)) = stream w) \<and>
     (\<forall>w. 128 dvd length (stream w) \<longrightarrow> (\<exists>n. flag hw (polls hw w n))) \<and>
     (\<forall>w. 128 dvd length (stream w) \<longrightarrow> flag hw w \<longrightarrow> ready (snd (rd_irq_raw hw w))) \<and>
     (\<forall>i w. stream (snd (rd_sha_hash hw i w)) = stream w \<and> ready (snd (rd_sha_hash hw i w)) = ready w) \<and>
     (\<forall>i w. i < 12 \<longrightarrow> ready w \<longrightarrow> fst (rd_sha_hash hw i w) = digest (stream w) ! i)"

text \<open>The padding of SHA384 for \<open>n\<close> bytes: a one bit, zeros up to 112 modulo 128 bytes and the
  number of bits as a big-endian number of 16 bytes.\<close>

definition be128 :: "nat \<Rightarrow> u8 list" where
  "be128 v = map (\<lambda>i. of_nat (v div 256 ^ (15 - i))) [0..<16]"

definition fips_padding :: "nat \<Rightarrow> u8 list" where
  "fips_padding n = 0x80 # replicate ((239 - n mod 128) mod 128) 0 @ be128 (8 * n)"

lemma fips_padding_blocks: "128 dvd n + length (fips_padding n)"
proof -
  define q r where "q = n div 128" and "r = n mod 128"
  have n: "n = 128 * q + r" and r: "r < 128" by (simp_all add: q_def r_def)
  have "r + 17 + (239 - r) mod 128 = 128 \<or> r + 17 + (239 - r) mod 128 = 256"
    using r by (cases "r < 112") (auto simp: mod_if)
  then have "\<exists>k. n + length (fips_padding n) = 128 * k"
    using n r by (auto simp: fips_padding_def be128_def intro: exI [of _ "q + 1"] exI [of _ "q + 2"])
  then show ?thesis by (auto simp: dvd_def)
qed

lemma wr_sha_din_stream:
  "crypt_unit hw stream digest ready \<Longrightarrow> stream (wr_sha_din hw v w) = stream w @ le32 v"
  "crypt_unit hw stream digest ready \<Longrightarrow> stream (wr_sha_din_uc hw b w) = stream w @ [b]"
  "crypt_unit hw stream digest ready \<Longrightarrow> stream (wr_irq_raw hw v w) = stream w"
  by (simp_all add: crypt_unit_def)

subsection \<open>The update\<close>

lemma sha384_align_stream:
  assumes hw: "crypt_unit hw stream digest ready"
  shows "fst (sha384_align hw m p w) = p + of_nat (align_dist p) \<and>
    stream (snd (sha384_align hw m p w)) = stream w @ rdbytes m p (align_dist p)"
  using hw
proof (induction hw m p w rule: sha384_align.induct)
  case (1 hw m p w)
  then show ?case
    by (cases "p AND 3 = 0")
      (auto simp: sha384_align.simps [of hw m p] align_dist_stop align_dist_step add.assoc wr_sha_din_stream)
qed

lemma rdbytes_4: "rdbytes m p 4 = le32 (rd32 m p)"
  by (simp add: rd32_le numeral_eq_Suc add.assoc)

lemma unat_add_of_nat: "unat (p :: u32) + n < 2 ^ 32 \<Longrightarrow> unat (p + of_nat n) = unat p + n"
  by (simp add: unat_word_ariths unat_of_nat)

lemma sha384_dwords_stream:
  assumes hw: "crypt_unit hw stream digest ready"
  shows "unat p + (4 * k + r) < 2 ^ 32 - 4 \<Longrightarrow> r < 4 \<Longrightarrow>
    \<exists>w'. sha384_dwords hw m (p + of_nat (4 * k + r)) p w = Some (p + of_nat (4 * k), w') \<and>
      stream w' = stream w @ rdbytes m p (4 * k)"
proof (induction k arbitrary: p w)
  case 0
  have "\<not> p + 4 \<le> p + of_nat r"
    using 0 unat_add_of_nat [of p 4] unat_add_of_nat [of p r] by (simp add: word_le_nat_alt)
  then show ?case by (subst sha384_dwords.simps) simp
next
  case (Suc k)
  have four: "unat (p + 4) = unat p + 4" using Suc.prems unat_add_of_nat [of p 4] by simp
  have "unat (p + of_nat (4 * Suc k + r)) = unat p + (4 * Suc k + r)"
    using Suc.prems by (intro unat_add_of_nat) simp
  then have le: "p + 4 \<le> p + of_nat (4 * Suc k + r)" by (simp only: word_le_nat_alt four) simp
  have e: "p + of_nat (4 * Suc k + r) = (p + 4) + of_nat (4 * k + r)" by (simp add: algebra_simps)
  obtain w' where "sha384_dwords hw m ((p + 4) + of_nat (4 * k + r)) (p + 4) (wr_sha_din hw (rd32 m p) w) =
      Some ((p + 4) + of_nat (4 * k), w')"
    "stream w' = stream (wr_sha_din hw (rd32 m p) w) @ rdbytes m (p + 4) (4 * k)"
    using Suc.IH [of "p + 4" "wr_sha_din hw (rd32 m p) w"] Suc.prems four by auto
  moreover have "rdbytes m p (4 * Suc k) = rdbytes m p 4 @ rdbytes m (p + 4) (4 * k)"
    using rdbytes_add [of m p 4 "4 * k"] by simp
  ultimately show ?case using le e wr_sha_din_stream(1) [OF hw]
    by (subst sha384_dwords.simps) (simp add: rdbytes_4 algebra_simps)
qed

lemma sha384_bytes_stream:
  assumes hw: "crypt_unit hw stream digest ready"
  shows "unat p + n < 2 ^ 32 \<Longrightarrow>
    stream (sha384_bytes hw m (p + of_nat n) p w) = stream w @ rdbytes m p n"
proof (induction n arbitrary: p w)
  case 0
  then show ?case by (subst sha384_bytes.simps) simp
next
  case (Suc n)
  have one: "unat (p + 1) = unat p + 1" using Suc.prems unat_add_of_nat [of p 1] by simp
  have "p < p + of_nat (Suc n)"
    using Suc.prems unat_add_of_nat [of p "Suc n"] by (simp only: word_less_nat_alt)
  then show ?case using Suc.IH [of "p + 1"] one Suc.prems wr_sha_din_stream(2) [OF hw]
    by (subst sha384_bytes.simps) (simp add: algebra_simps)
qed

lemma sha384_bytes_none: "ulEnd \<le> p \<Longrightarrow> sha384_bytes hw m ulEnd p w = w"
  by (subst sha384_bytes.simps) (simp flip: not_less)

lemma sha384_dwords_none: "p + 4 > ulEnd \<Longrightarrow> sha384_dwords hw m ulEnd p w = Some (p, w)"
  by (subst sha384_dwords.simps) (simp flip: not_le)

lemma align_dist_less: "align_dist p < 4"
  by (simp add: align_dist_def)

text \<open>The bytes \<open>sha384_update\<close> gives to the unit: the chunk, but never fewer bytes than the
  alignment loop takes.\<close>

lemma sha384_update_stream:
  assumes hw: "crypt_unit hw stream digest ready"
    and room: "unat p + max (align_dist p) (unat n) < 2 ^ 32 - 4"
  shows "\<exists>w'. sha384_update hw m p n w = Some w' \<and>
    stream w' = stream w @ rdbytes m p (max (align_dist p) (unat n))"
proof -
  let ?d = "align_dist p"
  obtain q w1 where al: "sha384_align hw m p w = (q, w1)" by force
  then have q: "q = p + of_nat ?d" and w1: "stream w1 = stream w @ rdbytes m p ?d"
    using sha384_align_stream [OF hw, of m p w] by simp_all
  have uq: "unat q = unat p + ?d" using q room by (simp add: unat_add_of_nat)
  show ?thesis
  proof (cases "?d \<le> unat n")
    case True
    define k where "k = unat n - ?d"
    have e: "p + n = q + of_nat k" using True by (simp add: q k_def of_nat_diff)
    have kr: "k = 4 * (k div 4) + k mod 4" by simp
    have kroom: "unat q + k < 2 ^ 32 - 4" using uq True room by (simp add: k_def)
    then have kroom': "unat q + (4 * (k div 4) + k mod 4) < 2 ^ 32 - 4" by simp
    obtain w2 where w2: "sha384_dwords hw m (q + of_nat k) q w1 = Some (q + of_nat (4 * (k div 4)), w2)"
      "stream w2 = stream w1 @ rdbytes m q (4 * (k div 4))"
      using sha384_dwords_stream [OF hw kroom' mod_less_divisor, of m w1] kr by auto
    let ?q' = "q + of_nat (4 * (k div 4))"
    have uq': "unat ?q' = unat q + 4 * (k div 4)" using kroom' by (intro unat_add_of_nat) simp
    have e': "q + of_nat k = ?q' + of_nat (k mod 4)" by (metis add.assoc kr of_nat_add)
    have "stream (sha384_bytes hw m (q + of_nat k) ?q' w2) = stream w2 @ rdbytes m ?q' (k mod 4)"
      unfolding e' by (rule sha384_bytes_stream [OF hw]) (use uq' kroom' in simp)
    moreover have "rdbytes m q k = rdbytes m q (4 * (k div 4)) @ rdbytes m ?q' (k mod 4)"
      by (metis kr rdbytes_add)
    moreover have "rdbytes m p (unat n) = rdbytes m p ?d @ rdbytes m q k"
      using True rdbytes_add [of m p ?d k] by (simp add: q k_def)
    ultimately show ?thesis using True w1 w2 al by (simp only: sha384_update_def Let_def e max_def) simp
  next
    case False
    have end1: "unat (p + n) = unat p + unat n" using False room unat_add_of_nat [of p "unat n"] by simp
    have "unat (q + 4) = unat q + 4" using uq False room unat_add_of_nat [of q 4] by simp
    then have "q + 4 > p + n" "p + n \<le> q" using uq end1 False by (simp_all add: word_less_nat_alt word_le_nat_alt)
    then show ?thesis using False al w1
      by (simp add: sha384_update_def Let_def sha384_dwords_none sha384_bytes_none max_def)
  qed
qed

subsection \<open>Padding and hash\<close>

lemma pad_bytes_stream:
  "crypt_unit hw stream digest ready \<Longrightarrow> stream ((wr_sha_din_uc hw 0 ^^ n) w) = stream w @ replicate n 0"
  by (induction n) (auto simp: wr_sha_din_stream replicate_append_same)

lemma pad_dwords_stream:
  "crypt_unit hw stream digest ready \<Longrightarrow> stream ((wr_sha_din hw 0 ^^ n) w) = stream w @ replicate (4 * n) 0"
proof (induction n)
  case (Suc n)
  have "le32 0 = replicate 4 0" by (simp add: le32_def numeral_eq_Suc)
  then show ?case using Suc by (simp add: wr_sha_din_stream flip: replicate_add)
qed simp

lemma le32_rev_dword: "le32 (rev_dword v) = rev (le32 v)"
proof -
  have masks: "(0xff :: u32) = mask 8" "(0xff00 :: u32) = push_bit 8 (mask 8)"
    "(0xff0000 :: u32) = push_bit 16 (mask 8)" "(0xff000000 :: u32) = push_bit 24 (mask 8)"
    by (simp_all add: mask_eq_exp_minus_1 push_bit_eq_mult)
  have b: "bit (rev_dword v) n = bit v (if n < 8 then n + 24 else if n < 16 then n + 8 else
      if n < 24 then n - 8 else n - 24)" if "n < 32" for n
    using that unfolding rev_dword_def masks by (auto simp: bit_simps add.commute)
  show ?thesis
    unfolding le32_def by (auto intro!: bit_word_eqI simp: bit_simps b add.commute)
qed

lemma ucast_low32: "(ucast (x AND 0xffffffff :: u64) :: u32) = ucast x"
proof -
  have "(0xffffffff :: u64) = mask 32" by (simp add: mask_eq_exp_minus_1)
  then have "x AND 0xffffffff = take_bit 32 x" by (simp only: take_bit_eq_mask)
  then show ?thesis by (simp only:) (rule bit_word_eqI, auto simp: bit_simps)
qed

lemma ucast_drop_of_nat: "(ucast (drop_bit (8 * i) v) :: u8) = of_nat (unat (v :: u64) div 256 ^ i)"
proof -
  have "(ucast (drop_bit (8 * i) v) :: u8) = of_nat (unat (drop_bit (8 * i) v))" by simp
  also have "unat (drop_bit (8 * i) v) = unat v div 256 ^ i"
    unfolding unat_drop_bit_eq by (simp add: drop_bit_eq_div power_mult)
  finally show ?thesis .
qed

lemma sha384_wait_ready:
  assumes hw: "crypt_unit hw stream digest ready" and "flag hw (polls hw w n)"
    and "128 dvd length (stream w)"
  shows "\<exists>w'. sha384_wait hw w = Some w' \<and> ready w' \<and> stream w' = stream w"
  using assms(2,3)
proof (induction n arbitrary: w)
  case 0
  then have "flag hw w" by (simp add: polls_def)
  moreover have "ready (snd (rd_irq_raw hw w))" "stream (snd (rd_irq_raw hw w)) = stream w"
    using hw \<open>flag hw w\<close> 0(2) by (auto simp: crypt_unit_def)
  ultimately show ?case by (subst sha384_wait.simps) (auto simp: flag_def split: prod.splits)
next
  case (Suc n)
  let ?w = "snd (rd_irq_raw hw w)"
  have st: "stream ?w = stream w" using hw by (simp add: crypt_unit_def)
  have "\<exists>w'. sha384_wait hw ?w = Some w' \<and> ready w' \<and> stream w' = stream ?w"
    using Suc by (intro Suc.IH) (auto simp: polls_def st funpow_swap1)
  moreover have "ready ?w" if "flag hw w" using hw that Suc.prems(2) by (simp add: crypt_unit_def)
  ultimately show ?case using st
    by (subst sha384_wait.simps) (auto simp: flag_def split: prod.splits)
qed

definition hash_bytes :: "u32 list \<Rightarrow> u8 list" where
  "hash_bytes ds = concat (map (\<lambda>i. le32 (ds ! i)) [0..<12])"

lemma sha384_copy_hash_eq:
  assumes hw: "crypt_unit hw stream digest ready"
  shows "k \<le> 12 \<Longrightarrow> ready w \<Longrightarrow> length hash = 48 \<Longrightarrow>
    fst (sha384_copy_hash hw k hash w) = concat (map (\<lambda>i. le32 (digest (stream w) ! i)) [0..<k]) @ drop (4 * k) hash \<and>
    stream (snd (sha384_copy_hash hw k hash w)) = stream w"
proof (induction k arbitrary: hash w)
  case (Suc k)
  obtain v w' where r: "rd_sha_hash hw k w = (v, w')" by force
  then have w': "stream w' = stream w" "ready w'" "v = digest (stream w) ! k"
    using hw Suc.prems(1,2) unfolding crypt_unit_def by (metis Suc_le_lessD fst_conv snd_conv)+
  have "drop (4 * k) (put_bytes hash (4 * k) (le32 v)) = le32 v @ drop (4 * Suc k) hash"
    using Suc.prems by (simp add: put_bytes_def add.commute)
  then show ?case using r w' Suc by simp
qed simp

lemma sha384_finish_hash:
  assumes hw: "crypt_unit hw stream digest ready" and pad: "128 dvd length (stream w) + 8"
    and hash: "length hash = 48"
  shows "\<exists>w'. sha384_finish hw (Some hash) bits w =
      Some (Some (hash_bytes (digest (stream w'))), w') \<and>
    stream w' = stream w @ map (\<lambda>i. of_nat (unat bits div 256 ^ (7 - i))) [0..<8]"
proof -
  let ?w1 = "wr_irq_raw hw (MSK_crypt_irq_raw_hash_ready hw)
    (wr_sha_din hw (rev_dword (ucast (drop_bit 32 bits AND 0xffffffff))) w)"
  let ?w2 = "wr_sha_din hw (rev_dword (ucast (bits AND 0xffffffff))) ?w1"
  have "stream ?w2 = stream w @ rev (le32 (ucast (drop_bit 32 bits))) @ rev (le32 (ucast bits))"
    by (simp add: wr_sha_din_stream [OF hw] le32_rev_dword ucast_low32)
  also have "rev (le32 (ucast (drop_bit 32 bits))) @ rev (le32 (ucast bits)) =
      map (\<lambda>i. ucast (drop_bit (8 * (7 - i)) bits)) [0..<8]"
    by (simp add: le32_def upt_rec) (auto intro!: bit_word_eqI simp: bit_simps)
  finally have st: "stream ?w2 = stream w @ map (\<lambda>i. of_nat (unat bits div 256 ^ (7 - i))) [0..<8]"
    by (simp only: ucast_drop_of_nat)
  then have dvd: "128 dvd length (stream ?w2)" using pad by simp
  then obtain n where "flag hw (polls hw ?w2 n)" using hw unfolding crypt_unit_def by blast
  then obtain w3 where w3: "sha384_wait hw ?w2 = Some w3" "ready w3" "stream w3 = stream ?w2"
    using sha384_wait_ready [OF hw _ dvd] by blast
  then show ?thesis using st sha384_copy_hash_eq [OF hw _ w3(2) hash, of 12] hash
    by (auto simp: sha384_finish_def Let_def hash_bytes_def split: prod.splits)
qed

lemma be128_low:
  assumes "v < 2 ^ 64"
  shows "be128 v = replicate 8 0 @ map (\<lambda>i. of_nat (v div 256 ^ (7 - i))) [0..<8]"
proof (rule nth_equalityI)
  fix i
  assume i: "i < length (be128 v)"
  show "be128 v ! i = (replicate 8 0 @ map (\<lambda>i. of_nat (v div 256 ^ (7 - i))) [0..<8]) ! i"
  proof (cases "i < 8")
    case True
    have "v < 256 ^ 8" using assms by simp
    also have "(256 :: nat) ^ 8 \<le> 256 ^ (15 - i)" using True by (intro power_increasing) auto
    finally show ?thesis using True i by (simp add: be128_def nth_append)
  next
    case False
    then have "7 - (i - 8) = 15 - i" using i by (simp add: be128_def)
    then show ?thesis using False i by (simp add: be128_def nth_append)
  qed
qed (simp add: be128_def)

lemma unat_and_7f: "unat (n AND 0x7f :: u32) = unat n mod 128"
proof -
  have "n AND 0x7f = take_bit 7 n" by (simp add: take_bit_eq_mask mask_eq_exp_minus_1)
  then show ?thesis by (simp add: take_bit_eq_mod unat_mod_distrib)
qed

lemma unat_and_1f: "unat (n AND 0x1f :: u32) = unat n mod 32"
proof -
  have "n AND 0x1f = take_bit 5 n" by (simp add: take_bit_eq_mask mask_eq_exp_minus_1)
  then show ?thesis by (simp add: take_bit_eq_mod unat_mod_distrib)
qed

lemma unat_u64_times: "k \<le> 256 \<Longrightarrow> unat (ucast (n :: u32) * of_nat k :: u64) = unat n * k"
proof -
  assume "k \<le> 256"
  then have "unat n * k < 2 ^ 32 * 2 ^ 9" by (intro mult_strict_mono) auto
  moreover have "(ucast n * of_nat k :: u64) = of_nat (unat n * k)" by simp
  ultimately show ?thesis by (simp add: unat_of_nat del: of_nat_mult)
qed

lemma fips_zeros: "r < 112 \<Longrightarrow> (239 - r) mod 128 = 111 - r"
  "112 \<le> r \<Longrightarrow> (239 - r) mod 128 = 239 - (r :: nat)"
  using le_mod_geq [of 128 "239 - r"] by simp_all

text \<open>Both variants complete the data with the padding of FIPS 180-4 and return the hash.\<close>

lemma sha384_finish_padding:
  assumes hw: "crypt_unit hw stream digest ready" and len: "length (stream w) = n" and n: "8 * n < 2 ^ 64"
    and st: "stream w1 = stream w @ 0x80 # replicate ((239 - n mod 128) mod 128 + 8) 0"
    and bits: "unat bits = 8 * n" and hash: "length hash = 48"
  shows "\<exists>w'. sha384_finish hw (Some hash) bits w1 =
      Some (Some (hash_bytes (digest (stream w @ fips_padding n))), w') \<and>
    stream w' = stream w @ fips_padding n"
proof -
  have pad: "stream w1 @ map (\<lambda>i. of_nat (unat bits div 256 ^ (7 - i))) [0..<8] = stream w @ fips_padding n"
    using n by (simp only: st bits fips_padding_def be128_low replicate_add append.assoc append_Cons)
  have "length (stream w1) + 8 = n + length (fips_padding n)"
    using arg_cong [OF pad, of length] by (simp add: len)
  then have "128 dvd length (stream w1) + 8" using fips_padding_blocks [of n] by simp
  then show ?thesis using sha384_finish_hash [OF hw _ hash, of w1 bits] pad by auto
qed

lemma sha384_finalize_byte_hash:
  assumes hw: "crypt_unit hw stream digest ready" and len: "length (stream w) = unat n"
    and hash: "length hash = 48"
  shows "\<exists>w'. sha384_finalize_byte hw (Some hash) n w =
      Some (Some (hash_bytes (digest (stream w @ fips_padding (unat n)))), w') \<and>
    stream w' = stream w @ fips_padding (unat n)"
proof -
  define r where "r = n AND 0x7f"
  have r: "unat r = unat n mod 128" by (simp add: r_def unat_and_7f)
  then have "r < 128" by (simp add: word_less_nat_alt)
  let ?z = "if r < 112 then 119 - r else 247 - r"
  have "unat ?z = (239 - unat n mod 128) mod 128 + 8"
    using r \<open>r < 128\<close> by (cases "r < 112") (simp_all add: word_less_nat_alt fips_zeros unat_sub word_le_nat_alt)
  then have "stream ((wr_sha_din_uc hw 0 ^^ unat ?z) (wr_sha_din_uc hw 0x80 w)) =
      stream w @ 0x80 # replicate ((239 - unat n mod 128) mod 128 + 8) 0"
    by (simp only: pad_bytes_stream [OF hw] wr_sha_din_stream [OF hw]) simp
  moreover have "8 * unat n < 2 ^ 64"
    by (rule order_less_le_trans [of _ "8 * 4294967296"]) simp_all
  moreover have "unat (ucast n * 8 :: u64) = 8 * unat n" using unat_u64_times [of 8 n] by simp
  ultimately show ?thesis unfolding sha384_finalize_byte_def Let_def r_def [symmetric]
    by (intro sha384_finish_padding [OF hw len _ _ _ hash])
qed

lemma sha384_finalize_hash:
  assumes hw: "crypt_unit hw stream digest ready" and len: "length (stream w) = 4 * unat n"
    and hash: "length hash = 48"
  shows "\<exists>w'. sha384_finalize hw (Some hash) n w =
      Some (Some (hash_bytes (digest (stream w @ fips_padding (4 * unat n)))), w') \<and>
    stream w' = stream w @ fips_padding (4 * unat n)"
proof -
  define r where "r = n AND 0x1f"
  have r: "unat r = unat n mod 32" by (simp add: r_def unat_and_1f)
  then have "r < 32" by (simp add: word_less_nat_alt)
  have m: "4 * unat n mod 128 = 4 * (unat n mod 32)" by (simp add: mult_mod_right)
  let ?z = "if r < 28 then 29 - r else 61 - r"
  have z: "3 + 4 * unat ?z = (239 - 4 * unat n mod 128) mod 128 + 8"
    using r \<open>r < 32\<close> m by (cases "r < 28") (simp_all add: word_less_nat_alt fips_zeros unat_sub word_le_nat_alt)
  have "le32 0x80 = [0x80, 0, 0, 0]" by (simp add: le32_def)
  then have "stream ((wr_sha_din hw 0 ^^ unat ?z) (wr_sha_din hw 0x80 w)) =
      stream w @ 0x80 # replicate 3 0 @ replicate (4 * unat ?z) 0"
    by (simp only: pad_dwords_stream [OF hw] wr_sha_din_stream [OF hw]) (simp add: numeral_eq_Suc)
  also have "replicate 3 0 @ replicate (4 * unat ?z) (0 :: u8) =
      replicate ((239 - 4 * unat n mod 128) mod 128 + 8) 0"
    by (simp only: z flip: replicate_add)
  finally have "stream ((wr_sha_din hw 0 ^^ unat ?z) (wr_sha_din hw 0x80 w)) =
      stream w @ 0x80 # replicate ((239 - 4 * unat n mod 128) mod 128 + 8) 0" .
  moreover have "8 * (4 * unat n) < 2 ^ 64"
    by (rule order_less_le_trans [of _ "8 * (4 * 4294967296)"]) simp_all
  moreover have "unat (ucast n * 32 :: u64) = 8 * (4 * unat n)" using unat_u64_times [of 32 n] by simp
  ultimately show ?thesis unfolding sha384_finalize_def Let_def r_def [symmetric]
    by (intro sha384_finish_padding [OF hw len _ _ _ hash])
qed

lemma sha384_initialize_stream:
  assumes hw: "crypt_unit hw stream digest ready"
  shows "stream (sha384_initialize hw w) = []"
proof -
  have "(MSK_crypt_sha_cfg_reset hw OR x) AND MSK_crypt_sha_cfg_reset hw = MSK_crypt_sha_cfg_reset hw" for x
    by (rule bit_word_eqI) (auto simp: bit_simps)
  then show ?thesis using hw by (simp add: sha384_initialize_def crypt_unit_def)
qed

subsection \<open>Properties\<close>

text \<open>A unit that records its input.\<close>

definition log_crypt :: "u8 list crypt" where
  "log_crypt = \<lparr>MSK_crypt_sha_cfg_reset = 1, SRT_crypt_sha_cfg_mode = 4, MSK_crypt_irq_raw_hash_ready = 2,
     wr_sha_cfg = (\<lambda>_ _. []), wr_sha_din = (\<lambda>v w. w @ le32 v), wr_sha_din_uc = (\<lambda>b w. w @ [b]),
     wr_irq_raw = (\<lambda>_ w. w), rd_irq_raw = (\<lambda>w. (2, w)),
     rd_sha_hash = (\<lambda>i w. (of_nat (length w), w))\<rparr>"

lemma log_crypt_unit: "crypt_unit log_crypt (\<lambda>w. w) (\<lambda>bs. replicate 12 (of_nat (length bs))) (\<lambda>_. True)"
  by (simp add: crypt_unit_def log_crypt_def flag_def)

text \<open>(C16) For every chunk that does not reach the end of the address space \<open>sha384_update\<close>
  returns, and the unit has then got the bytes of memory from the start of the chunk on, in their order:
  exactly those of the chunk when the chunk reaches the next aligned address, and otherwise those
  up to this address, which are more than the chunk has.\<close>

theorem sha384_update_bytes:
  assumes "crypt_unit hw stream digest ready"
    and "unat p + max (align_dist p) (unat n) < 2 ^ 32 - 4"
  shows "\<exists>w'. sha384_update hw m p n w = Some w' \<and>
    stream w' = stream w @ rdbytes m p (if align_dist p \<le> unat n then unat n else align_dist p)"
  using sha384_update_stream [OF assms(1), of p n m w] assms(2) by (simp add: max_def)

text \<open>(C16) Witness: seven bytes at an odd address, and one byte there, which is hashed with the two
  bytes behind it.\<close>

theorem sha384_update_bytes_witness:
  "sha384_update log_crypt (\<lambda>a. ucast a) 0x1001 7 [0xff] = Some [0xff, 1, 2, 3, 4, 5, 6, 7] \<and>
   sha384_update log_crypt (\<lambda>a. ucast a) 0x1001 1 [0xff] = Some [0xff, 1, 2, 3]"
  using sha384_update_bytes [OF log_crypt_unit, where p = "0x1001" and n = 7 and m = "\<lambda>a. ucast a" and w = "[0xff]"]
    sha384_update_bytes [OF log_crypt_unit, where p = "0x1001" and n = 1 and m = "\<lambda>a. ucast a" and w = "[0xff]"]
  by (simp add: align_dist_def rdbytes_numeral)

text \<open>A chunk that ends before the next aligned address is hashed with bytes that do not belong
  to it: the alignment loop does not look at the end of the chunk.\<close>

theorem sha384_update_overrun:
  assumes "crypt_unit hw stream digest ready"
    and "unat n < align_dist p" and "unat p < 2 ^ 32 - 8"
  shows "\<exists>w'. sha384_update hw m p n w = Some w' \<and>
    stream w' = stream w @ rdbytes m p (unat n) @ rdbytes m (p + n) (align_dist p - unat n) \<and>
    stream w' \<noteq> stream w @ rdbytes m p (unat n)"
proof -
  have "rdbytes m p (align_dist p) = rdbytes m p (unat n) @ rdbytes m (p + n) (align_dist p - unat n)"
    using assms(2) rdbytes_add [of m p "unat n" "align_dist p - unat n"] by simp
  moreover have "rdbytes m (p + n) (align_dist p - unat n) \<noteq> []"
    using assms(2) by (cases "align_dist p - unat n") auto
  ultimately show ?thesis
    using sha384_update_stream [OF assms(1), of p n m w] assms(2,3) align_dist_less [of p] by (auto simp: max_def)
qed

text \<open>Witness: a chunk of one byte at an odd address, and two bytes behind it.\<close>

theorem sha384_update_overrun_witness:
  "sha384_update log_crypt (\<lambda>a. ucast a) 0x1001 1 [] = Some ([1] @ [2, 3])"
  using sha384_update_overrun [OF log_crypt_unit, where p = "0x1001" and n = 1 and m = "\<lambda>a. ucast a" and w = "[]"]
  by (simp add: align_dist_def rdbytes_numeral)

text \<open>(C17) \<open>sha384_finalize_byte\<close> returns; the unit has then taken the data followed by the padding of
  FIPS 180-4 for its length, a whole number of blocks, and the hash of it is in the buffer.\<close>

theorem sha384_finalize_byte_fips:
  assumes "crypt_unit hw stream digest ready" and "length (stream w) = unat n" and "length hash = 48"
  shows "\<exists>w'. sha384_finalize_byte hw (Some hash) n w =
      Some (Some (hash_bytes (digest (stream w @ fips_padding (unat n)))), w') \<and>
    stream w' = stream w @ fips_padding (unat n) \<and> 128 dvd length (stream w')"
  using sha384_finalize_byte_hash [OF assms] fips_padding_blocks [of "unat n"] assms(2) by auto

text \<open>(C17) Witness: three bytes of data.\<close>

theorem sha384_finalize_byte_fips_witness:
  "\<exists>w'. sha384_finalize_byte log_crypt (Some (replicate 48 0)) 3 [1, 2, 3] =
      Some (Some (hash_bytes (replicate 12 128)), w') \<and> length w' = 128"
  using sha384_finalize_byte_fips [OF log_crypt_unit, where w = "[1, 2, 3]" and n = 3 and hash = "replicate 48 0"]
  by (auto simp: fips_padding_def be128_def)

text \<open>The variant for whole DWORDs writes the same padding.\<close>

theorem sha384_finalize_fips:
  assumes "crypt_unit hw stream digest ready" and "length (stream w) = 4 * unat n" and "length hash = 48"
  shows "\<exists>w'. sha384_finalize hw (Some hash) n w =
      Some (Some (hash_bytes (digest (stream w @ fips_padding (4 * unat n)))), w') \<and>
    stream w' = stream w @ fips_padding (4 * unat n)"
  using sha384_finalize_hash [OF assms] .

text \<open>Witness: one DWORD of data.\<close>

theorem sha384_finalize_fips_witness:
  "\<exists>w'. sha384_finalize log_crypt (Some (replicate 48 0)) 1 [1, 2, 3, 4] =
      Some (Some (hash_bytes (replicate 12 128)), w') \<and> length w' = 128"
  using sha384_finalize_fips [OF log_crypt_unit, where w = "[1, 2, 3, 4]" and n = 1 and hash = "replicate 48 0"]
  by (auto simp: fips_padding_def be128_def)

end
