(* ===== verification/Drv_Eth_Xc.thy ===== *)
theory Drv_Eth_Xc
  imports Prelude
begin

text \<open>
  The network interface (network_interface.h) and the Ethernet driver for the XC units
  (drv_eth_xc.c). A frame buffer is handed between the hardware and the software through pointer
  FIFOs whose elements name a RAM segment and a frame number. The registers are a record of
  functions over the state \<open>'w\<close>; the RAM addresses come from the platform headers and are a
  parameter too. An index beyond the table \<open>aulIntRamStart\<close> reads some value: the parameter is a
  function on all indices.
\<close>

subsection \<open>The interface\<close>

record 'd NETWORK_IF_T =
  pfnGetLinkStatus :: "'d \<Rightarrow> u32 \<times> 'd"
  pfnGetEmptyPacket :: "'d \<Rightarrow> ptr \<times> 'd"
  pfnReleasePacket :: "ptr \<Rightarrow> 'd \<Rightarrow> 'd"
  pfnSendPacket :: "ptr \<Rightarrow> u32 \<Rightarrow> 'd \<Rightarrow> 'd"
  pfnGetReceivedPacket :: "u32 \<Rightarrow> 'd \<Rightarrow> ptr \<times> u32 \<times> 'd"
  pfnDeactivate :: "'d \<Rightarrow> 'd"

text \<open>\<open>pfnGetReceivedPacket\<close> takes the value of \<open>*psizPacket\<close> before the call and returns the value
  after it.\<close>

subsection \<open>The driver\<close>

record 'w xc_regs =
  MSK_int_phy_ctrl_led_link_ro :: u32
  aulIntRamStart :: "u32 \<Rightarrow> u32"
  rd_int_phy_ctrl_led :: "u32 \<Rightarrow> 'w \<Rightarrow> u32 \<times> 'w"
  rd_pfifo_fill_level :: "u32 \<Rightarrow> u32 \<Rightarrow> 'w \<Rightarrow> u32 \<times> 'w"
  rd_pfifo :: "u32 \<Rightarrow> u32 \<Rightarrow> 'w \<Rightarrow> u32 \<times> 'w"
  wr_pfifo :: "u32 \<Rightarrow> u32 \<Rightarrow> u32 \<Rightarrow> 'w \<Rightarrow> 'w"

record DRV_ETH_XC_HANDLE_T =
  uiEthPortNr :: u32
  uiXcUnit :: u32
  uiXcPort :: u32

text \<open>The static \<open>tHandle\<close> and the hardware.\<close>

record 'w xc =
  tHandle :: DRV_ETH_XC_HANDLE_T
  xc_w :: 'w

definition ETHERNET_MINIMUM_FRAMELENGTH :: u32 where "ETHERNET_MINIMUM_FRAMELENGTH = 60"
definition ETHERNET_MAXIMUM_FRAMELENGTH :: u32 where "ETHERNET_MAXIMUM_FRAMELENGTH = 1518"
definition NUM_FIFO_CHANNELS_PER_UNIT :: u32 where "NUM_FIFO_CHANNELS_PER_UNIT = 8"
definition FIFO_ENTRIES :: nat where "FIFO_ENTRIES = 100"
definition ETH_FRAME_BUF_SIZE :: u32 where "ETH_FRAME_BUF_SIZE = 1560"
definition ETHERNET_FIFO_EMPTY :: u32 where "ETHERNET_FIFO_EMPTY = 0"
definition ETHERNET_FIFO_IND_LO :: u32 where "ETHERNET_FIFO_IND_LO = 2"
definition ETHERNET_FIFO_REQ_LO :: u32 where "ETHERNET_FIFO_REQ_LO = 4"

definition MSK_ETHMAC_FIFO_ELEMENT_FRAME_LEN :: u32 where
  "MSK_ETHMAC_FIFO_ELEMENT_FRAME_LEN = 0x000007ff"
definition MSK_ETHMAC_FIFO_ELEMENT_SUPPRESS_CON :: u32 where
  "MSK_ETHMAC_FIFO_ELEMENT_SUPPRESS_CON = 0x00004000"
definition MSK_ETHMAC_FIFO_ELEMENT_FRAME_BUF_NUM :: u32 where
  "MSK_ETHMAC_FIFO_ELEMENT_FRAME_BUF_NUM = 0x003f0000"
definition MSK_ETHMAC_FIFO_ELEMENT_INT_RAM_SEGMENT_NUM :: u32 where
  "MSK_ETHMAC_FIFO_ELEMENT_INT_RAM_SEGMENT_NUM = 0x03c00000"

definition convert_fifo_value_to_packet_pointer :: "'w xc_regs \<Rightarrow> u32 \<Rightarrow> ptr" where
  "convert_fifo_value_to_packet_pointer r ulFifoValue =
     (let ulFrameNr = drop_bit 16 (ulFifoValue AND MSK_ETHMAC_FIFO_ELEMENT_FRAME_BUF_NUM);
          ulRamSegment = drop_bit 22 (ulFifoValue AND MSK_ETHMAC_FIFO_ELEMENT_INT_RAM_SEGMENT_NUM) in
      aulIntRamStart r ulRamSegment + ETH_FRAME_BUF_SIZE * ulFrameNr)"

definition convert_packet_pointer_to_fifo_value :: "ptr \<Rightarrow> u32" where
  "convert_packet_pointer_to_fifo_value pvPacket =
     (let ulRamSegment = drop_bit 17 pvPacket AND 3;
          ulFrameNr = (pvPacket AND 0x1ffff) div ETH_FRAME_BUF_SIZE in
      push_bit 22 ulRamSegment OR push_bit 16 ulFrameNr)"

definition fifo_nr :: "'w xc \<Rightarrow> u32 \<Rightarrow> u32" where
  "fifo_nr s fifo = uiXcPort (tHandle s) * NUM_FIFO_CHANNELS_PER_UNIT + fifo"

definition drv_eth_xc_get_link_status :: "'w xc_regs \<Rightarrow> 'w xc \<Rightarrow> u32 \<times> 'w xc" where
  "drv_eth_xc_get_link_status r s =
     (case rd_int_phy_ctrl_led r (uiEthPortNr (tHandle s)) (xc_w s) of (ulValue, w) \<Rightarrow>
        (if ulValue AND MSK_int_phy_ctrl_led_link_ro r \<noteq> 0 then 1 else 0, s\<lparr>xc_w := w\<rparr>))"

definition drv_eth_xc_get_empty_packet :: "'w xc_regs \<Rightarrow> 'w xc \<Rightarrow> ptr \<times> 'w xc" where
  "drv_eth_xc_get_empty_packet r s =
     (let uiFifoNr = fifo_nr s ETHERNET_FIFO_EMPTY; xc_unit = uiXcUnit (tHandle s) in
      case rd_pfifo_fill_level r xc_unit uiFifoNr (xc_w s) of (ulValue, w) \<Rightarrow>
      if ulValue > 1 then
        (case rd_pfifo r xc_unit uiFifoNr w of (ulFifoValue, w) \<Rightarrow>
           (convert_fifo_value_to_packet_pointer r ulFifoValue, s\<lparr>xc_w := w\<rparr>))
      else (NULL, s\<lparr>xc_w := w\<rparr>))"

definition drv_eth_xc_release_packet :: "'w xc_regs \<Rightarrow> ptr \<Rightarrow> 'w xc \<Rightarrow> 'w xc" where
  "drv_eth_xc_release_packet r pvPacket s =
     s\<lparr>xc_w := wr_pfifo r (uiXcUnit (tHandle s)) (fifo_nr s ETHERNET_FIFO_EMPTY)
        (convert_packet_pointer_to_fifo_value pvPacket) (xc_w s)\<rparr>"

definition drv_eth_xc_send_packet :: "'w xc_regs \<Rightarrow> ptr \<Rightarrow> u32 \<Rightarrow> 'w xc \<Rightarrow> 'w xc" where
  "drv_eth_xc_send_packet r pvPacket sizPacket s =
     (let sizPacket = (if sizPacket < ETHERNET_MINIMUM_FRAMELENGTH then ETHERNET_MINIMUM_FRAMELENGTH
                       else if sizPacket > ETHERNET_MAXIMUM_FRAMELENGTH then ETHERNET_MAXIMUM_FRAMELENGTH
                       else sizPacket);
          ulFifoValue = convert_packet_pointer_to_fifo_value pvPacket
            OR MSK_ETHMAC_FIFO_ELEMENT_SUPPRESS_CON OR push_bit 0 sizPacket in
      s\<lparr>xc_w := wr_pfifo r (uiXcUnit (tHandle s)) (fifo_nr s ETHERNET_FIFO_REQ_LO) ulFifoValue (xc_w s)\<rparr>)"

definition drv_eth_xc_get_received_packet :: "'w xc_regs \<Rightarrow> u32 \<Rightarrow> 'w xc \<Rightarrow> ptr \<times> u32 \<times> 'w xc" where
  "drv_eth_xc_get_received_packet r sizPacket s =
     (let uiFifoNr = fifo_nr s ETHERNET_FIFO_IND_LO; xc_unit = uiXcUnit (tHandle s) in
      case rd_pfifo_fill_level r xc_unit uiFifoNr (xc_w s) of (ulFillLevel, w) \<Rightarrow>
      if ulFillLevel \<noteq> 0 then
        (case rd_pfifo r xc_unit uiFifoNr w of (ulFifoValue, w) \<Rightarrow>
           (convert_fifo_value_to_packet_pointer r ulFifoValue,
            drop_bit 0 (ulFifoValue AND MSK_ETHMAC_FIFO_ELEMENT_FRAME_LEN), s\<lparr>xc_w := w\<rparr>))
      else (NULL, sizPacket, s\<lparr>xc_w := w\<rparr>))"

definition drv_eth_xc_deactivate :: "'w xc \<Rightarrow> 'w xc" where
  "drv_eth_xc_deactivate s = s"

definition tNetworkIfXc :: "'w xc_regs \<Rightarrow> 'w xc NETWORK_IF_T" where
  "tNetworkIfXc r = \<lparr>pfnGetLinkStatus = drv_eth_xc_get_link_status r,
     pfnGetEmptyPacket = drv_eth_xc_get_empty_packet r, pfnReleasePacket = drv_eth_xc_release_packet r,
     pfnSendPacket = drv_eth_xc_send_packet r, pfnGetReceivedPacket = drv_eth_xc_get_received_packet r,
     pfnDeactivate = drv_eth_xc_deactivate\<rparr>"

definition drv_eth_xc_initialize :: "'w xc_regs \<Rightarrow> u32 \<Rightarrow> 'w xc \<Rightarrow> 'w xc NETWORK_IF_T option \<times> 'w xc" where
  "drv_eth_xc_initialize r uiPort s =
     (if uiPort \<le> 3 then
        (Some (tNetworkIfXc r),
         s\<lparr>tHandle := \<lparr>uiEthPortNr = uiPort, uiXcUnit = drop_bit 1 uiPort AND 1, uiXcPort = uiPort AND 1\<rparr>\<rparr>)
      else (None, s))"

subsection \<open>FIFO elements and frame addresses\<close>

text \<open>The layout of the RAM that \<open>convert_packet_pointer_to_fifo_value\<close> notes: four segments of
  \<open>0x20000\<close> bytes one after the other, with the segment number in the bits 17 and 18.\<close>

definition intram_layout :: "'w xc_regs \<Rightarrow> bool" where
  "intram_layout r \<longleftrightarrow> unat (aulIntRamStart r 0) mod 0x80000 = 0 \<and>
     aulIntRamStart r 1 = aulIntRamStart r 0 + 0x20000 \<and>
     aulIntRamStart r 2 = aulIntRamStart r 0 + 0x40000 \<and>
     aulIntRamStart r 3 = aulIntRamStart r 0 + 0x60000"

definition fifo_frame :: "u32 \<Rightarrow> nat" where
  "fifo_frame v = unat v div 2 ^ 16 mod 2 ^ 6"

definition fifo_segment :: "u32 \<Rightarrow> nat" where
  "fifo_segment v = unat v div 2 ^ 22 mod 2 ^ 4"

lemma fifo_frame_less [simp]: "fifo_frame v < 64"
  by (simp add: fifo_frame_def)

lemma fifo_segment_less [simp]: "fifo_segment v < 16"
  by (simp add: fifo_segment_def)

lemma frame_mask: "drop_bit 16 (v AND 0x3f0000) = drop_bit 16 v AND mask 6" for v :: u32
proof -
  have e: "(0x3f0000 :: u32) = push_bit 16 (mask 6)" by (simp add: mask_eq_exp_minus_1 push_bit_eq_mult)
  show ?thesis unfolding e by (rule bit_word_eqI) (auto simp: bit_simps)
qed

lemma segment_mask: "drop_bit 22 (v AND 0x3c00000) = drop_bit 22 v AND mask 4" for v :: u32
proof -
  have e: "(0x3c00000 :: u32) = push_bit 22 (mask 4)" by (simp add: mask_eq_exp_minus_1 push_bit_eq_mult)
  show ?thesis unfolding e by (rule bit_word_eqI) (auto simp: bit_simps)
qed

lemma unat_frame: "unat (drop_bit 16 (v AND MSK_ETHMAC_FIFO_ELEMENT_FRAME_BUF_NUM)) = fifo_frame v"
  unfolding MSK_ETHMAC_FIFO_ELEMENT_FRAME_BUF_NUM_def frame_mask by (simp only: unat_and_mask unat_drop_bit fifo_frame_def)

lemma unat_segment: "unat (drop_bit 22 (v AND MSK_ETHMAC_FIFO_ELEMENT_INT_RAM_SEGMENT_NUM)) = fifo_segment v"
  unfolding MSK_ETHMAC_FIFO_ELEMENT_INT_RAM_SEGMENT_NUM_def segment_mask by (simp only: unat_and_mask unat_drop_bit fifo_segment_def)

lemma unat_intram:
  assumes lay: "intram_layout r" and seg: "unat n < 4"
  shows "unat (aulIntRamStart r n) = unat (aulIntRamStart r 0) + 0x20000 * unat n"
    and "unat (aulIntRamStart r 0) + 0x80000 \<le> 2 ^ 32"
proof -
  let ?b = "unat (aulIntRamStart r 0)"
  have "?b mod 0x80000 = 0" using lay by (simp add: intram_layout_def)
  then obtain k where "?b = 0x80000 * k" by (auto simp: mod_eq_0_iff_dvd)
  then show b: "?b + 0x80000 \<le> 2 ^ 32" using unat_u32_less [of "aulIntRamStart r 0"] by simp
  have add: "unat (aulIntRamStart r 0 + x) = ?b + unat x" if "unat x < 0x80000" for x
    using b that by (simp add: unat_word_ariths)
  have "unat n = 0 \<or> unat n = 1 \<or> unat n = 2 \<or> unat n = 3" using seg by linarith
  then have "n = 0 \<or> n = 1 \<or> n = 2 \<or> n = 3" by (auto dest!: arg_cong [where f = "of_nat :: nat \<Rightarrow> u32"])
  then show "unat (aulIntRamStart r n) = ?b + 0x20000 * unat n"
    using lay add [of "0x20000"] add [of "0x40000"] add [of "0x60000"] by (auto simp: intram_layout_def)
qed

lemma unat_packet_pointer:
  assumes lay: "intram_layout r" and seg: "fifo_segment v < 4"
  shows "unat (convert_fifo_value_to_packet_pointer r v) =
    unat (aulIntRamStart r 0) + 0x20000 * fifo_segment v + 1560 * fifo_frame v"
proof -
  let ?s = "drop_bit 22 (v AND MSK_ETHMAC_FIFO_ELEMENT_INT_RAM_SEGMENT_NUM)"
  let ?f = "drop_bit 16 (v AND MSK_ETHMAC_FIFO_ELEMENT_FRAME_BUF_NUM)"
  have s: "unat (aulIntRamStart r ?s) = unat (aulIntRamStart r 0) + 0x20000 * fifo_segment v"
    "unat (aulIntRamStart r 0) + 0x80000 \<le> 2 ^ 32"
    using unat_intram [OF lay, of ?s] seg unat_segment [of v] by simp_all
  have "fifo_frame v \<le> 63" using fifo_frame_less [of v] by linarith
  then have f: "unat (ETH_FRAME_BUF_SIZE * ?f) = 1560 * fifo_frame v"
    using unat_frame [of v] by (simp add: unat_word_ariths ETH_FRAME_BUF_SIZE_def)
  have "unat (aulIntRamStart r ?s) + unat (ETH_FRAME_BUF_SIZE * ?f) < 2 ^ 32"
    using s f seg \<open>fifo_frame v \<le> 63\<close> by linarith
  then have "unat (aulIntRamStart r ?s + ETH_FRAME_BUF_SIZE * ?f) =
      unat (aulIntRamStart r ?s) + unat (ETH_FRAME_BUF_SIZE * ?f)"
    by (simp add: unat_word_ariths)
  then show ?thesis unfolding convert_fifo_value_to_packet_pointer_def Let_def s f by simp
qed

lemma packet_pointer_to_fifo_value:
  assumes lay: "intram_layout r" and seg: "fifo_segment v < 4"
  shows "convert_packet_pointer_to_fifo_value (convert_fifo_value_to_packet_pointer r v) =
    push_bit 22 (of_nat (fifo_segment v)) OR push_bit 16 (of_nat (fifo_frame v))"
proof -
  define p where "p = convert_fifo_value_to_packet_pointer r v"
  define f s where "f = fifo_frame v" and "s = fifo_segment v"
  have fs: "f < 64" "s < 4" using seg by (simp_all add: f_def s_def)
  have "unat (aulIntRamStart r 0) mod 0x80000 = 0" using lay by (simp add: intram_layout_def)
  then obtain k where k: "unat (aulIntRamStart r 0) = 0x80000 * k" by (auto simp: mod_eq_0_iff_dvd)
  have p: "unat p = 0x20000 * (4 * k + s) + 1560 * f"
    using unat_packet_pointer [OF assms] k by (simp add: p_def f_def s_def)
  have off: "1560 * f < 0x20000" using fs by simp
  have masks: "(3 :: u32) = mask 2" "(0x1ffff :: u32) = mask 17" by (simp_all add: mask_eq_exp_minus_1)
  have "unat p div 2 ^ 17 = 4 * k + s" using p off by simp
  then have "unat (drop_bit 17 p AND 3) = s" using fs unfolding masks unat_and_mask unat_drop_bit by simp
  moreover have "unat p mod 2 ^ 17 = 1560 * f"
    using off mod_mult_self4 [of "0x20000" "4 * k + s" "1560 * f"] unfolding p by simp
  then have "unat ((p AND 0x1ffff) div ETH_FRAME_BUF_SIZE) = f"
    unfolding masks by (simp add: unat_div_distrib unat_and_mask ETH_FRAME_BUF_SIZE_def)
  ultimately show ?thesis
    unfolding convert_packet_pointer_to_fifo_value_def Let_def p_def [symmetric] f_def [symmetric] s_def [symmetric]
    by (metis of_nat_unat ucast_id)
qed

lemma fifo_value_fields:
  assumes f: "f < 64" and s: "s < 16"
  shows "fifo_frame (push_bit 22 (of_nat s) OR push_bit 16 (of_nat f) OR take_bit 16 x) = f"
    and "fifo_segment (push_bit 22 (of_nat s) OR push_bit 16 (of_nat f) OR take_bit 16 x) = s"
    and "take_bit 16 (push_bit 22 (of_nat s) OR push_bit 16 (of_nat f) OR take_bit 16 x) = take_bit 16 x"
proof -
  let ?v = "push_bit 22 (of_nat s) OR push_bit 16 (of_nat f) OR take_bit 16 x :: u32"
  let ?f = "of_nat f :: u32" and ?s = "of_nat s :: u32"
  have "take_bit 6 f = f" "take_bit 4 s = s" using f s by (simp_all add: take_bit_nat_eq_self)
  then have bf: "bit f n \<Longrightarrow> n < 6" and bs: "bit s n \<Longrightarrow> n < 4" for n by (metis bit_take_bit_iff)+
  have "drop_bit 16 ?v AND mask 6 = ?f"
    by (rule bit_word_eqI) (auto simp: bit_simps dest: bf bs)
  then have "unat (drop_bit 16 ?v AND mask 6) = f" using f by (simp add: unat_of_nat)
  then show "fifo_frame ?v = f" by (simp only: unat_and_mask unat_drop_bit fifo_frame_def)
  have "drop_bit 22 ?v AND mask 4 = ?s"
    by (rule bit_word_eqI) (auto simp: bit_simps dest: bf bs)
  then have "unat (drop_bit 22 ?v AND mask 4) = s" using s by (simp add: unat_of_nat)
  then show "fifo_segment ?v = s" by (simp only: unat_and_mask unat_drop_bit fifo_segment_def)
  show "take_bit 16 ?v = take_bit 16 x"
    by (rule bit_word_eqI) (auto simp: bit_simps)
qed

lemma packet_pointer_cong:
  assumes "intram_layout r" and "fifo_segment v < 4" and "fifo_segment v' = fifo_segment v"
    and "fifo_frame v' = fifo_frame v"
  shows "convert_fifo_value_to_packet_pointer r v' = convert_fifo_value_to_packet_pointer r v"
  using unat_packet_pointer [OF assms(1), of v] unat_packet_pointer [OF assms(1), of v'] assms(2-4)
  by (simp add: word_unat_eq_iff)

lemma packet_pointer_to_fifo_fields:
  assumes "intram_layout r" and "fifo_segment v < 4"
  shows "fifo_segment (convert_packet_pointer_to_fifo_value (convert_fifo_value_to_packet_pointer r v)) = fifo_segment v"
    and "fifo_frame (convert_packet_pointer_to_fifo_value (convert_fifo_value_to_packet_pointer r v)) = fifo_frame v"
  using fifo_value_fields [of "fifo_frame v" "fifo_segment v" 0] assms(2)
  by (simp_all only: packet_pointer_to_fifo_value [OF assms] take_bit_of_0 or.right_neutral) simp_all

text \<open>The element that a packet is sent with.\<close>

definition clamp_size :: "u32 \<Rightarrow> u32" where
  "clamp_size n = (if n < ETHERNET_MINIMUM_FRAMELENGTH then ETHERNET_MINIMUM_FRAMELENGTH
     else if n > ETHERNET_MAXIMUM_FRAMELENGTH then ETHERNET_MAXIMUM_FRAMELENGTH else n)"

definition send_element :: "ptr \<Rightarrow> u32 \<Rightarrow> u32" where
  "send_element p n = convert_packet_pointer_to_fifo_value p OR
     MSK_ETHMAC_FIFO_ELEMENT_SUPPRESS_CON OR push_bit 0 (clamp_size n)"

lemma clamp_size_bounds: "60 \<le> unat (clamp_size n)" "unat (clamp_size n) \<le> 1518"
  by (auto simp: clamp_size_def ETHERNET_MINIMUM_FRAMELENGTH_def ETHERNET_MAXIMUM_FRAMELENGTH_def word_less_nat_alt)

lemma small_or_bits:
  assumes "unat (y :: u32) < 2 ^ 11"
  shows "take_bit 16 (0x4000 OR y) = 0x4000 OR y" and "take_bit 11 (0x4000 OR y) = y"
proof -
  have "unat (take_bit 11 y) = unat y"
    using assms by (simp only: take_bit_eq_mask unat_and_mask) simp
  then have "take_bit 11 y = y" by (simp only: word_unat_eq_iff)
  then have b: "bit y k \<Longrightarrow> k < 11" for k by (metis bit_take_bit_iff)
  have e: "bit (0x4000 :: u32) k = (k = 14)" for k
    using bit_push_bit_iff [of 14 "1 :: u32" k] by (auto simp: push_bit_eq_mult bit_1_iff bit_simps)
  show "take_bit 16 (0x4000 OR y) = 0x4000 OR y"
    by (rule bit_word_eqI) (auto simp: bit_take_bit_iff bit_or_iff e dest: b)
  show "take_bit 11 (0x4000 OR y) = y"
    by (rule bit_word_eqI) (auto simp: bit_take_bit_iff bit_or_iff e dest: b)
qed

lemma send_size_bits:
  "take_bit 16 (0x4000 OR clamp_size n) = 0x4000 OR clamp_size n"
  "take_bit 11 (0x4000 OR clamp_size n) = clamp_size n"
  using clamp_size_bounds(2) [of n] by (simp_all add: small_or_bits del: take_bit_or)

lemma send_element_fields:
  assumes lay: "intram_layout r" and seg: "fifo_segment v < 4"
  shows "fifo_segment (send_element (convert_fifo_value_to_packet_pointer r v) n) = fifo_segment v"
    and "fifo_frame (send_element (convert_fifo_value_to_packet_pointer r v) n) = fifo_frame v"
    and "send_element (convert_fifo_value_to_packet_pointer r v) n AND MSK_ETHMAC_FIFO_ELEMENT_FRAME_LEN = clamp_size n"
proof -
  let ?x = "0x4000 OR clamp_size n"
  have e: "send_element (convert_fifo_value_to_packet_pointer r v) n =
      push_bit 22 (of_nat (fifo_segment v)) OR push_bit 16 (of_nat (fifo_frame v)) OR take_bit 16 ?x"
    by (simp only: send_element_def packet_pointer_to_fifo_value [OF assms] send_size_bits
        MSK_ETHMAC_FIFO_ELEMENT_SUPPRESS_CON_def or.assoc push_bit_0_id id_apply)
  show "fifo_segment (send_element (convert_fifo_value_to_packet_pointer r v) n) = fifo_segment v"
    unfolding e by (rule fifo_value_fields) simp_all
  show "fifo_frame (send_element (convert_fifo_value_to_packet_pointer r v) n) = fifo_frame v"
    unfolding e by (rule fifo_value_fields) simp_all
  have m: "MSK_ETHMAC_FIFO_ELEMENT_FRAME_LEN = mask 11"
    by (simp add: MSK_ETHMAC_FIFO_ELEMENT_FRAME_LEN_def mask_eq_exp_minus_1)
  have "take_bit 11 (send_element (convert_fifo_value_to_packet_pointer r v) n) =
      take_bit 11 (take_bit 16 (send_element (convert_fifo_value_to_packet_pointer r v) n))"
    by (simp only: take_bit_take_bit) simp
  also have "\<dots> = take_bit 11 (take_bit 16 ?x)"
    unfolding e by (subst fifo_value_fields) simp_all
  also have "\<dots> = clamp_size n" by (simp only: send_size_bits)
  finally show "send_element (convert_fifo_value_to_packet_pointer r v) n AND MSK_ETHMAC_FIFO_ELEMENT_FRAME_LEN = clamp_size n"
    unfolding m by (simp only: take_bit_eq_mask)
qed

subsection \<open>The frames of the interface\<close>

text \<open>
  What a user of the interface relies on: \<open>pool\<close> is the number of frame buffers the interface
  holds, at most \<open>cap\<close>.
  A packet taken from the interface, empty or received, leaves the pool; releasing or sending it
  gives it back.
\<close>

locale network_if =
  fixes nif :: "'d NETWORK_IF_T" and if_ok :: "'d \<Rightarrow> bool" and pool :: "'d \<Rightarrow> nat"
    and cap :: nat and frame :: "ptr \<Rightarrow> bool"
  assumes cap_law: "if_ok d \<Longrightarrow> pool d \<le> cap"
    and link_law: "if_ok d \<Longrightarrow> pfnGetLinkStatus nif d = (v, d') \<Longrightarrow> if_ok d' \<and> pool d' = pool d"
    and empty_law: "if_ok d \<Longrightarrow> pfnGetEmptyPacket nif d = (p, d') \<Longrightarrow>
      if_ok d' \<and> (if p = NULL then pool d' = pool d else frame p \<and> pool d = Suc (pool d'))"
    and release_law: "if_ok d \<Longrightarrow> frame p \<Longrightarrow> pool d < cap \<Longrightarrow>
      if_ok (pfnReleasePacket nif p d) \<and> pool (pfnReleasePacket nif p d) = Suc (pool d)"
    and send_law: "if_ok d \<Longrightarrow> frame p \<Longrightarrow> pool d < cap \<Longrightarrow>
      if_ok (pfnSendPacket nif p n d) \<and> pool (pfnSendPacket nif p n d) = Suc (pool d)"
    and received_law: "if_ok d \<Longrightarrow> pfnGetReceivedPacket nif n d = (p, k, d') \<Longrightarrow>
      if_ok d' \<and> (if p = NULL then k = n \<and> pool d' = pool d else frame p \<and> unat k < 2048 \<and> pool d = Suc (pool d'))"
begin

lemma empty_send_keeps:
  assumes "if_ok d" and "pfnGetEmptyPacket nif d = (p, d')" and "p \<noteq> NULL"
  shows "if_ok (pfnSendPacket nif p n d') \<and> pool (pfnSendPacket nif p n d') = pool d"
  using empty_law [OF assms(1,2)] send_law [of d' p n] cap_law [OF assms(1)] assms(3) by auto

lemma received_release_keeps:
  assumes "if_ok d" and "pfnGetReceivedPacket nif n d = (p, k, d')" and "p \<noteq> NULL"
  shows "if_ok (pfnReleasePacket nif p d') \<and> pool (pfnReleasePacket nif p d') = pool d"
  using received_law [OF assms(1,2)] release_law [of d' p] cap_law [OF assms(1)] assms(3) by auto

end

text \<open>The documented behaviour of the pointer FIFOs: \<open>q w u n\<close> is the content of FIFO \<open>n\<close> of unit \<open>u\<close>,
  which has room for \<open>FIFO_ENTRIES\<close> elements.\<close>

definition pfifo_unit :: "'w xc_regs \<Rightarrow> ('w \<Rightarrow> u32 \<Rightarrow> u32 \<Rightarrow> u32 list) \<Rightarrow> bool" where
  "pfifo_unit r q \<longleftrightarrow>
     (\<forall>u n w. q (snd (rd_pfifo_fill_level r u n w)) = q w \<and>
        (length (q w u n) \<le> FIFO_ENTRIES \<longrightarrow> unat (fst (rd_pfifo_fill_level r u n w)) = length (q w u n))) \<and>
     (\<forall>u n w. q w u n \<noteq> [] \<longrightarrow> fst (rd_pfifo r u n w) = hd (q w u n) \<and>
        q (snd (rd_pfifo r u n w)) = (q w)(u := (q w u)(n := tl (q w u n)))) \<and>
     (\<forall>u n v w. length (q w u n) < FIFO_ENTRIES \<longrightarrow>
        q (wr_pfifo r u n v w) = (q w)(u := (q w u)(n := q w u n @ [v]))) \<and>
     (\<forall>u w. q (snd (rd_int_phy_ctrl_led r u w)) = q w)"

definition xc_fifo :: "('w \<Rightarrow> u32 \<Rightarrow> u32 \<Rightarrow> u32 list) \<Rightarrow> 'w xc \<Rightarrow> u32 \<Rightarrow> u32 list" where
  "xc_fifo q s f = q (xc_w s) (uiXcUnit (tHandle s)) (fifo_nr s f)"

definition xc_pool :: "('w \<Rightarrow> u32 \<Rightarrow> u32 \<Rightarrow> u32 list) \<Rightarrow> 'w xc \<Rightarrow> nat" where
  "xc_pool q s = length (xc_fifo q s ETHERNET_FIFO_EMPTY) + length (xc_fifo q s ETHERNET_FIFO_IND_LO) +
     length (xc_fifo q s ETHERNET_FIFO_REQ_LO)"

definition xc_ok :: "'w xc_regs \<Rightarrow> ('w \<Rightarrow> u32 \<Rightarrow> u32 \<Rightarrow> u32 list) \<Rightarrow> 'w xc \<Rightarrow> bool" where
  "xc_ok r q s \<longleftrightarrow> pfifo_unit r q \<and> intram_layout r \<and> aulIntRamStart r 0 \<noteq> 0 \<and> xc_pool q s \<le> FIFO_ENTRIES \<and>
     list_all (\<lambda>v. fifo_segment v < 4)
       (xc_fifo q s ETHERNET_FIFO_EMPTY @ xc_fifo q s ETHERNET_FIFO_IND_LO @ xc_fifo q s ETHERNET_FIFO_REQ_LO)"

definition xc_frame :: "'w xc_regs \<Rightarrow> ptr \<Rightarrow> bool" where
  "xc_frame r p \<longleftrightarrow> (\<exists>v. fifo_segment v < 4 \<and> p = convert_fifo_value_to_packet_pointer r v)"

lemma packet_pointer_not_null:
  assumes "intram_layout r" and "aulIntRamStart r 0 \<noteq> 0" and "fifo_segment v < 4"
  shows "convert_fifo_value_to_packet_pointer r v \<noteq> NULL"
proof
  assume "convert_fifo_value_to_packet_pointer r v = NULL"
  then have "unat (aulIntRamStart r 0) = 0" using unat_packet_pointer [OF assms(1,3)] by simp
  then show False using assms(2) by (simp add: unat_eq_0)
qed

lemma fifo_nr_distinct [simp]:
  "fifo_nr s f = fifo_nr s' f' \<longleftrightarrow> f = f'" if "tHandle s = tHandle s'"
  using that by (simp add: fifo_nr_def)

lemma fifos_distinct [simp]:
  "ETHERNET_FIFO_EMPTY \<noteq> ETHERNET_FIFO_IND_LO" "ETHERNET_FIFO_IND_LO \<noteq> ETHERNET_FIFO_EMPTY"
  "ETHERNET_FIFO_EMPTY \<noteq> ETHERNET_FIFO_REQ_LO" "ETHERNET_FIFO_REQ_LO \<noteq> ETHERNET_FIFO_EMPTY"
  "ETHERNET_FIFO_IND_LO \<noteq> ETHERNET_FIFO_REQ_LO" "ETHERNET_FIFO_REQ_LO \<noteq> ETHERNET_FIFO_IND_LO"
  by (simp_all add: ETHERNET_FIFO_EMPTY_def ETHERNET_FIFO_IND_LO_def ETHERNET_FIFO_REQ_LO_def)

lemma fifo_nr_handle: "fifo_nr (s\<lparr>xc_w := w\<rparr>) f = fifo_nr s f"
  by (simp add: fifo_nr_def)

lemma pfifo_read:
  assumes "pfifo_unit r q" and "rd_pfifo_fill_level r u n w = (k, w1)" and "rd_pfifo r u n w1 = (v, w2)"
    and "k \<noteq> 0" and "length (q w u n) \<le> FIFO_ENTRIES"
  shows "\<exists>vs. q w u n = v # vs \<and> q w2 = (q w)(u := (q w u)(n := vs))"
proof -
  have 1: "q w1 = q w" "unat k = length (q w u n)" using assms(1,2,5) unfolding pfifo_unit_def by (metis fst_conv snd_conv)+
  then have "q w1 u n \<noteq> []" using assms(4) by (auto simp: unat_eq_0)
  then have "v = hd (q w1 u n)" "q w2 = (q w1)(u := (q w1 u)(n := tl (q w1 u n)))"
    using assms(1,3) unfolding pfifo_unit_def by (metis fst_conv snd_conv)+
  then show ?thesis using 1 \<open>q w1 u n \<noteq> []\<close> by (intro exI [of _ "tl (q w u n)"]) simp
qed

text \<open>The FIFOs behind an operation of the driver.\<close>

lemma get_empty_fifo:
  assumes ok: "xc_ok r q s" and get: "drv_eth_xc_get_empty_packet r s = (p, s')"
  shows "tHandle s' = tHandle s \<and>
    (if length (xc_fifo q s ETHERNET_FIFO_EMPTY) \<le> 1 then p = NULL \<and> q (xc_w s') = q (xc_w s)
     else \<exists>v. p = convert_fifo_value_to_packet_pointer r v \<and>
       xc_fifo q s ETHERNET_FIFO_EMPTY = v # xc_fifo q s' ETHERNET_FIFO_EMPTY \<and>
       (\<forall>f. f \<noteq> ETHERNET_FIFO_EMPTY \<longrightarrow> xc_fifo q s f = xc_fifo q s' f))"
proof -
  let ?u = "uiXcUnit (tHandle s)" and ?n = "fifo_nr s ETHERNET_FIFO_EMPTY"
  obtain k w1 where fill: "rd_pfifo_fill_level r ?u ?n (xc_w s) = (k, w1)" by force
  have room: "length (q (xc_w s) ?u ?n) \<le> FIFO_ENTRIES" using ok by (simp add: xc_ok_def xc_pool_def xc_fifo_def)
  have q1: "q w1 = q (xc_w s)" "unat k = length (xc_fifo q s ETHERNET_FIFO_EMPTY)"
    using ok fill room unfolding xc_ok_def pfifo_unit_def xc_fifo_def by (metis fst_conv snd_conv)+
  show ?thesis
  proof (cases "k > 1")
    case True
    obtain v w2 where rd: "rd_pfifo r ?u ?n w1 = (v, w2)" by force
    have "k \<noteq> 0" using True by auto
    with ok fill rd obtain vs where "q (xc_w s) ?u ?n = v # vs" "q w2 = (q (xc_w s))(?u := (q (xc_w s) ?u)(?n := vs))"
      using pfifo_read [of r q ?u ?n "xc_w s" k w1 v w2] room by (auto simp: xc_ok_def)
    moreover have "s' = s\<lparr>xc_w := w2\<rparr>" "p = convert_fifo_value_to_packet_pointer r v"
      using get True fill rd by (auto simp: drv_eth_xc_get_empty_packet_def Let_def)
    moreover have "\<not> length (xc_fifo q s ETHERNET_FIFO_EMPTY) \<le> 1" using True q1(2) by (simp add: word_less_nat_alt)
    ultimately show ?thesis
      by (auto simp: xc_fifo_def fifo_nr_handle)
  next
    case False
    moreover have "length (xc_fifo q s ETHERNET_FIFO_EMPTY) \<le> 1" using False q1(2) by (simp add: word_less_nat_alt)
    ultimately show ?thesis using get fill q1 by (auto simp: drv_eth_xc_get_empty_packet_def Let_def)
  qed
qed

lemma get_received_fifo:
  assumes ok: "xc_ok r q s" and get: "drv_eth_xc_get_received_packet r n s = (p, k, s')"
  shows "tHandle s' = tHandle s \<and>
    (if xc_fifo q s ETHERNET_FIFO_IND_LO = [] then p = NULL \<and> k = n \<and> q (xc_w s') = q (xc_w s)
     else \<exists>v. p = convert_fifo_value_to_packet_pointer r v \<and> k = v AND MSK_ETHMAC_FIFO_ELEMENT_FRAME_LEN \<and>
       xc_fifo q s ETHERNET_FIFO_IND_LO = v # xc_fifo q s' ETHERNET_FIFO_IND_LO \<and>
       (\<forall>f. f \<noteq> ETHERNET_FIFO_IND_LO \<longrightarrow> xc_fifo q s f = xc_fifo q s' f))"
proof -
  let ?u = "uiXcUnit (tHandle s)" and ?n = "fifo_nr s ETHERNET_FIFO_IND_LO"
  obtain l w1 where fill: "rd_pfifo_fill_level r ?u ?n (xc_w s) = (l, w1)" by force
  have room: "length (q (xc_w s) ?u ?n) \<le> FIFO_ENTRIES" using ok by (simp add: xc_ok_def xc_pool_def xc_fifo_def)
  have q1: "q w1 = q (xc_w s)" "unat l = length (xc_fifo q s ETHERNET_FIFO_IND_LO)"
    using ok fill room unfolding xc_ok_def pfifo_unit_def xc_fifo_def by (metis fst_conv snd_conv)+
  show ?thesis
  proof (cases "l = 0")
    case False
    obtain v w2 where rd: "rd_pfifo r ?u ?n w1 = (v, w2)" by force
    with ok fill False obtain vs where "q (xc_w s) ?u ?n = v # vs" "q w2 = (q (xc_w s))(?u := (q (xc_w s) ?u)(?n := vs))"
      using pfifo_read [of r q ?u ?n "xc_w s" l w1 v w2] room by (auto simp: xc_ok_def)
    moreover have "s' = s\<lparr>xc_w := w2\<rparr>" "p = convert_fifo_value_to_packet_pointer r v"
      "k = v AND MSK_ETHMAC_FIFO_ELEMENT_FRAME_LEN"
      using get False fill rd by (auto simp: drv_eth_xc_get_received_packet_def Let_def)
    moreover have "xc_fifo q s ETHERNET_FIFO_IND_LO \<noteq> []" using False q1(2) by (auto simp: unat_eq_0)
    ultimately show ?thesis
      by (auto simp: xc_fifo_def fifo_nr_handle)
  next
    case True
    moreover have "xc_fifo q s ETHERNET_FIFO_IND_LO = []" using True q1(2) by simp
    ultimately show ?thesis using get fill q1 by (auto simp: drv_eth_xc_get_received_packet_def Let_def)
  qed
qed

lemma wr_pfifo_fifo:
  assumes ok: "xc_ok r q s" and s': "s' = s\<lparr>xc_w := wr_pfifo r (uiXcUnit (tHandle s)) (fifo_nr s f) v (xc_w s)\<rparr>"
    and room: "length (xc_fifo q s f) < FIFO_ENTRIES"
  shows "xc_fifo q s' g = (if g = f then xc_fifo q s f @ [v] else xc_fifo q s g)"
proof -
  have "q (xc_w s') = (q (xc_w s))(uiXcUnit (tHandle s) := (q (xc_w s) (uiXcUnit (tHandle s)))(fifo_nr s f :=
      q (xc_w s) (uiXcUnit (tHandle s)) (fifo_nr s f) @ [v]))"
    using ok room by (simp add: s' xc_ok_def pfifo_unit_def xc_fifo_def)
  then show ?thesis by (simp add: xc_fifo_def s' fifo_nr_handle)
qed

lemma fifo_room:
  assumes "xc_pool q s < FIFO_ENTRIES"
  shows "length (xc_fifo q s ETHERNET_FIFO_EMPTY) < FIFO_ENTRIES" "length (xc_fifo q s ETHERNET_FIFO_REQ_LO) < FIFO_ENTRIES"
  using assms by (simp_all add: xc_pool_def)

lemma release_fifo:
  assumes "xc_ok r q s" and "xc_pool q s < FIFO_ENTRIES"
  shows "xc_fifo q (drv_eth_xc_release_packet r p s) g =
    (if g = ETHERNET_FIFO_EMPTY then xc_fifo q s g @ [convert_packet_pointer_to_fifo_value p] else xc_fifo q s g)"
  using wr_pfifo_fifo [OF assms(1) drv_eth_xc_release_packet_def fifo_room(1) [OF assms(2)]] by simp

lemma send_fifo:
  assumes "xc_ok r q s" and "xc_pool q s < FIFO_ENTRIES"
  shows "xc_fifo q (drv_eth_xc_send_packet r p n s) g =
    (if g = ETHERNET_FIFO_REQ_LO then xc_fifo q s g @ [send_element p n] else xc_fifo q s g)"
  using wr_pfifo_fifo [OF assms(1) _ fifo_room(2) [OF assms(2)], of _ "send_element p n" g]
  by (simp add: drv_eth_xc_send_packet_def send_element_def clamp_size_def Let_def)

lemma xc_okI:
  assumes "xc_ok r q s" and "xc_pool q s' \<le> FIFO_ENTRIES" and "set (xc_fifo q s' ETHERNET_FIFO_EMPTY @ xc_fifo q s' ETHERNET_FIFO_IND_LO @
    xc_fifo q s' ETHERNET_FIFO_REQ_LO) \<subseteq> set (xc_fifo q s ETHERNET_FIFO_EMPTY @
    xc_fifo q s ETHERNET_FIFO_IND_LO @ xc_fifo q s ETHERNET_FIFO_REQ_LO) \<union> {v. fifo_segment v < 4}"
  shows "xc_ok r q s'"
  using assms by (auto simp: xc_ok_def list_all_iff)

lemma xc_fifo_same: "tHandle s' = tHandle s \<Longrightarrow> q (xc_w s') = q (xc_w s) \<Longrightarrow> xc_fifo q s' f = xc_fifo q s f"
  by (simp add: xc_fifo_def fifo_nr_def)

lemma frame_len_less: "unat (v AND MSK_ETHMAC_FIFO_ELEMENT_FRAME_LEN) < 2048"
proof -
  have m: "MSK_ETHMAC_FIFO_ELEMENT_FRAME_LEN = mask 11"
    by (simp add: MSK_ETHMAC_FIFO_ELEMENT_FRAME_LEN_def mask_eq_exp_minus_1)
  show ?thesis unfolding m unat_and_mask by simp
qed

lemma xc_take:
  assumes ok: "xc_ok r q s" and f: "f = ETHERNET_FIFO_EMPTY \<or> f = ETHERNET_FIFO_IND_LO"
    and v: "xc_fifo q s f = v # xc_fifo q s' f" and rest: "\<forall>g. g \<noteq> f \<longrightarrow> xc_fifo q s g = xc_fifo q s' g"
  shows "xc_ok r q s'" and "xc_frame r (convert_fifo_value_to_packet_pointer r v)"
    and "convert_fifo_value_to_packet_pointer r v \<noteq> NULL" and "xc_pool q s = Suc (xc_pool q s')"
proof -
  have seg: "fifo_segment v < 4" using ok f v by (auto simp: xc_ok_def)
  then show "xc_frame r (convert_fifo_value_to_packet_pointer r v)" unfolding xc_frame_def by blast
  show "convert_fifo_value_to_packet_pointer r v \<noteq> NULL"
    using ok seg by (intro packet_pointer_not_null) (simp_all add: xc_ok_def)
  show pool: "xc_pool q s = Suc (xc_pool q s')" using f v rest by (auto simp: xc_pool_def)
  moreover have "xc_pool q s \<le> FIFO_ENTRIES" using ok by (simp add: xc_ok_def)
  ultimately show "xc_ok r q s'" using f v rest by (intro xc_okI [OF ok]) auto
qed

lemma xc_put:
  assumes ok: "xc_ok r q s" and f: "f = ETHERNET_FIFO_EMPTY \<or> f = ETHERNET_FIFO_REQ_LO" and "fifo_segment v < 4"
    and room: "xc_pool q s < FIFO_ENTRIES"
    and put: "\<And>g. xc_fifo q s' g = (if g = f then xc_fifo q s g @ [v] else xc_fifo q s g)"
  shows "xc_ok r q s' \<and> xc_pool q s' = Suc (xc_pool q s)"
proof -
  have "xc_pool q s' = Suc (xc_pool q s)" using f by (auto simp: xc_pool_def put)
  then show ?thesis using f assms(3) room by (auto simp: put intro!: xc_okI [OF ok])
qed

interpretation xc_if: network_if "tNetworkIfXc r" "xc_ok r q" "xc_pool q" FIFO_ENTRIES "xc_frame r" for r q
proof unfold_locales
  show "xc_ok r q d \<Longrightarrow> xc_pool q d \<le> FIFO_ENTRIES" for d by (simp add: xc_ok_def)
next
  fix d v d'
  assume ok: "xc_ok r q d" and "pfnGetLinkStatus (tNetworkIfXc r) d = (v, d')"
  then have "q (xc_w d') = q (xc_w d)" "tHandle d' = tHandle d"
    by (auto simp: tNetworkIfXc_def drv_eth_xc_get_link_status_def xc_ok_def pfifo_unit_def split: prod.splits)
      (metis snd_conv)
  then show "xc_ok r q d' \<and> xc_pool q d' = xc_pool q d"
    using ok by (simp add: xc_ok_def xc_pool_def xc_fifo_def fifo_nr_def)
next
  fix d p d'
  assume ok: "xc_ok r q d" and "pfnGetEmptyPacket (tNetworkIfXc r) d = (p, d')"
  then have "drv_eth_xc_get_empty_packet r d = (p, d')" by (simp add: tNetworkIfXc_def)
  note get = get_empty_fifo [OF ok this]
  show "xc_ok r q d' \<and> (if p = NULL then xc_pool q d' = xc_pool q d
      else xc_frame r p \<and> xc_pool q d = Suc (xc_pool q d'))"
  proof (cases "length (xc_fifo q d ETHERNET_FIFO_EMPTY) \<le> 1")
    case True
    then show ?thesis using get ok xc_fifo_same [of d' d q] by (simp add: xc_ok_def xc_pool_def)
  next
    case False
    then show ?thesis using get xc_take [OF ok, of ETHERNET_FIFO_EMPTY _ d'] by auto
  qed
next
  fix d p
  assume ok: "xc_ok r q d" and "xc_frame r p" and room: "xc_pool q d < FIFO_ENTRIES"
  then have "fifo_segment (convert_packet_pointer_to_fifo_value p) < 4"
    by (auto simp: xc_frame_def xc_ok_def packet_pointer_to_fifo_fields)
  then show "xc_ok r q (pfnReleasePacket (tNetworkIfXc r) p d) \<and>
      xc_pool q (pfnReleasePacket (tNetworkIfXc r) p d) = Suc (xc_pool q d)"
    using xc_put [OF ok _ _ room release_fifo [OF ok room]] by (simp add: tNetworkIfXc_def)
next
  fix d p n
  assume ok: "xc_ok r q d" and "xc_frame r p" and room: "xc_pool q d < FIFO_ENTRIES"
  then have "fifo_segment (send_element p n) < 4"
    by (auto simp: xc_frame_def xc_ok_def send_element_fields)
  then show "xc_ok r q (pfnSendPacket (tNetworkIfXc r) p n d) \<and>
      xc_pool q (pfnSendPacket (tNetworkIfXc r) p n d) = Suc (xc_pool q d)"
    using xc_put [OF ok _ _ room send_fifo [OF ok room]] by (simp add: tNetworkIfXc_def)
next
  fix d n p k d'
  assume ok: "xc_ok r q d" and "pfnGetReceivedPacket (tNetworkIfXc r) n d = (p, k, d')"
  then have "drv_eth_xc_get_received_packet r n d = (p, k, d')" by (simp add: tNetworkIfXc_def)
  note get = get_received_fifo [OF ok this]
  show "xc_ok r q d' \<and> (if p = NULL then k = n \<and> xc_pool q d' = xc_pool q d
      else xc_frame r p \<and> unat k < 2048 \<and> xc_pool q d = Suc (xc_pool q d'))"
  proof (cases "xc_fifo q d ETHERNET_FIFO_IND_LO = []")
    case True
    then show ?thesis using get ok xc_fifo_same [of d' d q] by (simp add: xc_ok_def xc_pool_def)
  next
    case False
    then show ?thesis using get xc_take [OF ok, of ETHERNET_FIFO_IND_LO _ d'] by (auto simp: frame_len_less)
  qed
qed

subsection \<open>Properties\<close>

text \<open>Hardware with lists as FIFOs and the RAM at \<open>0x05000000\<close>.\<close>

definition list_regs :: "(u32 \<Rightarrow> u32 \<Rightarrow> u32 list) xc_regs" where
  "list_regs = \<lparr>MSK_int_phy_ctrl_led_link_ro = 1, aulIntRamStart = (\<lambda>n. 0x05000000 + 0x20000 * n),
     rd_int_phy_ctrl_led = (\<lambda>_ w. (1, w)),
     rd_pfifo_fill_level = (\<lambda>u n w. (of_nat (length (w u n)), w)),
     rd_pfifo = (\<lambda>u n w. (hd (w u n), w(u := (w u)(n := tl (w u n))))),
     wr_pfifo = (\<lambda>u n v w. w(u := (w u)(n := w u n @ [v])))\<rparr>"

definition list_fifos :: "(u32 \<Rightarrow> u32 \<Rightarrow> u32 list) \<Rightarrow> u32 \<Rightarrow> u32 \<Rightarrow> u32 list" where
  "list_fifos w u n = w u n"

lemma list_regs_layout: "intram_layout list_regs" "aulIntRamStart list_regs 0 \<noteq> 0"
  by (simp_all add: intram_layout_def list_regs_def)

text \<open>A frame pointer and its FIFO element stand for the same frame: on the documented RAM layout
  the element that release and send compute from the pointer has the segment and the frame number
  of the element the pointer came from, and gives the same pointer again; an element for sending
  carries the size, padded to 60 and cropped to 1518 bytes, in its length field.\<close>

theorem drv_eth_xc_frame_roundtrip:
  assumes "intram_layout r" and "fifo_segment v < 4"
  shows "convert_fifo_value_to_packet_pointer r
      (convert_packet_pointer_to_fifo_value (convert_fifo_value_to_packet_pointer r v)) =
      convert_fifo_value_to_packet_pointer r v \<and>
    (\<exists>e. drv_eth_xc_send_packet r (convert_fifo_value_to_packet_pointer r v) n s =
        s\<lparr>xc_w := wr_pfifo r (uiXcUnit (tHandle s)) (fifo_nr s ETHERNET_FIFO_REQ_LO) e (xc_w s)\<rparr> \<and>
      convert_fifo_value_to_packet_pointer r e = convert_fifo_value_to_packet_pointer r v \<and>
      unat (e AND MSK_ETHMAC_FIFO_ELEMENT_FRAME_LEN) = min 1518 (max 60 (unat n)))"
proof -
  let ?p = "convert_fifo_value_to_packet_pointer r v"
  have "unat (clamp_size n) = min 1518 (max 60 (unat n))"
    by (auto simp: clamp_size_def ETHERNET_MINIMUM_FRAMELENGTH_def ETHERNET_MAXIMUM_FRAMELENGTH_def
        word_less_nat_alt min_def max_def)
  moreover have "drv_eth_xc_send_packet r ?p n s =
      s\<lparr>xc_w := wr_pfifo r (uiXcUnit (tHandle s)) (fifo_nr s ETHERNET_FIFO_REQ_LO) (send_element ?p n) (xc_w s)\<rparr>"
    by (simp add: drv_eth_xc_send_packet_def send_element_def clamp_size_def Let_def)
  moreover have "convert_fifo_value_to_packet_pointer r (send_element ?p n) = ?p"
    using assms by (intro packet_pointer_cong) (simp_all add: send_element_fields)
  moreover have "convert_fifo_value_to_packet_pointer r (convert_packet_pointer_to_fifo_value ?p) = ?p"
    using assms by (intro packet_pointer_cong) (simp_all add: packet_pointer_to_fifo_fields)
  ultimately show ?thesis using send_element_fields(3) [OF assms, of n] by auto
qed

text \<open>Witness: frame 5 of segment 2.\<close>

theorem drv_eth_xc_frame_roundtrip_witness:
  "convert_fifo_value_to_packet_pointer list_regs (convert_packet_pointer_to_fifo_value
      (convert_fifo_value_to_packet_pointer list_regs 0x00850123)) =
    convert_fifo_value_to_packet_pointer list_regs 0x00850123"
  using drv_eth_xc_frame_roundtrip [OF list_regs_layout(1), of "0x00850123"] by (simp add: fifo_segment_def)

text \<open>The buffers of two different frames do not overlap: each frame has 1560 bytes of its own.\<close>

theorem drv_eth_xc_frames_disjoint:
  assumes "intram_layout r" and "fifo_segment v < 4" and "fifo_segment v' < 4"
    and "(fifo_segment v, fifo_frame v) \<noteq> (fifo_segment v', fifo_frame v')"
  shows "ranges_disjoint (convert_fifo_value_to_packet_pointer r v) 1560
    (convert_fifo_value_to_packet_pointer r v') 1560"
proof -
  note p = unat_packet_pointer [OF assms(1,2)] and p' = unat_packet_pointer [OF assms(1,3)]
  have f: "fifo_frame v \<le> 63" "fifo_frame v' \<le> 63"
    using fifo_frame_less [of v] fifo_frame_less [of v'] by linarith+
  have top: "unat (aulIntRamStart r 0) + 0x80000 \<le> 2 ^ 32" using unat_intram(2) [OF assms(1), of 0] by simp
  have "fifo_segment v < fifo_segment v' \<or> fifo_segment v' < fifo_segment v \<or>
      (fifo_segment v = fifo_segment v' \<and> (fifo_frame v < fifo_frame v' \<or> fifo_frame v' < fifo_frame v))"
    using assms(4) by auto
  then have "unat (convert_fifo_value_to_packet_pointer r v) + 1560 \<le> unat (convert_fifo_value_to_packet_pointer r v') \<or>
      unat (convert_fifo_value_to_packet_pointer r v') + 1560 \<le> unat (convert_fifo_value_to_packet_pointer r v)"
    using f unfolding p p' by linarith
  moreover have "unat (convert_fifo_value_to_packet_pointer r v) + 1560 \<le> 2 ^ 32"
    "unat (convert_fifo_value_to_packet_pointer r v') + 1560 \<le> 2 ^ 32"
    using f top assms(2,3) unfolding p p' by linarith+
  ultimately show ?thesis by (intro ranges_disjointI)
qed

text \<open>Witness: the frames 5 and 6 of segment 2.\<close>

theorem drv_eth_xc_frames_disjoint_witness:
  "ranges_disjoint (convert_fifo_value_to_packet_pointer list_regs 0x00850000) 1560
    (convert_fifo_value_to_packet_pointer list_regs 0x00860000) 1560"
  using drv_eth_xc_frames_disjoint [OF list_regs_layout(1), of "0x00850000" "0x00860000"]
  by (simp add: fifo_segment_def fifo_frame_def)

text \<open>The driver takes an empty packet only while more than one is left, so one pointer stays for
  the hardware; otherwise it returns the null pointer and the FIFOs are unchanged.\<close>

theorem drv_eth_xc_keeps_empty:
  assumes "xc_ok r q s" and "drv_eth_xc_get_empty_packet r s = (p, s')"
  shows "(p \<noteq> NULL \<longleftrightarrow> length (xc_fifo q s ETHERNET_FIFO_EMPTY) > 1) \<and>
    length (xc_fifo q s' ETHERNET_FIFO_EMPTY) \<ge> min 1 (length (xc_fifo q s ETHERNET_FIFO_EMPTY)) \<and>
    (p = NULL \<longrightarrow> xc_fifo q s' = xc_fifo q s)"
proof (cases "length (xc_fifo q s ETHERNET_FIFO_EMPTY) \<le> 1")
  case True
  then show ?thesis using get_empty_fifo [OF assms] xc_fifo_same [of s' s q] by auto
next
  case False
  then obtain v where v: "p = convert_fifo_value_to_packet_pointer r v"
    "xc_fifo q s ETHERNET_FIFO_EMPTY = v # xc_fifo q s' ETHERNET_FIFO_EMPTY"
    "\<forall>f. f \<noteq> ETHERNET_FIFO_EMPTY \<longrightarrow> xc_fifo q s f = xc_fifo q s' f"
    using get_empty_fifo [OF assms] by auto
  then have "p \<noteq> NULL" using xc_take(3) [OF assms(1) _ v(2,3)] by simp
  then show ?thesis using False v(2) by (cases "xc_fifo q s' ETHERNET_FIFO_EMPTY") auto
qed

definition two_empty :: "(u32 \<Rightarrow> u32 \<Rightarrow> u32 list) xc" where
  "two_empty = \<lparr>tHandle = \<lparr>uiEthPortNr = 0, uiXcUnit = 0, uiXcPort = 0\<rparr>,
     xc_w = (\<lambda>u n. if u = 0 \<and> n = 0 then [0x10000, 0x20000] else [])\<rparr>"

lemma two_empty_ok: "xc_ok list_regs list_fifos two_empty"
proof -
  have "pfifo_unit list_regs list_fifos"
    by (auto simp: pfifo_unit_def list_regs_def list_fifos_def FIFO_ENTRIES_def unat_of_nat fun_eq_iff)
  then show ?thesis
    by (simp add: xc_ok_def list_regs_layout xc_pool_def xc_fifo_def list_fifos_def two_empty_def fifo_nr_def
        FIFO_ENTRIES_def NUM_FIFO_CHANNELS_PER_UNIT_def ETHERNET_FIFO_EMPTY_def ETHERNET_FIFO_IND_LO_def
        ETHERNET_FIFO_REQ_LO_def fifo_segment_def)
qed

text \<open>Witness: two empty frames.\<close>

theorem drv_eth_xc_keeps_empty_witness:
  "\<exists>p s'. drv_eth_xc_get_empty_packet list_regs two_empty = (p, s') \<and>
    p \<noteq> NULL \<and> length (xc_fifo list_fifos s' ETHERNET_FIFO_EMPTY) \<ge> 1"
proof -
  obtain p s' where e: "drv_eth_xc_get_empty_packet list_regs two_empty = (p, s')" by force
  have "xc_fifo list_fifos two_empty ETHERNET_FIFO_EMPTY = [0x10000, 0x20000]"
    by (simp add: xc_fifo_def list_fifos_def two_empty_def fifo_nr_def ETHERNET_FIFO_EMPTY_def)
  then show ?thesis using drv_eth_xc_keeps_empty [OF two_empty_ok e] e by auto
qed

end
