(* ===== verification/Lwip_Err.thy ===== *)
theory Lwip_Err
  imports Prelude
begin

text \<open>
  The error codes of lwIP (err.h). \<open>err_t\<close> is a signed type; its values are integers.
\<close>

type_synonym err_t = int

definition ERR_OK :: err_t where "ERR_OK = 0"
definition ERR_MEM :: err_t where "ERR_MEM = -1"
definition ERR_BUF :: err_t where "ERR_BUF = -2"
definition ERR_TIMEOUT :: err_t where "ERR_TIMEOUT = -3"
definition ERR_VAL :: err_t where "ERR_VAL = -6"
definition ERR_ABRT :: err_t where "ERR_ABRT = -13"
definition ERR_ARG :: err_t where "ERR_ARG = -16"

lemma err_distinct [simp]:
  "ERR_MEM \<noteq> ERR_OK" "ERR_BUF \<noteq> ERR_OK" "ERR_TIMEOUT \<noteq> ERR_OK" "ERR_VAL \<noteq> ERR_OK" "ERR_ABRT \<noteq> ERR_OK" "ERR_ARG \<noteq> ERR_OK"
  "ERR_OK \<noteq> ERR_MEM" "ERR_OK \<noteq> ERR_BUF" "ERR_OK \<noteq> ERR_TIMEOUT" "ERR_OK \<noteq> ERR_VAL" "ERR_OK \<noteq> ERR_ABRT" "ERR_OK \<noteq> ERR_ARG"
  by (simp_all add: ERR_OK_def ERR_MEM_def ERR_BUF_def ERR_TIMEOUT_def ERR_VAL_def ERR_ABRT_def ERR_ARG_def)

end
