(* ===== verification/Network_Lwip.thy ===== *)
theory Network_Lwip
  imports Options Sha384 Drv_Eth_Xc Lwip_Err
begin

text \<open>
  The network glue of the application (network_lwip.c): the lwIP network interface on top of the
  Ethernet driver, the cyclic processing, the HTTP download with its callbacks and the TCP
  messages to the server.

  lwIP is third-party code. Its functions are a record over the whole state \<open>'s\<close>; a call that may
  invoke callbacks is a \<open>run\<close>, a tree whose nodes are the callback invocations: lwIP hands over the
  arguments and its state, and continues with the callback's result (\<open>Stuck\<close> when lwIP uses an invalid pointer or
  does not return). The functions of the
  platform's time library are parameters, too. A callback of an operation that has already
  returned is not modelled.
\<close>

subsection \<open>lwIP\<close>

definition HTTPC_RESULT_OK :: u32 where "HTTPC_RESULT_OK = 0"

text \<open>A chain of packet buffers as a callback sees it: the address of its first buffer, payload and
  length of each buffer, and the length of the chain.\<close>

record pbuf =
  pb_ptr :: ptr
  pb_chain :: "(ptr \<times> u16) list"
  tot_len :: u16

datatype ('s, 'r) run =
    Ret 'r 's
  | Stuck
  | HttpData "pbuf option" err_t 's "err_t \<Rightarrow> 's \<Rightarrow> ('s, 'r) run"
  | HttpResult u32 u32 u32 err_t 's "'s \<Rightarrow> ('s, 'r) run"
  | Connected err_t 's "err_t \<Rightarrow> 's \<Rightarrow> ('s, 'r) run"
  | Sent u16 's "err_t \<Rightarrow> 's \<Rightarrow> ('s, 'r) run"

record 's lwip =
  lwip_init :: "'s \<Rightarrow> 's"
  netif_add :: "u32 \<Rightarrow> u32 \<Rightarrow> u32 \<Rightarrow> ('s \<Rightarrow> err_t \<times> 's) \<Rightarrow> 's \<Rightarrow> 's"
  netif_set_default :: "'s \<Rightarrow> 's"
  netif_set_up :: "'s \<Rightarrow> 's"
  netif_set_link_up :: "'s \<Rightarrow> 's"
  netif_set_link_down :: "'s \<Rightarrow> 's"
  netif_input :: "pbuf \<Rightarrow> 's \<Rightarrow> ('s, err_t) run"
  sys_check_timeouts :: "'s \<Rightarrow> ('s, unit) run"
  lw_pbuf_alloc :: "u16 \<Rightarrow> 's \<Rightarrow> pbuf option \<times> 's"
  lw_pbuf_take :: "pbuf \<Rightarrow> ptr \<Rightarrow> u16 \<Rightarrow> 's \<Rightarrow> 's"
  lw_pbuf_copy_partial :: "pbuf \<Rightarrow> ptr \<Rightarrow> u16 \<Rightarrow> 's \<Rightarrow> 's"
  lw_pbuf_free :: "pbuf \<Rightarrow> 's \<Rightarrow> 's"
  altcp_recved :: "u16 \<Rightarrow> 's \<Rightarrow> 's"
  lw_httpc_get_file :: "u32 \<Rightarrow> u16 \<Rightarrow> u8 list \<Rightarrow> 's \<Rightarrow> err_t \<times> 's"
  tcp_new :: "'s \<Rightarrow> ptr \<times> 's"
  tcp_arg :: "ptr \<Rightarrow> 's \<Rightarrow> 's"
  tcp_sent :: "ptr \<Rightarrow> 's \<Rightarrow> 's"
  tcp_connect :: "ptr \<Rightarrow> u32 \<Rightarrow> u16 \<Rightarrow> 's \<Rightarrow> err_t \<times> 's"
  tcp_sndbuf :: "ptr \<Rightarrow> 's \<Rightarrow> u16 \<times> 's"
  tcp_write :: "ptr \<Rightarrow> u8 list \<Rightarrow> u8 \<Rightarrow> 's \<Rightarrow> err_t \<times> 's"
  tcp_output :: "ptr \<Rightarrow> 's \<Rightarrow> err_t \<times> 's"
  tcp_close :: "ptr \<Rightarrow> 's \<Rightarrow> err_t \<times> 's"
  tcp_abort :: "ptr \<Rightarrow> 's \<Rightarrow> 's"

text \<open>The time functions of the platform; \<open>'t\<close> is \<open>TIMER_HANDLE_T\<close>.\<close>

record ('s, 't) systime =
  systime_get_ms :: "'s \<Rightarrow> u32 \<times> 's"
  systime_handle_start_ms :: "u32 \<Rightarrow> 's \<Rightarrow> 't \<times> 's"
  systime_handle_is_elapsed :: "'t \<Rightarrow> 's \<Rightarrow> u32 \<times> 's"

subsection \<open>State\<close>

text \<open>The functions an interface structure of lwIP can point to.\<close>

datatype netif_fn = Fn_NULL | Fn_netif_output | Fn_etharp_output

record netif =
  netif_state :: bool
  linkoutput :: netif_fn
  ip_output :: netif_fn
  mtu :: u16
  flags :: u8
  hwaddr :: "u8 list"
  hwaddr_len :: u8
  netif_name :: "u8 list"

record 'd NETWORK_DEVICE_STATE_T =
  tIpAddr :: u32
  tNetmask :: u32
  tGateway :: u32
  aucMAC :: "u8 list"
  ptNetworkIf :: "'d NETWORK_IF_T option"
  tNetIf :: netif

text \<open>The system: memory, hardware, the driver's state, the static \<open>tNetworkDeviceState\<close> and the static
  data of lwIP.\<close>

record ('e, 'd, 'l) sys =
  mem :: memory
  hw :: 'e
  drv :: 'd
  tNetworkDeviceState :: "'d NETWORK_DEVICE_STATE_T"
  lwst :: 'l

subsection \<open>Interface\<close>

definition network_init :: "('e, 'd, 'l) sys \<Rightarrow> ('e, 'd, 'l) sys" where
  "network_init s = s\<lparr>tNetworkDeviceState := \<lparr>tIpAddr = 0, tNetmask = 0, tGateway = 0,
     aucMAC = replicate 6 0, ptNetworkIf = None,
     tNetIf = \<lparr>netif_state = False, linkoutput = Fn_NULL, ip_output = Fn_NULL, mtu = 0, flags = 0,
       hwaddr = replicate 6 0, hwaddr_len = 0, netif_name = [0, 0]\<rparr>\<rparr>\<rparr>"

text \<open>\<open>netif_output\<close>. A set \<open>state\<close> of the interface points to \<open>tNetworkDeviceState\<close>. \<open>None\<close> is the call
  through a null pointer when no driver is set.\<close>

definition netif_output :: "('e, 'd, 'l) sys lwip \<Rightarrow> pbuf \<Rightarrow> ('e, 'd, 'l) sys \<Rightarrow> (err_t \<times> ('e, 'd, 'l) sys) option" where
  "netif_output lw ptPBuf s =
     (if netif_state (tNetIf (tNetworkDeviceState s)) then
        (case ptNetworkIf (tNetworkDeviceState s) of
           None \<Rightarrow> None
         | Some nif \<Rightarrow>
             (case pfnGetEmptyPacket nif (drv s) of (pvFrame, d) \<Rightarrow>
                let s = s\<lparr>drv := d\<rparr> in
                if pvFrame = NULL then Some (ERR_BUF, s)
                else let s = lw_pbuf_copy_partial lw ptPBuf pvFrame (tot_len ptPBuf) s in
                  Some (ERR_OK, s\<lparr>drv := pfnSendPacket nif pvFrame (ucast (tot_len ptPBuf)) (drv s)\<rparr>)))
      else Some (ERR_VAL, s))"

definition initialize_interface :: "('e, 'd, 'l) sys \<Rightarrow> err_t \<times> ('e, 'd, 'l) sys" where
  "initialize_interface s =
     (let st = tNetworkDeviceState s;
          n = (tNetIf st)\<lparr>linkoutput := Fn_netif_output, ip_output := Fn_etharp_output, mtu := 1518,
            flags := 0x02 OR 0x08 OR 0x10 OR 0x20 OR 0x40, hwaddr := aucMAC st, hwaddr_len := 6\<rparr> in
      (ERR_OK, s\<lparr>tNetworkDeviceState := st\<lparr>tNetIf := n\<rparr>\<rparr>))"

text \<open>The macro \<open>IP4_ADDR\<close> and its use on the bytes of an address.\<close>

definition IP4_ADDR :: "u8 \<Rightarrow> u8 \<Rightarrow> u8 \<Rightarrow> u8 \<Rightarrow> u32" where
  "IP4_ADDR a b c d = of_le32 a b c d"

definition ip4_of_ulong :: "u32 \<Rightarrow> u32" where
  "ip4_of_ulong v = IP4_ADDR (ucast (v AND 0xff)) (ucast (drop_bit 8 v AND 0xff))
     (ucast (drop_bit 16 v AND 0xff)) (ucast (drop_bit 24 v AND 0xff))"

definition upd_state :: "('d NETWORK_DEVICE_STATE_T \<Rightarrow> 'd NETWORK_DEVICE_STATE_T) \<Rightarrow> ('e, 'd, 'l) sys \<Rightarrow> ('e, 'd, 'l) sys" where
  "upd_state f s = s\<lparr>tNetworkDeviceState := f (tNetworkDeviceState s)\<rparr>"

text \<open>\<open>setupNetwork\<close>: \<open>xc_init\<close> is \<open>drv_eth_xc_initialize\<close> on the driver's state. The result has the
  server address behind the pointer.\<close>

definition setupNetwork ::
    "('e, 'd, 'l) sys lwip \<Rightarrow> (u32 \<Rightarrow> 'd \<Rightarrow> 'd NETWORK_IF_T option \<times> 'd) \<Rightarrow> u32 \<Rightarrow> ('e, 'd, 'l) sys \<Rightarrow>
      int \<times> u32 \<times> ('e, 'd, 'l) sys" where
  "setupNetwork lw xc_init ulServer s =
     (let rom = ethernet_configuration_at (mem s) 0x00024a88;
          (iResult, ulServer) = (if ulServer = 0 then
             (if ulTftpIp rom = 0 then (-1, ulServer) else (0, ip4_of_ulong (ulTftpIp rom)))
           else (0, ulServer)) in
      if iResult \<noteq> 0 then (iResult, ulServer, s)
      else case xc_init 0 (drv s) of (ptIf, d) \<Rightarrow>
        let s = s\<lparr>drv := d\<rparr> in
        (case ptIf of
           None \<Rightarrow> (-1, ulServer, s)
         | Some nif \<Rightarrow>
             let ip = ip4_of_ulong (ulIp rom); gw = ip4_of_ulong (ulGatewayIp rom); nm = ip4_of_ulong (ulNetmask rom);
                 s = upd_state (\<lambda>st. st\<lparr>tIpAddr := ip, tGateway := gw, tNetmask := nm, aucMAC := aucMac rom,
                       ptNetworkIf := Some nif\<rparr>) s;
                 s = lwip_init lw s;
                 s = netif_add lw ip nm gw
                       (\<lambda>s. initialize_interface (upd_state (\<lambda>st. st\<lparr>tNetIf := (tNetIf st)\<lparr>netif_state := True\<rparr>\<rparr>) s)) s;
                 s = upd_state (\<lambda>st. st\<lparr>tNetIf := (tNetIf st)\<lparr>netif_name := [0x65, 0x30]\<rparr>\<rparr>) s;
                 s = netif_set_default lw s;
                 s = netif_set_up lw s;
                 s = netif_set_link_up lw s in
             (0, ulServer, s)))"

subsection \<open>Callbacks and cyclic processing\<close>

text \<open>The callbacks an operation has registered, over its own data \<open>'c\<close>. A callback that does not
  return gives \<open>None\<close>.\<close>

record ('s, 'c) handlers =
  on_data :: "pbuf option \<Rightarrow> err_t \<Rightarrow> 'c \<Rightarrow> 's \<Rightarrow> (err_t \<times> 'c \<times> 's) option"
  on_result :: "u32 \<Rightarrow> u32 \<Rightarrow> u32 \<Rightarrow> err_t \<Rightarrow> 'c \<Rightarrow> 's \<Rightarrow> ('c \<times> 's) option"
  on_connected :: "err_t \<Rightarrow> 'c \<Rightarrow> 's \<Rightarrow> (err_t \<times> 'c \<times> 's) option"
  on_sent :: "u16 \<Rightarrow> 'c \<Rightarrow> 's \<Rightarrow> (err_t \<times> 'c \<times> 's) option"

primrec exec :: "('s, 'c) handlers \<Rightarrow> ('s, 'r) run \<Rightarrow> 'c \<Rightarrow> ('r \<times> 'c \<times> 's) option" where
  "exec h (Ret r s) = (\<lambda>c. Some (r, c, s))"
| "exec h Stuck = (\<lambda>c. None)"
| "exec h (HttpData p e s k) = (\<lambda>c. case on_data h p e c s of
     None \<Rightarrow> None | Some (r, c, s) \<Rightarrow> exec h (k r s) c)"
| "exec h (HttpResult a b d e s k) = (\<lambda>c. case on_result h a b d e c s of
     None \<Rightarrow> None | Some (c, s) \<Rightarrow> exec h (k s) c)"
| "exec h (Connected e s k) = (\<lambda>c. case on_connected h e c s of
     None \<Rightarrow> None | Some (r, c, s) \<Rightarrow> exec h (k r s) c)"
| "exec h (Sent n s k) = (\<lambda>c. case on_sent h n c s of
     None \<Rightarrow> None | Some (r, c, s) \<Rightarrow> exec h (k r s) c)"

text \<open>The part of \<open>network_cyclic_process\<close> for a received frame; \<open>sizFrame\<close> is the local variable before
  the call of the driver.\<close>

definition network_receive ::
    "('e, 'd, 'l) sys lwip \<Rightarrow> (('e, 'd, 'l) sys, 'c) handlers \<Rightarrow> 'd NETWORK_IF_T \<Rightarrow> u32 \<Rightarrow> 'c \<Rightarrow> ('e, 'd, 'l) sys \<Rightarrow>
      ('c \<times> ('e, 'd, 'l) sys) option" where
  "network_receive lw h nif sizFrame c s =
     (case pfnGetReceivedPacket nif sizFrame (drv s) of (pvFrame, sizFrame, d) \<Rightarrow>
        let s = s\<lparr>drv := d\<rparr> in
        if pvFrame = NULL then Some (c, s)
        else let usPacketSize = ucast sizFrame in
          (case lw_pbuf_alloc lw usPacketSize s of (ptPBuf, s) \<Rightarrow>
           case ptPBuf of
             None \<Rightarrow> Some (c, s\<lparr>drv := pfnReleasePacket nif pvFrame (drv s)\<rparr>)
           | Some p \<Rightarrow>
               let s = lw_pbuf_take lw p pvFrame usPacketSize s;
                   s = s\<lparr>drv := pfnReleasePacket nif pvFrame (drv s)\<rparr> in
               (case exec h (netif_input lw p s) c of
                  None \<Rightarrow> None
                | Some (tResult, c, s) \<Rightarrow> Some (c, if tResult \<noteq> ERR_OK then lw_pbuf_free lw p s else s))))"

definition network_cyclic_process ::
    "('e, 'd, 'l) sys lwip \<Rightarrow> (('e, 'd, 'l) sys, 'c) handlers \<Rightarrow> u32 \<Rightarrow> 'c \<Rightarrow> ('e, 'd, 'l) sys \<Rightarrow> ('c \<times> ('e, 'd, 'l) sys) option" where
  "network_cyclic_process lw h sizFrame c s =
     (case ptNetworkIf (tNetworkDeviceState s) of
        None \<Rightarrow> Some (c, s)
      | Some nif \<Rightarrow>
          (case pfnGetLinkStatus nif (drv s) of (uiLinkState, d) \<Rightarrow>
             let s = s\<lparr>drv := d\<rparr> in
             case (if uiLinkState = 0 then Some (c, netif_set_link_down lw s)
                   else network_receive lw h nif sizFrame c s) of
               None \<Rightarrow> None
             | Some (c, s) \<Rightarrow>
                 (case exec h (sys_check_timeouts lw s) c of
                    None \<Rightarrow> None
                  | Some (_, c, s) \<Rightarrow> Some (c, s))))"

subsection \<open>HTTP download\<close>

text \<open>\<open>pfnResult\<close> is the result callback the caller of \<open>httpc_get_file\<close> had set before; \<open>None\<close> is the null
  pointer.\<close>

record 's HTTP_DOWNLOAD_STATE_T =
  pucStart :: ptr
  pucCnt :: ptr
  pucEnd :: ptr
  http_tHash :: "u8 list"
  pfnResult :: "(u32 \<Rightarrow> u32 \<Rightarrow> u32 \<Rightarrow> err_t \<Rightarrow> 's \<Rightarrow> 's) option"
  fIsFinished :: u32
  tHttpcResult :: u32
  ulServerResponse :: u32
  http_tResult :: err_t

text \<open>The loop over the chunks of a packet buffer: it returns the result, \<open>pucRec\<close> and the state.\<close>

fun http_chunks :: "'e crypt \<Rightarrow> (ptr \<times> u16) list \<Rightarrow> ptr \<Rightarrow> u32 \<Rightarrow> ('e, 'd, 'l) sys \<Rightarrow>
    (err_t \<times> ptr \<times> ('e, 'd, 'l) sys) option" where
  "http_chunks cr [] pucRec sizBufLeft s = Some (ERR_OK, pucRec, s)"
| "http_chunks cr ((pvChunk, sizChunk) # chain) pucRec sizBufLeft s =
     (case sha384_update cr (mem s) pvChunk (ucast sizChunk) (hw s) of
        None \<Rightarrow> None
      | Some w \<Rightarrow>
          let s = s\<lparr>hw := w\<rparr> in
          if pucRec \<noteq> NULL then
            if sizBufLeft > ucast sizChunk then
              http_chunks cr chain (pucRec + ucast sizChunk) (sizBufLeft - ucast sizChunk)
                (s\<lparr>mem := memcpy (mem s) pucRec pvChunk (unat sizChunk)\<rparr>)
            else Some (ERR_MEM, pucRec, s)
          else http_chunks cr chain pucRec sizBufLeft s)"

text \<open>\<open>pvUser\<close> is \<open>None\<close> for the null pointer.\<close>

definition httpDownloadDataCallback ::
    "'e crypt \<Rightarrow> ('e, 'd, 'l) sys lwip \<Rightarrow> pbuf option \<Rightarrow> err_t \<Rightarrow> ('e, 'd, 'l) sys HTTP_DOWNLOAD_STATE_T option \<Rightarrow>
      ('e, 'd, 'l) sys \<Rightarrow> (err_t \<times> ('e, 'd, 'l) sys HTTP_DOWNLOAD_STATE_T option \<times> ('e, 'd, 'l) sys) option" where
  "httpDownloadDataCallback cr lw p err pvUser s =
     (case (pvUser, p) of
        (Some st, Some pb) \<Rightarrow>
          if err = ERR_OK then
            (case http_chunks cr (pb_chain pb) (pucCnt st) (pucEnd st - pucCnt st) s of
               None \<Rightarrow> None
             | Some (tResult, pucRec, s) \<Rightarrow>
                 Some (tResult, Some (st\<lparr>pucCnt := pucRec\<rparr>),
                   lw_pbuf_free lw pb (altcp_recved lw (tot_len pb) s)))
          else Some (ERR_OK, pvUser, s)
      | _ \<Rightarrow> Some (ERR_OK, pvUser, s))"

definition httpDownloadResultCallback ::
    "'e crypt \<Rightarrow> u32 \<Rightarrow> u32 \<Rightarrow> u32 \<Rightarrow> err_t \<Rightarrow> ('e, 'd, 'l) sys HTTP_DOWNLOAD_STATE_T option \<Rightarrow> ('e, 'd, 'l) sys \<Rightarrow>
      (('e, 'd, 'l) sys HTTP_DOWNLOAD_STATE_T option \<times> ('e, 'd, 'l) sys) option" where
  "httpDownloadResultCallback cr httpc_result rx_content_len srv_res err pvUser s =
     (case pvUser of
        None \<Rightarrow> Some (None, s)
      | Some st \<Rightarrow>
          let s = (case pfnResult st of None \<Rightarrow> s | Some f \<Rightarrow> f httpc_result rx_content_len srv_res err s) in
          case (if httpc_result = HTTPC_RESULT_OK \<and> srv_res = 200 \<and> err = ERR_OK then
                  (case sha384_finalize_byte cr (Some (http_tHash st)) rx_content_len (hw s) of
                     Some (Some hash, w) \<Rightarrow> Some (st\<lparr>http_tHash := hash\<rparr>, s\<lparr>hw := w\<rparr>)
                   | _ \<Rightarrow> None)
                else Some (st, s)) of
            None \<Rightarrow> None
          | Some (st, s) \<Rightarrow>
              Some (Some (st\<lparr>fIsFinished := 1, tHttpcResult := httpc_result, ulServerResponse := srv_res,
                http_tResult := err\<rparr>), s))"

text \<open>The callbacks registered for a download.\<close>

definition http_handlers ::
    "'e crypt \<Rightarrow> ('e, 'd, 'l) sys lwip \<Rightarrow> (('e, 'd, 'l) sys, ('e, 'd, 'l) sys HTTP_DOWNLOAD_STATE_T) handlers" where
  "http_handlers cr lw = \<lparr>
     on_data = (\<lambda>p e c s. case httpDownloadDataCallback cr lw p e (Some c) s of
       Some (r, Some c, s) \<Rightarrow> Some (r, c, s) | _ \<Rightarrow> None),
     on_result = (\<lambda>a b d e c s. case httpDownloadResultCallback cr a b d e (Some c) s of
       Some (Some c, s) \<Rightarrow> Some (c, s) | _ \<Rightarrow> None),
     on_connected = (\<lambda>e c s. Some (e, c, s)), on_sent = (\<lambda>n c s. Some (ERR_OK, c, s))\<rparr>"

text \<open>The loop that waits for the end of the download. \<open>None\<close>: the loop does not end.\<close>

partial_function (option) http_wait ::
    "'e crypt \<Rightarrow> ('e, 'd, 'l) sys lwip \<Rightarrow> u32 \<Rightarrow> ('e, 'd, 'l) sys HTTP_DOWNLOAD_STATE_T \<Rightarrow> ('e, 'd, 'l) sys \<Rightarrow>
      (('e, 'd, 'l) sys HTTP_DOWNLOAD_STATE_T \<times> ('e, 'd, 'l) sys) option" where
  "http_wait cr lw sizFrame c s =
     (if fIsFinished c = 0 then
        (case network_cyclic_process lw (http_handlers cr lw) sizFrame c s of
           None \<Rightarrow> None
         | Some (c, s) \<Rightarrow> http_wait cr lw sizFrame c s)
      else Some (c, s))"

text \<open>\<open>httpDownload\<close>. The connection settings are cleared and constant for \<open>httpc_get_file\<close>, so the
  callback saved from them is the null pointer. The size and the hash behind the two result
  pointers are passed in and out, \<open>None\<close> is a null pointer.\<close>

definition httpDownload ::
    "'e crypt \<Rightarrow> ('e, 'd, 'l) sys lwip \<Rightarrow> (('e, 'd, 'l) sys, 't) systime \<Rightarrow> u32 \<Rightarrow> u32 \<Rightarrow> u8 list \<Rightarrow> ptr \<Rightarrow> u32 \<Rightarrow>
      u32 option \<Rightarrow> u8 list option \<Rightarrow> ('e, 'd, 'l) sys \<Rightarrow> (int \<times> u32 option \<times> u8 list option \<times> ('e, 'd, 'l) sys) option" where
  "httpDownload cr lw tm sizFrame ulServer pcUri pucBuffer sizBuffer psizDownloaded ptHash s =
     (let st = \<lparr>pucStart = pucBuffer, pucCnt = pucBuffer, pucEnd = pucBuffer + sizBuffer,
            http_tHash = replicate 48 0, pfnResult = None, fIsFinished = 0, tHttpcResult = 0,
            ulServerResponse = 0, http_tResult = 0\<rparr>;
          s = s\<lparr>hw := sha384_initialize cr (hw s)\<rparr>;
          s = snd (systime_get_ms tm s) in
      case lw_httpc_get_file lw ulServer 80 pcUri s of (tResult, s) \<Rightarrow>
      if tResult = ERR_OK then
        (case http_wait cr lw sizFrame st s of
           None \<Rightarrow> None
         | Some (st, s) \<Rightarrow>
             let s = snd (systime_get_ms tm s) in
             if tHttpcResult st = HTTPC_RESULT_OK \<and> ulServerResponse st = 200 \<and> http_tResult st = ERR_OK then
               Some (0, (case psizDownloaded of None \<Rightarrow> None | Some _ \<Rightarrow> Some (pucCnt st - pucStart st)),
                 (case ptHash of None \<Rightarrow> None | Some _ \<Rightarrow> Some (http_tHash st)), s)
             else Some (-1, psizDownloaded, ptHash, s))
      else Some (-1, psizDownloaded, ptHash, s))"

subsection \<open>Messages\<close>

record 't SEND_MESSAGE_CALLBACK_T =
  uiIsConnected :: u32
  ulSentData :: u32
  send_tResult :: err_t
  ulChunkTransmitTimeoutInMs :: u32
  tTimer :: 't

definition sendMessageConnectCallback ::
    "err_t \<Rightarrow> 't SEND_MESSAGE_CALLBACK_T option \<Rightarrow> err_t \<times> 't SEND_MESSAGE_CALLBACK_T option" where
  "sendMessageConnectCallback tErr pvUser =
     (if tErr = ERR_OK then
        (case pvUser of Some c \<Rightarrow> (ERR_OK, Some (c\<lparr>uiIsConnected := 1\<rparr>)) | None \<Rightarrow> (ERR_VAL, None))
      else (tErr, pvUser))"

definition sendMessageSentCallback ::
    "('s, 't) systime \<Rightarrow> u16 \<Rightarrow> 't SEND_MESSAGE_CALLBACK_T option \<Rightarrow> 's \<Rightarrow>
      err_t \<times> 't SEND_MESSAGE_CALLBACK_T option \<times> 's" where
  "sendMessageSentCallback tm usLen pvUser s =
     (case pvUser of
        Some c \<Rightarrow>
          let c = c\<lparr>ulSentData := ulSentData c + ucast usLen\<rparr> in
          (case systime_handle_start_ms tm (ulChunkTransmitTimeoutInMs c) s of (t, s) \<Rightarrow>
             (ERR_OK, Some (c\<lparr>tTimer := t\<rparr>), s))
      | None \<Rightarrow> (ERR_VAL, None, s))"

definition send_handlers :: "('s, 't) systime \<Rightarrow> ('s, 't SEND_MESSAGE_CALLBACK_T) handlers" where
  "send_handlers tm = \<lparr>
     on_data = (\<lambda>p e c s. Some (ERR_OK, c, s)), on_result = (\<lambda>a b d e c s. Some (c, s)),
     on_connected = (\<lambda>e c s. case sendMessageConnectCallback e (Some c) of
       (r, Some c) \<Rightarrow> Some (r, c, s) | _ \<Rightarrow> None),
     on_sent = (\<lambda>n c s. case sendMessageSentCallback tm n (Some c) s of
       (r, Some c, s) \<Rightarrow> Some (r, c, s) | _ \<Rightarrow> None)\<rparr>"

text \<open>The loop that waits for the connection; the result is \<open>tResult\<close>.\<close>

partial_function (option) send_connect_wait ::
    "('e, 'd, 'l) sys lwip \<Rightarrow> (('e, 'd, 'l) sys, 't) systime \<Rightarrow> u32 \<Rightarrow> 't SEND_MESSAGE_CALLBACK_T \<Rightarrow> ('e, 'd, 'l) sys \<Rightarrow>
      (err_t \<times> 't SEND_MESSAGE_CALLBACK_T \<times> ('e, 'd, 'l) sys) option" where
  "send_connect_wait lw tm sizFrame c s =
     (if send_tResult c = ERR_OK \<and> uiIsConnected c = 0 then
        (case network_cyclic_process lw (send_handlers tm) sizFrame c s of
           None \<Rightarrow> None
         | Some (c, s) \<Rightarrow>
             (case systime_handle_is_elapsed tm (tTimer c) s of (e, s) \<Rightarrow>
                if e \<noteq> 0 then Some (ERR_TIMEOUT, c, s) else send_connect_wait lw tm sizFrame c s))
      else Some (ERR_OK, c, s))"

text \<open>The loop that queues the message; the list is the data from \<open>pucCnt\<close> to \<open>pucEnd\<close>. \<open>tcp_sndbuf\<close> is
  a 16-bit value, \<open>sizLeft\<close> the number of bytes left.\<close>

partial_function (option) send_write ::
    "('e, 'd, 'l) sys lwip \<Rightarrow> (('e, 'd, 'l) sys, 't) systime \<Rightarrow> u32 \<Rightarrow> ptr \<Rightarrow> u8 list \<Rightarrow> err_t \<Rightarrow>
      't SEND_MESSAGE_CALLBACK_T \<Rightarrow> ('e, 'd, 'l) sys \<Rightarrow> (err_t \<times> 't SEND_MESSAGE_CALLBACK_T \<times> ('e, 'd, 'l) sys) option" where
  "send_write lw tm sizFrame ptPcb msg tResult c s =
     (if msg \<noteq> [] then
        (case tcp_sndbuf lw ptPcb s of (usChunk, s) \<Rightarrow>
           (case (if usChunk > 0 then
                    let (n, ucFlags) = (if unat usChunk \<ge> length msg then (length msg, 0) else (unat usChunk, 2)) in
                    (case tcp_write lw ptPcb (take n msg) ucFlags s of (r, s) \<Rightarrow>
                       (r, if r = ERR_OK then drop n msg else msg, s))
                  else (tResult, msg, s)) of (tResult, msg, s) \<Rightarrow>
              if usChunk > 0 \<and> tResult \<noteq> ERR_OK then Some (tResult, c, s)
              else (case systime_handle_is_elapsed tm (tTimer c) s of (e, s) \<Rightarrow>
                if e \<noteq> 0 then Some (ERR_TIMEOUT, c, s)
                else (case network_cyclic_process lw (send_handlers tm) sizFrame c s of
                        None \<Rightarrow> None
                      | Some (c, s) \<Rightarrow> send_write lw tm sizFrame ptPcb msg tResult c s))))
      else Some (tResult, c, s))"

text \<open>The loop that waits until all data is sent.\<close>

partial_function (option) send_flush_wait ::
    "('e, 'd, 'l) sys lwip \<Rightarrow> (('e, 'd, 'l) sys, 't) systime \<Rightarrow> u32 \<Rightarrow> u32 \<Rightarrow> 't SEND_MESSAGE_CALLBACK_T \<Rightarrow>
      ('e, 'd, 'l) sys \<Rightarrow> (err_t \<times> 't SEND_MESSAGE_CALLBACK_T \<times> ('e, 'd, 'l) sys) option" where
  "send_flush_wait lw tm sizFrame sizMessage c s =
     (if ulSentData c < sizMessage then
        (case systime_handle_is_elapsed tm (tTimer c) s of (e, s) \<Rightarrow>
           if e \<noteq> 0 then Some (ERR_TIMEOUT, c, s)
           else (case network_cyclic_process lw (send_handlers tm) sizFrame c s of
                   None \<Rightarrow> None
                 | Some (c, s) \<Rightarrow> send_flush_wait lw tm sizFrame sizMessage c s))
      else Some (ERR_OK, c, s))"

text \<open>What \<open>sendMessage\<close> does on an established connection.\<close>

definition send_transmit ::
    "('e, 'd, 'l) sys lwip \<Rightarrow> (('e, 'd, 'l) sys, 't) systime \<Rightarrow> u32 \<Rightarrow> ptr \<Rightarrow> u8 list \<Rightarrow>
      't SEND_MESSAGE_CALLBACK_T \<Rightarrow> ('e, 'd, 'l) sys \<Rightarrow> (err_t \<times> ('e, 'd, 'l) sys) option" where
  "send_transmit lw tm sizFrame ptPcb msg c s =
     (case systime_handle_start_ms tm 10000 s of (t, s) \<Rightarrow>
        let c = c\<lparr>tTimer := t, ulChunkTransmitTimeoutInMs := 10000\<rparr> in
        case send_write lw tm sizFrame ptPcb msg ERR_OK c s of
          None \<Rightarrow> None
        | Some (tResult, c, s) \<Rightarrow>
            if tResult = ERR_OK then
              (case tcp_output lw ptPcb s of (tResult, s) \<Rightarrow>
                 if tResult \<noteq> ERR_OK then Some (tResult, s)
                 else (case send_flush_wait lw tm sizFrame (of_nat (length msg)) c s of
                         None \<Rightarrow> None
                       | Some (tResult, c, s) \<Rightarrow> Some (tResult, s)))
            else Some (tResult, s))"

text \<open>\<open>uninit\<close> is the value of \<open>ulChunkTransmitTimeoutInMs\<close> before it is set.\<close>

definition sendMessage ::
    "('e, 'd, 'l) sys lwip \<Rightarrow> (('e, 'd, 'l) sys, 't) systime \<Rightarrow> u32 \<Rightarrow> u32 \<Rightarrow> u32 \<Rightarrow> u16 \<Rightarrow> u8 list \<Rightarrow> ('e, 'd, 'l) sys \<Rightarrow>
      (int \<times> ('e, 'd, 'l) sys) option" where
  "sendMessage lw tm sizFrame uninit ulServer usServerPort msg s =
     (case tcp_new lw s of (ptPcb, s) \<Rightarrow>
      if ptPcb = NULL then Some (-1, s)
      else
        let s = tcp_sent lw ptPcb (tcp_arg lw ptPcb s) in
        (case tcp_connect lw ptPcb ulServer usServerPort s of (tResult, s) \<Rightarrow>
         if tResult \<noteq> ERR_OK then Some (-1, s)
         else (case systime_handle_start_ms tm 5000 s of (t, s) \<Rightarrow>
           let c = \<lparr>uiIsConnected = 0, ulSentData = 0, send_tResult = ERR_OK, ulChunkTransmitTimeoutInMs = uninit,
                tTimer = t\<rparr> in
           case send_connect_wait lw tm sizFrame c s of
             None \<Rightarrow> None
           | Some (tResult, c, s) \<Rightarrow>
               (case (if tResult = ERR_OK \<and> send_tResult c = ERR_OK then send_transmit lw tm sizFrame ptPcb msg c s
                      else Some (tResult, s)) of
                  None \<Rightarrow> None
                | Some (tResult, s) \<Rightarrow>
                    (case tcp_close lw ptPcb s of (tCloseResult, s) \<Rightarrow>
                       let (tResult, s) = (if tCloseResult \<noteq> ERR_OK then (tCloseResult, tcp_abort lw ptPcb s)
                                           else (tResult, s)) in
                       Some (if tResult = ERR_OK then 0 else -1, s))))))"

subsection \<open>The data callback\<close>

text \<open>The data of a chain of packet buffers.\<close>

definition chain_bytes :: "memory \<Rightarrow> (ptr \<times> u16) list \<Rightarrow> u8 list" where
  "chain_bytes m ch = concat (map (\<lambda>(pv, n). rdbytes m pv (unat n)) ch)"

lemma chain_bytes_simps [simp]:
  "chain_bytes m [] = []"
  "chain_bytes m ((pv, n) # ch) = rdbytes m pv (unat n) @ chain_bytes m ch"
  "chain_bytes m (ch @ ch') = chain_bytes m ch @ chain_bytes m ch'"
  by (simp_all add: chain_bytes_def)

text \<open>A chunk outside of the buffer that is not shorter than its way to an aligned address.\<close>

definition chunk_ok :: "ptr \<Rightarrow> nat \<Rightarrow> ptr \<times> u16 \<Rightarrow> bool" where
  "chunk_ok p left c \<longleftrightarrow> (case c of (pv, n) \<Rightarrow> align_dist pv \<le> unat n \<and> unat pv + unat n < 2 ^ 32 - 4 \<and>
     ranges_disjoint pv (unat n) p left)"

lemma in_range_sub:
  assumes "in_range x (p + of_nat k) n" and "unat p + k + n \<le> 2 ^ 32"
  shows "in_range x p (k + n)"
proof -
  obtain i where "i < n" "x = p + of_nat k + of_nat i" using in_rangeD [OF assms(1)] by auto
  then have "x = p + of_nat (k + i)" by simp
  then show ?thesis using \<open>i < n\<close> in_rangeI [of "k + i" "k + n" p] by simp
qed

lemma chunk_ok_sub:
  assumes "chunk_ok p (k + n) c" and "unat p + k + n \<le> 2 ^ 32"
  shows "chunk_ok (p + of_nat k) n c"
  using assms in_range_sub by (fastforce simp: chunk_ok_def ranges_disjoint_def)

lemma memcpy_bytes:
  assumes "ranges_disjoint pv n q k" and "length bs \<le> k" and "unat q + k \<le> 2 ^ 32"
  shows "rdbytes (wrbytes m q bs) pv n = rdbytes m pv n"
  using assms by (intro rdbytes_wrbytes_disjoint) (auto simp: ranges_disjoint_def in_range_def)

lemma chain_bytes_memcpy:
  assumes "list_all (chunk_ok p left) ch" and "length bs \<le> left" and "unat p + left \<le> 2 ^ 32"
  shows "chain_bytes (wrbytes m p bs) ch = chain_bytes m ch"
  using assms(1) memcpy_bytes [OF _ assms(2,3)] by (induction ch) (auto simp: chunk_ok_def)

lemma http_step_fits:
  assumes "unat n < unat left" and "unat (p :: ptr) + unat left \<le> 2 ^ 32" and "p \<noteq> NULL"
  shows "unat (p + ucast (n :: u16)) = unat p + unat n" and "unat (left - ucast n) = unat left - unat n"
    and "p + ucast n \<noteq> NULL" and "(ucast n :: u32) < left"
proof -
  show lt: "(ucast n :: u32) < left" using assms(1) by (simp add: word_less_nat_alt)
  show p': "unat (p + ucast n) = unat p + unat n" using assms by (simp add: unat_word_ariths)
  show "unat (left - ucast n) = unat left - unat n" using lt by (simp add: unat_sub order_less_imp_le)
  show "p + ucast n \<noteq> NULL" using p' assms(3) by (metis add_eq_0_iff_both_eq_0 unat_0 unat_eq_zero)
qed

text \<open>Whatever is received: the callback writes only into the free part of the buffer and never sets
  the end of the data beyond it.\<close>

lemma http_chunks_bounds:
  "http_chunks cr ch p left s = Some (r, p', s') \<Longrightarrow> p \<noteq> NULL \<Longrightarrow> unat p + unat left \<le> 2 ^ 32 \<Longrightarrow>
    unat p \<le> unat p' \<and> (unat p' < unat p + unat left \<or> p' = p) \<and>
    (\<forall>x. \<not> in_range x p (unat left) \<longrightarrow> mem s' x = mem s x) \<and>
    s' = s\<lparr>mem := mem s', hw := hw s'\<rparr>"
proof (induction cr ch p left s rule: http_chunks.induct)
  case (2 cr pv n ch p left s)
  obtain w where w: "sha384_update cr (mem s) pv (ucast n) (hw s) = Some w"
    using "2.prems"(1) by (auto split: option.splits)
  show ?case
  proof (cases "left > ucast n")
    case False
    then show ?thesis using "2.prems" w by auto
  next
    case True
    let ?s = "s\<lparr>hw := w, mem := memcpy (mem s) p pv (unat n)\<rparr>"
    have n: "unat n < unat left" using True by (simp add: word_less_nat_alt)
    have p': "unat (p + ucast n) = unat p + unat n"
      using n "2.prems"(3) by (simp add: unat_word_ariths)
    have l': "unat (left - ucast n) = unat left - unat n" using True by (simp add: unat_sub order_less_imp_le)
    have ne: "p + ucast n \<noteq> NULL" using p' "2.prems"(2) by (metis add_eq_0_iff_both_eq_0 unat_0 unat_eq_zero)
    have "http_chunks cr ch (p + ucast n) (left - ucast n) ?s = Some (r, p', s')"
      using "2.prems" w True by (simp add: Let_def)
    then have ih: "unat (p + ucast n) \<le> unat p' \<and>
        (unat p' < unat (p + ucast n) + unat (left - ucast n) \<or> p' = p + ucast n) \<and>
        (\<forall>x. \<not> in_range x (p + ucast n) (unat (left - ucast n)) \<longrightarrow> mem s' x = mem ?s x) \<and>
        s' = ?s\<lparr>mem := mem s', hw := hw s'\<rparr>"
      using "2.IH"(1) [OF w refl "2.prems"(2) True] ne p' l' n "2.prems"(3) by (simp add: Let_def)
    have "mem s' x = mem s x" if "\<not> in_range x p (unat left)" for x
    proof -
      have "\<not> in_range x (p + ucast n) (unat (left - ucast n))"
        using that in_range_sub [of x p "unat n" "unat left - unat n"] n l' "2.prems"(3) by auto
      then have "mem s' x = wrbytes (mem s) p (rdbytes (mem s) pv (unat n)) x" using ih by (simp add: memcpy_def)
      also have "\<dots> = mem s x"
        using that n by (intro wrbytes_not_in_range) (auto simp: in_range_def)
      finally show ?thesis .
    qed
    then show ?thesis using ih p' l' n by auto
  qed
qed auto

text \<open>Data that fits: it is appended to the buffer and to the hashed stream; nothing outside of the
  buffer changes.\<close>

lemma http_chunks_fit:
  assumes cr: "crypt_unit cr stream digest ready"
  shows "list_all (chunk_ok p (unat left)) ch \<Longrightarrow> p \<noteq> NULL \<Longrightarrow> unat p + unat left \<le> 2 ^ 32 \<Longrightarrow>
    length (chain_bytes (mem s) ch) < unat left \<Longrightarrow>
    \<exists>s'. http_chunks cr ch p left s = Some (ERR_OK, p + of_nat (length (chain_bytes (mem s) ch)), s') \<and>
      rdbytes (mem s') p (length (chain_bytes (mem s) ch)) = chain_bytes (mem s) ch \<and>
      stream (hw s') = stream (hw s) @ chain_bytes (mem s) ch"
proof (induction ch arbitrary: p left s)
  case (Cons c ch)
  obtain pv n where c: "c = (pv, n)" by force
  define bs where "bs = rdbytes (mem s) pv (unat n)"
  have len: "length bs = unat n" by (simp add: bs_def)
  have n: "unat n < unat left" using Cons.prems(4) by (simp add: c)
  note fit = http_step_fits [OF n Cons.prems(3,2)]
  have ok: "align_dist pv \<le> unat n" "unat pv + unat n < 2 ^ 32 - 4" using Cons.prems(1) by (auto simp: c chunk_ok_def)
  obtain w where w: "sha384_update cr (mem s) pv (ucast n) (hw s) = Some w" "stream w = stream (hw s) @ bs"
    using sha384_update_stream [OF cr, of pv "ucast n" "mem s" "hw s"] ok by (auto simp: max_def bs_def)
  let ?s = "s\<lparr>hw := w, mem := memcpy (mem s) p pv (unat n)\<rparr>"
  have same: "chain_bytes (mem ?s) ch = chain_bytes (mem s) ch"
    using Cons.prems(1,3) n by (simp add: memcpy_def) (intro chain_bytes_memcpy, auto)
  have "list_all (chunk_ok (p + ucast n) (unat (left - ucast n))) ch"
    using Cons.prems(1,3) n fit(2) chunk_ok_sub [of p "unat n" "unat left - unat n"]
    by (auto simp: list_all_iff)
  moreover have "length (chain_bytes (mem s) ch) < unat left - unat n"
    using Cons.prems(4) by (simp add: c less_diff_conv add.commute)
  ultimately obtain s' where s': "http_chunks cr ch (p + ucast n) (left - ucast n) ?s =
        Some (ERR_OK, p + ucast n + of_nat (length (chain_bytes (mem s) ch)), s')"
      "rdbytes (mem s') (p + ucast n) (length (chain_bytes (mem s) ch)) = chain_bytes (mem s) ch"
      "stream (hw s') = stream w @ chain_bytes (mem s) ch"
    using Cons.IH [of "p + ucast n" "left - ucast n" ?s] fit Cons.prems(3,4) unfolding same by (auto simp: c)
  have keep: "mem s' x = mem ?s x" if "\<not> in_range x (p + ucast n) (unat (left - ucast n))" for x
    using http_chunks_bounds [OF s'(1) fit(3)] that fit(1,2) n Cons.prems(3) by auto
  have "rdbytes (mem s') p (unat n) = rdbytes (mem ?s) p (unat n)"
  proof (rule rdbytes_cong)
    fix i
    assume i: "i < unat n"
    have "i < 4294967296" using i unat_u16_less [of n] by linarith
    then have "unat (p + of_nat i - (p + ucast n)) = 2 ^ 32 - (unat n - i)"
      using i by (simp add: unat_sub_if' unat_of_nat)
    then have "\<not> in_range (p + of_nat i) (p + ucast n) (unat (left - ucast n))"
      using fit(2) n i Cons.prems(3) unat_u32_less [of left] by (simp add: in_range_def)
    then show "mem s' (p + of_nat i) = mem ?s (p + of_nat i)" by (rule keep)
  qed
  also have "\<dots> = bs"
    using rdbytes_wrbytes [of bs "mem s" p] unat_u16_less [of n] by (simp add: memcpy_def len flip: bs_def)
  finally have "rdbytes (mem s') p (unat n + length (chain_bytes (mem s) ch)) = bs @ chain_bytes (mem s) ch"
    using s'(2) by (simp add: rdbytes_add)
  then show ?case using s' w fit(4) Cons.prems(2) by (auto simp: c Let_def len bs_def add.assoc)
qed simp

subsection \<open>No frame is lost\<close>

text \<open>lwIP keeps the number of frames of the interface: it reaches the driver only through
  \<open>netif_output\<close>.\<close>

definition lwip_keeps ::
    "('e, 'd, 'l) sys lwip \<Rightarrow> (('e, 'd, 'l) sys, 'c) handlers \<Rightarrow> 'd NETWORK_IF_T \<Rightarrow> ('d \<Rightarrow> bool) \<Rightarrow> ('d \<Rightarrow> nat) \<Rightarrow> bool" where
  "lwip_keeps lw h nif ok pool \<longleftrightarrow>
     (\<forall>pb c s r c' s'. exec h (netif_input lw pb s) c = Some (r, c', s') \<longrightarrow> ok (drv s) \<longrightarrow>
        ok (drv s') \<and> pool (drv s') = pool (drv s)) \<and>
     (\<forall>c s r c' s'. exec h (sys_check_timeouts lw s) c = Some (r, c', s') \<longrightarrow> ok (drv s) \<longrightarrow>
        ok (drv s') \<and> pool (drv s') = pool (drv s)) \<and>
     (\<forall>k s. drv (snd (lw_pbuf_alloc lw k s)) = drv s) \<and> (\<forall>pb q k s. drv (lw_pbuf_take lw pb q k s) = drv s) \<and>
     (\<forall>pb q k s. drv (lw_pbuf_copy_partial lw pb q k s) = drv s) \<and>
     (\<forall>pb s. drv (lw_pbuf_free lw pb s) = drv s) \<and> (\<forall>s. drv (netif_set_link_down lw s) = drv s)"

lemma lwip_keepsD:
  assumes "lwip_keeps lw h nif ok pool"
  shows "exec h (netif_input lw pb s) c = Some (r, c', s') \<Longrightarrow> ok (drv s) \<Longrightarrow> ok (drv s') \<and> pool (drv s') = pool (drv s)"
    and "exec h (sys_check_timeouts lw s) c = Some (u, c', s') \<Longrightarrow> ok (drv s) \<Longrightarrow> ok (drv s') \<and> pool (drv s') = pool (drv s)"
    and "lw_pbuf_alloc lw k s = (p, s') \<Longrightarrow> drv s' = drv s"
  using assms unfolding lwip_keeps_def by (simp_all, metis snd_conv)

context network_if
begin

lemma netif_output_pool:
  assumes nif: "ptNetworkIf (tNetworkDeviceState s) = Some nif" and ok: "if_ok (drv s)"
    and copy: "\<And>q s. drv (lw_pbuf_copy_partial lw pb q (tot_len pb) s) = drv s"
    and out: "netif_output lw pb s = Some (e, s')"
  shows "if_ok (drv s') \<and> pool (drv s') = pool (drv s)"
proof -
  obtain q d where g: "pfnGetEmptyPacket nif (drv s) = (q, d)" by force
  show ?thesis
  proof (cases "netif_state (tNetIf (tNetworkDeviceState s)) \<and> q \<noteq> NULL")
    case True
    then show ?thesis using out nif g copy empty_send_keeps [OF ok g] by (auto simp: netif_output_def Let_def)
  next
    case False
    then show ?thesis using out nif g ok empty_law [OF ok g] by (auto simp: netif_output_def split: if_splits)
  qed
qed

lemma network_receive_pool:
  assumes lw: "lwip_keeps lw h nif if_ok pool" and ok: "if_ok (drv s)"
    and run: "network_receive lw h nif k c s = Some (c', s')"
  shows "if_ok (drv s') \<and> pool (drv s') = pool (drv s)"
proof -
  obtain q l d where g: "pfnGetReceivedPacket nif k (drv s) = (q, l, d)" by (metis prod_cases3)
  obtain pb s2 where al: "lw_pbuf_alloc lw (ucast l) (s\<lparr>drv := d\<rparr>) = (pb, s2)" by force
  have d2: "drv s2 = d" using lwip_keepsD(3) [OF lw al] by simp
  show ?thesis
  proof (cases "q = NULL")
    case True
    then show ?thesis using run g received_law [OF ok g] by (auto simp: network_receive_def)
  next
    case q: False
    note rel = received_release_keeps [OF ok g q]
    show ?thesis
    proof (cases pb)
      case None
      then show ?thesis using run g q al rel d2 by (auto simp: network_receive_def)
    next
      case (Some b)
      let ?s3 = "lw_pbuf_take lw b q (ucast l) s2"
      let ?s4 = "?s3\<lparr>drv := pfnReleasePacket nif q (drv ?s3)\<rparr>"
      have "drv ?s3 = d" using lw d2 by (simp add: lwip_keeps_def)
      then have s4: "if_ok (drv ?s4) \<and> pool (drv ?s4) = pool (drv s)" using rel by simp
      obtain r s5 where e: "exec h (netif_input lw b ?s4) c = Some (r, c', s5)"
        and s': "s' = (if r \<noteq> ERR_OK then lw_pbuf_free lw b s5 else s5)"
        using run g q al Some by (auto simp: network_receive_def Let_def split: option.splits)
      have "if_ok (drv s5) \<and> pool (drv s5) = pool (drv ?s4)" using lwip_keepsD(1) [OF lw e] s4 by simp
      moreover have "drv s' = drv s5" using lw s' by (simp add: lwip_keeps_def)
      ultimately show ?thesis using s4 by simp
    qed
  qed
qed

lemma network_cyclic_process_pool:
  assumes lw: "lwip_keeps lw h nif if_ok pool" and ok: "if_ok (drv s)"
    and nif: "ptNetworkIf (tNetworkDeviceState s) = Some nif"
    and run: "network_cyclic_process lw h k c s = Some (c', s')"
  shows "if_ok (drv s') \<and> pool (drv s') = pool (drv s)"
proof -
  obtain l d where g: "pfnGetLinkStatus nif (drv s) = (l, d)" by force
  let ?s1 = "s\<lparr>drv := d\<rparr>"
  have s1: "if_ok (drv ?s1) \<and> pool (drv ?s1) = pool (drv s)" using link_law [OF ok g] by simp
  obtain c2 s2 u where s2: "(if l = 0 then Some (c, netif_set_link_down lw ?s1)
      else network_receive lw h nif k c ?s1) = Some (c2, s2)"
    and t: "exec h (sys_check_timeouts lw s2) c2 = Some (u, c', s')"
    using run nif g by (auto simp: network_cyclic_process_def Let_def split: option.splits)
  have "if_ok (drv s2) \<and> pool (drv s2) = pool (drv ?s1)"
  proof (cases "l = 0")
    case True
    then have "drv s2 = drv ?s1" using s2 lw by (auto simp: lwip_keeps_def)
    then show ?thesis using s1 by simp
  next
    case False
    then show ?thesis using s2 network_receive_pool [OF lw, of ?s1 k c c2 s2] s1 by simp
  qed
  moreover have "if_ok (drv s') \<and> pool (drv s') = pool (drv s2)"
    using lwip_keepsD(2) [OF lw t] calculation by simp
  ultimately show ?thesis using s1 by simp
qed

end

subsection \<open>Properties\<close>

text \<open>A small lwIP for the witnesses. Its state says whether the request is active and holds the delivered
  bytes. A check of the timeouts delivers eight bytes and the result. The crypto unit keeps the stream
  of its bytes.\<close>

type_synonym demo_sys = "(u8 list, (u32 \<Rightarrow> u32 \<Rightarrow> u32 list) xc, bool \<times> u8 list) sys"

definition demo_crypt :: "u8 list crypt" where
  "demo_crypt = \<lparr>MSK_crypt_sha_cfg_reset = 1, SRT_crypt_sha_cfg_mode = 4, MSK_crypt_irq_raw_hash_ready = 2,
     wr_sha_cfg = (\<lambda>_ w. []), wr_sha_din = (\<lambda>v w. w @ le32 v), wr_sha_din_uc = (\<lambda>b w. w @ [b]), wr_irq_raw = (\<lambda>_ w. w), rd_irq_raw = (\<lambda>w. (2, w)),
     rd_sha_hash = (\<lambda>i w. (of_nat (length w), w))\<rparr>"

lemma demo_crypt_unit: "crypt_unit demo_crypt (\<lambda>w. w) (\<lambda>bs. replicate 12 (of_nat (length bs))) (\<lambda>_. True)"
  by (simp add: crypt_unit_def demo_crypt_def flag_def)

abbreviation demo_active :: "demo_sys \<Rightarrow> bool" where
  "demo_active s \<equiv> fst (lwst s)"

abbreviation demo_rx :: "demo_sys \<Rightarrow> u8 list" where
  "demo_rx s \<equiv> snd (lwst s)"

definition demo_pbuf :: pbuf where
  "demo_pbuf = \<lparr>pb_ptr = 0x0ff0, pb_chain = [(0x1000, 8)], tot_len = 8\<rparr>"

definition demo_lwip :: "demo_sys lwip" where
  "demo_lwip = \<lparr>lwip_init = (\<lambda>s. s), netif_add = (\<lambda>_ _ _ f s. snd (f s)), netif_set_default = (\<lambda>s. s),
     netif_set_up = (\<lambda>s. s), netif_set_link_up = (\<lambda>s. s), netif_set_link_down = (\<lambda>s. s),
     netif_input = (\<lambda>_ s. Ret ERR_OK s),
     sys_check_timeouts = (\<lambda>s. if demo_active s \<and> demo_rx s = [] then
       HttpData (Some demo_pbuf) ERR_OK s (\<lambda>e t. HttpResult 0 8 200 ERR_OK t
         (\<lambda>u. Ret () (u\<lparr>lwst := (False, rdbytes (mem u) 0x1000 8)\<rparr>))) else Ret () s),
     lw_pbuf_alloc = (\<lambda>_ s. (Some demo_pbuf, s)), lw_pbuf_take = (\<lambda>_ _ _ s. s), lw_pbuf_copy_partial = (\<lambda>_ _ _ s. s),
     lw_pbuf_free = (\<lambda>_ s. s), altcp_recved = (\<lambda>_ s. s),
     lw_httpc_get_file = (\<lambda>_ _ _ s. (ERR_OK, s\<lparr>lwst := (True, [])\<rparr>)), tcp_new = (\<lambda>s. (1, s)),
     tcp_arg = (\<lambda>_ s. s), tcp_sent = (\<lambda>_ s. s), tcp_connect = (\<lambda>_ _ _ s. (ERR_OK, s)), tcp_sndbuf = (\<lambda>_ s. (100, s)),
     tcp_write = (\<lambda>_ _ _ s. (ERR_OK, s)), tcp_output = (\<lambda>_ s. (ERR_OK, s)), tcp_close = (\<lambda>_ s. (ERR_OK, s)),
     tcp_abort = (\<lambda>_ s. s)\<rparr>"

definition demo_time :: "(demo_sys, unit) systime" where
  "demo_time = \<lparr>systime_get_ms = (\<lambda>s. (0, s)), systime_handle_start_ms = (\<lambda>_ s. ((), s)),
     systime_handle_is_elapsed = (\<lambda>_ s. (1, s))\<rparr>"

definition demo_state :: demo_sys where
  "demo_state = \<lparr>mem = (\<lambda>a. ucast a), hw = [], drv = two_empty,
     tNetworkDeviceState = \<lparr>tIpAddr = 0, tNetmask = 0, tGateway = 0, aucMAC = [], ptNetworkIf = Some (tNetworkIfXc list_regs),
       tNetIf = \<lparr>netif_state = True, linkoutput = Fn_netif_output, ip_output = Fn_etharp_output, mtu = 1518, flags = 0,
         hwaddr = [], hwaddr_len = 6, netif_name = []\<rparr>\<rparr>, lwst = (False, [])\<rparr>"

lemma demo_chunk_ok: "chunk_ok 0x2000 16 (0x1000, 8)"
  by (simp add: chunk_ok_def align_dist_def ranges_disjointI)

lemma demo_driver:
  "pfnGetLinkStatus (tNetworkIfXc list_regs) two_empty = (1, two_empty)"
  "pfnGetReceivedPacket (tNetworkIfXc list_regs) k two_empty = (NULL, k, two_empty)"
  by (simp_all add: tNetworkIfXc_def drv_eth_xc_get_link_status_def drv_eth_xc_get_received_packet_def
      list_regs_def two_empty_def fifo_nr_def ETHERNET_FIFO_IND_LO_def)

text \<open>(C33) The data callback stays inside the buffer: whatever lwIP hands over, the callback writes only
  between the end of the data and the end of the buffer, and the new end of the data lies in that
  range. All other effects are those of the two calls of lwIP at its end.\<close>

theorem httpDownloadDataCallback_bounds:
  assumes "httpDownloadDataCallback cr lw (Some pb) ERR_OK (Some c) s = Some (r, c', s')"
    and "pucCnt c \<noteq> NULL" and "pucCnt c \<le> pucEnd c"
  shows "\<exists>cnt t. c' = Some (c\<lparr>pucCnt := cnt\<rparr>) \<and> s' = lw_pbuf_free lw pb (altcp_recved lw (tot_len pb) t) \<and>
    pucCnt c \<le> cnt \<and> cnt \<le> pucEnd c \<and> t = s\<lparr>mem := mem t, hw := hw t\<rparr> \<and>
    (\<forall>x. \<not> (pucCnt c \<le> x \<and> x < pucEnd c) \<longrightarrow> mem t x = mem s x)"
proof -
  let ?p = "pucCnt c" and ?left = "pucEnd c - pucCnt c"
  obtain cnt t where h: "http_chunks cr (pb_chain pb) ?p ?left s = Some (r, cnt, t)"
    and c': "c' = Some (c\<lparr>pucCnt := cnt\<rparr>)" "s' = lw_pbuf_free lw pb (altcp_recved lw (tot_len pb) t)"
    using assms(1) by (auto simp: httpDownloadDataCallback_def split: option.splits)
  have left: "unat ?left = unat (pucEnd c) - unat ?p" using assms(3) by (simp add: unat_sub)
  then have end': "unat ?p + unat ?left = unat (pucEnd c)" using assms(3) by (simp add: word_le_nat_alt)
  then have "unat ?p + unat ?left \<le> 2 ^ 32" by (simp add: less_imp_le)
  note b = http_chunks_bounds [OF h assms(2) this]
  have "\<not> in_range x ?p (unat ?left)" if "\<not> (?p \<le> x \<and> x < pucEnd c)" for x
  proof
    assume "in_range x ?p (unat ?left)"
    then obtain k where k: "k < unat ?left" "x = ?p + of_nat k" using in_rangeD by blast
    then have "unat ?p + k < 4294967296" using end' unat_u32_less [of "pucEnd c"] by linarith
    then have "unat x = unat ?p + k" using k by (simp add: unat_word_ariths unat_of_nat)
    then show False using that k(1) end' by (simp add: word_le_nat_alt word_less_nat_alt)
  qed
  moreover have "?p \<le> cnt" "cnt \<le> pucEnd c" using b end' assms(3) by (auto simp: word_le_nat_alt)
  ultimately show ?thesis using b c' by blast
qed

text \<open>(C33) Witness: the packet buffer of the demonstration server.\<close>

theorem httpDownloadDataCallback_bounds_witness:
  "\<exists>r c' s'. httpDownloadDataCallback demo_crypt demo_lwip (Some demo_pbuf) ERR_OK (Some
      \<lparr>pucStart = 0x2000, pucCnt = 0x2000, pucEnd = 0x2010, http_tHash = [], pfnResult = None, fIsFinished = 0,
       tHttpcResult = 0, ulServerResponse = 0, http_tResult = 0\<rparr>) demo_state = Some (r, c', s') \<and>
    mem s' 0x1000 = 0"
proof -
  let ?c = "\<lparr>pucStart = 0x2000, pucCnt = 0x2000, pucEnd = 0x2010, http_tHash = [], pfnResult = None, fIsFinished = 0,
    tHttpcResult = 0, ulServerResponse = 0, http_tResult = 0\<rparr> :: demo_sys HTTP_DOWNLOAD_STATE_T"
  have "list_all (chunk_ok 0x2000 (unat (0x10 :: u32))) (pb_chain demo_pbuf)"
    using demo_chunk_ok by (simp add: demo_pbuf_def)
  then obtain t where h: "http_chunks demo_crypt (pb_chain demo_pbuf) 0x2000 0x10 demo_state =
      Some (ERR_OK, 0x2000 + of_nat (length (chain_bytes (mem demo_state) (pb_chain demo_pbuf))), t)"
    using http_chunks_fit [OF demo_crypt_unit, of "0x2000" "0x10" "pb_chain demo_pbuf" demo_state]
    by (auto simp: demo_pbuf_def)
  then obtain r c' s' where run: "httpDownloadDataCallback demo_crypt demo_lwip (Some demo_pbuf) ERR_OK (Some ?c) demo_state =
      Some (r, c', s')"
    by (simp add: httpDownloadDataCallback_def)
  from httpDownloadDataCallback_bounds [OF run] have "mem s' 0x1000 = mem demo_state 0x1000"
    by (auto simp: demo_lwip_def)
  then show ?thesis using run by (auto simp: demo_state_def)
qed

text \<open>A chunk that does not fit is hashed but not stored: the callback returns \<open>ERR_MEM\<close> and
  neither the buffer nor the end of the data changes, but the crypto unit has taken the bytes. A
  chunk as long as the free space does not fit either.\<close>

theorem httpDownloadDataCallback_overflow:
  assumes "crypt_unit cr stream digest ready" and "pucCnt c \<noteq> NULL"
    and "pb_chain pb = [(q, n)]" and "unat (pucEnd c - pucCnt c) \<le> unat n"
    and "align_dist q \<le> unat n" and "unat q + unat n < 2 ^ 32 - 4"
  shows "\<exists>t. httpDownloadDataCallback cr lw (Some pb) ERR_OK (Some c) s =
      Some (ERR_MEM, Some c, lw_pbuf_free lw pb (altcp_recved lw (tot_len pb) t)) \<and>
    mem t = mem s \<and> stream (hw t) = stream (hw s) @ rdbytes (mem s) q (unat n)"
proof -
  obtain w where w: "sha384_update cr (mem s) q (ucast n) (hw s) = Some w"
    "stream w = stream (hw s) @ rdbytes (mem s) q (unat n)"
    using sha384_update_stream [OF assms(1), of q "ucast n" "mem s" "hw s"] assms(5,6) by (auto simp: max_def)
  have "\<not> (pucEnd c - pucCnt c > ucast n)" using assms(4) by (simp add: word_less_nat_alt)
  then show ?thesis using w assms(2,3)
    by (intro exI [of _ "s\<lparr>hw := w\<rparr>"]) (simp add: httpDownloadDataCallback_def)
qed

text \<open>Witness: eight bytes for a buffer of eight bytes.\<close>

theorem httpDownloadDataCallback_overflow_witness:
  "\<exists>s'. httpDownloadDataCallback demo_crypt demo_lwip (Some demo_pbuf) ERR_OK (Some
      \<lparr>pucStart = 0x2000, pucCnt = 0x2000, pucEnd = 0x2008, http_tHash = [], pfnResult = None, fIsFinished = 0,
       tHttpcResult = 0, ulServerResponse = 0, http_tResult = 0\<rparr>) demo_state =
    Some (ERR_MEM, Some \<lparr>pucStart = 0x2000, pucCnt = 0x2000, pucEnd = 0x2008, http_tHash = [], pfnResult = None,
       fIsFinished = 0, tHttpcResult = 0, ulServerResponse = 0, http_tResult = 0\<rparr>, s') \<and>
    hw s' = [0, 1, 2, 3, 4, 5, 6, 7]"
  using httpDownloadDataCallback_overflow [OF demo_crypt_unit, where pb = demo_pbuf and q = "0x1000" and n = 8
      and lw = demo_lwip and s = demo_state and c = "\<lparr>pucStart = 0x2000, pucCnt = 0x2000, pucEnd = 0x2008,
       http_tHash = [], pfnResult = None, fIsFinished = 0, tHttpcResult = 0, ulServerResponse = 0, http_tResult = 0\<rparr>"]
  by (auto simp: demo_pbuf_def align_dist_def demo_lwip_def rdbytes_numeral) (simp_all add: demo_state_def)

text \<open>No frame is lost: with the XC driver, \<open>network_cyclic_process\<close> gives every frame it takes from
  the driver back to it, on every path, as long as lwIP does.\<close>

theorem network_cyclic_process_keeps_frames:
  assumes "lwip_keeps lw h (tNetworkIfXc r) (xc_ok r q) (xc_pool q)" and "xc_ok r q (drv s)"
    and "ptNetworkIf (tNetworkDeviceState s) = Some (tNetworkIfXc r)"
    and "network_cyclic_process lw h k c s = Some (c', s')"
  shows "xc_ok r q (drv s') \<and> xc_pool q (drv s') = xc_pool q (drv s)"
  using xc_if.network_cyclic_process_pool [OF assms] .

definition demo_message :: "unit SEND_MESSAGE_CALLBACK_T" where
  "demo_message = \<lparr>uiIsConnected = 0, ulSentData = 0, send_tResult = 0, ulChunkTransmitTimeoutInMs = 0, tTimer = ()\<rparr>"

lemma demo_lwip_keeps: "lwip_keeps demo_lwip (send_handlers demo_time) nif ok pool"
  by (auto simp: lwip_keeps_def demo_lwip_def send_handlers_def)

text \<open>Witness: a cycle without a received frame.\<close>

theorem network_cyclic_process_keeps_frames_witness:
  "\<exists>c' s'. network_cyclic_process demo_lwip (send_handlers demo_time) 0 demo_message demo_state = Some (c', s') \<and>
    xc_pool list_fifos (drv s') = 2"
proof -
  have run: "network_cyclic_process demo_lwip (send_handlers demo_time) 0 demo_message demo_state =
      Some (demo_message, demo_state)"
    by (simp add: network_cyclic_process_def network_receive_def demo_state_def demo_driver demo_lwip_def)
  have "xc_pool list_fifos (drv demo_state) = 2"
    by (simp add: xc_pool_def xc_fifo_def list_fifos_def demo_state_def two_empty_def fifo_nr_def
        NUM_FIFO_CHANNELS_PER_UNIT_def ETHERNET_FIFO_EMPTY_def ETHERNET_FIFO_IND_LO_def ETHERNET_FIFO_REQ_LO_def)
  then show ?thesis
    using network_cyclic_process_keeps_frames [OF demo_lwip_keeps _ _ run, of list_regs list_fifos] run two_empty_ok
    by (simp add: demo_state_def)
qed

text \<open>\<open>netif_output\<close> sends exactly one frame per packet or none: with the XC driver the frame taken
  from the pool of empty frames is the frame that is handed to the hardware.\<close>

theorem netif_output_keeps_frames:
  assumes "\<And>q s. drv (lw_pbuf_copy_partial lw pb q (tot_len pb) s) = drv s" and "xc_ok r q (drv s)"
    and "ptNetworkIf (tNetworkDeviceState s) = Some (tNetworkIfXc r)"
    and "netif_output lw pb s = Some (e, s')"
  shows "xc_ok r q (drv s') \<and> xc_pool q (drv s') = xc_pool q (drv s)"
  using xc_if.netif_output_pool [OF assms(3,2,1,4)] .

text \<open>Witness: the packet buffer of the demonstration server is sent.\<close>

theorem netif_output_keeps_frames_witness:
  "\<exists>e s'. netif_output demo_lwip demo_pbuf demo_state = Some (e, s') \<and>
    xc_pool list_fifos (drv s') = xc_pool list_fifos two_empty"
proof -
  obtain e s' where run: "netif_output demo_lwip demo_pbuf demo_state = Some (e, s')"
    by (cases "netif_output demo_lwip demo_pbuf demo_state")
      (auto simp: netif_output_def demo_state_def Let_def split: prod.splits if_splits)
  have "drv (lw_pbuf_copy_partial demo_lwip pb q k s) = drv s" for pb q k s by (simp add: demo_lwip_def)
  then show ?thesis
    using netif_output_keeps_frames [OF _ _ _ run, of list_regs list_fifos] run two_empty_ok
    by (simp add: demo_state_def)
qed

lemma ip4_of_ulong [simp]: "ip4_of_ulong v = v"
proof -
  have e: "(0xff :: u32) = mask 8" by (simp add: mask_eq_exp_minus_1)
  have "(ucast (x AND 0xff) :: u8) = ucast x" for x :: u32
    unfolding e by (rule bit_word_eqI) (auto simp: bit_simps)
  then show ?thesis by (simp add: ip4_of_ulong_def IP4_ADDR_def)
qed

text \<open>\<open>setupNetwork\<close> with the XC driver on every branch: it succeeds iff a server address is given or
  the ROM code has one; the server address is then the given one or the one of the ROM code. On
  failure nothing changes and no interface is set.\<close>

theorem setupNetwork_result:
  "case setupNetwork lw (drv_eth_xc_initialize r) server s of (res, server', s') \<Rightarrow>
     (if server = 0 \<and> ulTftpIp (ethernet_configuration_at (mem s) 0x24a88) = 0 then
        res = -1 \<and> server' = 0 \<and> s' = s
      else res = 0 \<and>
        server' = (if server = 0 then ulTftpIp (ethernet_configuration_at (mem s) 0x24a88) else server))"
  by (auto simp: setupNetwork_def drv_eth_xc_initialize_def Let_def)

end
