(* ===== verification/Http_Download.thy ===== *)
theory Http_Download
  imports Network_Lwip
begin

text \<open>
  The HTTP download (network_lwip.c, \<open>httpDownload\<close>) on top of what lwIP promises: a request is started by
  \<open>httpc_get_file\<close>, its data and its result come with the callbacks that lwIP makes inside of
  \<open>network_cyclic_process\<close>. \<open>lwip_download_ok\<close> is the contract of lwIP; the theory Http_Session follows the
  HTTP client of lwIP itself. The main result here says that a successful download leaves exactly the delivered
  bytes, their number and their hash.
\<close>

subsection \<open>What a download relies on\<close>

text \<open>
  The contract of lwIP during a download into the \<open>n\<close> bytes at \<open>p\<close>, for a file that is smaller than the
  buffer. \<open>res s\<close> is the result of the request that lwIP has reported, \<open>None\<close> before it is finished,
  \<open>rx s\<close> are the content bytes delivered so far. A run of lwIP leaves the buffer and the crypto unit
  alone between two callbacks; it delivers data in packet buffers outside of the download buffer, reports the number
  of delivered bytes with the result, and reports one result only. The run goes on after a callback with what the callback left:
  it may have written to the buffer and the crypto unit and has given the packet buffer back.

  \<open>L\<close> holds for the packet buffers that are delivered. The contract says nothing about it: how
  a response is cut into packet buffers is a matter of the traffic. The properties need that every part of a
  delivered packet buffer reaches the next aligned address (\<open>chunk_long\<close>), because \<open>sha384_update\<close> hashes
  foreign bytes otherwise; they state this condition on \<open>L\<close> by itself.
\<close>

type_synonym dl_result = "u32 \<times> u32 \<times> err_t"

definition chunk_long :: "ptr \<times> u16 \<Rightarrow> bool" where
  "chunk_long c \<longleftrightarrow> align_dist (fst c) \<le> unat (snd c)"

definition chunk_outside :: "ptr \<Rightarrow> nat \<Rightarrow> ptr \<times> u16 \<Rightarrow> bool" where
  "chunk_outside p n c \<longleftrightarrow> unat (fst c) + unat (snd c) < 2 ^ 32 - 4 \<and> ranges_disjoint (fst c) (unat (snd c)) p n"

lemma chunk_ok_iff: "chunk_ok p n c \<longleftrightarrow> chunk_long c \<and> chunk_outside p n c"
  by (cases c) (simp add: chunk_ok_def chunk_long_def chunk_outside_def)

definition dl_keeps :: "ptr \<Rightarrow> nat \<Rightarrow> ('e \<Rightarrow> u8 list) \<Rightarrow> ('e, 'd, 'l) sys \<Rightarrow> ('e, 'd, 'l) sys \<Rightarrow> bool" where
  "dl_keeps p n stream s s' \<longleftrightarrow> rdbytes (mem s') p n = rdbytes (mem s) p n \<and> stream (hw s') = stream (hw s)"

definition dl_after ::
    "('e, 'd, 'l) sys lwip \<Rightarrow> ptr \<Rightarrow> nat \<Rightarrow> pbuf \<Rightarrow> ('e, 'd, 'l) sys \<Rightarrow> ('e, 'd, 'l) sys \<Rightarrow> bool" where
  "dl_after lw p n pb s t \<longleftrightarrow>
     (\<exists>m w. (\<forall>x. \<not> in_range x p n \<longrightarrow> m x = mem s x) \<and>
        t = lw_pbuf_free lw pb (altcp_recved lw (tot_len pb) (s\<lparr>mem := m, hw := w\<rparr>)))"

inductive dl_run ::
    "('e, 'd, 'l) sys lwip \<Rightarrow> ptr \<Rightarrow> nat \<Rightarrow> ('e \<Rightarrow> u8 list) \<Rightarrow> (('e, 'd, 'l) sys \<Rightarrow> dl_result option) \<Rightarrow>
      (('e, 'd, 'l) sys \<Rightarrow> u8 list) \<Rightarrow> (pbuf \<Rightarrow> bool) \<Rightarrow> ('r \<Rightarrow> ('e, 'd, 'l) sys \<Rightarrow> bool) \<Rightarrow>
      dl_result option \<Rightarrow> u8 list \<Rightarrow> ('e, 'd, 'l) sys \<Rightarrow> (('e, 'd, 'l) sys, 'r) run \<Rightarrow> bool"
  for lw p n stream res rx L Q where
  dl_Ret: "dl_keeps p n stream s s' \<Longrightarrow> Q r s' \<Longrightarrow> res s' = act \<Longrightarrow> rx s' = data \<Longrightarrow>
    dl_run lw p n stream res rx L Q act data s (Ret r s')"
| dl_Data: "dl_keeps p n stream s s' \<Longrightarrow> L pb \<Longrightarrow> list_all (chunk_outside p n) (pb_chain pb) \<Longrightarrow>
    length data + length (chain_bytes (mem s') (pb_chain pb)) < n \<Longrightarrow>
    (\<And>e t. dl_after lw p n pb s' t \<Longrightarrow>
      dl_run lw p n stream res rx L Q None (data @ chain_bytes (mem s') (pb_chain pb)) t (k e t)) \<Longrightarrow>
    dl_run lw p n stream res rx L Q None data s (HttpData (Some pb) ERR_OK s' k)"
| dl_Closed: "dl_keeps p n stream s s' \<Longrightarrow> (\<And>e. dl_run lw p n stream res rx L Q act data s' (k e s')) \<Longrightarrow>
    dl_run lw p n stream res rx L Q act data s (HttpData None err s' k)"
| dl_Result: "dl_keeps p n stream s s' \<Longrightarrow> (httpc_result = HTTPC_RESULT_OK \<longrightarrow> rx_len = of_nat (length data)) \<Longrightarrow>
    (\<And>w. dl_run lw p n stream res rx L Q (Some (httpc_result, srv_res, err)) data (s'\<lparr>hw := w\<rparr>) (k (s'\<lparr>hw := w\<rparr>))) \<Longrightarrow>
    dl_run lw p n stream res rx L Q None data s (HttpResult httpc_result rx_len srv_res err s' k)"
| dl_Connected: "dl_keeps p n stream s s' \<Longrightarrow> (\<And>e. dl_run lw p n stream res rx L Q act data s' (k e s')) \<Longrightarrow>
    dl_run lw p n stream res rx L Q act data s (Connected err s' k)"
| dl_Sent: "dl_keeps p n stream s s' \<Longrightarrow> (\<And>e. dl_run lw p n stream res rx L Q act data s' (k e s')) \<Longrightarrow>
    dl_run lw p n stream res rx L Q act data s (Sent len s' k)"

text \<open>A function that changes nothing the download depends on and keeps \<open>ok\<close>.\<close>

definition dl_quiet ::
    "ptr \<Rightarrow> nat \<Rightarrow> ('e \<Rightarrow> u8 list) \<Rightarrow> (('e, 'd, 'l) sys \<Rightarrow> dl_result option) \<Rightarrow> (('e, 'd, 'l) sys \<Rightarrow> u8 list) \<Rightarrow>
      (('e, 'd, 'l) sys \<Rightarrow> bool) \<Rightarrow> (('e, 'd, 'l) sys \<Rightarrow> bool) \<Rightarrow> (('e, 'd, 'l) sys \<Rightarrow> ('e, 'd, 'l) sys) \<Rightarrow> bool" where
  "dl_quiet p n stream res rx ok ok' f \<longleftrightarrow>
     (\<forall>s. ok s \<longrightarrow> dl_keeps p n stream s (f s) \<and> ok' (f s) \<and> res (f s) = res s \<and> rx (f s) = rx s)"

text \<open>\<open>ok\<close> is the invariant of lwIP between two calls; \<open>okp pb\<close> says in addition that the caller owns the
  packet buffer \<open>pb\<close>.\<close>

definition lwip_download_ok ::
    "('e, 'd, 'l) sys lwip \<Rightarrow> ptr \<Rightarrow> nat \<Rightarrow> ('e \<Rightarrow> u8 list) \<Rightarrow> (('e, 'd, 'l) sys \<Rightarrow> dl_result option) \<Rightarrow>
      (('e, 'd, 'l) sys \<Rightarrow> u8 list) \<Rightarrow> (pbuf \<Rightarrow> bool) \<Rightarrow> (('e, 'd, 'l) sys \<Rightarrow> bool) \<Rightarrow>
      (pbuf \<Rightarrow> ('e, 'd, 'l) sys \<Rightarrow> bool) \<Rightarrow> bool" where
  "lwip_download_ok lw p n stream res rx L ok okp \<longleftrightarrow>
     (\<forall>pb s. okp pb s \<longrightarrow> dl_run lw p n stream res rx L (\<lambda>e s'. if e = ERR_OK then ok s' else okp pb s')
        (res s) (rx s) s (netif_input lw pb s)) \<and>
     (\<forall>s. ok s \<longrightarrow> dl_run lw p n stream res rx L (\<lambda>_. ok) (res s) (rx s) s (sys_check_timeouts lw s)) \<and>
     (\<forall>d. dl_quiet p n stream res rx ok ok (\<lambda>s. s\<lparr>drv := d\<rparr>)) \<and>
     (\<forall>pb d. dl_quiet p n stream res rx (okp pb) (okp pb) (\<lambda>s. s\<lparr>drv := d\<rparr>)) \<and>
     (\<forall>k. dl_quiet p n stream res rx ok (\<lambda>_. True) (\<lambda>s. snd (lw_pbuf_alloc lw k s))) \<and>
     (\<forall>k s. ok s \<longrightarrow> (case lw_pbuf_alloc lw k s of (None, s') \<Rightarrow> ok s' | (Some pb, s') \<Rightarrow> okp pb s')) \<and>
     (\<forall>pb q k. dl_quiet p n stream res rx (okp pb) (okp pb) (lw_pbuf_take lw pb q k)) \<and>
     (\<forall>pb. dl_quiet p n stream res rx (okp pb) ok (lw_pbuf_free lw pb)) \<and>
     (\<forall>k s. dl_keeps p n stream s (altcp_recved lw k s)) \<and> (\<forall>pb s. dl_keeps p n stream s (lw_pbuf_free lw pb s)) \<and>
     dl_quiet p n stream res rx ok ok (netif_set_link_down lw)"

text \<open>The state of a download: \<open>data\<close> has been stored and hashed, or the result is there.\<close>

definition dl_loading ::
    "ptr \<Rightarrow> nat \<Rightarrow> ('e \<Rightarrow> u8 list) \<Rightarrow> u8 list \<Rightarrow> ('e, 'd, 'l) sys HTTP_DOWNLOAD_STATE_T \<Rightarrow> ('e, 'd, 'l) sys \<Rightarrow> bool" where
  "dl_loading p n stream data c s \<longleftrightarrow>
     pucStart c = p \<and> pucCnt c = p + of_nat (length data) \<and> pucEnd c = p + of_nat n \<and> length data < n \<and>
     rdbytes (mem s) p (length data) = data \<and> stream (hw s) = data \<and>
     fIsFinished c = 0 \<and> pfnResult c = None \<and> length (http_tHash c) = 48"

definition dl_success :: "'s HTTP_DOWNLOAD_STATE_T \<Rightarrow> bool" where
  "dl_success c \<longleftrightarrow> tHttpcResult c = HTTPC_RESULT_OK \<and> ulServerResponse c = 200 \<and> http_tResult c = ERR_OK"

definition dl_done ::
    "ptr \<Rightarrow> nat \<Rightarrow> (u8 list \<Rightarrow> u32 list) \<Rightarrow> (u8 list \<Rightarrow> bool) \<Rightarrow> u8 list \<Rightarrow> ('e, 'd, 'l) sys HTTP_DOWNLOAD_STATE_T \<Rightarrow>
      ('e, 'd, 'l) sys \<Rightarrow> bool" where
  "dl_done p n digest good data c s \<longleftrightarrow>
     fIsFinished c = 1 \<and> pucStart c = p \<and> pucCnt c = p + of_nat (length data) \<and> length data < n \<and>
     (dl_success c \<longrightarrow> good data \<and> rdbytes (mem s) p (length data) = data \<and>
        http_tHash c = hash_bytes (digest (data @ fips_padding (length data))))"

definition dl_inv where
  "dl_inv p n stream digest good act data c s \<longleftrightarrow>
     (if act then dl_loading p n stream data c s else dl_done p n digest good data c s)"

lemma dl_keeps_inv:
  assumes "dl_inv p n stream digest good act data c s" and "dl_keeps p n stream s s'"
  shows "dl_inv p n stream digest good act data c s'"
proof -
  have "rdbytes (mem s') p k = rdbytes (mem s) p k" if "k < n" for k
    using assms(2) that take_rdbytes [of k n "mem s'" p] take_rdbytes [of k n "mem s" p]
    by (simp add: dl_keeps_def)
  then show ?thesis using assms by (auto simp: dl_inv_def dl_loading_def dl_done_def dl_keeps_def)
qed

text \<open>The state with the reported result.\<close>

definition dl_at where
  "dl_at p n stream digest r data c s \<longleftrightarrow> dl_inv p n stream digest (\<lambda>_. True) (r = None) data c s \<and>
     (case r of None \<Rightarrow> True | Some x \<Rightarrow> (tHttpcResult c, ulServerResponse c, http_tResult c) = x)"

lemma dl_keeps_at:
  "dl_at p n stream digest r data c s \<Longrightarrow> dl_keeps p n stream s s' \<Longrightarrow> dl_at p n stream digest r data c s'"
  by (auto simp: dl_at_def intro: dl_keeps_inv)

text \<open>The data callback stores and hashes what it is given.\<close>

lemma http_chunks_append:
  assumes cr: "crypt_unit cr stream digest ready"
    and p: "p \<noteq> NULL" "unat p + n \<le> 2 ^ 32" and cnt: "cnt + length (chain_bytes (mem s) ch) < n"
    and ok: "list_all (chunk_ok p n) ch"
  shows "\<exists>s'. http_chunks cr ch (p + of_nat cnt) (of_nat (n - cnt)) s =
      Some (ERR_OK, p + of_nat (cnt + length (chain_bytes (mem s) ch)), s') \<and>
    rdbytes (mem s') p (cnt + length (chain_bytes (mem s) ch)) = rdbytes (mem s) p cnt @ chain_bytes (mem s) ch \<and>
    stream (hw s') = stream (hw s) @ chain_bytes (mem s) ch \<and>
    s' = s\<lparr>mem := mem s', hw := hw s'\<rparr> \<and> (\<forall>x. \<not> in_range x p n \<longrightarrow> mem s' x = mem s x)"
proof -
  let ?q = "p + of_nat cnt" and ?left = "of_nat (n - cnt) :: u32"
  have "unat p \<noteq> 0" using p(1) by (simp add: unat_eq_0)
  then have n: "n < 2 ^ 32" using p(2) by linarith
  have left: "unat ?left = n - cnt" using n by (simp add: unat_of_nat)
  have q: "unat ?q = unat p + cnt" using p(2) cnt by (simp add: unat_word_ariths unat_of_nat)
  then have qn: "?q \<noteq> NULL" using \<open>unat p \<noteq> 0\<close> by (metis add_is_0 unat_0)
  have qroom: "unat ?q + unat ?left \<le> 2 ^ 32" using q left p(2) cnt by simp
  have short: "length (chain_bytes (mem s) ch) < unat ?left" using cnt unfolding left by linarith
  have "list_all (chunk_ok ?q (unat ?left)) ch"
    using ok chunk_ok_sub [of p cnt "n - cnt"] cnt p(2) unfolding left by (auto simp: list_all_iff)
  then obtain s' where s': "http_chunks cr ch ?q ?left s = Some (ERR_OK, ?q + of_nat (length (chain_bytes (mem s) ch)), s')"
    "rdbytes (mem s') ?q (length (chain_bytes (mem s) ch)) = chain_bytes (mem s) ch"
    "stream (hw s') = stream (hw s) @ chain_bytes (mem s) ch"
    using http_chunks_fit [OF cr _ qn qroom short] by auto
  have "rdbytes (mem s') p cnt = rdbytes (mem s) p cnt"
  proof (rule rdbytes_cong)
    fix i
    assume i: "i < cnt"
    have "unat (p + of_nat i - ?q) = 2 ^ 32 - (cnt - i)"
      using i n cnt by (simp add: unat_sub_if' unat_of_nat)
    then have "\<not> in_range (p + of_nat i) ?q (unat ?left)" using left n i cnt by (simp add: in_range_def)
    then show "mem s' (p + of_nat i) = mem s (p + of_nat i)"
      using http_chunks_bounds [OF s'(1) qn qroom] by simp
  qed
  moreover have "mem s' x = mem s x" if "\<not> in_range x p n" for x
  proof -
    have "\<not> in_range x ?q (unat ?left)"
      using that in_range_sub [of x p cnt "n - cnt"] cnt p(2) unfolding left by auto
    then show ?thesis using http_chunks_bounds [OF s'(1) qn qroom] by simp
  qed
  ultimately show ?thesis
    using s' http_chunks_bounds [OF s'(1) qn qroom] by (simp add: rdbytes_add add.assoc)
qed

lemma data_callback_run:
  assumes cr: "crypt_unit cr stream digest ready" and p: "p \<noteq> NULL" "unat p + n \<le> 2 ^ 32"
    and inv: "dl_inv p n stream digest good True data c s" and ok: "list_all (chunk_ok p n) (pb_chain pb)"
    and fits: "length data + length (chain_bytes (mem s) (pb_chain pb)) < n"
  shows "\<exists>c' m w. let s' = s\<lparr>mem := m, hw := w\<rparr> in
    on_data (http_handlers cr lw) (Some pb) ERR_OK c s = Some (ERR_OK, c', lw_pbuf_free lw pb (altcp_recved lw (tot_len pb) s')) \<and>
    dl_inv p n stream digest good True (data @ chain_bytes (mem s) (pb_chain pb)) c' s' \<and>
    (\<forall>x. \<not> in_range x p n \<longrightarrow> m x = mem s x)"
proof -
  let ?d = "data @ chain_bytes (mem s) (pb_chain pb)"
  let ?k = "length data + length (chain_bytes (mem s) (pb_chain pb))"
  have c: "dl_loading p n stream data c s" using inv by (simp add: dl_inv_def)
  then have left: "pucEnd c - pucCnt c = of_nat (n - length data)" by (simp add: dl_loading_def of_nat_diff)
  obtain s1 where s1: "http_chunks cr (pb_chain pb) (p + of_nat (length data)) (of_nat (n - length data)) s =
      Some (ERR_OK, p + of_nat ?k, s1)"
    "rdbytes (mem s1) p ?k = rdbytes (mem s) p (length data) @ chain_bytes (mem s) (pb_chain pb)"
    "stream (hw s1) = stream (hw s) @ chain_bytes (mem s) (pb_chain pb)"
    "s1 = s\<lparr>mem := mem s1, hw := hw s1\<rparr>" "\<forall>x. \<not> in_range x p n \<longrightarrow> mem s1 x = mem s x"
    using http_chunks_append [OF cr p fits ok] by blast
  let ?c = "c\<lparr>pucCnt := p + of_nat ?k\<rparr>"
  have "on_data (http_handlers cr lw) (Some pb) ERR_OK c s = Some (ERR_OK, ?c, lw_pbuf_free lw pb (altcp_recved lw (tot_len pb) s1))"
    using c s1(1) by (simp add: http_handlers_def httpDownloadDataCallback_def left) (simp add: dl_loading_def)
  moreover have "dl_inv p n stream digest good True ?d ?c s1"
    using c s1(2,3) fits by (simp add: dl_inv_def dl_loading_def)
  ultimately show ?thesis using s1(4,5)
    by (intro exI [of _ ?c] exI [of _ "mem s1"] exI [of _ "hw s1"]) (simp add: Let_def)
qed

lemma data_callback_inv:
  assumes cr: "crypt_unit cr stream digest ready" and lw: "lwip_download_ok lw p n stream res rx L ok okp"
    and p: "p \<noteq> NULL" "unat p + n \<le> 2 ^ 32"
    and at: "dl_at p n stream digest None data c s" and ok: "list_all (chunk_ok p n) (pb_chain pb)"
    and fits: "length data + length (chain_bytes (mem s) (pb_chain pb)) < n"
  shows "\<exists>c' s'. on_data (http_handlers cr lw) (Some pb) ERR_OK c s = Some (ERR_OK, c', s') \<and>
    dl_at p n stream digest None (data @ chain_bytes (mem s) (pb_chain pb)) c' s' \<and> dl_after lw p n pb s s'"
proof -
  let ?d = "data @ chain_bytes (mem s) (pb_chain pb)"
  obtain c' m w where cb: "on_data (http_handlers cr lw) (Some pb) ERR_OK c s =
        Some (ERR_OK, c', lw_pbuf_free lw pb (altcp_recved lw (tot_len pb) (s\<lparr>mem := m, hw := w\<rparr>)))"
      "dl_at p n stream digest None ?d c' (s\<lparr>mem := m, hw := w\<rparr>)" "\<forall>x. \<not> in_range x p n \<longrightarrow> m x = mem s x"
    using data_callback_run [OF cr p _ ok fits, where good = "\<lambda>_. True" and c = c and lw = lw] at by (auto simp: Let_def dl_at_def)
  let ?s2 = "altcp_recved lw (tot_len pb) (s\<lparr>mem := m, hw := w\<rparr>)"
  have "dl_keeps p n stream (s\<lparr>mem := m, hw := w\<rparr>) ?s2" "dl_keeps p n stream ?s2 (lw_pbuf_free lw pb ?s2)"
    using lw by (simp_all add: lwip_download_ok_def)
  then have "dl_at p n stream digest None ?d c' (lw_pbuf_free lw pb ?s2)" using dl_keeps_at [OF cb(2)] dl_keeps_at by blast
  moreover have "dl_after lw p n pb s (lw_pbuf_free lw pb ?s2)" unfolding dl_after_def using cb(3) by blast
  ultimately show ?thesis using cb(1) by blast
qed

lemma result_callback_inv:
  assumes cr: "crypt_unit cr stream digest ready" and n: "n \<le> 2 ^ 32"
    and inv: "dl_inv p n stream digest good True data c s"
    and rx: "httpc_result = HTTPC_RESULT_OK \<longrightarrow> rx_len = of_nat (length data)"
    and good: "httpc_result = HTTPC_RESULT_OK \<longrightarrow> srv_res = 200 \<longrightarrow> err = ERR_OK \<longrightarrow> good data"
  shows "\<exists>c' w. on_result (http_handlers cr lw) httpc_result rx_len srv_res err c s = Some (c', s\<lparr>hw := w\<rparr>) \<and>
    dl_inv p n stream digest good False data c' (s\<lparr>hw := w\<rparr>) \<and>
    tHttpcResult c' = httpc_result \<and> ulServerResponse c' = srv_res \<and> http_tResult c' = err"
proof -
  have c: "dl_loading p n stream data c s" using inv by (simp add: dl_inv_def)
  show ?thesis
  proof (cases "httpc_result = HTTPC_RESULT_OK \<and> srv_res = 200 \<and> err = ERR_OK")
    case True
    have len: "unat rx_len = length data" using True rx c n by (simp add: unat_of_nat dl_loading_def)
    then have "length (stream (hw s)) = unat rx_len" using c by (simp add: dl_loading_def)
    then obtain w where w: "sha384_finalize_byte cr (Some (http_tHash c)) rx_len (hw s) =
        Some (Some (hash_bytes (digest (data @ fips_padding (length data)))), w)"
      using sha384_finalize_byte_hash [OF cr, of "hw s" rx_len "http_tHash c"] c len by (auto simp: dl_loading_def)
    then show ?thesis using c True good
      by (simp add: http_handlers_def httpDownloadResultCallback_def dl_inv_def dl_done_def dl_loading_def dl_success_def)
        (intro exI [of _ w], simp)
  next
    case False
    let ?c = "c\<lparr>fIsFinished := 1, tHttpcResult := httpc_result, ulServerResponse := srv_res, http_tResult := err\<rparr>"
    have "on_result (http_handlers cr lw) httpc_result rx_len srv_res err c s = Some (?c, s\<lparr>hw := hw s\<rparr>)"
      using c False by (auto simp: http_handlers_def httpDownloadResultCallback_def dl_loading_def)
    moreover have "dl_inv p n stream digest good False data ?c (s\<lparr>hw := hw s\<rparr>)"
      using c False by (auto simp: dl_inv_def dl_done_def dl_loading_def dl_success_def)
    ultimately show ?thesis by (intro exI [of _ ?c] exI [of _ "hw s"]) simp
  qed
qed

lemma dl_run_exec:
  assumes cr: "crypt_unit cr stream digest ready" and lw: "lwip_download_ok lw p n stream res rx L ok okp"
    and long: "\<And>pb. L pb \<Longrightarrow> list_all chunk_long (pb_chain pb)"
    and p: "p \<noteq> NULL" "unat p + n \<le> 2 ^ 32"
  shows "dl_run lw p n stream res rx L Q act data s t \<Longrightarrow> dl_at p n stream digest act data c s \<Longrightarrow>
    \<exists>r c' s'. exec (http_handlers cr lw) t c = Some (r, c', s') \<and> Q r s' \<and>
      dl_at p n stream digest (res s') (rx s') c' s'"
proof (induction arbitrary: c rule: dl_run.induct)
  case (dl_Ret s s' r act data)
  then show ?case using dl_keeps_at by auto
next
  case (dl_Data s s' pb data k)
  have ok: "list_all (chunk_ok p n) (pb_chain pb)"
    using long [OF dl_Data.hyps(2)] dl_Data.hyps(3) by (simp add: list_all_iff chunk_ok_iff)
  from data_callback_inv [OF cr lw p dl_keeps_at [OF dl_Data.prems dl_Data.hyps(1)] ok dl_Data.hyps(4)]
  obtain c' s'' where d: "on_data (http_handlers cr lw) (Some pb) ERR_OK c s' = Some (ERR_OK, c', s'')"
    and inv: "dl_at p n stream digest None (data @ chain_bytes (mem s') (pb_chain pb)) c' s''"
    and t: "dl_after lw p n pb s' s''" by blast
  from dl_Data.IH [OF t inv, of ERR_OK] show ?case by (simp add: d)
next
  case (dl_Closed s s' act data k err)
  have "on_data (http_handlers cr lw) None err c s' = Some (ERR_OK, c, s')"
    by (simp add: http_handlers_def httpDownloadDataCallback_def)
  then show ?case using dl_Closed.IH [OF dl_keeps_at [OF dl_Closed.prems dl_Closed.hyps(1)], of ERR_OK] by simp
next
  case (dl_Result s s' hres rx_len data srv_res err k)
  have "n \<le> 2 ^ 32" using p(2) by simp
  have "dl_inv p n stream digest (\<lambda>_. True) True data c s'"
    using dl_keeps_at [OF dl_Result.prems dl_Result.hyps(1)] by (simp add: dl_at_def)
  from result_callback_inv [OF cr \<open>n \<le> 2 ^ 32\<close> this dl_Result.hyps(2), of srv_res err lw]
  obtain c' w where d: "on_result (http_handlers cr lw) hres rx_len srv_res err c s' = Some (c', s'\<lparr>hw := w\<rparr>)"
    and inv: "dl_at p n stream digest (Some (hres, srv_res, err)) data c' (s'\<lparr>hw := w\<rparr>)" by (auto simp: dl_at_def)
  from dl_Result.IH [OF inv] show ?case by (simp add: d)
next
  case (dl_Connected s s' act data k err)
  have "on_connected (http_handlers cr lw) err c s' = Some (err, c, s')" by (simp add: http_handlers_def)
  then show ?case using dl_Connected.IH [OF dl_keeps_at [OF dl_Connected.prems dl_Connected.hyps(1)], of err] by simp
next
  case (dl_Sent s s' act data k len)
  have "on_sent (http_handlers cr lw) len c s' = Some (ERR_OK, c, s')" by (simp add: http_handlers_def)
  then show ?case using dl_Sent.IH [OF dl_keeps_at [OF dl_Sent.prems dl_Sent.hyps(1)], of ERR_OK] by simp
qed

lemma dl_quiet_inv:
  assumes "dl_at p n stream digest (res s) (rx s) c s" and "dl_quiet p n stream res rx ok ok' f" and "ok s"
  shows "dl_at p n stream digest (res (f s)) (rx (f s)) c (f s) \<and> ok' (f s)"
  using dl_keeps_at [OF assms(1), of "f s"] assms(2,3) by (simp add: dl_quiet_def)

lemma network_receive_inv:
  assumes cr: "crypt_unit cr stream digest ready" and lw: "lwip_download_ok lw p n stream res rx L ok okp"
    and long: "\<And>pb. L pb \<Longrightarrow> list_all chunk_long (pb_chain pb)"
    and p: "p \<noteq> NULL" "unat p + n \<le> 2 ^ 32" and inv: "dl_at p n stream digest (res s) (rx s) c s" and ok: "ok s"
  shows "\<exists>c' s'. network_receive lw (http_handlers cr lw) nif sizFrame c s = Some (c', s') \<and>
    dl_at p n stream digest (res s') (rx s') c' s' \<and> ok s'"
proof -
  obtain q k d where g: "pfnGetReceivedPacket nif sizFrame (drv s) = (q, k, d)" by (metis prod_cases3)
  have dq: "dl_quiet p n stream res rx ok ok (\<lambda>s. s\<lparr>drv := d\<rparr>)"
    "dl_quiet p n stream res rx (okp pb) (okp pb) (\<lambda>s. s\<lparr>drv := d\<rparr>)" for d pb
    using lw by (simp_all add: lwip_download_ok_def)
  let ?s1 = "s\<lparr>drv := d\<rparr>"
  have i1: "dl_at p n stream digest (res ?s1) (rx ?s1) c ?s1" "ok ?s1" using dl_quiet_inv [OF inv dq(1) ok] by simp_all
  obtain pb s2 where al: "lw_pbuf_alloc lw (ucast k) ?s1 = (pb, s2)" by force
  have "dl_quiet p n stream res rx ok (\<lambda>_. True) (\<lambda>s. snd (lw_pbuf_alloc lw (ucast k) s))"
    using lw by (simp add: lwip_download_ok_def)
  from dl_quiet_inv [OF i1(1) this i1(2)] have i2: "dl_at p n stream digest (res s2) (rx s2) c s2" by (simp add: al)
  have "case lw_pbuf_alloc lw (ucast k) ?s1 of (None, s') \<Rightarrow> ok s' | (Some pb, s') \<Rightarrow> okp pb s'"
    using lw i1(2) by (simp only: lwip_download_ok_def)
  then have o2: "case pb of None \<Rightarrow> ok s2 | Some pb \<Rightarrow> okp pb s2" by (simp add: al)
  show ?thesis
  proof (cases "q = NULL")
    case True
    then show ?thesis using g i1 by (simp add: network_receive_def)
  next
    case q: False
    show ?thesis
    proof (cases pb)
      case None
      then have "ok s2" using o2 by simp
      then show ?thesis using g q al None dl_quiet_inv [OF i2 dq(1)] by (simp add: network_receive_def)
    next
      case (Some b)
      let ?s3 = "lw_pbuf_take lw b q (ucast k) s2"
      let ?s4 = "?s3\<lparr>drv := pfnReleasePacket nif q (drv ?s3)\<rparr>"
      have b2: "okp b s2" using o2 Some by simp
      have "dl_quiet p n stream res rx (okp b) (okp b) (lw_pbuf_take lw b q (ucast k))"
        using lw by (simp add: lwip_download_ok_def)
      from dl_quiet_inv [OF i2 this b2]
      have i3: "dl_at p n stream digest (res ?s3) (rx ?s3) c ?s3" "okp b ?s3" by simp_all
      from dl_quiet_inv [OF i3(1) dq(2) i3(2)]
      have i4: "dl_at p n stream digest (res ?s4) (rx ?s4) c ?s4 \<and> okp b ?s4" by simp
      then have "dl_run lw p n stream res rx L (\<lambda>e s'. if e = ERR_OK then ok s' else okp b s')
          (res ?s4) (rx ?s4) ?s4 (netif_input lw b ?s4)"
        using lw unfolding lwip_download_ok_def by blast
      from dl_run_exec [OF cr lw long p this] i4 obtain r c' s5
        where e: "exec (http_handlers cr lw) (netif_input lw b ?s4) c = Some (r, c', s5)"
          and o5: "if r = ERR_OK then ok s5 else okp b s5"
          and i5: "dl_at p n stream digest (res s5) (rx s5) c' s5" by blast
      have "dl_quiet p n stream res rx (okp b) ok (lw_pbuf_free lw b)" using lw by (simp add: lwip_download_ok_def)
      from dl_quiet_inv [OF i5 this] o5
      have "r \<noteq> ERR_OK \<longrightarrow> (let s' = lw_pbuf_free lw b s5 in dl_at p n stream digest (res s') (rx s') c' s' \<and> ok s')"
        by (simp add: Let_def)
      then show ?thesis using g q al Some e i5 o5 by (simp add: network_receive_def Let_def)
    qed
  qed
qed

lemma network_cyclic_process_inv:
  assumes cr: "crypt_unit cr stream digest ready" and lw: "lwip_download_ok lw p n stream res rx L ok okp"
    and long: "\<And>pb. L pb \<Longrightarrow> list_all chunk_long (pb_chain pb)"
    and p: "p \<noteq> NULL" "unat p + n \<le> 2 ^ 32" and inv: "dl_at p n stream digest (res s) (rx s) c s" and ok: "ok s"
  shows "\<exists>c' s'. network_cyclic_process lw (http_handlers cr lw) sizFrame c s = Some (c', s') \<and>
    dl_at p n stream digest (res s') (rx s') c' s' \<and> ok s'"
proof (cases "ptNetworkIf (tNetworkDeviceState s)")
  case None
  then show ?thesis using inv ok by (simp add: network_cyclic_process_def)
next
  case (Some nif)
  obtain l d where g: "pfnGetLinkStatus nif (drv s) = (l, d)" by force
  let ?s1 = "s\<lparr>drv := d\<rparr>"
  have "dl_quiet p n stream res rx ok ok (\<lambda>s. s\<lparr>drv := d\<rparr>)" using lw by (simp add: lwip_download_ok_def)
  from dl_quiet_inv [OF inv this ok] have i1: "dl_at p n stream digest (res ?s1) (rx ?s1) c ?s1" "ok ?s1" by simp_all
  have "dl_quiet p n stream res rx ok ok (netif_set_link_down lw)" using lw by (simp add: lwip_download_ok_def)
  from dl_quiet_inv [OF i1(1) this i1(2)] network_receive_inv [OF cr lw long p i1, of nif sizFrame]
  obtain c' s2 where s2: "(if l = 0 then Some (c, netif_set_link_down lw ?s1)
      else network_receive lw (http_handlers cr lw) nif sizFrame c ?s1) = Some (c', s2)"
    and i2: "dl_at p n stream digest (res s2) (rx s2) c' s2" "ok s2" by (cases "l = 0") auto
  have "dl_run lw p n stream res rx L (\<lambda>_. ok) (res s2) (rx s2) s2 (sys_check_timeouts lw s2)"
    using lw i2(2) unfolding lwip_download_ok_def by blast
  from dl_run_exec [OF cr lw long p this i2(1)] show ?thesis
    using Some g s2 by (auto simp: network_cyclic_process_def Let_def)
qed

text \<open>The cycles of a download.\<close>

primrec dl_cycles ::
    "'e crypt \<Rightarrow> ('e, 'd, 'l) sys lwip \<Rightarrow> u32 \<Rightarrow> nat \<Rightarrow> ('e, 'd, 'l) sys HTTP_DOWNLOAD_STATE_T \<Rightarrow> ('e, 'd, 'l) sys \<Rightarrow>
      (('e, 'd, 'l) sys HTTP_DOWNLOAD_STATE_T \<times> ('e, 'd, 'l) sys) option" where
  "dl_cycles cr lw sizFrame 0 c s = Some (c, s)"
| "dl_cycles cr lw sizFrame (Suc k) c s =
     (case network_cyclic_process lw (http_handlers cr lw) sizFrame c s of
        None \<Rightarrow> None | Some (c, s) \<Rightarrow> dl_cycles cr lw sizFrame k c s)"

lemma http_wait_done:
  assumes cr: "crypt_unit cr stream digest ready" and lw: "lwip_download_ok lw p n stream res rx L ok okp"
    and long: "\<And>pb. L pb \<Longrightarrow> list_all chunk_long (pb_chain pb)"
    and p: "p \<noteq> NULL" "unat p + n \<le> 2 ^ 32"
  shows "dl_at p n stream digest (res s) (rx s) c s \<Longrightarrow> ok s \<Longrightarrow>
    (\<forall>c' s'. dl_cycles cr lw sizFrame k c s = Some (c', s') \<longrightarrow> res s' \<noteq> None) \<Longrightarrow>
    \<exists>c' s'. http_wait cr lw sizFrame c s = Some (c', s') \<and> dl_at p n stream digest (res s') (rx s') c' s' \<and> res s' \<noteq> None \<and> ok s'"
proof (induction k arbitrary: c s)
  case 0
  then have "fIsFinished c = 1" by (auto simp: dl_at_def dl_inv_def dl_done_def)
  then show ?case using 0 by (subst http_wait.simps) auto
next
  case (Suc k)
  show ?case
  proof (cases "res s = None")
    case False
    then have "fIsFinished c = 1" using Suc.prems(1) by (auto simp: dl_at_def dl_inv_def dl_done_def)
    then show ?thesis using Suc.prems(1,2) False by (subst http_wait.simps) auto
  next
    case True
    obtain c1 s1 where c1: "network_cyclic_process lw (http_handlers cr lw) sizFrame c s = Some (c1, s1)"
      and i1: "dl_at p n stream digest (res s1) (rx s1) c1 s1" "ok s1"
      using network_cyclic_process_inv [OF cr lw long p Suc.prems(1,2)] by blast
    have "fIsFinished c = 0" using Suc.prems(1) True by (simp add: dl_at_def dl_inv_def dl_loading_def)
    moreover have "\<exists>c' s'. http_wait cr lw sizFrame c1 s1 = Some (c', s') \<and>
        dl_at p n stream digest (res s') (rx s') c' s' \<and> res s' \<noteq> None \<and> ok s'"
      using Suc.prems(3) c1 by (intro Suc.IH [OF i1]) simp
    ultimately show ?thesis using c1 by (subst http_wait.simps) simp
  qed
qed

text \<open>The whole download. \<open>?s0\<close> in the proof is the state in which the request is started.\<close>

lemma httpDownload_data:
  assumes cr: "crypt_unit cr stream digest ready"
    and lw: "lwip_download_ok lw p (unat n) stream res rx L ok okp"
    and long: "\<And>pb. L pb \<Longrightarrow> list_all chunk_long (pb_chain pb)"
    and p: "p \<noteq> NULL" "unat p + unat n \<le> 2 ^ 32" "n \<noteq> 0"
    and tm: "dl_quiet p (unat n) stream res rx ok ok (\<lambda>s. snd (systime_get_ms tm s))"
    and s0: "s0 = snd (systime_get_ms tm (s\<lparr>hw := sha384_initialize cr (hw s)\<rparr>))" "stream (hw s0) = []"
    and get: "lw_httpc_get_file lw server 80 uri s0 = (ERR_OK, s1)"
    and s1: "dl_keeps p (unat n) stream s0 s1" "ok s1" "res s1 = None" "rx s1 = []"
    and finishes: "\<forall>c c' s'. dl_cycles cr lw sizFrame k c s1 = Some (c', s') \<longrightarrow> res s' \<noteq> None"
  shows "\<exists>r size hash s'. httpDownload cr lw tm sizFrame server uri p n (Some size0) (Some hash0) s =
      Some (r, Some size, Some hash, s') \<and> ok s' \<and>
    res s' \<noteq> None \<and> (r = 0 \<longleftrightarrow> res s' = Some (HTTPC_RESULT_OK, 200, ERR_OK)) \<and>
    (if r = 0 then unat size = length (rx s') \<and> size < n \<and> rdbytes (mem s') p (unat size) = rx s' \<and>
       hash = hash_bytes (digest (rx s' @ fips_padding (length (rx s'))))
     else r = -1 \<and> size = size0 \<and> hash = hash0)"
proof -
  let ?st = "\<lparr>pucStart = p, pucCnt = p, pucEnd = p + n, http_tHash = replicate 48 0, pfnResult = None,
    fIsFinished = 0, tHttpcResult = 0, ulServerResponse = 0, http_tResult = 0\<rparr>"
  have "stream (hw s1) = []" using s1(1) s0(2) by (simp add: dl_keeps_def)
  then have "dl_at p (unat n) stream digest (res s1) (rx s1) ?st s1"
    using s1 p(3) by (simp add: dl_at_def dl_inv_def dl_loading_def unat_gt_0)
  from http_wait_done [OF cr lw long p(1,2) this s1(2), of sizFrame k] finishes
  obtain c s2 where w: "http_wait cr lw sizFrame ?st s1 = Some (c, s2)"
    and d: "dl_at p (unat n) stream digest (res s2) (rx s2) c s2" "res s2 \<noteq> None" "ok s2" by auto
  let ?s3 = "snd (systime_get_ms tm s2)"
  have rx: "rx ?s3 = rx s2" "res ?s3 = res s2" and o3: "ok ?s3"
    and d3: "dl_done p (unat n) digest (\<lambda>_. True) (rx s2) c ?s3"
      "res s2 = Some (tHttpcResult c, ulServerResponse c, http_tResult c)"
    using dl_keeps_at [OF d(1), of ?s3] d(2,3) tm by (auto simp: dl_quiet_def dl_at_def dl_inv_def)
  have size: "unat (pucCnt c - pucStart c) = length (rx s2)" "length (rx s2) < unat n"
    using d3(1) by (auto simp: dl_done_def unat_of_nat order_less_trans [OF _ unat_u32_less])
  then have "pucCnt c - pucStart c < n" by (simp add: word_less_nat_alt)
  then show ?thesis
    using w get s0(1) d3 size rx o3 by (auto simp: httpDownload_def Let_def dl_done_def dl_success_def)
qed

subsection \<open>Properties\<close>

text \<open>The small lwIP of the witnesses keeps the contract.\<close>

definition demo_res :: "demo_sys \<Rightarrow> dl_result option" where
  "demo_res s = (if demo_active s then None else Some (HTTPC_RESULT_OK, 200, ERR_OK))"

definition demo_ok :: "demo_sys \<Rightarrow> bool" where
  "demo_ok s \<longleftrightarrow> length (demo_rx s) = (if demo_active s then 0 else 8)"

lemma demo_res_simps [simp]:
  "demo_res (s\<lparr>hw := w\<rparr>) = demo_res s" "demo_res (s\<lparr>drv := d\<rparr>) = demo_res s"
  "demo_res (s\<lparr>lwst := (b, bs)\<rparr>) = (if b then None else Some (HTTPC_RESULT_OK, 200, ERR_OK))"
  by (simp_all add: demo_res_def)

lemma demo_lwip_ok:
  assumes c: "chunk_outside p n (0x1000, 8)" and n: "8 < n"
  shows "lwip_download_ok demo_lwip p n (\<lambda>w. w) demo_res demo_rx (\<lambda>pb. pb = demo_pbuf) demo_ok (\<lambda>_. demo_ok)"
proof -
  let ?run = "dl_run demo_lwip p n (\<lambda>w. w) demo_res demo_rx (\<lambda>pb. pb = demo_pbuf) (\<lambda>_. demo_ok)"
  have "?run (demo_res s) (demo_rx s) s (sys_check_timeouts demo_lwip s)" if ok: "demo_ok s" for s
  proof (cases "demo_active s \<and> demo_rx s = []")
    case True
    define bs where "bs = rdbytes (mem s) 0x1000 8"
    have kept: "rdbytes m 0x1000 8 = bs" if "\<forall>x. \<not> in_range x p n \<longrightarrow> m x = mem s x" for m
      unfolding bs_def using c that
      by (intro rdbytes_cong) (auto simp: chunk_outside_def ranges_disjoint_def)
    have r: "?run None bs t (HttpResult 0 8 200 ERR_OK t (\<lambda>u. Ret () (u\<lparr>lwst := (False, rdbytes (mem u) 0x1000 8)\<rparr>)))"
      if t: "dl_after demo_lwip p n demo_pbuf s t" for t
    proof (rule dl_Result)
      have m: "rdbytes (mem t) 0x1000 8 = bs"
        using t kept by (auto simp: dl_after_def demo_lwip_def)
      then show "?run (Some (0, 200, ERR_OK)) bs (t\<lparr>hw := w\<rparr>)
          (Ret () ((t\<lparr>hw := w\<rparr>)\<lparr>lwst := (False, rdbytes (mem (t\<lparr>hw := w\<rparr>)) 0x1000 8)\<rparr>))" for w
        by (intro dl_Ret) (simp_all add: dl_keeps_def demo_ok_def bs_def HTTPC_RESULT_OK_def)
    qed (simp_all add: dl_keeps_def bs_def)
    have ch: "chain_bytes (mem s) (pb_chain demo_pbuf) = bs" by (simp add: demo_pbuf_def bs_def)
    have "?run None [] s (HttpData (Some demo_pbuf) ERR_OK s
        (\<lambda>e t. HttpResult 0 8 200 ERR_OK t (\<lambda>u. Ret () (u\<lparr>lwst := (False, rdbytes (mem u) 0x1000 8)\<rparr>))))"
      using r by (intro dl_Data) (simp_all add: ch dl_keeps_def, simp_all add: demo_pbuf_def bs_def c n)
    then show ?thesis using True by (simp add: demo_lwip_def demo_res_def)
  next
    case False
    then show ?thesis using ok by (auto simp: demo_lwip_def intro!: dl_Ret simp: dl_keeps_def)
  qed
  then show ?thesis
    by (simp add: lwip_download_ok_def) (simp add: demo_lwip_def demo_ok_def dl_quiet_def dl_keeps_def dl_Ret)
qed

lemma demo_long: "pb = demo_pbuf \<Longrightarrow> list_all chunk_long (pb_chain pb)"
  by (simp add: demo_pbuf_def chunk_long_def align_dist_def)

lemma demo_cycle_done:
  assumes "dl_cycles demo_crypt demo_lwip k 1 c s = Some (c', s')"
    and "demo_active s" "demo_rx s = []" "drv s = two_empty"
    and "ptNetworkIf (tNetworkDeviceState s) = Some (tNetworkIfXc list_regs)"
  shows "demo_res s' \<noteq> None"
  using assms
  by (auto simp: network_cyclic_process_def network_receive_def demo_driver Let_def demo_lwip_def demo_res_def
      split: option.splits prod.splits)

text \<open>(C5) A finished download, for a body smaller than the buffer whose packet buffers reach the next aligned
  address: when lwIP reports the end of the request within some number of cycles, \<open>httpDownload\<close>
  returns. It returns 0 exactly when the reported result is a success with the status 200; then the buffer holds exactly the
  bytes that lwIP has delivered, the reported size is their number and is smaller than the buffer, and the hash is
  the SHA384 of these bytes (the digest of the data with the padding of FIPS 180-4). Otherwise it returns -1 and size
  and hash are unchanged.\<close>

theorem httpDownload_correct:
  assumes cr: "crypt_unit cr stream digest ready"
    and lw: "lwip_download_ok lw p (unat n) stream res rx L ok okp"
    and long: "\<And>pb. L pb \<Longrightarrow> list_all chunk_long (pb_chain pb)"
    and p: "p \<noteq> NULL" "unat p + unat n \<le> 2 ^ 32" "n \<noteq> 0"
    and tm: "dl_quiet p (unat n) stream res rx ok ok (\<lambda>s. snd (systime_get_ms tm s))"
    and s0: "s0 = snd (systime_get_ms tm (s\<lparr>hw := sha384_initialize cr (hw s)\<rparr>))" "stream (hw s0) = []"
    and get: "lw_httpc_get_file lw server 80 uri s0 = (ERR_OK, s1)"
    and s1: "dl_keeps p (unat n) stream s0 s1" "ok s1" "res s1 = None" "rx s1 = []"
    and finishes: "\<forall>c c' s'. dl_cycles cr lw sizFrame k c s1 = Some (c', s') \<longrightarrow> res s' \<noteq> None"
  shows "\<exists>r size hash s'. httpDownload cr lw tm sizFrame server uri p n (Some size0) (Some hash0) s =
      Some (r, Some size, Some hash, s') \<and> ok s' \<and>
    res s' \<noteq> None \<and> (r = 0 \<longleftrightarrow> res s' = Some (HTTPC_RESULT_OK, 200, ERR_OK)) \<and>
    (if r = 0 then unat size = length (rx s') \<and> size < n \<and> rdbytes (mem s') p (unat size) = rx s' \<and>
       hash = hash_bytes (digest (rx s' @ fips_padding (length (rx s'))))
     else r = -1 \<and> size = size0 \<and> hash = hash0)"
  using httpDownload_data [OF assms] .

text \<open>(C5) Witness: the demonstration server delivers eight bytes, and the download succeeds.\<close>

theorem httpDownload_correct_witness:
  "\<exists>s'. httpDownload demo_crypt demo_lwip demo_time 0 1 [0x2f] 0x2000 16 (Some 0) (Some []) demo_state =
      Some (0, Some 8, Some (hash_bytes (replicate 12 128)), s') \<and> rdbytes (mem s') 0x2000 8 = demo_rx s'"
proof -
  let ?s1 = "demo_state\<lparr>lwst := (True, [])\<rparr>"
  have "chunk_outside 0x2000 16 (0x1000, 8)" using demo_chunk_ok by (simp add: chunk_ok_iff)
  then have lw: "lwip_download_ok demo_lwip 0x2000 (unat (16 :: u32)) (\<lambda>w. w) demo_res demo_rx (\<lambda>pb. pb = demo_pbuf)
      demo_ok (\<lambda>_. demo_ok)" using demo_lwip_ok [of "0x2000" 16] by simp
  have fin: "\<forall>c c' s'. dl_cycles demo_crypt demo_lwip 0 1 c ?s1 = Some (c', s') \<longrightarrow> demo_res s' \<noteq> None"
    using demo_cycle_done [of 0 _ ?s1] by (simp add: demo_state_def)
  have tm: "dl_quiet 0x2000 (unat (16 :: u32)) (\<lambda>w. w) demo_res demo_rx demo_ok demo_ok
      (\<lambda>s. snd (systime_get_ms demo_time s))"
    by (simp add: dl_quiet_def dl_keeps_def demo_time_def)
  have s0: "demo_state = snd (systime_get_ms demo_time (demo_state\<lparr>hw := sha384_initialize demo_crypt (hw demo_state)\<rparr>))"
    by (simp add: demo_time_def demo_state_def sha384_initialize_def demo_crypt_def)
  have get: "lw_httpc_get_file demo_lwip 1 80 [0x2f] demo_state = (ERR_OK, ?s1)"
    by (simp add: demo_lwip_def)
  have keeps: "dl_keeps 0x2000 (unat (16 :: u32)) (\<lambda>w. w) demo_state ?s1" by (simp add: dl_keeps_def)
  have e: "(\<lambda>w. w) (hw demo_state) = []" "demo_ok ?s1" by (simp_all add: demo_state_def demo_ok_def)
  obtain r size hash s' where h: "httpDownload demo_crypt demo_lwip demo_time 0 1 [0x2f] 0x2000 16 (Some 0) (Some []) demo_state =
      Some (r, Some size, Some hash, s')" "demo_ok s'" "demo_res s' \<noteq> None"
    "r = 0 \<longleftrightarrow> demo_res s' = Some (HTTPC_RESULT_OK, 200, ERR_OK)"
    "if r = 0 then unat size = length (demo_rx s') \<and> size < 16 \<and> rdbytes (mem s') 0x2000 (unat size) = demo_rx s' \<and>
       hash = hash_bytes (replicate 12 (of_nat (length (demo_rx s' @ fips_padding (length (demo_rx s'))))))
     else r = -1 \<and> size = 0 \<and> hash = []"
    using httpDownload_correct [OF demo_crypt_unit lw demo_long _ _ _ tm s0 e(1) get keeps e(2) _ _ fin, of 0 "[]"] by auto
  have r: "r = 0" "length (demo_rx s') = 8" using h(2-4) by (simp_all add: demo_res_def demo_ok_def split: if_splits)
  then have "unat size = 8" "rdbytes (mem s') 0x2000 8 = demo_rx s'" "hash = hash_bytes (replicate 12 128)"
    using h(5) by (auto simp: fips_padding_def be128_def)
  moreover from this(1) have "size = 8" by (simp add: word_unat_eq_iff)
  ultimately show ?thesis using h(1) r(1) by blast
qed

lemma http_wait_no_interface:
  assumes ret: "http_wait cr lw k c s = Some r" and c: "fIsFinished c = 0"
    and s: "ptNetworkIf (tNetworkDeviceState s) = None"
  shows False
proof -
  have "fIsFinished c = 0 \<longrightarrow> ptNetworkIf (tNetworkDeviceState s) \<noteq> None"
    apply (rule http_wait.raw_induct [where P = "\<lambda>cr lw k c s r. fIsFinished c = 0 \<longrightarrow>
          ptNetworkIf (tNetworkDeviceState s) \<noteq> None", OF _ ret])
    subgoal premises prems for f cr lw k c s r
    proof (intro impI notI)
      assume c: "fIsFinished c = 0" and s: "ptNetworkIf (tNetworkDeviceState s) = None"
      have "f cr lw k c s = Some r" using prems(2) c s by (simp add: network_cyclic_process_def)
      from prems(1) [OF this] show False using c s by simp
    qed
    done
  then show False using c s by simp
qed

text \<open>Without an interface a download does not return: the cyclic processing does nothing, and
  \<open>httpDownload\<close> waits for the end of the request forever. \<open>flashapp_main\<close> does not look at the result of
  \<open>setupNetwork\<close>.\<close>

theorem httpDownload_without_interface:
  assumes "lw_httpc_get_file lw server 80 uri (snd (systime_get_ms tm (s\<lparr>hw := sha384_initialize cr (hw s)\<rparr>))) = (ERR_OK, s1)"
    and "ptNetworkIf (tNetworkDeviceState s1) = None"
  shows "httpDownload cr lw tm k server uri p n psiz ptHash s = None"
proof -
  have "http_wait cr lw k c s1 = None" if "fIsFinished c = 0" for c
    using http_wait_no_interface [of cr lw k c s1] that assms(2) by (cases "http_wait cr lw k c s1") auto
  then show ?thesis using assms(1) by (simp add: httpDownload_def Let_def)
qed

text \<open>Witness: a system after \<open>network_init\<close>.\<close>

theorem httpDownload_without_interface_witness:
  "httpDownload demo_crypt demo_lwip demo_time 0 1 [0x2f] 0x2000 16 (Some 0) None (network_init demo_state) = None"
proof -
  let ?s = "network_init demo_state"
  have "lw_httpc_get_file demo_lwip 1 80 [0x2f] (snd (systime_get_ms demo_time (?s\<lparr>hw := sha384_initialize demo_crypt (hw ?s)\<rparr>))) =
      (ERR_OK, ?s\<lparr>hw := [], lwst := (True, [])\<rparr>)"
    by (simp add: demo_lwip_def demo_time_def sha384_initialize_def demo_crypt_def)
  from httpDownload_without_interface [OF this] show ?thesis by (simp add: network_init_def)
qed

end
