(* ===== verification/Flashapp.thy ===== *)
theory Flashapp
  imports Wfp Info_File Fdl Http_Download
begin

text \<open>
  The application (main.c): it acknowledges the last packet of the ROM loader, reads the flash
  device label, sets up the network, downloads the info file and the data file from the server,
  checks the hash of the data file, flashes it, and reports every step to the server. At the end
  it blinks a code in an endless loop.

  The functions outside of the repository (the ROM code, the MMIO registers, \<open>usnprintf\<close>, the flasher
  library, lwIP, the time library) are the fields of \<open>platform\<close>. \<open>uprintf\<close> and \<open>hexdump\<close> only write to
  the serial line and are left out. The endless loop is represented by the value
  \<open>blink\<close> of the function.
\<close>

subsection \<open>Platform\<close>

datatype fmt_arg = Fmt_Int u32 | Fmt_Str "u8 list"

text \<open>\<open>usnprintf\<close> returns the characters it writes. \<open>stack_info_buffer\<close> is the address of the local array
  of \<open>getDeviceInfo\<close>; \<open>uninit_\<close> fields are values of uninitialised locals.\<close>

record ('e, 'd, 'l, 't, 'i) platform =
  pl_crypt :: "'e crypt"
  pl_crc :: "('e, 'd, 'l) sys crc"
  pl_flasher :: "('i, ('e, 'd, 'l) sys) flasher"
  pl_lwip :: "('e, 'd, 'l) sys lwip"
  pl_time :: "(('e, 'd, 'l) sys, 't) systime"
  pl_xc_init :: "u32 \<Rightarrow> 'd \<Rightarrow> 'd NETWORK_IF_T option \<times> 'd"
  usnprintf :: "nat \<Rightarrow> string \<Rightarrow> fmt_arg list \<Rightarrow> u8 list"
  romTftpSendAck :: "('e, 'd, 'l) sys \<Rightarrow> int \<times> ('e, 'd, 'l) sys"
  rd_asic_ctrl_access_key :: "('e, 'd, 'l) sys \<Rightarrow> u32 \<times> ('e, 'd, 'l) sys"
  wr_asic_ctrl_access_key :: "u32 \<Rightarrow> ('e, 'd, 'l) sys \<Rightarrow> ('e, 'd, 'l) sys"
  wr_mmio_cfg :: "nat \<Rightarrow> u32 \<Rightarrow> ('e, 'd, 'l) sys \<Rightarrow> ('e, 'd, 'l) sys"
  MMIO_CFG_PHY0_LED_PHY_CTRL_ACT :: u32
  MMIO_CFG_PHY0_LED_PHY_CTRL_LNK :: u32
  stack_info_buffer :: ptr
  uninit_sizFrame :: u32
  uninit_timeout :: u32
  uninit_info :: 'i
  uninit_desc :: "'i DEVICE_DESCRIPTION_T"
  uninit_hash :: "u8 list"

text \<open>The part of an array that is a C string.\<close>

definition c_string :: "u8 list \<Rightarrow> u8 list" where
  "c_string bs = takeWhile (\<lambda>c. c \<noteq> 0) bs"

subsection \<open>Steps\<close>

definition ackLastRomcodePacket :: "('e, 'd, 'l, 't, 'i) platform \<Rightarrow> ('e, 'd, 'l) sys \<Rightarrow> int \<times> ('e, 'd, 'l) sys" where
  "ackLastRomcodePacket pl s =
     (let uiCurrentBlockNumber = rd32 (mem s) 0x000225c0 + 1 in
      romTftpSendAck pl (s\<lparr>mem := wr32 (mem s) 0x000225c0 uiCurrentBlockNumber\<rparr>))"

definition setupHardware :: "('e, 'd, 'l, 't, 'i) platform \<Rightarrow> DEVICE_INFO_T \<Rightarrow> ('e, 'd, 'l) sys \<Rightarrow> ('e, 'd, 'l) sys" where
  "setupHardware pl info s =
     (if ulDeviceNr info = 9387000 \<or> ulDeviceNr info = 9387001 then
        let (key, s) = rd_asic_ctrl_access_key pl s;
            s = wr_asic_ctrl_access_key pl key s;
            s = wr_mmio_cfg pl 1 (MMIO_CFG_PHY0_LED_PHY_CTRL_ACT pl) s;
            (key, s) = rd_asic_ctrl_access_key pl s;
            s = wr_asic_ctrl_access_key pl key s in
        wr_mmio_cfg pl 2 (MMIO_CFG_PHY0_LED_PHY_CTRL_LNK pl) s
      else s)"

definition getDeviceInfo ::
    "('e, 'd, 'l, 't, 'i) platform \<Rightarrow> u32 \<Rightarrow> DEVICE_INFO_T \<Rightarrow> ('e, 'd, 'l) sys \<Rightarrow> (int \<times> DEVICE_INFO_T \<times> ('e, 'd, 'l) sys) option" where
  "getDeviceInfo pl ulServer info s =
     (let ulDeviceNumberHi = ulDeviceNr info div 1000;
          ulDeviceNumberLo = ulDeviceNr info - 1000 * ulDeviceNumberHi;
          acUri = usnprintf pl 32 ''/%04d.%03dR%d.txt''
            [Fmt_Int ulDeviceNumberHi, Fmt_Int ulDeviceNumberLo, Fmt_Int (ulHwRev info)];
          buf = stack_info_buffer pl;
          s = s\<lparr>mem := memset (mem s) buf 0 2048\<rparr> in
      case httpDownload (pl_crypt pl) (pl_lwip pl) (pl_time pl) (uninit_sizFrame pl) ulServer acUri buf 2048
          (Some 0) None s of
        None \<Rightarrow> None
      | Some (iResult, uiDownloadSize, _, s) \<Rightarrow>
          if iResult = 0 then
            (case parseInfoFile (rdbytes (mem s) buf (unat (the uiDownloadSize))) info of
               (iResult, info) \<Rightarrow> Some (iResult, info, s))
          else Some (iResult, info, s))"

definition getDataFile ::
    "('e, 'd, 'l, 't, 'i) platform \<Rightarrow> u32 \<Rightarrow> DEVICE_INFO_T \<Rightarrow> ('e, 'd, 'l) sys \<Rightarrow> (int \<times> DEVICE_INFO_T \<times> ('e, 'd, 'l) sys) option" where
  "getDataFile pl ulServer info s =
     (let pucBuffer = 0x40000000; sizBuffer = 0x40000000 in
      case httpDownload (pl_crypt pl) (pl_lwip pl) (pl_time pl) (uninit_sizFrame pl) ulServer
          (c_string (acDataUri info)) pucBuffer sizBuffer (Some 0) (Some (uninit_hash pl)) s of
        None \<Rightarrow> None
      | Some (iResult, uiDownloadSize, tMyHash, s) \<Rightarrow>
          if iResult = 0 then
            if the tMyHash = tHash info then
              Some (0, info\<lparr>pucWfpImage := pucBuffer, sizWfpImage := the uiDownloadSize\<rparr>, s)
            else Some (-1, info, s)
          else Some (iResult, info, s))"

definition send_message ::
    "('e, 'd, 'l, 't, 'i) platform \<Rightarrow> u32 \<Rightarrow> u16 \<Rightarrow> u8 list \<Rightarrow> ('e, 'd, 'l) sys \<Rightarrow> ('e, 'd, 'l) sys option" where
  "send_message pl ulServer usPort msg s =
     map_option snd (sendMessage (pl_lwip pl) (pl_time pl) (uninit_sizFrame pl) (uninit_timeout pl) ulServer usPort msg s)"

definition generateStartMessage ::
    "('e, 'd, 'l, 't, 'i) platform \<Rightarrow> DEVICE_INFO_T \<Rightarrow> u32 \<Rightarrow> u16 \<Rightarrow> string \<Rightarrow> ('e, 'd, 'l) sys \<Rightarrow> ('e, 'd, 'l) sys option" where
  "generateStartMessage pl info ulServer usPort pcId s =
     send_message pl ulServer usPort
       (usnprintf pl 1024 (''%s,%d,%d,%d,%d'' @ [CHR 0x0A]) [Fmt_Str (ascii pcId), Fmt_Int (ulManufacturer info),
          Fmt_Int (ulDeviceNr info), Fmt_Int (ulHwRev info), Fmt_Int (ulSerial info)]) s"

definition generateEndMessage ::
    "('e, 'd, 'l, 't, 'i) platform \<Rightarrow> DEVICE_INFO_T \<Rightarrow> u32 \<Rightarrow> u16 \<Rightarrow> string \<Rightarrow> int \<Rightarrow> string \<Rightarrow> u32 \<Rightarrow> ('e, 'd, 'l) sys \<Rightarrow>
      ('e, 'd, 'l) sys option" where
  "generateEndMessage pl info ulServer usPort pcId iResult pcMessage ulDuration s =
     send_message pl ulServer usPort
       (usnprintf pl 1024 (''%s,%d,%d,%d,%d,%s,%d,%s'' @ [CHR 0x0A]) [Fmt_Str (ascii pcId), Fmt_Int (ulManufacturer info),
          Fmt_Int (ulDeviceNr info), Fmt_Int (ulHwRev info), Fmt_Int (ulSerial info),
          Fmt_Str (ascii (if iResult = 0 then ''true'' else ''false'')), Fmt_Int ulDuration, Fmt_Str (ascii pcMessage)]) s"

definition generateResultMessage ::
    "('e, 'd, 'l, 't, 'i) platform \<Rightarrow> DEVICE_INFO_T \<Rightarrow> u32 \<Rightarrow> u16 \<Rightarrow> int \<Rightarrow> string \<Rightarrow> u32 \<Rightarrow> u32 \<Rightarrow> ('e, 'd, 'l) sys \<Rightarrow>
      ('e, 'd, 'l) sys option" where
  "generateResultMessage pl info ulServer usPort iResult pcMessage ulDurationDownload ulDurationFlash s =
     send_message pl ulServer usPort
       (usnprintf pl 1024 (''RESULT,%d,%d,%d,%d,%s,%s,%d,%d,%s'' @ [CHR 0x0A]) [Fmt_Int (ulManufacturer info),
          Fmt_Int (ulDeviceNr info), Fmt_Int (ulHwRev info), Fmt_Int (ulSerial info),
          Fmt_Str (c_string (acDataUri info)), Fmt_Str (ascii (if iResult = 0 then ''true'' else ''false'')),
          Fmt_Int ulDurationDownload, Fmt_Int ulDurationFlash, Fmt_Str (ascii pcMessage)]) s"

subsection \<open>Main\<close>

text \<open>The blink codes of blinki_codes.h, as mask and state.\<close>

definition BLINKI_ROM_ACK_FAILED :: "u32 \<times> u32" where
  "BLINKI_ROM_ACK_FAILED = (0x00000003, 0x00001000)"
definition BLINKI_FDL_READ_FAILED :: "u32 \<times> u32" where
  "BLINKI_FDL_READ_FAILED = (0x00000333, 0x00100000)"
definition BLINKI_DOWNLOAD_DEVICEINFO_FAILED :: "u32 \<times> u32" where
  "BLINKI_DOWNLOAD_DEVICEINFO_FAILED = (0x00003333, 0x01000000)"
definition BLINKI_DOWNLOAD_SWFP_FAILED :: "u32 \<times> u32" where
  "BLINKI_DOWNLOAD_SWFP_FAILED = (0x00033333, 0x10000000)"
definition BLINKI_FLASHING_OK :: "u32 \<times> u32" where
  "BLINKI_FLASHING_OK = (0x00000001, 0x00000005)"
definition BLINKI_FLASHING_FAILED :: "u32 \<times> u32" where
  "BLINKI_FLASHING_FAILED = (0x00000003, 0x00000010)"

text \<open>The final loop: the code it blinks and whether it processes the network.\<close>

record blink =
  blink_code :: "u32 \<times> u32"
  blink_network :: bool

definition usMessagePort :: u16 where "usMessagePort = 5555"

text \<open>The time since \<open>ulTimeStart\<close>.\<close>

definition elapsed :: "('e, 'd, 'l, 't, 'i) platform \<Rightarrow> u32 \<Rightarrow> ('e, 'd, 'l) sys \<Rightarrow> u32 \<times> ('e, 'd, 'l) sys" where
  "elapsed pl ulTimeStart s = (case systime_get_ms (pl_time pl) s of (t, s) \<Rightarrow> (t - ulTimeStart, s))"

text \<open>From the end of the download to the blink code: the image is flashed. The result has
  \<open>iResult\<close>, the error message, the duration and the code.\<close>

definition flashapp_flash ::
    "('e, 'd, 'l, 't, 'i) platform \<Rightarrow> DEVICE_INFO_T \<Rightarrow> u32 \<Rightarrow> ('e, 'd, 'l) sys \<Rightarrow>
      (int \<times> string \<times> u32 \<times> (u32 \<times> u32) \<times> ('e, 'd, 'l) sys) option" where
  "flashapp_flash pl info ulServer s =
     (case generateStartMessage pl info ulServer usMessagePort ''FLASH_START'' s of
        None \<Rightarrow> None
      | Some s \<Rightarrow>
          (case systime_get_ms (pl_time pl) s of (ulTimeStart, s) \<Rightarrow>
           case processWfp (pl_flasher pl) (mem s) info (uninit_desc pl) s of
             None \<Rightarrow> None
           | Some (iResult, s) \<Rightarrow>
               (case elapsed pl ulTimeStart s of (ulDurationFlash, s) \<Rightarrow>
                if iResult = 0 then
                  (case generateEndMessage pl info ulServer usMessagePort ''FLASH_END'' 0 ''OK'' ulDurationFlash s of
                     None \<Rightarrow> None
                   | Some s \<Rightarrow> Some (iResult, ''OK'', ulDurationFlash, BLINKI_FLASHING_OK, s))
                else
                  (case generateEndMessage pl info ulServer usMessagePort ''FLASH_END'' (-1)
                          ''Failed to flash the SWFP.'' ulDurationFlash s of
                     None \<Rightarrow> None
                   | Some s \<Rightarrow> Some (iResult, ''Failed to flash the SWFP.'', ulDurationFlash, BLINKI_FLASHING_FAILED, s)))))"

text \<open>The result of the download: an error message with its code, or the way on to the flashing.\<close>

definition flashapp_download_failed ::
    "('e, 'd, 'l, 't, 'i) platform \<Rightarrow> DEVICE_INFO_T \<Rightarrow> u32 \<Rightarrow> u32 \<Rightarrow> string \<Rightarrow> ('e, 'd, 'l) sys \<Rightarrow> (u32 \<times> ('e, 'd, 'l) sys) option" where
  "flashapp_download_failed pl info ulServer ulTimeStart pcErrorMessage s =
     (case elapsed pl ulTimeStart s of (ulDurationDownload, s) \<Rightarrow>
      case generateEndMessage pl info ulServer usMessagePort ''DOWNLOAD_END'' (-1) pcErrorMessage ulDurationDownload s of
        None \<Rightarrow> None
      | Some s \<Rightarrow> Some (ulDurationDownload, s))"

definition flashapp_download ::
    "('e, 'd, 'l, 't, 'i) platform \<Rightarrow> DEVICE_INFO_T \<Rightarrow> u32 \<Rightarrow> ('e, 'd, 'l) sys \<Rightarrow>
      (int \<times> DEVICE_INFO_T \<times> string \<times> u32 \<times> u32 \<times> (u32 \<times> u32) \<times> ('e, 'd, 'l) sys) option" where
  "flashapp_download pl info ulServer s =
     (case generateStartMessage pl info ulServer usMessagePort ''DOWNLOAD_START'' s of
        None \<Rightarrow> None
      | Some s \<Rightarrow>
          (case systime_get_ms (pl_time pl) s of (ulTimeStart, s) \<Rightarrow>
           case getDeviceInfo pl ulServer info s of
             None \<Rightarrow> None
           | Some (iResult, info, s) \<Rightarrow>
               if iResult \<noteq> 0 then
                 (case flashapp_download_failed pl info ulServer ulTimeStart ''Failed to download the device info.'' s of
                    None \<Rightarrow> None
                  | Some (ulDurationDownload, s) \<Rightarrow>
                      Some (iResult, info, ''Failed to download the device info.'', ulDurationDownload, 0,
                        BLINKI_DOWNLOAD_DEVICEINFO_FAILED, s))
               else
                 (case getDataFile pl ulServer info s of
                    None \<Rightarrow> None
                  | Some (iResult, info, s) \<Rightarrow>
                      if iResult \<noteq> 0 then
                        (case flashapp_download_failed pl info ulServer ulTimeStart ''Failed to download the SWFP.'' s of
                           None \<Rightarrow> None
                         | Some (ulDurationDownload, s) \<Rightarrow>
                             Some (iResult, info, ''Failed to download the SWFP.'', ulDurationDownload, 0,
                               BLINKI_DOWNLOAD_SWFP_FAILED, s))
                      else
                        (case elapsed pl ulTimeStart s of (ulDurationDownload, s) \<Rightarrow>
                         case generateEndMessage pl info ulServer usMessagePort ''DOWNLOAD_END'' 0 ''OK'' ulDurationDownload s of
                           None \<Rightarrow> None
                         | Some s \<Rightarrow>
                             (case flashapp_flash pl info ulServer s of
                                None \<Rightarrow> None
                              | Some (iResult, pcErrorMessage, ulDurationFlash, code, s) \<Rightarrow>
                                  Some (iResult, info, pcErrorMessage, ulDurationDownload, ulDurationFlash, code, s))))))"

text \<open>\<open>None\<close>: a wait of the application never ends.\<close>

definition flashapp_main :: "('e, 'd, 'l, 't, 'i) platform \<Rightarrow> ('e, 'd, 'l) sys \<Rightarrow> (blink \<times> ('e, 'd, 'l) sys) option" where
  "flashapp_main pl s =
     (let s = network_init s in
      case ackLastRomcodePacket pl s of (iResult, s) \<Rightarrow>
      if iResult \<noteq> 0 then Some (\<lparr>blink_code = BLINKI_ROM_ACK_FAILED, blink_network = False\<rparr>, s)
      else case readFDL (pl_flasher pl) (pl_crc pl) (uninit_info pl) DEVICE_INFO_zero s of (iResult, info, s) \<Rightarrow>
      if iResult \<noteq> 0 then Some (\<lparr>blink_code = BLINKI_FDL_READ_FAILED, blink_network = False\<rparr>, s)
      else
        let s = setupHardware pl info s;
            (_, ulServer, s) = setupNetwork (pl_lwip pl) (pl_xc_init pl) 0 s in
        (case flashapp_download pl info ulServer s of
           None \<Rightarrow> None
         | Some (iResult, info, pcErrorMessage, ulDurationDownload, ulDurationFlash, code, s) \<Rightarrow>
             (case generateResultMessage pl info ulServer usMessagePort iResult pcErrorMessage ulDurationDownload
                     ulDurationFlash s of
                None \<Rightarrow> None
              | Some s \<Rightarrow> Some (\<lparr>blink_code = code, blink_network = True\<rparr>, s))))"

subsection \<open>Properties\<close>

text \<open>The platform with other functions of the flasher library that change a flash device.\<close>

definition prog where
  "prog pl e f g = pl\<lparr>pl_flasher := (pl_flasher pl)\<lparr>spi_erase := e, spi_flash := f, sdio_write := g\<rparr>\<rparr>"

text \<open>The image that is flashed and the state in which its flashing starts: the acknowledge, the flash device label and
  the info file have succeeded, the download of the data file has succeeded and its hash is the one of the info file, the image
  is the buffer of this download with the size it reported, and the state is the one that the two messages and the clock leave behind
  the download.\<close>

definition verified_image ::
    "('e, 'd, 'l, 't, 'i) platform \<Rightarrow> ('e, 'd, 'l) sys \<Rightarrow> DEVICE_INFO_T \<Rightarrow> ('e, 'd, 'l) sys \<Rightarrow> bool" where
  "verified_image pl s info w \<longleftrightarrow>
     (\<exists>s1 info1 s2 x server s3 s4 t s5 info2 s6 size hash s7 d s8 s9 s10 t2.
        ackLastRomcodePacket pl (network_init s) = (0, s1) \<and>
        readFDL (pl_flasher pl) (pl_crc pl) (uninit_info pl) DEVICE_INFO_zero s1 = (0, info1, s2) \<and>
        setupNetwork (pl_lwip pl) (pl_xc_init pl) 0 (setupHardware pl info1 s2) = (x, server, s3) \<and>
        generateStartMessage pl info1 server usMessagePort ''DOWNLOAD_START'' s3 = Some s4 \<and>
        systime_get_ms (pl_time pl) s4 = (t, s5) \<and>
        getDeviceInfo pl server info1 s5 = Some (0, info2, s6) \<and>
        httpDownload (pl_crypt pl) (pl_lwip pl) (pl_time pl) (uninit_sizFrame pl) server (c_string (acDataUri info2))
          0x40000000 0x40000000 (Some 0) (Some (uninit_hash pl)) s6 = Some (0, Some size, Some hash, s7) \<and>
        hash = tHash info2 \<and> info = info2\<lparr>pucWfpImage := 0x40000000, sizWfpImage := size\<rparr> \<and>
        elapsed pl t s7 = (d, s8) \<and>
        generateEndMessage pl info server usMessagePort ''DOWNLOAD_END'' 0 ''OK'' d s8 = Some s9 \<and>
        generateStartMessage pl info server usMessagePort ''FLASH_START'' s9 = Some s10 \<and>
        systime_get_ms (pl_time pl) s10 = (t2, w))"

text \<open>None of the steps around \<open>processWfp\<close> uses these functions.\<close>

lemma prog_flasher: "pl_flasher (prog pl e f g) = (pl_flasher pl)\<lparr>spi_erase := e, spi_flash := f, sdio_write := g\<rparr>"
  by (simp add: prog_def)

lemma prog_same [simp]:
  "pl_crypt (prog pl e f g) = pl_crypt pl" "pl_crc (prog pl e f g) = pl_crc pl" "pl_lwip (prog pl e f g) = pl_lwip pl"
  "pl_time (prog pl e f g) = pl_time pl" "pl_xc_init (prog pl e f g) = pl_xc_init pl"
  "usnprintf (prog pl e f g) = usnprintf pl" "romTftpSendAck (prog pl e f g) = romTftpSendAck pl"
  "rd_asic_ctrl_access_key (prog pl e f g) = rd_asic_ctrl_access_key pl"
  "wr_asic_ctrl_access_key (prog pl e f g) = wr_asic_ctrl_access_key pl" "wr_mmio_cfg (prog pl e f g) = wr_mmio_cfg pl"
  "MMIO_CFG_PHY0_LED_PHY_CTRL_ACT (prog pl e f g) = MMIO_CFG_PHY0_LED_PHY_CTRL_ACT pl"
  "MMIO_CFG_PHY0_LED_PHY_CTRL_LNK (prog pl e f g) = MMIO_CFG_PHY0_LED_PHY_CTRL_LNK pl"
  "stack_info_buffer (prog pl e f g) = stack_info_buffer pl" "uninit_sizFrame (prog pl e f g) = uninit_sizFrame pl"
  "uninit_timeout (prog pl e f g) = uninit_timeout pl" "uninit_info (prog pl e f g) = uninit_info pl"
  "uninit_desc (prog pl e f g) = uninit_desc pl" "uninit_hash (prog pl e f g) = uninit_hash pl"
  "prog pl (spi_erase (pl_flasher pl)) (spi_flash (pl_flasher pl)) (sdio_write (pl_flasher pl)) = pl"
  by (simp_all add: prog_def)

lemma prog_steps [simp]:
  "ackLastRomcodePacket (prog pl e f g) = ackLastRomcodePacket pl"
  "setupHardware (prog pl e f g) = setupHardware pl" "getDeviceInfo (prog pl e f g) = getDeviceInfo pl"
  "getDataFile (prog pl e f g) = getDataFile pl" "send_message (prog pl e f g) = send_message pl"
  "elapsed (prog pl e f g) = elapsed pl"
  by (intro ext; simp add: ackLastRomcodePacket_def setupHardware_def getDeviceInfo_def getDataFile_def send_message_def
      elapsed_def Let_def)+

lemma prog_messages [simp]:
  "generateStartMessage (prog pl e f g) = generateStartMessage pl" "generateEndMessage (prog pl e f g) = generateEndMessage pl"
  "generateResultMessage (prog pl e f g) = generateResultMessage pl"
  by (intro ext; simp add: generateStartMessage_def generateEndMessage_def generateResultMessage_def)+

lemma prog_download_failed [simp]: "flashapp_download_failed (prog pl e f g) = flashapp_download_failed pl"
  by (intro ext) (simp add: flashapp_download_failed_def)

lemma prog_readFDL [simp]: "readFDL (pl_flasher (prog pl e f g)) = readFDL (pl_flasher pl)"
  by (intro ext) (simp add: prog_flasher readFDL_def Let_def cong: prod.case_cong if_cong)

text \<open>What follows \<open>processWfp\<close>: the end of the flashing and the result message.\<close>

definition flash_end ::
    "('e, 'd, 'l, 't, 'i) platform \<Rightarrow> DEVICE_INFO_T \<Rightarrow> u32 \<Rightarrow> u32 \<Rightarrow> int \<Rightarrow> ('e, 'd, 'l) sys \<Rightarrow>
      (int \<times> string \<times> u32 \<times> (u32 \<times> u32) \<times> ('e, 'd, 'l) sys) option" where
  "flash_end pl info server t r s =
     (case elapsed pl t s of (d, s) \<Rightarrow>
      let msg = (if r = 0 then ''OK'' else ''Failed to flash the SWFP.'') in
      case generateEndMessage pl info server usMessagePort ''FLASH_END'' (if r = 0 then 0 else -1) msg d s of
        None \<Rightarrow> None
      | Some s \<Rightarrow> Some (r, msg, d, if r = 0 then BLINKI_FLASHING_OK else BLINKI_FLASHING_FAILED, s))"

definition main_end ::
    "('e, 'd, 'l, 't, 'i) platform \<Rightarrow> u32 \<Rightarrow>
      (int \<times> DEVICE_INFO_T \<times> string \<times> u32 \<times> u32 \<times> (u32 \<times> u32) \<times> ('e, 'd, 'l) sys) option \<Rightarrow> (blink \<times> ('e, 'd, 'l) sys) option" where
  "main_end pl server x =
     (case x of
        None \<Rightarrow> None
      | Some (iResult, info, msg, d1, d2, code, s) \<Rightarrow>
          map_option (\<lambda>s. (\<lparr>blink_code = code, blink_network = True\<rparr>, s))
            (generateResultMessage pl info server usMessagePort iResult msg d1 d2 s))"

lemma flashapp_flash_prog:
  assumes "generateStartMessage pl info server usMessagePort ''FLASH_START'' s = Some s1" and "systime_get_ms (pl_time pl) s1 = (t, w)"
  shows "flashapp_flash (prog pl e f g) info server s =
    (case processWfp (pl_flasher (prog pl e f g)) (mem w) info (uninit_desc pl) w of
       None \<Rightarrow> None | Some (r, w') \<Rightarrow> flash_end pl info server t r w')"
  using assms by (auto simp: flashapp_flash_def flash_end_def Let_def split: option.split prod.split)

lemma httpDownload_outputs:
  assumes "httpDownload cr lw tm k server uri p n (Some size0) (Some hash0) s = Some (r, sz, hash, s')"
  shows "\<exists>x y. sz = Some x \<and> hash = Some y"
  using assms by (auto simp: httpDownload_def Let_def split: prod.splits option.splits if_splits)

lemma getDataFile_zero:
  assumes "getDataFile pl server info s = Some (0, info', s')"
  shows "\<exists>size hash. httpDownload (pl_crypt pl) (pl_lwip pl) (pl_time pl) (uninit_sizFrame pl) server (c_string (acDataUri info))
      0x40000000 0x40000000 (Some 0) (Some (uninit_hash pl)) s = Some (0, Some size, Some hash, s') \<and>
    hash = tHash info \<and> info' = info\<lparr>pucWfpImage := 0x40000000, sizWfpImage := size\<rparr>"
  using assms httpDownload_outputs by (fastforce simp: getDataFile_def Let_def split: option.splits prod.splits if_splits)

text \<open>The download either ends without the flasher, or reaches it with a verified image.\<close>

lemma flashapp_download_prog:
  obtains (early) x where "\<And>e f g. flashapp_download (prog pl e f g) info1 server s3 = x"
      and "case x of None \<Rightarrow> True | Some (r, i, msg, d1, d2, code, s) \<Rightarrow>
        code = BLINKI_DOWNLOAD_DEVICEINFO_FAILED \<or> code = BLINKI_DOWNLOAD_SWFP_FAILED"
  | (flash) s4 t s5 info2 s6 info s7 d s8 s9 s10 t2 w where
      "generateStartMessage pl info1 server usMessagePort ''DOWNLOAD_START'' s3 = Some s4"
      "systime_get_ms (pl_time pl) s4 = (t, s5)" "getDeviceInfo pl server info1 s5 = Some (0, info2, s6)"
      "getDataFile pl server info2 s6 = Some (0, info, s7)" "elapsed pl t s7 = (d, s8)"
      "generateEndMessage pl info server usMessagePort ''DOWNLOAD_END'' 0 ''OK'' d s8 = Some s9"
      "generateStartMessage pl info server usMessagePort ''FLASH_START'' s9 = Some s10"
      "systime_get_ms (pl_time pl) s10 = (t2, w)"
      "\<And>e f g. flashapp_download (prog pl e f g) info1 server s3 =
        (case processWfp (pl_flasher (prog pl e f g)) (mem w) info (uninit_desc pl) w of
           None \<Rightarrow> None
         | Some (r, w') \<Rightarrow> map_option (\<lambda>(r, msg, d2, code, s). (r, info, msg, d, d2, code, s)) (flash_end pl info server t2 r w'))"
proof (cases "generateStartMessage pl info1 server usMessagePort ''DOWNLOAD_START'' s3")
  case None
  then show thesis by (intro early [of None]) (simp_all add: flashapp_download_def)
next
  case s4: (Some s4)
  obtain t s5 where t: "systime_get_ms (pl_time pl) s4 = (t, s5)" by force
  note down = s4 t
  show thesis
  proof (cases "getDeviceInfo pl server info1 s5")
    case None
    then show thesis using down by (intro early [of None]) (simp_all add: flashapp_download_def)
  next
    case (Some y)
    then obtain r1 info2 s6 where gi: "getDeviceInfo pl server info1 s5 = Some (r1, info2, s6)" by (cases y) auto
    show thesis
    proof (cases "r1 = 0")
      case False
      then show thesis using down gi
        by (intro early [of "flashapp_download pl info1 server s3"]) (auto simp: flashapp_download_def split: option.split)
    next
      case r1: True
      show thesis
      proof (cases "getDataFile pl server info2 s6")
        case None
        then show thesis using down gi r1 by (intro early [of None]) (simp_all add: flashapp_download_def)
      next
        case (Some y)
        then obtain r2 info s7 where gd: "getDataFile pl server info2 s6 = Some (r2, info, s7)" by (cases y) auto
        show thesis
        proof (cases "r2 = 0")
          case False
          then show thesis using down gi gd r1
            by (intro early [of "flashapp_download pl info1 server s3"]) (auto simp: flashapp_download_def split: option.split)
        next
          case r2: True
          obtain d s8 where d: "elapsed pl t s7 = (d, s8)" by force
          have dl: "flashapp_download (prog pl e f g) info1 server s3 =
              (case generateEndMessage pl info server usMessagePort ''DOWNLOAD_END'' 0 ''OK'' d s8 of
                 None \<Rightarrow> None
               | Some s9 \<Rightarrow> map_option (\<lambda>(r, msg, d2, code, s). (r, info, msg, d, d2, code, s))
                   (flashapp_flash (prog pl e f g) info server s9))" for e f g
            using down gi gd r1 r2 d by (auto simp: flashapp_download_def split: option.split)
          show thesis
          proof (cases "generateEndMessage pl info server usMessagePort ''DOWNLOAD_END'' 0 ''OK'' d s8")
            case None
            then show thesis using dl by (intro early [of None]) simp_all
          next
            case s9: (Some s9)
            show thesis
            proof (cases "generateStartMessage pl info server usMessagePort ''FLASH_START'' s9")
              case None
              then show thesis using dl s9 by (intro early [of None]) (simp_all add: flashapp_flash_def)
            next
              case s10: (Some s10)
              obtain t2 w where w: "systime_get_ms (pl_time pl) s10 = (t2, w)" by force
              show thesis
                using dl s9 flashapp_flash_prog [OF s10 w] gi gd r1 r2
                by (intro flash [OF s4 t _ _ d s9 s10 w]) (auto split: option.split)
            qed
          qed
        qed
      qed
    qed
  qed
qed

text \<open>(C1) Only a verified image is flashed, and only once: for every platform and start one of two cases holds.
  Either the result of \<open>flashapp_main\<close> does not depend on the functions of the flasher library that erase or write, and the code is
  one of the four earlier failures.  Or there is an image \<open>info\<close> with a state \<open>w\<close> behind a successful download whose hash
  is the one of the info file (\<open>verified_image\<close>), and all that \<open>flashapp_main\<close> does with these functions is
  the one call of \<open>processWfp\<close> on this image in this state: its result decides between the codes for success and failure.\<close>

theorem flashapp_main_flashes_verified:
  "(\<forall>e f g. flashapp_main (prog pl e f g) s = flashapp_main pl s) \<and>
     (case flashapp_main pl s of None \<Rightarrow> True | Some (b, _) \<Rightarrow> blink_code b \<in>
        {BLINKI_ROM_ACK_FAILED, BLINKI_FDL_READ_FAILED, BLINKI_DOWNLOAD_DEVICEINFO_FAILED, BLINKI_DOWNLOAD_SWFP_FAILED}) \<or>
   (\<exists>info w k. verified_image pl s info w \<and>
      (\<forall>e f g. flashapp_main (prog pl e f g) s =
         (case processWfp (pl_flasher (prog pl e f g)) (mem w) info (uninit_desc pl) w of
            None \<Rightarrow> None | Some (r, w') \<Rightarrow> k r w')) \<and>
      (\<forall>r w'. case k r w' of None \<Rightarrow> True | Some (b, _) \<Rightarrow>
         blink_code b = (if r = 0 then BLINKI_FLASHING_OK else BLINKI_FLASHING_FAILED)))"
proof -
  obtain r1 s1 where a: "ackLastRomcodePacket pl (network_init s) = (r1, s1)" by force
  obtain r2 info1 s2 where f: "readFDL (pl_flasher pl) (pl_crc pl) (uninit_info pl) DEVICE_INFO_zero s1 = (r2, info1, s2)"
    by (metis prod_cases3)
  obtain x server s3 where n: "setupNetwork (pl_lwip pl) (pl_xc_init pl) 0 (setupHardware pl info1 s2) = (x, server, s3)"
    by (metis prod_cases3)
  show ?thesis
  proof (cases "r1 = 0 \<and> r2 = 0")
    case False
    then show ?thesis using a f by (intro disjI1) (auto simp: flashapp_main_def Let_def)
  next
    case True
    have main: "flashapp_main (prog pl e f g) s = main_end pl server (flashapp_download (prog pl e f g) info1 server s3)" for e f g
      using True a f n by (auto simp: flashapp_main_def main_end_def Let_def split: option.split)
    have main': "flashapp_main pl s = main_end pl server (flashapp_download pl info1 server s3)"
      using main [of "spi_erase (pl_flasher pl)" "spi_flash (pl_flasher pl)" "sdio_write (pl_flasher pl)"] by simp
    show ?thesis
    proof (cases rule: flashapp_download_prog [of pl info1 server s3])
      case (early y)
      have "flashapp_download pl info1 server s3 = y"
        using early(1) [of "spi_erase (pl_flasher pl)" "spi_flash (pl_flasher pl)" "sdio_write (pl_flasher pl)"] by simp
      then show ?thesis using early main main'
        by (intro disjI1) (cases y; fastforce simp: main_end_def split: option.splits)
    next
      case (flash s4 t s5 info2 s6 info s7 d s8 s9 s10 t2 w)
      have v: "verified_image pl s info w"
        unfolding verified_image_def using True a f n flash(1-8) getDataFile_zero [OF flash(4)] by blast
      define k where "k r w' = main_end pl server
        (map_option (\<lambda>(r, msg, d2, code, s). (r, info, msg, d, d2, code, s)) (flash_end pl info server t2 r w'))" for r w'
      have "flashapp_main (prog pl e f g) s =
         (case processWfp (pl_flasher (prog pl e f g)) (mem w) info (uninit_desc pl) w of
            None \<Rightarrow> None | Some (r, w') \<Rightarrow> k r w')" for e f g
        unfolding main flash(9) k_def by (simp add: main_end_def split: option.split prod.split)
      moreover have "case k r w' of None \<Rightarrow> True | Some (b, _) \<Rightarrow>
         blink_code b = (if r = 0 then BLINKI_FLASHING_OK else BLINKI_FLASHING_FAILED)" for r w'
        by (auto simp: k_def main_end_def flash_end_def Let_def split: option.split prod.split)
      ultimately show ?thesis using v by (intro disjI2 exI [of _ info] exI [of _ w] exI [of _ k]) simp
    qed
  qed
qed

text \<open>(C2) The data file is verified, for a body that is smaller than the buffer of 1 GiB and comes in packet buffers that
  reach the next aligned address: when lwIP reports the end of the request, \<open>getDataFile\<close> returns. It returns 0
  exactly when lwIP reported a success with the status 200 and the SHA384 sum of the delivered bytes is the hash of the info file, and then the image is
  exactly these bytes. Otherwise the result is -1 and the device information is unchanged.\<close>

theorem getDataFile_verified:
  assumes cr: "crypt_unit (pl_crypt pl) stream digest ready"
    and lw: "lwip_download_ok (pl_lwip pl) 0x40000000 0x40000000 stream res rx L ok okp"
    and long: "\<And>pb. L pb \<Longrightarrow> list_all chunk_long (pb_chain pb)"
    and tm: "dl_quiet 0x40000000 0x40000000 stream res rx ok ok (\<lambda>s. snd (systime_get_ms (pl_time pl) s))"
    and s0: "s0 = snd (systime_get_ms (pl_time pl) (s\<lparr>hw := sha384_initialize (pl_crypt pl) (hw s)\<rparr>))" "stream (hw s0) = []"
    and get: "lw_httpc_get_file (pl_lwip pl) server 80 (c_string (acDataUri info)) s0 = (ERR_OK, s1)"
    and s1: "dl_keeps 0x40000000 0x40000000 stream s0 s1" "ok s1" "res s1 = None" "rx s1 = []"
    and fin: "\<forall>c c' s'. dl_cycles (pl_crypt pl) (pl_lwip pl) (uninit_sizFrame pl) k c s1 = Some (c', s') \<longrightarrow> res s' \<noteq> None"
  shows "\<exists>r info' s'. getDataFile pl server info s = Some (r, info', s') \<and> ok s' \<and> res s' \<noteq> None \<and>
    (r = 0 \<longleftrightarrow> res s' = Some (HTTPC_RESULT_OK, 200, ERR_OK) \<and>
       tHash info = hash_bytes (digest (rx s' @ fips_padding (length (rx s'))))) \<and>
    (if r = 0 then \<exists>n. info' = info\<lparr>pucWfpImage := 0x40000000, sizWfpImage := n\<rparr> \<and> unat n = length (rx s') \<and>
       rdbytes (mem s') 0x40000000 (unat n) = rx s'
     else r = -1 \<and> info' = info)"
proof -
  have p: "(0x40000000 :: u32) \<noteq> NULL" "unat (0x40000000 :: u32) + unat (0x40000000 :: u32) \<le> 2 ^ 32"
    and n: "unat (0x40000000 :: u32) = 0x40000000" by simp_all
  have lw': "lwip_download_ok (pl_lwip pl) 0x40000000 (unat (0x40000000 :: u32)) stream res rx L ok okp"
    and tm': "dl_quiet 0x40000000 (unat (0x40000000 :: u32)) stream res rx ok ok (\<lambda>s. snd (systime_get_ms (pl_time pl) s))"
    and keeps: "dl_keeps 0x40000000 (unat (0x40000000 :: u32)) stream s0 s1"
    using lw tm s1(1) by (simp_all only: n)
  obtain r size hash s' where h: "httpDownload (pl_crypt pl) (pl_lwip pl) (pl_time pl) (uninit_sizFrame pl) server
      (c_string (acDataUri info)) 0x40000000 0x40000000 (Some 0) (Some (uninit_hash pl)) s =
      Some (r, Some size, Some hash, s')" "ok s'" "res s' \<noteq> None"
    "r = 0 \<longleftrightarrow> res s' = Some (HTTPC_RESULT_OK, 200, ERR_OK)"
    "if r = 0 then unat size = length (rx s') \<and> size < 0x40000000 \<and>
       rdbytes (mem s') 0x40000000 (unat size) = rx s' \<and> hash = hash_bytes (digest (rx s' @ fips_padding (length (rx s'))))
     else r = -1 \<and> size = 0 \<and> hash = uninit_hash pl"
    using httpDownload_data [OF cr lw' long p p(1) tm' s0 get keeps s1(2-4) fin, of 0 "uninit_hash pl"] by blast
  have g: "getDataFile pl server info s = (if r = 0 then
      if hash = tHash info then Some (0, info\<lparr>pucWfpImage := 0x40000000, sizWfpImage := size\<rparr>, s') else Some (-1, info, s')
      else Some (r, info, s'))"
    by (simp only: getDataFile_def Let_def h(1) option.case prod.case option.sel)
  show ?thesis
  proof (cases "r = 0 \<and> hash = tHash info")
    case True
    then have "getDataFile pl server info s = Some (0, info\<lparr>pucWfpImage := 0x40000000, sizWfpImage := size\<rparr>, s')"
      by (simp only: g simp_thms if_True)
    moreover have "res s' = Some (HTTPC_RESULT_OK, 200, ERR_OK)" using h(4) True by blast
    moreover note h(5) [unfolded if_P [OF conjunct1 [OF True]]]
    ultimately show ?thesis using h(2,3) conjunct2 [OF True]
      by (intro exI [of _ "0 :: int"] exI [of _ "info\<lparr>pucWfpImage := 0x40000000, sizWfpImage := size\<rparr>"] exI [of _ s'])
        (simp only: if_True simp_thms, blast)
  next
    case False
    then have "getDataFile pl server info s = Some (-1, info, s')" using h(5) by (auto simp: g)
    moreover have "\<not> (res s' = Some (HTTPC_RESULT_OK, 200, ERR_OK) \<and>
        tHash info = hash_bytes (digest (rx s' @ fips_padding (length (rx s')))))"
      using False h(4,5) by auto
    ultimately show ?thesis using h(2,3)
      by (intro exI [of _ "-1 :: int"] exI [of _ info] exI [of _ s']) auto
  qed
qed

text \<open>A platform around the demonstration server; functions that a download does not call do nothing.\<close>

definition demo_platform :: "(u8 list, (u32 \<Rightarrow> u32 \<Rightarrow> u32 list) xc, bool \<times> u8 list, unit, unit) platform" where
  "demo_platform = \<lparr>pl_crypt = demo_crypt,
     pl_crc = \<lparr>SRT_crc_config_crc_len = 0, MSK_crc_config_crc_shift_right = 0, SRT_crc_config_crc_nof_bits = 0,
       MSK_crc_config_crc_in_msb_low = 0, wr_crc_config = (\<lambda>_ s. s), wr_crc_polynomial = (\<lambda>_ s. s),
       wr_crc_crc = (\<lambda>_ s. s), wr_crc_data_in = (\<lambda>_ s. s), rd_crc_crc = (\<lambda>s. (0, s))\<rparr>,
     pl_flasher = \<lparr>BUS_ParFlash = 0, BUS_SPI = 1, BUS_IFlash = 2, BUS_SDIO = 3, RESULT_OK = 0,
       MSK_SQI_CFG_IDLE = 0, FLASHER_INTERFACE_VERSION = 0, SIZEOF_DEVICE_DESCRIPTION = 0, info_zero = (),
       spi_detect = (\<lambda>_ _ w. (0, (), w)), spi_read = (\<lambda>_ _ _ w. (0, [], w)),
       spi_getEraseArea = (\<lambda>_ a b w. (1, a, b, w)), spi_isErased = (\<lambda>_ _ _ w. (1, 0, w)),
       spi_erase = (\<lambda>_ _ _ w. (1, w)), spi_flash = (\<lambda>_ _ _ _ w. (1, w)),
       sdio_detect_wrap = (\<lambda>_ w. (1, (), w)), sdio_write = (\<lambda>_ _ _ _ w. (1, w))\<rparr>,
     pl_lwip = demo_lwip, pl_time = demo_time, pl_xc_init = drv_eth_xc_initialize list_regs,
     usnprintf = (\<lambda>_ _ _. []), romTftpSendAck = (\<lambda>s. (0, s)), rd_asic_ctrl_access_key = (\<lambda>s. (0, s)),
     wr_asic_ctrl_access_key = (\<lambda>_ s. s), wr_mmio_cfg = (\<lambda>_ _ s. s), MMIO_CFG_PHY0_LED_PHY_CTRL_ACT = 0,
     MMIO_CFG_PHY0_LED_PHY_CTRL_LNK = 0, stack_info_buffer = 0x3000, uninit_sizFrame = 0, uninit_timeout = 0,
     uninit_info = (), uninit_desc = \<lparr>fIsValid = 0, sizThis = 0, ulVersion = 0, tSourceTyp = 0, uInfo = ()\<rparr>,
     uninit_hash = []\<rparr>"

text \<open>(C2) Witness: the demonstration server with eight bytes of data. With their hash in the device information the result is 0
  and the image has eight bytes; with another hash the result is -1.\<close>

theorem getDataFile_verified_witness:
  "(\<exists>s'. getDataFile demo_platform 1 (DEVICE_INFO_zero\<lparr>tHash := hash_bytes (replicate 12 128)\<rparr>) demo_state =
      Some (0, DEVICE_INFO_zero\<lparr>tHash := hash_bytes (replicate 12 128), pucWfpImage := 0x40000000, sizWfpImage := 8\<rparr>, s')) \<and>
   (\<exists>s'. getDataFile demo_platform 1 (DEVICE_INFO_zero\<lparr>tHash := []\<rparr>) demo_state =
      Some (-1, DEVICE_INFO_zero\<lparr>tHash := []\<rparr>, s'))"
proof -
  let ?s1 = "demo_state\<lparr>lwst := (True, [])\<rparr>"
  have sel: "pl_crypt demo_platform = demo_crypt" "pl_lwip demo_platform = demo_lwip"
    "pl_time demo_platform = demo_time" "uninit_sizFrame demo_platform = 0"
    by (simp_all add: demo_platform_def)
  have "chunk_outside 0x40000000 0x40000000 (0x1000, 8)"
    by (simp add: chunk_outside_def ranges_disjointI)
  then have lw: "lwip_download_ok (pl_lwip demo_platform) 0x40000000 0x40000000 (\<lambda>w. w) demo_res demo_rx
      (\<lambda>pb. pb = demo_pbuf) demo_ok (\<lambda>_. demo_ok)"
    unfolding sel by (rule demo_lwip_ok) simp
  have fin: "\<forall>c c' s'. dl_cycles (pl_crypt demo_platform) (pl_lwip demo_platform) (uninit_sizFrame demo_platform) 1 c ?s1 =
      Some (c', s') \<longrightarrow> demo_res s' \<noteq> None"
    unfolding sel using demo_cycle_done [of 0 _ ?s1] by (simp add: demo_state_def)
  have s0: "demo_state = snd (systime_get_ms (pl_time demo_platform)
      (demo_state\<lparr>hw := sha384_initialize (pl_crypt demo_platform) (hw demo_state)\<rparr>))"
    by (simp only: sel) (simp add: demo_time_def demo_state_def sha384_initialize_def demo_crypt_def)
  have tm: "dl_quiet 0x40000000 0x40000000 (\<lambda>w. w) demo_res demo_rx demo_ok demo_ok
      (\<lambda>s. snd (systime_get_ms (pl_time demo_platform) s))"
    by (simp only: sel) (simp add: dl_quiet_def dl_keeps_def demo_time_def)
  have get: "lw_httpc_get_file (pl_lwip demo_platform) 1 80 (c_string (acDataUri info)) demo_state = (ERR_OK, ?s1)" for info
    by (simp only: sel) (simp add: demo_lwip_def)
  have keeps: "dl_keeps 0x40000000 0x40000000 (\<lambda>w. w) demo_state ?s1" by (simp add: dl_keeps_def)
  have cr: "crypt_unit (pl_crypt demo_platform) (\<lambda>w. w) (\<lambda>bs. replicate 12 (of_nat (length bs))) (\<lambda>_. True)"
    by (simp only: sel demo_crypt_unit)
  have e: "(\<lambda>w. w) (hw demo_state) = []" "demo_ok ?s1" "demo_res ?s1 = None" "demo_rx ?s1 = []"
    by (simp_all add: demo_state_def demo_ok_def demo_res_def)
  have dl: "\<exists>r info' s'. getDataFile demo_platform 1 info demo_state = Some (r, info', s') \<and>
      (r = 0 \<longleftrightarrow> tHash info = hash_bytes (replicate 12 128)) \<and>
      (if r = 0 then info' = info\<lparr>pucWfpImage := 0x40000000, sizWfpImage := 8\<rparr> else r = -1 \<and> info' = info)" for info
  proof -
    obtain r info' s' where h: "getDataFile demo_platform 1 info demo_state = Some (r, info', s')" "demo_ok s'" "demo_res s' \<noteq> None"
      "r = 0 \<longleftrightarrow> demo_res s' = Some (HTTPC_RESULT_OK, 200, ERR_OK) \<and>
         tHash info = hash_bytes (replicate 12 (of_nat (length (demo_rx s' @ fips_padding (length (demo_rx s'))))))"
      "if r = 0 then \<exists>n. info' = info\<lparr>pucWfpImage := 0x40000000, sizWfpImage := n\<rparr> \<and> unat n = length (demo_rx s') \<and>
         rdbytes (mem s') 0x40000000 (unat n) = demo_rx s' else r = -1 \<and> info' = info"
      using getDataFile_verified [OF cr lw demo_long tm s0 e(1) get keeps e(2-4) fin, of info] by blast
    have d: "demo_res s' = Some (HTTPC_RESULT_OK, 200, ERR_OK)" "length (demo_rx s') = 8"
      using h(2,3) by (simp_all add: demo_res_def demo_ok_def split: if_splits)
    have "n = 8" if "unat n = 8" for n :: u32 using that by (simp add: word_unat_eq_iff)
    then have "if r = 0 then info' = info\<lparr>pucWfpImage := 0x40000000, sizWfpImage := 8\<rparr> else r = -1 \<and> info' = info"
      using h(5) d(2) by (auto split: if_splits)
    moreover have "r = 0 \<longleftrightarrow> tHash info = hash_bytes (replicate 12 128)"
      using h(4) d by (simp add: fips_padding_def be128_def)
    ultimately show ?thesis using h(1) by blast
  qed
  have "hash_bytes (replicate 12 128) \<noteq> []" by (simp add: hash_bytes_def numeral_eq_Suc le32_def)
  then show ?thesis
    using dl [of "DEVICE_INFO_zero\<lparr>tHash := hash_bytes (replicate 12 128)\<rparr>"] dl [of "DEVICE_INFO_zero\<lparr>tHash := []\<rparr>"]
    by (auto split: if_splits)
qed

end
