(* ===== verification/Progress_Bar.thy ===== *)
theory Progress_Bar
  imports Network_Lwip
begin

text \<open>
  The progress messages of the flasher library (progress_bar.c).
  The three static variables of the progress bar and the lines it prints
  are a record; \<open>systime_elapsed\<close> is a function of the platform.
\<close>

record progress =
  ulProgressBar_CurrentValue :: u32
  ulProgressBar_MaxValue :: u32
  ulProgressBar_TimerHandle :: u32
  progress_lines :: "(u32 \<times> u32) list"

definition progress_bar_show_progress :: "u32 \<Rightarrow> progress \<Rightarrow> progress" where
  "progress_bar_show_progress ulPosition p =
     p\<lparr>progress_lines := progress_lines p @ [(ulPosition, ulProgressBar_MaxValue p)]\<rparr>"

definition progress_bar_init :: "u32 \<Rightarrow> progress \<Rightarrow> progress" where
  "progress_bar_init ulMaxvalue p =
     progress_bar_show_progress 0 (p\<lparr>ulProgressBar_MaxValue := ulMaxvalue, ulProgressBar_TimerHandle := 0\<rparr>)"

definition progress_bar_check_timer ::
    "('s, 't) systime \<Rightarrow> (u32 \<Rightarrow> u32 \<Rightarrow> 's \<Rightarrow> u32 \<times> 's) \<Rightarrow> progress \<Rightarrow> 's \<Rightarrow> progress \<times> 's" where
  "progress_bar_check_timer tm systime_elapsed p s =
     (case systime_elapsed (ulProgressBar_TimerHandle p) 2000 s of (e, s) \<Rightarrow>
        if e \<noteq> 0 then
          let p = progress_bar_show_progress (ulProgressBar_CurrentValue p) p in
          (case systime_get_ms tm s of (t, s) \<Rightarrow> (p\<lparr>ulProgressBar_TimerHandle := t\<rparr>, s))
        else (p, s))"

definition progress_bar_set_position ::
    "('e, 'd, 'l) sys lwip \<Rightarrow> (('e, 'd, 'l) sys, 'c) handlers \<Rightarrow> (('e, 'd, 'l) sys, 't) systime \<Rightarrow>
      (u32 \<Rightarrow> u32 \<Rightarrow> ('e, 'd, 'l) sys \<Rightarrow> u32 \<times> ('e, 'd, 'l) sys) \<Rightarrow> u32 \<Rightarrow> u32 \<Rightarrow> 'c \<Rightarrow> progress \<Rightarrow> ('e, 'd, 'l) sys \<Rightarrow>
      (progress \<times> 'c \<times> ('e, 'd, 'l) sys) option" where
  "progress_bar_set_position lw h tm systime_elapsed sizFrame ulPosition c p s =
     (let p = p\<lparr>ulProgressBar_CurrentValue := ulPosition\<rparr> in
      case progress_bar_check_timer tm systime_elapsed p s of (p, s) \<Rightarrow>
      case network_cyclic_process lw h sizFrame c s of
        None \<Rightarrow> None
      | Some (c, s) \<Rightarrow> Some (p, c, s))"

definition progress_bar_finalize :: "progress \<Rightarrow> progress" where
  "progress_bar_finalize p = progress_bar_show_progress (ulProgressBar_MaxValue p) p"

end
