(* ===== verification/Buckets.thy ===== *)
theory Buckets
  imports Prelude
begin

text \<open>
  The receive bucket of the stack (networking/stack/buckets.c): one buffer of \<open>BUCKET_SIZE\<close> bytes
  that is either free or holds the bytes of one write until they are processed.
\<close>

definition BUCKET_SIZE :: u32 where "BUCKET_SIZE = 1560"

record buckets =
  pucBuckets :: "u8 list"
  sizBucket_VaildDataBytes :: u32

definition buckets_init :: "buckets \<Rightarrow> buckets" where
  "buckets_init s = s\<lparr>sizBucket_VaildDataBytes := 0\<rparr>"

definition buckets_getFreeBytes :: "buckets \<Rightarrow> u32" where
  "buckets_getFreeBytes s = (if sizBucket_VaildDataBytes s = 0 then BUCKET_SIZE else 0)"

definition buckets_getValidBytes :: "buckets \<Rightarrow> u32" where
  "buckets_getValidBytes s = sizBucket_VaildDataBytes s"

definition buckets_write :: "memory \<Rightarrow> ptr \<Rightarrow> u32 \<Rightarrow> buckets \<Rightarrow> int \<times> buckets" where
  "buckets_write m pucData sizLen s =
     (if sizLen \<le> buckets_getFreeBytes s then
        (0, s\<lparr>pucBuckets := put_bytes (pucBuckets s) 0 (rdbytes m pucData (unat sizLen)),
              sizBucket_VaildDataBytes := sizLen\<rparr>)
      else (-1, s))"

definition buckets_getPtr :: "buckets \<Rightarrow> u8 list" where
  "buckets_getPtr s = pucBuckets s"

definition buckets_bytesProcessed :: "buckets \<Rightarrow> int \<times> buckets" where
  "buckets_bytesProcessed s = (0, s\<lparr>sizBucket_VaildDataBytes := 0\<rparr>)"

subsection \<open>One bucket\<close>

definition buckets_ok :: "buckets \<Rightarrow> bool" where
  "buckets_ok s \<longleftrightarrow> length (pucBuckets s) = unat BUCKET_SIZE \<and> sizBucket_VaildDataBytes s \<le> BUCKET_SIZE"

text \<open>The bytes a reader finds behind \<open>buckets_getPtr\<close>.\<close>

definition bucket_data :: "buckets \<Rightarrow> u8 list" where
  "bucket_data s = take (unat (buckets_getValidBytes s)) (buckets_getPtr s)"

lemma free_le_bucket_size: "buckets_getFreeBytes s \<le> BUCKET_SIZE"
  by (simp add: buckets_getFreeBytes_def)

lemma buckets_write_ok: "buckets_ok s \<Longrightarrow> buckets_ok (snd (buckets_write m p n s))"
  using order_trans [OF _ free_le_bucket_size, of n s]
  by (auto simp: buckets_ok_def buckets_write_def word_le_nat_alt)

lemma buckets_processed_ok: "buckets_ok s \<Longrightarrow> buckets_ok (snd (buckets_bytesProcessed s))"
  by (simp add: buckets_ok_def buckets_bytesProcessed_def)

text \<open>A write is refused, and changes nothing, exactly when the bucket still holds data or the data is
  too long; an accepted write of at least one byte is read back unchanged and closes the bucket for
  any further write until the bytes are processed.\<close>

theorem buckets_write_spec:
  "(fst (buckets_write m p n s) = 0 \<longleftrightarrow>
      (sizBucket_VaildDataBytes s = 0 \<and> n \<le> BUCKET_SIZE) \<or> n = 0) \<and>
   (if fst (buckets_write m p n s) = 0
    then bucket_data (snd (buckets_write m p n s)) = rdbytes m p (unat n) \<and>
      (\<forall>m' p' k. fst (buckets_write m' p' k (snd (buckets_write m p n s))) = 0 \<longleftrightarrow>
         k = 0 \<or> n = 0 \<and> k \<le> BUCKET_SIZE)
    else buckets_write m p n s = (-1, s))"
  by (auto simp: buckets_write_def buckets_getFreeBytes_def bucket_data_def put_bytes_def
    buckets_getValidBytes_def buckets_getPtr_def BUCKET_SIZE_def)

end
