(* ===== verification/Eth.thy ===== *)
theory Eth
  imports Options Drv_Eth_Xc
begin

text \<open>
  The Ethernet layer of the small network stack (networking/stack/eth.h, eth.c): the layout of the
  frames, sending a frame and handing frame buffers between the stack and the driver. The dispatch of
  received frames, \<open>eth_process_packet\<close>, calls every protocol and is in the theory \<open>Stack\<close>.

  The state of the stack is one extensible record. Its base here holds the memory with the frame
  buffers, the driver with its interface table, the loader options and \<open>'w\<close>, the state of the
  platform (timer, LEDs, random number generator, crypto unit). Each protocol theory extends it
  by the static variables of its source file.
\<close>

subsection \<open>Byte order\<close>

text \<open>The macros \<open>MUS2NUS\<close> and \<open>NUS2MUS\<close> have the same body.\<close>

definition MUS2NUS :: "u32 \<Rightarrow> u16" where
  "MUS2NUS a = ucast (push_bit 8 (a AND 0xff) OR (drop_bit 8 a AND 0xff))"

definition NUS2MUS :: "u16 \<Rightarrow> u32" where
  "NUS2MUS a = ucast (MUS2NUS (ucast a))"

definition ETH2HEADER_TYP_IP :: u16 where "ETH2HEADER_TYP_IP = MUS2NUS 0x0800"
definition ETH2HEADER_TYP_ARP :: u16 where "ETH2HEADER_TYP_ARP = MUS2NUS 0x0806"

subsection \<open>Frame layout\<close>

text \<open>The sizes of the packed structures of eth.h and the addresses of their fields in a frame at \<open>p\<close>.\<close>

definition sizeof_ETH2_HEADER_T :: u32 where "sizeof_ETH2_HEADER_T = 14"
definition sizeof_ARP_PACKET_T :: u32 where "sizeof_ARP_PACKET_T = 28"
definition sizeof_IPV4_HEADER_T :: u32 where "sizeof_IPV4_HEADER_T = 20"
definition sizeof_ICMP_PACKET_T :: u32 where "sizeof_ICMP_PACKET_T = 8"
definition sizeof_UDP_HEADER_T :: u32 where "sizeof_UDP_HEADER_T = 8"
definition sizeof_DHCP_PACKET_T :: u32 where "sizeof_DHCP_PACKET_T = 236"
definition sizeof_DNS_PACKET_T :: u32 where "sizeof_DNS_PACKET_T = 12"

lemmas sizeof_defs = sizeof_ETH2_HEADER_T_def sizeof_ARP_PACKET_T_def sizeof_IPV4_HEADER_T_def
  sizeof_ICMP_PACKET_T_def sizeof_UDP_HEADER_T_def sizeof_DHCP_PACKET_T_def sizeof_DNS_PACKET_T_def

abbreviation (input) eth_tSrcMac :: "ptr \<Rightarrow> ptr" where "eth_tSrcMac p \<equiv> p + 6"
abbreviation (input) eth_usTyp :: "ptr \<Rightarrow> ptr" where "eth_usTyp p \<equiv> p + 12"
abbreviation (input) tArpPkt :: "ptr \<Rightarrow> ptr" where "tArpPkt p \<equiv> p + 14"
abbreviation (input) arp_usOpcode :: "ptr \<Rightarrow> ptr" where "arp_usOpcode p \<equiv> p + 20"
abbreviation (input) arp_tSrcMacAdr :: "ptr \<Rightarrow> ptr" where "arp_tSrcMacAdr p \<equiv> p + 22"
abbreviation (input) arp_ulSrcIpAdr :: "ptr \<Rightarrow> ptr" where "arp_ulSrcIpAdr p \<equiv> p + 28"
abbreviation (input) arp_tDstMacAdr :: "ptr \<Rightarrow> ptr" where "arp_tDstMacAdr p \<equiv> p + 32"
abbreviation (input) arp_ulDstIpAdr :: "ptr \<Rightarrow> ptr" where "arp_ulDstIpAdr p \<equiv> p + 38"
abbreviation (input) tIpHdr :: "ptr \<Rightarrow> ptr" where "tIpHdr p \<equiv> p + 14"
abbreviation (input) ip_ucVersion :: "ptr \<Rightarrow> ptr" where "ip_ucVersion p \<equiv> p + 14"
abbreviation (input) ip_ucDSF :: "ptr \<Rightarrow> ptr" where "ip_ucDSF p \<equiv> p + 15"
abbreviation (input) ip_usLength :: "ptr \<Rightarrow> ptr" where "ip_usLength p \<equiv> p + 16"
abbreviation (input) ip_usId :: "ptr \<Rightarrow> ptr" where "ip_usId p \<equiv> p + 18"
abbreviation (input) ip_usFlags :: "ptr \<Rightarrow> ptr" where "ip_usFlags p \<equiv> p + 20"
abbreviation (input) ip_ucTTL :: "ptr \<Rightarrow> ptr" where "ip_ucTTL p \<equiv> p + 22"
abbreviation (input) ip_ucProtocol :: "ptr \<Rightarrow> ptr" where "ip_ucProtocol p \<equiv> p + 23"
abbreviation (input) ip_usChecksum :: "ptr \<Rightarrow> ptr" where "ip_usChecksum p \<equiv> p + 24"
abbreviation (input) ip_ulSrcIp :: "ptr \<Rightarrow> ptr" where "ip_ulSrcIp p \<equiv> p + 26"
abbreviation (input) ip_ulDstIp :: "ptr \<Rightarrow> ptr" where "ip_ulDstIp p \<equiv> p + 30"
abbreviation (input) tIcmpPkt :: "ptr \<Rightarrow> ptr" where "tIcmpPkt p \<equiv> p + 34"
abbreviation (input) icmp_ucType :: "ptr \<Rightarrow> ptr" where "icmp_ucType p \<equiv> p + 34"
abbreviation (input) icmp_ucCode :: "ptr \<Rightarrow> ptr" where "icmp_ucCode p \<equiv> p + 35"
abbreviation (input) icmp_usChecksum :: "ptr \<Rightarrow> ptr" where "icmp_usChecksum p \<equiv> p + 36"
abbreviation (input) icmp_usIdentifier :: "ptr \<Rightarrow> ptr" where "icmp_usIdentifier p \<equiv> p + 38"
abbreviation (input) icmp_usSequenceNumber :: "ptr \<Rightarrow> ptr" where "icmp_usSequenceNumber p \<equiv> p + 40"
abbreviation (input) icmp_data :: "ptr \<Rightarrow> ptr" where "icmp_data p \<equiv> p + 42"
abbreviation (input) udp_usSrcPort :: "ptr \<Rightarrow> ptr" where "udp_usSrcPort p \<equiv> p + 34"
abbreviation (input) udp_usDstPort :: "ptr \<Rightarrow> ptr" where "udp_usDstPort p \<equiv> p + 36"
abbreviation (input) udp_usLength :: "ptr \<Rightarrow> ptr" where "udp_usLength p \<equiv> p + 38"
abbreviation (input) udp_usChecksum :: "ptr \<Rightarrow> ptr" where "udp_usChecksum p \<equiv> p + 40"
abbreviation (input) uUdpData :: "ptr \<Rightarrow> ptr" where "uUdpData p \<equiv> p + 42"

subsection \<open>State\<close>

text \<open>The functions of the platform the stack calls. \<open>systime_handle_is_elapsed\<close> gets the two fields of the
  timer handle, the start and the duration.\<close>

record 'w stack_env =
  systime_get_ms :: "'w \<Rightarrow> u32 \<times> 'w"
  systime_handle_is_elapsed :: "u32 \<Rightarrow> u32 \<Rightarrow> 'w \<Rightarrow> u32 \<times> 'w"
  rdy_run_blinki_init :: "u32 \<Rightarrow> u32 \<Rightarrow> 'w \<Rightarrow> 'w"
  rdy_run_blinki :: "'w \<Rightarrow> 'w"
  rdy_run_setLEDs_off :: "'w \<Rightarrow> 'w"

record ('d, 'w) eth =
  mem :: memory
  env :: 'w
  drv :: 'd
  tNetworkIf :: "'d NETWORK_IF_T"
  g_t_romloader_options :: ROMLOADER_OPTIONS_T

abbreviation eth_options :: "('d, 'w, 'z) eth_scheme \<Rightarrow> ETHERNET_CONFIGURATION_T" where
  "eth_options s \<equiv> t_ethernet (g_t_romloader_options s)"

definition g_tBroadcastMac :: "u8 list" where "g_tBroadcastMac = [0xff, 0xff, 0xff, 0xff, 0xff, 0xff]"
definition g_tEmptyMac :: "u8 list" where "g_tEmptyMac = [0, 0, 0, 0, 0, 0]"

subsection \<open>Operations\<close>

text \<open>The user pointer of the driver is \<open>NULL\<close> in every call.\<close>

definition eth_init :: "'d NETWORK_IF_T \<Rightarrow> ('d, 'w, 'z) eth_scheme \<Rightarrow> ('d, 'w, 'z) eth_scheme" where
  "eth_init ptNetworkIf s = s\<lparr>tNetworkIf := ptNetworkIf\<rparr>"

text \<open>\<open>mac\<close> holds the six bytes at \<open>ptDstMac\<close>; the first statement of the function copies them.\<close>

definition eth_send_packet ::
    "ptr \<Rightarrow> u32 \<Rightarrow> u8 list \<Rightarrow> u16 \<Rightarrow> ('d, 'w, 'z) eth_scheme \<Rightarrow> ('d, 'w, 'z) eth_scheme" where
  "eth_send_packet ptPacket sizEthUserData mac uiTyp s =
     (let m = wrbytes (mem s) ptPacket mac;
          m = wrbytes m (eth_tSrcMac ptPacket) (aucMac (eth_options s));
          m = wr16 m (eth_usTyp ptPacket) uiTyp;
          sizPacket = sizeof_ETH2_HEADER_T + sizEthUserData in
      s\<lparr>mem := m, drv := pfnSendPacket (tNetworkIf s) ptPacket sizPacket (drv s)\<rparr>)"

definition eth_get_empty_packet :: "('d, 'w, 'z) eth_scheme \<Rightarrow> ptr \<times> ('d, 'w, 'z) eth_scheme" where
  "eth_get_empty_packet s =
     (case pfnGetEmptyPacket (tNetworkIf s) (drv s) of (p, d) \<Rightarrow> (p, s\<lparr>drv := d\<rparr>))"

definition eth_release_packet :: "ptr \<Rightarrow> ('d, 'w, 'z) eth_scheme \<Rightarrow> ('d, 'w, 'z) eth_scheme" where
  "eth_release_packet ptPacket s = s\<lparr>drv := pfnReleasePacket (tNetworkIf s) ptPacket (drv s)\<rparr>"

definition eth_get_link_status :: "('d, 'w, 'z) eth_scheme \<Rightarrow> u32 \<times> ('d, 'w, 'z) eth_scheme" where
  "eth_get_link_status s =
     (case pfnGetLinkStatus (tNetworkIf s) (drv s) of (v, d) \<Rightarrow> (v, s\<lparr>drv := d\<rparr>))"

partial_function (option) eth_poll_link ::
    "'w stack_env \<Rightarrow> ('d, 'w, 'z) eth_scheme \<Rightarrow> (u32 \<times> ('d, 'w, 'z) eth_scheme) option" where
  "eth_poll_link pf s =
     (case eth_get_link_status (s\<lparr>env := rdy_run_blinki pf (env s)\<rparr>) of (uiLinkStatus, s) \<Rightarrow>
        if uiLinkStatus = 0 then eth_poll_link pf s else Some (uiLinkStatus, s))"

definition eth_wait_for_link_up ::
    "'w stack_env \<Rightarrow> ('d, 'w, 'z) eth_scheme \<Rightarrow> (u32 \<times> ('d, 'w, 'z) eth_scheme) option" where
  "eth_wait_for_link_up pf s =
     (case eth_poll_link pf (s\<lparr>env := rdy_run_blinki_init pf 0x33 0x100000 (env s)\<rparr>) of
        None \<Rightarrow> None
      | Some (uiLinkStatus, s) \<Rightarrow> Some (uiLinkStatus, s\<lparr>env := rdy_run_setLEDs_off pf (env s)\<rparr>))"

definition eth_deactivate :: "('d, 'w, 'z) eth_scheme \<Rightarrow> ('d, 'w, 'z) eth_scheme" where
  "eth_deactivate s = s\<lparr>drv := pfnDeactivate (tNetworkIf s) (drv s)\<rparr>"

definition get_ms :: "'w stack_env \<Rightarrow> ('d, 'w, 'z) eth_scheme \<Rightarrow> u32 \<times> ('d, 'w, 'z) eth_scheme" where
  "get_ms pf s = (case systime_get_ms pf (env s) of (t, w) \<Rightarrow> (t, s\<lparr>env := w\<rparr>))"

definition is_elapsed ::
    "'w stack_env \<Rightarrow> u32 \<Rightarrow> u32 \<Rightarrow> ('d, 'w, 'z) eth_scheme \<Rightarrow> u32 \<times> ('d, 'w, 'z) eth_scheme" where
  "is_elapsed pf ulStart ulDuration s =
     (case systime_handle_is_elapsed pf ulStart ulDuration (env s) of (r, w) \<Rightarrow> (r, s\<lparr>env := w\<rparr>))"


subsection \<open>What the operations leave unchanged\<close>

lemma mem_eth_get_empty_packet [simp]: "mem (snd (eth_get_empty_packet s)) = mem s"
  by (simp add: eth_get_empty_packet_def split: prod.split)

lemma mem_eth_release_packet [simp]: "mem (eth_release_packet p s) = mem s"
  by (simp add: eth_release_packet_def)

text \<open>Every operation of this layer changes at most the memory and the driver.\<close>

lemma eth_send_packet_frame: "\<exists>m d. eth_send_packet p n mac t s = s\<lparr>mem := m, drv := d\<rparr>"
  by (auto simp: eth_send_packet_def Let_def)

lemma eth_get_empty_packet_frame: "eth_get_empty_packet s = (p, s') \<Longrightarrow> \<exists>d. s' = s\<lparr>drv := d\<rparr>"
  by (auto simp: eth_get_empty_packet_def split: prod.splits)

lemma eth_release_packet_frame: "\<exists>d. eth_release_packet p s = s\<lparr>drv := d\<rparr>"
  by (auto simp: eth_release_packet_def)

lemma get_ms_frame: "get_ms pf s = (t, s') \<Longrightarrow> \<exists>w. s' = s\<lparr>env := w\<rparr>"
  by (auto simp: get_ms_def split: prod.splits)

lemma is_elapsed_frame: "is_elapsed pf a b s = (t, s') \<Longrightarrow> \<exists>w. s' = s\<lparr>env := w\<rparr>"
  by (auto simp: is_elapsed_def split: prod.splits)

subsection \<open>Byte order lemmas\<close>

lemma bit_MUS2NUS: "bit (MUS2NUS a) n \<longleftrightarrow> (n < 8 \<and> bit a (n + 8)) \<or> (8 \<le> n \<and> n < 16 \<and> bit a (n - 8))"
proof -
  have e: "(0xff :: u32) = mask 8" by (simp add: mask_eq_exp_minus_1)
  show ?thesis unfolding MUS2NUS_def e by (auto simp: bit_simps add.commute)
qed

lemma NUS2MUS_MUS2NUS: "NUS2MUS (MUS2NUS a) = a AND 0xffff"
proof -
  have e: "(0xffff :: u32) = mask 16" by (simp add: mask_eq_exp_minus_1)
  show ?thesis unfolding e NUS2MUS_def
    by (rule bit_word_eqI) (auto simp: bit_simps bit_MUS2NUS)
qed

lemma MUS2NUS_NUS2MUS [simp]: "MUS2NUS (NUS2MUS a) = a"
  by (rule bit_word_eqI) (auto simp: bit_simps bit_MUS2NUS NUS2MUS_def)

lemma MUS2NUS_ucast_MUS2NUS: "MUS2NUS (ucast (MUS2NUS a)) = ucast a"
  by (rule bit_word_eqI) (auto simp: bit_simps bit_MUS2NUS)

text \<open>A value in network order has its high byte at the lower address.\<close>

lemma MUS2NUS_bytes:
  "(ucast (MUS2NUS a) :: u8) = ucast (drop_bit 8 a)" "(ucast (drop_bit 8 (MUS2NUS a)) :: u8) = ucast a"
  by (rule bit_word_eqI, auto simp: bit_simps bit_MUS2NUS add.commute)+

lemma unat_of_le16: "unat (of_le16 a b) = unat a + 256 * unat b"
proof -
  have "(ucast a :: u16) AND push_bit 8 (ucast b) = 0"
    by (rule bit_word_eqI) (auto simp: bit_simps dest: bit_imp_le_length)
  then have "of_le16 a b = ucast a + push_bit 8 (ucast b)"
    by (simp add: of_le16_def disjunctive_add_eq_or)
  moreover have "unat a + 256 * unat b < 65536" using unat_u8_less [of a] unat_u8_less [of b] by linarith
  ultimately show ?thesis by (simp add: push_bit_eq_mult unat_word_ariths mult.commute mod_add_right_eq mod_mult_right_eq)
qed

lemma MUS2NUS_of_le16: "MUS2NUS (ucast (of_le16 hi lo)) = of_le16 lo hi"
  by (rule bit_word_eqI) (auto simp: bit_simps bit_MUS2NUS of_le16_def dest: bit_imp_le_length)

lemma unat_NUS2MUS: "unat (NUS2MUS (of_le16 hi lo)) = 256 * unat hi + unat lo"
  by (simp add: NUS2MUS_def MUS2NUS_of_le16 unat_of_le16)

subsection \<open>Frame buffers\<close>

text \<open>
  The operations on an interface that keeps the contract \<open>network_if\<close>. \<open>uses_if\<close> says that the stack
  uses this interface and that the driver is in a good state.
\<close>

definition uses_if :: "'d NETWORK_IF_T \<Rightarrow> ('d \<Rightarrow> bool) \<Rightarrow> ('d, 'w, 'z) eth_scheme \<Rightarrow> bool" where
  "uses_if nif ok s \<longleftrightarrow> tNetworkIf s = nif \<and> ok (drv s)"

context network_if
begin

lemma eth_get_empty_packet_pool:
  "uses_if nif if_ok s \<Longrightarrow> eth_get_empty_packet s = (p, s') \<Longrightarrow>
   uses_if nif if_ok s' \<and> (if p = NULL then pool (drv s') = pool (drv s) else frame p \<and> pool (drv s) = Suc (pool (drv s')))"
  using empty_law [of "drv s"] by (auto simp: uses_if_def eth_get_empty_packet_def split: prod.splits)

lemma eth_send_packet_pool:
  "uses_if nif if_ok s \<Longrightarrow> frame p \<Longrightarrow> pool (drv s) < cap \<Longrightarrow>
   uses_if nif if_ok (eth_send_packet p n mac t s) \<and> pool (drv (eth_send_packet p n mac t s)) = Suc (pool (drv s))"
  using send_law [of "drv s" p] by (auto simp: uses_if_def eth_send_packet_def Let_def)

lemma eth_release_packet_pool:
  "uses_if nif if_ok s \<Longrightarrow> frame p \<Longrightarrow> pool (drv s) < cap \<Longrightarrow>
   uses_if nif if_ok (eth_release_packet p s) \<and> pool (drv (eth_release_packet p s)) = Suc (pool (drv s))"
  using release_law [of "drv s" p] by (auto simp: uses_if_def eth_release_packet_def)

end

end
