(* ===== verification/Arp.thy ===== *)
theory Arp
  imports Eth
begin

text \<open>
  Address resolution (networking/stack/arp.c): the cache of the known and requested addresses and the
  queue of the packets that wait for an address. A pointer to an entry of one of the two arrays is
  the index of the entry, \<open>None\<close> is \<open>NULL\<close>. The array bounds are the constants of the source; the
  loops over an array are recursions over the list.
\<close>

subsection \<open>Data\<close>

definition ARP_CACHE_MAX_ENTRIES :: nat where "ARP_CACHE_MAX_ENTRIES = 8"
definition ARP_CACHE_MAX_AGE :: int where "ARP_CACHE_MAX_AGE = 0xff"
definition ARP_PACKET_QUEUE_MAX_ENTRIES :: nat where "ARP_PACKET_QUEUE_MAX_ENTRIES = 8"
definition ARP_OPCODE_REQUEST :: u16 where "ARP_OPCODE_REQUEST = MUS2NUS 1"
definition ARP_OPCODE_REPLY :: u16 where "ARP_OPCODE_REPLY = MUS2NUS 2"

datatype ARP_STATE_T = ARPSTATE_Unused | ARPSTATE_Requesting | ARPSTATE_Valid

record ARP_CACHE_ENTRY_T =
  ac_tState :: ARP_STATE_T
  ac_iAge :: int
  ac_ulIp :: u32
  ac_tMac :: "u8 list"
  ac_ulRequestTimeStamp :: u32
  ac_uiRetryCnt :: u32

record PACKET_QUEUE_ENTRY_T =
  pq_sizPacket :: u32
  pq_ulIp :: u32
  pq_ptPkt :: ptr

definition aucArpFixedHdr :: "u8 list" where
  "aucArpFixedHdr = [0x00, 0x01, 0x08, 0x00, 0x06, 0x04]"

record ('d, 'w) arp = "('d, 'w) eth" +
  atPacketQueue :: "PACKET_QUEUE_ENTRY_T list"
  aui_arp_cache :: "ARP_CACHE_ENTRY_T list"

text \<open>The macro \<open>IP_ADR\<close> of ipv4.h: the first byte of an address is the lowest byte of the value.\<close>

definition IP_ADR :: "u8 \<Rightarrow> u8 \<Rightarrow> u8 \<Rightarrow> u8 \<Rightarrow> u32" where
  "IP_ADR ip3 ip2 ip1 ip0 = push_bit 24 (ucast ip0) OR push_bit 16 (ucast ip1) OR push_bit 8 (ucast ip2) OR ucast ip3"

subsection \<open>Lookups\<close>

fun find_index :: "('a \<Rightarrow> bool) \<Rightarrow> 'a list \<Rightarrow> nat option" where
  "find_index P [] = None"
| "find_index P (x # xs) = (if P x then Some 0 else map_option Suc (find_index P xs))"

text \<open>The loop of \<open>arp_get_cache_entry\<close>: it ages the used entries before the hit.\<close>

fun arp_scan :: "u32 \<Rightarrow> ARP_CACHE_ENTRY_T list \<Rightarrow> nat option \<times> ARP_CACHE_ENTRY_T list" where
  "arp_scan ip [] = (None, [])"
| "arp_scan ip (e # es) =
     (if ac_tState e \<noteq> ARPSTATE_Unused \<and> ac_ulIp e = ip then (Some 0, e\<lparr>ac_iAge := 0\<rparr> # es)
      else let e' = (if ac_tState e \<noteq> ARPSTATE_Unused \<and> ac_iAge e < ARP_CACHE_MAX_AGE
                     then e\<lparr>ac_iAge := ac_iAge e + 1\<rparr> else e) in
        case arp_scan ip es of (hit, es') \<Rightarrow> (map_option Suc hit, e' # es'))"

definition arp_get_cache_entry :: "u32 \<Rightarrow> ('d, 'w, 'z) arp_scheme \<Rightarrow> nat option \<times> ('d, 'w, 'z) arp_scheme" where
  "arp_get_cache_entry ip s =
     (case arp_scan ip (aui_arp_cache s) of (hit, c) \<Rightarrow> (hit, s\<lparr>aui_arp_cache := c\<rparr>))"

definition arp_get_waiting_packet :: "u32 \<Rightarrow> PACKET_QUEUE_ENTRY_T list \<Rightarrow> nat option" where
  "arp_get_waiting_packet ip q = find_index (\<lambda>e. pq_sizPacket e \<noteq> 0 \<and> pq_ulIp e = ip) q"

text \<open>Marking an entry of the queue as processed; the number of waiting packets goes down.\<close>

definition queue_clear :: "nat \<Rightarrow> PACKET_QUEUE_ENTRY_T list \<Rightarrow> PACKET_QUEUE_ENTRY_T list" where
  "queue_clear i q = q[i := (q ! i)\<lparr>pq_sizPacket := 0\<rparr>]"

definition waiting :: "PACKET_QUEUE_ENTRY_T list \<Rightarrow> PACKET_QUEUE_ENTRY_T list" where
  "waiting q = filter (\<lambda>e. pq_sizPacket e \<noteq> 0) q"

lemma find_index_Some: "find_index P xs = Some i \<Longrightarrow> i < length xs \<and> P (xs ! i) \<and> (\<forall>j < i. \<not> P (xs ! j))"
  by (induction xs arbitrary: i) (auto simp: nth_Cons less_Suc_eq_0_disj split: if_splits nat.splits)

lemma find_index_None: "find_index P xs = None \<longleftrightarrow> (\<forall>x \<in> set xs. \<not> P x)"
  by (induction xs) auto

lemma waiting_clear:
  "i < length q \<Longrightarrow> pq_sizPacket (q ! i) \<noteq> 0 \<Longrightarrow> Suc (length (waiting (queue_clear i q))) = length (waiting q)"
proof -
  assume i: "i < length q" and n: "pq_sizPacket (q ! i) \<noteq> 0"
  let ?e = "(q ! i)\<lparr>pq_sizPacket := 0\<rparr>"
  have "length (waiting q) = length (waiting (take i q @ q ! i # drop (Suc i) q))"
    using i by (simp add: Cons_nth_drop_Suc)
  then have "length (waiting q) = length (waiting (take i q)) + 1 + length (waiting (drop (Suc i) q))"
    using n by (simp add: waiting_def)
  moreover have "queue_clear i q = take i q @ ?e # drop (Suc i) q"
    using i by (simp add: queue_clear_def upd_conv_take_nth_drop)
  ultimately show ?thesis by (simp add: waiting_def)
qed

lemma waiting_clear_hit:
  "arp_get_waiting_packet ip q = Some i \<Longrightarrow> length (waiting (queue_clear i q)) < length (waiting q)"
  using waiting_clear [of i q] by (auto simp: arp_get_waiting_packet_def dest: find_index_Some)

subsection \<open>Packets\<close>

function arp_process_waiting_entries :: "u32 \<Rightarrow> ptr \<Rightarrow> ('d, 'w, 'z) arp_scheme \<Rightarrow> ('d, 'w, 'z) arp_scheme" where
  "arp_process_waiting_entries ulNewIp ptMac s =
     (case arp_get_waiting_packet ulNewIp (atPacketQueue s) of
        None \<Rightarrow> s
      | Some i \<Rightarrow>
          let e = atPacketQueue s ! i;
              s' = eth_send_packet (pq_ptPkt e) (pq_sizPacket e) (rdbytes (mem s) ptMac 6) ETH2HEADER_TYP_IP s in
          arp_process_waiting_entries ulNewIp ptMac (s'\<lparr>atPacketQueue := queue_clear i (atPacketQueue s)\<rparr>))"
  by pat_completeness auto

termination arp_process_waiting_entries
  by (relation "measure (\<lambda>(ip, p, s). length (waiting (atPacketQueue s)))") (auto simp: waiting_clear_hit)

declare arp_process_waiting_entries.simps [simp del]

definition arp_add_waiting_packet ::
    "ptr \<Rightarrow> u32 \<Rightarrow> u32 \<Rightarrow> ('d, 'w, 'z) arp_scheme \<Rightarrow> nat option \<times> ('d, 'w, 'z) arp_scheme" where
  "arp_add_waiting_packet ptPkt sizPacket ulDstIp s =
     (case find_index (\<lambda>e. pq_sizPacket e = 0) (atPacketQueue s) of
        None \<Rightarrow> (None, s)
      | Some i \<Rightarrow> (Some i, s\<lparr>atPacketQueue := (atPacketQueue s)[i :=
          \<lparr>pq_sizPacket = sizPacket, pq_ulIp = ulDstIp, pq_ptPkt = ptPkt\<rparr>]\<rparr>))"

text \<open>The loop of \<open>arp_set_mac_request\<close>: the first unused entry, else the oldest valid one, else the
  first entry of the cache.\<close>

fun arp_find_free :: "ARP_CACHE_ENTRY_T list \<Rightarrow> nat \<Rightarrow> int \<Rightarrow> nat \<Rightarrow> nat" where
  "arp_find_free [] i iTopAge ptFree = ptFree"
| "arp_find_free (e # es) i iTopAge ptFree =
     (if ac_tState e = ARPSTATE_Valid then
        if ac_iAge e > iTopAge then arp_find_free es (Suc i) (ac_iAge e) i
        else arp_find_free es (Suc i) iTopAge ptFree
      else if ac_tState e = ARPSTATE_Unused then i
      else arp_find_free es (Suc i) iTopAge ptFree)"

definition arp_set_mac_request :: "'w stack_env \<Rightarrow> u32 \<Rightarrow> ('d, 'w, 'z) arp_scheme \<Rightarrow> ('d, 'w, 'z) arp_scheme" where
  "arp_set_mac_request pf ip s =
     (let i = arp_find_free (aui_arp_cache s) 0 (-1) 0 in
      case get_ms pf s of (t, s) \<Rightarrow>
        s\<lparr>aui_arp_cache := (aui_arp_cache s)[i := (aui_arp_cache s ! i)\<lparr>ac_tState := ARPSTATE_Requesting,
          ac_iAge := 0, ac_ulIp := ip, ac_ulRequestTimeStamp := t,
          ac_uiRetryCnt := ucast (ucArpRetries (eth_options s))\<rparr>]\<rparr>)"

definition arp_send_request :: "u32 \<Rightarrow> ('d, 'w, 'z) arp_scheme \<Rightarrow> ('d, 'w, 'z) arp_scheme" where
  "arp_send_request ip s =
     (case eth_get_empty_packet s of (p, s) \<Rightarrow>
        if p \<noteq> NULL then
          let m = wrbytes (mem s) (tArpPkt p) aucArpFixedHdr;
              m = wr16 m (arp_usOpcode p) ARP_OPCODE_REQUEST;
              m = wrbytes m (arp_tSrcMacAdr p) (aucMac (eth_options s));
              m = wr32 m (arp_ulSrcIpAdr p) (ulIp (eth_options s));
              m = memset m (arp_tDstMacAdr p) 0 6;
              m = wr32 m (arp_ulDstIpAdr p) ip in
          eth_send_packet p sizeof_ARP_PACKET_T g_tBroadcastMac ETH2HEADER_TYP_ARP (s\<lparr>mem := m\<rparr>)
        else s)"

definition arp_init :: "('d, 'w, 'z) arp_scheme \<Rightarrow> ('d, 'w, 'z) arp_scheme" where
  "arp_init s = s\<lparr>atPacketQueue := map (\<lambda>e. e\<lparr>pq_sizPacket := 0\<rparr>) (atPacketQueue s),
     aui_arp_cache := map (\<lambda>e. e\<lparr>ac_tState := ARPSTATE_Unused\<rparr>) (aui_arp_cache s)\<rparr>"

text \<open>The request handler looks at five bytes of the destination MAC.\<close>

definition arp_process_request :: "ptr \<Rightarrow> ('d, 'w, 'z) arp_scheme \<Rightarrow> ('d, 'w, 'z) arp_scheme" where
  "arp_process_request ptEthPkt s =
     (if rd32 (mem s) (arp_ulDstIpAdr ptEthPkt) = ulIp (eth_options s) then
        let uiMacOr = fold (\<lambda>iCnt v. v OR ucast (mem s (arp_tDstMacAdr ptEthPkt + of_nat iCnt))) [0..<5] (0 :: u32) in
        if uiMacOr = 0 then
          (case eth_get_empty_packet s of (p, s) \<Rightarrow>
             if p \<noteq> NULL then
               let m = wrbytes (mem s) (tArpPkt p) aucArpFixedHdr;
                   m = wr16 m (arp_usOpcode p) ARP_OPCODE_REPLY;
                   m = wrbytes m (arp_tSrcMacAdr p) (aucMac (eth_options s));
                   m = wr32 m (arp_ulSrcIpAdr p) (ulIp (eth_options s));
                   m = wrbytes m (arp_tDstMacAdr p) (rdbytes m (arp_tSrcMacAdr ptEthPkt) 6);
                   m = wr32 m (arp_ulDstIpAdr p) (rd32 m (arp_ulSrcIpAdr ptEthPkt)) in
               eth_send_packet p sizeof_ARP_PACKET_T (rdbytes m (eth_tSrcMac ptEthPkt) 6) ETH2HEADER_TYP_ARP
                 (s\<lparr>mem := m\<rparr>)
             else s)
        else s
      else s)"

definition arp_process_reply :: "ptr \<Rightarrow> ('d, 'w, 'z) arp_scheme \<Rightarrow> ('d, 'w, 'z) arp_scheme" where
  "arp_process_reply ptEthPkt s =
     (if rd32 (mem s) (arp_ulDstIpAdr ptEthPkt) = ulIp (eth_options s) then
        if rdbytes (mem s) (arp_tDstMacAdr ptEthPkt) 6 = aucMac (eth_options s) then
          let ulSrcIp = rd32 (mem s) (arp_ulSrcIpAdr ptEthPkt) in
          (case arp_get_cache_entry ulSrcIp s of (hit, s) \<Rightarrow>
           case hit of
             None \<Rightarrow> s
           | Some i \<Rightarrow>
               if ac_tState (aui_arp_cache s ! i) = ARPSTATE_Requesting then
                 let ptSrcMac = arp_tSrcMacAdr ptEthPkt;
                     s = s\<lparr>aui_arp_cache := (aui_arp_cache s)[i := (aui_arp_cache s ! i)\<lparr>ac_tState := ARPSTATE_Valid,
                       ac_iAge := 0, ac_tMac := rdbytes (mem s) ptSrcMac 6\<rparr>]\<rparr> in
                 arp_process_waiting_entries ulSrcIp ptSrcMac s
               else s)
        else s
      else s)"

definition arp_process_packet :: "ptr \<Rightarrow> u32 \<Rightarrow> ('d, 'w, 'z) arp_scheme \<Rightarrow> ('d, 'w, 'z) arp_scheme" where
  "arp_process_packet ptEthPkt sizPacket s =
     (if sizPacket \<ge> sizeof_ETH2_HEADER_T + sizeof_ARP_PACKET_T then
        if rdbytes (mem s) (tArpPkt ptEthPkt) 6 = aucArpFixedHdr then
          let uiOpcode = rd16 (mem s) (arp_usOpcode ptEthPkt) in
          if uiOpcode = ARP_OPCODE_REQUEST then arp_process_request ptEthPkt s
          else if uiOpcode = ARP_OPCODE_REPLY then arp_process_reply ptEthPkt s
          else s
        else s
      else s)"

definition arp_multicast_mac :: "u32 \<Rightarrow> u8 list" where
  "arp_multicast_mac ulDstIp = [0x01, 0x00, 0x5e, ucast (drop_bit 16 ulDstIp AND 0xff),
     ucast (drop_bit 8 ulDstIp AND 0xff), ucast (ulDstIp AND 0xff)]"

definition arp_send_ipv4_packet ::
    "'w stack_env \<Rightarrow> ptr \<Rightarrow> u32 \<Rightarrow> u32 \<Rightarrow> ('d, 'w, 'z) arp_scheme \<Rightarrow> ('d, 'w, 'z) arp_scheme" where
  "arp_send_ipv4_packet pf ptPkt sizPacket ulDstIp s =
     (if ulDstIp = IP_ADR 255 255 255 255 then
        eth_send_packet ptPkt sizPacket g_tBroadcastMac ETH2HEADER_TYP_IP s
      else if ulDstIp AND IP_ADR 0xf0 0 0 0 = IP_ADR 0xe0 0 0 0 then
        eth_send_packet ptPkt sizPacket (arp_multicast_mac ulDstIp) ETH2HEADER_TYP_IP s
      else
        case arp_get_cache_entry ulDstIp s of (hit, s) \<Rightarrow>
        (case hit of
           None \<Rightarrow>
             (case arp_add_waiting_packet ptPkt sizPacket ulDstIp s of (ptQueueEntry, s) \<Rightarrow>
                if ptQueueEntry \<noteq> None then arp_send_request ulDstIp (arp_set_mac_request pf ulDstIp s) else s)
         | Some i \<Rightarrow>
             if ac_tState (aui_arp_cache s ! i) = ARPSTATE_Requesting then
               snd (arp_add_waiting_packet ptPkt sizPacket ulDstIp s)
             else
               eth_send_packet ptPkt sizPacket (ac_tMac (aui_arp_cache s ! i)) ETH2HEADER_TYP_IP s))"

subsection \<open>Timer\<close>

text \<open>The loop that releases the packets for an address that did not answer.\<close>

function arp_drop_waiting_entries :: "u32 \<Rightarrow> ('d, 'w, 'z) arp_scheme \<Rightarrow> ('d, 'w, 'z) arp_scheme" where
  "arp_drop_waiting_entries ip s =
     (case arp_get_waiting_packet ip (atPacketQueue s) of
        None \<Rightarrow> s
      | Some i \<Rightarrow>
          arp_drop_waiting_entries ip
            ((eth_release_packet (pq_ptPkt (atPacketQueue s ! i)) s)\<lparr>atPacketQueue := queue_clear i (atPacketQueue s)\<rparr>))"
  by pat_completeness auto

termination arp_drop_waiting_entries
  by (relation "measure (\<lambda>(ip, s). length (waiting (atPacketQueue s)))") (auto simp: waiting_clear_hit)

declare arp_drop_waiting_entries.simps [simp del]

definition arp_timer_entry :: "'w stack_env \<Rightarrow> nat \<Rightarrow> ('d, 'w, 'z) arp_scheme \<Rightarrow> ('d, 'w, 'z) arp_scheme" where
  "arp_timer_entry pf i s =
     (let e = aui_arp_cache s ! i in
      if ac_tState e = ARPSTATE_Requesting then
        (case is_elapsed pf (ac_ulRequestTimeStamp e) (ucast (usArpTimeout (eth_options s))) s of (iRes, s) \<Rightarrow>
           if iRes \<noteq> 0 then
             if ac_uiRetryCnt e > 0 then
               (case get_ms pf (arp_send_request (ac_ulIp e) s) of (t, s) \<Rightarrow>
                  s\<lparr>aui_arp_cache := (aui_arp_cache s)[i := e\<lparr>ac_ulRequestTimeStamp := t,
                    ac_uiRetryCnt := ac_uiRetryCnt e - 1\<rparr>]\<rparr>)
             else arp_drop_waiting_entries (ac_ulIp e)
               (s\<lparr>aui_arp_cache := (aui_arp_cache s)[i := e\<lparr>ac_tState := ARPSTATE_Unused\<rparr>]\<rparr>)
           else s)
      else s)"

definition arp_timer :: "'w stack_env \<Rightarrow> ('d, 'w, 'z) arp_scheme \<Rightarrow> ('d, 'w, 'z) arp_scheme" where
  "arp_timer pf s = fold (arp_timer_entry pf) [0..<ARP_CACHE_MAX_ENTRIES] s"


subsection \<open>What the operations leave unchanged\<close>

text \<open>Every operation of this layer changes at most the memory, the driver, the platform, the queue and
  the cache.\<close>

definition arp_keeps :: "('d, 'w, 'z) arp_scheme \<Rightarrow> ('d, 'w, 'z) arp_scheme \<Rightarrow> bool" where
  "arp_keeps s s' \<longleftrightarrow> tNetworkIf s' = tNetworkIf s \<and> g_t_romloader_options s' = g_t_romloader_options s \<and>
     arp.more s' = arp.more s"

lemma arp_keeps_refl [simp]: "arp_keeps s s"
  by (simp add: arp_keeps_def)

lemma arp_keeps_trans: "arp_keeps s s' \<Longrightarrow> arp_keeps s' s'' \<Longrightarrow> arp_keeps s s''"
  by (simp add: arp_keeps_def)

lemma arp_keeps_upd [simp]:
  "arp_keeps s (s'\<lparr>mem := m\<rparr>) \<longleftrightarrow> arp_keeps s s'" "arp_keeps s (s'\<lparr>env := w\<rparr>) \<longleftrightarrow> arp_keeps s s'"
  "arp_keeps s (s'\<lparr>drv := d\<rparr>) \<longleftrightarrow> arp_keeps s s'" "arp_keeps s (s'\<lparr>atPacketQueue := q\<rparr>) \<longleftrightarrow> arp_keeps s s'"
  "arp_keeps s (s'\<lparr>aui_arp_cache := c\<rparr>) \<longleftrightarrow> arp_keeps s s'"
  by (simp_all add: arp_keeps_def)

lemma arp_keeps_eth [simp]:
  "arp_keeps s (eth_send_packet p n mac t s') \<longleftrightarrow> arp_keeps s s'"
  "arp_keeps s (eth_release_packet p s') \<longleftrightarrow> arp_keeps s s'"
  "arp_keeps s (snd (eth_get_empty_packet s')) \<longleftrightarrow> arp_keeps s s'"
  "arp_keeps s (snd (get_ms pf s')) \<longleftrightarrow> arp_keeps s s'"
  "arp_keeps s (snd (is_elapsed pf a b s')) \<longleftrightarrow> arp_keeps s s'"
  by (simp_all add: eth_send_packet_def Let_def eth_release_packet_def eth_get_empty_packet_def get_ms_def
    is_elapsed_def split: prod.split)

lemma arp_keeps_process_waiting [simp]: "arp_keeps s (arp_process_waiting_entries ip p s') \<longleftrightarrow> arp_keeps s s'"
  by (induction ip p s' rule: arp_process_waiting_entries.induct)
    (subst arp_process_waiting_entries.simps, simp add: Let_def split: option.split)

lemma arp_keeps_drop_waiting [simp]: "arp_keeps s (arp_drop_waiting_entries ip s') \<longleftrightarrow> arp_keeps s s'"
  by (induction ip s' rule: arp_drop_waiting_entries.induct)
    (subst arp_drop_waiting_entries.simps, simp split: option.split)

lemma arp_keeps_parts [simp]:
  "arp_keeps s (snd (arp_get_cache_entry ip s')) \<longleftrightarrow> arp_keeps s s'"
  "arp_keeps s (snd (arp_add_waiting_packet p n ip s')) \<longleftrightarrow> arp_keeps s s'"
  "arp_keeps s (arp_set_mac_request pf ip s') \<longleftrightarrow> arp_keeps s s'"
  "arp_keeps s (arp_send_request ip s') \<longleftrightarrow> arp_keeps s s'"
  by (simp_all add: arp_get_cache_entry_def arp_add_waiting_packet_def arp_set_mac_request_def arp_send_request_def
    Let_def case_prod_beta split: option.split)

lemma arp_keeps_init [simp]: "arp_keeps s (arp_init s') \<longleftrightarrow> arp_keeps s s'"
  by (simp add: arp_init_def)

lemma arp_keeps_send [simp]: "arp_keeps s (arp_send_ipv4_packet pf p n ip s') \<longleftrightarrow> arp_keeps s s'"
  by (simp add: arp_send_ipv4_packet_def case_prod_beta split: option.split)

lemma arp_keeps_packet [simp]: "arp_keeps s (arp_process_packet p n s') \<longleftrightarrow> arp_keeps s s'"
  by (simp add: arp_process_packet_def arp_process_request_def arp_process_reply_def Let_def case_prod_beta
    split: option.split)

lemma arp_keeps_timer_entry [simp]: "arp_keeps s (arp_timer_entry pf i s') \<longleftrightarrow> arp_keeps s s'"
  by (simp add: arp_timer_entry_def Let_def case_prod_beta)

lemma arp_keeps_timer [simp]: "arp_keeps s (arp_timer pf s') \<longleftrightarrow> arp_keeps s s'"
proof -
  have "arp_keeps s (fold (arp_timer_entry pf) is s') \<longleftrightarrow> arp_keeps s s'" for "is"
    by (induction "is" arbitrary: s') auto
  then show ?thesis by (simp add: arp_timer_def)
qed


subsection \<open>The invariant of cache and queue\<close>

definition used_ips :: "ARP_CACHE_ENTRY_T list \<Rightarrow> u32 list" where
  "used_ips c = map ac_ulIp (filter (\<lambda>e. ac_tState e \<noteq> ARPSTATE_Unused) c)"

definition req_ips :: "ARP_CACHE_ENTRY_T list \<Rightarrow> u32 list" where
  "req_ips c = map ac_ulIp (filter (\<lambda>e. ac_tState e = ARPSTATE_Requesting) c)"

definition wait_ips :: "PACKET_QUEUE_ENTRY_T list \<Rightarrow> u32 list" where
  "wait_ips q = map pq_ulIp (waiting q)"

text \<open>No address has two entries, and the addresses the packets wait for are exactly the addresses that are
  requested.\<close>

definition arp_tables_ok :: "PACKET_QUEUE_ENTRY_T list \<Rightarrow> ARP_CACHE_ENTRY_T list \<Rightarrow> bool" where
  "arp_tables_ok q c \<longleftrightarrow> length q = ARP_PACKET_QUEUE_MAX_ENTRIES \<and> length c = ARP_CACHE_MAX_ENTRIES \<and>
     list_all (\<lambda>e. 0 \<le> ac_iAge e \<and> ac_iAge e \<le> ARP_CACHE_MAX_AGE) c \<and> distinct (used_ips c) \<and>
     set (req_ips c) = set (wait_ips q)"

definition arp_inv :: "('d, 'w, 'z) arp_scheme \<Rightarrow> bool" where
  "arp_inv s \<longleftrightarrow> arp_tables_ok (atPacketQueue s) (aui_arp_cache s)"

lemma tables_upd_simps [simp]:
  "used_ips [] = []" "used_ips (e # c) = (if ac_tState e \<noteq> ARPSTATE_Unused then [ac_ulIp e] else []) @ used_ips c"
  "used_ips (c @ d) = used_ips c @ used_ips d"
  "req_ips [] = []" "req_ips (e # c) = (if ac_tState e = ARPSTATE_Requesting then [ac_ulIp e] else []) @ req_ips c"
  "req_ips (c @ d) = req_ips c @ req_ips d"
  "wait_ips [] = []" "wait_ips (x # q) = (if pq_sizPacket x \<noteq> 0 then [pq_ulIp x] else []) @ wait_ips q"
  "wait_ips (q @ r) = wait_ips q @ wait_ips r"
  by (simp_all add: used_ips_def req_ips_def wait_ips_def waiting_def)

lemma req_subset_used: "set (req_ips c) \<subseteq> set (used_ips c)"
  by (auto simp: req_ips_def used_ips_def)

lemma split_nth: "i < length xs \<Longrightarrow> \<exists>ys zs. xs = ys @ xs ! i # zs \<and> length ys = i"
  by (metis id_take_nth_drop length_take min.absorb4)

text \<open>A lookup in the cache changes only ages.\<close>

lemma arp_scan_sig:
  "arp_scan ip c = (hit, c') \<Longrightarrow> used_ips c' = used_ips c \<and> req_ips c' = req_ips c \<and> length c' = length c \<and>
     map ac_tState c' = map ac_tState c \<and> map ac_ulIp c' = map ac_ulIp c \<and> map ac_tMac c' = map ac_tMac c"
  by (induction c arbitrary: hit c') (auto simp: Let_def split: if_splits prod.splits)

lemma arp_scan_ages:
  "arp_scan ip c = (hit, c') \<Longrightarrow> list_all (\<lambda>e. 0 \<le> ac_iAge e \<and> ac_iAge e \<le> ARP_CACHE_MAX_AGE) c \<Longrightarrow>
     list_all (\<lambda>e. 0 \<le> ac_iAge e \<and> ac_iAge e \<le> ARP_CACHE_MAX_AGE) c'"
  by (induction c arbitrary: hit c') (auto simp: Let_def ARP_CACHE_MAX_AGE_def split: if_splits prod.splits)

lemma arp_scan_None: "arp_scan ip c = (None, c') \<Longrightarrow> ip \<notin> set (used_ips c)"
  by (induction c arbitrary: c') (auto simp: Let_def split: if_splits prod.splits)

lemma arp_scan_Some:
  "arp_scan ip c = (Some i, c') \<Longrightarrow> i < length c' \<and> ac_tState (c' ! i) \<noteq> ARPSTATE_Unused \<and> ac_ulIp (c' ! i) = ip"
proof (induction c arbitrary: i c')
  case (Cons e c)
  then show ?case by (cases i) (auto simp: Let_def split: if_splits prod.splits)
qed simp

lemma arp_tables_scan: "arp_scan ip c = (hit, c') \<Longrightarrow> arp_tables_ok q c \<Longrightarrow> arp_tables_ok q c'"
  using arp_scan_sig [of ip c hit c'] arp_scan_ages [of ip c hit c'] by (simp add: arp_tables_ok_def)

text \<open>Queueing a packet for an address.\<close>

lemma wait_ips_update:
  assumes "i < length q" and "pq_sizPacket (q ! i) = 0" and "pq_sizPacket e \<noteq> 0"
  shows "set (wait_ips (q[i := e])) = insert (pq_ulIp e) (set (wait_ips q))"
    "length (waiting (q[i := e])) = Suc (length (waiting q))"
proof -
  obtain ys zs where q: "q = ys @ q ! i # zs" "length ys = i" using split_nth [OF assms(1)] by blast
  then have "q[i := e] = ys @ e # zs" by (metis list_update_length)
  moreover have "wait_ips q = wait_ips ys @ wait_ips zs" "waiting q = waiting ys @ waiting zs"
    using assms(2) by (subst q(1), simp add: waiting_def)+
  ultimately show "set (wait_ips (q[i := e])) = insert (pq_ulIp e) (set (wait_ips q))"
      "length (waiting (q[i := e])) = Suc (length (waiting q))"
    using assms(3) by (auto simp: waiting_def)
qed

lemma waiting_full: "find_index (\<lambda>e. pq_sizPacket e = 0) q = None \<longleftrightarrow> length (waiting q) = length q"
proof (induction q)
  case (Cons e q)
  have "length (waiting q) \<le> length q" unfolding waiting_def by (rule length_filter_le)
  then have "length (waiting q) \<noteq> Suc (length q)" by linarith
  then show ?case using Cons.IH by (auto simp: waiting_def)
qed (simp add: waiting_def)

text \<open>Choosing the entry for a new request. As long as one entry is not pending, a pending one is never
  chosen.\<close>

lemma arp_find_free_spec:
  "list_all (\<lambda>e. 0 \<le> ac_iAge e) c \<Longrightarrow> -1 \<le> old \<Longrightarrow>
   (let k = arp_find_free c i old f in
     (i \<le> k \<and> k < i + length c \<and> ac_tState (c ! (k - i)) \<noteq> ARPSTATE_Requesting) \<or>
     (k = f \<and> (old = -1 \<longrightarrow> list_all (\<lambda>e. ac_tState e = ARPSTATE_Requesting) c)))"
proof (induction c arbitrary: i old f)
  case (Cons e c)
  consider (older) "ac_tState e = ARPSTATE_Valid" "ac_iAge e > old" | (younger) "ac_tState e = ARPSTATE_Valid" "\<not> ac_iAge e > old"
    | (unused) "ac_tState e = ARPSTATE_Unused" | (req) "ac_tState e = ARPSTATE_Requesting"
    by (cases "ac_tState e") auto
  then show ?case
  proof cases
    case older
    let ?k = "arp_find_free c (Suc i) (ac_iAge e) i"
    have "(Suc i \<le> ?k \<and> ?k < Suc i + length c \<and> ac_tState (c ! (?k - Suc i)) \<noteq> ARPSTATE_Requesting) \<or> ?k = i"
      using Cons.IH [of "ac_iAge e" "Suc i" i] Cons.prems by (auto simp: Let_def)
    then show ?thesis using older by (auto simp: Let_def nth_Cons' Suc_diff_Suc)
  next
    case younger
    let ?k = "arp_find_free c (Suc i) old f"
    have "(Suc i \<le> ?k \<and> ?k < Suc i + length c \<and> ac_tState (c ! (?k - Suc i)) \<noteq> ARPSTATE_Requesting) \<or> ?k = f"
      using Cons.IH [of old "Suc i" f] Cons.prems by (auto simp: Let_def)
    then show ?thesis using younger Cons.prems by (auto simp: Let_def nth_Cons' Suc_diff_Suc)
  next
    case unused
    then show ?thesis by simp
  next
    case req
    let ?k = "arp_find_free c (Suc i) old f"
    have "(Suc i \<le> ?k \<and> ?k < Suc i + length c \<and> ac_tState (c ! (?k - Suc i)) \<noteq> ARPSTATE_Requesting) \<or>
        (?k = f \<and> (old = -1 \<longrightarrow> list_all (\<lambda>e. ac_tState e = ARPSTATE_Requesting) c))"
      using Cons.IH [of old "Suc i" f] Cons.prems by (auto simp: Let_def)
    then show ?thesis using req by (auto simp: Let_def nth_Cons' Suc_diff_Suc)
  qed
qed simp

text \<open>With a place left in the queue there is an entry that is not pending: distinct pending entries need
  distinct waiting packets.\<close>

lemma not_all_requesting:
  assumes ok: "arp_tables_ok q c" and room: "length (waiting q) < length q"
  shows "\<not> list_all (\<lambda>e. ac_tState e = ARPSTATE_Requesting) c"
proof
  assume all: "list_all (\<lambda>e. ac_tState e = ARPSTATE_Requesting) c"
  then have "req_ips c = map ac_ulIp c" "used_ips c = map ac_ulIp c"
    by (auto simp: req_ips_def used_ips_def list_all_iff intro!: arg_cong [where f = "map ac_ulIp"] filter_True)
  then have "card (set (req_ips c)) = length c" using ok distinct_card [of "map ac_ulIp c"] by (simp add: arp_tables_ok_def)
  moreover have "card (set (wait_ips q)) \<le> length (waiting q)"
    using card_length [of "wait_ips q"] by (simp add: wait_ips_def)
  ultimately show False
    using ok room by (simp add: arp_tables_ok_def ARP_PACKET_QUEUE_MAX_ENTRIES_def ARP_CACHE_MAX_ENTRIES_def)
qed

lemma arp_find_free_ok:
  assumes ok: "arp_tables_ok q c" and room: "length (waiting q) < length q"
  shows "arp_find_free c 0 (-1) 0 < length c \<and> ac_tState (c ! arp_find_free c 0 (-1) 0) \<noteq> ARPSTATE_Requesting"
proof -
  have "list_all (\<lambda>e. 0 \<le> ac_iAge e) c" using ok by (auto simp: arp_tables_ok_def list_all_iff)
  from arp_find_free_spec [OF this, of "-1" 0 0] not_all_requesting [OF assms] show ?thesis by (simp add: Let_def)
qed


lemma used_ips_update:
  assumes "i < length c"
  shows "\<exists>ys zs. c = ys @ c ! i # zs \<and> (\<forall>e. c[i := e] = ys @ e # zs)"
proof -
  obtain ys zs where "c = ys @ c ! i # zs" "length ys = i" using split_nth [OF assms] by blast
  then show ?thesis by (metis list_update_length)
qed

text \<open>A new request with its packet, and one more packet for a pending request.\<close>

lemma arp_tables_request:
  assumes ok: "arp_tables_ok q c" and new: "ip \<notin> set (used_ips c)"
    and i: "find_index (\<lambda>e. pq_sizPacket e = 0) q = Some i" and x: "pq_sizPacket x \<noteq> 0" "pq_ulIp x = ip"
    and e: "ac_tState e = ARPSTATE_Requesting" "ac_ulIp e = ip" "ac_iAge e = 0"
  shows "arp_tables_ok (q[i := x]) (c[arp_find_free c 0 (-1) 0 := e])"
proof -
  let ?k = "arp_find_free c 0 (-1) 0"
  have room: "length (waiting q) < length q" using i waiting_full [of q] length_filter_le [of _ q]
    by (metis option.distinct(1) nat_less_le waiting_def)
  from arp_find_free_ok [OF ok room] have k: "?k < length c" "ac_tState (c ! ?k) \<noteq> ARPSTATE_Requesting" by simp_all
  obtain ys zs where c: "c = ys @ c ! ?k # zs" "c[?k := e] = ys @ e # zs" using used_ips_update [OF k(1)] by blast
  have u: "used_ips c = used_ips ys @ used_ips [c ! ?k] @ used_ips zs" by (subst c(1)) simp
  have r: "req_ips c = req_ips ys @ req_ips zs" using k(2) by (subst c(1)) simp
  have w: "set (wait_ips (q[i := x])) = insert ip (set (wait_ips q))"
    using wait_ips_update [of i q x] find_index_Some [OF i] x by simp
  have "list_all (\<lambda>e. 0 \<le> ac_iAge e \<and> ac_iAge e \<le> ARP_CACHE_MAX_AGE) (ys @ c ! ?k # zs)"
    using ok c(1) by (simp add: arp_tables_ok_def)
  then have a: "list_all (\<lambda>e. 0 \<le> ac_iAge e \<and> ac_iAge e \<le> ARP_CACHE_MAX_AGE) (ys @ e # zs)"
    using e(3) by (simp add: ARP_CACHE_MAX_AGE_def)
  have "distinct (used_ips (ys @ e # zs))" "set (req_ips (ys @ e # zs)) = insert ip (set (req_ips c))"
    using ok new e u r by (auto simp: arp_tables_ok_def split: if_splits)
  moreover have "length (ys @ e # zs) = length c" by (simp only: c(2) [symmetric] length_list_update)
  ultimately show ?thesis using ok w a unfolding arp_tables_ok_def c(2) length_list_update by simp
qed

lemma arp_tables_more:
  assumes ok: "arp_tables_ok q c" and i: "find_index (\<lambda>e. pq_sizPacket e = 0) q = Some i"
    and x: "pq_sizPacket x \<noteq> 0" "pq_ulIp x \<in> set (req_ips c)"
  shows "arp_tables_ok (q[i := x]) c"
  using wait_ips_update [of i q x] find_index_Some [OF i] x ok by (auto simp: arp_tables_ok_def)

lemma req_ips_nth: "i < length c \<Longrightarrow> ac_tState (c ! i) = ARPSTATE_Requesting \<Longrightarrow> ac_ulIp (c ! i) \<in> set (req_ips c)"
  by (force simp: req_ips_def)

text \<open>An address leaves the pending ones together with its packets.\<close>

lemma wait_ips_clear_other:
  "i < length q \<Longrightarrow> pq_ulIp (q ! i) = ip \<Longrightarrow> set (wait_ips (queue_clear i q)) - {ip} = set (wait_ips q) - {ip}"
proof -
  assume i: "i < length q" and ip: "pq_ulIp (q ! i) = ip"
  obtain ys zs where q: "q = ys @ q ! i # zs" "length ys = i" using split_nth [OF i] by blast
  then have "queue_clear i q = ys @ (q ! i)\<lparr>pq_sizPacket := 0\<rparr> # zs" by (metis queue_clear_def list_update_length)
  then show ?thesis using ip by (subst (2) q(1)) auto
qed

definition queue_without :: "u32 \<Rightarrow> PACKET_QUEUE_ENTRY_T list \<Rightarrow> PACKET_QUEUE_ENTRY_T list \<Rightarrow> bool" where
  "queue_without ip q q' \<longleftrightarrow> length q' = length q \<and> set (wait_ips q') = set (wait_ips q) - {ip}"

lemma queue_without_None: "arp_get_waiting_packet ip q = None \<Longrightarrow> queue_without ip q q"
  by (auto simp: arp_get_waiting_packet_def find_index_None queue_without_def wait_ips_def waiting_def)

lemma queue_without_Some:
  "arp_get_waiting_packet ip q = Some i \<Longrightarrow> queue_without ip (queue_clear i q) q' \<Longrightarrow> queue_without ip q q'"
  using wait_ips_clear_other [of i q ip]
  by (auto simp: arp_get_waiting_packet_def queue_without_def queue_clear_def dest!: find_index_Some)

lemma arp_process_waiting_queue:
  "queue_without ip (atPacketQueue s) (atPacketQueue (arp_process_waiting_entries ip p s)) \<and>
   aui_arp_cache (arp_process_waiting_entries ip p s) = aui_arp_cache s"
proof (induction ip p s rule: arp_process_waiting_entries.induct)
  case (1 ip p s)
  show ?case
    using 1 by (subst (1 2) arp_process_waiting_entries.simps)
      (auto simp: Let_def eth_send_packet_def queue_without_None dest: queue_without_Some split: option.split)
qed

lemma arp_drop_waiting_queue:
  "queue_without ip (atPacketQueue s) (atPacketQueue (arp_drop_waiting_entries ip s)) \<and>
   aui_arp_cache (arp_drop_waiting_entries ip s) = aui_arp_cache s"
proof (induction ip s rule: arp_drop_waiting_entries.induct)
  case (1 ip s)
  show ?case
    using 1 by (subst (1 2) arp_drop_waiting_entries.simps)
      (auto simp: Let_def eth_release_packet_def queue_without_None dest: queue_without_Some split: option.split)
qed

lemma arp_tables_settle:
  assumes ok: "arp_tables_ok q c" and q: "queue_without ip q q'" and i: "i < length c"
    and req: "ac_tState (c ! i) = ARPSTATE_Requesting" "ac_ulIp (c ! i) = ip"
    and e: "ac_tState e \<noteq> ARPSTATE_Requesting" "ac_ulIp e = ip" "0 \<le> ac_iAge e" "ac_iAge e \<le> ARP_CACHE_MAX_AGE"
  shows "arp_tables_ok q' (c[i := e])"
proof -
  obtain ys zs where c: "c = ys @ c ! i # zs" "c[i := e] = ys @ e # zs" using used_ips_update [OF i] by blast
  have u: "used_ips c = used_ips ys @ ip # used_ips zs" using req by (subst c(1)) simp
  have r: "req_ips c = req_ips ys @ ip # req_ips zs" using req by (subst c(1)) simp
  have d: "distinct (used_ips ys @ ip # used_ips zs)" using ok u by (simp add: arp_tables_ok_def)
  then have n: "ip \<notin> set (req_ips ys)" "ip \<notin> set (req_ips zs)"
    using req_subset_used [of ys] req_subset_used [of zs] by auto
  have "list_all (\<lambda>e. 0 \<le> ac_iAge e \<and> ac_iAge e \<le> ARP_CACHE_MAX_AGE) (ys @ c ! i # zs)"
    using ok c(1) by (simp add: arp_tables_ok_def)
  then have a: "list_all (\<lambda>e. 0 \<le> ac_iAge e \<and> ac_iAge e \<le> ARP_CACHE_MAX_AGE) (ys @ e # zs)" using e by simp
  have "distinct (used_ips (ys @ e # zs))" "set (req_ips (ys @ e # zs)) = set (req_ips c) - {ip}"
    using d e n r by auto
  moreover have "length (ys @ e # zs) = length c" by (simp only: c(2) [symmetric] length_list_update)
  ultimately show ?thesis using ok q a unfolding arp_tables_ok_def queue_without_def c(2) by simp
qed


subsection \<open>The operations keep the invariant\<close>

lemma arp_tables_eth [simp]:
  "atPacketQueue (eth_send_packet p n mac t s) = atPacketQueue s" "aui_arp_cache (eth_send_packet p n mac t s) = aui_arp_cache s"
  "atPacketQueue (eth_release_packet p s) = atPacketQueue s" "aui_arp_cache (eth_release_packet p s) = aui_arp_cache s"
  "atPacketQueue (snd (eth_get_empty_packet s)) = atPacketQueue s" "aui_arp_cache (snd (eth_get_empty_packet s)) = aui_arp_cache s"
  "atPacketQueue (snd (get_ms pf s)) = atPacketQueue s" "aui_arp_cache (snd (get_ms pf s)) = aui_arp_cache s"
  "atPacketQueue (snd (is_elapsed pf a b s)) = atPacketQueue s" "aui_arp_cache (snd (is_elapsed pf a b s)) = aui_arp_cache s"
  by (simp_all add: eth_send_packet_def Let_def eth_release_packet_def eth_get_empty_packet_def get_ms_def
    is_elapsed_def split: prod.split)

lemma arp_tables_send_request [simp]:
  "atPacketQueue (arp_send_request ip s) = atPacketQueue s" "aui_arp_cache (arp_send_request ip s) = aui_arp_cache s"
  by (simp_all add: arp_send_request_def Let_def case_prod_beta)

lemma arp_inv_init:
  "length (atPacketQueue s) = ARP_PACKET_QUEUE_MAX_ENTRIES \<Longrightarrow> length (aui_arp_cache s) = ARP_CACHE_MAX_ENTRIES \<Longrightarrow>
   list_all (\<lambda>e. 0 \<le> ac_iAge e \<and> ac_iAge e \<le> ARP_CACHE_MAX_AGE) (aui_arp_cache s) \<Longrightarrow> arp_inv (arp_init s)"
  by (simp add: arp_inv_def arp_init_def arp_tables_ok_def list_all_iff used_ips_def req_ips_def wait_ips_def waiting_def
    filter_map comp_def)

lemma arp_inv_request: "arp_inv (arp_process_request p s) \<longleftrightarrow> arp_inv s"
  by (simp add: arp_inv_def arp_process_request_def Let_def case_prod_beta)

lemma arp_inv_reply:
  assumes "arp_inv s"
  shows "arp_inv (arp_process_reply p s)"
proof (cases "arp_scan (rd32 (mem s) (p + 28)) (aui_arp_cache s)")
  case (Pair hit c)
  have ok: "arp_tables_ok (atPacketQueue s) c"
    using assms arp_tables_scan [OF Pair] by (simp add: arp_inv_def)
  show ?thesis
  proof (cases hit)
    case None
    then show ?thesis using assms ok Pair by (simp add: arp_inv_def arp_process_reply_def arp_get_cache_entry_def Let_def)
  next
    case (Some i)
    let ?ip = "rd32 (mem s) (p + 28)"
    let ?s = "s\<lparr>aui_arp_cache := c[i := (c ! i)\<lparr>ac_tState := ARPSTATE_Valid, ac_iAge := 0, ac_tMac := rdbytes (mem s) (p + 22) 6\<rparr>]\<rparr>"
    have i: "i < length c" "ac_ulIp (c ! i) = ?ip" using arp_scan_Some [of ?ip "aui_arp_cache s" i c] Pair Some by simp_all
    have "arp_inv (arp_process_waiting_entries ?ip (p + 22) ?s)" if "ac_tState (c ! i) = ARPSTATE_Requesting"
      using arp_process_waiting_queue [of ?ip ?s "p + 22"] arp_tables_settle [OF ok _ i(1) that i(2)]
      by (simp add: arp_inv_def ARP_CACHE_MAX_AGE_def i(2))
    then show ?thesis using assms ok Pair Some
      by (simp add: arp_process_reply_def arp_get_cache_entry_def Let_def) (simp add: arp_inv_def)
  qed
qed

lemma arp_inv_packet: "arp_inv s \<Longrightarrow> arp_inv (arp_process_packet p n s)"
  by (simp add: arp_process_packet_def Let_def arp_inv_request arp_inv_reply)

lemma arp_inv_send:
  assumes "arp_inv s" and "n \<noteq> 0"
  shows "arp_inv (arp_send_ipv4_packet pf p n ip s)"
proof (cases "arp_scan ip (aui_arp_cache s)")
  case (Pair hit c)
  have ok: "arp_tables_ok (atPacketQueue s) c"
    using assms(1) arp_tables_scan [OF Pair] by (simp add: arp_inv_def)
  note defs = arp_inv_def arp_send_ipv4_packet_def arp_get_cache_entry_def arp_add_waiting_packet_def
    arp_set_mac_request_def case_prod_beta Let_def
  show ?thesis
  proof (cases hit)
    case None
    have "ip \<notin> set (used_ips c)"
      using arp_scan_None [of ip "aui_arp_cache s" c] arp_scan_sig [OF Pair] Pair None by simp
    then show ?thesis using assms ok Pair None
      by (auto simp: defs split: option.split intro!: arp_tables_request)
  next
    case (Some i)
    have "i < length c \<and> ac_ulIp (c ! i) = ip"
      using arp_scan_Some [of ip "aui_arp_cache s" i c] Pair Some by simp
    then show ?thesis using assms ok Pair Some
      by (auto simp: defs split: option.split intro!: arp_tables_more req_ips_nth)
  qed
qed

lemma arp_tables_retry:
  "arp_tables_ok q c \<Longrightarrow> i < length c \<Longrightarrow> ac_tState e = ac_tState (c ! i) \<Longrightarrow> ac_ulIp e = ac_ulIp (c ! i) \<Longrightarrow>
   ac_iAge e = ac_iAge (c ! i) \<Longrightarrow> arp_tables_ok q (c[i := e])"
proof -
  assume ok: "arp_tables_ok q c" and i: "i < length c"
    and e: "ac_tState e = ac_tState (c ! i)" "ac_ulIp e = ac_ulIp (c ! i)" "ac_iAge e = ac_iAge (c ! i)"
  obtain ys zs where c: "c = ys @ c ! i # zs" "c[i := e] = ys @ e # zs" using used_ips_update [OF i] by blast
  have "arp_tables_ok q (ys @ c ! i # zs)" using ok c(1) by simp
  then show ?thesis using e by (simp add: c(2) arp_tables_ok_def)
qed

lemma arp_inv_timer_entry:
  assumes "arp_inv s" and i: "i < ARP_CACHE_MAX_ENTRIES"
  shows "arp_inv (arp_timer_entry pf i s)"
proof -
  let ?e = "aui_arp_cache s ! i"
  have ok: "arp_tables_ok (atPacketQueue s) (aui_arp_cache s)" and len: "i < length (aui_arp_cache s)"
    using assms by (simp_all add: arp_inv_def arp_tables_ok_def)
  have age: "0 \<le> ac_iAge ?e" "ac_iAge ?e \<le> ARP_CACHE_MAX_AGE"
    using ok len by (auto simp: arp_tables_ok_def list_all_length)
  have "arp_inv (arp_drop_waiting_entries (ac_ulIp ?e) t)"
    if "ac_tState ?e = ARPSTATE_Requesting" and "atPacketQueue t = atPacketQueue s"
      and "aui_arp_cache t = (aui_arp_cache s)[i := ?e\<lparr>ac_tState := ARPSTATE_Unused\<rparr>]" for t :: "('a, 'b, 'c) arp_scheme"
    using arp_drop_waiting_queue [of "ac_ulIp ?e" t] arp_tables_settle [OF ok _ len that(1) refl] that age
    by (simp add: arp_inv_def)
  then show ?thesis
    using assms arp_tables_retry [OF ok len]
    by (simp add: arp_timer_entry_def Let_def case_prod_beta) (auto simp: arp_inv_def)
qed

lemma arp_inv_timer: "arp_inv s \<Longrightarrow> arp_inv (arp_timer pf s)"
proof -
  have "\<forall>i \<in> set is. i < ARP_CACHE_MAX_ENTRIES \<Longrightarrow> arp_inv s \<Longrightarrow> arp_inv (fold (arp_timer_entry pf) is s)" for "is"
    by (induction "is" arbitrary: s) (auto simp: arp_inv_timer_entry)
  then show "arp_inv s \<Longrightarrow> arp_inv (arp_timer pf s)" by (simp add: arp_timer_def)
qed


subsection \<open>Accounting for the frame buffers\<close>

text \<open>\<open>n\<close> frame buffers are in the driver's pool or wait in the queue.\<close>

definition frame_acct ::
    "'d NETWORK_IF_T \<Rightarrow> ('d \<Rightarrow> bool) \<Rightarrow> ('d \<Rightarrow> nat) \<Rightarrow> (ptr \<Rightarrow> bool) \<Rightarrow> nat \<Rightarrow> ('d, 'w, 'z) arp_scheme \<Rightarrow> bool" where
  "frame_acct nif ok pool frame n s \<longleftrightarrow> uses_if nif ok s \<and>
     (\<forall>e \<in> set (waiting (atPacketQueue s)). frame (pq_ptPkt e)) \<and>
     pool (drv s) + length (waiting (atPacketQueue s)) = n"

text \<open>The queue is full and the packet would have to wait.\<close>

definition arp_drops :: "u32 \<Rightarrow> ('d, 'w, 'z) arp_scheme \<Rightarrow> bool" where
  "arp_drops ip s \<longleftrightarrow> ip \<noteq> IP_ADR 255 255 255 255 \<and> ip AND IP_ADR 0xf0 0 0 0 \<noteq> IP_ADR 0xe0 0 0 0 \<and>
     length (waiting (atPacketQueue s)) = length (atPacketQueue s) \<and>
     (case arp_scan ip (aui_arp_cache s) of (None, c) \<Rightarrow> True | (Some i, c) \<Rightarrow> ac_tState (c ! i) = ARPSTATE_Requesting)"

lemma frame_acct_upd [simp]:
  "frame_acct nif ok pool frame n (s\<lparr>mem := m\<rparr>) \<longleftrightarrow> frame_acct nif ok pool frame n s"
  "frame_acct nif ok pool frame n (s\<lparr>env := w\<rparr>) \<longleftrightarrow> frame_acct nif ok pool frame n s"
  "frame_acct nif ok pool frame n (s\<lparr>aui_arp_cache := c\<rparr>) \<longleftrightarrow> frame_acct nif ok pool frame n s"
  "frame_acct nif ok pool frame n (s\<lparr>g_t_romloader_options := g\<rparr>) \<longleftrightarrow> frame_acct nif ok pool frame n s"
  by (simp_all add: frame_acct_def uses_if_def)

lemma frame_acct_time [simp]:
  "frame_acct nif ok pool frame n (snd (get_ms pf s)) \<longleftrightarrow> frame_acct nif ok pool frame n s"
  "frame_acct nif ok pool frame n (snd (is_elapsed pf a b s)) \<longleftrightarrow> frame_acct nif ok pool frame n s"
  "frame_acct nif ok pool frame n (snd (arp_get_cache_entry ip s)) \<longleftrightarrow> frame_acct nif ok pool frame n s"
  "frame_acct nif ok pool frame n (arp_set_mac_request pf ip s) \<longleftrightarrow> frame_acct nif ok pool frame n s"
  by (simp_all add: get_ms_def is_elapsed_def arp_get_cache_entry_def arp_set_mac_request_def Let_def split: prod.split)

lemma set_waiting_clear: "set (waiting (queue_clear i q)) \<subseteq> set (waiting q)"
  by (auto simp: waiting_def queue_clear_def dest!: set_update_subset_insert [THEN subsetD])

lemma arp_get_waiting_hit:
  "arp_get_waiting_packet ip q = Some i \<Longrightarrow>
   q ! i \<in> set (waiting q) \<and> length (waiting q) = Suc (length (waiting (queue_clear i q)))"
  using waiting_clear [of i q] by (auto simp: arp_get_waiting_packet_def waiting_def dest: find_index_Some)

context network_if
begin

abbreviation acct :: "nat \<Rightarrow> ('d, 'w, 'z) arp_scheme \<Rightarrow> bool" where
  "acct \<equiv> frame_acct nif if_ok pool frame"

lemma acct_get_empty:
  "acct n s \<Longrightarrow> eth_get_empty_packet s = (p, s') \<Longrightarrow>
   if p = NULL then acct n s' else frame p \<and> n \<noteq> 0 \<and> acct (n - 1) s'"
  using eth_get_empty_packet_pool [of s p s'] eth_get_empty_packet_frame [of s p s']
  by (auto simp: frame_acct_def)

lemma acct_send: "acct n s \<Longrightarrow> frame p \<Longrightarrow> n < cap \<Longrightarrow> acct (Suc n) (eth_send_packet p k mac t s)"
  using eth_send_packet_pool [of s p k mac t] by (auto simp: frame_acct_def)

lemma acct_release: "acct n s \<Longrightarrow> frame p \<Longrightarrow> n < cap \<Longrightarrow> acct (Suc n) (eth_release_packet p s)"
  using eth_release_packet_pool [of s p] by (auto simp: frame_acct_def)

text \<open>A packet that is built in an empty frame and sent.\<close>

lemma acct_build_send:
  "acct n s \<Longrightarrow> n \<le> cap \<Longrightarrow> eth_get_empty_packet s = (p, s') \<Longrightarrow> p \<noteq> NULL \<Longrightarrow>
   acct n (eth_send_packet p k mac t (s'\<lparr>mem := m\<rparr>))"
  using acct_get_empty [of n s p s'] acct_send [of "n - 1" "s'\<lparr>mem := m\<rparr>" p k mac t] by auto

lemma acct_send_request: "acct n s \<Longrightarrow> n \<le> cap \<Longrightarrow> acct n (arp_send_request ip s)"
  using acct_get_empty [of n s] acct_build_send [of n s]
  by (auto simp: arp_send_request_def Let_def split: prod.split)

lemma acct_clear:
  assumes "acct n s" and "arp_get_waiting_packet ip (atPacketQueue s) = Some i"
  shows "frame (pq_ptPkt (atPacketQueue s ! i)) \<and> n \<noteq> 0 \<and>
    acct (n - 1) (s\<lparr>atPacketQueue := queue_clear i (atPacketQueue s)\<rparr>)"
  using assms arp_get_waiting_hit [OF assms(2)] set_waiting_clear [of i "atPacketQueue s"]
  by (auto simp: frame_acct_def uses_if_def)

lemma acct_process_waiting: "acct n s \<Longrightarrow> n \<le> cap \<Longrightarrow> acct n (arp_process_waiting_entries ip p s)"
proof (induction ip p s rule: arp_process_waiting_entries.induct)
  case (1 ip p s)
  show ?case
  proof (cases "arp_get_waiting_packet ip (atPacketQueue s)")
    case None
    then show ?thesis using 1 by (simp add: arp_process_waiting_entries.simps)
  next
    case (Some i)
    let ?q = "queue_clear i (atPacketQueue s)" and ?e = "atPacketQueue s ! i"
    let ?send = "eth_send_packet (pq_ptPkt ?e) (pq_sizPacket ?e) (rdbytes (mem s) p 6) ETH2HEADER_TYP_IP"
    have comm: "(?send s)\<lparr>atPacketQueue := ?q\<rparr> = ?send (s\<lparr>atPacketQueue := ?q\<rparr>)"
      by (simp add: eth_send_packet_def Let_def)
    have "acct n ((?send s)\<lparr>atPacketQueue := ?q\<rparr>)"
      unfolding comm using acct_clear [OF 1(2) Some] acct_send [of "n - 1" "s\<lparr>atPacketQueue := ?q\<rparr>"] 1(3) by auto
    then show ?thesis using 1 Some by (subst arp_process_waiting_entries.simps) (simp add: Let_def)
  qed
qed

lemma acct_drop_waiting: "acct n s \<Longrightarrow> n \<le> cap \<Longrightarrow> acct n (arp_drop_waiting_entries ip s)"
proof (induction ip s rule: arp_drop_waiting_entries.induct)
  case (1 ip s)
  show ?case
  proof (cases "arp_get_waiting_packet ip (atPacketQueue s)")
    case None
    then show ?thesis using 1 by (simp add: arp_drop_waiting_entries.simps)
  next
    case (Some i)
    let ?q = "queue_clear i (atPacketQueue s)" and ?p = "pq_ptPkt (atPacketQueue s ! i)"
    have comm: "(eth_release_packet ?p s)\<lparr>atPacketQueue := ?q\<rparr> = eth_release_packet ?p (s\<lparr>atPacketQueue := ?q\<rparr>)"
      by (simp add: eth_release_packet_def)
    have "acct n ((eth_release_packet ?p s)\<lparr>atPacketQueue := ?q\<rparr>)"
      unfolding comm using acct_clear [OF 1(2) Some] acct_release [of "n - 1" "s\<lparr>atPacketQueue := ?q\<rparr>" ?p] 1(3) by auto
    then show ?thesis using 1 Some by (subst arp_drop_waiting_entries.simps) simp
  qed
qed

lemma acct_packet: "acct n s \<Longrightarrow> n \<le> cap \<Longrightarrow> acct n (arp_process_packet p k s)"
proof -
  assume a: "acct n s" "n \<le> cap"
  have "acct n (arp_process_request p s)"
    using a acct_get_empty [of n s] acct_build_send [of n s]
    by (auto simp: arp_process_request_def Let_def split: prod.split)
  moreover have "acct n (arp_process_reply p s)"
    using a by (auto simp: acct_process_waiting arp_process_reply_def Let_def arp_get_cache_entry_def split: prod.split option.split)
  ultimately show ?thesis using a by (simp add: arp_process_packet_def Let_def)
qed

lemma acct_timer: "acct n s \<Longrightarrow> n \<le> cap \<Longrightarrow> acct n (arp_timer pf s)"
proof -
  have "acct n s \<Longrightarrow> n \<le> cap \<Longrightarrow> acct n (arp_timer_entry pf i s)" for i s
    by (simp add: arp_timer_entry_def Let_def case_prod_beta acct_send_request acct_drop_waiting)
  then have "acct n s \<Longrightarrow> n \<le> cap \<Longrightarrow> acct n (fold (arp_timer_entry pf) is s)" for "is"
    by (induction "is" arbitrary: s) auto
  then show "acct n s \<Longrightarrow> n \<le> cap \<Longrightarrow> acct n (arp_timer pf s)" by (simp add: arp_timer_def)
qed

lemma acct_add_waiting:
  assumes "acct n s" and "frame p" and "k \<noteq> 0" and "arp_add_waiting_packet p k ip s = (hit, s')"
  shows "if hit = None then acct n s' \<and> length (waiting (atPacketQueue s)) = length (atPacketQueue s)
    else acct (Suc n) s'"
proof (cases "find_index (\<lambda>e. pq_sizPacket e = 0) (atPacketQueue s)")
  case None
  then show ?thesis using assms waiting_full [of "atPacketQueue s"] by (auto simp: arp_add_waiting_packet_def)
next
  case (Some i)
  let ?x = "\<lparr>pq_sizPacket = k, pq_ulIp = ip, pq_ptPkt = p\<rparr>"
  have "length (waiting ((atPacketQueue s)[i := ?x])) = Suc (length (waiting (atPacketQueue s)))"
    using wait_ips_update [of i "atPacketQueue s" ?x] find_index_Some [OF Some] assms(3) by simp
  moreover have "set (waiting ((atPacketQueue s)[i := ?x])) \<subseteq> insert ?x (set (waiting (atPacketQueue s)))"
    using set_update_subset_insert [of "atPacketQueue s" i ?x] by (auto simp: waiting_def)
  ultimately show ?thesis using assms Some by (auto simp: arp_add_waiting_packet_def frame_acct_def uses_if_def)
qed

text \<open>A packet handed to \<open>arp_send_ipv4_packet\<close> is sent or waits, unless the queue is full.\<close>

lemma acct_send_ipv4:
  assumes a: "acct n s" and p: "frame p" and k: "k \<noteq> 0" and n: "n < cap"
  shows "acct (if arp_drops ip s then n else Suc n) (arp_send_ipv4_packet pf p k ip s)"
proof -
  obtain hit c where sc: "arp_scan ip (aui_arp_cache s) = (hit, c)" by force
  let ?t = "s\<lparr>aui_arp_cache := c\<rparr>"
  obtain qe t' where add: "arp_add_waiting_packet p k ip ?t = (qe, t')" by force
  have t: "acct n ?t" using a by simp
  note added = acct_add_waiting [OF t p k add]
  have full: "qe = None \<longleftrightarrow> length (waiting (atPacketQueue s)) = length (atPacketQueue s)"
    using add waiting_full [of "atPacketQueue s"]
    by (cases "find_index (\<lambda>e. pq_sizPacket e = 0) (atPacketQueue s)") (auto simp: arp_add_waiting_packet_def)
  have req: "acct (Suc n) (arp_send_request ip (arp_set_mac_request pf ip t'))" if "qe \<noteq> None"
    using added that n by (simp add: acct_send_request)
  have sent: "acct (Suc n) (eth_send_packet p k mac t u)" if "acct n u" for mac t and u :: "('d, 'c, 'e) arp_scheme"
    using acct_send [OF that p n] .
  show ?thesis
    using a t added full req sent add sc
    by (auto simp: arp_send_ipv4_packet_def arp_drops_def arp_get_cache_entry_def split: option.split)
qed

end


subsection \<open>Properties\<close>

text \<open>A stack with empty tables on the list hardware.\<close>

definition demo_options :: ROMLOADER_OPTIONS_T where
  "demo_options = \<lparr>t_ethernet = \<lparr>ac_tftp_server_name = replicate 64 0, ac_tftp_bootfile_name = replicate 128 0,
     aucMac = [0, 2, 0xa2, 1, 2, 3], usTftpPort = 69, ulIp = 0x0200a8c0, ulGatewayIp = 0x0100a8c0,
     ulNetmask = 0x00ffffff, ulTftpIp = 0x0100a8c0, ulDnsIp = 0x0100a8c0, ulPhyControl = 0,
     ausLvdsPortControl = [0, 0], usLinkUpDelay = 0, usArpTimeout = 1000, usDhcpTimeout = 1000,
     usDnsTimeout = 1000, usTftpTimeout = 1000, ucArpRetries = 3, ucDhcpRetries = 3, ucDnsRetries = 3,
     ucTftpRetries = 3, aucMmioCfg = [0, 0]\<rparr>\<rparr>"

definition demo_env :: "nat stack_env" where
  "demo_env = \<lparr>systime_get_ms = (\<lambda>t. (of_nat t, t + 1)),
     systime_handle_is_elapsed = (\<lambda>start d t. (if d \<le> of_nat t - start then 1 else 0, t + 1)),
     rdy_run_blinki_init = (\<lambda>_ _ t. t), rdy_run_blinki = (\<lambda>t. t), rdy_run_setLEDs_off = (\<lambda>t. t)\<rparr>"

definition empty_queue :: "PACKET_QUEUE_ENTRY_T list" where
  "empty_queue = replicate 8 \<lparr>pq_sizPacket = 0, pq_ulIp = 0, pq_ptPkt = NULL\<rparr>"

definition empty_cache :: "ARP_CACHE_ENTRY_T list" where
  "empty_cache = replicate 8 \<lparr>ac_tState = ARPSTATE_Unused, ac_iAge = 0, ac_ulIp = 0, ac_tMac = replicate 6 0,
     ac_ulRequestTimeStamp = 0, ac_uiRetryCnt = 0\<rparr>"

definition demo_arp :: "((u32 \<Rightarrow> u32 \<Rightarrow> u32 list) xc, nat) arp" where
  "demo_arp = \<lparr>mem = (\<lambda>_. 0), env = 0, drv = two_empty, tNetworkIf = tNetworkIfXc list_regs,
     g_t_romloader_options = demo_options, atPacketQueue = empty_queue, aui_arp_cache = empty_cache\<rparr>"

lemma empty_tables_ok: "arp_tables_ok empty_queue empty_cache"
  by (simp add: arp_tables_ok_def empty_queue_def empty_cache_def ARP_PACKET_QUEUE_MAX_ENTRIES_def
    ARP_CACHE_MAX_ENTRIES_def ARP_CACHE_MAX_AGE_def used_ips_def req_ips_def wait_ips_def waiting_def list_all_iff)

lemma empty_queue_waiting: "waiting empty_queue = []"
  by (simp add: empty_queue_def waiting_def)

lemma two_empty_pool: "xc_pool list_fifos two_empty = 2"
  by (simp add: xc_pool_def xc_fifo_def list_fifos_def two_empty_def fifo_nr_def NUM_FIFO_CHANNELS_PER_UNIT_def
    ETHERNET_FIFO_EMPTY_def ETHERNET_FIFO_IND_LO_def ETHERNET_FIFO_REQ_LO_def)

lemma demo_frame: "xc_frame list_regs 0x05000618"
proof -
  have "(0x05000618 :: ptr) = convert_fifo_value_to_packet_pointer list_regs 0x10000"
    by (simp add: convert_fifo_value_to_packet_pointer_def list_regs_def ETH_FRAME_BUF_SIZE_def Let_def
      MSK_ETHMAC_FIFO_ELEMENT_FRAME_BUF_NUM_def MSK_ETHMAC_FIFO_ELEMENT_INT_RAM_SEGMENT_NUM_def)
  then show ?thesis by (auto simp: xc_frame_def fifo_segment_def intro!: exI [of _ "0x10000"])
qed

text \<open>(C12) Every address has at most one entry in the cache, and the addresses that packets wait for are exactly
  the addresses with a pending request: received ARP packets, the timer and sending keep this. So no
  packet waits without a request that will send or release it, and with a free place in the queue the
  entry that a new request overwrites is never a pending one.\<close>

theorem arp_requests_match_packets:
  assumes "arp_inv s"
  shows "arp_inv (arp_process_packet p n s) \<and> arp_inv (arp_timer pf s) \<and>
    (n \<noteq> 0 \<longrightarrow> arp_inv (arp_send_ipv4_packet pf p n ip s)) \<and>
    (length (waiting (atPacketQueue s)) < length (atPacketQueue s) \<longrightarrow>
       ac_tState (aui_arp_cache s ! arp_find_free (aui_arp_cache s) 0 (-1) 0) \<noteq> ARPSTATE_Requesting)"
  using assms arp_find_free_ok [of "atPacketQueue s" "aui_arp_cache s"]
  by (simp add: arp_inv_packet arp_inv_timer arp_inv_send) (simp add: arp_inv_def)

text \<open>(C12) Witness: a packet for an unknown address on the stack with empty tables.\<close>

theorem arp_requests_match_packets_witness:
  "arp_inv (arp_send_ipv4_packet demo_env 0x05000618 64 0x0900a8c0 demo_arp)"
proof -
  have "arp_inv demo_arp" using empty_tables_ok by (simp add: arp_inv_def demo_arp_def)
  from arp_requests_match_packets [OF this, of _ 64] show ?thesis by simp
qed

text \<open>Frame buffers on the XC driver: received ARP packets and the timer neither lose nor duplicate a
  buffer. A buffer given to \<open>arp_send_ipv4_packet\<close> goes to the driver or into the queue, except when it
  would have to wait and the queue is full: then it is lost.\<close>

theorem arp_accounts_for_frames:
  assumes "frame_acct (tNetworkIfXc r) (xc_ok r q) (xc_pool q) (xc_frame r) n s" and "n < FIFO_ENTRIES"
  shows "frame_acct (tNetworkIfXc r) (xc_ok r q) (xc_pool q) (xc_frame r) n (arp_process_packet p k s) \<and>
    frame_acct (tNetworkIfXc r) (xc_ok r q) (xc_pool q) (xc_frame r) n (arp_timer pf s) \<and>
    (xc_frame r p \<and> k \<noteq> 0 \<longrightarrow>
      frame_acct (tNetworkIfXc r) (xc_ok r q) (xc_pool q) (xc_frame r) (if arp_drops ip s then n else Suc n)
        (arp_send_ipv4_packet pf p k ip s))"
  using xc_if.acct_packet [OF assms(1)] xc_if.acct_timer [OF assms(1)] xc_if.acct_send_ipv4 [OF assms(1) _ _ assms(2)]
    assms(2) by simp

text \<open>Witness: one of the two frames of the list hardware is sent to an unknown address.\<close>

theorem arp_accounts_for_frames_witness:
  "frame_acct (tNetworkIfXc list_regs) (xc_ok list_regs list_fifos) (xc_pool list_fifos) (xc_frame list_regs) 3
     (arp_send_ipv4_packet demo_env 0x05000618 64 0x0900a8c0 demo_arp)"
proof -
  have a: "frame_acct (tNetworkIfXc list_regs) (xc_ok list_regs list_fifos) (xc_pool list_fifos) (xc_frame list_regs) 2 demo_arp"
    using two_empty_pool by (simp add: frame_acct_def uses_if_def demo_arp_def two_empty_ok empty_queue_waiting)
  have d: "\<not> arp_drops 0x0900a8c0 demo_arp"
    by (simp add: arp_drops_def demo_arp_def empty_queue_waiting) (simp add: empty_queue_def)
  show ?thesis using arp_accounts_for_frames [OF a, of "0x05000618" 64 demo_env "0x0900a8c0"] demo_frame d
    by (simp add: FIFO_ENTRIES_def)
qed

text \<open>The MAC for a multicast address is built from the wrong end of the address: the third, second and
  first byte of the group, so the last byte, which names the group, has no influence. For
  \<open>224.0.0.251\<close> the frame goes to \<open>01:00:5e:00:00:e0\<close> and not to \<open>01:00:5e:00:00:fb\<close>.\<close>

theorem arp_multicast_mac_reversed:
  "arp_multicast_mac (IP_ADR a b c d) = [0x01, 0x00, 0x5e, c, b, a]"
proof -
  have e: "(0xff :: u32) = mask 8" by (simp add: mask_eq_exp_minus_1)
  have "(ucast (drop_bit 16 (IP_ADR a b c d) AND 0xff) :: u8) = c" unfolding e
    by (rule bit_word_eqI) (auto simp: IP_ADR_def bit_simps dest: bit_imp_le_length)
  moreover have "(ucast (drop_bit 8 (IP_ADR a b c d) AND 0xff) :: u8) = b" unfolding e
    by (rule bit_word_eqI) (auto simp: IP_ADR_def bit_simps dest: bit_imp_le_length)
  moreover have "(ucast (IP_ADR a b c d AND 0xff) :: u8) = a" unfolding e
    by (rule bit_word_eqI) (auto simp: IP_ADR_def bit_simps dest: bit_imp_le_length)
  ultimately show ?thesis by (simp add: arp_multicast_mac_def)
qed

end
