(* ===== verification/Checksum.thy ===== *)
theory Checksum
  imports Prelude
begin

text \<open>
  The Internet checksum of the stack (networking/stack/checksum.c) and its arithmetic. The
  reference value \<open>bsum\<close> adds bytes that are alternately the high and the low byte of a 16 bit
  word; ones' complement addition is addition modulo \<open>65535\<close>. The IPv4 header, ICMP and UDP
  checksums of the protocol theories rest on the lemmas here.
\<close>

subsection \<open>The code\<close>

text \<open>The loop over the data; \<open>sizPos\<close> is incremented before the shift is taken from it.\<close>

function checksum_loop :: "memory \<Rightarrow> ptr \<Rightarrow> u32 \<Rightarrow> u32 \<Rightarrow> u32 \<Rightarrow> u32" where
  "checksum_loop m pucData sizLen sizPos ulChkSum =
     (if sizPos < sizLen then
        let uiData = ucast (m (pucData + sizPos)) :: u32;
            sizPos = sizPos + 1;
            uiShift = push_bit 3 (sizPos AND 1);
            ulChkSum = ulChkSum + push_bit (unat uiShift) uiData;
            ulChkSum = (ulChkSum AND 0xffff) + drop_bit 16 ulChkSum in
        checksum_loop m pucData sizLen sizPos ulChkSum
      else ulChkSum)"
  by pat_completeness auto

lemma unat_inc_less: "(i :: u32) < n \<Longrightarrow> unat (i + 1) = Suc (unat i)"
proof -
  assume "i < n"
  then have "unat i < unat n" by (simp add: word_less_nat_alt)
  then have "unat i + 1 < 4294967296" using unat_u32_less [of n] by linarith
  then show ?thesis by (simp add: unat_word_ariths)
qed

termination checksum_loop
proof (relation "measure (\<lambda>(m, p, n, i, c). unat n - unat i)", goal_cases)
  case 1
  show ?case by simp
next
  case (2 m p n i c)
  then have "unat i < unat n" by (simp add: word_less_nat_alt)
  then show ?case using 2 unat_inc_less [OF 2(1)] by simp
qed

declare checksum_loop.simps [simp del]

definition checksum_add_complement :: "memory \<Rightarrow> ptr \<Rightarrow> u32 \<Rightarrow> u32" where
  "checksum_add_complement m pvData sizLen =
     (let ulChkSum = checksum_loop m pvData sizLen 0 0 in
      if ulChkSum \<noteq> 0xffff then ulChkSum XOR 0xffff else ulChkSum)"

subsection \<open>Sums of bytes in 16 bit words\<close>

text \<open>\<open>bsum True\<close> starts with a high byte, as the network order does; \<open>bsum False\<close> with a low byte.\<close>

fun bsum :: "bool \<Rightarrow> u8 list \<Rightarrow> nat" where
  "bsum hi [] = 0"
| "bsum hi (b # bs) = (if hi then 256 * unat b else unat b) + bsum (\<not> hi) bs"

lemma bsum_append: "bsum hi (xs @ ys) = bsum hi xs + bsum (if even (length xs) then hi else \<not> hi) ys"
  by (induction xs arbitrary: hi) auto

lemma bsum_zeros [simp]: "bsum hi (replicate n 0) = 0"
  by (induction n arbitrary: hi) auto

text \<open>Swapping the bytes of every word multiplies the sum by 256: the checksum does not depend on
  the byte order.\<close>

lemma bsum_swap: "256 * bsum hi xs mod 65535 = bsum (\<not> hi) xs mod 65535"
proof (induction xs arbitrary: hi)
  case (Cons b bs)
  have "256 * bsum hi (b # bs) mod 65535 =
      (256 * (if hi then 256 * unat b else unat b) + 256 * bsum (\<not> hi) bs mod 65535) mod 65535"
    by (simp add: algebra_simps mod_simps)
  also have "\<dots> = (256 * (if hi then 256 * unat b else unat b) + bsum hi bs mod 65535) mod 65535"
    using Cons.IH [of "\<not> hi"] by simp
  also have "\<dots> = ((256 * (if hi then 256 * unat b else unat b)) mod 65535 + bsum hi bs) mod 65535"
    by (simp add: mod_simps)
  also have "(256 * (if hi then 256 * unat b else unat b)) mod 65535 =
      (if \<not> hi then 256 * unat b else unat b) mod 65535"
  proof -
    have "65536 * x mod 65535 = x mod 65535" for x :: nat
    proof -
      have "65536 * x = x + 65535 * x" by simp
      then show ?thesis by (simp only: mod_mult_self2)
    qed
    then show ?thesis by (cases hi) simp_all
  qed
  finally show ?case by (simp add: mod_simps)
qed simp

text \<open>The value of the checksum over bytes.\<close>

definition internet_checksum :: "u8 list \<Rightarrow> nat" where
  "internet_checksum bs = 65535 - bsum True bs mod 65535"

lemma internet_checksum_bounds: "0 < internet_checksum bs" "internet_checksum bs \<le> 65535"
  by (auto simp: internet_checksum_def)

lemma internet_checksum_verifies: "(bsum True bs + internet_checksum bs) mod 65535 = 0"
proof -
  have "(bsum True bs + internet_checksum bs) mod 65535 =
      (bsum True bs mod 65535 + internet_checksum bs) mod 65535" by (simp add: mod_simps)
  also have "bsum True bs mod 65535 + internet_checksum bs = 65535"
    using mod_less_divisor [of 65535 "bsum True bs"] by (simp add: internet_checksum_def)
  finally show ?thesis by simp
qed

lemma mod_65535_256: "256 * x mod 65535 = 0 \<longleftrightarrow> x mod (65535 :: nat) = 0"
proof
  assume "256 * x mod 65535 = 0"
  then have "256 * (256 * x) mod 65535 = 0" by (metis mod_mult_right_eq mult_0_right mod_0)
  moreover have "256 * (256 * x) = x + 65535 * x" by simp
  ultimately show "x mod 65535 = 0" by (simp only: mod_mult_self2)
next
  assume "x mod 65535 = 0"
  then show "256 * x mod 65535 = 0" by (metis mod_mult_right_eq mult_0_right mod_0)
qed

text \<open>Only one nonzero 16 bit value completes a sum.\<close>

lemma complement_unique:
  assumes "0 < f" and "f \<le> (65535 :: nat)"
  shows "(s + f) mod 65535 = 0 \<longleftrightarrow> f = 65535 - s mod 65535"
proof -
  let ?r = "s mod 65535"
  have r: "?r < 65535" by simp
  have "(s + f) mod 65535 = (?r + f) mod 65535" by (simp add: mod_simps)
  moreover have "(?r + f) mod 65535 = 0 \<longleftrightarrow> ?r + f = 65535"
  proof
    assume "(?r + f) mod 65535 = 0"
    then obtain k where k: "?r + f = 65535 * k" by (auto simp: mod_eq_0_iff_dvd elim: dvdE)
    then have "0 < k" "k < 2" using assms r by (auto intro: Nat.gr0I)
    then show "?r + f = 65535" using k by simp
  qed simp
  ultimately show ?thesis using r by linarith
qed

subsection \<open>The loop computes the sum\<close>

lemma fold_value:
  assumes "c \<le> 0xffff" and "d \<le> 0xff00"
  shows "unat ((c + d AND 0xffff) + drop_bit 16 (c + d) :: u32) = (if unat c + unat d \<le> 65535 then unat c + unat d
      else unat c + unat d - 65535)"
proof -
  have c: "unat c \<le> 65535" using assms(1) by (simp add: word_le_nat_alt)
  have d: "unat d \<le> 65280" using assms(2) by (simp add: word_le_nat_alt)
  have cd: "unat (c + d) = unat c + unat d" using c d by (simp add: unat_word_ariths)
  have m: "(0xffff :: u32) = mask 16" by (simp add: mask_eq_exp_minus_1)
  have lo: "unat (c + d AND 0xffff) = (unat c + unat d) mod 65536" unfolding m by (simp add: unat_and_mask cd)
  have hi: "unat (drop_bit 16 (c + d)) = (unat c + unat d) div 65536" by (simp add: unat_drop_bit cd)
  have "(unat c + unat d) mod 65536 + (unat c + unat d) div 65536 < 2 ^ 32" using c d by simp
  then have "unat ((c + d AND 0xffff) + drop_bit 16 (c + d)) =
      (unat c + unat d) mod 65536 + (unat c + unat d) div 65536"
    by (simp add: unat_word_ariths lo hi)
  also have "\<dots> = (if unat c + unat d \<le> 65535 then unat c + unat d else unat c + unat d - 65535)"
  proof (cases "unat c + unat d \<le> 65535")
    case False
    then have "(unat c + unat d) div 65536 = 1" using c d by simp
    then show ?thesis using False by (simp add: modulo_nat_def)
  qed simp
  finally show ?thesis .
qed

lemma checksum_shift:
  "unat (push_bit 3 ((i :: u32) AND 1)) = (if odd (unat i) then 8 else 0)"
proof (cases "odd (unat i)")
  case True
  then have "i AND 1 = 1" by (simp add: and_one_eq odd_iff_mod_2_eq_one word_unat_eq_iff unat_mod_distrib)
  then show ?thesis using True by simp
next
  case False
  then have "i AND 1 = 0" by (simp add: and_one_eq even_iff_mod_2_eq_zero word_unat_eq_iff unat_mod_distrib)
  then show ?thesis using False by simp
qed

lemma unat_byte_shift:
  "unat (push_bit (unat (push_bit 3 ((i :: u32) AND 1))) (ucast (b :: u8) :: u32)) =
     (if odd (unat i) then 256 * unat b else unat b)"
proof (cases "odd (unat i)")
  case True
  have "256 * unat b < 4294967296" using unat_u8_less [of b] by linarith
  then show ?thesis using True by (simp only: checksum_shift) (simp add: push_bit_eq_mult unat_word_ariths)
next
  case False
  then show ?thesis by (simp only: checksum_shift) simp
qed

lemma byte_shift_le: "push_bit (unat (push_bit 3 ((i :: u32) AND 1))) (ucast (b :: u8) :: u32) \<le> 0xff00"
proof -
  have "unat b \<le> 255" using unat_u8_less [of b] by linarith
  then show ?thesis unfolding word_le_nat_alt unat_byte_shift by simp
qed

lemma checksum_loop_sum:
  "i \<le> n \<Longrightarrow> c \<le> 0xffff \<Longrightarrow>
   unat (checksum_loop m p n i c) \<le> 65535 \<and>
   unat (checksum_loop m p n i c) mod 65535 =
     (unat c + bsum (even (unat i)) (rdbytes m (p + i) (unat n - unat i))) mod 65535"
proof (induction m p n i c rule: checksum_loop.induct)
  case (1 m p n i c)
  show ?case
  proof (cases "i < n")
    case False
    then have "i = n" using 1(2) by simp
    then show ?thesis using 1(3) by (simp add: checksum_loop.simps word_le_nat_alt)
  next
    case True
    define d where "d = push_bit (unat (push_bit 3 ((i + 1) AND 1))) (ucast (m (p + i)) :: u32)"
    define c' where "c' = (c + d AND 0xffff) + drop_bit 16 (c + d)"
    have inc: "unat (i + 1) = Suc (unat i)" by (rule unat_inc_less [OF True])
    have less: "unat i < unat n" using True by (simp add: word_less_nat_alt)
    have d: "unat d = (if even (unat i) then 256 * unat (m (p + i)) else unat (m (p + i)))"
      unfolding d_def unat_byte_shift inc by simp
    have c'v: "unat c' = (if unat c + unat d \<le> 65535 then unat c + unat d else unat c + unat d - 65535)"
      unfolding c'_def by (rule fold_value [OF 1(3)]) (simp only: d_def byte_shift_le)
    have dle: "unat d \<le> 65280" using byte_shift_le [of "i + 1" "m (p + i)"] by (simp add: d_def word_le_nat_alt)
    have cle: "unat c \<le> 65535" using 1(3) by (simp add: word_le_nat_alt)
    have c'le: "c' \<le> 0xffff" using c'v dle cle by (simp add: word_le_nat_alt split: if_splits)
    have c'mod: "(unat c' + k) mod 65535 = (unat c + unat d + k) mod 65535" for k
    proof (cases "unat c + unat d \<le> 65535")
      case False
      then have "unat c + unat d + k = unat c' + k + 65535" using c'v by simp
      then show ?thesis by (simp only: mod_add_self2)
    qed (simp add: c'v)
    have step: "checksum_loop m p n i c = checksum_loop m p n (i + 1) c'"
      using True by (subst checksum_loop.simps) (simp add: Let_def c'_def d_def)
    have bytes: "rdbytes m (p + i) (unat n - unat i) =
        m (p + i) # rdbytes m (p + (i + 1)) (unat n - unat (i + 1))"
      using less inc by (simp add: add.assoc Suc_diff_Suc [symmetric])
    have "i + 1 \<le> n" using less inc by (simp add: word_le_nat_alt)
    from 1(1) [OF True refl refl refl refl refl, folded d_def, folded c'_def, OF this c'le]
    show ?thesis unfolding step bytes c'mod using inc d by (simp add: add.assoc)
  qed
qed

lemma unat_xor_ffff: "unat (c :: u32) \<le> 65535 \<Longrightarrow> unat (c XOR 0xffff) = 65535 - unat c"
proof -
  assume c: "unat c \<le> 65535"
  have m: "(0xffff :: u32) = mask 16" by (simp add: mask_eq_exp_minus_1)
  have "take_bit 16 c = c" using c by (simp add: take_bit_eq_mask unat_and_mask word_unat_eq_iff)
  then have "c AND 0xffff = c" unfolding m by (simp add: take_bit_eq_mask)
  then have "c = c AND 0xffff" by (rule sym)
  then have "NOT 0xffff AND c = NOT 0xffff AND (c AND 0xffff)" by simp
  also have "\<dots> = (NOT 0xffff AND 0xffff) AND c" by (simp only: and.commute and.left_commute)
  also have "\<dots> = 0" by simp
  finally have z: "NOT 0xffff AND c = 0" .
  have "c XOR 0xffff = 0xffff - c"
    by (simp only: xor.commute [of c] disjunctive_diff_eq_and_not [OF z] disjunctive_and_not_eq_xor [OF z])
  then show ?thesis using c by (simp add: unat_sub word_le_nat_alt)
qed

text \<open>The checksum is \<open>internet_checksum\<close> of the bytes, for every address and length.\<close>

lemma unat_checksum: "unat (checksum_add_complement m p n) = internet_checksum (rdbytes m p (unat n))"
proof -
  let ?R = "checksum_loop m p n 0 0"
  have R: "unat ?R \<le> 65535" "unat ?R mod 65535 = bsum True (rdbytes m p (unat n)) mod 65535"
    using checksum_loop_sum [of 0 n 0 m p] by simp_all
  show ?thesis
  proof (cases "?R = 0xffff")
    case True
    then show ?thesis using R(2) by (simp add: checksum_add_complement_def internet_checksum_def)
  next
    case False
    then have "unat ?R \<noteq> 65535" by (simp add: word_unat_eq_iff)
    then have "unat ?R mod 65535 = unat ?R" using R(1) by simp
    then show ?thesis using False R unat_xor_ffff [OF R(1)]
      by (simp add: checksum_add_complement_def internet_checksum_def)
  qed
qed

text \<open>(C25) The checksum of the stack is never 0, fits 16 bits and is the value that makes the ones'
  complement sum of the data and the checksum zero, whatever the data and its length.\<close>

theorem checksum_add_complement_correct:
  "(bsum True (rdbytes m p (unat n)) + unat (checksum_add_complement m p n)) mod 65535 = 0 \<and>
   0 < unat (checksum_add_complement m p n) \<and> unat (checksum_add_complement m p n) \<le> 65535"
  using internet_checksum_verifies [of "rdbytes m p (unat n)"] internet_checksum_bounds [of "rdbytes m p (unat n)"]
  by (simp only: unat_checksum)

end
