(* ===== verification/Ipv4.thy ===== *)
theory Ipv4
  imports Arp Checksum
begin

text \<open>
  IPv4 (networking/stack/ipv4.c) and the ICMP echo responder (networking/stack/icmp.c): the header of an
  outgoing packet, the routing decision and the answer to a ping. The dispatch of received packets,
  \<open>ipv4_process_packet\<close>, is in the theory \<open>Stack\<close>. The state gets the counter \<open>uiIpOutputId\<close>.
\<close>

definition IP_VERSION :: u8 where "IP_VERSION = 0x45"
definition IP_PROTOCOL_ICMP :: u8 where "IP_PROTOCOL_ICMP = 0x01"
definition IP_PROTOCOL_UDP :: u8 where "IP_PROTOCOL_UDP = 0x11"
definition ICMP_ECHO_REPLY :: u8 where "ICMP_ECHO_REPLY = 0x00"
definition ICMP_ECHO_REQUEST :: u8 where "ICMP_ECHO_REQUEST = 0x08"

record ('d, 'w) ipv4 = "('d, 'w) arp" +
  uiIpOutputId :: u32

subsection \<open>Operations\<close>

definition ipv4_get_destination_ip :: "ETHERNET_CONFIGURATION_T \<Rightarrow> u32 \<Rightarrow> u32" where
  "ipv4_get_destination_ip opt ulDstIp =
     (if ulNetmask opt \<noteq> 0 \<and> ulDstIp \<noteq> IP_ADR 0xff 0xff 0xff 0xff \<and>
         ulDstIp AND IP_ADR 0xf0 0x00 0x00 0x00 \<noteq> IP_ADR 0xe0 0x00 0x00 0x00 then
        let ulMyNetwork = ulIp opt AND ulNetmask opt;
            ulDstNetwork = ulDstIp AND ulNetmask opt in
        if ulMyNetwork \<noteq> ulDstNetwork then ulGatewayIp opt else ulDstIp
      else ulDstIp)"

definition ipv4_init :: "('d, 'w, 'z) ipv4_scheme \<Rightarrow> ('d, 'w, 'z) ipv4_scheme" where
  "ipv4_init s = s\<lparr>uiIpOutputId := 0\<rparr>"

text \<open>The header that \<open>ipv4_send_packet\<close> writes; \<open>my\<close> is the address of this station and \<open>idn\<close> the counter.\<close>

definition ipv4_fill_header :: "u32 \<Rightarrow> u32 \<Rightarrow> ptr \<Rightarrow> u32 \<Rightarrow> u32 \<Rightarrow> u32 \<Rightarrow> memory \<Rightarrow> memory" where
  "ipv4_fill_header my idn ptPkt ulDstIp uiProtocol sizIpPacket m =
     (let m = m(ip_ucVersion ptPkt := IP_VERSION);
          m = m(ip_ucDSF ptPkt := 0);
          m = wr16 m (ip_usLength ptPkt) (MUS2NUS sizIpPacket);
          m = wr16 m (ip_usId ptPkt) (MUS2NUS idn);
          m = wr16 m (ip_usFlags ptPkt) (MUS2NUS 0x4000);
          m = m(ip_ucTTL ptPkt := 64);
          m = m(ip_ucProtocol ptPkt := ucast uiProtocol);
          m = wr16 m (ip_usChecksum ptPkt) 0;
          m = wr32 m (ip_ulSrcIp ptPkt) my;
          m = wr32 m (ip_ulDstIp ptPkt) ulDstIp in
      wr16 m (ip_usChecksum ptPkt) (MUS2NUS (checksum_add_complement m (tIpHdr ptPkt) sizeof_IPV4_HEADER_T)))"

definition ipv4_send_packet ::
    "'w stack_env \<Rightarrow> ptr \<Rightarrow> u32 \<Rightarrow> u32 \<Rightarrow> u32 \<Rightarrow> ('d, 'w, 'z) ipv4_scheme \<Rightarrow> ('d, 'w, 'z) ipv4_scheme" where
  "ipv4_send_packet pf ptPkt ulDstIp uiProtocol sizIpUserData s =
     (let sizIpPacket = sizeof_IPV4_HEADER_T + sizIpUserData;
          m = ipv4_fill_header (ulIp (eth_options s)) (uiIpOutputId s) ptPkt ulDstIp uiProtocol sizIpPacket (mem s);
          ulFirstDstIp = ipv4_get_destination_ip (eth_options s) ulDstIp in
      arp_send_ipv4_packet pf ptPkt sizIpPacket ulFirstDstIp
        (s\<lparr>mem := m, uiIpOutputId := uiIpOutputId s + 1\<rparr>))"

text \<open>The answer to an echo request. \<open>sizIcmpPacketSize\<close> comes from the length field of the request.\<close>

definition icmp_fill_reply :: "ptr \<Rightarrow> ptr \<Rightarrow> u32 \<Rightarrow> memory \<Rightarrow> memory" where
  "icmp_fill_reply ptEthPkt ptSendPacket sizIcmpPacketSize m =
     (let m = m(icmp_ucType ptSendPacket := ICMP_ECHO_REPLY);
          m = m(icmp_ucCode ptSendPacket := m (icmp_ucCode ptEthPkt));
          m = wr16 m (icmp_usChecksum ptSendPacket) 0;
          m = wr16 m (icmp_usIdentifier ptSendPacket) (rd16 m (icmp_usIdentifier ptEthPkt));
          m = wr16 m (icmp_usSequenceNumber ptSendPacket) (rd16 m (icmp_usSequenceNumber ptEthPkt));
          m = memcpy m (icmp_data ptSendPacket) (icmp_data ptEthPkt) (unat (sizIcmpPacketSize - sizeof_ICMP_PACKET_T)) in
      wr16 m (icmp_usChecksum ptSendPacket) (MUS2NUS (checksum_add_complement m (tIcmpPkt ptSendPacket) sizIcmpPacketSize)))"

definition icmp_process_packet ::
    "'w stack_env \<Rightarrow> ptr \<Rightarrow> u32 \<Rightarrow> ('d, 'w, 'z) ipv4_scheme \<Rightarrow> ('d, 'w, 'z) ipv4_scheme" where
  "icmp_process_packet pf ptEthPkt sizPacket s =
     (if sizPacket \<ge> sizeof_ETH2_HEADER_T + sizeof_IPV4_HEADER_T + sizeof_ICMP_PACKET_T then
        if mem s (icmp_ucType ptEthPkt) = ICMP_ECHO_REQUEST then
          (case eth_get_empty_packet s of (ptSendPacket, s) \<Rightarrow>
             if ptSendPacket \<noteq> NULL then
               let sizIcmpPacketSize = NUS2MUS (rd16 (mem s) (ip_usLength ptEthPkt)) - sizeof_IPV4_HEADER_T;
                   m = icmp_fill_reply ptEthPkt ptSendPacket sizIcmpPacketSize (mem s) in
               ipv4_send_packet pf ptSendPacket (rd32 m (ip_ulSrcIp ptEthPkt)) (ucast IP_PROTOCOL_ICMP)
                 sizIcmpPacketSize (s\<lparr>mem := m\<rparr>)
             else s)
        else s
      else s)"

definition icmp_init :: "('d, 'w, 'z) ipv4_scheme \<Rightarrow> ('d, 'w, 'z) ipv4_scheme" where
  "icmp_init s = s"

subsection \<open>A checksum field\<close>

lemma unat_hi_lo: "unat (c :: u32) \<le> 65535 \<Longrightarrow> 256 * unat (ucast (drop_bit 8 c) :: u8) + unat (ucast c :: u8) = unat c"
proof -
  assume c: "unat c \<le> 65535"
  have "unat (ucast (drop_bit 8 c) :: u8) = unat c div 256"
    using c by (simp add: unsigned_ucast_eq take_bit_eq_mod unat_drop_bit)
  moreover have "unat (ucast c :: u8) = unat c mod 256" by (simp add: unsigned_ucast_eq take_bit_eq_mod)
  ultimately show ?thesis by simp
qed

text \<open>Storing the checksum in network order into a field that was zero makes the sum of the range zero.\<close>

lemma checksum_field_verifies:
  assumes k: "even k" "k + 2 \<le> unat n" and zero: "rd16 m (a + of_nat k) = 0"
  shows "bsum True (rdbytes (wr16 m (a + of_nat k) (MUS2NUS (checksum_add_complement m a n))) a (unat n)) mod 65535 = 0"
proof -
  let ?c = "checksum_add_complement m a n" and ?bs = "rdbytes m a (unat n)"
  have c: "unat ?c \<le> 65535" by (simp add: unat_checksum internet_checksum_bounds)
  have "le16 (rd16 m (a + of_nat k)) = [m (a + of_nat k), m (a + of_nat k + 1)]" by (simp add: rd16_le)
  then have z: "m (a + of_nat k) = 0" "m (a + of_nat k + 1) = 0" using zero by (simp_all add: le16_def)
  have "unat n = k + (2 + (unat n - (k + 2)))" using k(2) by simp
  then have "?bs = rdbytes m a (k + (2 + (unat n - (k + 2))))" by (rule arg_cong)
  also have "\<dots> = rdbytes m a k @ rdbytes m (a + of_nat k) 2 @ rdbytes m (a + of_nat (k + 2)) (unat n - (k + 2))"
    by (simp only: rdbytes_add) (simp add: ac_simps)
  also have "\<dots> = take k ?bs @ [0, 0] @ drop (k + 2) ?bs"
    using z k(2) by (simp add: take_rdbytes drop_rdbytes rdbytes_numeral)
  finally have bs: "?bs = take k ?bs @ [0, 0] @ drop (k + 2) ?bs" .
  have "unat n \<le> 2 ^ 32" by (simp add: less_imp_le)
  then have "rdbytes (wr16 m (a + of_nat k) (MUS2NUS ?c)) a (unat n) = put_bytes ?bs k (le16 (MUS2NUS ?c))"
    using k(2) by (simp add: wr16_wrbytes rdbytes_wrbytes_put)
  then have "bsum True (rdbytes (wr16 m (a + of_nat k) (MUS2NUS ?c)) a (unat n)) =
      bsum True (take k ?bs) + bsum True (le16 (MUS2NUS ?c)) + bsum True (drop (k + 2) ?bs)"
    using k by (simp add: put_bytes_def bsum_append)
  also have "bsum True (le16 (MUS2NUS ?c)) = unat ?c"
    using unat_hi_lo [OF c] by (simp add: le16_def MUS2NUS_bytes)
  also have "bsum True (take k ?bs) + unat ?c + bsum True (drop (k + 2) ?bs) = bsum True ?bs + unat ?c"
    using k by (subst (3) bs) (simp add: bsum_append)
  finally show ?thesis using internet_checksum_verifies [of ?bs] by (simp add: unat_checksum)
qed


lemma checksum_over_bytes:
  "length bs = unat n \<Longrightarrow> unat (checksum_add_complement (wrbytes m a bs) a n) = internet_checksum bs"
  using rdbytes_wrbytes [of bs m a] by (simp add: unat_checksum less_imp_le)

subsection \<open>The header of a packet\<close>

text \<open>The twenty bytes of a header with the checksum bytes \<open>c\<close>.\<close>

definition ipv4_header :: "u32 \<Rightarrow> u32 \<Rightarrow> u32 \<Rightarrow> u8 \<Rightarrow> u32 \<Rightarrow> u8 list \<Rightarrow> u8 list" where
  "ipv4_header my idn dst proto n c =
     [0x45, 0, ucast (drop_bit 8 n), ucast n, ucast (drop_bit 8 idn), ucast idn, 0x40, 0, 64, proto] @ c @
     le32 my @ le32 dst"

lemma ipv4_fill_header_bytes:
  "ipv4_fill_header my idn p dst proto n m =
     wrbytes m (p + 14) (ipv4_header my idn dst (ucast proto) n
       (le16 (MUS2NUS (of_nat (internet_checksum (ipv4_header my idn dst (ucast proto) n [0, 0]))))))"
proof -
  let ?h = "ipv4_header my idn dst (ucast proto) n"
  let ?m = "wrbytes m (p + 14) (?h [0, 0])"
  let ?c = "checksum_add_complement ?m (p + 14) 20"
  have len: "length (?h [0, 0]) = 20" by (simp add: ipv4_header_def)
  let ?M = "wr32 (wr32 (wr16 ((wr16 (wr16 (wr16 (m(p + 14 := IP_VERSION, p + 15 := 0)) (p + 16) (MUS2NUS n))
    (p + 18) (MUS2NUS idn)) (p + 20) (MUS2NUS 0x4000))(p + 22 := 64, p + 23 := ucast proto)) (p + 24) 0)
    (p + 26) my) (p + 30) dst"
  have z: "(0x4000 :: u8) = 0" by simp
  have M: "?M = ?m"
    by (simp add: z wr16_def wr32_def ipv4_header_def le32_def add.assoc MUS2NUS_bytes IP_VERSION_def)
  have "ipv4_fill_header my idn p dst proto n m = wr16 ?M (p + 24) (MUS2NUS (checksum_add_complement ?M (p + 14) 20))"
    by (simp only: ipv4_fill_header_def Let_def sizeof_IPV4_HEADER_T_def)
  also have "\<dots> = wr16 ?m (p + 24) (MUS2NUS ?c)" by (simp only: M)
  also have "\<dots> = wrbytes ?m (p + 14 + of_nat 10) (le16 (MUS2NUS ?c))" by (simp add: wr16_wrbytes add.assoc)
  also have "\<dots> = wrbytes m (p + 14) (put_bytes (?h [0, 0]) 10 (le16 (MUS2NUS ?c)))"
    using len by (intro wrbytes_overwrite) simp_all
  also have "put_bytes (?h [0, 0]) 10 (le16 (MUS2NUS ?c)) = ?h (le16 (MUS2NUS ?c))"
    by (simp add: put_bytes_def ipv4_header_def le16_def)
  also have "unat ?c = internet_checksum (?h [0, 0])" using len by (simp add: checksum_over_bytes)
  then have "?c = of_nat (internet_checksum (?h [0, 0]))" 
    using internet_checksum_bounds(2) [of "?h [0, 0]"] by (simp add: word_unat_eq_iff unat_of_nat)
  finally show ?thesis .
qed

lemma ipv4_header_verifies:
  assumes "c = le16 (MUS2NUS (of_nat (internet_checksum (ipv4_header my idn dst proto n [0, 0]))))"
  shows "bsum True (ipv4_header my idn dst proto n c) mod 65535 = 0"
proof -
  let ?h = "ipv4_header my idn dst proto n"
  let ?v = "of_nat (internet_checksum (?h [0, 0])) :: u32"
  have le: "internet_checksum (?h [0, 0]) \<le> 65535" by (rule internet_checksum_bounds)
  then have v: "unat ?v = internet_checksum (?h [0, 0])" by (simp add: unat_of_nat)
  have "bsum True c = unat ?v" using unat_hi_lo [of ?v] le v by (simp add: assms le16_def MUS2NUS_bytes)
  then have "bsum True (?h c) = bsum True (?h [0, 0]) + internet_checksum (?h [0, 0])"
    using v by (simp add: ipv4_header_def bsum_append assms)
  then show ?thesis by (simp only: internet_checksum_verifies)
qed


subsection \<open>The layers below\<close>

definition ipv4_keeps :: "('d, 'w, 'z) ipv4_scheme \<Rightarrow> ('d, 'w, 'z) ipv4_scheme \<Rightarrow> bool" where
  "ipv4_keeps s s' \<longleftrightarrow> tNetworkIf s' = tNetworkIf s \<and> g_t_romloader_options s' = g_t_romloader_options s \<and>
     ipv4.more s' = ipv4.more s"

lemma arp_keeps_ipv4: "arp_keeps s s' \<Longrightarrow> ipv4_keeps s s' \<and> uiIpOutputId s' = uiIpOutputId s"
  by (cases s; cases s') (simp add: arp_keeps_def ipv4_keeps_def)

lemma ipv4_keeps_refl [simp]: "ipv4_keeps s s"
  by (simp add: ipv4_keeps_def)

lemma ipv4_keeps_send [simp]: "ipv4_keeps s (ipv4_send_packet pf p dst proto n s') \<longleftrightarrow> ipv4_keeps s s'"
proof -
  let ?t = "\<lambda>m. s'\<lparr>mem := m, uiIpOutputId := uiIpOutputId s' + 1\<rparr>"
  have "ipv4_keeps (?t m) (arp_send_ipv4_packet pf p k ip (?t m))" for m k ip
    using arp_keeps_ipv4 [of "?t m" "arp_send_ipv4_packet pf p k ip (?t m)"] by simp
  then show ?thesis by (simp add: ipv4_send_packet_def Let_def ipv4_keeps_def)
qed

lemma ipv4_keeps_eth [simp]:
  "ipv4_keeps s (s'\<lparr>mem := m\<rparr>) \<longleftrightarrow> ipv4_keeps s s'" "ipv4_keeps s (s'\<lparr>env := w\<rparr>) \<longleftrightarrow> ipv4_keeps s s'"
  "ipv4_keeps s (s'\<lparr>drv := d\<rparr>) \<longleftrightarrow> ipv4_keeps s s'"
  "ipv4_keeps s (snd (eth_get_empty_packet s')) \<longleftrightarrow> ipv4_keeps s s'"
  "ipv4_keeps s (eth_release_packet p s') \<longleftrightarrow> ipv4_keeps s s'"
  "ipv4_keeps s (snd (get_ms pf s')) \<longleftrightarrow> ipv4_keeps s s'"
  "ipv4_keeps s (snd (is_elapsed pf a b s')) \<longleftrightarrow> ipv4_keeps s s'"
  by (simp_all add: ipv4_keeps_def eth_get_empty_packet_def eth_release_packet_def get_ms_def is_elapsed_def
    split: prod.split)

lemma ipv4_keeps_arp [simp]:
  "ipv4_keeps s (arp_process_packet p n s') \<longleftrightarrow> ipv4_keeps s s'" "ipv4_keeps s (arp_timer pf s') \<longleftrightarrow> ipv4_keeps s s'"
  using arp_keeps_ipv4 [of s' "arp_process_packet p n s'"] arp_keeps_ipv4 [of s' "arp_timer pf s'"]
  by (simp_all add: ipv4_keeps_def)

lemma ipv4_keeps_icmp [simp]: "ipv4_keeps s (icmp_process_packet pf p n s') \<longleftrightarrow> ipv4_keeps s s'"
  by (simp add: icmp_process_packet_def Let_def case_prod_beta)

lemma arp_inv_upd [simp]:
  "arp_inv (s\<lparr>mem := m\<rparr>) \<longleftrightarrow> arp_inv s" "arp_inv (s\<lparr>env := w\<rparr>) \<longleftrightarrow> arp_inv s" "arp_inv (s\<lparr>drv := d\<rparr>) \<longleftrightarrow> arp_inv s"
  "arp_inv (s\<lparr>g_t_romloader_options := g\<rparr>) \<longleftrightarrow> arp_inv s" "arp_inv (i\<lparr>uiIpOutputId := v\<rparr>) \<longleftrightarrow> arp_inv i"
  "arp_inv (snd (eth_get_empty_packet s)) \<longleftrightarrow> arp_inv s" "arp_inv (eth_release_packet p s) \<longleftrightarrow> arp_inv s"
  "arp_inv (snd (get_ms pf s)) \<longleftrightarrow> arp_inv s" "arp_inv (snd (is_elapsed pf a b s)) \<longleftrightarrow> arp_inv s"
  by (simp_all add: arp_inv_def)

text \<open>A packet has a header, so its size is not zero unless the size wraps around.\<close>

lemma ipv4_size_not_zero: "unat n < 4294967276 \<Longrightarrow> sizeof_IPV4_HEADER_T + n \<noteq> 0"
  by (auto simp: sizeof_IPV4_HEADER_T_def word_unat_eq_iff unat_word_ariths)

lemma arp_inv_ipv4_send:
  "arp_inv s \<Longrightarrow> unat n < 4294967276 \<Longrightarrow> arp_inv (ipv4_send_packet pf p dst proto n s)"
  using ipv4_size_not_zero [of n] by (simp add: ipv4_send_packet_def Let_def arp_inv_send)


subsection \<open>The echo reply\<close>

text \<open>The reply before its checksum is set.\<close>

lemma icmp_fill_reply_steps:
  assumes len: "8 \<le> unat n" and disj: "ranges_disjoint (p + 34) (unat n) (q + 34) (unat n)"
  shows "icmp_fill_reply p q n m =
    (let M = wrbytes m (q + 34) ([0, m (p + 35), 0, 0] @ rdbytes m (p + 38) (unat n - 4)) in
     wr16 M (q + 36) (MUS2NUS (checksum_add_complement M (q + 34) n)))"
proof -
  define rd where "rd i = m (p + 34 + of_nat i)" for i
  have keep: "wrbytes m (q + 34) xs (p + 34 + of_nat i) = rd i" if "i < unat n" "length xs \<le> unat n" for xs i
  proof -
    have "\<not> in_range (p + 34 + of_nat i) (q + 34) (unat n)" using disj that(1) by (simp add: ranges_disjoint_def)
    then show ?thesis using that(2) by (auto simp: rd_def in_range_def intro!: wrbytes_not_in_range)
  qed
  note keeps = keep [of 1] keep [of 4] keep [of 5] keep [of 6] keep [of 7]
  let ?xs = "[0, rd 1, 0, 0, rd 4, rd 5, rd 6, rd 7]"
  have m1: "m(q + 34 := ICMP_ECHO_REPLY) = wrbytes m (q + 34) [0]" by (simp add: ICMP_ECHO_REPLY_def)
  have m2: "(wrbytes m (q + 34) [0])(q + 35 := wrbytes m (q + 34) [0] (p + 35)) = wrbytes m (q + 34) [0, rd 1]"
    using keeps(1) [of "[0]"] len by (simp add: add.assoc)
  have m3: "wr16 (wrbytes m (q + 34) [0, rd 1]) (q + 36) 0 = wrbytes m (q + 34) [0, rd 1, 0, 0]"
    by (simp add: wr16_def add.assoc)
  have m4: "wr16 (wrbytes m (q + 34) [0, rd 1, 0, 0]) (q + 38) (rd16 (wrbytes m (q + 34) [0, rd 1, 0, 0]) (p + 38)) =
      wrbytes m (q + 34) [0, rd 1, 0, 0, rd 4, rd 5]"
    using keeps(2,3) [of "[0, rd 1, 0, 0]"] len
    by (simp add: wr16_wrbytes rd16_le add.assoc del: wrbytes.simps) (simp add: add.assoc)
  have m5: "wr16 (wrbytes m (q + 34) [0, rd 1, 0, 0, rd 4, rd 5]) (q + 40)
      (rd16 (wrbytes m (q + 34) [0, rd 1, 0, 0, rd 4, rd 5]) (p + 40)) = wrbytes m (q + 34) ?xs"
    using keeps(4,5) [of "[0, rd 1, 0, 0, rd 4, rd 5]"] len
    by (simp add: wr16_wrbytes rd16_le add.assoc del: wrbytes.simps) (simp add: add.assoc)
  have n8: "unat (n - 8) = unat n - 8" using len by (simp add: unat_sub word_le_nat_alt)
  have data: "rdbytes (wrbytes m (q + 34) ?xs) (p + 42) (unat n - 8) = rdbytes m (p + 42) (unat n - 8)"
  proof (rule rdbytes_cong)
    fix i
    assume "i < unat n - 8"
    then show "wrbytes m (q + 34) ?xs (p + 42 + of_nat i) = m (p + 42 + of_nat i)"
      using keep [of "8 + i" ?xs] len by (simp add: rd_def add.assoc)
  qed
  let ?d = "rdbytes m (p + 42) (unat n - 8)" and ?m = "wrbytes m (q + 34) (?xs @ rdbytes m (p + 42) (unat n - 8))"
  have m6: "memcpy (wrbytes m (q + 34) ?xs) (q + 42) (p + 42) (unat (n - 8)) = ?m"
    unfolding memcpy_def n8 data wrbytes_append by (simp add: add.assoc)
  have "[rd 4, rd 5, rd 6, rd 7] @ ?d = rdbytes m (p + 38) (unat n - 4)"
  proof -
    have "unat n - 4 = 4 + (unat n - 8)" using len by simp
    then have "rdbytes m (p + 38) (unat n - 4) = rdbytes m (p + 38) 4 @ rdbytes m (p + 38 + of_nat 4) (unat n - 8)"
      by (simp only: rdbytes_add)
    then show ?thesis by (simp add: rdbytes_numeral rd_def add.assoc)
  qed
  then have xs: "?xs @ ?d = [0, m (p + 35), 0, 0] @ rdbytes m (p + 38) (unat n - 4)" by (simp add: rd_def add.assoc)
  show ?thesis
    by (simp only: icmp_fill_reply_def Let_def sizeof_ICMP_PACKET_T_def m1 m2 m3 m4 m5 m6 xs)
qed

lemma icmp_fill_reply_bytes:
  assumes len: "8 \<le> unat n" and disj: "ranges_disjoint (p + 34) (unat n) (q + 34) (unat n)"
  shows "\<exists>c. icmp_fill_reply p q n m = wrbytes m (q + 34) ([0, m (p + 35)] @ le16 (MUS2NUS c) @ rdbytes m (p + 38) (unat n - 4)) \<and>
    unat c = internet_checksum ([0, m (p + 35), 0, 0] @ rdbytes m (p + 38) (unat n - 4))"
proof -
  have b: "unat n - 4 \<le> 4294967292" using unat_u32_less [of n] by linarith
  let ?d = "rdbytes m (p + 38) (unat n - 4)"
  let ?bs = "[0, m (p + 35), 0, 0] @ ?d"
  let ?m = "wrbytes m (q + 34) ?bs"
  let ?c = "checksum_add_complement ?m (q + 34) n"
  have "icmp_fill_reply p q n m = wr16 ?m (q + 36) (MUS2NUS ?c)"
    using icmp_fill_reply_steps [OF assms] by (simp only: Let_def)
  also have "\<dots> = wrbytes ?m (q + 34 + of_nat 2) (le16 (MUS2NUS ?c))" by (simp add: wr16_wrbytes add.assoc)
  also have "\<dots> = wrbytes m (q + 34) (put_bytes ?bs 2 (le16 (MUS2NUS ?c)))"
    using b by (intro wrbytes_overwrite) simp_all
  also have "put_bytes ?bs 2 (le16 (MUS2NUS ?c)) = [0, m (p + 35)] @ le16 (MUS2NUS ?c) @ ?d"
    by (simp add: put_bytes_def le16_def)
  finally have "icmp_fill_reply p q n m = wrbytes m (q + 34) ([0, m (p + 35)] @ le16 (MUS2NUS ?c) @ ?d)" .
  moreover have "unat ?c = internet_checksum ?bs" using len by (intro checksum_over_bytes) simp
  ultimately show ?thesis by blast
qed


lemma icmp_reply_verifies:
  assumes "unat c = internet_checksum ([0, b, 0, 0] @ d)"
  shows "bsum True ([0, b] @ le16 (MUS2NUS c) @ d) mod 65535 = 0"
proof -
  have "bsum True (le16 (MUS2NUS c)) = unat c"
    using unat_hi_lo [of c] assms internet_checksum_bounds by (simp add: le16_def MUS2NUS_bytes)
  then have "bsum True ([0, b] @ le16 (MUS2NUS c) @ d) = bsum True ([0, b, 0, 0] @ d) + internet_checksum ([0, b, 0, 0] @ d)"
    by (simp add: bsum_append assms)
  then show ?thesis by (simp only: internet_checksum_verifies)
qed

subsection \<open>Properties\<close>

text \<open>(C23) A packet given to \<open>ipv4_send_packet\<close> goes to the address resolution with a correct header: version,
  length, identification, flags, lifetime, protocol and addresses as requested and a checksum that
  verifies. The next hop is the destination itself for broadcasts, multicasts and the own network, and
  the gateway otherwise. Nothing but the header changes in memory.\<close>

theorem ipv4_send_packet_header:
  "\<exists>c. ipv4_send_packet pf p dst proto n s =
      arp_send_ipv4_packet pf p (20 + n)
        (if ulNetmask (eth_options s) = 0 \<or> dst = IP_ADR 255 255 255 255 \<or> dst AND 0xf0 = 0xe0 \<or>
            (ulIp (eth_options s) XOR dst) AND ulNetmask (eth_options s) = 0
         then dst else ulGatewayIp (eth_options s))
        (s\<lparr>mem := wrbytes (mem s) (p + 14)
              (ipv4_header (ulIp (eth_options s)) (uiIpOutputId s) dst (ucast proto) (20 + n) c),
            uiIpOutputId := uiIpOutputId s + 1\<rparr>) \<and>
    bsum True (ipv4_header (ulIp (eth_options s)) (uiIpOutputId s) dst (ucast proto) (20 + n) c) mod 65535 = 0"
proof -
  have x: "(a XOR b) AND k = 0 \<longleftrightarrow> a AND k = b AND k" for a b k :: u32
    by (auto simp: bit_eq_iff bit_simps)
  have "ipv4_get_destination_ip (eth_options s) dst =
      (if ulNetmask (eth_options s) = 0 \<or> dst = IP_ADR 255 255 255 255 \<or> dst AND 0xf0 = 0xe0 \<or>
            (ulIp (eth_options s) XOR dst) AND ulNetmask (eth_options s) = 0
         then dst else ulGatewayIp (eth_options s))"
    by (auto simp: ipv4_get_destination_ip_def Let_def IP_ADR_def x)
  then show ?thesis
    using ipv4_header_verifies [OF refl]
    by (simp add: ipv4_send_packet_def Let_def ipv4_fill_header_bytes sizeof_IPV4_HEADER_T_def) blast
qed

text \<open>(C24) An echo request whose length field covers the ICMP header is answered when a frame is free: the
  reply goes to the sender, has type 0, the code, identifier, sequence number and data of the request, and a
  checksum that verifies.\<close>

theorem icmp_echo_reply:
  assumes size: "42 \<le> k" and type: "mem s (p + 34) = 8" and empty: "eth_get_empty_packet s = (q, s')" "q \<noteq> NULL"
    and n: "n = NUS2MUS (rd16 (mem s) (p + 16)) - 20" "8 \<le> unat n"
    and disj: "ranges_disjoint p (34 + unat n) q (34 + unat n)"
  shows "\<exists>c. icmp_process_packet pf p k s =
      ipv4_send_packet pf q (rd32 (mem s) (p + 26)) 1 n
        (s'\<lparr>mem := wrbytes (mem s) (q + 34) ([0, mem s (p + 35)] @ c @ rdbytes (mem s) (p + 38) (unat n - 4))\<rparr>) \<and>
    length c = 2 \<and> bsum True ([0, mem s (p + 35)] @ c @ rdbytes (mem s) (p + 38) (unat n - 4)) mod 65535 = 0"
proof -
  have m: "mem s' = mem s" using mem_eth_get_empty_packet [of s] empty by simp
  have d: "ranges_disjoint (p + 34) (unat n) (q + 34) (unat n)"
    using ranges_disjoint_sub [OF disj, of 34 "unat n" 34 "unat n"] by simp
  obtain c where c: "icmp_fill_reply p q n (mem s) =
      wrbytes (mem s) (q + 34) ([0, mem s (p + 35)] @ le16 (MUS2NUS c) @ rdbytes (mem s) (p + 38) (unat n - 4))"
    "unat c = internet_checksum ([0, mem s (p + 35), 0, 0] @ rdbytes (mem s) (p + 38) (unat n - 4))"
    using icmp_fill_reply_bytes [OF n(2) d] by blast
  have len: "length ([0, mem s (p + 35)] @ le16 (MUS2NUS c) @ rdbytes (mem s) (p + 38) (unat n - 4)) = unat n"
    using n(2) by simp
  have "ranges_disjoint (p + of_nat 26) 4 (q + of_nat 34) (unat n)"
    by (rule ranges_disjoint_sub [OF disj]) (use n(2) in simp_all)
  then have "rdbytes (icmp_fill_reply p q n (mem s)) (p + 26) 4 = rdbytes (mem s) (p + 26) 4"
    unfolding c(1) using len by (intro rdbytes_wrbytes_disjoint) (simp only: len, simp)
  then have "rd32 (icmp_fill_reply p q n (mem s)) (p + 26) = rd32 (mem s) (p + 26)"
    by (simp add: rdbytes_numeral rd32_le add.assoc)
  then have "icmp_process_packet pf p k s = ipv4_send_packet pf q (rd32 (mem s) (p + 26)) 1 n
      (s'\<lparr>mem := icmp_fill_reply p q n (mem s)\<rparr>)"
    using size type empty m n(1)
    by (simp add: icmp_process_packet_def sizeof_defs ICMP_ECHO_REQUEST_def IP_PROTOCOL_ICMP_def Let_def)
  then show ?thesis using c icmp_reply_verifies [OF c(2)] by (intro exI [of _ "le16 (MUS2NUS c)"]) simp
qed

text \<open>A ping with four bytes of data in the first frame of the list hardware.\<close>

definition demo_ping :: "((u32 \<Rightarrow> u32 \<Rightarrow> u32 list) xc, nat) ipv4" where
  "demo_ping = \<lparr>mem = (\<lambda>a. if a = 0x05000022 then 8 else if a = 0x05000011 then 32 else 0), env = 0,
     drv = two_empty, tNetworkIf = tNetworkIfXc list_regs, g_t_romloader_options = demo_options,
     atPacketQueue = empty_queue, aui_arp_cache = empty_cache, uiIpOutputId = 0\<rparr>"

lemma two_empty_get: "\<exists>d. pfnGetEmptyPacket (tNetworkIfXc list_regs) two_empty = (0x05000618, d)"
  by (simp add: tNetworkIfXc_def drv_eth_xc_get_empty_packet_def two_empty_def list_regs_def fifo_nr_def Let_def
    NUM_FIFO_CHANNELS_PER_UNIT_def ETHERNET_FIFO_EMPTY_def convert_fifo_value_to_packet_pointer_def ETH_FRAME_BUF_SIZE_def
    MSK_ETHMAC_FIFO_ELEMENT_FRAME_BUF_NUM_def MSK_ETHMAC_FIFO_ELEMENT_INT_RAM_SEGMENT_NUM_def)

text \<open>(C24) Witness: the ping is answered.\<close>

theorem icmp_echo_reply_witness:
  "\<exists>c d. icmp_process_packet demo_env 0x05000000 60 demo_ping =
      ipv4_send_packet demo_env 0x05000618 0 1 12
        (demo_ping\<lparr>drv := d, mem := wrbytes (mem demo_ping) 0x0500063a ([0, 0] @ c @ [0, 0, 0, 0, 0, 0, 0, 0])\<rparr>) \<and>
    bsum True ([0, 0] @ c @ [0, 0, 0, 0, 0, 0, 0, 0]) mod 65535 = 0"
proof -
  obtain d where d: "pfnGetEmptyPacket (tNetworkIfXc list_regs) two_empty = (0x05000618, d)" using two_empty_get by blast
  have e: "eth_get_empty_packet demo_ping = (0x05000618, demo_ping\<lparr>drv := d\<rparr>)"
    using d by (simp add: eth_get_empty_packet_def demo_ping_def)
  have n: "12 = NUS2MUS (rd16 (mem demo_ping) (0x05000000 + 16)) - 20"
    by (simp add: demo_ping_def rd16_def NUS2MUS_def MUS2NUS_def)
  have disj: "ranges_disjoint 0x05000000 (34 + unat (12 :: u32)) 0x05000618 (34 + unat (12 :: u32))"
    by (rule ranges_disjointI) simp_all
  have b: "rdbytes (mem demo_ping) 0x05000026 8 = [0, 0, 0, 0, 0, 0, 0, 0]" "mem demo_ping 0x05000023 = 0"
      "rd32 (mem demo_ping) 0x0500001a = 0"
    by (simp_all add: demo_ping_def rdbytes_numeral rd32_def)
  have t: "mem demo_ping (0x05000000 + 34) = 8" by (simp add: demo_ping_def)
  have "\<exists>c. icmp_process_packet demo_env 0x05000000 60 demo_ping =
      ipv4_send_packet demo_env 0x05000618 0 1 12
        (demo_ping\<lparr>drv := d, mem := wrbytes (mem demo_ping) 0x0500063a ([0, 0] @ c @ [0, 0, 0, 0, 0, 0, 0, 0])\<rparr>) \<and>
      length c = 2 \<and> bsum True ([0, 0] @ c @ [0, 0, 0, 0, 0, 0, 0, 0]) mod 65535 = 0"
    using icmp_echo_reply [OF _ t e _ n _ disj, of 60 demo_env] b by simp
  then show ?thesis by (elim exE conjE) (intro exI conjI, assumption+)
qed

end
