(* ===== verification/Udp.thy ===== *)
theory Udp
  imports Ipv4
begin

text \<open>
  UDP (networking/stack/udp.c): the table of the open ports, the checksum over the pseudo header, sending
  and receiving. The port table is an array of \<open>UDP_PORTLIST_MAX\<close> associations in which a local port of
  0 marks a free entry; a pointer to an association is its index. The receive handlers are the
  functions of the protocols above; \<open>udp_process_packet\<close> gets their meaning as an argument, which the
  theory \<open>Stack\<close> provides. Calling an entry whose handler was never set is the value \<open>None\<close>.
\<close>

definition UDP_PORTLIST_MAX :: nat where "UDP_PORTLIST_MAX = 8"

datatype pfn_udp_receive_handler = pfn_NULL | dhcp_rec | dns_rec | tftp_rec

record UDP_ASSOCIATION_T =
  uiLocalPort :: u32
  ulRemoteIp :: u32
  uiRemotePort :: u32
  pfn_recHandler :: pfn_udp_receive_handler
  pvUser :: ptr

record ('d, 'w) udp = "('d, 'w) ipv4" +
  atUdpPortAssoc :: "UDP_ASSOCIATION_T list"

subsection \<open>Checksum\<close>

text \<open>The IP checksum field carries the length while the sum runs from the protocol field over the addresses and
  the UDP packet; both fields are restored. The value is not byte-swapped.\<close>

definition udp_buildChecksum :: "ptr \<Rightarrow> u32 \<Rightarrow> memory \<Rightarrow> u16 \<times> memory" where
  "udp_buildChecksum ptPkt sizUdpPacketSize m =
     (let uiIpChecksum = rd16 m (ip_usChecksum ptPkt);
          m = wr16 m (ip_usChecksum ptPkt) (rd16 m (udp_usLength ptPkt));
          uiUdpChecksum = rd16 m (udp_usChecksum ptPkt);
          m = wr16 m (udp_usChecksum ptPkt) 0;
          uiMyUdpChecksum = checksum_add_complement m (ip_ucProtocol ptPkt) (sizUdpPacketSize + 11);
          m = wr16 m (ip_usChecksum ptPkt) uiIpChecksum;
          m = wr16 m (udp_usChecksum ptPkt) uiUdpChecksum in
      (ucast uiMyUdpChecksum, m))"

subsection \<open>Operations\<close>

definition udp_init :: "('d, 'w, 'z) udp_scheme \<Rightarrow> ('d, 'w, 'z) udp_scheme" where
  "udp_init s = s\<lparr>atUdpPortAssoc := map (\<lambda>a. a\<lparr>uiLocalPort := 0\<rparr>) (atUdpPortAssoc s)\<rparr>"

definition udp_find_port :: "u32 \<Rightarrow> UDP_ASSOCIATION_T list \<Rightarrow> nat option" where
  "udp_find_port uiPort t = find_index (\<lambda>a. uiLocalPort a = uiPort) t"

definition udp_process_packet ::
    "(pfn_udp_receive_handler \<Rightarrow> ptr \<Rightarrow> u32 \<Rightarrow> ('d, 'w, 'z) udp_scheme \<Rightarrow> ('d, 'w, 'z) udp_scheme option) \<Rightarrow>
     ptr \<Rightarrow> u32 \<Rightarrow> ('d, 'w, 'z) udp_scheme \<Rightarrow> ('d, 'w, 'z) udp_scheme option" where
  "udp_process_packet handler ptPkt sizPacket s =
     (if sizPacket \<ge> sizeof_ETH2_HEADER_T + sizeof_IPV4_HEADER_T + sizeof_UDP_HEADER_T then
        let sizUdpPacketSize = NUS2MUS (rd16 (mem s) (udp_usLength ptPkt));
            sizTransferedSize = sizPacket - sizeof_ETH2_HEADER_T - sizeof_IPV4_HEADER_T in
        if sizUdpPacketSize \<le> sizTransferedSize then
          (case udp_buildChecksum ptPkt sizUdpPacketSize (mem s) of (uiMyUdpChecksum, m) \<Rightarrow>
             let s = s\<lparr>mem := m\<rparr> in
             if uiMyUdpChecksum = rd16 (mem s) (udp_usChecksum ptPkt) then
               let uiDstPort = ucast (rd16 (mem s) (udp_usDstPort ptPkt)) :: u32 in
               (case udp_find_port uiDstPort (atUdpPortAssoc s) of
                  None \<Rightarrow> Some s
                | Some i \<Rightarrow> handler (pfn_recHandler (atUdpPortAssoc s ! i)) ptPkt (sizUdpPacketSize - sizeof_UDP_HEADER_T) s)
             else Some s)
        else Some s
      else Some s)"

text \<open>The header of an outgoing packet to the association \<open>a\<close>.\<close>

definition udp_fill_header :: "u32 \<Rightarrow> UDP_ASSOCIATION_T \<Rightarrow> ptr \<Rightarrow> u32 \<Rightarrow> memory \<Rightarrow> memory" where
  "udp_fill_header my a ptPkt sizPacketSize m =
     (let m = m(ip_ucProtocol ptPkt := IP_PROTOCOL_UDP);
          m = wr32 m (ip_ulSrcIp ptPkt) my;
          m = wr32 m (ip_ulDstIp ptPkt) (ulRemoteIp a);
          m = wr16 m (udp_usSrcPort ptPkt) (ucast (uiLocalPort a));
          m = wr16 m (udp_usDstPort ptPkt) (ucast (uiRemotePort a));
          m = wr16 m (udp_usLength ptPkt) (MUS2NUS sizPacketSize) in
      case udp_buildChecksum ptPkt sizPacketSize m of (usChecksum, m) \<Rightarrow> wr16 m (udp_usChecksum ptPkt) usChecksum)"

definition udp_send_packet ::
    "'w stack_env \<Rightarrow> ptr \<Rightarrow> u32 \<Rightarrow> nat option \<Rightarrow> ('d, 'w, 'z) udp_scheme \<Rightarrow> ('d, 'w, 'z) udp_scheme" where
  "udp_send_packet pf ptPkt sizUdpUserData ptAssoc s =
     (case ptAssoc of
        None \<Rightarrow> s
      | Some i \<Rightarrow>
          if i < UDP_PORTLIST_MAX then
            let a = atUdpPortAssoc s ! i;
                sizPacketSize = sizeof_UDP_HEADER_T + sizUdpUserData;
                m = udp_fill_header (ulIp (eth_options s)) a ptPkt sizPacketSize (mem s) in
            ipv4_send_packet pf ptPkt (ulRemoteIp a) (ucast IP_PROTOCOL_UDP) sizPacketSize (s\<lparr>mem := m\<rparr>)
          else s)"

definition udp_registerPort ::
    "u32 \<Rightarrow> u32 \<Rightarrow> u32 \<Rightarrow> pfn_udp_receive_handler \<Rightarrow> ptr \<Rightarrow> ('d, 'w, 'z) udp_scheme \<Rightarrow>
     nat option \<times> ('d, 'w, 'z) udp_scheme" where
  "udp_registerPort localPort remoteIp remotePort recHandler user s =
     (case udp_find_port 0 (atUdpPortAssoc s) of
        None \<Rightarrow> (None, s)
      | Some i \<Rightarrow> (Some i, s\<lparr>atUdpPortAssoc := (atUdpPortAssoc s)[i := \<lparr>uiLocalPort = localPort, ulRemoteIp = remoteIp,
          uiRemotePort = remotePort, pfn_recHandler = recHandler, pvUser = user\<rparr>]\<rparr>))"

definition udp_unregisterPort :: "nat option \<Rightarrow> ('d, 'w, 'z) udp_scheme \<Rightarrow> ('d, 'w, 'z) udp_scheme" where
  "udp_unregisterPort ptAssoc s =
     (case ptAssoc of
        None \<Rightarrow> s
      | Some i \<Rightarrow>
          if i < UDP_PORTLIST_MAX
          then s\<lparr>atUdpPortAssoc := (atUdpPortAssoc s)[i := (atUdpPortAssoc s ! i)\<lparr>uiLocalPort := 0\<rparr>]\<rparr>
          else s)"

subsection \<open>The checksum leaves the packet unchanged\<close>

lemma wr16_rd16_same: "wr16 m a (rd16 m a) = m"
  using le16_of_le16 [of "m a" "m (a + 1)"] by (simp add: wr16_wrbytes rd16_le fun_upd_idem)

lemma udp_buildChecksum_mem [simp]: "snd (udp_buildChecksum p n m) = m"
proof -
  have c: "wr16 (wr16 m (p + 24) v) (p + 40) w = wr16 (wr16 m (p + 40) w) (p + 24) v" for m v w
    by (rule ext) (auto simp: wr16_def add.assoc)
  have r: "rd16 (wr16 m (p + 24) v) (p + 40) = rd16 m (p + 40)" for v
    by (simp add: rd16_def wr16_def add.assoc)
  have w: "wr16 (wr16 m a v) a w = wr16 m a w" for m a v w
    by (rule ext) (auto simp: wr16_def)
  show ?thesis by (simp add: udp_buildChecksum_def Let_def r c w wr16_rd16_same)
qed


subsection \<open>The checksum of RFC 768\<close>

text \<open>The pseudo header of a packet: source, destination, zero, protocol and the length of the UDP header.\<close>

definition udp_pseudo :: "memory \<Rightarrow> ptr \<Rightarrow> u8 list" where
  "udp_pseudo m p = rdbytes m (p + 26) 8 @ [0, m (p + 23)] @ rdbytes m (p + 38) 2"

text \<open>The bytes that \<open>udp_buildChecksum\<close> adds.\<close>

lemma udp_summed_bytes:
  assumes "8 \<le> n" and "n < 65536"
  shows "rdbytes (wr16 (wr16 m (p + 24) (rd16 m (p + 38))) (p + 40) 0) (p + 23) (n + 11) =
    [m (p + 23), m (p + 38), m (p + 39)] @ rdbytes m (p + 26) 8 @ rdbytes m (p + 34) 6 @ [0, 0] @ rdbytes m (p + 42) (n - 8)"
proof -
  have "n + 11 = 19 + (n - 8)" using assms by simp
  then have all: "rdbytes m (p + 23) (n + 11) = rdbytes m (p + 23) 19 @ rdbytes m (p + 42) (n - 8)"
    by (simp only: rdbytes_add) (simp add: add.assoc)
  have "wr16 (wr16 m (p + 24) (rd16 m (p + 38))) (p + 40) 0 =
      wrbytes (wrbytes m (p + 23 + of_nat 1) [m (p + 38), m (p + 39)]) (p + 23 + of_nat 17) [0, 0]"
    by (simp add: wr16_wrbytes rd16_le le16_def add.assoc del: wrbytes.simps)
      (simp add: le16_of_le16 [unfolded le16_def, simplified])
  moreover have "rdbytes (wrbytes m (p + 23 + of_nat 1) [m (p + 38), m (p + 39)]) (p + 23) (n + 11) =
      put_bytes (rdbytes m (p + 23) (n + 11)) 1 [m (p + 38), m (p + 39)]"
    by (rule rdbytes_wrbytes_put) (use assms in simp_all)
  moreover have "rdbytes (wrbytes m' (p + 23 + of_nat 17) [0, 0]) (p + 23) (n + 11) =
      put_bytes (rdbytes m' (p + 23) (n + 11)) 17 [0, 0]" for m'
    by (rule rdbytes_wrbytes_put) (use assms in simp_all)
  ultimately have "rdbytes (wr16 (wr16 m (p + 24) (rd16 m (p + 38))) (p + 40) 0) (p + 23) (n + 11) =
      put_bytes (put_bytes (rdbytes m (p + 23) (n + 11)) 1 [m (p + 38), m (p + 39)]) 17 [0, 0]"
    by (simp only:)
  then show ?thesis unfolding all by (simp add: put_bytes_def rdbytes_numeral add.assoc)
qed

lemma udp_packet_bytes:
  assumes "8 \<le> n"
  shows "rdbytes m (p + 34) n = rdbytes m (p + 34) 6 @ [m (p + 40), m (p + 41)] @ rdbytes m (p + 42) (n - 8)"
proof -
  have "n = 8 + (n - 8)" using assms by simp
  then have "rdbytes m (p + 34) n = rdbytes m (p + 34) (8 + (n - 8))" by (rule arg_cong)
  also have "\<dots> = rdbytes m (p + 34) 8 @ rdbytes m (p + 34 + of_nat 8) (n - 8)" by (simp only: rdbytes_add)
  finally show ?thesis by (simp add: rdbytes_numeral add.assoc)
qed


lemma udp_checksum_value:
  assumes "8 \<le> unat n" and "unat n < 65536"
  shows "unat (fst (udp_buildChecksum p n m)) = 65535 - 256 * (bsum True (udp_pseudo m p) +
      bsum True (rdbytes m (p + 34) 6 @ [0, 0] @ rdbytes m (p + 42) (unat n - 8))) mod 65535"
proof -
  let ?M = "wr16 (wr16 m (p + 24) (rd16 m (p + 38))) (p + 40) 0"
  let ?u = "rdbytes m (p + 34) 6 @ [0, 0] @ rdbytes m (p + 42) (unat n - 8)"
  let ?c = "checksum_add_complement ?M (p + 23) (n + 11)"
  have r: "rd16 (wr16 m (p + 24) v) (p + 38) = rd16 m (p + 38)" for v by (simp add: rd16_def wr16_def add.assoc)
  have n: "unat (n + 11) = unat n + 11" using assms by (simp add: unat_word_ariths)
  have c: "unat ?c = internet_checksum ([m (p + 23), m (p + 38), m (p + 39)] @ rdbytes m (p + 26) 8 @ ?u)"
    unfolding unat_checksum n udp_summed_bytes [OF assms] ..
  have "unat (ucast ?c :: u16) = unat ?c"
    using internet_checksum_bounds(2) [of "rdbytes ?M (p + 23) (unat (n + 11))"]
    by (simp add: unat_checksum unsigned_ucast_eq take_bit_eq_mod less_Suc_eq_le [symmetric])
  then have v: "unat (fst (udp_buildChecksum p n m)) = unat ?c"
    by (simp add: udp_buildChecksum_def Let_def)
  let ?x = "256 * unat (m (p + 23))"
  let ?y = "bsum False [m (p + 38), m (p + 39)]" and ?z = "bsum False (rdbytes m (p + 26) 8)"
  have code: "bsum True ([m (p + 23), m (p + 38), m (p + 39)] @ rdbytes m (p + 26) 8 @ ?u) = ?x + ?y + ?z + bsum False ?u"
    by (simp add: bsum_append)
  have rfc: "256 * (bsum True (udp_pseudo m p) + bsum True ?u) =
      ?x + 256 * bsum True [m (p + 38), m (p + 39)] + 256 * bsum True (rdbytes m (p + 26) 8) + 256 * bsum True ?u"
    by (simp add: udp_pseudo_def bsum_append rdbytes_numeral [of _ "p + 38"] add.assoc)
  have "256 * (bsum True (udp_pseudo m p) + bsum True ?u) mod 65535 = (?x + ?y + ?z + bsum False ?u) mod 65535"
    unfolding rfc by (intro mod_add_cong bsum_swap [of True, simplified] refl)
  then show ?thesis unfolding v c internet_checksum_def code by (simp only:)
qed


lemma udp_pseudo_length: "length (udp_pseudo m p) = 12"
  by (simp add: udp_pseudo_def)

lemma udp_checksum_test:
  assumes n: "8 \<le> unat n" "unat n < 65536"
  shows "fst (udp_buildChecksum p n m) = rd16 m (p + 40) \<longleftrightarrow>
    rd16 m (p + 40) \<noteq> 0 \<and> bsum True (udp_pseudo m p @ rdbytes m (p + 34) (unat n)) mod 65535 = 0"
proof -
  let ?u = "rdbytes m (p + 34) 6 @ [0, 0] @ rdbytes m (p + 42) (unat n - 8)"
  let ?s = "bsum True (udp_pseudo m p) + bsum True ?u" and ?f = "unat (rd16 m (p + 40))"
  let ?a = "unat (m (p + 40))" and ?b = "unat (m (p + 41))"
  have f: "?f = ?a + 256 * ?b" by (simp add: rd16_le unat_of_le16 add.assoc)
  have "?f < 65536" by (rule unat_u16_less)
  then have le: "?f \<le> 65535" by linarith
  have t: "bsum True (udp_pseudo m p @ rdbytes m (p + 34) (unat n)) = ?s + 256 * ?a + ?b"
    unfolding udp_packet_bytes [OF n(1)] by (simp add: bsum_append udp_pseudo_length)
  have "256 * (?s + 256 * ?a + ?b) = 256 * ?s + ?f + 65535 * ?a" by (simp add: f)
  then have "256 * (?s + 256 * ?a + ?b) mod 65535 = (256 * ?s + ?f) mod 65535" by (simp only: mod_mult_self2)
  then have t0: "bsum True (udp_pseudo m p @ rdbytes m (p + 34) (unat n)) mod 65535 = 0 \<longleftrightarrow> (256 * ?s + ?f) mod 65535 = 0"
    unfolding t using mod_65535_256 [of "?s + 256 * ?a + ?b"] by (simp only:)
  have c: "fst (udp_buildChecksum p n m) = rd16 m (p + 40) \<longleftrightarrow> ?f = 65535 - 256 * ?s mod 65535"
    unfolding word_unat_eq_iff udp_checksum_value [OF n] by (rule eq_commute)
  show ?thesis
  proof (cases "rd16 m (p + 40) = 0")
    case True
    have "256 * ?s mod 65535 < 65535" by simp
    then have "?f \<noteq> 65535 - 256 * ?s mod 65535" using True by simp
    then show ?thesis using c True by simp
  next
    case False
    then have "0 < ?f" by (simp add: unat_gt_0)
    then show ?thesis using c t0 False complement_unique [OF _ le] by simp
  qed
qed

lemma udp_checksum_cong:
  assumes n: "8 \<le> unat n" "unat n < 65536" and "udp_pseudo m p = udp_pseudo m' p"
    and "rdbytes m (p + 34) 6 = rdbytes m' (p + 34) 6"
    and "rdbytes m (p + 42) (unat n - 8) = rdbytes m' (p + 42) (unat n - 8)"
  shows "fst (udp_buildChecksum p n m) = fst (udp_buildChecksum p n m')"
  unfolding word_unat_eq_iff udp_checksum_value [OF n] by (simp only: assms(3-5))

subsection \<open>A packet on the wire\<close>

lemma udp_fill_header_bytes:
  "\<exists>c. udp_fill_header my a p n m =
     wrbytes (m(p + 23 := 0x11)) (p + 26) (le32 my @ le32 (ulRemoteIp a) @ le16 (ucast (uiLocalPort a)) @
       le16 (ucast (uiRemotePort a)) @ le16 (MUS2NUS n) @ le16 c) \<and>
     c = fst (udp_buildChecksum p n (wrbytes (m(p + 23 := 0x11)) (p + 26) (le32 my @ le32 (ulRemoteIp a) @
       le16 (ucast (uiLocalPort a)) @ le16 (ucast (uiRemotePort a)) @ le16 (MUS2NUS n))))"
proof -
  let ?m0 = "m(p + 23 := 0x11)"
  let ?xs = "le32 my @ le32 (ulRemoteIp a) @ le16 (ucast (uiLocalPort a)) @ le16 (ucast (uiRemotePort a)) @ le16 (MUS2NUS n)"
  have "wr16 (wr16 (wr16 (wr32 (wr32 ?m0 (p + 26) my) (p + 30) (ulRemoteIp a)) (p + 34) (ucast (uiLocalPort a)))
      (p + 36) (ucast (uiRemotePort a))) (p + 38) (MUS2NUS n) = wrbytes ?m0 (p + 26) ?xs"
    by (simp only: wr16_wrbytes wr32_wrbytes wrbytes_append length_le16 length_le32) (simp add: add.assoc)
  then have "udp_fill_header my a p n m = wr16 (wrbytes ?m0 (p + 26) ?xs) (p + 40)
      (fst (udp_buildChecksum p n (wrbytes ?m0 (p + 26) ?xs)))"
    by (simp add: udp_fill_header_def Let_def IP_PROTOCOL_UDP_def case_prod_beta)
  also have "wr16 (wrbytes ?m0 (p + 26) ?xs) (p + 40) c = wrbytes ?m0 (p + 26) (?xs @ le16 c)" for c
    by (simp add: wr16_wrbytes wrbytes_append [of _ _ ?xs "le16 c"] add.assoc del: append_assoc)
  finally show ?thesis by simp
qed


text \<open>The frame after \<open>udp_fill_header\<close> and \<open>ipv4_fill_header\<close>: both write the same addresses.\<close>

definition udp_wire :: "u32 \<Rightarrow> u32 \<Rightarrow> UDP_ASSOCIATION_T \<Rightarrow> ptr \<Rightarrow> u32 \<Rightarrow> memory \<Rightarrow> memory" where
  "udp_wire my idn a p n m =
     ipv4_fill_header my idn p (ulRemoteIp a) (ucast IP_PROTOCOL_UDP) (sizeof_IPV4_HEADER_T + (sizeof_UDP_HEADER_T + n))
       (udp_fill_header my a p (sizeof_UDP_HEADER_T + n) m)"

lemma udp_send_packet_wire:
  "i < UDP_PORTLIST_MAX \<Longrightarrow> udp_send_packet pf p n (Some i) s =
     arp_send_ipv4_packet pf p (sizeof_IPV4_HEADER_T + (sizeof_UDP_HEADER_T + n))
       (ipv4_get_destination_ip (eth_options s) (ulRemoteIp (atUdpPortAssoc s ! i)))
       (s\<lparr>mem := udp_wire (ulIp (eth_options s)) (uiIpOutputId s) (atUdpPortAssoc s ! i) p n (mem s),
          uiIpOutputId := uiIpOutputId s + 1\<rparr>)"
  by (simp add: udp_send_packet_def ipv4_send_packet_def udp_wire_def Let_def)

lemma udp_wire_fields:
  assumes m'_def: "m' = udp_wire my idn a p n m"
  shows "m' (p + 23) = 0x11" "rdbytes m' (p + 26) 8 = le32 my @ le32 (ulRemoteIp a)"
    "\<exists>c. rdbytes m' (p + 34) 8 = le16 (ucast (uiLocalPort a)) @ le16 (ucast (uiRemotePort a)) @ le16 (MUS2NUS (8 + n)) @ le16 c \<and>
      c = fst (udp_buildChecksum p (8 + n) (wrbytes (m(p + 23 := 0x11)) (p + 26) (le32 my @ le32 (ulRemoteIp a) @
         le16 (ucast (uiLocalPort a)) @ le16 (ucast (uiRemotePort a)) @ le16 (MUS2NUS (8 + n)))))"
proof -
  obtain c where c: "udp_fill_header my a p (8 + n) m =
     wrbytes (m(p + 23 := 0x11)) (p + 26) (le32 my @ le32 (ulRemoteIp a) @ le16 (ucast (uiLocalPort a)) @
       le16 (ucast (uiRemotePort a)) @ le16 (MUS2NUS (8 + n)) @ le16 c)"
     "c = fst (udp_buildChecksum p (8 + n) (wrbytes (m(p + 23 := 0x11)) (p + 26) (le32 my @ le32 (ulRemoteIp a) @
         le16 (ucast (uiLocalPort a)) @ le16 (ucast (uiRemotePort a)) @ le16 (MUS2NUS (8 + n)))))"
    using udp_fill_header_bytes [of my a p "8 + n" m] by blast
  obtain c4 where m': "m' = wrbytes (udp_fill_header my a p (8 + n) m) (p + 14)
      (ipv4_header my idn (ulRemoteIp a) 0x11 (28 + n) (le16 c4))"
    unfolding m'_def udp_wire_def ipv4_fill_header_bytes sizeof_IPV4_HEADER_T_def sizeof_UDP_HEADER_T_def
      IP_PROTOCOL_UDP_def by (simp add: add.assoc [symmetric])
  show "m' (p + 23) = 0x11"
    unfolding m' ipv4_header_def le16_def le32_def by (simp add: add.assoc)
  show "rdbytes m' (p + 26) 8 = le32 my @ le32 (ulRemoteIp a)"
    unfolding m' ipv4_header_def le16_def le32_def by (simp add: add.assoc rdbytes_numeral)
  have "rdbytes m' (p + 34) 8 = le16 (ucast (uiLocalPort a)) @ le16 (ucast (uiRemotePort a)) @ le16 (MUS2NUS (8 + n)) @ le16 c"
    unfolding m' c(1) ipv4_header_def le16_def le32_def by (simp add: add.assoc rdbytes_numeral)
  then show "\<exists>c. rdbytes m' (p + 34) 8 = le16 (ucast (uiLocalPort a)) @ le16 (ucast (uiRemotePort a)) @ le16 (MUS2NUS (8 + n)) @ le16 c \<and>
      c = fst (udp_buildChecksum p (8 + n) (wrbytes (m(p + 23 := 0x11)) (p + 26) (le32 my @ le32 (ulRemoteIp a) @
         le16 (ucast (uiLocalPort a)) @ le16 (ucast (uiRemotePort a)) @ le16 (MUS2NUS (8 + n)))))"
    using c(2) by blast
qed

text \<open>The data is not touched.\<close>

lemma udp_wire_data:
  assumes "k < 65536"
  shows "rdbytes (udp_wire my idn a p n m) (p + 42) k = rdbytes m (p + 42) k"
    "rdbytes (wrbytes (m(p + 23 := b)) (p + 26) (le32 my @ le32 dst @ le16 x @ le16 y @ le16 z)) (p + 42) k = rdbytes m (p + 42) k"
proof -
  have off: "ranges_disjoint (p + 42) k (p + of_nat i) l" if "i + l \<le> 42" for i l
    using ranges_disjoint_offset [of i l 42 k p] that assms by simp
  have skip: "rdbytes (wrbytes M (p + of_nat i) bs) (p + 42) k = rdbytes M (p + 42) k" if "i + length bs \<le> 42" for M i bs
    by (rule rdbytes_wrbytes_disjoint [OF off [OF that]])
  note s = skip [of 14, simplified] skip [of 26, simplified] skip [of 23 "[_]", simplified]
  obtain c where c: "udp_fill_header my a p (8 + n) m =
     wrbytes (m(p + 23 := 0x11)) (p + 26) (le32 my @ le32 (ulRemoteIp a) @ le16 (ucast (uiLocalPort a)) @
       le16 (ucast (uiRemotePort a)) @ le16 (MUS2NUS (8 + n)) @ le16 c)"
    using udp_fill_header_bytes [of my a p "8 + n" m] by blast
  show "rdbytes (udp_wire my idn a p n m) (p + 42) k = rdbytes m (p + 42) k"
    unfolding udp_wire_def ipv4_fill_header_bytes sizeof_IPV4_HEADER_T_def sizeof_UDP_HEADER_T_def c
    by (simp add: s ipv4_header_def del: wrbytes.simps append_Cons)
  show "rdbytes (wrbytes (m(p + 23 := b)) (p + 26) (le32 my @ le32 dst @ le16 x @ le16 y @ le16 z)) (p + 42) k = rdbytes m (p + 42) k"
    by (simp add: s del: wrbytes.simps)
qed


lemma udp_wire_accepted:
  assumes "unat n + 8 < 65536"
  shows "fst (udp_buildChecksum p (8 + n) (udp_wire my idn a p n m)) = rd16 (udp_wire my idn a p n m) (p + 40)"
    "rd16 (udp_wire my idn a p n m) (p + 36) = ucast (uiRemotePort a)"
    "NUS2MUS (rd16 (udp_wire my idn a p n m) (p + 38)) = 8 + n"
proof -
  let ?m' = "udp_wire my idn a p n m"
  let ?xs = "le32 my @ le32 (ulRemoteIp a) @ le16 (ucast (uiLocalPort a)) @ le16 (ucast (uiRemotePort a)) @ le16 (MUS2NUS (8 + n))"
  let ?m0 = "wrbytes (m(p + 23 := 0x11)) (p + 26) ?xs"
  have n: "unat (8 + n) = 8 + unat n" using assms by (simp add: unat_word_ariths)
  note w = udp_wire_fields [OF refl, of my idn a p n m]
  obtain c where c: "rdbytes ?m' (p + 34) 8 = le16 (ucast (uiLocalPort a)) @ le16 (ucast (uiRemotePort a)) @ le16 (MUS2NUS (8 + n)) @ le16 c"
      "c = fst (udp_buildChecksum p (8 + n) ?m0)" using w(3) by blast
  then have b: "rd16 ?m' (p + 36) = ucast (uiRemotePort a)" "rd16 ?m' (p + 38) = MUS2NUS (8 + n)" "rd16 ?m' (p + 40) = c"
      "rdbytes ?m' (p + 34) 6 = le16 (ucast (uiLocalPort a)) @ le16 (ucast (uiRemotePort a)) @ le16 (MUS2NUS (8 + n))"
    by (simp_all add: rdbytes_numeral rd16_le add.assoc le16_def)
  have "udp_pseudo ?m' p = le32 my @ le32 (ulRemoteIp a) @ [0, 0x11] @ le16 (MUS2NUS (8 + n))"
    using w(1,2) c(1) by (simp add: udp_pseudo_def rdbytes_numeral add.assoc le16_def)
  moreover have "udp_pseudo ?m0 p = le32 my @ le32 (ulRemoteIp a) @ [0, 0x11] @ le16 (MUS2NUS (8 + n))"
    by (simp add: udp_pseudo_def rdbytes_numeral add.assoc le16_def le32_def)
  moreover have "rdbytes ?m0 (p + 34) 6 = rdbytes ?m' (p + 34) 6"
    unfolding b(4) by (simp add: rdbytes_numeral add.assoc le16_def le32_def)
  moreover have "rdbytes ?m0 (p + 42) (unat n) = rdbytes ?m' (p + 42) (unat n)"
    using assms by (simp only: udp_wire_data [of "unat n"])
  ultimately have "fst (udp_buildChecksum p (8 + n) ?m') = fst (udp_buildChecksum p (8 + n) ?m0)"
    using n assms by (intro udp_checksum_cong) simp_all
  then show "fst (udp_buildChecksum p (8 + n) ?m') = rd16 ?m' (p + 40)" using c(2) b(3) by simp
  show "rd16 ?m' (p + 36) = ucast (uiRemotePort a)" by (rule b(1))
  have "8 + n AND 0xffff = 8 + n"
  proof -
    have e: "(0xffff :: u32) = mask 16" by (simp add: mask_eq_exp_minus_1)
    show ?thesis unfolding word_unat_eq_iff e unat_and_mask n using assms by simp
  qed
  then show "NUS2MUS (rd16 ?m' (p + 38)) = 8 + n" unfolding b(2) NUS2MUS_MUS2NUS .
qed

subsection \<open>The port table\<close>

text \<open>
  What the protocols rely on when they open and close a port: \<open>lookup\<close> finds the handler of a
  port, \<open>reg\<close> opens a port and \<open>unreg\<close> closes it.
\<close>

locale port_table =
  fixes ok :: "'t \<Rightarrow> bool" and lookup :: "u32 \<Rightarrow> 't \<Rightarrow> 'h option" and reg :: "u32 \<Rightarrow> 'h \<Rightarrow> 't \<Rightarrow> ('k \<times> 't) option"
    and unreg :: "'k \<Rightarrow> 't \<Rightarrow> 't"
  assumes reg_ok: "ok t \<Longrightarrow> port \<noteq> 0 \<Longrightarrow> lookup port t = None \<Longrightarrow> reg port h t = Some (k, t') \<Longrightarrow>
      ok t' \<and> lookup port t' = Some h"
    and reg_other: "ok t \<Longrightarrow> reg port h t = Some (k, t') \<Longrightarrow> x \<noteq> 0 \<Longrightarrow> x \<noteq> port \<Longrightarrow> lookup x t' = lookup x t"
    and unreg_ok: "ok t \<Longrightarrow> port \<noteq> 0 \<Longrightarrow> lookup port t = None \<Longrightarrow> reg port h t = Some (k, t') \<Longrightarrow>
      ok (unreg k t') \<and> (\<forall>x. x \<noteq> 0 \<longrightarrow> lookup x (unreg k t') = lookup x t)"
begin

text \<open>A connection that is opened and closed leaves the other ports as they were, and its port can be
  opened again.\<close>

lemma open_close:
  assumes "ok t" and "port \<noteq> 0" and "lookup port t = None" and "reg port h t = Some (k, t')"
  shows "ok (unreg k t')" and "lookup port (unreg k t') = None"
    and "x \<noteq> 0 \<Longrightarrow> x \<noteq> port \<Longrightarrow> lookup x t' = lookup x (unreg k t')"
  using unreg_ok [OF assms] reg_other [OF assms(1,4)] assms(2,3) by auto

end

definition ports_ok :: "UDP_ASSOCIATION_T list \<Rightarrow> bool" where
  "ports_ok t \<longleftrightarrow> length t = UDP_PORTLIST_MAX"

type_synonym udp_peer = "u32 \<times> u32 \<times> pfn_udp_receive_handler \<times> ptr"

definition assoc_peer :: "UDP_ASSOCIATION_T \<Rightarrow> udp_peer" where
  "assoc_peer a = (ulRemoteIp a, uiRemotePort a, pfn_recHandler a, pvUser a)"

definition ports_lookup :: "u32 \<Rightarrow> UDP_ASSOCIATION_T list \<Rightarrow> udp_peer option" where
  "ports_lookup port t = map_option (\<lambda>i. assoc_peer (t ! i)) (udp_find_port port t)"

text \<open>The operations of the code on the table alone.\<close>

definition ports_reg :: "u32 \<Rightarrow> udp_peer \<Rightarrow> UDP_ASSOCIATION_T list \<Rightarrow> (nat \<times> UDP_ASSOCIATION_T list) option" where
  "ports_reg port peer t = (case peer of (rip, rp, h, u) \<Rightarrow>
     map_option (\<lambda>i. (i, t[i := \<lparr>uiLocalPort = port, ulRemoteIp = rip, uiRemotePort = rp, pfn_recHandler = h, pvUser = u\<rparr>]))
       (udp_find_port 0 t))"

definition ports_unreg :: "nat \<Rightarrow> UDP_ASSOCIATION_T list \<Rightarrow> UDP_ASSOCIATION_T list" where
  "ports_unreg i t = (if i < UDP_PORTLIST_MAX then t[i := (t ! i)\<lparr>uiLocalPort := 0\<rparr>] else t)"

lemma udp_registerPort_table:
  "udp_registerPort lp rip rp h u s =
     (case ports_reg lp (rip, rp, h, u) (atUdpPortAssoc s) of
        None \<Rightarrow> (None, s) | Some (i, t) \<Rightarrow> (Some i, s\<lparr>atUdpPortAssoc := t\<rparr>))"
  by (simp add: udp_registerPort_def ports_reg_def split: option.split)

lemma udp_unregisterPort_table:
  "udp_unregisterPort (Some i) s = s\<lparr>atUdpPortAssoc := ports_unreg i (atUdpPortAssoc s)\<rparr>"
  by (simp add: udp_unregisterPort_def ports_unreg_def)

lemma find_index_update_other:
  "i < length xs \<Longrightarrow> \<not> P (xs ! i) \<Longrightarrow> \<not> P y \<Longrightarrow> find_index P (xs[i := y]) = find_index P xs"
  by (induction xs arbitrary: i) (auto simp: nth_Cons split: nat.splits)

lemma find_index_update_new:
  "i < length xs \<Longrightarrow> find_index P xs = None \<Longrightarrow> P y \<Longrightarrow> find_index P (xs[i := y]) = Some i"
  by (induction xs arbitrary: i) (auto split: nat.splits if_splits)

lemma ports_lookup_other:
  assumes "i < length t" and "uiLocalPort (t ! i) \<noteq> x" and "uiLocalPort y \<noteq> x"
  shows "ports_lookup x (t[i := y]) = ports_lookup x t"
proof (cases "udp_find_port x t")
  case None
  then show ?thesis using find_index_update_other [of i t "\<lambda>a. uiLocalPort a = x" y] assms
    by (simp add: ports_lookup_def udp_find_port_def)
next
  case (Some j)
  then have "j \<noteq> i" using find_index_Some [of _ t j] assms(2) by (auto simp: udp_find_port_def)
  then show ?thesis using Some find_index_update_other [of i t "\<lambda>a. uiLocalPort a = x" y] assms
    by (simp add: ports_lookup_def udp_find_port_def)
qed

lemma ports_reg_new:
  assumes "ports_ok t" and "port \<noteq> 0" and "ports_lookup port t = None" and "ports_reg port peer t = Some (k, t')"
  shows "ports_ok t' \<and> ports_lookup port t' = Some peer"
proof -
  obtain rip rp h u where [simp]: "peer = (rip, rp, h, u)" by (cases peer)
  have k: "udp_find_port 0 t = Some k" using assms(4) by (auto simp: ports_reg_def)
  have "k < length t" using find_index_Some [OF k [unfolded udp_find_port_def]] by simp
  moreover have "find_index (\<lambda>a. uiLocalPort a = port) t = None"
    using assms(3) by (simp add: ports_lookup_def udp_find_port_def)
  ultimately show ?thesis using assms(1,4) k find_index_update_new [of k t "\<lambda>a. uiLocalPort a = port"]
    by (auto simp: ports_reg_def ports_ok_def ports_lookup_def udp_find_port_def assoc_peer_def)
qed

lemma ports_reg_other:
  assumes "ports_reg port peer t = Some (k, t')" and "x \<noteq> 0" and "x \<noteq> port"
  shows "ports_lookup x t' = ports_lookup x t"
proof -
  obtain rip rp h u where [simp]: "peer = (rip, rp, h, u)" by (cases peer)
  have k: "udp_find_port 0 t = Some k" using assms(1) by (auto simp: ports_reg_def)
  then have "k < length t" "uiLocalPort (t ! k) = 0" using find_index_Some [of _ t k] by (auto simp: udp_find_port_def)
  then show ?thesis using assms k by (auto simp: ports_reg_def ports_lookup_other)
qed

lemma ports_unreg_new:
  assumes "ports_ok t" and "port \<noteq> 0" and "ports_lookup port t = None" and "ports_reg port peer t = Some (k, t')"
  shows "ports_ok (ports_unreg k t') \<and> (\<forall>x. x \<noteq> 0 \<longrightarrow> ports_lookup x (ports_unreg k t') = ports_lookup x t)"
proof -
  obtain rip rp h u where [simp]: "peer = (rip, rp, h, u)" by (cases peer)
  have k: "udp_find_port 0 t = Some k" using assms(4) by (auto simp: ports_reg_def)
  then have "k < length t" "uiLocalPort (t ! k) = 0" using find_index_Some [of _ t k] by (auto simp: udp_find_port_def)
  then show ?thesis using assms(1,4) k by (auto simp: ports_reg_def ports_unreg_def ports_ok_def ports_lookup_other)
qed

interpretation udp_ports: port_table ports_ok ports_lookup ports_reg ports_unreg
  by unfold_locales ((rule ports_reg_new ports_reg_other ports_unreg_new; assumption)+)

subsection \<open>The layers below\<close>

definition udp_keeps :: "('d, 'w, 'z) udp_scheme \<Rightarrow> ('d, 'w, 'z) udp_scheme \<Rightarrow> bool" where
  "udp_keeps s s' \<longleftrightarrow> tNetworkIf s' = tNetworkIf s \<and> g_t_romloader_options s' = g_t_romloader_options s \<and>
     udp.more s' = udp.more s"

lemma ipv4_keeps_udp: "ipv4_keeps s s' \<Longrightarrow> udp_keeps s s' \<and> atUdpPortAssoc s' = atUdpPortAssoc s"
  by (cases s; cases s') (simp add: ipv4_keeps_def udp_keeps_def)

lemma udp_send_keeps: "ipv4_keeps s (udp_send_packet pf p n a s') \<longleftrightarrow> ipv4_keeps s s'"
  by (simp add: udp_send_packet_def Let_def split: option.split)


subsection \<open>Properties\<close>

text \<open>(C18) A received packet of any length is dropped when it is shorter than its headers or when the UDP length in it
  exceeds what was received.  Otherwise, with a UDP length of at least the header, it is given to the
  first association with its destination port exactly when its checksum field is not zero and the
  ones' complement sum over the pseudo header of RFC 768 and the packet is zero.  A packet without a
  checksum, which RFC 768 allows, is dropped.  A UDP length below 8 is not refused: the packet is given
  to the association when the value of \<open>udp_buildChecksum\<close> for this length is in the checksum field, and
  the size the handler gets has then wrapped around.\<close>

theorem udp_process_packet_rfc768:
  "udp_process_packet h p k s =
    (let n = NUS2MUS (rd16 (mem s) (p + 38)); field = rd16 (mem s) (p + 40) in
     if k < 42 \<or> k - 34 < n then Some s
     else if (if 8 \<le> unat n
              then field \<noteq> 0 \<and> bsum True (udp_pseudo (mem s) p @ rdbytes (mem s) (p + 34) (unat n)) mod 65535 = 0
              else fst (udp_buildChecksum p n (mem s)) = field)
     then case udp_find_port (ucast (rd16 (mem s) (p + 36))) (atUdpPortAssoc s) of
        None \<Rightarrow> Some s | Some i \<Rightarrow> h (pfn_recHandler (atUdpPortAssoc s ! i)) p (n - 8) s
     else Some s)"
proof -
  define n where "n = NUS2MUS (rd16 (mem s) (p + 38))"
  have "unat (NUS2MUS v) < 65536" for v by (simp add: NUS2MUS_def)
  then have "unat n < 65536" by (simp add: n_def)
  with udp_checksum_test [of n p "mem s"]
  have "fst (udp_buildChecksum p n (mem s)) = rd16 (mem s) (p + 40) \<longleftrightarrow> (if 8 \<le> unat n
      then rd16 (mem s) (p + 40) \<noteq> 0 \<and> bsum True (udp_pseudo (mem s) p @ rdbytes (mem s) (p + 34) (unat n)) mod 65535 = 0
      else fst (udp_buildChecksum p n (mem s)) = rd16 (mem s) (p + 40))" by simp
  then show ?thesis unfolding udp_process_packet_def Let_def n_def [symmetric]
    by (simp add: sizeof_defs case_prod_beta diff_diff_eq not_less [symmetric] n_def [symmetric] split: option.split)
qed

text \<open>A packet of 42 bytes with the UDP length 0 for port 68 is given to its association with a size of
  \<open>2\<^sup>3\<^sup>2 - 8\<close> bytes.\<close>

theorem udp_short_length_delivered:
  assumes "mem s = wr16 (wr16 (\<lambda>_. 0) 36 68) 40 0xffff" and "udp_find_port 68 (atUdpPortAssoc s) = Some i"
  shows "udp_process_packet h 0 42 s = h (pfn_recHandler (atUdpPortAssoc s ! i)) 0 0xfffffff8 s"
proof -
  have f: "fst (udp_buildChecksum 0 0 (mem s)) = 0xffff" "NUS2MUS (rd16 (mem s) 38) = 0"
    "rd16 (mem s) 40 = 0xffff" "rd16 (mem s) 36 = 68" unfolding assms(1) by code_simp+
  have w: "- 8 = (0xfffffff8 :: u32)" by simp
  show ?thesis by (simp add: udp_process_packet_def case_prod_beta sizeof_defs f assms(2) w)
qed

text \<open>(C10) What the stack sends, the stack accepts: the frame that \<open>udp_send_packet\<close> hands to the address
  resolution carries the data unchanged, and a stack that receives it, padded or not, gives the data
  to the handler of the remote port of the association.\<close>

theorem udp_send_receive:
  fixes s :: "('d, 'w, 'z) udp_scheme"
  assumes "i < UDP_PORTLIST_MAX" and n: "unat n + 8 < 65536"
  shows "\<exists>m. udp_send_packet pf p n (Some i) s =
      arp_send_ipv4_packet pf p (28 + n) (ipv4_get_destination_ip (eth_options s) (ulRemoteIp (atUdpPortAssoc s ! i)))
        (s\<lparr>mem := m, uiIpOutputId := uiIpOutputId s + 1\<rparr>) \<and>
    rdbytes m (p + 42) (unat n) = rdbytes (mem s) (p + 42) (unat n) \<and>
    (\<forall>h k (t :: ('d, 'w, 'z) udp_scheme). mem t = m \<and> 42 + n \<le> k \<longrightarrow> udp_process_packet h p k t =
       (case udp_find_port (ucast (ucast (uiRemotePort (atUdpPortAssoc s ! i)) :: u16)) (atUdpPortAssoc t) of
          None \<Rightarrow> Some t | Some j \<Rightarrow> h (pfn_recHandler (atUdpPortAssoc t ! j)) p n t))"
proof -
  let ?m = "udp_wire (ulIp (eth_options s)) (uiIpOutputId s) (atUdpPortAssoc s ! i) p n (mem s)"
  have "unat (42 + n) = 42 + unat n" using n by (simp add: unat_word_ariths)
  then have k: "42 \<le> k \<and> 8 + n \<le> k - 34" if "42 + n \<le> k" for k
    using that n by (simp add: word_le_nat_alt unat_sub unat_word_ariths)
  have "udp_process_packet h p k t =
       (case udp_find_port (ucast (ucast (uiRemotePort (atUdpPortAssoc s ! i)) :: u16)) (atUdpPortAssoc t) of
          None \<Rightarrow> Some t | Some j \<Rightarrow> h (pfn_recHandler (atUdpPortAssoc t ! j)) p n t)"
    if "mem t = ?m" "42 + n \<le> k" for h k and t :: "('d, 'w, 'z) udp_scheme"
  proof -
    have "fst (udp_buildChecksum p (8 + n) (mem t)) = rd16 (mem t) (p + 40)" "NUS2MUS (rd16 (mem t) (p + 38)) = 8 + n"
        "rd16 (mem t) (p + 36) = ucast (uiRemotePort (atUdpPortAssoc s ! i))"
      unfolding that(1) by (rule udp_wire_accepted [OF n])+
    then show ?thesis using k [OF that(2)]
      by (simp add: udp_process_packet_def sizeof_defs Let_def case_prod_beta diff_diff_eq split: option.split)
  qed
  moreover have "udp_send_packet pf p n (Some i) s =
      arp_send_ipv4_packet pf p (28 + n) (ipv4_get_destination_ip (eth_options s) (ulRemoteIp (atUdpPortAssoc s ! i)))
        (s\<lparr>mem := ?m, uiIpOutputId := uiIpOutputId s + 1\<rparr>)"
    using udp_send_packet_wire [OF assms(1), of pf p n s] by (simp add: sizeof_defs add.assoc [symmetric])
  ultimately show ?thesis using udp_wire_data(1) [of "unat n"] n by (intro exI [of _ ?m]) simp
qed

text \<open>The port table: a port that is not open and is registered is found with its peer and handler, the other
  ports are not affected, and unregistering restores what every port led to before.\<close>

theorem udp_register_unregister:
  assumes "length (atUdpPortAssoc s) = UDP_PORTLIST_MAX" and "lp \<noteq> 0" and "ports_lookup lp (atUdpPortAssoc s) = None"
    and "udp_registerPort lp rip rp h u s = (Some i, s')"
  shows "ports_lookup lp (atUdpPortAssoc s') = Some (rip, rp, h, u) \<and>
    (x \<noteq> 0 \<longrightarrow> ports_lookup x (atUdpPortAssoc (udp_unregisterPort (Some i) s')) = ports_lookup x (atUdpPortAssoc s) \<and>
      (x \<noteq> lp \<longrightarrow> ports_lookup x (atUdpPortAssoc s') = ports_lookup x (atUdpPortAssoc s)))"
proof -
  have t: "ports_reg lp (rip, rp, h, u) (atUdpPortAssoc s) = Some (i, atUdpPortAssoc s')"
    using assms(4) by (auto simp: udp_registerPort_table split: option.splits)
  have ok: "ports_ok (atUdpPortAssoc s)" using assms(1) by (simp add: ports_ok_def)
  show ?thesis
    using udp_ports.reg_ok [OF ok assms(2,3) t] udp_ports.reg_other [OF ok t] udp_ports.unreg_ok [OF ok assms(2,3) t]
    by (auto simp: udp_unregisterPort_table)
qed

definition free_ports :: "UDP_ASSOCIATION_T list" where
  "free_ports = replicate 8 \<lparr>uiLocalPort = 0, ulRemoteIp = 0, uiRemotePort = 0, pfn_recHandler = pfn_NULL, pvUser = NULL\<rparr>"

lemma free_ports_find: "udp_find_port x free_ports = (if x = 0 then Some 0 else None)"
  by (simp add: udp_find_port_def free_ports_def numeral_eq_Suc)

definition demo_udp :: "((u32 \<Rightarrow> u32 \<Rightarrow> u32 list) xc, nat) udp" where
  "demo_udp = \<lparr>mem = (\<lambda>a. if a = 0x05000027 then 8 else if a = 0x05000028 then 0xff else if a = 0x05000029 then 0xef else 0),
     env = 0, drv = two_empty, tNetworkIf = tNetworkIfXc list_regs, g_t_romloader_options = demo_options,
     atPacketQueue = empty_queue, aui_arp_cache = empty_cache, uiIpOutputId = 0, atUdpPortAssoc = free_ports\<rparr>"


text \<open>(C18) Witness: an empty packet from and to address 0 with a correct checksum reaches a handler.\<close>

theorem udp_process_packet_rfc768_witness:
  "udp_process_packet (\<lambda>f p n s. None) 0x05000000 60 demo_udp = None"
proof -
  have "NUS2MUS (rd16 (mem demo_udp) 0x05000026) = 8"
    by (simp add: demo_udp_def rd16_def NUS2MUS_def MUS2NUS_def)
  moreover have "rd16 (mem demo_udp) 0x05000028 \<noteq> 0" "rd16 (mem demo_udp) 0x05000024 = 0"
    by (simp_all add: demo_udp_def rd16_def)
  moreover have "bsum True (udp_pseudo (mem demo_udp) 0x05000000 @ rdbytes (mem demo_udp) 0x05000022 8) = 65535"
    by (simp add: demo_udp_def udp_pseudo_def rdbytes_numeral)
  moreover have "atUdpPortAssoc demo_udp = free_ports" by (simp add: demo_udp_def)
  ultimately show ?thesis by (simp add: udp_process_packet_rfc768 Let_def free_ports_find)
qed

text \<open>(C10) Witness: four bytes to the first association.\<close>

theorem udp_send_receive_witness:
  "\<exists>m. udp_send_packet demo_env 0x05000618 4 (Some 0) demo_udp =
      arp_send_ipv4_packet demo_env 0x05000618 32 0x0100a8c0 (demo_udp\<lparr>mem := m, uiIpOutputId := 1\<rparr>) \<and>
    rdbytes m 0x05000642 4 = [0, 0, 0, 0]"
proof -
  have a: "ipv4_get_destination_ip (eth_options demo_udp) (ulRemoteIp (atUdpPortAssoc demo_udp ! 0)) = 0x0100a8c0"
    by (simp add: demo_udp_def free_ports_def demo_options_def ipv4_get_destination_ip_def IP_ADR_def)
  have d: "rdbytes (mem demo_udp) 0x05000642 4 = [0, 0, 0, 0]" "uiIpOutputId demo_udp = 0"
    by (simp_all add: demo_udp_def rdbytes_numeral)
  from udp_send_receive [of 0 4 demo_env "0x05000618" demo_udp] obtain m where
    "udp_send_packet demo_env 0x05000618 4 (Some 0) demo_udp =
      arp_send_ipv4_packet demo_env 0x05000618 32 0x0100a8c0 (demo_udp\<lparr>mem := m, uiIpOutputId := 1\<rparr>)"
    "rdbytes m 0x05000642 4 = [0, 0, 0, 0]"
    by (auto simp: UDP_PORTLIST_MAX_def a d)
  then show ?thesis by (intro exI conjI)
qed

text \<open>Witness: port 68 in the empty table.\<close>

theorem udp_register_unregister_witness:
  "\<exists>s'. udp_registerPort 0x4400 0xffffffff 0x4300 dhcp_rec NULL demo_udp = (Some 0, s') \<and>
    ports_lookup 0x4400 (atUdpPortAssoc s') = Some (0xffffffff, 0x4300, dhcp_rec, NULL)"
proof -
  have t: "atUdpPortAssoc demo_udp = free_ports" by (simp add: demo_udp_def)
  obtain s' where r: "udp_registerPort 0x4400 0xffffffff 0x4300 dhcp_rec NULL demo_udp = (Some 0, s')"
    by (simp add: udp_registerPort_def t free_ports_find)
  have "length (atUdpPortAssoc demo_udp) = UDP_PORTLIST_MAX" by (simp add: t free_ports_def UDP_PORTLIST_MAX_def)
  moreover have "ports_lookup 0x4400 (atUdpPortAssoc demo_udp) = None" by (simp add: t ports_lookup_def free_ports_find)
  ultimately show ?thesis using udp_register_unregister [OF _ _ _ r] r by auto
qed

end
