(* ===== verification/Dhcp.thy ===== *)
theory Dhcp
  imports Udp "HOL-Library.Monad_Syntax"
begin

text \<open>
  The DHCP client (networking/stack/dhcp.c): discovery of a server, the request for an address and the
  options of the acknowledgement. The static variables extend the state of the stack. \<open>dhcp_getOption\<close>
  compares pointers and steps by a length from the packet; its loop is a \<open>partial_function\<close>, so not
  returning is the value \<open>None\<close>, and the handler that calls it returns an option too. Of the sixteen
  bytes of \<open>aucServerIdentifier\<close> the code uses four.
\<close>

subsection \<open>Data\<close>

definition DHCP_OP_BOOTREQUEST :: u8 where "DHCP_OP_BOOTREQUEST = 1"
definition DHCP_OP_BOOTREPLY :: u8 where "DHCP_OP_BOOTREPLY = 2"
definition DHCP_DISCOVER_SRC_PORT :: u32 where "DHCP_DISCOVER_SRC_PORT = 68"
definition DHCP_DISCOVER_DST_PORT :: u32 where "DHCP_DISCOVER_DST_PORT = 67"
definition DHCP_DISCOVER_DST_IP :: u32 where "DHCP_DISCOVER_DST_IP = IP_ADR 255 255 255 255"

definition DHCP_MSGTYP_DHCPDISCOVER :: u8 where "DHCP_MSGTYP_DHCPDISCOVER = 1"
definition DHCP_MSGTYP_DHCPOFFER :: u8 where "DHCP_MSGTYP_DHCPOFFER = 2"
definition DHCP_MSGTYP_DHCPREQUEST :: u8 where "DHCP_MSGTYP_DHCPREQUEST = 3"
definition DHCP_MSGTYP_DHCPACK :: u8 where "DHCP_MSGTYP_DHCPACK = 5"
definition DHCP_MSGTYP_DHCPNAK :: u8 where "DHCP_MSGTYP_DHCPNAK = 6"

definition DHCP_OPT_SubnetMask :: u8 where "DHCP_OPT_SubnetMask = 1"
definition DHCP_OPT_Router :: u8 where "DHCP_OPT_Router = 3"
definition DHCP_OPT_DomainNameServer :: u8 where "DHCP_OPT_DomainNameServer = 6"
definition DHCP_OPT_DHCPMessageType :: u8 where "DHCP_OPT_DHCPMessageType = 53"
definition DHCP_OPT_ServerIdentifier :: u8 where "DHCP_OPT_ServerIdentifier = 54"
definition DHCP_OPT_ParameterRequestList :: u8 where "DHCP_OPT_ParameterRequestList = 55"
definition DHCP_OPT_TFTPServerName :: u8 where "DHCP_OPT_TFTPServerName = 66"
definition DHCP_OPT_BootfileName :: u8 where "DHCP_OPT_BootfileName = 67"
definition DHCP_OPT_End :: u8 where "DHCP_OPT_End = 255"

lemmas dhcp_const_defs = DHCP_OP_BOOTREQUEST_def DHCP_OP_BOOTREPLY_def DHCP_DISCOVER_SRC_PORT_def
  DHCP_DISCOVER_DST_PORT_def DHCP_DISCOVER_DST_IP_def DHCP_MSGTYP_DHCPDISCOVER_def DHCP_MSGTYP_DHCPOFFER_def
  DHCP_MSGTYP_DHCPREQUEST_def DHCP_MSGTYP_DHCPACK_def DHCP_MSGTYP_DHCPNAK_def DHCP_OPT_SubnetMask_def
  DHCP_OPT_Router_def DHCP_OPT_DomainNameServer_def DHCP_OPT_DHCPMessageType_def DHCP_OPT_ServerIdentifier_def
  DHCP_OPT_ParameterRequestList_def DHCP_OPT_TFTPServerName_def DHCP_OPT_BootfileName_def DHCP_OPT_End_def

datatype DHCP_STATE_T = DHCP_STATE_Idle | DHCP_STATE_Discover | DHCP_STATE_Request | DHCP_STATE_Error | DHCP_STATE_Ok

record ('d, 'w) dhcp = "('d, 'w) udp" +
  dhcp_tState :: DHCP_STATE_T
  dhcp_ptAssoc :: "nat option"
  dhcp_ulLastGoodPacket :: u32
  dhcp_uiRetryCnt :: u32
  dhcp_ulXId :: u32
  dhcp_ulRequestIp :: u32
  dhcp_aucServerIdentifier :: "u8 list"
  dhcp_server_name :: "u8 list"
  dhcp_bootfile_name :: "u8 list"

definition aucDhcpMagic :: "u8 list" where "aucDhcpMagic = [0x63, 0x82, 0x53, 0x63]"
definition aucDhcpOptionDiscover :: "u8 list" where
  "aucDhcpOptionDiscover = [DHCP_OPT_DHCPMessageType, 1, DHCP_MSGTYP_DHCPDISCOVER]"
definition aucDhcpOptionRequest :: "u8 list" where
  "aucDhcpOptionRequest = [DHCP_OPT_DHCPMessageType, 1, DHCP_MSGTYP_DHCPREQUEST]"
definition aucDhcpOptionParamReqList :: "u8 list" where
  "aucDhcpOptionParamReqList = [DHCP_OPT_ParameterRequestList, 5, DHCP_OPT_SubnetMask, DHCP_OPT_Router,
     DHCP_OPT_DomainNameServer, DHCP_OPT_TFTPServerName, DHCP_OPT_BootfileName]"

text \<open>Fields of the DHCP packet in a frame at \<open>p\<close>.\<close>

abbreviation (input) dhcp_ucOp :: "ptr \<Rightarrow> ptr" where "dhcp_ucOp p \<equiv> p + 42"
abbreviation (input) dhcp_ucHType :: "ptr \<Rightarrow> ptr" where "dhcp_ucHType p \<equiv> p + 43"
abbreviation (input) dhcp_ucHLen :: "ptr \<Rightarrow> ptr" where "dhcp_ucHLen p \<equiv> p + 44"
abbreviation (input) dhcp_ucHops :: "ptr \<Rightarrow> ptr" where "dhcp_ucHops p \<equiv> p + 45"
abbreviation (input) dhcp_ulXId_adr :: "ptr \<Rightarrow> ptr" where "dhcp_ulXId_adr p \<equiv> p + 46"
abbreviation (input) dhcp_usSecs :: "ptr \<Rightarrow> ptr" where "dhcp_usSecs p \<equiv> p + 50"
abbreviation (input) dhcp_usFlags :: "ptr \<Rightarrow> ptr" where "dhcp_usFlags p \<equiv> p + 52"
abbreviation (input) dhcp_ulCiAddr :: "ptr \<Rightarrow> ptr" where "dhcp_ulCiAddr p \<equiv> p + 54"
abbreviation (input) dhcp_ulYiAddr :: "ptr \<Rightarrow> ptr" where "dhcp_ulYiAddr p \<equiv> p + 58"
abbreviation (input) dhcp_ulSiAddr :: "ptr \<Rightarrow> ptr" where "dhcp_ulSiAddr p \<equiv> p + 62"
abbreviation (input) dhcp_ulGiAddr :: "ptr \<Rightarrow> ptr" where "dhcp_ulGiAddr p \<equiv> p + 66"
abbreviation (input) dhcp_aucChAddr :: "ptr \<Rightarrow> ptr" where "dhcp_aucChAddr p \<equiv> p + 70"
abbreviation (input) dhcp_acSName :: "ptr \<Rightarrow> ptr" where "dhcp_acSName p \<equiv> p + 86"
abbreviation (input) dhcp_acFile :: "ptr \<Rightarrow> ptr" where "dhcp_acFile p \<equiv> p + 150"
abbreviation (input) dhcp_options :: "ptr \<Rightarrow> ptr" where "dhcp_options p \<equiv> p + 278"

subsection \<open>Sending\<close>

definition dhcp_cleanup :: "('d, 'w, 'z) dhcp_scheme \<Rightarrow> ('d, 'w, 'z) dhcp_scheme" where
  "dhcp_cleanup s =
     (if dhcp_ptAssoc s \<noteq> None then (udp_unregisterPort (dhcp_ptAssoc s) s)\<lparr>dhcp_ptAssoc := None\<rparr> else s)"

text \<open>The fixed part both packets have, and the options with their padding to 342 bytes.\<close>

definition dhcp_fill_packet :: "u32 \<Rightarrow> u8 list \<Rightarrow> ptr \<Rightarrow> memory \<Rightarrow> memory" where
  "dhcp_fill_packet xid mac p m =
     (let m = m(dhcp_ucOp p := DHCP_OP_BOOTREQUEST);
          m = m(dhcp_ucHType p := 1);
          m = m(dhcp_ucHLen p := 6);
          m = m(dhcp_ucHops p := 0);
          m = wr32 m (dhcp_ulXId_adr p) xid;
          m = wr16 m (dhcp_usSecs p) 0;
          m = wr16 m (dhcp_usFlags p) 0;
          m = wr32 m (dhcp_ulCiAddr p) 0;
          m = wr32 m (dhcp_ulYiAddr p) 0;
          m = wr32 m (dhcp_ulSiAddr p) 0;
          m = wr32 m (dhcp_ulGiAddr p) 0;
          m = wrbytes m (dhcp_aucChAddr p) mac;
          m = memset m (dhcp_aucChAddr p + 6) 0 10;
          m = memset m (dhcp_acSName p) 0 64 in
      memset m (dhcp_acFile p) 0 128)"

definition dhcp_fill_options :: "u8 list \<Rightarrow> ptr \<Rightarrow> memory \<Rightarrow> u32 \<times> memory" where
  "dhcp_fill_options opts p m =
     (let m = wrbytes m (dhcp_options p) opts;
          ulOptsSize = of_nat (length opts) :: u32 in
      if ulOptsSize < 342
      then (342, memset m (dhcp_options p + ulOptsSize) 0 (unat (342 - ulOptsSize)))
      else (ulOptsSize, m))"

definition dhcp_send_discover_packet :: "'w stack_env \<Rightarrow> ('d, 'w, 'z) dhcp_scheme \<Rightarrow> int \<times> ('d, 'w, 'z) dhcp_scheme" where
  "dhcp_send_discover_packet pf s =
     (case eth_get_empty_packet s of (p, s) \<Rightarrow>
        if p = NULL then (-1, s)
        else
          let m = dhcp_fill_packet (dhcp_ulXId s) (aucMac (eth_options s)) p (mem s);
              opts = aucDhcpMagic @ aucDhcpOptionDiscover @ aucDhcpOptionParamReqList @ [DHCP_OPT_End] in
          case dhcp_fill_options opts p m of (ulOptsSize, m) \<Rightarrow>
            (0, udp_send_packet pf p (sizeof_DHCP_PACKET_T + ulOptsSize) (dhcp_ptAssoc s) (s\<lparr>mem := m\<rparr>)))"

definition dhcp_send_request_packet :: "'w stack_env \<Rightarrow> ('d, 'w, 'z) dhcp_scheme \<Rightarrow> int \<times> ('d, 'w, 'z) dhcp_scheme" where
  "dhcp_send_request_packet pf s =
     (case eth_get_empty_packet s of (p, s) \<Rightarrow>
        if p = NULL then (-1, s)
        else
          let m = dhcp_fill_packet (dhcp_ulXId s) (aucMac (eth_options s)) p (mem s);
              opts = aucDhcpMagic @ aucDhcpOptionRequest @ [DHCP_OPT_ServerIdentifier, 4] @ dhcp_aucServerIdentifier s @
                [50, 4] @ le32 (dhcp_ulRequestIp s) @ aucDhcpOptionParamReqList @ [DHCP_OPT_End] in
          case dhcp_fill_options opts p m of (ulOptsSize, m) \<Rightarrow>
            (0, udp_send_packet pf p (sizeof_DHCP_PACKET_T + ulOptsSize) (dhcp_ptAssoc s) (s\<lparr>mem := m\<rparr>)))"

subsection \<open>Options of a received packet\<close>

partial_function (option) dhcp_option_loop :: "memory \<Rightarrow> u8 \<Rightarrow> ptr \<Rightarrow> ptr \<Rightarrow> ptr option" where
  "dhcp_option_loop m uiOption pucEnd pucCnt =
     (if pucCnt + 2 \<le> pucEnd then
        if m pucCnt = uiOption \<and> pucCnt + 2 + ucast (m (pucCnt + 1)) \<le> pucEnd then Some pucCnt
        else dhcp_option_loop m uiOption pucEnd (pucCnt + (2 + ucast (m (pucCnt + 1))))
      else Some NULL)"

definition dhcp_getOption :: "memory \<Rightarrow> ptr \<Rightarrow> u32 \<Rightarrow> u8 \<Rightarrow> ptr option" where
  "dhcp_getOption m ptPacket sizPacket uiOption =
     (let pucCnt = ptPacket + sizeof_DHCP_PACKET_T;
          pucEnd = pucCnt + sizPacket in
      if pucCnt + 4 \<le> pucEnd then
        if rdbytes m pucCnt 4 = aucDhcpMagic then dhcp_option_loop m uiOption pucEnd (pucCnt + 4)
        else Some NULL
      else Some NULL)"

text \<open>Four bytes of an option as an address.\<close>

definition option_ip :: "memory \<Rightarrow> ptr \<Rightarrow> u32" where
  "option_ip m pucOpt = IP_ADR (m (pucOpt + 2)) (m (pucOpt + 3)) (m (pucOpt + 4)) (m (pucOpt + 5))"

text \<open>A name option overrides the name when it fits.\<close>

definition option_name :: "memory \<Rightarrow> ptr \<Rightarrow> u8 list \<Rightarrow> u8 list" where
  "option_name m pucOpt name =
     (if pucOpt \<noteq> NULL then
        let sizOption = unat (m (pucOpt + 1)) in
        if sizOption > 0 \<and> sizOption < length name
        then (put_bytes name 0 (rdbytes m (pucOpt + 2) sizOption))[sizOption := 0]
        else name
      else name)"

subsection \<open>Receiving\<close>

text \<open>The test both states make: an answer to this client with an address.\<close>

definition dhcp_is_reply :: "memory \<Rightarrow> ptr \<Rightarrow> u32 \<Rightarrow> u8 list \<Rightarrow> bool" where
  "dhcp_is_reply m p xid mac \<longleftrightarrow> m (dhcp_ucOp p) = DHCP_OP_BOOTREPLY \<and> m (dhcp_ucHType p) = 1 \<and> m (dhcp_ucHLen p) = 6 \<and>
     rd32 m (dhcp_ulXId_adr p) = xid \<and> rdbytes m (dhcp_aucChAddr p) 6 = mac \<and> rd32 m (dhcp_ulYiAddr p) \<noteq> 0"

text \<open>An offer is answered with a request for the offered address; \<open>pucOpt\<close> is the option with the
  identifier of the server.\<close>

definition dhcp_take_offer ::
    "'w stack_env \<Rightarrow> ptr \<Rightarrow> ptr \<Rightarrow> ('d, 'w, 'z) dhcp_scheme \<Rightarrow> ('d, 'w, 'z) dhcp_scheme" where
  "dhcp_take_offer pf p pucOpt s =
     (let s = s\<lparr>dhcp_aucServerIdentifier :=
        (if pucOpt \<noteq> NULL \<and> mem s (pucOpt + 1) = 4 then rdbytes (mem s) (pucOpt + 2) 4 else [0, 0, 0, 0])\<rparr>;
          s = s\<lparr>dhcp_ulRequestIp := rd32 (mem s) (dhcp_ulYiAddr p)\<rparr> in
      case dhcp_send_request_packet pf s of (iResult, s) \<Rightarrow>
        if iResult = 0 then
          case get_ms pf (s\<lparr>dhcp_tState := DHCP_STATE_Request\<rparr>) of (t, s) \<Rightarrow>
            s\<lparr>dhcp_ulLastGoodPacket := t, dhcp_uiRetryCnt := ucast (ucDhcpRetries (eth_options s))\<rparr>
        else dhcp_cleanup s)"

definition dhcp_rec_discover ::
    "'w stack_env \<Rightarrow> ptr \<Rightarrow> u32 \<Rightarrow> ('d, 'w, 'z) dhcp_scheme \<Rightarrow> ('d, 'w, 'z) dhcp_scheme option" where
  "dhcp_rec_discover pf p sizDhcpLength s =
     (if dhcp_is_reply (mem s) p (dhcp_ulXId s) (aucMac (eth_options s)) then
        do {
          pucOpt \<leftarrow> dhcp_getOption (mem s) (uUdpData p) sizDhcpLength DHCP_OPT_DHCPMessageType;
          if pucOpt \<noteq> NULL \<and> mem s (pucOpt + 1) = 1 \<and> mem s (pucOpt + 2) = DHCP_MSGTYP_DHCPOFFER then
            do {
              pucOpt \<leftarrow> dhcp_getOption (mem s) (uUdpData p) sizDhcpLength DHCP_OPT_ServerIdentifier;
              Some (dhcp_take_offer pf p pucOpt s)
            }
          else Some s
        }
      else Some s)"

text \<open>The settings of a complete acknowledgement.\<close>

definition dhcp_accept ::
    "ptr \<Rightarrow> u32 \<Rightarrow> u32 \<Rightarrow> u32 \<Rightarrow> u32 \<Rightarrow> ('d, 'w, 'z) dhcp_scheme \<Rightarrow> ('d, 'w, 'z) dhcp_scheme option" where
  "dhcp_accept p sizDhcpLength ulNewIp ulNewNetmask ulNewGatewayIp s =
     (let m = mem s;
          getOption = dhcp_getOption m (uUdpData p) sizDhcpLength;
          e = (eth_options s)\<lparr>ulIp := ulNewIp, ulNetmask := ulNewNetmask, ulGatewayIp := ulNewGatewayIp\<rparr> in
      do {
        pucOpt \<leftarrow> getOption DHCP_OPT_DomainNameServer;
        let e = (if pucOpt \<noteq> NULL \<and> m (pucOpt + 1) \<ge> 4 then e\<lparr>ulDnsIp := option_ip m pucOpt\<rparr> else e);
        pucOpt \<leftarrow> getOption DHCP_OPT_TFTPServerName;
        let s = s\<lparr>dhcp_server_name := option_name m pucOpt (dhcp_server_name s)\<rparr>;
        pucOpt \<leftarrow> getOption DHCP_OPT_BootfileName;
        let s = s\<lparr>dhcp_bootfile_name := option_name m pucOpt (dhcp_bootfile_name s)\<rparr>;
        let e = (if dhcp_server_name s ! 0 \<noteq> 0 \<and> dhcp_bootfile_name s ! 0 \<noteq> 0
          then e\<lparr>Options.ac_tftp_server_name := dhcp_server_name s,
            Options.ac_tftp_bootfile_name := dhcp_bootfile_name s, ulTftpIp := 0\<rparr> else e);
        Some ((dhcp_cleanup (s\<lparr>g_t_romloader_options := (g_t_romloader_options s)\<lparr>t_ethernet := e\<rparr>\<rparr>))
          \<lparr>dhcp_tState := DHCP_STATE_Ok\<rparr>)
      })"

definition dhcp_fail :: "('d, 'w, 'z) dhcp_scheme \<Rightarrow> ('d, 'w, 'z) dhcp_scheme" where
  "dhcp_fail s = (dhcp_cleanup s)\<lparr>dhcp_tState := DHCP_STATE_Error\<rparr>"

text \<open>An acknowledgement must have the netmask and the router.\<close>

definition dhcp_rec_ack :: "ptr \<Rightarrow> u32 \<Rightarrow> ('d, 'w, 'z) dhcp_scheme \<Rightarrow> ('d, 'w, 'z) dhcp_scheme option" where
  "dhcp_rec_ack p sizDhcpLength s =
     (let m = mem s;
          getOption = dhcp_getOption m (uUdpData p) sizDhcpLength;
          ulNewIp = rd32 m (dhcp_ulYiAddr p);
          s = s\<lparr>dhcp_server_name := put_bytes (dhcp_server_name s) 0 (rdbytes m (dhcp_acSName p) 63),
                dhcp_bootfile_name := put_bytes (dhcp_bootfile_name s) 0 (rdbytes m (dhcp_acFile p) 127)\<rparr> in
      do {
        pucMask \<leftarrow> getOption DHCP_OPT_SubnetMask;
        if pucMask \<noteq> NULL \<and> m (pucMask + 1) = 4 then
          do {
            pucRouter \<leftarrow> getOption DHCP_OPT_Router;
            if pucRouter \<noteq> NULL \<and> m (pucRouter + 1) = 4
            then dhcp_accept p sizDhcpLength ulNewIp (option_ip m pucMask) (option_ip m pucRouter) s
            else Some (dhcp_fail s)
          }
        else Some (dhcp_fail s)
      })"

definition dhcp_rec_request :: "ptr \<Rightarrow> u32 \<Rightarrow> ('d, 'w, 'z) dhcp_scheme \<Rightarrow> ('d, 'w, 'z) dhcp_scheme option" where
  "dhcp_rec_request p sizDhcpLength s =
     (if dhcp_is_reply (mem s) p (dhcp_ulXId s) (aucMac (eth_options s)) then
        let s = s\<lparr>dhcp_server_name := replicate 64 0, dhcp_bootfile_name := replicate 128 0\<rparr> in
        do {
          pucOpt \<leftarrow> dhcp_getOption (mem s) (uUdpData p) sizDhcpLength DHCP_OPT_DHCPMessageType;
          if pucOpt \<noteq> NULL \<and> mem s (pucOpt + 1) = 1 then
            if mem s (pucOpt + 2) = DHCP_MSGTYP_DHCPACK then dhcp_rec_ack p sizDhcpLength s
            else if mem s (pucOpt + 2) = DHCP_MSGTYP_DHCPNAK then Some (dhcp_fail s)
            else Some s
          else Some s
        }
      else Some s)"

definition dhcp_recHandler ::
    "'w stack_env \<Rightarrow> ptr \<Rightarrow> u32 \<Rightarrow> ('d, 'w, 'z) dhcp_scheme \<Rightarrow> ('d, 'w, 'z) dhcp_scheme option" where
  "dhcp_recHandler pf pvData sizDhcpLength s =
     (case dhcp_tState s of
        DHCP_STATE_Discover \<Rightarrow> dhcp_rec_discover pf pvData sizDhcpLength s
      | DHCP_STATE_Request \<Rightarrow> dhcp_rec_request pvData sizDhcpLength s
      | _ \<Rightarrow> Some s)"

subsection \<open>Requests and timer\<close>

definition dhcp_init :: "('d, 'w, 'z) dhcp_scheme \<Rightarrow> ('d, 'w, 'z) dhcp_scheme" where
  "dhcp_init s =
     (let mac = aucMac (eth_options s) in
      s\<lparr>dhcp_tState := DHCP_STATE_Idle, dhcp_ptAssoc := None,
        dhcp_ulXId := ucast (mac ! 0) OR push_bit 8 (ucast (mac ! 1)) OR push_bit 16 (ucast (mac ! 2)) OR
          push_bit 24 (ucast (mac ! 3))\<rparr>)"

definition dhcp_getState :: "('d, 'w, 'z) dhcp_scheme \<Rightarrow> DHCP_STATE_T" where
  "dhcp_getState s = dhcp_tState s"

definition dhcp_request :: "'w stack_env \<Rightarrow> ('d, 'w, 'z) dhcp_scheme \<Rightarrow> ('d, 'w, 'z) dhcp_scheme" where
  "dhcp_request pf s =
     (case udp_registerPort (ucast (MUS2NUS DHCP_DISCOVER_SRC_PORT)) DHCP_DISCOVER_DST_IP
         (ucast (MUS2NUS DHCP_DISCOVER_DST_PORT)) dhcp_rec NULL s of (ptAssoc, s) \<Rightarrow>
      let s = s\<lparr>dhcp_ptAssoc := ptAssoc\<rparr> in
      if ptAssoc \<noteq> None then
        case dhcp_send_discover_packet pf (s\<lparr>dhcp_ulXId := dhcp_ulXId s + 1\<rparr>) of (iResult, s) \<Rightarrow>
          if iResult = 0 then
            case get_ms pf (s\<lparr>dhcp_tState := DHCP_STATE_Discover\<rparr>) of (t, s) \<Rightarrow>
              s\<lparr>dhcp_ulLastGoodPacket := t, dhcp_uiRetryCnt := ucast (ucDhcpRetries (eth_options s))\<rparr>
          else dhcp_fail s
      else s)"

text \<open>A time-out: the packet is sent again or the connection is closed.\<close>

definition dhcp_timeout ::
    "'w stack_env \<Rightarrow> (('d, 'w, 'z) dhcp_scheme \<Rightarrow> int \<times> ('d, 'w, 'z) dhcp_scheme) \<Rightarrow>
     ('d, 'w, 'z) dhcp_scheme \<Rightarrow> ('d, 'w, 'z) dhcp_scheme" where
  "dhcp_timeout pf send s =
     (case is_elapsed pf (dhcp_ulLastGoodPacket s) (ucast (usDhcpTimeout (eth_options s))) s of (iRes, s) \<Rightarrow>
        if iRes \<noteq> 0 then
          if dhcp_uiRetryCnt s > 0 then
            case get_ms pf (snd (send s)) of (t, s) \<Rightarrow>
              s\<lparr>dhcp_ulLastGoodPacket := t, dhcp_uiRetryCnt := dhcp_uiRetryCnt s - 1\<rparr>
          else dhcp_fail s
        else s)"

definition dhcp_timer :: "'w stack_env \<Rightarrow> ('d, 'w, 'z) dhcp_scheme \<Rightarrow> ('d, 'w, 'z) dhcp_scheme" where
  "dhcp_timer pf s =
     (case dhcp_tState s of
        DHCP_STATE_Discover \<Rightarrow> dhcp_timeout pf (dhcp_send_discover_packet pf) s
      | DHCP_STATE_Request \<Rightarrow> dhcp_timeout pf (dhcp_send_request_packet pf) s
      | _ \<Rightarrow> s)"


subsection \<open>The loop over the options\<close>

text \<open>\<open>room\<close>: the window and the longest option behind it do not reach the end of the address space.\<close>

lemma unat_add_small: "unat (a :: u32) + unat b < 4294967296 \<Longrightarrow> unat (a + b) = unat a + unat b"
  by (simp add: unat_word_ariths)

lemma option_step:
  assumes "unat (c :: u32) + 257 < 4294967296"
  shows "unat (c + 2) = unat c + 2" "unat (c + (2 + ucast (b :: u8))) = unat c + 2 + unat b" "c + 2 + ucast b = c + (2 + ucast b)"
proof -
  have b: "unat b \<le> 255" using unat_u8_less [of b] by linarith
  have "unat (2 + ucast b :: u32) = 2 + unat b" using b by (subst unat_add_small) simp_all
  then show "unat (c + (2 + ucast b)) = unat c + 2 + unat b"
    using assms b unat_add_small [of c "2 + ucast b"] by simp
  show "unat (c + 2) = unat c + 2" using assms by (subst unat_add_small) simp_all
qed (simp add: add.assoc)

lemma dhcp_option_loop_returns:
  assumes "unat e + 514 < 4294967296" and "unat c \<le> unat e + 257"
  shows "\<exists>r. dhcp_option_loop m t e c = Some r \<and>
    (r \<noteq> NULL \<longrightarrow> unat c \<le> unat r \<and> unat r + 2 + unat (m (r + 1)) \<le> unat e \<and> m r = t)"
  using assms(2)
proof (induction "unat e + 300 - unat c" arbitrary: c rule: less_induct)
  case less
  have room: "unat c + 257 < 4294967296" using less.prems assms(1) by linarith
  note step = option_step(1) [OF room] option_step(2,3) [OF room, of "m (c + 1)"]
  show ?case
  proof (cases "c + 2 \<le> e \<and> \<not> (m c = t \<and> c + 2 + ucast (m (c + 1)) \<le> e)")
    case True
    let ?c = "c + (2 + ucast (m (c + 1)))"
    have c2: "unat c + 2 \<le> unat e" using True step by (simp add: word_le_nat_alt)
    have b: "unat (m (c + 1)) < 256" by (rule unat_u8_less)
    have dec: "unat e + 300 - unat ?c < unat e + 300 - unat c" "unat ?c \<le> unat e + 257"
      using c2 b step(2) by linarith+
    obtain r where r: "dhcp_option_loop m t e ?c = Some r"
      "r \<noteq> NULL \<longrightarrow> unat ?c \<le> unat r \<and> unat r + 2 + unat (m (r + 1)) \<le> unat e \<and> m r = t"
      using less.hyps [of ?c] dec by blast
    have "dhcp_option_loop m t e c = Some r" using True r(1) by (subst dhcp_option_loop.simps) auto
    then show ?thesis using r(2) step(2) by (intro exI [of _ r]) auto
  next
    case False
    then show ?thesis using step
      by (subst (1) dhcp_option_loop.simps) (auto simp: word_le_nat_alt add.assoc)
  qed
qed

text \<open>Options in memory: the tag, the length and the data.\<close>

definition dhcp_enc :: "u8 \<times> u8 list \<Rightarrow> u8 list" where
  "dhcp_enc x = (case x of (tag, bs) \<Rightarrow> tag # of_nat (length bs) # bs)"

lemma rdbytes_append_eq:
  "rdbytes m c (length (xs @ ys)) = xs @ ys \<Longrightarrow> rdbytes m c (length xs) = xs \<and> rdbytes m (c + of_nat (length xs)) (length ys) = ys"
  by (auto simp: rdbytes_add append_eq_append_conv)

lemma dhcp_option_loop_finds:
  assumes "rdbytes m c (length (concat (map dhcp_enc opts))) = concat (map dhcp_enc opts)"
    and "\<forall>(t, bs) \<in> set opts. length bs < 256" and "unat c + length (concat (map dhcp_enc opts)) \<le> unat e"
    and "unat e + 514 < 4294967296" and "map_of opts t = Some bs" and "c \<noteq> 0"
  shows "\<exists>r. dhcp_option_loop m t e c = Some r \<and> r \<noteq> NULL \<and> rdbytes m r (2 + length bs) = dhcp_enc (t, bs)"
  using assms
proof (induction opts arbitrary: c)
  case (Cons o1 opts)
  obtain t1 bs1 where o1: "o1 = (t1, bs1)" by force
  let ?rest = "concat (map dhcp_enc opts)" and ?c = "c + of_nat (length (dhcp_enc o1))"
  have bytes: "rdbytes m c (length (dhcp_enc o1)) = dhcp_enc o1" "rdbytes m ?c (length ?rest) = ?rest"
    using rdbytes_append_eq [of m c "dhcp_enc o1" ?rest] Cons.prems(1) by simp_all
  have l: "length bs1 < 256" using Cons.prems(2) o1 by simp
  have len: "length (dhcp_enc o1) = 2 + length bs1" by (simp add: dhcp_enc_def o1)
  have mc: "m c = t1" "unat (m (c + 1)) = length bs1"
    using bytes(1) l by (simp_all add: dhcp_enc_def o1 unat_of_nat)
  have room: "unat c + 257 < 4294967296" using Cons.prems(3,4) by simp
  note step = option_step(1) [OF room] option_step(2,3) [OF room, of "m (c + 1)"]
  have cc: "?c = c + (2 + ucast (m (c + 1)))"
    using mc(2) l by (simp add: len word_unat_eq_iff unat_word_ariths unat_of_nat)
  show ?case
  proof (cases "t1 = t")
    case True
    then have "bs1 = bs" using Cons.prems(5) o1 by simp
    moreover have "c + 2 + ucast (m (c + 1)) \<le> e" "c + 2 \<le> e"
      using Cons.prems(3) step mc(2) len by (simp_all add: word_le_nat_alt add.assoc)
    ultimately show ?thesis
      using True mc(1) bytes(1) len o1 Cons.prems(6) by (subst dhcp_option_loop.simps) simp
  next
    case False
    have "unat ?c = unat c + length (dhcp_enc o1)" using cc step(2) mc(2) len by simp
    moreover have "map_of opts t = Some bs" using Cons.prems(5) False o1 by simp
    ultimately obtain r where r: "dhcp_option_loop m t e ?c = Some r" "r \<noteq> NULL" "rdbytes m r (2 + length bs) = dhcp_enc (t, bs)"
      using Cons.IH [OF bytes(2)] Cons.prems(2,3,4) len by (auto simp: word_unat_eq_iff)
    moreover have "c + 2 \<le> e" using Cons.prems(3) step(1) len by (simp add: word_le_nat_alt)
    ultimately show ?thesis using False mc(1) cc by (subst dhcp_option_loop.simps) simp
  qed
qed simp


subsection \<open>What the operations leave unchanged\<close>

lemma ipv4_keeps_dhcp:
  "ipv4_keeps s s' \<Longrightarrow> atUdpPortAssoc s' = atUdpPortAssoc s \<and> dhcp_tState s' = dhcp_tState s \<and>
     dhcp_ptAssoc s' = dhcp_ptAssoc s \<and> dhcp_ulLastGoodPacket s' = dhcp_ulLastGoodPacket s \<and>
     dhcp_uiRetryCnt s' = dhcp_uiRetryCnt s \<and> dhcp_ulXId s' = dhcp_ulXId s \<and> dhcp_ulRequestIp s' = dhcp_ulRequestIp s \<and>
     dhcp_aucServerIdentifier s' = dhcp_aucServerIdentifier s \<and> dhcp.more s' = dhcp.more s"
  by (cases s; cases s') (simp add: ipv4_keeps_def)

lemma ipv4_keeps_sends [simp]:
  "ipv4_keeps s (snd (dhcp_send_discover_packet pf s')) \<longleftrightarrow> ipv4_keeps s s'"
  "ipv4_keeps s (snd (dhcp_send_request_packet pf s')) \<longleftrightarrow> ipv4_keeps s s'"
  by (simp_all add: dhcp_send_discover_packet_def dhcp_send_request_packet_def Let_def case_prod_beta udp_send_keeps)

lemma dhcp_send_discover_keeps [simp]:
  "dhcp_tState (snd (dhcp_send_discover_packet pf s)) = dhcp_tState s"
  "dhcp_ptAssoc (snd (dhcp_send_discover_packet pf s)) = dhcp_ptAssoc s"
  "dhcp_uiRetryCnt (snd (dhcp_send_discover_packet pf s)) = dhcp_uiRetryCnt s"
  "atUdpPortAssoc (snd (dhcp_send_discover_packet pf s)) = atUdpPortAssoc s"
  "dhcp.more (snd (dhcp_send_discover_packet pf s)) = dhcp.more s"
  using ipv4_keeps_dhcp [of s "snd (dhcp_send_discover_packet pf s)"] by simp_all

lemma dhcp_send_request_keeps [simp]:
  "dhcp_tState (snd (dhcp_send_request_packet pf s)) = dhcp_tState s"
  "dhcp_ptAssoc (snd (dhcp_send_request_packet pf s)) = dhcp_ptAssoc s"
  "dhcp_uiRetryCnt (snd (dhcp_send_request_packet pf s)) = dhcp_uiRetryCnt s"
  "atUdpPortAssoc (snd (dhcp_send_request_packet pf s)) = atUdpPortAssoc s"
  "dhcp.more (snd (dhcp_send_request_packet pf s)) = dhcp.more s"
  using ipv4_keeps_dhcp [of s "snd (dhcp_send_request_packet pf s)"] by simp_all

lemma dhcp_get_ms_keeps [simp]:
  "dhcp_tState (snd (get_ms pf s)) = dhcp_tState s" "dhcp_ptAssoc (snd (get_ms pf s)) = dhcp_ptAssoc s"
  "dhcp_uiRetryCnt (snd (get_ms pf s)) = dhcp_uiRetryCnt s" "atUdpPortAssoc (snd (get_ms pf u)) = atUdpPortAssoc u"
  "g_t_romloader_options (snd (get_ms pf v)) = g_t_romloader_options v" "dhcp.more (snd (get_ms pf s)) = dhcp.more s"
  by (simp_all add: get_ms_def split: prod.split)

lemma dhcp_is_elapsed_keeps [simp]:
  "dhcp_tState (snd (is_elapsed pf a b s)) = dhcp_tState s" "dhcp_ptAssoc (snd (is_elapsed pf a b s)) = dhcp_ptAssoc s"
  "dhcp_uiRetryCnt (snd (is_elapsed pf a b s)) = dhcp_uiRetryCnt s" "atUdpPortAssoc (snd (is_elapsed pf a b u)) = atUdpPortAssoc u"
  "g_t_romloader_options (snd (is_elapsed pf a b v)) = g_t_romloader_options v"
  "dhcp.more (snd (is_elapsed pf a b s)) = dhcp.more s"
  by (simp_all add: is_elapsed_def split: prod.split)

lemma dhcp_cleanup_simps [simp]:
  "dhcp_ptAssoc (dhcp_cleanup s) = None" "dhcp_tState (dhcp_cleanup s) = dhcp_tState s"
  "g_t_romloader_options (dhcp_cleanup s) = g_t_romloader_options s" "dhcp.more (dhcp_cleanup s) = dhcp.more s"
  "dhcp_tState (dhcp_fail s) = DHCP_STATE_Error" "dhcp_ptAssoc (dhcp_fail s) = None"
  "g_t_romloader_options (dhcp_fail s) = g_t_romloader_options s" "dhcp.more (dhcp_fail s) = dhcp.more s"
  "atUdpPortAssoc (dhcp_fail s) = atUdpPortAssoc (dhcp_cleanup s)"
  by (auto simp: dhcp_cleanup_def dhcp_fail_def udp_unregisterPort_def split: option.split)

subsection \<open>The states of the client\<close>

text \<open>An entry of the port table that belongs to a protocol.\<close>

definition owns :: "UDP_ASSOCIATION_T list \<Rightarrow> pfn_udp_receive_handler \<Rightarrow> nat \<Rightarrow> bool" where
  "owns t h i \<longleftrightarrow> i < length t \<and> uiLocalPort (t ! i) \<noteq> 0 \<and> pfn_recHandler (t ! i) = h"

text \<open>The client holds a port only while it waits for an answer, the port is its own, and it holds one
  whenever it waits for an acknowledgement.\<close>

definition dhcp_conn_ok :: "UDP_ASSOCIATION_T list \<Rightarrow> DHCP_STATE_T \<Rightarrow> nat option \<Rightarrow> bool" where
  "dhcp_conn_ok t st a \<longleftrightarrow> length t = UDP_PORTLIST_MAX \<and>
     (case a of
        None \<Rightarrow> st \<noteq> DHCP_STATE_Request
      | Some i \<Rightarrow> (st = DHCP_STATE_Discover \<or> st = DHCP_STATE_Request) \<and> owns t dhcp_rec i)"

definition dhcp_inv :: "('d, 'w, 'z) dhcp_scheme \<Rightarrow> bool" where
  "dhcp_inv s \<longleftrightarrow> dhcp_conn_ok (atUdpPortAssoc s) (dhcp_tState s) (dhcp_ptAssoc s)"

lemma ports_len_cleanup [simp]: "length (atUdpPortAssoc (dhcp_cleanup s)) = length (atUdpPortAssoc s)"
  by (auto simp: dhcp_cleanup_def udp_unregisterPort_def split: option.split)

lemma dhcp_conn_closed: "length t = UDP_PORTLIST_MAX \<Longrightarrow> st \<noteq> DHCP_STATE_Request \<Longrightarrow> dhcp_conn_ok t st None"
  by (simp add: dhcp_conn_ok_def)

lemma dhcp_inv_len: "dhcp_inv s \<Longrightarrow> length (atUdpPortAssoc s) = UDP_PORTLIST_MAX"
  by (simp add: dhcp_inv_def dhcp_conn_ok_def)

lemma dhcp_inv_fail: "length (atUdpPortAssoc s) = UDP_PORTLIST_MAX \<Longrightarrow> dhcp_inv (dhcp_fail s)"
  by (simp add: dhcp_inv_def dhcp_conn_closed)

text \<open>What registering and unregistering a port means for the owners of the entries.\<close>

lemma owns_register:
  assumes "udp_registerPort lp rip rp h u s = (a, s')"
  shows "length (atUdpPortAssoc s') = length (atUdpPortAssoc s)"
    and "a = Some i \<Longrightarrow> lp \<noteq> 0 \<Longrightarrow> owns (atUdpPortAssoc s') h i"
    and "owns (atUdpPortAssoc s) h' j \<Longrightarrow> owns (atUdpPortAssoc s') h' j"
  using assms find_index_Some [of "\<lambda>a. uiLocalPort a = 0" "atUdpPortAssoc s"]
  by (auto simp: udp_registerPort_def udp_find_port_def owns_def nth_list_update split: option.splits if_splits)

lemma owns_unregister:
  "owns (atUdpPortAssoc s) h i \<Longrightarrow> owns (atUdpPortAssoc s) h' j \<Longrightarrow> h \<noteq> h' \<Longrightarrow>
   owns (atUdpPortAssoc (udp_unregisterPort (Some i) s)) h' j"
  by (auto simp: udp_unregisterPort_def owns_def nth_list_update)

lemma MUS2NUS_ports_nonzero: "(ucast (MUS2NUS DHCP_DISCOVER_SRC_PORT) :: u32) \<noteq> 0"
  by (simp add: MUS2NUS_def DHCP_DISCOVER_SRC_PORT_def)


lemma dhcp_inv_request:
  assumes "dhcp_inv s" and "dhcp_tState s \<noteq> DHCP_STATE_Discover" and "dhcp_tState s \<noteq> DHCP_STATE_Request"
  shows "dhcp_inv (dhcp_request pf s)"
proof -
  obtain a s1 where r: "udp_registerPort (ucast (MUS2NUS DHCP_DISCOVER_SRC_PORT)) DHCP_DISCOVER_DST_IP
      (ucast (MUS2NUS DHCP_DISCOVER_DST_PORT)) dhcp_rec NULL s = (a, s1)" by force
  have len: "length (atUdpPortAssoc s1) = UDP_PORTLIST_MAX"
    using owns_register(1) [OF r] dhcp_inv_len [OF assms(1)] by simp
  have st: "dhcp_tState s1 = dhcp_tState s" using r by (auto simp: udp_registerPort_def split: option.splits)
  show ?thesis
  proof (cases a)
    case None
    then show ?thesis using r len st assms by (simp add: dhcp_request_def dhcp_inv_def dhcp_conn_closed)
  next
    case (Some i)
    have "owns (atUdpPortAssoc s1) dhcp_rec i" using owns_register(2) [OF r] Some MUS2NUS_ports_nonzero by simp
    then have "dhcp_conn_ok (atUdpPortAssoc s1) DHCP_STATE_Discover (Some i)" using len by (simp add: dhcp_conn_ok_def)
    then show ?thesis using r len Some
      by (simp add: dhcp_request_def case_prod_beta Let_def dhcp_inv_fail) (simp add: dhcp_inv_def)
  qed
qed

lemma dhcp_inv_timeout:
  assumes "dhcp_inv s" and send: "\<And>s. ipv4_keeps s (snd (send s))"
  shows "dhcp_inv (dhcp_timeout pf send s)"
  using assms(1) ipv4_keeps_dhcp [OF send] dhcp_inv_len [OF assms(1)]
  by (simp add: dhcp_timeout_def case_prod_beta dhcp_inv_fail) (simp add: dhcp_inv_def)

lemma dhcp_inv_timer: "dhcp_inv s \<Longrightarrow> dhcp_inv (dhcp_timer pf s)"
  by (auto simp: dhcp_timer_def intro!: dhcp_inv_timeout split: DHCP_STATE_T.split)

lemma dhcp_take_offer_conn:
  "dhcp_ptAssoc (dhcp_take_offer pf p q s) = None \<and> dhcp_tState (dhcp_take_offer pf p q s) = dhcp_tState s \<and>
     length (atUdpPortAssoc (dhcp_take_offer pf p q s)) = length (atUdpPortAssoc s) \<or>
   dhcp_ptAssoc (dhcp_take_offer pf p q s) = dhcp_ptAssoc s \<and> dhcp_tState (dhcp_take_offer pf p q s) = DHCP_STATE_Request \<and>
     atUdpPortAssoc (dhcp_take_offer pf p q s) = atUdpPortAssoc s"
  by (simp add: dhcp_take_offer_def Let_def case_prod_beta)

lemma dhcp_inv_rec_discover:
  assumes "dhcp_inv s" and "dhcp_rec_discover pf p n s = Some s'" and "dhcp_ptAssoc s \<noteq> None" and "dhcp_tState s = DHCP_STATE_Discover"
  shows "dhcp_inv s'"
proof -
  have "dhcp_inv (dhcp_take_offer pf p q s)" for q
    using dhcp_take_offer_conn [of pf p q s] assms(1,3,4)
    by (auto simp: dhcp_inv_def dhcp_conn_ok_def split: option.splits)
  then show ?thesis using assms(1,2)
    by (auto simp: dhcp_rec_discover_def Option.bind_eq_Some_conv split: if_splits)
qed

lemma dhcp_accept_conn:
  "dhcp_accept p n a b c s = Some s' \<Longrightarrow> length (atUdpPortAssoc s') = length (atUdpPortAssoc s) \<and>
     dhcp_ptAssoc s' = None \<and> dhcp_tState s' = DHCP_STATE_Ok"
  by (auto simp: dhcp_accept_def Let_def Option.bind_eq_Some_conv)

lemma dhcp_rec_ack_conn:
  "dhcp_rec_ack p n s = Some s' \<Longrightarrow> length (atUdpPortAssoc s') = length (atUdpPortAssoc s) \<and>
     dhcp_ptAssoc s' = None \<and> (dhcp_tState s' = DHCP_STATE_Ok \<or> dhcp_tState s' = DHCP_STATE_Error)"
  by (auto simp: dhcp_rec_ack_def Let_def Option.bind_eq_Some_conv dest!: dhcp_accept_conn split: if_splits)

lemma dhcp_inv_rec_request:
  assumes "dhcp_inv s" and "dhcp_rec_request p n s = Some s'"
  shows "dhcp_inv s'"
proof -
  have "dhcp_inv t" if "dhcp_rec_ack p n (s\<lparr>dhcp_server_name := x, dhcp_bootfile_name := y\<rparr>) = Some t" for t x y
    using dhcp_rec_ack_conn [OF that] dhcp_inv_len [OF assms(1)] by (auto simp: dhcp_inv_def dhcp_conn_closed)
  moreover have "dhcp_inv (s\<lparr>dhcp_server_name := x, dhcp_bootfile_name := y\<rparr>)" for x y
    using assms(1) by (simp add: dhcp_inv_def)
  ultimately show ?thesis using assms dhcp_inv_len [OF assms(1)]
    by (auto simp: dhcp_rec_request_def Let_def Option.bind_eq_Some_conv dhcp_inv_fail split: if_splits)
qed

subsection \<open>Who changes the options\<close>

lemma ipv4_keeps_options: "ipv4_keeps s s' \<Longrightarrow> g_t_romloader_options s' = g_t_romloader_options s"
  by (cases s; cases s') (simp add: ipv4_keeps_def)

lemma dhcp_sends_options [simp]:
  "g_t_romloader_options (snd (dhcp_send_discover_packet pf s)) = g_t_romloader_options s"
  "g_t_romloader_options (snd (dhcp_send_request_packet pf s)) = g_t_romloader_options s"
  by (rule ipv4_keeps_options, simp)+

lemma dhcp_take_offer_options [simp]: "g_t_romloader_options (dhcp_take_offer pf p q s) = g_t_romloader_options s"
  by (simp add: dhcp_take_offer_def Let_def case_prod_beta)

lemma dhcp_timer_options [simp]: "g_t_romloader_options (dhcp_timer pf s) = g_t_romloader_options s"
  by (simp add: dhcp_timer_def dhcp_timeout_def case_prod_beta split: DHCP_STATE_T.split)

lemma udp_registerPort_options [simp]:
  "g_t_romloader_options (snd (udp_registerPort a b c d e s)) = g_t_romloader_options s"
  by (simp add: udp_registerPort_def split: option.split)

lemma dhcp_request_options [simp]: "g_t_romloader_options (dhcp_request pf s) = g_t_romloader_options s"
  by (simp add: dhcp_request_def Let_def case_prod_beta)

lemma dhcp_accept_options:
  "dhcp_accept p n a b c s = Some s' \<Longrightarrow> dhcp_tState s' = DHCP_STATE_Ok \<and> ulIp (eth_options s') = a \<and>
     ulNetmask (eth_options s') = b \<and> ulGatewayIp (eth_options s') = c \<and> aucMac (eth_options s') = aucMac (eth_options s)"
  by (auto simp: dhcp_accept_def Let_def Option.bind_eq_Some_conv)

lemma dhcp_rec_ack_options:
  assumes "dhcp_rec_ack p n s = Some s'" and "g_t_romloader_options s' \<noteq> g_t_romloader_options s"
  shows "\<exists>mask router. dhcp_getOption (mem s) (uUdpData p) n DHCP_OPT_SubnetMask = Some mask \<and> mask \<noteq> NULL \<and>
      dhcp_getOption (mem s) (uUdpData p) n DHCP_OPT_Router = Some router \<and> router \<noteq> NULL \<and>
      dhcp_tState s' = DHCP_STATE_Ok \<and> ulIp (eth_options s') = rd32 (mem s) (dhcp_ulYiAddr p) \<and>
      ulNetmask (eth_options s') = option_ip (mem s) mask \<and> ulGatewayIp (eth_options s') = option_ip (mem s) router \<and>
      aucMac (eth_options s') = aucMac (eth_options s)"
  using assms
  by (auto simp: dhcp_rec_ack_def Let_def Option.bind_eq_Some_conv dest!: dhcp_accept_options split: if_splits)

subsection \<open>Retries\<close>

text \<open>The clock: \<open>now\<close> is its value in milliseconds, which \<open>systime_get_ms\<close> returns; a timer has elapsed
  when the time since its start is at least its duration.\<close>

definition systime_clock :: "'w stack_env \<Rightarrow> ('w \<Rightarrow> u32) \<Rightarrow> bool" where
  "systime_clock pf now \<longleftrightarrow> (\<forall>w. fst (systime_get_ms pf w) = now w) \<and>
     (\<forall>start d w. fst (systime_handle_is_elapsed pf start d w) \<noteq> 0 \<longleftrightarrow> d \<le> now w - start)"

definition dhcp_waits :: "('d, 'w, 'z) dhcp_scheme \<Rightarrow> bool" where
  "dhcp_waits s \<longleftrightarrow> dhcp_tState s = DHCP_STATE_Discover \<or> dhcp_tState s = DHCP_STATE_Request"

definition dhcp_late :: "('w \<Rightarrow> u32) \<Rightarrow> 'w \<Rightarrow> ('d, 'w, 'z) dhcp_scheme \<Rightarrow> bool" where
  "dhcp_late now w s \<longleftrightarrow> ucast (usDhcpTimeout (eth_options s)) \<le> now w - dhcp_ulLastGoodPacket s"

text \<open>Calls of the timer at arbitrary times without a packet in between; \<open>n\<close> counts the calls that find the
  time-out passed.\<close>

inductive dhcp_unanswered ::
    "'w stack_env \<Rightarrow> ('w \<Rightarrow> u32) \<Rightarrow> ('d, 'w, 'z) dhcp_scheme \<Rightarrow> nat \<Rightarrow> ('d, 'w, 'z) dhcp_scheme \<Rightarrow> bool" for pf now s where
  start: "dhcp_unanswered pf now s 0 s"
| early: "dhcp_unanswered pf now s n t \<Longrightarrow> \<not> dhcp_late now w t \<Longrightarrow>
    dhcp_unanswered pf now s n (dhcp_timer pf (t\<lparr>env := w\<rparr>))"
| late: "dhcp_unanswered pf now s n t \<Longrightarrow> dhcp_late now w t \<Longrightarrow>
    dhcp_unanswered pf now s (Suc n) (dhcp_timer pf (t\<lparr>env := w\<rparr>))"

text \<open>What a call of the timer does.\<close>

lemma is_elapsed_late:
  "systime_clock pf now \<Longrightarrow>
   fst (is_elapsed pf (dhcp_ulLastGoodPacket t) (ucast (usDhcpTimeout (eth_options t))) (t\<lparr>env := w\<rparr>)) \<noteq> 0 \<longleftrightarrow>
   dhcp_late now w t"
  by (simp add: systime_clock_def is_elapsed_def dhcp_late_def case_prod_beta)

lemma dhcp_timer_early:
  assumes "systime_clock pf now" and "\<not> dhcp_late now w t"
  shows "dhcp_tState (dhcp_timer pf (t\<lparr>env := w\<rparr>)) = dhcp_tState t \<and>
    dhcp_uiRetryCnt (dhcp_timer pf (t\<lparr>env := w\<rparr>)) = dhcp_uiRetryCnt t \<and>
    dhcp_ptAssoc (dhcp_timer pf (t\<lparr>env := w\<rparr>)) = dhcp_ptAssoc t \<and>
    atUdpPortAssoc (dhcp_timer pf (t\<lparr>env := w\<rparr>)) = atUdpPortAssoc t"
  using is_elapsed_late [OF assms(1), of t w] assms(2)
  by (simp add: dhcp_timer_def dhcp_timeout_def case_prod_beta split: DHCP_STATE_T.split)

lemma dhcp_timer_late:
  assumes "systime_clock pf now" and "dhcp_late now w t" and "dhcp_waits t"
  shows "dhcp_uiRetryCnt t \<noteq> 0 \<Longrightarrow> dhcp_tState (dhcp_timer pf (t\<lparr>env := w\<rparr>)) = dhcp_tState t \<and>
      dhcp_uiRetryCnt (dhcp_timer pf (t\<lparr>env := w\<rparr>)) = dhcp_uiRetryCnt t - 1 \<and>
      dhcp_ptAssoc (dhcp_timer pf (t\<lparr>env := w\<rparr>)) = dhcp_ptAssoc t \<and>
      atUdpPortAssoc (dhcp_timer pf (t\<lparr>env := w\<rparr>)) = atUdpPortAssoc t"
    and "dhcp_uiRetryCnt t = 0 \<Longrightarrow> dhcp_tState (dhcp_timer pf (t\<lparr>env := w\<rparr>)) = DHCP_STATE_Error \<and>
      dhcp_ptAssoc (dhcp_timer pf (t\<lparr>env := w\<rparr>)) = None \<and>
      atUdpPortAssoc (dhcp_timer pf (t\<lparr>env := w\<rparr>)) = atUdpPortAssoc (udp_unregisterPort (dhcp_ptAssoc t) t)"
  using is_elapsed_late [OF assms(1), of t w] assms(2,3)
  by (auto simp: dhcp_waits_def dhcp_timer_def dhcp_timeout_def dhcp_fail_def dhcp_cleanup_def udp_unregisterPort_def
      case_prod_beta word_neq_0_conv split: DHCP_STATE_T.split option.split)

lemma dhcp_timer_closed:
  "dhcp_tState t = DHCP_STATE_Error \<Longrightarrow> dhcp_timer pf (t\<lparr>env := w\<rparr>) = t\<lparr>env := w\<rparr>"
  by (simp add: dhcp_timer_def)

lemma dhcp_unanswered_state:
  assumes "systime_clock pf now" and "dhcp_waits s" and "dhcp_unanswered pf now s n t"
  shows "if n \<le> unat (dhcp_uiRetryCnt s)
    then dhcp_tState t = dhcp_tState s \<and> unat (dhcp_uiRetryCnt t) = unat (dhcp_uiRetryCnt s) - n \<and>
      dhcp_ptAssoc t = dhcp_ptAssoc s \<and> atUdpPortAssoc t = atUdpPortAssoc s
    else dhcp_tState t = DHCP_STATE_Error \<and> dhcp_ptAssoc t = None \<and>
      atUdpPortAssoc t = atUdpPortAssoc (udp_unregisterPort (dhcp_ptAssoc s) s)"
  using assms(3)
proof induction
  case (early n t w)
  then show ?case using dhcp_timer_early [OF assms(1) early.hyps(2)] by simp
next
  case (late n t w)
  consider (retry) "Suc n \<le> unat (dhcp_uiRetryCnt s)" | (last) "n = unat (dhcp_uiRetryCnt s)" | (closed) "unat (dhcp_uiRetryCnt s) < n"
    by linarith
  then show ?case
  proof cases
    case retry
    then have t: "dhcp_waits t" "dhcp_uiRetryCnt t \<noteq> 0" using late.IH assms(2) by (auto simp: dhcp_waits_def)
    then have "unat (dhcp_uiRetryCnt t - 1) = unat (dhcp_uiRetryCnt t) - 1" by (simp add: unat_minus_one)
    then show ?thesis using retry late.IH dhcp_timer_late(1) [OF assms(1) late.hyps(2) t] by simp
  next
    case last
    then have t: "dhcp_waits t" "dhcp_uiRetryCnt t = 0" using late.IH assms(2) by (auto simp: dhcp_waits_def unat_eq_zero)
    then show ?thesis using last late.IH dhcp_timer_late(2) [OF assms(1) late.hyps(2) t]
      by (simp add: udp_unregisterPort_def split: option.split)
  next
    case closed
    then show ?thesis using late.IH by (simp add: dhcp_timer_closed)
  qed
qed simp

subsection \<open>A complete acknowledgement\<close>

text \<open>The options \<open>opts\<close> behind the magic number of a packet at \<open>q\<close> with \<open>n\<close> bytes.\<close>

definition dhcp_options_at :: "memory \<Rightarrow> ptr \<Rightarrow> u32 \<Rightarrow> (u8 \<times> u8 list) list \<Rightarrow> bool" where
  "dhcp_options_at m q n opts \<longleftrightarrow> (\<forall>(t, bs) \<in> set opts. length bs < 256) \<and>
     240 + length (concat (map dhcp_enc opts)) \<le> unat n \<and> unat q + unat n + 750 < 4294967296 \<and>
     rdbytes m (q + 236) 4 = aucDhcpMagic \<and>
     rdbytes m (q + 240) (length (concat (map dhcp_enc opts))) = concat (map dhcp_enc opts)"

lemma dhcp_window:
  assumes "unat q + unat n + 750 < 4294967296"
  shows "unat (q + 236 + n :: u32) = unat q + 236 + unat n" "unat (q + 240) = unat q + 240"
    "4 \<le> unat n \<Longrightarrow> q + 240 \<le> q + 236 + n"
proof -
  have a: "unat (q + 236) = unat q + 236" "unat (q + 240) = unat q + 240" using assms by (subst unat_add_small, simp_all)+
  show b: "unat (q + 236 + n) = unat q + 236 + unat n" using assms a by (subst unat_add_small) simp_all
  show "unat (q + 240) = unat q + 240" by (rule a)
  show "q + 240 \<le> q + 236 + n" if "4 \<le> unat n" using that a b by (simp add: word_le_nat_alt)
qed

lemma dhcp_getOption_Some:
  assumes "unat q + unat n + 750 < 4294967296"
  shows "\<exists>r. dhcp_getOption m q n t = Some r \<and> (r \<noteq> NULL \<longrightarrow>
    unat q + 240 \<le> unat r \<and> unat r + 2 + unat (m (r + 1)) \<le> unat q + 236 + unat n \<and> m r = t)"
proof (cases "q + 240 \<le> q + 236 + n \<and> rdbytes m (q + 236) 4 = aucDhcpMagic")
  case True
  note w = dhcp_window [OF assms]
  have "unat (q + 236 + n) + 514 < 4294967296" "unat (q + 240) \<le> unat (q + 236 + n) + 257"
    using True assms w by (simp_all add: word_le_nat_alt)
  from dhcp_option_loop_returns [OF this, of m t] show ?thesis
    using True w by (auto simp: dhcp_getOption_def sizeof_defs Let_def add.assoc)
qed (auto simp: dhcp_getOption_def sizeof_defs Let_def add.assoc)

lemma dhcp_getOption_finds:
  assumes "dhcp_options_at m q n opts" and "map_of opts t = Some bs"
  shows "\<exists>r. dhcp_getOption m q n t = Some r \<and> r \<noteq> NULL \<and> rdbytes m r (2 + length bs) = dhcp_enc (t, bs)"
proof -
  have a: "240 + length (concat (map dhcp_enc opts)) \<le> unat n" "unat q + unat n + 750 < 4294967296"
    using assms(1) by (simp_all only: dhcp_options_at_def)
  note w = dhcp_window [OF a(2)]
  have "q + 240 \<noteq> 0" using w(2) by (metis add_is_0 unat_0 zero_neq_numeral)
  then have "\<exists>r. dhcp_option_loop m t (q + 236 + n) (q + 240) = Some r \<and> r \<noteq> NULL \<and>
      rdbytes m r (2 + length bs) = dhcp_enc (t, bs)"
    using assms a w by (intro dhcp_option_loop_finds [of _ _ opts]) (simp_all add: dhcp_options_at_def)
  then show ?thesis using assms(1) a w(3)
    by (simp add: dhcp_getOption_def dhcp_options_at_def sizeof_defs Let_def add.assoc)
qed

lemma dhcp_accept_Some:
  assumes "unat (uUdpData p) + unat n + 750 < 4294967296"
  shows "\<exists>s'. dhcp_accept p n a b c s = Some s'"
proof -
  note get = dhcp_getOption_Some [OF assms, of "mem s"]
  obtain x where x: "dhcp_getOption (mem s) (uUdpData p) n DHCP_OPT_DomainNameServer = Some x" using get by blast
  obtain y where y: "dhcp_getOption (mem s) (uUdpData p) n DHCP_OPT_TFTPServerName = Some y" using get by blast
  obtain z where z: "dhcp_getOption (mem s) (uUdpData p) n DHCP_OPT_BootfileName = Some z" using get by blast
  show ?thesis using x y z by (simp add: dhcp_accept_def Let_def)
qed

lemma dhcp_enc_bytes:
  assumes "rdbytes m r (2 + length bs) = dhcp_enc (t, bs)"
  shows "m (r + 1) = of_nat (length bs)" "i < length bs \<Longrightarrow> m (r + of_nat (i + 2)) = bs ! i"
proof -
  have e: "rdbytes m r (2 + length bs) = m r # m (r + 1) # rdbytes m (r + 1 + 1) (length bs)" by simp
  show "m (r + 1) = of_nat (length bs)" using assms unfolding e by (simp add: dhcp_enc_def)
  show "m (r + of_nat (i + 2)) = bs ! i" if "i < length bs"
    using arg_cong [OF assms, of "\<lambda>l. l ! (i + 2)"] that
    by (subst (asm) nth_rdbytes) (simp_all add: dhcp_enc_def)
qed

lemma dhcp_enc_ip:
  assumes "rdbytes m r (2 + length [a, b, c, d]) = dhcp_enc (t, [a, b, c, d])"
  shows "m (r + 1) = 4" "option_ip m r = IP_ADR a b c d"
  using dhcp_enc_bytes(1) [OF assms] dhcp_enc_bytes(2) [OF assms, of 0] dhcp_enc_bytes(2) [OF assms, of 1]
    dhcp_enc_bytes(2) [OF assms, of 2] dhcp_enc_bytes(2) [OF assms, of 3]
  by (simp_all add: option_ip_def)

lemma dhcp_ack_accepts:
  assumes "dhcp_tState s = DHCP_STATE_Request" and "dhcp_is_reply (mem s) p (dhcp_ulXId s) (aucMac (eth_options s))"
    and opts: "dhcp_options_at (mem s) (uUdpData p) n opts"
    and "map_of opts DHCP_OPT_DHCPMessageType = Some [DHCP_MSGTYP_DHCPACK]"
    and "map_of opts DHCP_OPT_SubnetMask = Some [a, b, c, d]" and "map_of opts DHCP_OPT_Router = Some [e, f, g, h]"
  shows "\<exists>s'. dhcp_recHandler pf p n s = Some s' \<and> dhcp_tState s' = DHCP_STATE_Ok \<and> dhcp_ptAssoc s' = None \<and>
    ulIp (eth_options s') = rd32 (mem s) (dhcp_ulYiAddr p) \<and> ulNetmask (eth_options s') = IP_ADR a b c d \<and>
    ulGatewayIp (eth_options s') = IP_ADR e f g h"
proof -
  obtain r1 where r1: "dhcp_getOption (mem s) (uUdpData p) n DHCP_OPT_DHCPMessageType = Some r1" "r1 \<noteq> NULL"
    "rdbytes (mem s) r1 (2 + length [DHCP_MSGTYP_DHCPACK]) = dhcp_enc (DHCP_OPT_DHCPMessageType, [DHCP_MSGTYP_DHCPACK])"
    using dhcp_getOption_finds [OF opts assms(4)] by blast
  obtain r2 where r2: "dhcp_getOption (mem s) (uUdpData p) n DHCP_OPT_SubnetMask = Some r2" "r2 \<noteq> NULL"
    "rdbytes (mem s) r2 (2 + length [a, b, c, d]) = dhcp_enc (DHCP_OPT_SubnetMask, [a, b, c, d])"
    using dhcp_getOption_finds [OF opts assms(5)] by blast
  obtain r3 where r3: "dhcp_getOption (mem s) (uUdpData p) n DHCP_OPT_Router = Some r3" "r3 \<noteq> NULL"
    "rdbytes (mem s) r3 (2 + length [e, f, g, h]) = dhcp_enc (DHCP_OPT_Router, [e, f, g, h])"
    using dhcp_getOption_finds [OF opts assms(6)] by blast
  have t: "mem s (r1 + 1) = 1" "mem s (r1 + 2) = DHCP_MSGTYP_DHCPACK"
    using dhcp_enc_bytes(1) [OF r1(3)] dhcp_enc_bytes(2) [OF r1(3), of 0] by simp_all
  note ips = dhcp_enc_ip [OF r2(3)] dhcp_enc_ip [OF r3(3)]
  have "unat (uUdpData p) + unat n + 750 < 4294967296" using opts by (simp only: dhcp_options_at_def)
  from dhcp_accept_Some [OF this] obtain s' where acc: "dhcp_accept p n (rd32 (mem s) (dhcp_ulYiAddr p)) (option_ip (mem s) r2)
      (option_ip (mem s) r3) (s\<lparr>dhcp_server_name := put_bytes (replicate 64 0) 0 (rdbytes (mem s) (dhcp_acSName p) 63),
        dhcp_bootfile_name := put_bytes (replicate 128 0) 0 (rdbytes (mem s) (dhcp_acFile p) 127)\<rparr>) = Some s'" by blast
  then have "dhcp_recHandler pf p n s = Some s'"
    using assms(1,2) r1 r2 r3 t ips by (simp add: dhcp_recHandler_def dhcp_rec_request_def dhcp_rec_ack_def Let_def)
  then show ?thesis using dhcp_accept_options [OF acc] dhcp_accept_conn [OF acc] ips by simp
qed

subsection \<open>Properties\<close>

text \<open>(C19) A well-formed acknowledgement to the pending request is accepted: with the message type, the netmask and
  the router among the options of a reply to this client, the handler returns, the address and the
  two options become the settings, the client is done and its port is closed.\<close>

theorem dhcp_ack_accepted:
  assumes "dhcp_tState s = DHCP_STATE_Request" and "dhcp_is_reply (mem s) p (dhcp_ulXId s) (aucMac (eth_options s))"
    and "dhcp_options_at (mem s) (uUdpData p) n opts"
    and "map_of opts DHCP_OPT_DHCPMessageType = Some [DHCP_MSGTYP_DHCPACK]"
    and "map_of opts DHCP_OPT_SubnetMask = Some [a, b, c, d]" and "map_of opts DHCP_OPT_Router = Some [e, f, g, h]"
  shows "\<exists>s'. dhcp_recHandler pf p n s = Some s' \<and> dhcp_tState s' = DHCP_STATE_Ok \<and> dhcp_ptAssoc s' = None \<and>
    ulIp (eth_options s') = rd32 (mem s) (dhcp_ulYiAddr p) \<and> ulNetmask (eth_options s') = IP_ADR a b c d \<and>
    ulGatewayIp (eth_options s') = IP_ADR e f g h"
  using assms by (rule dhcp_ack_accepts)

text \<open>A client that waits for an acknowledgement, which is in memory at \<open>0x05000000\<close>.\<close>

definition demo_ack_opts :: "(u8 \<times> u8 list) list" where
  "demo_ack_opts = [(DHCP_OPT_DHCPMessageType, [DHCP_MSGTYP_DHCPACK]), (DHCP_OPT_SubnetMask, [255, 255, 0, 0]),
     (DHCP_OPT_Router, [10, 1, 0, 1])]"

definition demo_ack :: memory where
  "demo_ack = wrbytes (wrbytes (wrbytes (wrbytes (\<lambda>_. 0) 0x0500002a [2, 1, 6, 0]) 0x0500003a [10, 1, 0, 7])
     0x05000046 [0, 2, 0xa2, 1, 2, 3]) 0x05000116 (aucDhcpMagic @ concat (map dhcp_enc demo_ack_opts))"

definition demo_dhcp :: "((u32 \<Rightarrow> u32 \<Rightarrow> u32 list) xc, nat) dhcp" where
  "demo_dhcp = \<lparr>mem = demo_ack, env = 0, drv = two_empty, tNetworkIf = tNetworkIfXc list_regs,
     g_t_romloader_options = demo_options, atPacketQueue = empty_queue, aui_arp_cache = empty_cache, uiIpOutputId = 0,
     atUdpPortAssoc = free_ports[0 := \<lparr>uiLocalPort = 0x4400, ulRemoteIp = 0xffffffff, uiRemotePort = 0x4300,
       pfn_recHandler = dhcp_rec, pvUser = NULL\<rparr>],
     dhcp_tState = DHCP_STATE_Request, dhcp_ptAssoc = Some 0, dhcp_ulLastGoodPacket = 0, dhcp_uiRetryCnt = 3,
     dhcp_ulXId = 0, dhcp_ulRequestIp = 0x0700010a, dhcp_aucServerIdentifier = [0, 0, 0, 0],
     dhcp_server_name = replicate 64 0, dhcp_bootfile_name = replicate 128 0\<rparr>"

lemma demo_dhcp_reply: "dhcp_is_reply (mem demo_dhcp) 0x05000000 (dhcp_ulXId demo_dhcp) (aucMac (eth_options demo_dhcp))"
  by (simp add: dhcp_is_reply_def demo_dhcp_def demo_ack_def demo_ack_opts_def demo_options_def dhcp_const_defs
    dhcp_enc_def aucDhcpMagic_def rdbytes_numeral rd32_def)

lemma demo_dhcp_opts: "dhcp_options_at (mem demo_dhcp) (uUdpData 0x05000000) 300 demo_ack_opts"
  by (simp add: dhcp_options_at_def demo_dhcp_def demo_ack_def demo_ack_opts_def dhcp_const_defs
    dhcp_enc_def aucDhcpMagic_def rdbytes_numeral)

lemma demo_ack_opts_lookup:
  "map_of demo_ack_opts DHCP_OPT_DHCPMessageType = Some [DHCP_MSGTYP_DHCPACK]"
  "map_of demo_ack_opts DHCP_OPT_SubnetMask = Some [255, 255, 0, 0]"
  "map_of demo_ack_opts DHCP_OPT_Router = Some [10, 1, 0, 1]"
  by (simp_all add: demo_ack_opts_def dhcp_const_defs)

lemma demo_dhcp_yiaddr: "rd32 (mem demo_dhcp) 0x0500003a = 0x0700010a"
  by (simp add: demo_dhcp_def demo_ack_def demo_ack_opts_def dhcp_const_defs dhcp_enc_def aucDhcpMagic_def rd32_def)

text \<open>(C19) Witness: the acknowledgement in \<open>demo_ack\<close>.\<close>

theorem dhcp_ack_accepted_witness:
  "\<exists>s'. dhcp_recHandler demo_env 0x05000000 300 demo_dhcp = Some s' \<and> dhcp_tState s' = DHCP_STATE_Ok \<and>
    ulIp (eth_options s') = 0x0700010a \<and> ulNetmask (eth_options s') = 0x0000ffff"
proof -
  have st: "dhcp_tState demo_dhcp = DHCP_STATE_Request" by (simp add: demo_dhcp_def)
  from dhcp_ack_accepted [OF st demo_dhcp_reply demo_dhcp_opts demo_ack_opts_lookup, of demo_env]
  show ?thesis using demo_dhcp_yiaddr by (auto simp: IP_ADR_def)
qed

text \<open>(C20) The settings change only by an acknowledgement: a packet changes the options of the loader only when the
  client waits for an acknowledgement, the fields of the packet are those of a reply with the transaction number and
  the hardware address of this client and an address for it, and its message type is an acknowledgement; then the address, netmask and gateway are those of the packet and the
  hardware address stays. The timer and a new request never change them.\<close>

theorem dhcp_settings_from_ack:
  assumes "dhcp_recHandler pf p n s = Some s'" and "g_t_romloader_options s' \<noteq> g_t_romloader_options s"
  shows "dhcp_tState s = DHCP_STATE_Request \<and> dhcp_tState s' = DHCP_STATE_Ok \<and>
    mem s (dhcp_ucOp p) = DHCP_OP_BOOTREPLY \<and> mem s (dhcp_ucHType p) = 1 \<and> mem s (dhcp_ucHLen p) = 6 \<and>
    rd32 (mem s) (dhcp_ulXId_adr p) = dhcp_ulXId s \<and>
    rdbytes (mem s) (dhcp_aucChAddr p) 6 = aucMac (eth_options s) \<and> rd32 (mem s) (dhcp_ulYiAddr p) \<noteq> 0 \<and>
    (\<exists>typ mask router.
      dhcp_getOption (mem s) (uUdpData p) n DHCP_OPT_DHCPMessageType = Some typ \<and> typ \<noteq> NULL \<and>
      mem s (typ + 2) = DHCP_MSGTYP_DHCPACK \<and>
      dhcp_getOption (mem s) (uUdpData p) n DHCP_OPT_SubnetMask = Some mask \<and> mask \<noteq> NULL \<and>
      dhcp_getOption (mem s) (uUdpData p) n DHCP_OPT_Router = Some router \<and> router \<noteq> NULL \<and>
      ulIp (eth_options s') = rd32 (mem s) (dhcp_ulYiAddr p) \<and> ulNetmask (eth_options s') = option_ip (mem s) mask \<and>
      ulGatewayIp (eth_options s') = option_ip (mem s) router \<and> aucMac (eth_options s') = aucMac (eth_options s)) \<and>
    g_t_romloader_options (dhcp_timer pf s) = g_t_romloader_options s \<and>
    g_t_romloader_options (dhcp_request pf s) = g_t_romloader_options s"
  using assms
  by (auto simp: dhcp_recHandler_def dhcp_rec_discover_def dhcp_rec_request_def dhcp_is_reply_def Let_def
    Option.bind_eq_Some_conv dest!: dhcp_rec_ack_options split: DHCP_STATE_T.splits if_splits)

text \<open>(C20) Witness: the acknowledgement in \<open>demo_ack\<close> changes the address of the loader options.\<close>

theorem dhcp_settings_from_ack_witness:
  "\<exists>s'. dhcp_recHandler demo_env 0x05000000 300 demo_dhcp = Some s' \<and> dhcp_tState s' = DHCP_STATE_Ok \<and>
     aucMac (eth_options s') = aucMac (eth_options demo_dhcp)"
proof -
  have st: "dhcp_tState demo_dhcp = DHCP_STATE_Request" by (simp add: demo_dhcp_def)
  obtain s' where s': "dhcp_recHandler demo_env 0x05000000 300 demo_dhcp = Some s'" "ulIp (eth_options s') = 0x0700010a"
    using dhcp_ack_accepts [OF st demo_dhcp_reply demo_dhcp_opts demo_ack_opts_lookup, of demo_env] demo_dhcp_yiaddr
    by auto
  have "ulIp (eth_options demo_dhcp) = 0x0200a8c0" by (simp add: demo_dhcp_def demo_options_def)
  then have "g_t_romloader_options s' \<noteq> g_t_romloader_options demo_dhcp" using s'(2) by auto
  from dhcp_settings_from_ack [OF s'(1) this] show ?thesis using s'(1) by blast
qed

text \<open>(C34) The search for an option ends for every packet contents, as long as the packet is not at the very end of
  the address space, and an option that it finds is in its search window.\<close>

theorem dhcp_getOption_returns:
  assumes "unat q + unat n + 750 < 4294967296"
  shows "\<exists>r. dhcp_getOption m q n t = Some r \<and> (r \<noteq> NULL \<longrightarrow>
    unat q + 240 \<le> unat r \<and> unat r + 2 + unat (m (r + 1)) \<le> unat q + 236 + unat n \<and> m r = t)"
  using assms by (rule dhcp_getOption_Some)

text \<open>(C34) Witness: no option is found in an empty memory.\<close>

theorem dhcp_getOption_returns_witness: "\<exists>r. dhcp_getOption (\<lambda>_. 0) 0x0500002a 300 53 = Some r"
  using dhcp_getOption_returns [of "0x0500002a" 300 "\<lambda>_. 0" 53] by auto

text \<open>The window is too long: its end is computed from the start of the options with the length of the whole
  packet, so an option that stands right behind a packet without options is found.\<close>

theorem dhcp_getOption_overread:
  assumes "unat q + 990 < 4294967296" and "rdbytes m (q + 236) 4 = aucDhcpMagic"
    and "m (q + 240) = t" and "unat (m (q + 241)) \<le> 234"
  shows "dhcp_getOption m q 240 t = Some (q + 240)"
proof -
  have w: "unat (q + 236 + 240) = unat q + 476" "unat (q + 240) = unat q + 240" "q + 240 \<le> q + 236 + 240"
    using dhcp_window [of q 240] assms(1) by simp_all
  have "unat (q + 240) + 257 < 4294967296" using assms(1) w(2) by simp
  note step = option_step(1) [OF this] option_step(2,3) [OF this, of "m (q + 241)"]
  have "q + 240 + 2 \<le> q + 236 + 240" "q + 240 + 2 + ucast (m (q + 241)) \<le> q + 236 + 240"
    unfolding step(3) word_le_nat_alt using step(1,2) w(1,2) assms(4) by linarith+
  then have "dhcp_option_loop m t (q + 236 + 240) (q + 240) = Some (q + 240)"
    using assms(3) by (subst dhcp_option_loop.simps) (simp add: add.assoc)
  then show ?thesis using assms(2) w(3) by (simp add: dhcp_getOption_def sizeof_defs Let_def add.assoc)
qed

text \<open>Witness: a packet without options, with the option 1 behind it.\<close>

theorem dhcp_getOption_overread_witness:
  "dhcp_getOption (wrbytes (\<lambda>_. 0) 0x05000116 (aucDhcpMagic @ [1, 4])) 0x0500002a 240 1 = Some 0x0500011a"
  using dhcp_getOption_overread [of "0x0500002a" "wrbytes (\<lambda>_. 0) 0x05000116 (aucDhcpMagic @ [1, 4])" 1]
  by (simp add: aucDhcpMagic_def rdbytes_numeral)

text \<open>(C35) Without an answer the client gives up after the configured retries: whenever the timer is called,
  up to \<open>uiRetryCnt\<close> calls that find the time-out passed leave the state of the client unchanged, each of them counting
  one retry, and after one more of them the client is in the error state, its association is
  cleared and the entry of the port table it had is free.\<close>

theorem dhcp_gives_up:
  assumes "systime_clock pf now" and "dhcp_waits s" and "dhcp_inv s" and "dhcp_unanswered pf now s n t"
  shows "if n \<le> unat (dhcp_uiRetryCnt s)
    then dhcp_tState t = dhcp_tState s \<and> unat (dhcp_uiRetryCnt t) = unat (dhcp_uiRetryCnt s) - n \<and>
      dhcp_ptAssoc t = dhcp_ptAssoc s
    else dhcp_tState t = DHCP_STATE_Error \<and> dhcp_ptAssoc t = None \<and>
      (\<forall>i. dhcp_ptAssoc s = Some i \<longrightarrow> uiLocalPort (atUdpPortAssoc t ! i) = 0)"
proof -
  have "uiLocalPort (atUdpPortAssoc (udp_unregisterPort (Some i) s) ! i) = 0" if "dhcp_ptAssoc s = Some i" for i
    using that assms(3) by (auto simp: dhcp_inv_def dhcp_conn_ok_def owns_def udp_unregisterPort_def)
  then show ?thesis using dhcp_unanswered_state [OF assms(1,2,4)] by auto
qed

lemma demo_env_clock: "systime_clock demo_env of_nat"
  by (simp add: systime_clock_def demo_env_def)

lemma demo_unanswered: "\<exists>t. dhcp_unanswered demo_env of_nat s n t"
proof (induction n)
  case (Suc n)
  then obtain t where t: "dhcp_unanswered demo_env of_nat s n t" ..
  have "dhcp_late of_nat (unat (dhcp_ulLastGoodPacket t + ucast (usDhcpTimeout (eth_options t)))) t"
    by (simp add: dhcp_late_def)
  from dhcp_unanswered.late [OF t this] show ?case ..
qed (blast intro: dhcp_unanswered.start)

text \<open>(C35) Witness: the clock of \<open>demo_env\<close> and three retries of the request in \<open>demo_dhcp\<close>.\<close>

theorem dhcp_gives_up_witness:
  "\<exists>t. dhcp_unanswered demo_env of_nat demo_dhcp 4 t \<and> dhcp_tState t = DHCP_STATE_Error \<and> dhcp_ptAssoc t = None"
proof -
  obtain t where t: "dhcp_unanswered demo_env of_nat demo_dhcp 4 t" using demo_unanswered by blast
  have d: "dhcp_waits demo_dhcp" "dhcp_inv demo_dhcp" "unat (dhcp_uiRetryCnt demo_dhcp) = 3"
    by (simp_all add: dhcp_waits_def dhcp_inv_def dhcp_conn_ok_def owns_def demo_dhcp_def UDP_PORTLIST_MAX_def free_ports_def)
  then show ?thesis using dhcp_gives_up [OF demo_env_clock d(1,2) t] t by auto
qed

end
