(* ===== verification/Rng.thy ===== *)
theory Rng
  imports Prelude
begin

text \<open>
  The random numbers (rng.c): the exclusive or of the system time and the chip identification. The
  registers are functions of the state \<open>'w\<close> of the platform, so that two reads may differ.
\<close>

text \<open>The registers \<open>rng_get_value\<close> combines.\<close>

record 'w rng_regs =
  rd_systime_s :: "'w \<Rightarrow> u32 \<times> 'w"
  rd_systime_ns :: "'w \<Rightarrow> u32 \<times> 'w"
  rd_chip_id :: "nat \<Rightarrow> 'w \<Rightarrow> u32 \<times> 'w"

definition rng_get_value :: "'w rng_regs \<Rightarrow> 'w \<Rightarrow> u32 \<times> 'w" where
  "rng_get_value r w =
     (case rd_systime_s r w of (a, w) \<Rightarrow>
      case rd_systime_ns r w of (b, w) \<Rightarrow>
      case rd_chip_id r 0 w of (c0, w) \<Rightarrow>
      case rd_chip_id r 1 w of (c1, w) \<Rightarrow>
      case rd_chip_id r 2 w of (c2, w) \<Rightarrow>
      case rd_chip_id r 3 w of (c3, w) \<Rightarrow>
        (a XOR b XOR c0 XOR c1 XOR c2 XOR c3, w))"

end
