(* ===== verification/Dns.thy ===== *)
theory Dns
  imports Dhcp Rng
begin

text \<open>
  The DNS client (networking/stack/dns.c): the query for a host name and the search for an address record
  in the answer. The host name and the buffer for unpacked names are in memory; \<open>dns_aucHostNameBuffer\<close> is
  the address of the static array of 64 bytes, which the code never checks. The loops follow strings and
  compression pointers in memory; they are \<open>partial_function\<close>s, so that a loop or a recursion without
  end is the value \<open>None\<close>. The debug messages are not modelled.
\<close>

subsection \<open>Data\<close>

definition DNS_SRC_PORT :: u32 where "DNS_SRC_PORT = 32768"
definition DNS_DST_PORT :: u32 where "DNS_DST_PORT = 53"
definition MSK_DNS_OPTION_RESPONSE :: u32 where "MSK_DNS_OPTION_RESPONSE = 0x8000"
definition MSK_DNS_OPTION_OPCODE :: u32 where "MSK_DNS_OPTION_OPCODE = 0x7800"
definition MSK_DNS_OPTION_TRUNCATED :: u32 where "MSK_DNS_OPTION_TRUNCATED = 0x0200"
definition DNS_OPTION_RECURSION_DESIRED :: u32 where "DNS_OPTION_RECURSION_DESIRED = 0x0100"
definition MSK_DNS_OPTION_REPLY_CODE :: u32 where "MSK_DNS_OPTION_REPLY_CODE = 0x000f"
definition DNS_QUERY_TYPE_A :: u32 where "DNS_QUERY_TYPE_A = 1"
definition DNS_QUERY_CLASS_IN :: u32 where "DNS_QUERY_CLASS_IN = 1"
definition DNS_REPLYCODE_Ok :: u32 where "DNS_REPLYCODE_Ok = 0"

lemmas dns_const_defs = DNS_SRC_PORT_def DNS_DST_PORT_def MSK_DNS_OPTION_RESPONSE_def MSK_DNS_OPTION_OPCODE_def
  MSK_DNS_OPTION_TRUNCATED_def DNS_OPTION_RECURSION_DESIRED_def MSK_DNS_OPTION_REPLY_CODE_def DNS_QUERY_TYPE_A_def
  DNS_QUERY_CLASS_IN_def DNS_REPLYCODE_Ok_def

datatype DNS_STATE_T = DNS_STATE_Idle | DNS_STATE_Request | DNS_STATE_Ok | DNS_STATE_NotFound | DNS_STATE_Error

definition sizeof_DNS_ANSWER_T :: u32 where "sizeof_DNS_ANSWER_T = 10"

abbreviation (input) ans_usType :: "ptr \<Rightarrow> ptr" where "ans_usType a \<equiv> a"
abbreviation (input) ans_usClass :: "ptr \<Rightarrow> ptr" where "ans_usClass a \<equiv> a + 2"
abbreviation (input) ans_usAddressLength :: "ptr \<Rightarrow> ptr" where "ans_usAddressLength a \<equiv> a + 8"

text \<open>Fields of the DNS packet in a frame at \<open>p\<close>.\<close>

abbreviation (input) dns_usTransactionId :: "ptr \<Rightarrow> ptr" where "dns_usTransactionId p \<equiv> p + 42"
abbreviation (input) dns_usFlags :: "ptr \<Rightarrow> ptr" where "dns_usFlags p \<equiv> p + 44"
abbreviation (input) dns_usQuestions :: "ptr \<Rightarrow> ptr" where "dns_usQuestions p \<equiv> p + 46"
abbreviation (input) dns_usAnswerRRs :: "ptr \<Rightarrow> ptr" where "dns_usAnswerRRs p \<equiv> p + 48"
abbreviation (input) dns_usAuthorityRRs :: "ptr \<Rightarrow> ptr" where "dns_usAuthorityRRs p \<equiv> p + 50"
abbreviation (input) dns_usAdditionalRRs :: "ptr \<Rightarrow> ptr" where "dns_usAdditionalRRs p \<equiv> p + 52"
abbreviation (input) dns_queries :: "ptr \<Rightarrow> ptr" where "dns_queries p \<equiv> p + 54"

record ('d, 'w) dns = "('d, 'w) dhcp" +
  dns_tState :: DNS_STATE_T
  us_dns_transaction_id_cnt :: u16
  dns_ptAssoc :: "nat option"
  dns_ulLastGoodPacket :: u32
  dns_uiRetryCnt :: u32
  pcHostName :: ptr
  ulHostIp :: u32
  dns_aucHostNameBuffer :: ptr
  pucBuffer :: ptr

subsection \<open>Names\<close>

text \<open>The loop of \<open>convert_hostname_to_dns\<close>; \<open>pucChunkLength\<close> is the reserved length byte of the current
  label.\<close>

partial_function (option) convert_loop :: "memory \<Rightarrow> ptr \<Rightarrow> ptr \<Rightarrow> ptr \<Rightarrow> (ptr \<times> memory) option" where
  "convert_loop m pucQuery pucChunkLength pcName =
     (let ucByte = m pcName in
      if ucByte = 0x2e then
        convert_loop (m(pucChunkLength := ucast (pucQuery - pucChunkLength - 1))) (pucQuery + 1) pucQuery (pcName + 1)
      else if ucByte \<noteq> 0 then convert_loop (m(pucQuery := ucByte)) (pucQuery + 1) pucChunkLength (pcName + 1)
      else Some (pucQuery, m(pucChunkLength := ucast (pucQuery - pucChunkLength - 1))))"

definition convert_hostname_to_dns :: "memory \<Rightarrow> ptr \<Rightarrow> ptr \<Rightarrow> (ptr \<times> memory) option" where
  "convert_hostname_to_dns m pucQuery pcName =
     do {
       (q, m) \<leftarrow> convert_loop m (pucQuery + 1) pucQuery pcName;
       Some (q + 1, m(q := 0))
     }"

partial_function (option) skip_loop :: "memory \<Rightarrow> ptr \<Rightarrow> ptr \<Rightarrow> ptr option" where
  "skip_loop m pucQuery pucQueryEnd =
     (let ucLength = m pucQuery;
          q = pucQuery + 1 + ucast ucLength in
      if q < pucQueryEnd \<and> ucLength \<noteq> 0 then skip_loop m q pucQueryEnd else Some q)"

definition skip_query :: "memory \<Rightarrow> ptr \<Rightarrow> ptr \<Rightarrow> ptr option" where
  "skip_query m pucQuery pucQueryEnd =
     do {
       q \<leftarrow> skip_loop m pucQuery pucQueryEnd;
       let q = q + 4;
       Some (if q \<ge> pucQueryEnd then NULL else q)
     }"

text \<open>One call is the loop from the current position: another round of the loop is the function itself.
  The result is the position behind the name, the position in the buffer and the memory.\<close>

partial_function (option) unpack_entry_recursive ::
    "ptr \<Rightarrow> ptr \<Rightarrow> ptr \<Rightarrow> ptr \<Rightarrow> memory \<Rightarrow> (ptr \<times> ptr \<times> memory) option" where
  "unpack_entry_recursive pucQuery pucPacketStart pucQueryEnd buf m =
     (let ucLength = m pucQuery;
          q = pucQuery + 1 in
      if ucLength = 0 then Some (if q \<ge> pucQueryEnd then NULL else q, buf, m)
      else if ucLength < 0x40 then
        let m = memcpy m buf q (unat ucLength);
            buf = buf + ucast ucLength;
            q = q + ucast ucLength;
            m = m(buf := 0x2e);
            buf = buf + 1 in
        if q \<noteq> NULL \<and> q < pucQueryEnd then unpack_entry_recursive q pucPacketStart pucQueryEnd buf m
        else Some (if q \<ge> pucQueryEnd then NULL else q, buf, m)
      else if ucLength < 0xc0 then Some (NULL, buf, m)
      else
        let pucPtrEntry = pucPacketStart + ucast (m q);
            q = q + 1 in
        Option.bind (unpack_entry_recursive pucPtrEntry pucPacketStart pucQueryEnd buf m) (\<lambda>(pucPtrEntry, buf, m).
          let q = (if pucPtrEntry = NULL then NULL else q) in
          Some (if q \<ge> pucQueryEnd then NULL else q, buf, m)))"

text \<open>An answer record: its name is unpacked and compared with the host name. The result is the position behind
  the record.\<close>

definition parse_answer ::
    "ptr \<Rightarrow> ptr \<Rightarrow> ptr \<Rightarrow> ('d, 'w, 'z) dns_scheme \<Rightarrow> (ptr \<times> ('d, 'w, 'z) dns_scheme) option" where
  "parse_answer pucQuery pucPacketStart pucQueryEnd s =
     do {
       (q, buf, m) \<leftarrow> unpack_entry_recursive pucQuery pucPacketStart pucQueryEnd (dns_aucHostNameBuffer s) (mem s);
       let s = s\<lparr>pucBuffer := buf, mem := m\<rparr>;
       if q \<noteq> NULL then
         let sizName = pucBuffer s - dns_aucHostNameBuffer s in
         if sizName = 0 then Some (NULL, s)
         else
           let s = s\<lparr>mem := (mem s)(dns_aucHostNameBuffer s + (sizName - 1) := 0)\<rparr> in
           if rdbytes (mem s) (dns_aucHostNameBuffer s) (unat sizName) = rdbytes (mem s) (pcHostName s) (unat sizName) then
             let m = mem s;
                 uiLength = ucast (MUS2NUS (ucast (rd16 m (ans_usAddressLength q)))) :: u32;
                 s = (if rd16 m (ans_usType q) = MUS2NUS DNS_QUERY_TYPE_A \<and>
                         rd16 m (ans_usClass q) = MUS2NUS DNS_QUERY_CLASS_IN \<and> uiLength = 4
                      then let a = q + sizeof_DNS_ANSWER_T in
                           s\<lparr>ulHostIp := IP_ADR (m a) (m (a + 1)) (m (a + 2)) (m (a + 3))\<rparr>
                      else s) in
             Some (q + (sizeof_DNS_ANSWER_T + uiLength), s)
           else Some (q, s)
       else Some (q, s)
     }"

subsection \<open>Sending\<close>

definition dns_send_query_packet ::
    "'w stack_env \<Rightarrow> ('d, 'w, 'z) dns_scheme \<Rightarrow> (int \<times> ('d, 'w, 'z) dns_scheme) option" where
  "dns_send_query_packet pf s =
     (case eth_get_empty_packet s of (p, s) \<Rightarrow>
        if p = NULL then Some (-1, s)
        else
          let m = wr16 (mem s) (dns_usTransactionId p) (MUS2NUS (ucast (us_dns_transaction_id_cnt s)));
              m = wr16 m (dns_usFlags p) (MUS2NUS DNS_OPTION_RECURSION_DESIRED);
              m = wr16 m (dns_usQuestions p) (MUS2NUS 1);
              m = wr16 m (dns_usAnswerRRs p) 0;
              m = wr16 m (dns_usAuthorityRRs p) 0;
              m = wr16 m (dns_usAdditionalRRs p) 0 in
          do {
            (q, m) \<leftarrow> convert_hostname_to_dns m (dns_queries p) (pcHostName s);
            let m = m(q := ucast (drop_bit 8 DNS_QUERY_TYPE_A));
            let m = m(q + 1 := ucast (DNS_QUERY_TYPE_A AND 0xff));
            let m = m(q + 2 := ucast (drop_bit 8 DNS_QUERY_CLASS_IN));
            let m = m(q + 3 := ucast (DNS_QUERY_CLASS_IN AND 0xff));
            let ulQuerySize = q + 4 - dns_queries p;
            Some (0, udp_send_packet pf p (sizeof_DNS_PACKET_T + ulQuerySize) (dns_ptAssoc s) (s\<lparr>mem := m\<rparr>))
          })"

subsection \<open>Receiving\<close>

partial_function (option) dns_answers ::
    "ptr \<Rightarrow> ptr \<Rightarrow> ptr \<Rightarrow> ('d, 'w, 'z) dns_scheme \<Rightarrow> ('d, 'w, 'z) dns_scheme option" where
  "dns_answers pucQuery pucPacketStart pucQueryEnd s =
     Option.bind (parse_answer pucQuery pucPacketStart pucQueryEnd s) (\<lambda>(q, s).
       if ulHostIp s = 0 \<and> q \<noteq> NULL then dns_answers q pucPacketStart pucQueryEnd s else Some s)"

definition dns_search :: "ptr \<Rightarrow> u32 \<Rightarrow> ('d, 'w, 'z) dns_scheme \<Rightarrow> ('d, 'w, 'z) dns_scheme option" where
  "dns_search p sizDnsLength s =
     (let pucQueryEnd = uUdpData p + sizDnsLength in
      do {
        q \<leftarrow> skip_query (mem s) (dns_queries p) pucQueryEnd;
        if q \<noteq> NULL then
          do {
            s \<leftarrow> dns_answers q (uUdpData p) pucQueryEnd (s\<lparr>ulHostIp := 0\<rparr>);
            Some (if ulHostIp s = 0 then s\<lparr>dns_tState := DNS_STATE_NotFound\<rparr> else s\<lparr>dns_tState := DNS_STATE_Ok\<rparr>)
          }
        else Some s
      })"

definition dns_rec_request :: "ptr \<Rightarrow> u32 \<Rightarrow> ('d, 'w, 'z) dns_scheme \<Rightarrow> ('d, 'w, 'z) dns_scheme option" where
  "dns_rec_request p sizDnsLength s =
     (let m = mem s;
          uiFlags = NUS2MUS (rd16 m (dns_usFlags p)) in
      if rd16 m (dns_usTransactionId p) \<noteq> MUS2NUS (ucast (us_dns_transaction_id_cnt s)) then Some s
      else if uiFlags AND MSK_DNS_OPTION_RESPONSE = 0 then Some s
      else if uiFlags AND MSK_DNS_OPTION_OPCODE \<noteq> 0 then Some s
      else if uiFlags AND MSK_DNS_OPTION_TRUNCATED \<noteq> 0 then Some s
      else if uiFlags AND MSK_DNS_OPTION_REPLY_CODE \<noteq> DNS_REPLYCODE_Ok then Some (s\<lparr>dns_tState := DNS_STATE_Error\<rparr>)
      else if rd16 m (dns_usQuestions p) \<noteq> MUS2NUS 1 then Some (s\<lparr>dns_tState := DNS_STATE_NotFound\<rparr>)
      else if rd16 m (dns_usAnswerRRs p) OR rd16 m (dns_usAuthorityRRs p) OR rd16 m (dns_usAdditionalRRs p) = 0
      then Some (s\<lparr>dns_tState := DNS_STATE_NotFound\<rparr>)
      else dns_search p sizDnsLength s)"

definition dns_recHandler :: "ptr \<Rightarrow> u32 \<Rightarrow> ('d, 'w, 'z) dns_scheme \<Rightarrow> ('d, 'w, 'z) dns_scheme option" where
  "dns_recHandler pvData sizDnsLength s =
     (if sizDnsLength < sizeof_DNS_PACKET_T then Some s
      else case dns_tState s of
        DNS_STATE_Request \<Rightarrow> dns_rec_request pvData sizDnsLength s
      | _ \<Rightarrow> Some s)"

subsection \<open>Requests and timer\<close>

definition dns_cleanup :: "('d, 'w, 'z) dns_scheme \<Rightarrow> ('d, 'w, 'z) dns_scheme" where
  "dns_cleanup s =
     (if dns_ptAssoc s \<noteq> None then (udp_unregisterPort (dns_ptAssoc s) s)\<lparr>dns_ptAssoc := None\<rparr> else s)"

definition dns_init :: "'w rng_regs \<Rightarrow> ('d, 'w, 'z) dns_scheme \<Rightarrow> ('d, 'w, 'z) dns_scheme" where
  "dns_init r s =
     (case rng_get_value r (env s) of (v, w) \<Rightarrow>
        s\<lparr>env := w, dns_tState := DNS_STATE_Idle, us_dns_transaction_id_cnt := ucast v, dns_ptAssoc := None,
          dns_ulLastGoodPacket := 0, dns_uiRetryCnt := 0, pcHostName := NULL, ulHostIp := 0\<rparr>)"

definition dns_getState :: "('d, 'w, 'z) dns_scheme \<Rightarrow> DNS_STATE_T" where
  "dns_getState s = dns_tState s"

definition dns_fail :: "('d, 'w, 'z) dns_scheme \<Rightarrow> ('d, 'w, 'z) dns_scheme" where
  "dns_fail s = (dns_cleanup s)\<lparr>dns_tState := DNS_STATE_Error\<rparr>"

definition dns_request ::
    "'w stack_env \<Rightarrow> ptr \<Rightarrow> ('d, 'w, 'z) dns_scheme \<Rightarrow> (int \<times> ('d, 'w, 'z) dns_scheme) option" where
  "dns_request pf pcName s =
     (case udp_registerPort (ucast (MUS2NUS DNS_SRC_PORT)) (ulDnsIp (eth_options s)) (ucast (MUS2NUS DNS_DST_PORT))
         dns_rec NULL (s\<lparr>pcHostName := pcName\<rparr>) of (ptAssoc, s) \<Rightarrow>
      let s = s\<lparr>dns_ptAssoc := ptAssoc\<rparr> in
      if ptAssoc = None then Some (-1, s)
      else
        do {
          (iResult, s) \<leftarrow> dns_send_query_packet pf (s\<lparr>us_dns_transaction_id_cnt := us_dns_transaction_id_cnt s + 1\<rparr>);
          if iResult = 0 then
            case get_ms pf (s\<lparr>dns_tState := DNS_STATE_Request\<rparr>) of (t, s) \<Rightarrow>
              Some (iResult, s\<lparr>dns_ulLastGoodPacket := t, dns_uiRetryCnt := ucast (ucDnsRetries (eth_options s))\<rparr>)
          else Some (iResult, dns_fail s)
        })"

definition dns_get_result_ip :: "('d, 'w, 'z) dns_scheme \<Rightarrow> u32" where
  "dns_get_result_ip s = ulHostIp s"

definition dns_timer :: "'w stack_env \<Rightarrow> ('d, 'w, 'z) dns_scheme \<Rightarrow> ('d, 'w, 'z) dns_scheme option" where
  "dns_timer pf s =
     (case dns_tState s of
        DNS_STATE_Request \<Rightarrow>
          (case is_elapsed pf (dns_ulLastGoodPacket s) (ucast (usDnsTimeout (eth_options s))) s of (iRes, s) \<Rightarrow>
             if iRes \<noteq> 0 then
               if dns_uiRetryCnt s > 0 then
                 do {
                   (_, s) \<leftarrow> dns_send_query_packet pf s;
                   case get_ms pf s of (t, s) \<Rightarrow>
                     Some (s\<lparr>dns_ulLastGoodPacket := t, dns_uiRetryCnt := dns_uiRetryCnt s - 1\<rparr>)
                 }
               else Some (dns_fail s)
             else Some s)
      | _ \<Rightarrow> Some s)"


subsection \<open>Names in memory\<close>

text \<open>A host name is a list of labels; \<open>host_name\<close> is the string with dots, \<open>dotted\<close> has a dot behind every
  label and \<open>dns_name\<close> is the encoding of RFC 1035.\<close>

fun host_name :: "u8 list list \<Rightarrow> u8 list" where
  "host_name [] = []"
| "host_name [l] = l"
| "host_name (l # ls) = l @ 0x2e # host_name ls"

definition dotted :: "u8 list list \<Rightarrow> u8 list" where
  "dotted ls = concat (map (\<lambda>l. l @ [0x2e]) ls)"

definition dns_labels :: "u8 list list \<Rightarrow> u8 list" where
  "dns_labels ls = concat (map (\<lambda>l. of_nat (length l) # l) ls)"

definition dns_name :: "u8 list list \<Rightarrow> u8 list" where
  "dns_name ls = dns_labels ls @ [0]"

definition label_ok :: "u8 list \<Rightarrow> bool" where
  "label_ok l \<longleftrightarrow> 0 < length l \<and> length l < 64 \<and> 0 \<notin> set l \<and> 0x2e \<notin> set l"

lemma dotted_host_name: "ls \<noteq> [] \<Longrightarrow> dotted ls = host_name ls @ [0x2e]"
  by (induction ls rule: host_name.induct) (auto simp: dotted_def)

lemma dns_labels_simps [simp]:
  "dns_labels [] = []" "dns_labels (l # ls) = of_nat (length l) # l @ dns_labels ls"
  "dotted [] = []" "dotted (l # ls) = l @ 0x2e # dotted ls"
  by (simp_all add: dns_labels_def dotted_def)

lemma length_dns_labels: "length (dns_labels ls) = length (dotted ls)"
  by (induction ls) auto

lemma length_host_name: "ls \<noteq> [] \<Longrightarrow> length (dotted ls) = Suc (length (host_name ls))"
  by (simp add: dotted_host_name)

lemma label_ok_len: "label_ok l \<Longrightarrow> unat (of_nat (length l) :: u8) = length l"
  by (simp add: label_ok_def unat_of_nat)

lemma label_ok_byte:
  "label_ok l \<Longrightarrow> of_nat (length l) \<noteq> (0 :: u8)" "label_ok l \<Longrightarrow> (of_nat (length l) :: u8) < 0x40"
  using label_ok_len [of l] by (auto simp: label_ok_def word_less_nat_alt)

lemma ucast_eq_of_nat: "unat (b :: u8) = k \<Longrightarrow> ucast b = (of_nat k :: u32)"
  using unat_u8_less [of b] by (simp add: word_unat_eq_iff unat_of_nat del: unat_u8_less)

text \<open>A store in front of a range that is written.\<close>

lemma wrbytes_upd_before:
  assumes "length bs < 2 ^ 32"
  shows "(wrbytes m (c + 1) bs)(c := x) = wrbytes (m(c := x)) (c + 1) bs"
proof (rule ext)
  fix y
  have n: "\<not> in_range c (c + 1) (length bs)"
    using assms unsigned_minus_1_eq_mask [where 'a = nat and 'b = 32] by (simp add: in_range_def mask_eq_exp_minus_1)
  show "((wrbytes m (c + 1) bs)(c := x)) y = wrbytes (m(c := x)) (c + 1) bs y"
  proof (cases "in_range y (c + 1) (length bs)")
    case True
    then obtain i where "i < length bs" "y = c + 1 + of_nat i" using in_rangeD by blast
    moreover have "y \<noteq> c" using True n by auto
    ultimately show ?thesis using assms wrbytes_inside [of i bs _ "c + 1"] by simp
  qed (simp add: wrbytes_not_in_range)
qed

lemma unat_add_len: "unat a + k < 4294967296 \<Longrightarrow> unat (a + of_nat k :: u32) = unat a + k"
  by (simp add: unat_word_ariths unat_of_nat)

subsection \<open>Writing a name\<close>

lemma convert_loop_dot:
  "m n = 0x2e \<Longrightarrow> convert_loop m q c n = convert_loop (m(c := ucast (q - c - 1))) (q + 1) q (n + 1)"
  by (subst convert_loop.simps) simp

lemma convert_loop_end: "m n = 0 \<Longrightarrow> convert_loop m q c n = Some (q, m(c := ucast (q - c - 1)))"
  by (subst convert_loop.simps) simp

lemma convert_chars:
  assumes "rdbytes m n (length l) = l" and "0 \<notin> set l" and "0x2e \<notin> set l" and "ranges_disjoint n (length l) q (length l)"
  shows "convert_loop m q c n = convert_loop (wrbytes m q l) (q + of_nat (length l)) c (n + of_nat (length l))"
  using assms
proof (induction l arbitrary: m q n)
  case (Cons b l)
  have d: "ranges_disjoint (n + of_nat 1) (length l) (q + of_nat 0) 1" "ranges_disjoint (n + of_nat 1) (length l) (q + of_nat 1) (length l)"
    by (rule ranges_disjoint_sub [OF Cons.prems(4)], simp, simp)+
  have b: "m n = b" "rdbytes m (n + 1) (length l) = l" using Cons.prems(1) by simp_all
  have h: "rdbytes (m(q := b)) (n + 1) (length l) = l"
    using b(2) d(1) rdbytes_wrbytes_disjoint [of "n + 1" "length l" q "[b]" m] by simp
  have "convert_loop (m(q := b)) (q + 1) c (n + 1) = convert_loop (wrbytes (m(q := b)) (q + 1) l)
      (q + 1 + of_nat (length l)) c (n + 1 + of_nat (length l))"
    using Cons.IH [OF h _ _ d(2) [unfolded of_nat_1]] Cons.prems(2,3) by (simp add: fun_upd_def)
  moreover have "convert_loop m q c n = convert_loop (m(q := b)) (q + 1) c (n + 1)"
    using b(1) Cons.prems(2,3) by (subst convert_loop.simps) (auto simp: Let_def)
  ultimately show ?case by (simp add: add.assoc)
qed simp

lemma ucast_of_nat_u8: "(ucast (of_nat k :: u32) :: u8) = of_nat k"
  by (simp add: word_unat_eq_iff unsigned_ucast_eq unat_of_nat take_bit_eq_mod mod_mod_cancel)

text \<open>One label with its length byte, up to the dot or the end of the string.\<close>

lemma convert_label:
  assumes "label_ok l" and "rdbytes m n (Suc (length l)) = l @ [x]" and "ranges_disjoint n (Suc (length l)) c (Suc (length l))"
  defines "m' \<equiv> wrbytes m c (of_nat (length l) # l)" and "c' \<equiv> c + of_nat (Suc (length l))"
  shows "x = 0x2e \<Longrightarrow> convert_loop m (c + 1) c n = convert_loop m' (c' + 1) c' (n + of_nat (Suc (length l)))"
    and "x = 0 \<Longrightarrow> convert_loop m (c + 1) c n = Some (c', m')"
proof -
  have l: "length l < 64" "0 \<notin> set l" "0x2e \<notin> set l" using assms(1) by (simp_all add: label_ok_def)
  have r: "rdbytes m n (length l) = l" "m (n + of_nat (length l)) = x"
    using assms(2) rdbytes_add [of m n "length l" 1] by simp_all
  have d: "ranges_disjoint (n + of_nat 0) (length l) (c + of_nat 1) (length l)"
    "ranges_disjoint (n + of_nat (length l)) 1 (c + of_nat 1) (length l)"
    by (rule ranges_disjoint_sub [OF assms(3)], simp, simp)+
  let ?m = "wrbytes m (c + 1) l"
  have "rdbytes ?m (n + of_nat (length l)) 1 = rdbytes m (n + of_nat (length l)) 1"
    using d(2) by (intro rdbytes_wrbytes_disjoint) simp
  then have x: "?m (n + of_nat (length l)) = x" using r(2) by simp
  have chars: "convert_loop m (c + 1) c n = convert_loop ?m (c + 1 + of_nat (length l)) c (n + of_nat (length l))"
    using r(1) l d(1) by (intro convert_chars) simp_all
  have up: "?m(c := of_nat (length l)) = m'"
    using wrbytes_upd_before [of l m c "of_nat (length l)"] l(1) by (simp add: m'_def)
  have "c' - c - 1 = of_nat (length l)" by (simp add: c'_def)
  then have b: "ucast (c' - c - 1) = (of_nat (length l) :: u8)" by (simp only: ucast_of_nat_u8)
  have e: "c + 1 + of_nat (length l) = c'" "n + of_nat (length l) + 1 = n + of_nat (Suc (length l))"
    by (simp_all add: c'_def add.assoc)
  show "convert_loop m (c + 1) c n = convert_loop m' (c' + 1) c' (n + of_nat (Suc (length l)))" if "x = 0x2e"
    using convert_loop_dot [of ?m "n + of_nat (length l)" "c + 1 + of_nat (length l)" c, OF x [unfolded that]] unfolding chars e b up .
  show "convert_loop m (c + 1) c n = Some (c', m')" if "x = 0"
    using convert_loop_end [of ?m "n + of_nat (length l)" "c + 1 + of_nat (length l)" c, OF x [unfolded that]] unfolding chars e b up .
qed

lemma convert_labels:
  assumes "ls \<noteq> []" and "list_all label_ok ls" and "rdbytes m n (Suc (length (host_name ls))) = host_name ls @ [0]"
    and "ranges_disjoint n (Suc (length (host_name ls))) c (length (dns_labels ls))"
  shows "convert_loop m (c + 1) c n = Some (c + of_nat (length (dns_labels ls)), wrbytes m c (dns_labels ls))"
  using assms
proof (induction ls arbitrary: m c n rule: host_name.induct)
  case (2 l)
  then show ?case using convert_label [of l m n 0 c] by simp
next
  case (3 l l2 ls)
  let ?h = "host_name (l2 # ls)" and ?e = "of_nat (length l) # l" and ?k = "of_nat (Suc (length l)) :: u32"
  have len: "length (dns_labels (l # l2 # ls)) = Suc (length l) + length (dns_labels (l2 # ls))"
    "length (dns_labels (l2 # ls)) = Suc (length ?h)"
    using length_host_name [of "l2 # ls"] by (simp_all add: length_dns_labels)
  have s: "rdbytes m n (length ((l @ [0x2e]) @ (?h @ [0]))) = (l @ [0x2e]) @ (?h @ [0])" using "3.prems"(3) by simp
  have r: "rdbytes m n (Suc (length l)) = l @ [0x2e]" "rdbytes m (n + ?k) (Suc (length ?h)) = ?h @ [0]"
    using rdbytes_append_eq [OF s] by simp_all
  have d: "ranges_disjoint (n + of_nat 0) (Suc (length l)) (c + of_nat 0) (Suc (length l))"
    "ranges_disjoint (n + ?k) (Suc (length ?h)) (c + of_nat 0) (Suc (length l))"
    "ranges_disjoint (n + ?k) (Suc (length ?h)) (c + ?k) (length (dns_labels (l2 # ls)))"
    by (rule ranges_disjoint_sub [OF "3.prems"(4) [unfolded len(1)]], simp, simp)+
  let ?m = "wrbytes m c ?e"
  have r': "rdbytes ?m (n + ?k) (Suc (length ?h)) = ?h @ [0]"
    using r(2) d(2) by (subst rdbytes_wrbytes_disjoint) simp_all
  have "convert_loop ?m (c + ?k + 1) (c + ?k) (n + ?k) =
      Some (c + ?k + of_nat (length (dns_labels (l2 # ls))), wrbytes ?m (c + ?k) (dns_labels (l2 # ls)))"
    using "3.prems"(2) r' d(3) by (intro "3.IH") simp_all
  moreover have "convert_loop m (c + 1) c n = convert_loop ?m (c + ?k + 1) (c + ?k) (n + ?k)"
    using convert_label [of l m n "0x2e" c] r(1) d(1) "3.prems"(2) by simp
  moreover have "wrbytes ?m (c + ?k) (dns_labels (l2 # ls)) = wrbytes m c (dns_labels (l # l2 # ls))"
    using wrbytes_append [of m c ?e "dns_labels (l2 # ls)"] by simp
  ultimately show ?case unfolding len(1) by (simp only: of_nat_add add.assoc)
qed simp

lemma convert_hostname:
  assumes "ls \<noteq> []" and "list_all label_ok ls" and "rdbytes m n (Suc (length (host_name ls))) = host_name ls @ [0]"
    and "ranges_disjoint n (Suc (length (host_name ls))) q (length (dns_labels ls))"
  shows "convert_hostname_to_dns m q n = Some (q + of_nat (length (dns_name ls)), wrbytes m q (dns_name ls))"
  using convert_labels [OF assms] wrbytes_append [of m q "dns_labels ls" "[0]"]
  by (simp add: convert_hostname_to_dns_def dns_name_def add.assoc add.commute)

subsection \<open>Reading a name\<close>

text \<open>The first label of a name in memory and the position behind it.\<close>

lemma dns_name_Cons:
  assumes "label_ok l" and "rdbytes m q (length (dns_name (l # ls))) = dns_name (l # ls)"
    and "unat q + length (dns_name (l # ls)) \<le> unat (e :: u32)"
  defines "q' \<equiv> q + 1 + ucast (m q)"
  shows "m q = of_nat (length l)" "rdbytes m (q + 1) (length l) = l" "rdbytes m q' (length (dns_name ls)) = dns_name ls"
    "q' = q + of_nat (Suc (length l))" "unat q' + length (dns_name ls) \<le> unat e" "q' < e" "q' \<noteq> NULL"
    "q' + of_nat (length (dns_name ls)) = q + of_nat (length (dns_name (l # ls)))"
proof -
  have b: "rdbytes m q (length ((of_nat (length l) # l) @ dns_name ls)) = (of_nat (length l) # l) @ dns_name ls"
    using assms(2) by (simp add: dns_name_def)
  show h: "m q = of_nat (length l)" "rdbytes m (q + 1) (length l) = l" using rdbytes_append_eq [OF b] by simp_all
  have "unat (m q) = length l" using h(1) label_ok_len [OF assms(1)] by simp
  then have u: "ucast (m q) = (of_nat (length l) :: u32)" by (rule ucast_eq_of_nat)
  show q': "q' = q + of_nat (Suc (length l))" by (simp add: q'_def u add.assoc)
  show "rdbytes m q' (length (dns_name ls)) = dns_name ls" using rdbytes_append_eq [OF b] by (simp add: q')
  have len: "length (dns_name (l # ls)) = Suc (length l) + length (dns_name ls)" by (simp add: dns_name_def)
  have n: "unat q' = unat q + Suc (length l)"
    unfolding q' using assms(3) len unat_u32_less [of e] by (intro unat_add_len) linarith
  show r: "unat q' + length (dns_name ls) \<le> unat e" using assms(3) len n by linarith
  have "0 < length (dns_name ls)" by (simp add: dns_name_def)
  then have "unat q' < unat e" using r by linarith
  then show "q' < e" by (simp add: word_less_nat_alt)
  show "q' \<noteq> NULL" using n by (metis Suc_neq_Zero add_is_0 unat_0)
  show "q' + of_nat (length (dns_name ls)) = q + of_nat (length (dns_name (l # ls)))"
    unfolding len q' by (simp only: of_nat_add add.assoc)
qed

lemma skip_loop_name:
  assumes "list_all label_ok ls" and "rdbytes m q (length (dns_name ls)) = dns_name ls"
    and "unat q + length (dns_name ls) \<le> unat e"
  shows "skip_loop m q e = Some (q + of_nat (length (dns_name ls)))"
  using assms
proof (induction ls arbitrary: q)
  case Nil
  then show ?case by (subst skip_loop.simps) (simp add: dns_name_def Let_def)
next
  case (Cons l ls)
  have ok: "label_ok l" using Cons.prems(1) by simp
  note n = dns_name_Cons [OF ok Cons.prems(2,3)]
  have "skip_loop m q e = skip_loop m (q + 1 + ucast (m q)) e"
    using n(6) label_ok_byte(1) [OF ok] by (subst skip_loop.simps) (simp add: Let_def n(1))
  also have "\<dots> = Some (q + 1 + ucast (m q) + of_nat (length (dns_name ls)))"
    using Cons.prems(1) n(3,5) by (intro Cons.IH) simp_all
  finally show ?case unfolding n(8) .
qed

lemma unpack_end:
  "m q = 0 \<Longrightarrow> unpack_entry_recursive q st e buf m = Some (if q + 1 \<ge> e then NULL else q + 1, buf, m)"
  by (subst unpack_entry_recursive.simps) simp

lemma unpack_label:
  assumes "label_ok l" and "m q = of_nat (length l)" and "rdbytes m (q + 1) (length l) = l"
    and "q + 1 + ucast (m q) \<noteq> NULL" and "q + 1 + ucast (m q) < e"
  shows "unpack_entry_recursive q st e buf m = unpack_entry_recursive (q + 1 + ucast (m q)) st e
    (buf + of_nat (Suc (length l))) (wrbytes m buf (l @ [0x2e]))"
proof -
  have u: "unat (m q) = length l" using assms(2) label_ok_len [OF assms(1)] by simp
  then have c: "ucast (m q) = (of_nat (length l) :: u32)" by (rule ucast_eq_of_nat)
  have b: "m q \<noteq> 0" "m q < 0x40" using label_ok_byte [OF assms(1)] assms(2) by simp_all
  have w: "(memcpy m buf (q + 1) (unat (m q)))(buf + ucast (m q) := 0x2e) = wrbytes m buf (l @ [0x2e])"
    by (simp add: memcpy_def u c assms(3) wrbytes_append)
  have "unpack_entry_recursive q st e buf m = unpack_entry_recursive (q + 1 + ucast (m q)) st e
      (buf + ucast (m q) + 1) ((memcpy m buf (q + 1) (unat (m q)))(buf + ucast (m q) := 0x2e))"
    using b assms(4,5) by (subst unpack_entry_recursive.simps) (simp add: Let_def)
  then show ?thesis unfolding w by (simp add: c ac_simps)
qed

lemma unpack_name:
  assumes "list_all label_ok ls" and "rdbytes m q (length (dns_name ls)) = dns_name ls"
    and "unat q + length (dns_name ls) \<le> unat e" and "ranges_disjoint q (length (dns_name ls)) buf (length (dotted ls))"
  defines "q' \<equiv> q + of_nat (length (dns_name ls))"
  shows "unpack_entry_recursive q st e buf m =
    Some (if q' \<ge> e then NULL else q', buf + of_nat (length (dotted ls)), wrbytes m buf (dotted ls))"
  using assms(1-4) unfolding q'_def
proof (induction ls arbitrary: q buf m)
  case Nil
  then show ?case using unpack_end [of m q st e buf] by (simp add: dns_name_def)
next
  case (Cons l ls)
  have ok: "label_ok l" using Cons.prems(1) by simp
  note n = dns_name_Cons [OF ok Cons.prems(2,3)]
  let ?q = "q + 1 + ucast (m q)" and ?buf = "buf + of_nat (Suc (length l))" and ?m = "wrbytes m buf (l @ [0x2e])"
  have len: "length (dns_name (l # ls)) = Suc (length l) + length (dns_name ls)"
    "length (dotted (l # ls)) = Suc (length l) + length (dotted ls)" by (simp_all add: dns_name_def)
  have d: "ranges_disjoint ?q (length (dns_name ls)) (buf + of_nat 0) (length (l @ [0x2e]))"
    "ranges_disjoint ?q (length (dns_name ls)) ?buf (length (dotted ls))"
    unfolding n(4) by (rule ranges_disjoint_sub [OF Cons.prems(4) [unfolded len]], simp, simp)+
  have "rdbytes ?m ?q (length (dns_name ls)) = dns_name ls"
    using n(3) d(1) rdbytes_wrbytes_disjoint [of ?q "length (dns_name ls)" buf "l @ [0x2e]" m] by simp
  then have "unpack_entry_recursive ?q st e ?buf ?m = Some (if ?q + of_nat (length (dns_name ls)) \<ge> e then NULL
      else ?q + of_nat (length (dns_name ls)), ?buf + of_nat (length (dotted ls)), wrbytes ?m ?buf (dotted ls))"
    using Cons.prems(1) n(5) d(2) by (intro Cons.IH) simp_all
  then show ?case unfolding unpack_label [OF ok n(1,2,7,6)] n(8) len(2)
    using wrbytes_append [of m buf "l @ [0x2e]" "dotted ls"] by (simp add: add.assoc)
qed

text \<open>A compression pointer to a name.\<close>

lemma unpack_pointer:
  assumes "m q \<ge> 0xc0" and "unpack_entry_recursive (st + ucast (m (q + 1))) st e buf m = Some (x, b, m')" and "x \<noteq> NULL"
  shows "unpack_entry_recursive q st e buf m = Some (if q + 2 \<ge> e then NULL else q + 2, b, m')"
proof -
  have "\<not> m q < 0xc0" "\<not> m q < 0x40" "m q \<noteq> 0" using assms(1) by (auto simp: word_less_nat_alt word_le_nat_alt)
  then show ?thesis using assms(2,3) by (subst unpack_entry_recursive.simps) (simp add: Let_def add.commute)
qed

subsection \<open>An answer\<close>

text \<open>An address record in network order without its name: type A, class IN, a time to live and the address.\<close>

definition dns_a_record :: "u8 list \<Rightarrow> u8 list \<Rightarrow> u8 list" where
  "dns_a_record ttl ip = [0, 1, 0, 1] @ ttl @ [0, 4] @ ip"

text \<open>The record of the host name: the comparison succeeds and the address is taken.\<close>

lemma parse_answer_A:
  assumes un: "unpack_entry_recursive q st e (dns_aucHostNameBuffer s) (mem s) =
      Some (q', dns_aucHostNameBuffer s + of_nat (length (dotted ls)), wrbytes (mem s) (dns_aucHostNameBuffer s) (dotted ls))"
    and "q' \<noteq> NULL" and "ls \<noteq> []" and "length (dotted ls) \<le> 64"
    and rec: "rdbytes (mem s) q' 14 = dns_a_record [t0, t1, t2, t3] [a, b, c, d]"
    and host: "rdbytes (mem s) (pcHostName s) (length (dotted ls)) = host_name ls @ [0]"
    and dr: "ranges_disjoint q' 14 (dns_aucHostNameBuffer s) 64"
    and dh: "ranges_disjoint (pcHostName s) (length (dotted ls)) (dns_aucHostNameBuffer s) 64"
  shows "parse_answer q st e s = Some (q' + 14, s\<lparr>mem := wrbytes (mem s) (dns_aucHostNameBuffer s) (host_name ls @ [0]),
    pucBuffer := dns_aucHostNameBuffer s + of_nat (length (dotted ls)), ulHostIp := IP_ADR a b c d\<rparr>)"
proof -
  let ?buf = "dns_aucHostNameBuffer s" and ?n = "length (dotted ls)"
  let ?m = "wrbytes (mem s) ?buf (host_name ls @ [0])"
  have n: "0 < ?n" "?n = Suc (length (host_name ls))" using assms(3) by (simp_all add: length_host_name)
  have un_n: "unat (of_nat ?n :: u32) = ?n" using assms(4) by (simp add: unat_of_nat)
  have nz: "(of_nat ?n :: u32) \<noteq> 0" using un_n n(1) by (metis less_numeral_extra(3) unat_0)
  have "wrbytes (mem s) ?buf (dotted ls) = wrbytes (wrbytes (mem s) ?buf (host_name ls)) (?buf + of_nat (length (host_name ls))) [0x2e]"
    by (simp only: dotted_host_name [OF assms(3)] wrbytes_append)
  then have m: "(wrbytes (mem s) ?buf (dotted ls))(?buf + (of_nat ?n - 1) := 0) = ?m"
    using n(2) by (simp add: wrbytes_append)
  have r: "rdbytes ?m q' 14 = dns_a_record [t0, t1, t2, t3] [a, b, c, d]"
    using rec rdbytes_wrbytes_disjoint [of q' 14 ?buf "host_name ls @ [0]" "mem s"] n assms(4)
      ranges_disjoint_sub [OF dr, of 0 14 0 ?n] by simp
  have cmp: "rdbytes ?m ?buf ?n = rdbytes ?m (pcHostName s) ?n"
  proof -
    have "rdbytes ?m (pcHostName s) ?n = host_name ls @ [0]"
      using host rdbytes_wrbytes_disjoint [of "pcHostName s" ?n ?buf "host_name ls @ [0]" "mem s"] n assms(4)
        ranges_disjoint_sub [OF dh, of 0 ?n 0 ?n] by simp
    moreover have "rdbytes ?m ?buf (length (host_name ls @ [0])) = host_name ls @ [0]"
      using n assms(4) by (intro rdbytes_wrbytes) simp
    ultimately show ?thesis using n(2) by simp
  qed
  have bytes: "?m q' = 0" "?m (q' + 1) = 1" "?m (q' + 2) = 0" "?m (q' + 3) = 1" "?m (q' + 8) = 0" "?m (q' + 9) = 4"
    "?m (q' + 10) = a" "?m (q' + 11) = b" "?m (q' + 12) = c" "?m (q' + 13) = d"
    using r by (simp_all add: dns_a_record_def rdbytes_numeral add.assoc)
  have f: "rd16 ?m q' = MUS2NUS DNS_QUERY_TYPE_A" "rd16 ?m (q' + 2) = MUS2NUS DNS_QUERY_CLASS_IN"
    "(ucast (MUS2NUS (ucast (rd16 ?m (q' + 8)))) :: u32) = 4"
    using bytes by (simp_all add: rd16_def dns_const_defs MUS2NUS_def add.assoc)
  show ?thesis unfolding parse_answer_def un
    using assms(2) nz cmp f bytes by (simp add: Let_def un_n m sizeof_DNS_ANSWER_T_def add.assoc)
qed

text \<open>The questions and answers of a response with \<open>n\<close> bytes in the frame at \<open>p\<close>: the question for the host name
  and one address record, whose name is the host name again or a pointer to the one in the question. The
  host name is the string at \<open>host\<close>, and the buffer at \<open>buf\<close> does not overlap the packet and the string.\<close>

definition dns_response ::
    "memory \<Rightarrow> ptr \<Rightarrow> u32 \<Rightarrow> ptr \<Rightarrow> ptr \<Rightarrow> u8 list list \<Rightarrow> u8 list \<Rightarrow> u8 list \<Rightarrow> u8 list \<Rightarrow> bool" where
  "dns_response m p n host buf ls nm ttl ip \<longleftrightarrow>
     ls \<noteq> [] \<and> list_all label_ok ls \<and> length (dotted ls) \<le> 64 \<and> (nm = dns_name ls \<or> nm = [0xc0, 12]) \<and>
     length ttl = 4 \<and> length ip = 4 \<and>
     (let q = dns_name ls @ [0, 1, 0, 1] @ nm @ dns_a_record ttl ip in
      rdbytes m (dns_queries p) (length q) = q \<and> 12 + length q \<le> unat n \<and> unat (uUdpData p) + unat n < 4294967296 \<and>
      ranges_disjoint (dns_queries p) (length q) buf 64) \<and>
     rdbytes m host (length (dotted ls)) = host_name ls @ [0] \<and> ranges_disjoint host (length (dotted ls)) buf 64"

lemma unat_mono_add: "unat (a :: u32) + k \<le> unat (b :: u32) \<Longrightarrow> unat (a + of_nat k) = unat a + k"
  using unat_u32_less [of b] by (intro unat_add_len) (simp del: unat_u32_less)

lemma question_answer_bytes:
  assumes "rdbytes m q (length (qn @ [0, 1, 0, 1] @ nm @ r)) = qn @ [0, 1, 0, 1] @ nm @ r"
  shows "rdbytes m q (length qn) = qn" "rdbytes m (q + of_nat (length qn + 4)) (length nm) = nm"
    "rdbytes m (q + of_nat (length qn + 4 + length nm)) (length r) = r"
proof -
  note parts = rdbytes_append_eq [OF assms]
  show "rdbytes m q (length qn) = qn" using parts by simp
  have "rdbytes m (q + of_nat (length qn)) (length ([0, 1, 0, 1] @ nm @ r)) = [0, 1, 0, 1] @ nm @ r" using parts by simp
  from rdbytes_append_eq [OF this]
  have "rdbytes m (q + of_nat (length qn + 4)) (length (nm @ r)) = nm @ r" by (simp add: add.assoc)
  note tail = rdbytes_append_eq [OF this]
  show "rdbytes m (q + of_nat (length qn + 4)) (length nm) = nm"
    "rdbytes m (q + of_nat (length qn + 4 + length nm)) (length r) = r" using tail by (simp_all add: add.assoc)
qed

text \<open>The name of the answer, in full or as a pointer, unpacks to the name of the question.\<close>

lemma unpack_answer_name:
  fixes q st e :: ptr
  assumes ls: "list_all label_ok ls" and name: "rdbytes m q (length (dns_name ls)) = dns_name ls" and q: "q = st + 12"
    and nm: "nm = dns_name ls \<or> nm = [0xc0, 12]"
    and nmb: "rdbytes m (q + of_nat (length (dns_name ls) + 4)) (length nm) = nm"
    and room: "unat q + (length (dns_name ls) + 4 + length nm) < unat e"
    and disj: "ranges_disjoint q (length (dns_name ls) + 4 + length nm) buf (length (dotted ls))"
  shows "unpack_entry_recursive (q + of_nat (length (dns_name ls) + 4)) st e buf m =
    Some (q + of_nat (length (dns_name ls) + 4 + length nm), buf + of_nat (length (dotted ls)), wrbytes m buf (dotted ls))"
  using nm
proof
  let ?N = "length (dns_name ls)"
  let ?a = "q + of_nat (?N + 4)" and ?r = "q + of_nat (?N + 4 + length nm)"
  have pos: "unat ?a = unat q + (?N + 4)" "unat ?r = unat q + (?N + 4 + length nm)" "unat (q + of_nat ?N) = unat q + ?N"
    using room by (intro unat_mono_add [of _ _ e]; linarith)+
  then have lt: "?r < e" "q + of_nat ?N < e" using room by (simp_all add: word_less_nat_alt)
  {
    assume nm: "nm = dns_name ls"
    have "ranges_disjoint ?a ?N buf (length (dotted ls))"
      using ranges_disjoint_sub [OF disj, of "?N + 4" ?N 0 "length (dotted ls)"] nm by simp
    from unpack_name [OF ls _ _ this, of m e st] show ?thesis
      using nmb nm pos(1) room lt(1) by (simp add: linorder_not_less [symmetric] add.assoc)
  next
    assume nm: "nm = [0xc0, 12]"
    have b: "m ?a = 0xc0" "m (?a + 1) = 12" using nmb nm by simp_all
    have r: "?a + 2 = ?r" and st: "st + ucast (m (?a + 1)) = q" using nm b(2) q by (simp_all add: add.assoc)
    have "ranges_disjoint q ?N buf (length (dotted ls))"
      using ranges_disjoint_sub [OF disj, of 0 ?N 0 "length (dotted ls)"] by simp
    from unpack_name [OF ls name _ this, of e st] have "unpack_entry_recursive q st e buf m =
        Some (q + of_nat ?N, buf + of_nat (length (dotted ls)), wrbytes m buf (dotted ls))"
      using room lt(2) by (simp add: linorder_not_less [symmetric])
    moreover have "q + of_nat ?N \<noteq> NULL" using pos(3) by (auto simp: dns_name_def dest!: arg_cong [of _ _ unat])
    ultimately show ?thesis using unpack_pointer [of m ?a st e buf] st lt(1) b(1) unfolding r by (simp add: linorder_not_less [symmetric])
  }
qed

lemma dns_search_finds:
  assumes resp: "dns_response (mem s) p n (pcHostName s) (dns_aucHostNameBuffer s) ls nm [t0, t1, t2, t3] [a, b, c, d]"
    and "IP_ADR a b c d \<noteq> 0"
  shows "dns_search p n s = Some (s\<lparr>mem := wrbytes (mem s) (dns_aucHostNameBuffer s) (host_name ls @ [0]),
    pucBuffer := dns_aucHostNameBuffer s + of_nat (length (dotted ls)), ulHostIp := IP_ADR a b c d,
    dns_tState := DNS_STATE_Ok\<rparr>)"
proof -
  let ?q = "p + 54" and ?e = "p + 42 + n" and ?buf = "dns_aucHostNameBuffer s" and ?m = "mem s"
  let ?N = "length (dns_name ls)" and ?rec = "dns_a_record [t0, t1, t2, t3] [a, b, c, d]"
  let ?a = "?q + of_nat (?N + 4)" and ?r = "?q + of_nat (?N + 4 + length nm)"
  have ls: "ls \<noteq> []" "list_all label_ok ls" "length (dotted ls) \<le> 64" and nm: "nm = dns_name ls \<or> nm = [0xc0, 12]"
    and host: "rdbytes ?m (pcHostName s) (length (dotted ls)) = host_name ls @ [0]" "ranges_disjoint (pcHostName s) (length (dotted ls)) ?buf 64"
    using resp by (simp_all add: dns_response_def)
  have rl: "length ?rec = 14" by (simp add: dns_a_record_def)
  have all: "rdbytes ?m ?q (length (dns_name ls @ [0, 1, 0, 1] @ nm @ ?rec)) = dns_name ls @ [0, 1, 0, 1] @ nm @ ?rec"
    "12 + (?N + 4 + length nm + 14) \<le> unat n" "unat (p + 42) + unat n < 4294967296"
    "ranges_disjoint ?q (?N + 4 + length nm + 14) ?buf 64"
    using resp by (simp_all add: dns_response_def Let_def rl add.commute add.left_commute)
  note bytes = question_answer_bytes [OF all(1)]
  have un: "unat ?e = unat (p + 42) + unat n" using all(3) by (rule unat_add_small)
  then have "unat ?q = unat (p + 42) + 12" using unat_mono_add [of "p + 42" 12 ?e] all(2) by (simp add: add.commute)
  then have room: "unat ?q + (?N + 4 + length nm + 14) \<le> unat ?e" using un all(2) by linarith
  have pos: "unat ?a = unat ?q + (?N + 4)" "unat ?r = unat ?q + (?N + 4 + length nm)"
    using room by (intro unat_mono_add [of _ _ ?e]; linarith)+
  then have lt: "?a < ?e" and nz: "?a \<noteq> NULL" "?r \<noteq> NULL"
    using room by (auto simp: word_less_nat_alt simp del: of_nat_add dest!: arg_cong [of _ _ unat])
  have skip: "skip_query ?m ?q ?e = Some ?a"
    using skip_loop_name [OF ls(2) bytes(1), of ?e] room lt by (simp add: skip_query_def Let_def linorder_not_less [symmetric] add.assoc)
  have d: "ranges_disjoint ?q (?N + 4 + length nm) ?buf (length (dotted ls))" "ranges_disjoint ?r 14 ?buf 64"
    using ranges_disjoint_sub [OF all(4), of 0 "?N + 4 + length nm" 0 "length (dotted ls)"]
      ranges_disjoint_sub [OF all(4), of "?N + 4 + length nm" 14 0 64] ls(3) by simp_all
  have up: "unpack_entry_recursive ?a (p + 42) ?e ?buf ?m =
      Some (?r, ?buf + of_nat (length (dotted ls)), wrbytes ?m ?buf (dotted ls))"
    using unpack_answer_name [OF ls(2) bytes(1) _ nm bytes(2) _ d(1), of "p + 42" ?e] room by simp
  from parse_answer_A [of ?a "p + 42" ?e "s\<lparr>ulHostIp := 0\<rparr>" ?r ls] up nz(2) ls bytes(3) [unfolded rl] host d(2)
  have "parse_answer ?a (p + 42) ?e (s\<lparr>ulHostIp := 0\<rparr>) = Some (?r + 14, s\<lparr>mem := wrbytes ?m ?buf (host_name ls @ [0]),
      pucBuffer := ?buf + of_nat (length (dotted ls)), ulHostIp := IP_ADR a b c d\<rparr>)" by simp
  then have "dns_answers ?a (p + 42) ?e (s\<lparr>ulHostIp := 0\<rparr>) = Some (s\<lparr>mem := wrbytes ?m ?buf (host_name ls @ [0]),
      pucBuffer := ?buf + of_nat (length (dotted ls)), ulHostIp := IP_ADR a b c d\<rparr>)"
    using assms(2) by (subst dns_answers.simps) simp
  then show ?thesis using skip nz(1) assms(2) by (simp add: dns_search_def Let_def)
qed

subsection \<open>The states of the client\<close>

text \<open>A packet changes the memory, the result and the state, and never the port table.\<close>

definition dns_keeps :: "('d, 'w, 'z) dns_scheme \<Rightarrow> ('d, 'w, 'z) dns_scheme \<Rightarrow> bool" where
  "dns_keeps s s' \<longleftrightarrow> (\<exists>m b h. s' = s\<lparr>mem := m, pucBuffer := b, ulHostIp := h\<rparr>)"

lemma dns_keeps_refl: "dns_keeps s s"
  unfolding dns_keeps_def by (rule exI [of _ "mem s"], rule exI [of _ "pucBuffer s"], rule exI [of _ "ulHostIp s"]) simp

lemma dns_keeps_trans: "dns_keeps s s' \<Longrightarrow> dns_keeps s' s'' \<Longrightarrow> dns_keeps s s''"
  unfolding dns_keeps_def by (elim exE, hypsubst, intro exI, simp)

lemma dns_keeps_upd [simp]:
  "dns_keeps s (s'\<lparr>mem := m\<rparr>) \<longleftrightarrow> dns_keeps s s'" "dns_keeps s (s'\<lparr>pucBuffer := b\<rparr>) \<longleftrightarrow> dns_keeps s s'"
  "dns_keeps s (s'\<lparr>ulHostIp := h\<rparr>) \<longleftrightarrow> dns_keeps s s'" "dns_keeps (s\<lparr>ulHostIp := h\<rparr>) s' \<longleftrightarrow> dns_keeps s s'"
  by (cases s; cases s'; simp add: dns_keeps_def)+

lemma parse_answer_keeps: "parse_answer q st e s = Some (q', s') \<Longrightarrow> dns_keeps s s'"
  by (auto simp: parse_answer_def Let_def Option.bind_eq_Some_conv dns_keeps_refl split: if_splits)

lemma dns_answers_keeps:
  fixes s :: "('d, 'w, 'z) dns_scheme"
  shows "dns_answers q st e s = Some s' \<Longrightarrow> dns_keeps s s'"
proof (rule dns_answers.raw_induct [where P = "\<lambda>q st e s s'. dns_keeps s s'"])
  fix f :: "ptr \<Rightarrow> ptr \<Rightarrow> ptr \<Rightarrow> ('d, 'w, 'z) dns_scheme \<Rightarrow> ('d, 'w, 'z) dns_scheme option" and q st e s s'
  assume IH: "\<And>q st e s s'. f q st e s = Some s' \<Longrightarrow> dns_keeps s s'"
    and "Option.bind (parse_answer q st e s) (\<lambda>(q, s). if ulHostIp s = 0 \<and> q \<noteq> NULL then f q st e s else Some s) = Some s'"
  then show "dns_keeps s s'"
    by (auto simp: Option.bind_eq_Some_conv dest!: parse_answer_keeps IH intro: dns_keeps_trans split: if_splits)
qed

lemma dns_keeps_fields:
  "dns_keeps s s' \<Longrightarrow> atUdpPortAssoc s' = atUdpPortAssoc s \<and> dns_ptAssoc s' = dns_ptAssoc s \<and>
     dns_tState s' = dns_tState s \<and> dhcp_tState s' = dhcp_tState s \<and> dhcp_ptAssoc s' = dhcp_ptAssoc s \<and>
     dns.more s' = dns.more s \<and> atPacketQueue s' = atPacketQueue s \<and> aui_arp_cache s' = aui_arp_cache s \<and>
     drv s' = drv s \<and> tNetworkIf s' = tNetworkIf s \<and> g_t_romloader_options s' = g_t_romloader_options s"
  by (auto simp: dns_keeps_def)

lemma dns_recHandler_cases:
  assumes "dns_recHandler p n s = Some s'"
  shows "s' = s \<or> dns_tState s = DNS_STATE_Request \<and>
    (\<exists>s1 st. dns_keeps s s1 \<and> s' = s1\<lparr>dns_tState := st\<rparr> \<and> st \<noteq> DNS_STATE_Idle)"
proof -
  define D where "D t \<longleftrightarrow> (\<exists>s1 st. dns_keeps s s1 \<and> t = s1\<lparr>dns_tState := st\<rparr> \<and> st \<noteq> DNS_STATE_Idle)" for t
  have D: "D (s1\<lparr>dns_tState := st\<rparr>)" if "dns_keeps s s1" "st \<noteq> DNS_STATE_Idle" for s1 st
    unfolding D_def by (rule exI [of _ s1], rule exI [of _ st]) (simp add: that)
  have srch: "D s' \<or> s' = s" if r: "dns_search p n s = Some s'"
  proof -
    obtain q where q: "skip_query (mem s) (dns_queries p) (uUdpData p + n) = Some q"
      using r by (auto simp: dns_search_def Let_def Option.bind_eq_Some_conv)
    show ?thesis
    proof (cases "q = NULL")
      case True
      then show ?thesis using r q by (simp add: dns_search_def Let_def)
    next
      case False
      then obtain s1 where s1: "dns_answers q (uUdpData p) (uUdpData p + n) (s\<lparr>ulHostIp := 0\<rparr>) = Some s1"
        using r q by (auto simp: dns_search_def Let_def Option.bind_eq_Some_conv)
      have k: "dns_keeps s s1" using dns_answers_keeps [OF s1] by simp
      show ?thesis using r q False s1 D [OF k] by (auto simp: dns_search_def Let_def)
    qed
  qed
  have k: "dns_keeps s s" by (rule dns_keeps_refl)
  show ?thesis unfolding D_def [symmetric]
    using assms srch D [OF k] unfolding dns_recHandler_def dns_rec_request_def Let_def
    by (auto split: if_splits DNS_STATE_T.splits)
qed

text \<open>The client has a port whenever it waits for an answer, and the port is its own. It keeps the port after an
  answer.\<close>

definition dns_conn_ok :: "UDP_ASSOCIATION_T list \<Rightarrow> DNS_STATE_T \<Rightarrow> nat option \<Rightarrow> bool" where
  "dns_conn_ok t st a \<longleftrightarrow> length t = UDP_PORTLIST_MAX \<and>
     (case a of None \<Rightarrow> st \<noteq> DNS_STATE_Request | Some i \<Rightarrow> st \<noteq> DNS_STATE_Idle \<and> owns t dns_rec i)"

definition dns_inv :: "('d, 'w, 'z) dns_scheme \<Rightarrow> bool" where
  "dns_inv s \<longleftrightarrow> dns_conn_ok (atUdpPortAssoc s) (dns_tState s) (dns_ptAssoc s)"

lemma dns_inv_rec:
  assumes "dns_inv s" and "dns_recHandler p n s = Some s'"
  shows "dns_inv s'"
proof -
  have "dns_inv (s1\<lparr>dns_tState := st\<rparr>)" if "dns_keeps s s1" "st \<noteq> DNS_STATE_Idle" "dns_tState s = DNS_STATE_Request" for s1 st
    using that assms(1) dns_keeps_fields [OF that(1)] by (auto simp: dns_inv_def dns_conn_ok_def split: option.splits)
  then show ?thesis using dns_recHandler_cases [OF assms(2)] assms(1) by auto
qed

lemma dns_inv_len: "dns_inv s \<Longrightarrow> length (atUdpPortAssoc s) = UDP_PORTLIST_MAX"
  by (simp add: dns_inv_def dns_conn_ok_def)

lemma dns_cleanup_simps [simp]:
  "dns_ptAssoc (dns_fail s) = None" "dns_tState (dns_fail s) = DNS_STATE_Error" "dns.more (dns_fail s) = dns.more s"
  "g_t_romloader_options (dns_fail s) = g_t_romloader_options s"
  "length (atUdpPortAssoc (dns_fail s)) = length (atUdpPortAssoc s)"
  by (auto simp: dns_cleanup_def dns_fail_def udp_unregisterPort_def split: option.split)

lemma dns_inv_fail: "length (atUdpPortAssoc s) = UDP_PORTLIST_MAX \<Longrightarrow> dns_inv (dns_fail s)"
  by (simp add: dns_inv_def dns_conn_ok_def)

lemma ipv4_keeps_dns:
  "ipv4_keeps s s' \<Longrightarrow> atUdpPortAssoc s' = atUdpPortAssoc s \<and> dns_tState s' = dns_tState s \<and> dns_ptAssoc s' = dns_ptAssoc s \<and>
     dns_uiRetryCnt s' = dns_uiRetryCnt s \<and> dns.more s' = dns.more s"
  by (cases s; cases s') (simp add: ipv4_keeps_def)

lemma dns_send_query_keeps: "dns_send_query_packet pf s = Some (r, s') \<Longrightarrow> ipv4_keeps s s'"
  by (auto simp: dns_send_query_packet_def Let_def case_prod_beta Option.bind_eq_Some_conv udp_send_keeps split: if_splits)

lemma dns_time_keeps [simp]:
  "dns_tState (snd (get_ms pf s)) = dns_tState s" "dns_ptAssoc (snd (get_ms pf s)) = dns_ptAssoc s"
  "dns_uiRetryCnt (snd (get_ms pf s)) = dns_uiRetryCnt s" "dns.more (snd (get_ms pf s)) = dns.more s"
  "dns_tState (snd (is_elapsed pf a b s)) = dns_tState s" "dns_ptAssoc (snd (is_elapsed pf a b s)) = dns_ptAssoc s"
  "dns_uiRetryCnt (snd (is_elapsed pf a b s)) = dns_uiRetryCnt s" "dns.more (snd (is_elapsed pf a b s)) = dns.more s"
  by (simp_all add: get_ms_def is_elapsed_def split: prod.split)

lemma dns_inv_cong:
  "atUdpPortAssoc s' = atUdpPortAssoc s \<Longrightarrow> dns_tState s' = dns_tState s \<Longrightarrow> dns_ptAssoc s' = dns_ptAssoc s \<Longrightarrow>
   dns_inv s' \<longleftrightarrow> dns_inv s"
  by (simp add: dns_inv_def)

lemma dns_inv_timer:
  assumes "dns_inv s" and "dns_timer pf s = Some s'"
  shows "dns_inv s'"
proof -
  have t: "dns_inv (snd (is_elapsed pf a b s))" for a b using assms(1) by (simp add: dns_inv_def)
  have "dns_inv (snd (get_ms pf s2)\<lparr>dns_ulLastGoodPacket := c, dns_uiRetryCnt := d\<rparr>)"
    if "dns_send_query_packet pf (snd (is_elapsed pf a b s)) = Some (r, s2)" for a b c d r s2
    using ipv4_keeps_dns [OF dns_send_query_keeps [OF that]] t [of a b] by (simp add: dns_inv_def)
  then show ?thesis using assms t dns_inv_len [OF assms(1)]
    by (auto simp: dns_timer_def case_prod_beta Option.bind_eq_Some_conv dns_inv_fail split: DNS_STATE_T.splits if_splits)
qed

lemma dns_inv_request:
  assumes "dns_inv s" and "dns_request pf name s = Some (r, s')" and "dns_tState s \<noteq> DNS_STATE_Request"
  shows "dns_inv s'"
proof -
  obtain a s1 where reg: "udp_registerPort (ucast (MUS2NUS DNS_SRC_PORT)) (ulDnsIp (eth_options s)) (ucast (MUS2NUS DNS_DST_PORT))
      dns_rec NULL (s\<lparr>pcHostName := name\<rparr>) = (a, s1)" by force
  have len: "length (atUdpPortAssoc s1) = UDP_PORTLIST_MAX"
    using owns_register(1) [OF reg] dns_inv_len [OF assms(1)] by simp
  have st: "dns_tState s1 = dns_tState s" using reg by (auto simp: udp_registerPort_def split: option.splits)
  show ?thesis
  proof (cases a)
    case None
    then show ?thesis using assms reg len st by (auto simp: dns_request_def dns_inv_def dns_conn_ok_def)
  next
    case (Some i)
    have "(ucast (MUS2NUS DNS_SRC_PORT) :: u32) \<noteq> 0" by (simp add: MUS2NUS_def DNS_SRC_PORT_def)
    then have own: "owns (atUdpPortAssoc s1) dns_rec i" using owns_register(2) [OF reg] Some by simp
    obtain k s2 where send: "dns_send_query_packet pf (s1\<lparr>dns_ptAssoc := a, us_dns_transaction_id_cnt :=
        us_dns_transaction_id_cnt s1 + 1\<rparr>) = Some (k, s2)"
      using assms(2) reg Some by (auto simp: dns_request_def Option.bind_eq_Some_conv)
    note f = ipv4_keeps_dns [OF dns_send_query_keeps [OF send]]
    then have s': "s' = (if k = 0 then snd (get_ms pf (s2\<lparr>dns_tState := DNS_STATE_Request\<rparr>))
        \<lparr>dns_ulLastGoodPacket := fst (get_ms pf (s2\<lparr>dns_tState := DNS_STATE_Request\<rparr>)),
         dns_uiRetryCnt := ucast (ucDnsRetries (eth_options (snd (get_ms pf (s2\<lparr>dns_tState := DNS_STATE_Request\<rparr>)))))\<rparr>
      else dns_fail s2)"
      using assms(2) reg Some send by (simp add: dns_request_def case_prod_beta split: if_splits)
    show ?thesis using f own len Some unfolding s' by (simp add: dns_inv_fail) (simp add: dns_inv_def dns_conn_ok_def)
  qed
qed

subsection \<open>Properties\<close>

text \<open>The header of a response to the pending query.\<close>

definition dns_header_ok :: "memory \<Rightarrow> ptr \<Rightarrow> u16 \<Rightarrow> bool" where
  "dns_header_ok m p i \<longleftrightarrow> rd16 m (dns_usTransactionId p) = MUS2NUS (ucast i) \<and>
     (let f = NUS2MUS (rd16 m (dns_usFlags p)) in f AND 0x8000 \<noteq> 0 \<and> f AND 0x7800 = 0 \<and> f AND 0x0200 = 0 \<and> f AND 0x000f = 0) \<and>
     rd16 m (dns_usQuestions p) = MUS2NUS 1 \<and>
     rd16 m (dns_usAnswerRRs p) OR rd16 m (dns_usAuthorityRRs p) OR rd16 m (dns_usAdditionalRRs p) \<noteq> 0"

lemma dns_answer_step:
  assumes "dns_tState s = DNS_STATE_Request" and "dns_header_ok (mem s) p (us_dns_transaction_id_cnt s)"
    and "dns_response (mem s) p n (pcHostName s) (dns_aucHostNameBuffer s) ls nm [t0, t1, t2, t3] [a, b, c, d]"
    and "IP_ADR a b c d \<noteq> 0"
  shows "dns_recHandler p n s = Some (s\<lparr>mem := wrbytes (mem s) (dns_aucHostNameBuffer s) (host_name ls @ [0]),
    pucBuffer := dns_aucHostNameBuffer s + of_nat (length (dotted ls)), ulHostIp := IP_ADR a b c d,
    dns_tState := DNS_STATE_Ok\<rparr>)"
proof -
  have "12 \<le> unat n" using assms(3) by (simp add: dns_response_def Let_def)
  then have "\<not> n < sizeof_DNS_PACKET_T" by (simp add: sizeof_defs word_less_nat_alt)
  then show ?thesis using assms(1,2) dns_search_finds [OF assms(3,4)]
    by (simp add: dns_recHandler_def dns_rec_request_def dns_header_ok_def Let_def dns_const_defs)
qed

text \<open>(C21) The response to the pending query is understood: with the question and one address record for the host
  name, in full or as a compression pointer to the question, the handler returns, the address is the result,
  and the unpacked name stays in the buffer of 64 bytes. The port of the client stays open.\<close>

theorem dns_answer_accepted:
  assumes "dns_tState s = DNS_STATE_Request" and "dns_header_ok (mem s) p (us_dns_transaction_id_cnt s)"
    and "dns_response (mem s) p n (pcHostName s) (dns_aucHostNameBuffer s) ls nm [t0, t1, t2, t3] [a, b, c, d]"
    and "IP_ADR a b c d \<noteq> 0"
  shows "\<exists>s'. dns_recHandler p n s = Some s' \<and> dns_getState s' = DNS_STATE_Ok \<and> dns_get_result_ip s' = IP_ADR a b c d \<and>
    (\<forall>x. \<not> in_range x (dns_aucHostNameBuffer s) 64 \<longrightarrow> mem s' x = mem s x) \<and>
    atUdpPortAssoc s' = atUdpPortAssoc s \<and> dns_ptAssoc s' = dns_ptAssoc s"
proof -
  have ls: "ls \<noteq> []" "length (dotted ls) \<le> 64" using assms(3) by (simp_all add: dns_response_def)
  then have "length (host_name ls @ [0]) \<le> 64" by (simp add: length_host_name)
  then have "wrbytes (mem s) (dns_aucHostNameBuffer s) (host_name ls @ [0]) x = mem s x"
    if "\<not> in_range x (dns_aucHostNameBuffer s) 64" for x
    using that by (intro wrbytes_not_in_range) (simp add: in_range_def)
  then show ?thesis unfolding dns_answer_step [OF assms] by (simp add: dns_getState_def dns_get_result_ip_def)
qed

text \<open>A client that waits for the address of \<open>ab.c\<close>, with the response at \<open>0x05000000\<close>.\<close>

definition demo_response :: memory where
  "demo_response = wrbytes (wrbytes (wrbytes (\<lambda>_. 0) 0x0500002a [0x12, 0x34, 0x80, 0, 0, 1, 0, 1])
     0x05000036 (dns_name [[0x61, 0x62], [0x63]] @ [0, 1, 0, 1] @ [0xc0, 12] @ dns_a_record [0, 0, 0, 9] [10, 1, 0, 9]))
     0x00010000 [0x61, 0x62, 0x2e, 0x63]"

definition demo_dns :: "((u32 \<Rightarrow> u32 \<Rightarrow> u32 list) xc, nat) dns" where
  "demo_dns = dhcp.extend (dhcp.truncate (demo_dhcp\<lparr>mem := demo_response\<rparr>))
     \<lparr>dns_tState = DNS_STATE_Request, us_dns_transaction_id_cnt = 0x1234, dns_ptAssoc = Some 1, dns_ulLastGoodPacket = 0,
      dns_uiRetryCnt = 3, pcHostName = 0x00010000, ulHostIp = 0, dns_aucHostNameBuffer = 0x00020000, pucBuffer = NULL\<rparr>"

lemma demo_dns_simps [simp]:
  "mem demo_dns = demo_response" "dns_tState demo_dns = DNS_STATE_Request" "us_dns_transaction_id_cnt demo_dns = 0x1234"
  "pcHostName demo_dns = 0x00010000" "dns_aucHostNameBuffer demo_dns = 0x00020000"
  by (simp_all add: demo_dns_def dhcp.defs)

lemma demo_dns_response:
  "dns_response demo_response 0x05000000 100 0x00010000 0x00020000 [[0x61, 0x62], [0x63]] [0xc0, 12] [0, 0, 0, 9] [10, 1, 0, 9]"
  by (simp add: dns_response_def label_ok_def dns_a_record_def dns_name_def demo_response_def rdbytes_numeral)
    (intro conjI ranges_disjointI; simp)

text \<open>(C21) Witness: the response in \<open>demo_response\<close>.\<close>

theorem dns_answer_accepted_witness:
  "\<exists>s'. dns_recHandler 0x05000000 100 demo_dns = Some s' \<and> dns_getState s' = DNS_STATE_Ok \<and> dns_get_result_ip s' = 0x0900010a"
proof -
  have h: "dns_header_ok (mem demo_dns) 0x05000000 (us_dns_transaction_id_cnt demo_dns)"
    by (simp add: dns_header_ok_def demo_response_def dns_name_def dns_a_record_def rd16_def NUS2MUS_def MUS2NUS_def)
  have r: "dns_response (mem demo_dns) 0x05000000 100 (pcHostName demo_dns) (dns_aucHostNameBuffer demo_dns)
      [[0x61, 0x62], [0x63]] [0xc0, 12] [0, 0, 0, 9] [10, 1, 0, 9]" using demo_dns_response by simp
  have ip: "IP_ADR 10 1 0 9 = 0x0900010a" by (simp add: IP_ADR_def)
  show ?thesis using dns_answer_accepted [OF _ h r] ip by auto
qed

text \<open>(C22) A host name written for the query and read back with the reader of the answers is the host name: the
  writer ends, it writes exactly the encoding of RFC 1035, and the reader fills the buffer with the labels and a dot
  behind each and ends at the byte behind the name.\<close>

theorem dns_name_roundtrip:
  assumes "ls \<noteq> []" and "list_all label_ok ls"
    and "rdbytes m n (Suc (length (host_name ls))) = host_name ls @ [0]"
    and "ranges_disjoint n (Suc (length (host_name ls))) q (length (dns_labels ls))"
    and "ranges_disjoint q (length (dns_name ls)) buf (length (dotted ls))"
    and "unat q + length (dns_name ls) < unat e"
  shows "\<exists>m'. convert_hostname_to_dns m q n = Some (q + of_nat (length (dns_name ls)), m') \<and>
    unpack_entry_recursive q st e buf m' =
      Some (q + of_nat (length (dns_name ls)), buf + of_nat (length (dotted ls)), wrbytes m' buf (host_name ls @ [0x2e]))"
proof -
  let ?m = "wrbytes m q (dns_name ls)" and ?q = "q + of_nat (length (dns_name ls))"
  have len: "length (dns_name ls) \<le> 2 ^ 32" using assms(6) unat_u32_less [of e] by (simp del: unat_u32_less)
  have "unat ?q = unat q + length (dns_name ls)" using assms(6) by (intro unat_mono_add [of _ _ e]) simp
  then have "\<not> e \<le> ?q" using assms(6) by (simp add: word_le_nat_alt)
  moreover have "rdbytes ?m q (length (dns_name ls)) = dns_name ls" using len by simp
  ultimately show ?thesis
    using convert_hostname [OF assms(1-4)] unpack_name [OF assms(2) _ _ assms(5), of ?m e st] assms(6)
    by (simp add: dotted_host_name [OF assms(1), symmetric])
qed

text \<open>(C22) Witness: the name \<open>ab.c\<close>.\<close>

theorem dns_name_roundtrip_witness:
  "\<exists>m'. convert_hostname_to_dns demo_response 0x05001036 0x00010000 = Some (0x0500103c, m') \<and>
    unpack_entry_recursive 0x05001036 0x0500102a 0x05001100 0x00020000 m' =
      Some (0x0500103c, 0x00020005, wrbytes m' 0x00020000 [0x61, 0x62, 0x2e, 0x63, 0x2e])"
proof -
  let ?ls = "[[0x61, 0x62], [0x63 :: u8]]"
  have d: "ranges_disjoint 0x00010000 (Suc (length (host_name ?ls))) 0x05001036 (length (dns_labels ?ls))"
    "ranges_disjoint 0x05001036 (length (dns_name ?ls)) 0x00020000 (length (dotted ?ls))"
    by (rule ranges_disjointI; simp add: dns_name_def)+
  have "rdbytes demo_response 0x00010000 (Suc (length (host_name ?ls))) = host_name ?ls @ [0]"
    by (simp add: demo_response_def dns_name_def dns_a_record_def)
  moreover have "list_all label_ok ?ls" by (simp add: label_ok_def)
  ultimately show ?thesis
    using dns_name_roundtrip [OF _ _ _ d, of demo_response "0x05001100" "0x0500102a"] by (simp add: dns_name_def)
qed

text \<open>The reader of names follows compression pointers without any bound: for an entry that points to itself
  the recursion never returns.\<close>

theorem dns_pointer_loop:
  assumes "m q \<ge> 0xc0" and "st + ucast (m (q + 1)) = q"
  shows "unpack_entry_recursive q st e buf m = None"
proof (cases "unpack_entry_recursive q st e buf m")
  case (Some r)
  have "\<not> (q = x \<and> m = m1 \<and> st = st1)" if "unpack_entry_recursive x st1 e1 b1 m1 = Some y" for x st1 e1 b1 m1 y
    using that
  proof (rule unpack_entry_recursive.raw_induct [where P = "\<lambda>x st1 e1 b1 m1 y. \<not> (q = x \<and> m = m1 \<and> st = st1)", rotated], goal_cases)
    case (1 f x st1 e1 b1 m1 y)
    have "\<not> m q < 0xc0" "\<not> m q < 0x40" "m q \<noteq> 0" using assms(1) by (auto simp: word_less_nat_alt word_le_nat_alt)
    then show ?case using 1 assms(2) by (auto simp: Let_def Option.bind_eq_Some_conv) blast
  qed
  from this [OF Some [unfolded prod.collapse [symmetric]]] show ?thesis by simp
qed

text \<open>Witness: an answer whose name is a pointer to itself at offset 40.\<close>

theorem dns_pointer_loop_witness:
  "unpack_entry_recursive 0x05000052 0x0500002a 0x05000080 0x00020000 (wrbytes (\<lambda>_. 0) 0x05000052 [0xc0, 40]) = None"
  by (rule dns_pointer_loop) simp_all

end
