(* ===== verification/Locality.thy ===== *)
theory Locality
  imports Udp
begin

text \<open>
  Where the stack writes. Sending a packet through UDP, IPv4 and ARP changes the memory only inside frame
  buffers: the frame of the packet and the frame of the ARP request that may go out with it. The arrays of
  the stack that are modelled as lists keep their C lengths; this is the predicate \<open>typed\<close>.
\<close>

subsection \<open>Writes into frame buffers\<close>

definition outside_frames :: "(ptr \<Rightarrow> bool) \<Rightarrow> memory \<Rightarrow> memory \<Rightarrow> bool" where
  "outside_frames fr m m' \<longleftrightarrow> (\<forall>x. (\<forall>p. fr p \<longrightarrow> \<not> in_range x p (unat ETH_FRAME_BUF_SIZE)) \<longrightarrow> m' x = m x)"

lemma outside_refl [simp]: "outside_frames fr m m"
  by (simp add: outside_frames_def)

lemma outside_trans: "outside_frames fr m m' \<Longrightarrow> outside_frames fr m' m'' \<Longrightarrow> outside_frames fr m m''"
  by (simp add: outside_frames_def)

lemma outside_wrbytes:
  assumes "outside_frames fr m m'" and "fr p" and "unat k + length bs \<le> 1560"
  shows "outside_frames fr m (wrbytes m' (p + k) bs)"
proof -
  have "wrbytes m' (p + k) bs x = m' x" if x: "\<not> in_range x p 1560" for x
  proof (rule wrbytes_outside)
    fix i
    assume "i < length bs"
    then have "unat (k + of_nat i) < 1560" using assms(3) by (subst unat_add_lem [THEN iffD1]) (simp_all add: unat_of_nat)
    then show "x \<noteq> p + k + of_nat i" using x by (auto simp: in_range_def add.assoc)
  qed
  then show ?thesis using assms(1,2) by (simp add: outside_frames_def ETH_FRAME_BUF_SIZE_def)
qed

lemma outside_writes:
  assumes "outside_frames fr m m'" and "fr p"
  shows "unat k < 1560 \<Longrightarrow> outside_frames fr m (m'(p + k := b))"
    and "unat k + 2 \<le> 1560 \<Longrightarrow> outside_frames fr m (wr16 m' (p + k) v)"
    and "unat k + 4 \<le> 1560 \<Longrightarrow> outside_frames fr m (wr32 m' (p + k) w)"
    and "unat k + n \<le> 1560 \<Longrightarrow> outside_frames fr m (memset m' (p + k) b n)"
    and "length bs \<le> 1560 \<Longrightarrow> outside_frames fr m (wrbytes m' p bs)"
  using outside_wrbytes [OF assms, of k "[b]"] outside_wrbytes [OF assms, of k "le16 v"] outside_wrbytes [OF assms, of k "le32 w"]
    outside_wrbytes [OF assms, of k "replicate n b"] outside_wrbytes [OF assms, of 0 bs]
  by (simp_all add: wr16_wrbytes wr32_wrbytes memset_def)

lemma outside_rdbytes:
  assumes "outside_frames fr m m'" and "\<forall>p. fr p \<longrightarrow> ranges_disjoint a n p (unat ETH_FRAME_BUF_SIZE)"
  shows "rdbytes m' a n = rdbytes m a n"
  using assms by (intro rdbytes_cong) (auto simp: outside_frames_def ranges_disjoint_def)

subsection \<open>Lengths of arrays\<close>

definition typed :: "('d, 'w, 'z) arp_scheme \<Rightarrow> bool" where
  "typed s \<longleftrightarrow> length (aucMac (eth_options s)) = 6 \<and> list_all (\<lambda>m. length m = 6) (map ac_tMac (aui_arp_cache s))"

lemma typed_upd [simp]:
  "typed (s\<lparr>mem := m\<rparr>) \<longleftrightarrow> typed s" "typed (s\<lparr>env := w\<rparr>) \<longleftrightarrow> typed s" "typed (s\<lparr>drv := d\<rparr>) \<longleftrightarrow> typed s"
  "typed (s\<lparr>atPacketQueue := q\<rparr>) \<longleftrightarrow> typed s"
  by (simp_all add: typed_def)

lemma typed_eth [simp]:
  "typed (eth_send_packet p n mac t s) \<longleftrightarrow> typed s" "typed (snd (eth_get_empty_packet s)) \<longleftrightarrow> typed s"
  "typed (eth_release_packet p s) \<longleftrightarrow> typed s" "typed (snd (get_ms pf s)) \<longleftrightarrow> typed s"
  "typed (snd (is_elapsed pf a b s)) \<longleftrightarrow> typed s"
  by (simp_all add: eth_send_packet_def eth_get_empty_packet_def eth_release_packet_def get_ms_def is_elapsed_def Let_def split: prod.split)

lemma typed_cache_entry [simp]: "typed (snd (arp_get_cache_entry ip s)) \<longleftrightarrow> typed s"
  using arp_scan_sig [of ip "aui_arp_cache s"] by (simp add: typed_def arp_get_cache_entry_def split: prod.split)

lemma typed_add_waiting [simp]: "typed (snd (arp_add_waiting_packet p n ip s)) \<longleftrightarrow> typed s"
  by (simp add: arp_add_waiting_packet_def split: option.split)

lemma macs_update: "ac_tMac e = ac_tMac (c ! i) \<Longrightarrow> map ac_tMac (c[i := e]) = map ac_tMac c"
  by (cases "i < length c") (auto simp: map_update nth_list_update intro!: nth_equalityI)

lemma typed_set_mac_request [simp]: "typed (arp_set_mac_request pf ip s) \<longleftrightarrow> typed s"
  by (simp add: typed_def arp_set_mac_request_def get_ms_def Let_def macs_update split: prod.split)

lemma typed_send_request [simp]: "typed (arp_send_request ip s) \<longleftrightarrow> typed s"
  by (simp add: arp_send_request_def Let_def case_prod_beta)

lemma typed_send_ipv4 [simp]: "typed (arp_send_ipv4_packet pf p n ip s) \<longleftrightarrow> typed s"
  by (simp add: arp_send_ipv4_packet_def case_prod_beta split: option.split)

lemma typed_cong:
  "g_t_romloader_options s' = g_t_romloader_options s \<Longrightarrow> aui_arp_cache s' = aui_arp_cache s \<Longrightarrow> typed s' \<longleftrightarrow> typed s"
  by (simp add: typed_def)

lemma typed_mac: "typed s \<Longrightarrow> i < length (aui_arp_cache s) \<Longrightarrow> length (ac_tMac (aui_arp_cache s ! i)) = 6"
  by (simp add: typed_def list_all_length)

subsection \<open>Sending\<close>

lemma outside_eth_send:
  assumes "frm p" and "length mac \<le> 1560" and "typed s"
  shows "outside_frames frm (mem s) (mem (eth_send_packet p n mac t s))"
  using assms
  by (simp add: eth_send_packet_def Let_def typed_def outside_writes(2) outside_wrbytes outside_writes(5))

lemma outside_ipv4_fill:
  "outside_frames frm m m' \<Longrightarrow> frm p \<Longrightarrow> outside_frames frm m (ipv4_fill_header my i p dst pr n m')"
  by (simp add: ipv4_fill_header_def Let_def outside_writes)

lemma outside_udp_fill:
  "outside_frames frm m m' \<Longrightarrow> frm p \<Longrightarrow> outside_frames frm m (udp_fill_header my a p n m')"
  by (simp add: udp_fill_header_def Let_def case_prod_beta outside_writes)

context network_if
begin

lemma uses_if_upd [simp]:
  "uses_if nif if_ok (s\<lparr>mem := m\<rparr>) \<longleftrightarrow> uses_if nif if_ok s" "uses_if nif if_ok (s\<lparr>env := w\<rparr>) \<longleftrightarrow> uses_if nif if_ok s"
  by (simp_all add: uses_if_def)

lemma outside_arp_request:
  assumes "uses_if nif if_ok s" and "typed s"
  shows "outside_frames frame (mem s) (mem (arp_send_request ip s))"
proof -
  obtain p s1 where e: "eth_get_empty_packet s = (p, s1)" by force
  have t: "typed s1" "mem s1 = mem s" using assms(2) typed_eth(2) [of s] mem_eth_get_empty_packet [of s] e by simp_all
  show ?thesis
  proof (cases "p = NULL")
    case False
    then have f: "frame p" using eth_get_empty_packet_pool [OF assms(1) e] by simp
    have mac: "length (aucMac (eth_options s1)) = 6" using t(1) by (simp add: typed_def)
    let ?m = "wr32 (memset (wr32 (wrbytes (wr16 (wrbytes (mem s1) (p + 14) aucArpFixedHdr) (p + 20) ARP_OPCODE_REQUEST) (p + 22)
      (aucMac (eth_options s1))) (p + 28) (ulIp (eth_options s1))) (p + 32) 0 6) (p + 38) ip"
    have m: "outside_frames frame (mem s) ?m"
      using f mac t(2) by (simp add: outside_writes outside_wrbytes aucArpFixedHdr_def del: wrbytes.simps)
    have "outside_frames frame (mem (s1\<lparr>mem := ?m\<rparr>)) (mem (eth_send_packet p sizeof_ARP_PACKET_T g_tBroadcastMac ETH2HEADER_TYP_ARP (s1\<lparr>mem := ?m\<rparr>)))"
      using f t(1) by (intro outside_eth_send) (simp_all add: g_tBroadcastMac_def)
    then have "outside_frames frame (mem s) (mem (eth_send_packet p sizeof_ARP_PACKET_T g_tBroadcastMac ETH2HEADER_TYP_ARP (s1\<lparr>mem := ?m\<rparr>)))"
      using outside_trans [OF m] by simp
    then show ?thesis using e False by (simp add: arp_send_request_def Let_def)
  qed (use e t in \<open>simp add: arp_send_request_def\<close>)
qed

lemma uses_if_keeps:
  "tNetworkIf s' = tNetworkIf s \<Longrightarrow> drv s' = drv s \<Longrightarrow> uses_if nif if_ok s' \<longleftrightarrow> uses_if nif if_ok s"
  by (simp add: uses_if_def)

lemma outside_arp_send:
  assumes "uses_if nif if_ok s" and "typed s" and "frame p"
  shows "outside_frames frame (mem s) (mem (arp_send_ipv4_packet pf p n ip s))"
proof -
  obtain hit c where sc: "arp_scan ip (aui_arp_cache s) = (hit, c)" by force
  let ?t = "s\<lparr>aui_arp_cache := c\<rparr>"
  have t: "typed ?t" using typed_cache_entry [of ip s] assms(2) sc by (simp add: arp_get_cache_entry_def)
  have send: "outside_frames frame (mem s) (mem (eth_send_packet p n mac ty u))"
    if "mem u = mem s" "typed u" "length mac = 6" for mac ty and u :: "('d, 'c, 'e) arp_scheme"
    using outside_eth_send [of frame p mac u] assms(3) that by simp
  have macs: "length g_tBroadcastMac = 6" "length (arp_multicast_mac ip) = 6" by (simp_all add: g_tBroadcastMac_def arp_multicast_mac_def)
  have hitmac: "length (ac_tMac (c ! i)) = 6" if "hit = Some i" for i
    using typed_mac [OF t] arp_scan_Some [of ip "aui_arp_cache s" i c] sc that by simp
  have wait: "outside_frames frame (mem s) (mem (snd (arp_add_waiting_packet p n ip ?t)))"
    by (simp add: arp_add_waiting_packet_def split: option.split)
  have req: "outside_frames frame (mem s) (mem (arp_send_request ip (arp_set_mac_request pf ip u)))"
    if "arp_add_waiting_packet p n ip ?t = (q, u)" for q u
  proof -
    have "mem u = mem s \<and> typed u \<and> uses_if nif if_ok u"
      using that t assms(1) by (auto simp: arp_add_waiting_packet_def uses_if_def split: option.splits)
    moreover have "mem (arp_set_mac_request pf ip u) = mem u" "uses_if nif if_ok (arp_set_mac_request pf ip u) \<longleftrightarrow> uses_if nif if_ok u"
      by (simp_all add: arp_set_mac_request_def get_ms_def Let_def uses_if_def split: prod.split)
    ultimately show ?thesis using outside_arp_request [of "arp_set_mac_request pf ip u" ip] by simp
  qed
  show ?thesis using send macs hitmac wait req t assms(2) sc
    by (auto simp: arp_send_ipv4_packet_def arp_get_cache_entry_def split: option.split prod.split)
qed

lemma outside_udp_send:
  assumes "uses_if nif if_ok s" and "typed s" and "frame p"
  shows "outside_frames frame (mem s) (mem (udp_send_packet pf p n a s))"
proof (cases a)
  case (Some i)
  show ?thesis
  proof (cases "i < UDP_PORTLIST_MAX")
    case True
    let ?m = "udp_wire (ulIp (eth_options s)) (uiIpOutputId s) (atUdpPortAssoc s ! i) p n (mem s)"
    let ?s = "s\<lparr>mem := ?m, uiIpOutputId := uiIpOutputId s + 1\<rparr>"
    have m: "outside_frames frame (mem s) ?m"
      unfolding udp_wire_def by (intro outside_ipv4_fill outside_udp_fill outside_refl assms(3))
    have "typed ?s" "uses_if nif if_ok ?s" using assms by (simp_all add: typed_def uses_if_def)
    then have "outside_frames frame ?m (mem (udp_send_packet pf p n a s))"
      unfolding Some udp_send_packet_wire [OF True] using outside_arp_send [of ?s p] assms(3) by simp
    then show ?thesis by (rule outside_trans [OF m])
  qed (simp add: Some udp_send_packet_def)
qed (simp add: udp_send_packet_def)

text \<open>A packet that is sent comes back to the pool, waits, or is lost.\<close>

lemma acct_ipv4_send:
  assumes "acct n s" and "frame p" and "n < cap" and "unat k < 4294967276"
  shows "\<exists>n' \<le> Suc n. acct n' (ipv4_send_packet pf p dst pr k s)"
proof -
  let ?s = "s\<lparr>mem := ipv4_fill_header (ulIp (eth_options s)) (uiIpOutputId s) p dst pr (sizeof_IPV4_HEADER_T + k) (mem s),
    uiIpOutputId := uiIpOutputId s + 1\<rparr>"
  have "acct n ?s" using assms(1) by (simp add: frame_acct_def uses_if_def)
  from acct_send_ipv4 [OF this assms(2) ipv4_size_not_zero [OF assms(4)] assms(3), of "ipv4_get_destination_ip (eth_options s) dst" pf]
  show ?thesis unfolding ipv4_send_packet_def Let_def
    by (rule exI [of _ "if arp_drops (ipv4_get_destination_ip (eth_options s) dst) ?s then n else Suc n", OF conjI, rotated]) simp
qed

lemma acct_udp_send:
  assumes "acct n s" and "frame p" and "n < cap" and "unat k < 4294967268"
  shows "\<exists>n' \<le> Suc n. acct n' (udp_send_packet pf p k a s)"
proof (cases "\<exists>i. a = Some i \<and> i < UDP_PORTLIST_MAX")
  case True
  then obtain i where i: "a = Some i" "i < UDP_PORTLIST_MAX" by blast
  have "unat (sizeof_UDP_HEADER_T + k) < 4294967276" using assms(4) by (simp add: sizeof_defs unat_word_ariths)
  then show ?thesis using acct_ipv4_send [of n "s\<lparr>mem := udp_fill_header (ulIp (eth_options s)) (atUdpPortAssoc s ! i) p
      (sizeof_UDP_HEADER_T + k) (mem s)\<rparr>" p "sizeof_UDP_HEADER_T + k"] assms i
    by (simp add: udp_send_packet_def Let_def)
qed (use assms(1) in \<open>auto simp: udp_send_packet_def split: option.split intro: exI [of _ n]\<close>)

text \<open>A packet built in an empty frame.\<close>

lemma acct_build_udp:
  assumes "acct n s" and "n \<le> cap" and "eth_get_empty_packet s = (p, s1)" and "p \<noteq> NULL" and "unat k < 4294967268"
  shows "\<exists>n' \<le> n. acct n' (udp_send_packet pf p k a (s1\<lparr>mem := m\<rparr>))"
proof -
  have f: "frame p" "n \<noteq> 0" "acct (n - 1) (s1\<lparr>mem := m\<rparr>)" using acct_get_empty [OF assms(1,3)] assms(4) by simp_all
  then show ?thesis using acct_udp_send [OF f(3,1), of k pf a] assms(2,5) by auto
qed

end

subsection \<open>What sending does to the platform\<close>

text \<open>\<open>f\<close> is a part of the state of the platform that the timer does not change.\<close>

definition time_keeps :: "'w stack_env \<Rightarrow> ('w \<Rightarrow> 'a) \<Rightarrow> bool" where
  "time_keeps pf f \<longleftrightarrow> (\<forall>w. f (snd (systime_get_ms pf w)) = f w) \<and> (\<forall>a b w. f (snd (systime_handle_is_elapsed pf a b w)) = f w)"

lemma time_keeps_get_ms [simp]: "time_keeps pf f \<Longrightarrow> f (env (snd (get_ms pf s))) = f (env s)"
  by (simp add: time_keeps_def get_ms_def split: prod.split) (metis snd_conv)

lemma env_eth [simp]:
  "env (eth_send_packet p n mac t s) = env s" "env (snd (eth_get_empty_packet s)) = env s"
  "env (snd (arp_get_cache_entry ip u)) = env u" "env (snd (arp_add_waiting_packet p n ip u)) = env u"
  by (simp_all add: eth_send_packet_def eth_get_empty_packet_def arp_get_cache_entry_def
    arp_add_waiting_packet_def Let_def split: prod.split option.split)

lemma env_arp_request [simp]: "env (arp_send_request ip s) = env s"
  by (simp add: arp_send_request_def Let_def case_prod_beta)

lemma time_keeps_mac_request [simp]: "time_keeps pf f \<Longrightarrow> f (env (arp_set_mac_request pf ip s)) = f (env s)"
  using time_keeps_get_ms [of pf f s] by (simp add: arp_set_mac_request_def Let_def case_prod_beta)

lemma time_keeps_arp_send: "time_keeps pf f \<Longrightarrow> f (env (arp_send_ipv4_packet pf p n ip s)) = f (env s)"
  by (simp add: arp_send_ipv4_packet_def case_prod_beta split: option.split)

lemma time_keeps_udp_send: "time_keeps pf f \<Longrightarrow> f (env (udp_send_packet pf p n a s)) = f (env s)"
  by (simp add: udp_send_packet_def ipv4_send_packet_def Let_def time_keeps_arp_send split: option.split)

lemma typed_udp_send [simp]: "typed (udp_send_packet pf p n a s) \<longleftrightarrow> typed s"
  by (simp add: udp_send_packet_def ipv4_send_packet_def Let_def typed_def [of "s\<lparr>uiIpOutputId := _\<rparr>"] split: option.split)
    (simp add: typed_def)

end
