(* ===== verification/Tftp.thy ===== *)
theory Tftp
  imports Dns Locality Sha384
begin

text \<open>
  The TFTP client (networking/stack/tftp.c): opening a file with the block size option, the transfer of the
  blocks into a buffer with the SHA384 over them, and the timer. The crypto unit is the one of theory
  \<open>Sha384\<close>. The client calls \<open>sha384_finalize_byte\<close> with three arguments, an interface sha384.h does not have
  any more; that function is the parameter \<open>fin\<close>. A file name without an end and a store through the
  null pointer are the value \<open>None\<close>. The debug messages are not modelled.
\<close>

subsection \<open>Data\<close>

definition TFTP_OPCODE_ReadReq :: u16 where "TFTP_OPCODE_ReadReq = MUS2NUS 1"
definition TFTP_OPCODE_Data :: u16 where "TFTP_OPCODE_Data = MUS2NUS 3"
definition TFTP_OPCODE_Ack :: u16 where "TFTP_OPCODE_Ack = MUS2NUS 4"
definition TFTP_OPCODE_Error :: u16 where "TFTP_OPCODE_Error = MUS2NUS 5"
definition TFTP_OPCODE_OptionAck :: u16 where "TFTP_OPCODE_OptionAck = MUS2NUS 6"

lemmas tftp_opcode_defs = TFTP_OPCODE_ReadReq_def TFTP_OPCODE_Data_def TFTP_OPCODE_Ack_def TFTP_OPCODE_Error_def
  TFTP_OPCODE_OptionAck_def

datatype tTftpState = TFTPSTATE_Idle | TFTPSTATE_Init | TFTPSTATE_Transfer | TFTPSTATE_Finished | TFTPSTATE_Error

record ('d, 'w) tftp = "('d, 'w) dns" +
  uiPortCounter :: u32
  tftp_ptAssoc :: "nat option"
  pcTftpFileName :: ptr
  uiExpectedBlockNr :: u32
  tftp_tState :: tTftpState
  tftp_ulLastGoodPacket :: u32
  tftp_uiRetryCnt :: u32
  uiBlockSize :: u32
  acBlockSize :: "u8 list"
  sizBlockSizeLen :: u32
  ulLoadedBytes :: u32
  pucDstBuffer :: ptr
  tftp_aulHash :: "u8 list"

definition acOctet :: "u8 list" where "acOctet = [0x6f, 0x63, 0x74, 0x65, 0x74, 0x00]"
definition acBlksize :: "u8 list" where "acBlksize = [0x62, 0x6c, 0x6b, 0x73, 0x69, 0x7a, 0x65, 0x00]"

text \<open>Fields of the TFTP packet in a frame at \<open>p\<close>.\<close>

abbreviation (input) tftp_usOpcode :: "ptr \<Rightarrow> ptr" where "tftp_usOpcode p \<equiv> p + 42"
abbreviation (input) tftp_uPacket :: "ptr \<Rightarrow> ptr" where "tftp_uPacket p \<equiv> p + 44"
abbreviation (input) tftp_usBlockNr :: "ptr \<Rightarrow> ptr" where "tftp_usBlockNr p \<equiv> p + 44"
abbreviation (input) tftp_data :: "ptr \<Rightarrow> ptr" where "tftp_data p \<equiv> p + 46"

subsection \<open>Sending\<close>

definition tftp_cleanup :: "('d, 'w, 'z) tftp_scheme \<Rightarrow> ('d, 'w, 'z) tftp_scheme" where
  "tftp_cleanup s =
     (if tftp_ptAssoc s \<noteq> None then (udp_unregisterPort (tftp_ptAssoc s) s)\<lparr>tftp_ptAssoc := None\<rparr> else s)"

partial_function (option) strlen_from :: "memory \<Rightarrow> ptr \<Rightarrow> u32 \<Rightarrow> u32 option" where
  "strlen_from m p n = (if m p = 0 then Some n else strlen_from m (p + 1) (n + 1))"

definition strlen :: "memory \<Rightarrow> ptr \<Rightarrow> u32 option" where
  "strlen m p = strlen_from m p 0"

definition tftp_send_open_packet ::
    "'w stack_env \<Rightarrow> ('d, 'w, 'z) tftp_scheme \<Rightarrow> (int \<times> ('d, 'w, 'z) tftp_scheme) option" where
  "tftp_send_open_packet pf s =
     (case eth_get_empty_packet s of (p, s) \<Rightarrow>
        if p = NULL then Some (-1, s)
        else
          do {
            n \<leftarrow> strlen (mem s) (pcTftpFileName s);
            let sizFileName = n + 1;
            let m = wr16 (mem s) (tftp_usOpcode p) TFTP_OPCODE_ReadReq;
            let m = memcpy m (tftp_uPacket p) (pcTftpFileName s) (unat sizFileName);
            let m = wrbytes m (tftp_uPacket p + sizFileName) acOctet;
            let m = wrbytes m (tftp_uPacket p + sizFileName + 6) acBlksize;
            let m = wrbytes m (tftp_uPacket p + sizFileName + 6 + 8) (take (unat (sizBlockSizeLen s)) (acBlockSize s));
            Some (0, udp_send_packet pf p (2 + sizFileName + 6 + 8 + sizBlockSizeLen s) (tftp_ptAssoc s) (s\<lparr>mem := m\<rparr>))
          })"

definition tftp_send_ack_packet :: "'w stack_env \<Rightarrow> ('d, 'w, 'z) tftp_scheme \<Rightarrow> int \<times> ('d, 'w, 'z) tftp_scheme" where
  "tftp_send_ack_packet pf s =
     (case eth_get_empty_packet s of (p, s) \<Rightarrow>
        if p = NULL then (-1, s)
        else
          let m = wr16 (mem s) (tftp_usOpcode p) TFTP_OPCODE_Ack;
              m = wr16 m (tftp_usBlockNr p) (MUS2NUS (uiExpectedBlockNr s)) in
          (0, udp_send_packet pf p (2 + 2) (tftp_ptAssoc s) (s\<lparr>mem := m\<rparr>)))"

subsection \<open>Receiving\<close>

function copy_loop :: "'w crypt \<Rightarrow> ptr \<Rightarrow> ptr \<Rightarrow> ptr \<Rightarrow> memory \<Rightarrow> 'w \<Rightarrow> memory \<times> 'w" where
  "copy_loop hw pucDst pucSrcCnt pucSrcEnd m w =
     (if pucSrcCnt < pucSrcEnd then
        let ucData = m pucSrcCnt in
        copy_loop hw (pucDst + 1) (pucSrcCnt + 1) pucSrcEnd (m(pucDst := ucData)) (wr_sha_din_uc hw ucData w)
      else (m, w))"
  by pat_completeness auto
termination
  by (relation "measure (\<lambda>(hw, d, c, e, m, w). unat (e - c))") (auto, unat_arith)

declare copy_loop.simps [simp del]

definition copy_data :: "'w crypt \<Rightarrow> ptr \<Rightarrow> ptr \<Rightarrow> u32 \<Rightarrow> ('d, 'w, 'z) tftp_scheme \<Rightarrow> ('d, 'w, 'z) tftp_scheme" where
  "copy_data hw pucDst pucSrc sizSrc s =
     (case copy_loop hw pucDst pucSrc (pucSrc + sizSrc) (mem s) (env s) of (m, w) \<Rightarrow> s\<lparr>mem := m, env := w\<rparr>)"

definition tftp_fail :: "('d, 'w, 'z) tftp_scheme \<Rightarrow> ('d, 'w, 'z) tftp_scheme" where
  "tftp_fail s = tftp_cleanup (s\<lparr>tftp_tState := TFTPSTATE_Error\<rparr>)"

text \<open>A good packet resets the timer and the retries.\<close>

definition tftp_good_packet :: "'w stack_env \<Rightarrow> ('d, 'w, 'z) tftp_scheme \<Rightarrow> ('d, 'w, 'z) tftp_scheme" where
  "tftp_good_packet pf s =
     (case get_ms pf s of (t, s) \<Rightarrow>
        s\<lparr>tftp_ulLastGoodPacket := t, tftp_uiRetryCnt := ucast (ucTftpRetries (eth_options s))\<rparr>)"

text \<open>The answer to the open packet. The new port is stored in the association.\<close>

definition tftp_rec_init ::
    "'w stack_env \<Rightarrow> ptr \<Rightarrow> u32 \<Rightarrow> ('d, 'w, 'z) tftp_scheme \<Rightarrow> ('d, 'w, 'z) tftp_scheme option" where
  "tftp_rec_init pf p sizTftpLength s =
     (let uiOpcode = rd16 (mem s) (tftp_usOpcode p) in
      if uiOpcode = TFTP_OPCODE_Error then Some (tftp_fail s)
      else if uiOpcode = TFTP_OPCODE_OptionAck then
        if sizTftpLength \<noteq> 2 + 8 + sizBlockSizeLen s then Some (tftp_fail s)
        else if rdbytes (mem s) (tftp_uPacket p) 8 = acBlksize \<and>
          rdbytes (mem s) (tftp_uPacket p + 8) (unat (sizBlockSizeLen s)) = take (unat (sizBlockSizeLen s)) (acBlockSize s) then
          (case tftp_ptAssoc s of
             None \<Rightarrow> None
           | Some i \<Rightarrow>
               let s = s\<lparr>atUdpPortAssoc := (atUdpPortAssoc s)[i := (atUdpPortAssoc s ! i)
                         \<lparr>uiRemotePort := ucast (rd16 (mem s) (udp_usSrcPort p))\<rparr>]\<rparr>;
                   s = s\<lparr>uiExpectedBlockNr := 0\<rparr>;
                   s = snd (tftp_send_ack_packet pf s) in
               Some ((tftp_good_packet pf s)\<lparr>tftp_tState := TFTPSTATE_Transfer\<rparr>))
        else Some (tftp_fail s)
      else if uiOpcode = TFTP_OPCODE_Data then Some (tftp_fail s)
      else Some s)"

text \<open>A data packet with the wanted number.\<close>

definition tftp_rec_block ::
    "'w stack_env \<Rightarrow> 'w crypt \<Rightarrow> (u8 list \<Rightarrow> u32 \<Rightarrow> u32 \<Rightarrow> 'w \<Rightarrow> (u8 list \<times> 'w) option) \<Rightarrow> ptr \<Rightarrow> u32 \<Rightarrow>
     ('d, 'w, 'z) tftp_scheme \<Rightarrow> ('d, 'w, 'z) tftp_scheme option" where
  "tftp_rec_block pf hw fin p sizTftpLength s =
     (let sizData = sizTftpLength - 2 - 2;
          s = (if sizData \<noteq> 0 then
                 let s = copy_data hw (pucDstBuffer s) (tftp_data p) sizData s in
                 s\<lparr>pucDstBuffer := pucDstBuffer s + sizData, ulLoadedBytes := ulLoadedBytes s + sizData\<rparr>
               else s);
          s = snd (tftp_send_ack_packet pf s);
          s = tftp_good_packet pf s in
      if sizData < uiBlockSize s then
        let s = tftp_cleanup (s\<lparr>tftp_tState := TFTPSTATE_Finished\<rparr>) in
        do {
          (hash, w) \<leftarrow> fin (tftp_aulHash s) 12 (ulLoadedBytes s) (env s);
          Some (s\<lparr>tftp_aulHash := hash, env := w\<rparr>)
        }
      else Some s)"

definition tftp_rec_transfer ::
    "'w stack_env \<Rightarrow> 'w crypt \<Rightarrow> (u8 list \<Rightarrow> u32 \<Rightarrow> u32 \<Rightarrow> 'w \<Rightarrow> (u8 list \<times> 'w) option) \<Rightarrow> ptr \<Rightarrow> u32 \<Rightarrow>
     ('d, 'w, 'z) tftp_scheme \<Rightarrow> ('d, 'w, 'z) tftp_scheme option" where
  "tftp_rec_transfer pf hw fin p sizTftpLength s =
     (let uiOpcode = rd16 (mem s) (tftp_usOpcode p) in
      if uiOpcode = TFTP_OPCODE_Error then Some (tftp_fail s)
      else if uiOpcode = TFTP_OPCODE_Data then
        let uiBlockNr = NUS2MUS (rd16 (mem s) (tftp_usBlockNr p));
            uiWantedBlockNr = (uiExpectedBlockNr s + 1) AND 0xffff in
        if uiBlockNr = uiWantedBlockNr
        then tftp_rec_block pf hw fin p sizTftpLength (s\<lparr>uiExpectedBlockNr := uiWantedBlockNr\<rparr>)
        else Some s
      else Some s)"

definition tftp_recHandler ::
    "'w stack_env \<Rightarrow> 'w crypt \<Rightarrow> (u8 list \<Rightarrow> u32 \<Rightarrow> u32 \<Rightarrow> 'w \<Rightarrow> (u8 list \<times> 'w) option) \<Rightarrow> ptr \<Rightarrow> u32 \<Rightarrow>
     ('d, 'w, 'z) tftp_scheme \<Rightarrow> ('d, 'w, 'z) tftp_scheme option" where
  "tftp_recHandler pf hw fin pvData sizTftpLength s =
     (case tftp_tState s of
        TFTPSTATE_Init \<Rightarrow> tftp_rec_init pf pvData sizTftpLength s
      | TFTPSTATE_Transfer \<Rightarrow> tftp_rec_transfer pf hw fin pvData sizTftpLength s
      | _ \<Rightarrow> Some s)"

subsection \<open>Requests and timer\<close>

definition tftp_getState :: "('d, 'w, 'z) tftp_scheme \<Rightarrow> tTftpState" where
  "tftp_getState s = tftp_tState s"

definition tftp_init :: "('d, 'w, 'z) tftp_scheme \<Rightarrow> ('d, 'w, 'z) tftp_scheme" where
  "tftp_init s = s\<lparr>uiPortCounter := 1024, tftp_ptAssoc := None, tftp_tState := TFTPSTATE_Idle\<rparr>"

definition auiNumToAscii :: "u32 list" where "auiNumToAscii = [10, 100, 1000, 10000]"

partial_function (option) count_digit :: "u32 \<Rightarrow> u32 \<Rightarrow> u32 \<Rightarrow> (u32 \<times> u32) option" where
  "count_digit d iCnt uiNum = (if uiNum \<ge> d then count_digit d (iCnt + 1) (uiNum - d) else Some (iCnt, uiNum))"

text \<open>One round of the loop over the digits; \<open>pb\<close> is the output, its length and the flag \<open>iPrintZeros\<close>.\<close>

definition print_digit :: "u32 \<Rightarrow> u8 list \<times> nat \<times> bool \<Rightarrow> u32 \<Rightarrow> ((u8 list \<times> nat \<times> bool) \<times> u32) option" where
  "print_digit d pb uiNum =
     do {
       (iCnt, uiNum) \<leftarrow> count_digit d 0 uiNum;
       case pb of (pcPrint, sizLen, iPrintZeros) \<Rightarrow>
         if iPrintZeros \<or> 0 <s iCnt
         then Some ((pcPrint[sizLen := ucast (0x30 OR iCnt)], sizLen + 1, True), uiNum)
         else Some (pb, uiNum)
     }"

definition printBlocksize :: "u8 list \<Rightarrow> u32 \<Rightarrow> (u8 list \<times> u32) option" where
  "printBlocksize pcPrint uiNum =
     do {
       (pb, uiNum) \<leftarrow> print_digit (auiNumToAscii ! 3) (pcPrint, 0, False) uiNum;
       (pb, uiNum) \<leftarrow> print_digit (auiNumToAscii ! 2) pb uiNum;
       (pb, uiNum) \<leftarrow> print_digit (auiNumToAscii ! 1) pb uiNum;
       ((pcPrint, sizLen, _), uiNum) \<leftarrow> print_digit (auiNumToAscii ! 0) pb uiNum;
       Some (pcPrint[sizLen := ucast (0x30 OR uiNum), sizLen + 1 := 0], of_nat (sizLen + 2))
     }"

definition tftp_open ::
    "'w stack_env \<Rightarrow> 'w crypt \<Rightarrow> ptr \<Rightarrow> ptr \<Rightarrow> u32 \<Rightarrow> ('d, 'w, 'z) tftp_scheme \<Rightarrow> (int \<times> ('d, 'w, 'z) tftp_scheme) option" where
  "tftp_open pf hw pcFileName pucDst uiBlkSize s =
     do {
       (txt, len) \<leftarrow> printBlocksize (acBlockSize s) uiBlkSize;
       let s = s\<lparr>uiBlockSize := uiBlkSize, pucDstBuffer := pucDst, acBlockSize := txt, sizBlockSizeLen := len\<rparr>;
       let uiTftpPort = uiPortCounter s;
       let s = s\<lparr>uiPortCounter := uiPortCounter s + 1\<rparr>;
       let s = (if uiPortCounter s > 65535 then s\<lparr>uiPortCounter := 1024\<rparr> else s);
       let s = s\<lparr>env := sha384_initialize hw (env s), ulLoadedBytes := 0\<rparr>;
       let (a, s) = udp_registerPort (ucast (MUS2NUS uiTftpPort)) (ulTftpIp (eth_options s))
         (ucast (MUS2NUS (ucast (usTftpPort (eth_options s))))) tftp_rec NULL s;
       let s = s\<lparr>tftp_ptAssoc := a\<rparr>;
       if a \<noteq> None then
         do {
           (iResult, s) \<leftarrow> tftp_send_open_packet pf (s\<lparr>pcTftpFileName := pcFileName\<rparr>);
           Some (iResult, if iResult = 0 then tftp_good_packet pf (s\<lparr>tftp_tState := TFTPSTATE_Init\<rparr>) else tftp_cleanup s)
         }
       else Some (-1, s)
     }"

definition tftp_timer :: "'w stack_env \<Rightarrow> ('d, 'w, 'z) tftp_scheme \<Rightarrow> ('d, 'w, 'z) tftp_scheme option" where
  "tftp_timer pf s =
     (if tftp_tState s = TFTPSTATE_Init \<or> tftp_tState s = TFTPSTATE_Transfer then
        case is_elapsed pf (tftp_ulLastGoodPacket s) (ucast (usTftpTimeout (eth_options s))) s of (iRes, s) \<Rightarrow>
          if iRes \<noteq> 0 then
            if tftp_uiRetryCnt s > 0 then
              do {
                s \<leftarrow> (if tftp_tState s = TFTPSTATE_Init then map_option snd (tftp_send_open_packet pf s)
                      else if tftp_tState s = TFTPSTATE_Transfer then Some (snd (tftp_send_ack_packet pf s)) else Some s);
                case get_ms pf s of (t, s) \<Rightarrow>
                  Some (s\<lparr>tftp_ulLastGoodPacket := t, tftp_uiRetryCnt := tftp_uiRetryCnt s - 1\<rparr>)
              }
            else Some (tftp_fail s)
          else Some s
      else Some s)"

definition tftp_getDataPointer :: "('d, 'w, 'z) tftp_scheme \<Rightarrow> ptr" where
  "tftp_getDataPointer s = pucDstBuffer s"

definition tftp_getLoadedBytes :: "('d, 'w, 'z) tftp_scheme \<Rightarrow> u32" where
  "tftp_getLoadedBytes s = ulLoadedBytes s"

definition tftp_getHash :: "('d, 'w, 'z) tftp_scheme \<Rightarrow> u8 list" where
  "tftp_getHash s = tftp_aulHash s"

subsection \<open>Copying\<close>

lemma copy_loop_spec:
  assumes "rdbytes m src (length bs) = bs" and "unat src + length bs < 4294967296"
    and "ranges_disjoint src (length bs) dst (length bs)"
  shows "copy_loop hw dst src (src + of_nat (length bs)) m w = (wrbytes m dst bs, fold (wr_sha_din_uc hw) bs w)"
  using assms
proof (induction bs arbitrary: m src dst w)
  case Nil
  then show ?case by (simp add: copy_loop.simps)
next
  case (Cons b bs)
  have d: "ranges_disjoint (src + of_nat 1) (length bs) (dst + of_nat 0) 1" "ranges_disjoint (src + of_nat 1) (length bs) (dst + of_nat 1) (length bs)"
    by (rule ranges_disjoint_sub [OF Cons.prems(3)], simp, simp)+
  have b: "m src = b" "rdbytes m (src + 1) (length bs) = bs" using Cons.prems(1) by simp_all
  have u: "unat (src + of_nat (length (b # bs))) = unat src + length (b # bs)" "unat (src + of_nat 1) = unat src + 1"
    using Cons.prems(2) by (intro unat_add_len; simp)+
  then have lt: "src < src + of_nat (length (b # bs))" unfolding word_less_nat_alt by simp
  have h: "rdbytes (m(dst := b)) (src + 1) (length bs) = bs"
    using b(2) d(1) rdbytes_wrbytes_disjoint [of "src + 1" "length bs" dst "[b]" m] by simp
  have "copy_loop hw (dst + 1) (src + 1) (src + 1 + of_nat (length bs)) (m(dst := b)) (wr_sha_din_uc hw b w) =
      (wrbytes (m(dst := b)) (dst + 1) bs, fold (wr_sha_din_uc hw) bs (wr_sha_din_uc hw b w))"
    using Cons.IH [OF h _ d(2) [unfolded of_nat_1]] u(2) Cons.prems(2) by (simp add: fun_upd_def)
  then show ?case using lt b(1) by (subst copy_loop.simps) (simp add: Let_def add.assoc)
qed

lemma fold_sha_stream:
  assumes "crypt_unit hw stream digest ready"
  shows "stream (fold (wr_sha_din_uc hw) bs w) = stream w @ bs"
  by (induction bs arbitrary: w) (simp_all add: wr_sha_din_stream [OF assms])

subsection \<open>The block size as text\<close>

lemma count_digit_spec:
  assumes "0 < d"
  shows "count_digit d c n = Some (c + n div d, n mod d)"
proof (induction "unat n" arbitrary: c n rule: less_induct)
  case less
  show ?case
  proof (cases "d \<le> n")
    case True
    have "unat (n - d) < unat n" using True assms by (simp add: unat_sub word_less_nat_alt word_le_nat_alt)
    then have "count_digit d (c + 1) (n - d) = Some (c + 1 + (n - d) div d, (n - d) mod d)" by (rule less)
    moreover have "(n - d) mod d = n mod d"
      using True assms by (simp add: word_unat_eq_iff unat_mod_distrib unat_sub word_le_nat_alt word_less_nat_alt le_mod_geq)
    moreover have "1 + (n - d) div d = n div d"
    proof -
      have q: "Suc ((unat n - unat d) div unat d) = unat n div unat d"
        using True assms by (simp add: word_le_nat_alt word_less_nat_alt le_div_geq)
      have "unat n div unat d < 4294967296" by (rule order_le_less_trans [OF div_le_dividend unat_u32_less])
      then show ?thesis using True q
        by (simp add: word_unat_eq_iff unat_word_ariths unat_div_distrib unat_sub word_le_nat_alt)
    qed
    ultimately show ?thesis using True by (subst count_digit.simps) (simp add: add.assoc)
  next
    case False
    then have "n < d" by simp
    then have "n div d = 0" "n mod d = n" by (simp_all add: word_unat_eq_iff unat_div_distrib unat_mod_distrib word_less_nat_alt)
    then show ?thesis using False by (subst count_digit.simps) simp
  qed
qed

lemma digit_char:
  assumes "unat (i :: u32) < 10"
  shows "(ucast (0x30 OR i) :: u8) = 48 + of_nat (unat i)" "0 <s i \<longleftrightarrow> unat i \<noteq> 0"
proof -
  have "unat i = 0 \<or> unat i = 1 \<or> unat i = 2 \<or> unat i = 3 \<or> unat i = 4 \<or> unat i = 5 \<or> unat i = 6 \<or> unat i = 7 \<or>
      unat i = 8 \<or> unat i = 9" using assms by arith
  then have i: "i = 0 \<or> i = 1 \<or> i = 2 \<or> i = 3 \<or> i = 4 \<or> i = 5 \<or> i = 6 \<or> i = 7 \<or> i = 8 \<or> i = 9"
    by (simp add: word_unat_eq_iff)
  show "(ucast (0x30 OR i) :: u8) = 48 + of_nat (unat i)" using i by (elim disjE) simp_all
  show "0 <s i \<longleftrightarrow> unat i \<noteq> 0" using i by (elim disjE) (simp_all add: word_sless_alt)
qed

lemma print_digit_spec:
  assumes "0 < d" and "unat n div unat d < 10"
  shows "print_digit d (out, k, z) n =
    Some (if z \<or> unat n div unat d \<noteq> 0 then (out[k := 48 + of_nat (unat n div unat d)], k + 1, True) else (out, k, z), n mod d)"
proof -
  have u: "unat (n div d) = unat n div unat d" by (rule unat_div_distrib)
  have c: "(ucast (0x30 OR n div d) :: u8) = 48 + of_nat (unat n div unat d)" using digit_char(1) [of "n div d"] assms(2) u by simp
  have "0 <s n div d \<longleftrightarrow> unat n div unat d \<noteq> 0" using digit_char(2) [of "n div d"] assms(2) u by simp
  then show ?thesis using count_digit_spec [OF assms(1), of 0 n] c by (simp add: print_digit_def)
qed

text \<open>The decimal digits of a number.\<close>

fun dec :: "nat \<Rightarrow> u8 list" where
  "dec n = (if n < 10 then [48 + of_nat n] else dec (n div 10) @ [48 + of_nat (n mod 10)])"

declare dec.simps [simp del]

text \<open>The text of the block size is its decimal number: for every block size of at most five digits the loops end and
  the buffer of six characters starts with the digits, without leading zeros, and the terminating zero, and the length
  counts them.\<close>

theorem printBlocksize_decimal:
  assumes "unat n < 100000" and "length xs = 6"
  shows "printBlocksize xs n = Some (dec (unat n) @ 0 # drop (Suc (length (dec (unat n)))) xs, of_nat (Suc (length (dec (unat n)))))"
proof -
  define N where "N = unat n"
  have N: "N < 100000" using assms(1) by (simp add: N_def)
  obtain t0 t1 t2 t3 t4 t5 where xs: "xs = [t0, t1, t2, t3, t4, t5]"
    using assms(2) by (auto simp: length_Suc_conv numeral_eq_Suc)
  let ?n3 = "n mod 10000"
  let ?n2 = "?n3 mod 1000"
  let ?n1 = "?n2 mod 100"
  let ?n0 = "?n1 mod 10"
  have u: "unat ?n3 = N mod 10000" "unat ?n2 = N mod 1000" "unat ?n1 = N mod 100" "unat ?n0 = N mod 10"
    by (simp_all add: unat_mod_distrib N_def mod_mod_cancel)
  have d: "N div 10000 < 10" "N mod 10000 div 1000 < 10" "N mod 1000 div 100 < 10" "N mod 100 div 10 < 10" using N by auto
  note pd = print_digit_spec [of 10000 n, unfolded N_def [symmetric]] print_digit_spec [of 1000 ?n3, unfolded u]
    print_digit_spec [of 100 ?n2, unfolded u] print_digit_spec [of 10 ?n1, unfolded u]
  have last: "(ucast (0x30 OR ?n0) :: u8) = 48 + of_nat (N mod 10)" using digit_char(1) [of ?n0] u by simp
  have digits: "N div 10 mod 10 = N mod 100 div 10" "N div 100 mod 10 = N mod 1000 div 100" "N div 1000 mod 10 = N mod 10000 div 1000"
    by (simp_all add: mod_mult2_eq [of N 10 10, simplified] mod_mult2_eq [of N 100 10, simplified] mod_mult2_eq [of N 1000 10, simplified])
  consider "N < 10" | "10 \<le> N" "N < 100" | "100 \<le> N" "N < 1000" | "1000 \<le> N" "N < 10000" | "10000 \<le> N" by linarith
  then have "printBlocksize [t0, t1, t2, t3, t4, t5] n =
    Some (dec N @ 0 # drop (Suc (length (dec N))) [t0, t1, t2, t3, t4, t5], of_nat (Suc (length (dec N))))"
  proof cases
    case 1
    then show ?thesis using pd d last by (simp add: printBlocksize_def auiNumToAscii_def dec.simps [of N])
  next
    case 2
    then show ?thesis using pd d last digits
      by (simp add: printBlocksize_def auiNumToAscii_def dec.simps [of N] dec.simps [of "N div 10"] div_less)
  next
    case 3
    then show ?thesis using pd d last digits
      by (simp add: printBlocksize_def auiNumToAscii_def dec.simps [of N] dec.simps [of "N div 10"] dec.simps [of "N div 100"] div_mult2_eq [symmetric] div_less_iff_less_mult div_greater_zero_iff)
  next
    case 4
    then show ?thesis using pd d last digits
      by (simp add: printBlocksize_def auiNumToAscii_def dec.simps [of N] dec.simps [of "N div 10"] dec.simps [of "N div 100"]
        dec.simps [of "N div 1000"] div_mult2_eq [symmetric] div_less_iff_less_mult div_greater_zero_iff)
  next
    case 5
    then show ?thesis using pd d last digits
      by (simp add: printBlocksize_def auiNumToAscii_def dec.simps [of N] dec.simps [of "N div 10"] dec.simps [of "N div 100"]
        dec.simps [of "N div 1000"] dec.simps [of "N div 10000"] div_mult2_eq [symmetric] div_less_iff_less_mult div_greater_zero_iff)
  qed
  then show ?thesis by (simp only: N_def xs)
qed

text \<open>Witness: the block size 1468.\<close>

theorem printBlocksize_decimal_witness:
  "printBlocksize (replicate 6 0) 1468 = Some ([0x31, 0x34, 0x36, 0x38, 0, 0], 5)"
proof -
  have "dec 1468 = [0x31, 0x34, 0x36, 0x38]" by (simp add: dec.simps [of 1468] dec.simps [of 146] dec.simps [of 14] dec.simps [of "Suc 0"])
  then show ?thesis using printBlocksize_decimal [of 1468 "replicate 6 0"] by simp
qed

subsection \<open>What the operations leave unchanged\<close>

lemma ipv4_keeps_tftp:
  "ipv4_keeps s s' \<Longrightarrow> atUdpPortAssoc s' = atUdpPortAssoc s \<and> tftp_tState s' = tftp_tState s \<and> tftp_ptAssoc s' = tftp_ptAssoc s \<and>
     tftp_uiRetryCnt s' = tftp_uiRetryCnt s \<and> uiExpectedBlockNr s' = uiExpectedBlockNr s \<and> uiBlockSize s' = uiBlockSize s \<and>
     ulLoadedBytes s' = ulLoadedBytes s \<and> pucDstBuffer s' = pucDstBuffer s \<and> tftp_aulHash s' = tftp_aulHash s \<and>
     g_t_romloader_options s' = g_t_romloader_options s"
  by (cases s; cases s') (simp add: ipv4_keeps_def)

lemma ipv4_keeps_ack [simp]: "ipv4_keeps s (snd (tftp_send_ack_packet pf s')) \<longleftrightarrow> ipv4_keeps s s'"
  by (simp add: tftp_send_ack_packet_def Let_def case_prod_beta udp_send_keeps)

lemma tftp_time_keeps [simp]:
  "tftp_tState (snd (get_ms pf s)) = tftp_tState s" "tftp_ptAssoc (snd (get_ms pf s)) = tftp_ptAssoc s"
  "tftp_uiRetryCnt (snd (get_ms pf s)) = tftp_uiRetryCnt s" "uiExpectedBlockNr (snd (get_ms pf s)) = uiExpectedBlockNr s"
  "uiBlockSize (snd (get_ms pf s)) = uiBlockSize s" "ulLoadedBytes (snd (get_ms pf s)) = ulLoadedBytes s"
  "pucDstBuffer (snd (get_ms pf s)) = pucDstBuffer s" "tftp_aulHash (snd (get_ms pf s)) = tftp_aulHash s"
  "mem (snd (get_ms pf u)) = mem u"
  "tftp_tState (snd (is_elapsed pf a b s)) = tftp_tState s" "tftp_ptAssoc (snd (is_elapsed pf a b s)) = tftp_ptAssoc s"
  "tftp_uiRetryCnt (snd (is_elapsed pf a b s)) = tftp_uiRetryCnt s"
  by (simp_all add: get_ms_def is_elapsed_def split: prod.split)

lemma tftp_cleanup_simps [simp]:
  "tftp_ptAssoc (tftp_cleanup s) = None" "tftp_tState (tftp_cleanup s) = tftp_tState s" "mem (tftp_cleanup s) = mem s"
  "env (tftp_cleanup s) = env s" "ulLoadedBytes (tftp_cleanup s) = ulLoadedBytes s" "tftp_aulHash (tftp_cleanup s) = tftp_aulHash s"
  "pucDstBuffer (tftp_cleanup s) = pucDstBuffer s" "length (atUdpPortAssoc (tftp_cleanup s)) = length (atUdpPortAssoc s)"
  "tftp_tState (tftp_fail s) = TFTPSTATE_Error" "tftp_ptAssoc (tftp_fail s) = None"
  "length (atUdpPortAssoc (tftp_fail s)) = length (atUdpPortAssoc s)"
  by (auto simp: tftp_cleanup_def tftp_fail_def udp_unregisterPort_def split: option.split)

end
