(* ===== verification/Tftp_Transfer.thy ===== *)
theory Tftp_Transfer
  imports Tftp
begin

text \<open>
  Transfers of the TFTP client: blocks that arrive in order are stored one behind the other and hashed, until a
  short block ends the transfer. The arrival of the packets is a parameter.
\<close>

subsection \<open>A transfer\<close>

text \<open>The bytes that are loaded so far: in the buffer, in the crypto unit and in the counters. \<open>stream\<close> gives the
  bytes the crypto unit got.\<close>

definition tftp_loaded :: "('w \<Rightarrow> u8 list) \<Rightarrow> ptr \<Rightarrow> u8 list \<Rightarrow> ('d, 'w, 'z) tftp_scheme \<Rightarrow> bool" where
  "tftp_loaded stream dst bs s \<longleftrightarrow> rdbytes (mem s) dst (length bs) = bs \<and> pucDstBuffer s = dst + of_nat (length bs) \<and>
     ulLoadedBytes s = of_nat (length bs) \<and> stream (env s) = bs"

text \<open>A data packet with the number \<open>nr\<close> and \<open>n\<close> bytes in the frame at \<open>p\<close>.\<close>

definition tftp_block_at :: "memory \<Rightarrow> ptr \<Rightarrow> u32 \<Rightarrow> u32 \<Rightarrow> u8 list \<Rightarrow> bool" where
  "tftp_block_at m p nr n bs \<longleftrightarrow> rd16 m (tftp_usOpcode p) = TFTP_OPCODE_Data \<and> NUS2MUS (rd16 m (tftp_usBlockNr p)) = nr \<and>
     n = 4 + of_nat (length bs) \<and> length bs \<le> 1514 \<and> rdbytes m (tftp_data p) (length bs) = bs"

text \<open>The buffer of \<open>cap\<close> bytes at \<open>dst\<close> does not touch a frame.\<close>

definition away :: "(ptr \<Rightarrow> bool) \<Rightarrow> ptr \<Rightarrow> nat \<Rightarrow> bool" where
  "away frm dst cap \<longleftrightarrow> unat dst + cap < 4294967296 \<and>
     (\<forall>p. frm p \<longrightarrow> unat p + 1560 < 4294967296 \<and> ranges_disjoint dst cap p (unat ETH_FRAME_BUF_SIZE) \<and>
        ranges_disjoint p (unat ETH_FRAME_BUF_SIZE) dst cap)"

text \<open>The copy of a block behind the loaded bytes.\<close>

lemma copy_data_loads:
  assumes cu: "crypt_unit hw stream digest ready" and ld: "tftp_loaded stream dst file s" and pkt: "tftp_block_at (mem s) p nr n bs"
    and fr: "frm p" and aw: "away frm dst cap" and sz: "length file + length bs \<le> cap"
  defines "s1 \<equiv> copy_data hw (pucDstBuffer s) (tftp_data p) (of_nat (length bs)) s"
  shows "tftp_loaded stream dst (file @ bs) (s1\<lparr>pucDstBuffer := pucDstBuffer s1 + of_nat (length bs),
      ulLoadedBytes := ulLoadedBytes s1 + of_nat (length bs)\<rparr>) \<and> (\<exists>m w. s1 = s\<lparr>mem := m, env := w\<rparr>)"
proof -
  let ?src = "p + 46" and ?d = "dst + of_nat (length file)"
  have b: "rdbytes (mem s) ?src (length bs) = bs" "length bs \<le> 1514" using pkt by (simp_all add: tftp_block_at_def)
  have a: "unat dst + cap < 4294967296" "unat p + 1560 < 4294967296" "ranges_disjoint p 1560 dst cap"
    using aw fr by (simp_all add: away_def ETH_FRAME_BUF_SIZE_def)
  have "unat (p + of_nat 46) = unat p + 46" using a(2) by (intro unat_add_len) simp
  then have us: "unat ?src + length bs < 4294967296" using a(2) b(2) by simp
  have "ranges_disjoint (p + of_nat 46) (length bs) ?d (length bs)"
    using b(2) sz by (intro ranges_disjoint_sub [OF a(3)]) simp_all
  then have cp: "copy_loop hw ?d ?src (?src + of_nat (length bs)) (mem s) (env s) =
      (wrbytes (mem s) ?d bs, fold (wr_sha_din_uc hw) bs (env s))" using b(1) us by (intro copy_loop_spec) simp_all
  have pd: "pucDstBuffer s = ?d" using ld by (simp add: tftp_loaded_def)
  have s1: "s1 = s\<lparr>mem := wrbytes (mem s) ?d bs, env := fold (wr_sha_din_uc hw) bs (env s)\<rparr>"
    by (simp add: s1_def copy_data_def pd cp)
  have "ranges_disjoint dst (length file) ?d (length bs)"
    using a(1) sz unat_add_len [of dst "length file"] by (intro ranges_disjointI) auto
  then have "rdbytes (wrbytes (mem s) ?d bs) dst (length file) = file"
    using ld by (simp add: rdbytes_wrbytes_disjoint tftp_loaded_def)
  moreover have "rdbytes (wrbytes (mem s) ?d bs) ?d (length bs) = bs" using b(2) by simp
  ultimately have "rdbytes (wrbytes (mem s) ?d bs) dst (length (file @ bs)) = file @ bs" by (simp add: rdbytes_add)
  then have "tftp_loaded stream dst (file @ bs) (s1\<lparr>pucDstBuffer := pucDstBuffer s1 + of_nat (length bs),
      ulLoadedBytes := ulLoadedBytes s1 + of_nat (length bs)\<rparr>)"
    using ld fold_sha_stream [OF cu, of bs "env s"] by (simp add: s1 tftp_loaded_def add.assoc)
  then show ?thesis using s1 by blast
qed

text \<open>The packets of a transfer: \<open>deliver i\<close> puts the block \<open>i\<close> into a frame and says where; the handler gets it.\<close>

fun tftp_transfer ::
    "'w stack_env \<Rightarrow> 'w crypt \<Rightarrow> (u8 list \<Rightarrow> u32 \<Rightarrow> u32 \<Rightarrow> 'w \<Rightarrow> (u8 list \<times> 'w) option) \<Rightarrow>
     (nat \<Rightarrow> ('d, 'w, 'z) tftp_scheme \<Rightarrow> ptr \<times> u32 \<times> ('d, 'w, 'z) tftp_scheme) \<Rightarrow> nat \<Rightarrow> nat \<Rightarrow>
     ('d, 'w, 'z) tftp_scheme \<Rightarrow> ('d, 'w, 'z) tftp_scheme option" where
  "tftp_transfer pf hw fin deliver i 0 s = Some s"
| "tftp_transfer pf hw fin deliver i (Suc k) s =
     (case deliver i s of (p, n, s) \<Rightarrow>
        Option.bind (tftp_recHandler pf hw fin p n s) (tftp_transfer pf hw fin deliver (Suc i) k))"

text \<open>What the arrival of a packet may change: the memory of the frames and the driver. At most \<open>kmax\<close> frames are
  in the pool or wait. The number of a block has 16 bits.\<close>

definition delivers ::
    "'d NETWORK_IF_T \<Rightarrow> ('d \<Rightarrow> bool) \<Rightarrow> ('d \<Rightarrow> nat) \<Rightarrow> (ptr \<Rightarrow> bool) \<Rightarrow> nat \<Rightarrow> u8 list list \<Rightarrow>
     (nat \<Rightarrow> ('d, 'w, 'z) tftp_scheme \<Rightarrow> ptr \<times> u32 \<times> ('d, 'w, 'z) tftp_scheme) \<Rightarrow> bool" where
  "delivers nif ok pool frm kmax blocks deliver \<longleftrightarrow>
     (\<forall>i < length blocks. \<forall>s p n s'. deliver i s = (p, n, s') \<longrightarrow>
        frm p \<and> tftp_block_at (mem s') p (of_nat (Suc i) AND 0xffff) n (blocks ! i) \<and> outside_frames frm (mem s) (mem s') \<and>
        (\<exists>m d. s' = s\<lparr>mem := m, drv := d\<rparr>) \<and>
        (\<forall>k \<le> kmax. frame_acct nif ok pool frm k s \<longrightarrow> (\<exists>k' \<le> kmax. frame_acct nif ok pool frm k' s')))"

lemma next_block_nr: "((of_nat i AND 0xffff) + 1) AND 0xffff = (of_nat (Suc i) AND 0xffff :: u32)"
proof -
  have e: "(0xffff :: u32) = mask 16" by (simp add: mask_eq_exp_minus_1)
  show ?thesis unfolding e word_unat_eq_iff unat_and_mask
    by (simp add: unat_word_ariths unat_and_mask unat_of_nat mod_mod_cancel mod_Suc_eq)
qed

text \<open>Memory that changes only inside frames keeps the loaded bytes.\<close>

lemma tftp_loaded_outside:
  assumes "tftp_loaded stream dst bs s" and "outside_frames frm (mem s) (mem s')" and "away frm dst cap" and "length bs \<le> cap"
    and "pucDstBuffer s' = pucDstBuffer s" and "ulLoadedBytes s' = ulLoadedBytes s" and "stream (env s') = stream (env s)"
  shows "tftp_loaded stream dst bs s'"
proof -
  have "\<forall>p. frm p \<longrightarrow> ranges_disjoint dst (length bs) p (unat ETH_FRAME_BUF_SIZE)"
    using assms(3,4) ranges_disjoint_sub [of dst cap _ "unat ETH_FRAME_BUF_SIZE" 0 "length bs" 0 "unat ETH_FRAME_BUF_SIZE"]
    by (auto simp: away_def)
  then show ?thesis using assms(1,5-7) outside_rdbytes [OF assms(2)] by (simp add: tftp_loaded_def)
qed

context network_if
begin

lemma ack_step:
  assumes "acct k s" and "k \<le> cap" and "typed s" and "time_keeps pf f"
  defines "s' \<equiv> snd (tftp_send_ack_packet pf s)"
  shows "\<exists>k' \<le> k. acct k' s'" and "typed s'" and "outside_frames frame (mem s) (mem s')" and "f (env s') = f (env s)"
proof -
  obtain p s1 where e: "eth_get_empty_packet s = (p, s1)" by force
  have s1: "typed s1" "mem s1 = mem s" "env s1 = env s"
    using assms(3) typed_eth(2) [of s] mem_eth_get_empty_packet [of s] env_eth(2) [of s] e by simp_all
  have "(\<exists>k' \<le> k. acct k' s') \<and> typed s' \<and> outside_frames frame (mem s) (mem s') \<and> f (env s') = f (env s)"
  proof (cases "p = NULL")
    case True
    then show ?thesis using acct_get_empty [OF assms(1) e] s1 e by (auto simp: s'_def tftp_send_ack_packet_def)
  next
    case False
    let ?m = "wr16 (wr16 (mem s) (p + 42) TFTP_OPCODE_Ack) (p + 44) (MUS2NUS (uiExpectedBlockNr s1))"
    have s': "s' = udp_send_packet pf p 4 (tftp_ptAssoc s1) (s1\<lparr>mem := ?m\<rparr>)"
      using e False s1 by (simp add: s'_def tftp_send_ack_packet_def Let_def)
    have f: "frame p" "uses_if nif if_ok s1" using acct_get_empty [OF assms(1) e] False by (simp_all add: frame_acct_def)
    have "outside_frames frame (mem s) ?m" using f(1) by (simp add: outside_writes)
    moreover have "outside_frames frame ?m (mem s')"
      using outside_udp_send [of "s1\<lparr>mem := ?m\<rparr>" p pf 4] f s1 unfolding s' by simp
    ultimately have "outside_frames frame (mem s) (mem s')" by (rule outside_trans)
    moreover have "\<exists>k' \<le> k. acct k' s'" using acct_build_udp [OF assms(1,2) e False] unfolding s' by simp
    ultimately show ?thesis using s1 unfolding s' by (simp add: time_keeps_udp_send [OF assms(4)])
  qed
  then show "\<exists>k' \<le> k. acct k' s'" "typed s'" "outside_frames frame (mem s) (mem s')" "f (env s') = f (env s)" by simp_all
qed

text \<open>The state after the acknowledgement of a block.\<close>

lemma good_packet_step:
  assumes "acct k s" and "k \<le> cap" and "typed s" and "time_keeps pf stream" and "tftp_loaded stream dst bs s"
    and "away frame dst c" and "length bs \<le> c"
  defines "s' \<equiv> tftp_good_packet pf (snd (tftp_send_ack_packet pf s))"
  shows "(\<exists>k' \<le> k. acct k' s') \<and> typed s' \<and> tftp_loaded stream dst bs s' \<and> tftp_tState s' = tftp_tState s \<and>
    tftp_ptAssoc s' = tftp_ptAssoc s \<and> uiExpectedBlockNr s' = uiExpectedBlockNr s \<and> uiBlockSize s' = uiBlockSize s \<and>
    tftp_aulHash s' = tftp_aulHash s \<and> atUdpPortAssoc s' = atUdpPortAssoc s"
proof -
  let ?a = "snd (tftp_send_ack_packet pf s)"
  note ack = ack_step [OF assms(1-4)]
  have k: "tftp_tState ?a = tftp_tState s \<and> tftp_ptAssoc ?a = tftp_ptAssoc s \<and> uiExpectedBlockNr ?a = uiExpectedBlockNr s \<and>
    uiBlockSize ?a = uiBlockSize s \<and> ulLoadedBytes ?a = ulLoadedBytes s \<and> pucDstBuffer ?a = pucDstBuffer s \<and>
    tftp_aulHash ?a = tftp_aulHash s \<and> atUdpPortAssoc ?a = atUdpPortAssoc s"
    using ipv4_keeps_tftp [of s ?a] by simp
  have l: "tftp_loaded stream dst bs ?a" using k ack by (intro tftp_loaded_outside [OF assms(5) _ assms(6,7)]) simp_all
  let ?g = "snd (get_ms pf ?a)"
  have g: "acct j ?g \<longleftrightarrow> acct j ?a" for j by simp
  have s': "s' = ?g\<lparr>tftp_ulLastGoodPacket := fst (get_ms pf ?a), tftp_uiRetryCnt := ucast (ucTftpRetries (eth_options ?g))\<rparr>"
    by (simp add: s'_def tftp_good_packet_def case_prod_beta)
  have "acct j s' \<longleftrightarrow> acct j ?g" "typed s' \<longleftrightarrow> typed ?g" for j unfolding s' by (simp_all add: frame_acct_def uses_if_def typed_def)
  moreover have "tftp_loaded stream dst bs s'"
    using l time_keeps_get_ms [OF assms(4), of ?a] by (simp add: s' tftp_loaded_def)
  ultimately show ?thesis using g ack(1,2) k by (simp add: s')
qed

text \<open>The next block of a transfer.\<close>

lemma block_step:
  assumes cu: "crypt_unit hw stream digest ready" and tk: "time_keeps pf stream" and "tftp_loaded stream dst file s"
    and pkt: "tftp_block_at (mem s) p ((uiExpectedBlockNr s + 1) AND 0xffff) n bs" and "frame p" and aw: "away frame dst c"
    and sz: "length file + length bs \<le> c" and ac: "acct k s" "k \<le> cap" and "typed s" and "tftp_tState s = TFTPSTATE_Transfer"
  shows "\<exists>s1 k'. k' \<le> k \<and> acct k' s1 \<and> typed s1 \<and> tftp_loaded stream dst (file @ bs) s1 \<and> tftp_tState s1 = TFTPSTATE_Transfer \<and>
    uiExpectedBlockNr s1 = (uiExpectedBlockNr s + 1) AND 0xffff \<and> uiBlockSize s1 = uiBlockSize s \<and> tftp_aulHash s1 = tftp_aulHash s \<and>
    tftp_recHandler pf hw fin p n s = (if of_nat (length bs) < uiBlockSize s then
      let s2 = tftp_cleanup (s1\<lparr>tftp_tState := TFTPSTATE_Finished\<rparr>) in
        Option.bind (fin (tftp_aulHash s2) 12 (ulLoadedBytes s2) (env s2)) (\<lambda>(hash, w). Some (s2\<lparr>tftp_aulHash := hash, env := w\<rparr>))
      else Some s1)"
proof -
  let ?nr = "(uiExpectedBlockNr s + 1) AND 0xffff"
  let ?s = "s\<lparr>uiExpectedBlockNr := ?nr\<rparr>"
  have "tftp_loaded stream dst file ?s" "tftp_block_at (mem ?s) p ?nr n bs" using assms(3) pkt by (simp_all add: tftp_loaded_def)
  note cd = copy_data_loads [OF cu this \<open>frame p\<close> aw sz]
  let ?c = "copy_data hw (pucDstBuffer s) (p + 46) (of_nat (length bs)) ?s"
  define s0 where "s0 = (if (of_nat (length bs) :: u32) \<noteq> 0
    then ?c\<lparr>pucDstBuffer := pucDstBuffer ?c + of_nat (length bs), ulLoadedBytes := ulLoadedBytes ?c + of_nat (length bs)\<rparr> else ?s)"
  have b: "rd16 (mem s) (p + 42) = TFTP_OPCODE_Data" "NUS2MUS (rd16 (mem s) (p + 44)) = ?nr" "n = 4 + of_nat (length bs)" "length bs \<le> 1514"
    using pkt by (simp_all add: tftp_block_at_def)
  have "unat (of_nat (length bs) :: u32) = length bs" using b(4) by (simp add: unat_of_nat)
  then have z: "(of_nat (length bs) :: u32) = 0 \<longleftrightarrow> bs = []" using unat_eq_zero [of "of_nat (length bs) :: u32"] by simp
  obtain m w where c: "?c = ?s\<lparr>mem := m, env := w\<rparr>" using cd by auto
  have l0: "tftp_loaded stream dst (file @ bs) s0"
    using cd assms(3) z by (cases "bs = []") (simp_all add: s0_def tftp_loaded_def)
  have k0: "acct j s0 \<longleftrightarrow> acct j s" "typed s0 \<longleftrightarrow> typed s" "tftp_tState s0 = TFTPSTATE_Transfer" "uiExpectedBlockNr s0 = ?nr"
    "uiBlockSize s0 = uiBlockSize s" "tftp_aulHash s0 = tftp_aulHash s" for j
    using assms(11) by (simp_all add: s0_def c frame_acct_def uses_if_def typed_def)
  define s1 where "s1 = tftp_good_packet pf (snd (tftp_send_ack_packet pf s0))"
  have g: "(\<exists>k' \<le> k. acct k' s1) \<and> typed s1 \<and> tftp_loaded stream dst (file @ bs) s1 \<and> tftp_tState s1 = tftp_tState s0 \<and>
    tftp_ptAssoc s1 = tftp_ptAssoc s0 \<and> uiExpectedBlockNr s1 = uiExpectedBlockNr s0 \<and> uiBlockSize s1 = uiBlockSize s0 \<and>
    tftp_aulHash s1 = tftp_aulHash s0 \<and> atUdpPortAssoc s1 = atUdpPortAssoc s0"
    unfolding s1_def using k0 ac \<open>typed s\<close> sz by (intro good_packet_step [OF _ _ _ tk l0 aw]) simp_all
  have op: "TFTP_OPCODE_Data \<noteq> TFTP_OPCODE_Error" by (simp add: tftp_opcode_defs MUS2NUS_def)
  have h: "tftp_recHandler pf hw fin p n s = (if of_nat (length bs) < uiBlockSize s then
      let s2 = tftp_cleanup (s1\<lparr>tftp_tState := TFTPSTATE_Finished\<rparr>) in
        Option.bind (fin (tftp_aulHash s2) 12 (ulLoadedBytes s2) (env s2)) (\<lambda>(hash, w). Some (s2\<lparr>tftp_aulHash := hash, env := w\<rparr>))
      else Some s1)"
  proof -
    have "n - 2 - 2 = of_nat (length bs)" by (simp add: b(3))
    then have "tftp_rec_block pf hw fin p n ?s = (if of_nat (length bs) < uiBlockSize s1 then
      let s2 = tftp_cleanup (s1\<lparr>tftp_tState := TFTPSTATE_Finished\<rparr>) in
        Option.bind (fin (tftp_aulHash s2) 12 (ulLoadedBytes s2) (env s2)) (\<lambda>(hash, w). Some (s2\<lparr>tftp_aulHash := hash, env := w\<rparr>))
      else Some s1)"
      by (simp add: tftp_rec_block_def Let_def s1_def s0_def)
    moreover have "uiBlockSize s1 = uiBlockSize s" using g k0(5) by simp
    moreover have "tftp_recHandler pf hw fin p n s = tftp_rec_block pf hw fin p n ?s"
      using b(1,2) op assms(11) by (simp add: tftp_recHandler_def tftp_rec_transfer_def Let_def)
    ultimately show ?thesis by (simp only:)
  qed
  from g obtain k' where k': "k' \<le> k" "acct k' s1" by blast
  show ?thesis by (rule exI [of _ s1], rule exI [of _ k'], intro conjI k' h) (use g k0 in simp_all)
qed

text \<open>The arrival and the handling of block \<open>i\<close>.\<close>

lemma deliver_step:
  assumes cu: "crypt_unit hw stream digest ready" and tk: "time_keeps pf stream"
    and dl: "delivers nif if_ok pool frame kmax blocks deliver" and km: "kmax \<le> cap"
    and aw: "away frame dst (length (concat blocks))" and i: "i < length blocks"
    and pr: "acct j s" "j \<le> kmax" "typed s" "tftp_loaded stream dst (concat (take i blocks)) s"
      "tftp_tState s = TFTPSTATE_Transfer" "uiExpectedBlockNr s = of_nat i AND 0xffff"
  shows "\<exists>p n s1 s2 k2. deliver i s = (p, n, s1) \<and> k2 \<le> kmax \<and> acct k2 s2 \<and> typed s2 \<and>
    tftp_loaded stream dst (concat (take (Suc i) blocks)) s2 \<and> tftp_tState s2 = TFTPSTATE_Transfer \<and>
    uiExpectedBlockNr s2 = of_nat (Suc i) AND 0xffff \<and> uiBlockSize s2 = uiBlockSize s \<and> tftp_aulHash s2 = tftp_aulHash s \<and>
    tftp_recHandler pf hw fin p n s1 = (if of_nat (length (blocks ! i)) < uiBlockSize s then
      let s3 = tftp_cleanup (s2\<lparr>tftp_tState := TFTPSTATE_Finished\<rparr>) in
        Option.bind (fin (tftp_aulHash s3) 12 (ulLoadedBytes s3) (env s3)) (\<lambda>(hash, w). Some (s3\<lparr>tftp_aulHash := hash, env := w\<rparr>))
      else Some s2)"
proof -
  obtain p n s1 where d: "deliver i s = (p, n, s1)" by (metis prod_cases3)
  have dd: "frame p" "tftp_block_at (mem s1) p (of_nat (Suc i) AND 0xffff) n (blocks ! i)" "outside_frames frame (mem s) (mem s1)"
    "\<exists>m d. s1 = s\<lparr>mem := m, drv := d\<rparr>" "\<exists>k' \<le> kmax. acct k' s1"
    using dl i d pr(1,2) unfolding delivers_def by blast+
  obtain k1 where k1: "k1 \<le> kmax" "acct k1 s1" using dd(5) by blast
  have e: "concat (take i blocks) @ blocks ! i = concat (take (Suc i) blocks)" using i by (simp add: take_Suc_conv_app_nth)
  have f: "typed s1" "tftp_tState s1 = TFTPSTATE_Transfer" "uiExpectedBlockNr s1 = of_nat i AND 0xffff" "uiBlockSize s1 = uiBlockSize s"
    "tftp_aulHash s1 = tftp_aulHash s" "pucDstBuffer s1 = pucDstBuffer s" "ulLoadedBytes s1 = ulLoadedBytes s" "env s1 = env s"
    using dd(4) pr by auto
  have "concat (take (Suc i) blocks) @ concat (drop (Suc i) blocks) = concat blocks" by (metis append_take_drop_id concat_append)
  then have sz: "length (concat (take i blocks)) + length (blocks ! i) \<le> length (concat blocks)"
    using arg_cong [OF e, of length] by (metis length_append le_add1)
  have l1: "tftp_loaded stream dst (concat (take i blocks)) s1"
    using f sz by (intro tftp_loaded_outside [OF pr(4) dd(3) aw]) simp_all
  have pk: "tftp_block_at (mem s1) p ((uiExpectedBlockNr s1 + 1) AND 0xffff) n (blocks ! i)"
    using dd(2) unfolding f(3) next_block_nr .
  have kc: "k1 \<le> cap" using k1(1) km by simp
  obtain s2 k2 where s2: "k2 \<le> k1" "acct k2 s2" "typed s2" "tftp_loaded stream dst (concat (take (Suc i) blocks)) s2"
    "tftp_tState s2 = TFTPSTATE_Transfer" "uiExpectedBlockNr s2 = of_nat (Suc i) AND 0xffff" "uiBlockSize s2 = uiBlockSize s"
    "tftp_aulHash s2 = tftp_aulHash s"
    "tftp_recHandler pf hw fin p n s1 = (if of_nat (length (blocks ! i)) < uiBlockSize s then
      let s3 = tftp_cleanup (s2\<lparr>tftp_tState := TFTPSTATE_Finished\<rparr>) in
        Option.bind (fin (tftp_aulHash s3) 12 (ulLoadedBytes s3) (env s3)) (\<lambda>(hash, w). Some (s3\<lparr>tftp_aulHash := hash, env := w\<rparr>))
      else Some s2)"
    using block_step [OF cu tk l1 pk dd(1) aw sz k1(2) kc f(1,2), of fin] unfolding e f(4,5) unfolding f(3) next_block_nr by blast
  have "k2 \<le> kmax" using s2(1) k1(1) by simp
  then show ?thesis using d s2(2-) by blast
qed

text \<open>The rest of a transfer from block \<open>i\<close> on.\<close>

lemma transfer_run:
  assumes cu: "crypt_unit hw stream digest ready" and tk: "time_keeps pf stream"
    and dl: "delivers nif if_ok pool frame kmax blocks deliver" and km: "kmax \<le> cap"
    and aw: "away frame dst (length (concat blocks))"
    and full: "\<And>j. Suc j < length blocks \<Longrightarrow> length (blocks ! j) = unat bsz"
    and short: "length (last blocks) < unat bsz"
    and fin: "\<And>h w. stream w = concat blocks \<Longrightarrow> fin h 12 (of_nat (length (concat blocks))) w \<noteq> None"
    and "i + Suc k = length blocks" and "acct j s" and "j \<le> kmax" and "typed s" and "tftp_loaded stream dst (concat (take i blocks)) s"
    and "tftp_tState s = TFTPSTATE_Transfer" and "uiExpectedBlockNr s = of_nat i AND 0xffff" and "uiBlockSize s = bsz"
  shows "\<exists>s' w. tftp_transfer pf hw fin deliver i (Suc k) s = Some s' \<and> tftp_tState s' = TFTPSTATE_Finished \<and>
    tftp_ptAssoc s' = None \<and> rdbytes (mem s') dst (length (concat blocks)) = concat blocks \<and>
    ulLoadedBytes s' = of_nat (length (concat blocks)) \<and> stream w = concat blocks \<and>
    fin (tftp_aulHash s) 12 (of_nat (length (concat blocks))) w = Some (tftp_aulHash s', env s')"
  using assms(9-)
proof (induction k arbitrary: i j s)
  case (0 i j s)
  have i: "i < length blocks" "i = length blocks - 1" "blocks \<noteq> []" and all: "take (Suc i) blocks = blocks" using 0(1) by auto
  obtain p n s1 s2 where d: "deliver i s = (p, n, s1)" and s2: "tftp_loaded stream dst (concat blocks) s2" "tftp_aulHash s2 = tftp_aulHash s"
    "tftp_recHandler pf hw fin p n s1 = (if of_nat (length (blocks ! i)) < bsz then
      let s3 = tftp_cleanup (s2\<lparr>tftp_tState := TFTPSTATE_Finished\<rparr>) in
        Option.bind (fin (tftp_aulHash s3) 12 (ulLoadedBytes s3) (env s3)) (\<lambda>(hash, w). Some (s3\<lparr>tftp_aulHash := hash, env := w\<rparr>))
      else Some s2)"
    using deliver_step [OF cu tk dl km aw i(1) 0(2-7), of fin] unfolding all 0(8) by blast
  have "length (blocks ! i) = length (last blocks)" using i by (simp add: last_conv_nth)
  then have lt: "of_nat (length (blocks ! i)) < bsz" using short unat_u32_less [of bsz]
    by (simp add: word_less_nat_alt unat_of_nat del: unat_u32_less)
  have st: "stream (env s2) = concat blocks" "ulLoadedBytes s2 = of_nat (length (concat blocks))"
    "rdbytes (mem s2) dst (length (concat blocks)) = concat blocks" using s2(1) by (simp_all add: tftp_loaded_def)
  obtain h w where hw: "fin (tftp_aulHash s) 12 (of_nat (length (concat blocks))) (env s2) = Some (h, w)"
    using fin [OF st(1), of "tftp_aulHash s"] by force
  let ?s' = "tftp_cleanup (s2\<lparr>tftp_tState := TFTPSTATE_Finished\<rparr>)\<lparr>tftp_aulHash := h, env := w\<rparr>"
  show ?case using d s2 lt st hw by (intro exI [of _ ?s'] exI [of _ "env s2"]) (simp add: Let_def)
next
  case (Suc k i j s)
  note pr = Suc.prems
  have i: "i < length blocks" "Suc i < length blocks" using pr(1) by auto
  have lt: "\<not> of_nat (length (blocks ! i)) < bsz" using full [OF i(2)] by simp
  obtain p n s1 s2 k2 where s2: "deliver i s = (p, n, s1)" "k2 \<le> kmax" "acct k2 s2" "typed s2"
    "tftp_loaded stream dst (concat (take (Suc i) blocks)) s2" "tftp_tState s2 = TFTPSTATE_Transfer"
    "uiExpectedBlockNr s2 = of_nat (Suc i) AND 0xffff" "uiBlockSize s2 = bsz" "tftp_aulHash s2 = tftp_aulHash s"
    "tftp_recHandler pf hw fin p n s1 = Some s2"
    using deliver_step [OF cu tk dl km aw i(1) pr(2-7), of fin] lt unfolding pr(8) by auto
  show ?case using Suc.IH [OF _ s2(3,2,4-8)] pr(1) s2(1,9,10) by simp
qed

end

subsection \<open>Properties\<close>

text \<open>A buffer outside the internal RAM with the frames.\<close>

lemma away_xc:
  assumes "intram_layout r" and "unat dst + n < 4294967296"
    and "unat dst + n \<le> unat (aulIntRamStart r 0) \<or> unat (aulIntRamStart r 0) + 0x80000 \<le> unat dst"
  shows "away (xc_frame r) dst n"
  unfolding away_def
proof (intro conjI allI impI assms(2))
  fix p
  assume "xc_frame r p"
  then obtain v where v: "fifo_segment v < 4" "p = convert_fifo_value_to_packet_pointer r v" by (auto simp: xc_frame_def)
  have p: "unat p = unat (aulIntRamStart r 0) + 0x20000 * fifo_segment v + 1560 * fifo_frame v"
    using unat_packet_pointer [OF assms(1) v(1)] v(2) by simp
  have m: "unat (aulIntRamStart r 0) mod 0x80000 = 0" using assms(1) by (simp add: intram_layout_def)
  have "unat (aulIntRamStart r 0) + 0x80000 \<le> 4294967296"
  proof -
    obtain k where k: "unat (aulIntRamStart r 0) = 0x80000 * k" using m by (auto simp: mod_eq_0_iff_dvd dvd_def)
    then have "k < 8192" using unat_u32_less [of "aulIntRamStart r 0"] by (simp del: unat_u32_less)
    then show ?thesis using k by simp
  qed
  then have b: "unat (aulIntRamStart r 0) \<le> unat p" "unat p + 1560 < unat (aulIntRamStart r 0) + 0x80000" "unat p + 1560 < 4294967296"
    using p v(1) fifo_frame_less [of v] by linarith+
  show "unat p + 1560 < 4294967296" by (rule b(3))
  show "ranges_disjoint dst n p (unat ETH_FRAME_BUF_SIZE)" "ranges_disjoint p (unat ETH_FRAME_BUF_SIZE) dst n"
    using b assms(2,3) by (auto simp: ETH_FRAME_BUF_SIZE_def intro!: ranges_disjointI)
qed

text \<open>(C8) A transfer stores and hashes the file: when the blocks arrive in order, all but the last with the block size
  and the last shorter, on the XC driver and with a buffer outside the RAM of the frames, then every packet is handled,
  the transfer ends after the last block with the port closed, the buffer holds the file, the counter its length, and
  the hash is computed after the crypto unit got exactly the bytes of the file. The block numbers may wrap.\<close>

theorem tftp_transfer_correct:
  assumes "crypt_unit hw stream digest ready" and "time_keeps pf stream"
    and "delivers (tNetworkIfXc r) (xc_ok r q) (xc_pool q) (xc_frame r) kmax blocks deliver" and "kmax \<le> FIFO_ENTRIES"
    and "intram_layout r" and "unat dst + length (concat blocks) < 4294967296"
    and "unat dst + length (concat blocks) \<le> unat (aulIntRamStart r 0) \<or> unat (aulIntRamStart r 0) + 0x80000 \<le> unat dst"
    and "blocks \<noteq> []" and "\<And>j. Suc j < length blocks \<Longrightarrow> length (blocks ! j) = unat (uiBlockSize s)"
    and "length (last blocks) < unat (uiBlockSize s)"
    and "\<And>h w. stream w = concat blocks \<Longrightarrow> fin h 12 (of_nat (length (concat blocks))) w \<noteq> None"
    and "frame_acct (tNetworkIfXc r) (xc_ok r q) (xc_pool q) (xc_frame r) j s" and "j \<le> kmax" and "typed s"
    and "tftp_loaded stream dst [] s" and "tftp_getState s = TFTPSTATE_Transfer" and "uiExpectedBlockNr s = 0"
  shows "\<exists>s' w. tftp_transfer pf hw fin deliver 0 (length blocks) s = Some s' \<and> tftp_getState s' = TFTPSTATE_Finished \<and>
    tftp_ptAssoc s' = None \<and> rdbytes (mem s') dst (length (concat blocks)) = concat blocks \<and>
    tftp_getLoadedBytes s' = of_nat (length (concat blocks)) \<and> stream w = concat blocks \<and>
    fin (tftp_aulHash s) 12 (of_nat (length (concat blocks))) w = Some (tftp_getHash s', env s')"
proof -
  obtain k where k: "length blocks = Suc k" using assms(8) by (cases blocks) auto
  have "tftp_loaded stream dst (concat (take 0 blocks)) s" "tftp_tState s = TFTPSTATE_Transfer" "uiExpectedBlockNr s = of_nat 0 AND 0xffff"
    using assms(15-17) by (simp_all add: tftp_getState_def)
  from xc_if.transfer_run [where stream = stream and fin = fin and hw = hw and pf = pf and deliver = deliver and s = s and i = 0 and k = k,
      OF assms(1-4) away_xc [OF assms(5-7)] assms(9-11) _ assms(12-14) this refl]
  show ?thesis using k by (simp add: tftp_getState_def tftp_getLoadedBytes_def tftp_getHash_def)
qed

text \<open>Two blocks for the list hardware and the recording crypto unit.\<close>

definition demo_blocks :: "u8 list list" where "demo_blocks = [[7, 8], [9]]"

definition demo_deliver ::
    "nat \<Rightarrow> ((u32 \<Rightarrow> u32 \<Rightarrow> u32 list) xc, u8 list) tftp \<Rightarrow> ptr \<times> u32 \<times> ((u32 \<Rightarrow> u32 \<Rightarrow> u32 list) xc, u8 list) tftp" where
  "demo_deliver i s = (0x05000618, of_nat (4 + length (demo_blocks ! i)),
     s\<lparr>mem := wrbytes (mem s) (0x05000618 + 42) ([0, 3, 0, of_nat (Suc i)] @ demo_blocks ! i)\<rparr>)"

definition still_env :: "u8 list stack_env" where
  "still_env = \<lparr>systime_get_ms = (\<lambda>w. (0, w)), systime_handle_is_elapsed = (\<lambda>_ _ w. (0, w)), rdy_run_blinki_init = (\<lambda>_ _ w. w),
     rdy_run_blinki = (\<lambda>w. w), rdy_run_setLEDs_off = (\<lambda>w. w)\<rparr>"

definition demo_tftp :: "((u32 \<Rightarrow> u32 \<Rightarrow> u32 list) xc, u8 list) tftp" where
  "demo_tftp = \<lparr>mem = (\<lambda>_. 0), env = [], drv = two_empty, tNetworkIf = tNetworkIfXc list_regs, g_t_romloader_options = demo_options,
     atPacketQueue = empty_queue, aui_arp_cache = empty_cache, uiIpOutputId = 0, atUdpPortAssoc = free_ports,
     dhcp_tState = DHCP_STATE_Idle, dhcp_ptAssoc = None, dhcp_ulLastGoodPacket = 0, dhcp_uiRetryCnt = 0, dhcp_ulXId = 0,
     dhcp_ulRequestIp = 0, dhcp_aucServerIdentifier = [0, 0, 0, 0], dhcp_server_name = replicate 64 0,
     dhcp_bootfile_name = replicate 128 0, dns_tState = DNS_STATE_Idle, us_dns_transaction_id_cnt = 0, dns_ptAssoc = None,
     dns_ulLastGoodPacket = 0, dns_uiRetryCnt = 0, pcHostName = 0, ulHostIp = 0, dns_aucHostNameBuffer = 0x00020000, pucBuffer = 0,
     uiPortCounter = 1025, tftp_ptAssoc = Some 0, pcTftpFileName = 0, uiExpectedBlockNr = 0, tftp_tState = TFTPSTATE_Transfer,
     tftp_ulLastGoodPacket = 0, tftp_uiRetryCnt = 3, uiBlockSize = 2, acBlockSize = [0x32, 0, 0, 0, 0, 0], sizBlockSizeLen = 2,
     ulLoadedBytes = 0, pucDstBuffer = 0x08000000, tftp_aulHash = replicate 48 0\<rparr>"

lemma demo_deliver_ok:
  "delivers (tNetworkIfXc list_regs) (xc_ok list_regs list_fifos) (xc_pool list_fifos) (xc_frame list_regs) 2 demo_blocks demo_deliver"
proof -
  have "outside_frames (xc_frame list_regs) (mem s) (wrbytes (mem s) (0x05000618 + 42) ([0, 3, 0, of_nat (Suc i)] @ demo_blocks ! i))"
    if "i < 2" for i and s :: "((u32 \<Rightarrow> u32 \<Rightarrow> u32 list) xc, u8 list) tftp"
    by (rule outside_wrbytes [where fr = "xc_frame list_regs", OF outside_refl demo_frame]) (use that in \<open>auto simp: demo_blocks_def less_2_cases_iff\<close>)
  moreover have "tftp_block_at (wrbytes m (0x05000618 + 42) ([0, 3, 0, of_nat (Suc i)] @ demo_blocks ! i)) 0x05000618
      (of_nat (Suc i) AND 0xffff) (of_nat (4 + length (demo_blocks ! i))) (demo_blocks ! i)" if "i < 2" for i m
    using that by (auto simp: demo_blocks_def less_2_cases_iff tftp_block_at_def rd16_def tftp_opcode_defs NUS2MUS_def MUS2NUS_def)
  moreover have "\<exists>m' d. s\<lparr>mem := m\<rparr> = s\<lparr>mem := m', drv := d\<rparr>" for m and s :: "((u32 \<Rightarrow> u32 \<Rightarrow> u32 list) xc, u8 list) tftp"
    by (rule exI [of _ m], rule exI [of _ "drv s"]) simp
  ultimately show ?thesis
    by (auto simp: delivers_def demo_deliver_def demo_frame demo_blocks_def simp del: wrbytes.simps)
qed

text \<open>(C8) Witness: a file of three bytes in two blocks.\<close>

theorem tftp_transfer_correct_witness:
  "\<exists>s'. tftp_transfer still_env log_crypt (\<lambda>h k n w. Some (h, w)) demo_deliver 0 2 demo_tftp = Some s' \<and>
     tftp_getState s' = TFTPSTATE_Finished \<and> rdbytes (mem s') 0x08000000 3 = [7, 8, 9]"
proof -
  have tk: "time_keeps still_env (\<lambda>w. w)" by (simp add: time_keeps_def still_env_def)
  have ac: "frame_acct (tNetworkIfXc list_regs) (xc_ok list_regs list_fifos) (xc_pool list_fifos) (xc_frame list_regs) 2 demo_tftp"
    using two_empty_pool by (simp add: frame_acct_def uses_if_def demo_tftp_def two_empty_ok empty_queue_waiting)
  have ty: "typed demo_tftp" by (simp add: typed_def demo_tftp_def demo_options_def empty_cache_def list_all_iff)
  have c: "concat demo_blocks = [7, 8, 9]" "length demo_blocks = 2" "demo_blocks \<noteq> []" "length (last demo_blocks) = 1"
    "Suc j < length demo_blocks \<Longrightarrow> length (demo_blocks ! j) = 2" for j by (auto simp: demo_blocks_def)
  have b: "unat (uiBlockSize demo_tftp) = 2" by (simp add: demo_tftp_def)
  have i: "unat (aulIntRamStart list_regs 0) = 0x05000000" by (simp add: list_regs_def)
  have l: "tftp_loaded (\<lambda>w. w) 0x08000000 [] demo_tftp" by (simp add: tftp_loaded_def demo_tftp_def)
  have st: "tftp_getState demo_tftp = TFTPSTATE_Transfer" "uiExpectedBlockNr demo_tftp = 0" by (simp_all add: tftp_getState_def demo_tftp_def)
  from tftp_transfer_correct [OF log_crypt_unit tk demo_deliver_ok _ list_regs_layout(1), of "0x08000000" demo_tftp "\<lambda>h k n w. Some (h, w)" 2]
  show ?thesis using c b i l st ac ty by (auto simp: FIFO_ENTRIES_def rdbytes_numeral)
qed

text \<open>A data packet that is too short for its header moves the buffer back: with the wanted block number and fewer than
  four bytes, the size of the data wraps, no byte is copied, and the position and the counter go back.\<close>

theorem tftp_short_packet_rewinds:
  assumes "tftp_getState s = TFTPSTATE_Transfer" and "rd16 (mem s) (p + 42) = TFTP_OPCODE_Data"
    and "NUS2MUS (rd16 (mem s) (p + 44)) = (uiExpectedBlockNr s + 1) AND 0xffff" and "unat n < 4"
    and "4 \<le> unat (p + 46)" and "unat (uiBlockSize s) < 65536"
  shows "\<exists>s'. tftp_recHandler pf hw fin p n s = Some s' \<and> tftp_getState s' = TFTPSTATE_Transfer \<and>
    tftp_getDataPointer s' = tftp_getDataPointer s - (4 - n) \<and> tftp_getLoadedBytes s' = tftp_getLoadedBytes s - (4 - n)"
proof -
  have "unat (4 - n) = 4 - unat n" using assms(4) by (simp add: unat_sub word_le_nat_alt)
  then have d: "unat (4 - n) \<le> 4" "4 - n \<noteq> 0" using assms(4) by auto
  have e: "n - 2 - 2 = - (4 - n)" by simp
  have neg: "unat (- (4 - n)) = 4294967296 - unat (4 - n)" using d(2) unat_sub_if' [of 0 "4 - n"] by (simp add: unat_eq_zero)
  have lt: "\<not> - (4 - n) < uiBlockSize s" using neg d(1) assms(6) by (simp add: word_less_nat_alt)
  have "\<not> p + 46 < p + 46 + - (4 - n)"
  proof -
    have "4 - n \<le> p + 46" using d(1) assms(5) by (simp add: word_le_nat_alt)
    then have "unat (p + 46 - (4 - n)) = unat (p + 46) - unat (4 - n)" by (rule unat_sub)
    then show ?thesis by (simp add: word_less_nat_alt)
  qed
  then have cp: "copy_data hw a (p + 46) (- (4 - n)) u = u" for a u by (subst copy_data_def, subst copy_loop.simps) simp
  let ?s = "s\<lparr>uiExpectedBlockNr := (uiExpectedBlockNr s + 1) AND 0xffff, pucDstBuffer := pucDstBuffer s + - (4 - n),
    ulLoadedBytes := ulLoadedBytes s + - (4 - n)\<rparr>"
  let ?a = "snd (tftp_send_ack_packet pf ?s)"
  have k: "uiBlockSize ?a = uiBlockSize s" "tftp_tState ?a = tftp_tState s" "pucDstBuffer ?a = pucDstBuffer ?s" "ulLoadedBytes ?a = ulLoadedBytes ?s"
    using ipv4_keeps_tftp [of ?s ?a] by simp_all
  have op: "TFTP_OPCODE_Data \<noteq> TFTP_OPCODE_Error" by (simp add: tftp_opcode_defs MUS2NUS_def)
  have "tftp_recHandler pf hw fin p n s = Some (tftp_good_packet pf ?a)"
    using assms(1-3) op d(2) k lt
    by (simp add: tftp_recHandler_def tftp_getState_def tftp_rec_transfer_def tftp_rec_block_def Let_def e cp tftp_good_packet_def case_prod_beta
      del: minus_diff_eq)
  then show ?thesis using k assms(1)
    by (simp add: tftp_getState_def tftp_getDataPointer_def tftp_getLoadedBytes_def tftp_good_packet_def case_prod_beta del: minus_diff_eq)
qed

text \<open>Witness: a data packet of two bytes in front of the number of the next block.\<close>

theorem tftp_short_packet_rewinds_witness:
  "\<exists>s'. tftp_recHandler still_env log_crypt (\<lambda>h k n w. Some (h, w)) 0x05000618 2
      (demo_tftp\<lparr>mem := wrbytes (\<lambda>_. 0) 0x05000642 [0, 3, 0, 1]\<rparr>) = Some s' \<and> tftp_getDataPointer s' = 0x07fffffe"
proof -
  let ?s = "demo_tftp\<lparr>mem := wrbytes (\<lambda>_. 0) 0x05000642 [0, 3, 0, 1]\<rparr>"
  have "tftp_getState ?s = TFTPSTATE_Transfer" "tftp_getDataPointer ?s = 0x08000000" "unat (uiBlockSize ?s) = 2"
    "rd16 (mem ?s) (0x05000618 + 42) = TFTP_OPCODE_Data" "NUS2MUS (rd16 (mem ?s) (0x05000618 + 44)) = (uiExpectedBlockNr ?s + 1) AND 0xffff"
    by (simp_all add: tftp_getState_def tftp_getDataPointer_def demo_tftp_def rd16_def tftp_opcode_defs NUS2MUS_def MUS2NUS_def)
  then show ?thesis using tftp_short_packet_rewinds [of ?s "0x05000618" 2 still_env log_crypt "\<lambda>h k n w. Some (h, w)"] by auto
qed

end
