(* ===== verification/Ports.thy ===== *)
theory Ports
  imports Tftp_Transfer
begin

text \<open>
  The three clients share the port table. \<open>others_kept h\<close> says that an operation of the client with the
  handler \<open>h\<close> leaves the entries of all other handlers alone; every operation of the DHCP, DNS and TFTP
  clients does, so each client keeps its port whatever the others do.
\<close>

subsection \<open>Entries of a client\<close>

definition others_kept :: "pfn_udp_receive_handler \<Rightarrow> UDP_ASSOCIATION_T list \<Rightarrow> UDP_ASSOCIATION_T list \<Rightarrow> bool" where
  "others_kept h t t' \<longleftrightarrow> length t' = length t \<and> (\<forall>h' i. h' \<noteq> h \<longrightarrow> owns t' h' i = owns t h' i)"

lemma others_refl [simp]: "others_kept h t t"
  by (simp add: others_kept_def)

lemma others_trans: "others_kept h t t' \<Longrightarrow> others_kept h t' t'' \<Longrightarrow> others_kept h t t''"
  by (simp add: others_kept_def)

lemma register_table:
  assumes "udp_registerPort lp rip rp h u s = (Some i, s')"
  shows "i < length (atUdpPortAssoc s) \<and> uiLocalPort (atUdpPortAssoc s ! i) = 0 \<and>
    (\<exists>e. pfn_recHandler e = h \<and> atUdpPortAssoc s' = (atUdpPortAssoc s)[i := e])"
proof -
  have f: "find_index (\<lambda>a. uiLocalPort a = 0) (atUdpPortAssoc s) = Some i"
    using assms by (auto simp: udp_registerPort_def udp_find_port_def split: option.splits)
  let ?e = "\<lparr>uiLocalPort = lp, ulRemoteIp = rip, uiRemotePort = rp, pfn_recHandler = h, pvUser = u\<rparr>"
  have "atUdpPortAssoc s' = (atUdpPortAssoc s)[i := ?e]"
    using assms f by (auto simp: udp_registerPort_def udp_find_port_def)
  then show ?thesis using find_index_Some [OF f] by (intro conjI exI [of _ ?e]) simp_all
qed

lemma owns_register_None: "udp_registerPort lp rip rp h u s = (None, s') \<Longrightarrow> s' = s"
  by (simp add: udp_registerPort_def split: option.splits)

lemma others_register:
  "udp_registerPort lp rip rp h u s = (a, s') \<Longrightarrow> others_kept h (atUdpPortAssoc s) (atUdpPortAssoc s')"
  using register_table [of lp rip rp h u s _ s'] owns_register_None [of lp rip rp h u s s']
  by (cases a) (auto simp: others_kept_def owns_def nth_list_update split: if_splits)

lemma others_unregister:
  "owns (atUdpPortAssoc s) h i \<Longrightarrow> others_kept h (atUdpPortAssoc s) (atUdpPortAssoc (udp_unregisterPort (Some i) s))"
  by (auto simp: others_kept_def udp_unregisterPort_def owns_def nth_list_update)

lemma owns_after_unregister:
  "length (atUdpPortAssoc s) = UDP_PORTLIST_MAX \<Longrightarrow>
   owns (atUdpPortAssoc (udp_unregisterPort (Some i) s)) h j \<longleftrightarrow> j \<noteq> i \<and> owns (atUdpPortAssoc s) h j"
  by (auto simp: udp_unregisterPort_def owns_def nth_list_update)

lemma owns_after_register:
  "udp_registerPort lp rip rp h u s = (Some i, s') \<Longrightarrow> owns (atUdpPortAssoc s') h j \<Longrightarrow> j = i \<or> owns (atUdpPortAssoc s) h j"
  using register_table [of lp rip rp h u s i s'] by (auto simp: owns_def nth_list_update)

subsection \<open>DHCP\<close>

text \<open>The only entry with the handler of DHCP is the one the client holds.\<close>

definition dhcp_only :: "('d, 'w, 'z) dhcp_scheme \<Rightarrow> bool" where
  "dhcp_only s \<longleftrightarrow> (\<forall>i. owns (atUdpPortAssoc s) dhcp_rec i \<longrightarrow> dhcp_ptAssoc s = Some i)"

definition dhcp_step_ok :: "('d, 'w, 'z) dhcp_scheme \<Rightarrow> ('d, 'w, 'z) dhcp_scheme \<Rightarrow> bool" where
  "dhcp_step_ok s s' \<longleftrightarrow> others_kept dhcp_rec (atUdpPortAssoc s) (atUdpPortAssoc s') \<and> (dhcp_only s \<longrightarrow> dhcp_only s') \<and>
     dhcp.more s' = dhcp.more s"

lemma dhcp_step_refl [simp]: "dhcp_step_ok s s"
  by (simp add: dhcp_step_ok_def)

lemma dhcp_step_trans: "dhcp_step_ok s s' \<Longrightarrow> dhcp_step_ok s' s'' \<Longrightarrow> dhcp_step_ok s s''"
  by (auto simp: dhcp_step_ok_def intro: others_trans)

lemma dhcp_step_upd [simp]:
  "dhcp_step_ok s (s'\<lparr>dhcp_tState := a\<rparr>) \<longleftrightarrow> dhcp_step_ok s s'" "dhcp_step_ok s (s'\<lparr>dhcp_ulLastGoodPacket := b\<rparr>) \<longleftrightarrow> dhcp_step_ok s s'"
  "dhcp_step_ok s (s'\<lparr>dhcp_uiRetryCnt := c\<rparr>) \<longleftrightarrow> dhcp_step_ok s s'" "dhcp_step_ok s (s'\<lparr>dhcp_ulXId := b\<rparr>) \<longleftrightarrow> dhcp_step_ok s s'"
  "dhcp_step_ok s (s'\<lparr>dhcp_ulRequestIp := b\<rparr>) \<longleftrightarrow> dhcp_step_ok s s'"
  "dhcp_step_ok s (s'\<lparr>dhcp_aucServerIdentifier := d\<rparr>) \<longleftrightarrow> dhcp_step_ok s s'"
  "dhcp_step_ok s (s'\<lparr>dhcp_server_name := d\<rparr>) \<longleftrightarrow> dhcp_step_ok s s'" "dhcp_step_ok s (s'\<lparr>dhcp_bootfile_name := d\<rparr>) \<longleftrightarrow> dhcp_step_ok s s'"
  "dhcp_step_ok s (s'\<lparr>g_t_romloader_options := g\<rparr>) \<longleftrightarrow> dhcp_step_ok s s'"
  by (simp_all add: dhcp_step_ok_def dhcp_only_def)

lemma dhcp_step_keeps: "ipv4_keeps s s' \<Longrightarrow> dhcp_step_ok s s'"
  using ipv4_keeps_dhcp [of s s'] by (simp add: dhcp_step_ok_def dhcp_only_def)

lemma dhcp_step_cleanup:
  assumes "dhcp_inv s"
  shows "dhcp_step_ok s (dhcp_cleanup s)"
proof (cases "dhcp_ptAssoc s")
  case (Some i)
  then have o: "owns (atUdpPortAssoc s) dhcp_rec i" "length (atUdpPortAssoc s) = UDP_PORTLIST_MAX"
    using assms by (simp_all add: dhcp_inv_def dhcp_conn_ok_def)
  show ?thesis using Some others_unregister [OF o(1)] owns_after_unregister [OF o(2), of i]
    by (auto simp: dhcp_step_ok_def dhcp_only_def dhcp_cleanup_def) (simp add: udp_unregisterPort_def)
qed (simp add: dhcp_cleanup_def)

lemma dhcp_step_fail: "dhcp_inv s \<Longrightarrow> dhcp_step_ok s (dhcp_fail s)"
  by (simp add: dhcp_fail_def dhcp_step_cleanup)

lemma dhcp_step_time [simp]: "dhcp_step_ok s (snd (get_ms pf s')) \<longleftrightarrow> dhcp_step_ok s s'" "dhcp_step_ok s (snd (is_elapsed pf a b s')) \<longleftrightarrow> dhcp_step_ok s s'"
  by (simp_all add: dhcp_step_ok_def dhcp_only_def)

lemma dhcp_inv_cong:
  "atUdpPortAssoc s' = atUdpPortAssoc s \<Longrightarrow> dhcp_tState s' = dhcp_tState s \<Longrightarrow> dhcp_ptAssoc s' = dhcp_ptAssoc s \<Longrightarrow> dhcp_inv s \<Longrightarrow> dhcp_inv s'"
  by (simp add: dhcp_inv_def)

lemma dhcp_inv_upd [simp]:
  "dhcp_inv (s\<lparr>dhcp_server_name := a, dhcp_bootfile_name := b\<rparr>) \<longleftrightarrow> dhcp_inv s"
  "dhcp_inv (s\<lparr>dhcp_server_name := a\<rparr>) \<longleftrightarrow> dhcp_inv s" "dhcp_inv (s\<lparr>dhcp_bootfile_name := a\<rparr>) \<longleftrightarrow> dhcp_inv s"
  "dhcp_inv (s\<lparr>g_t_romloader_options := g\<rparr>) \<longleftrightarrow> dhcp_inv s"
  by (simp_all add: dhcp_inv_def)

lemma dhcp_step_timeout:
  assumes "dhcp_inv s" and send: "\<And>s. ipv4_keeps s (snd (send s))"
  shows "dhcp_step_ok s (dhcp_timeout pf send s)"
proof -
  have "dhcp_step_ok s (dhcp_fail (snd (is_elapsed pf a b s)))" for a b
    by (rule dhcp_step_trans [OF _ dhcp_step_fail]) (use assms(1) in \<open>simp_all add: dhcp_inv_def\<close>)
  moreover have "dhcp_step_ok s (snd (send (snd (is_elapsed pf a b s))))" for a b
    using dhcp_step_keeps [OF send [of "snd (is_elapsed pf a b s)"]] dhcp_step_trans [of s "snd (is_elapsed pf a b s)"] by simp
  ultimately show ?thesis by (simp add: dhcp_timeout_def case_prod_beta)
qed

lemma dhcp_step_timer: "dhcp_inv s \<Longrightarrow> dhcp_step_ok s (dhcp_timer pf s)"
  by (auto simp: dhcp_timer_def intro!: dhcp_step_timeout split: DHCP_STATE_T.split)

lemma dhcp_step_take_offer:
  assumes "dhcp_inv s"
  shows "dhcp_step_ok s (dhcp_take_offer pf p q s)"
proof -
  let ?s = "s\<lparr>dhcp_aucServerIdentifier := (if q \<noteq> NULL \<and> mem s (q + 1) = 4 then rdbytes (mem s) (q + 2) 4 else [0, 0, 0, 0]),
    dhcp_ulRequestIp := rd32 (mem s) (p + 58)\<rparr>"
  let ?t = "snd (dhcp_send_request_packet pf ?s)"
  have "dhcp_step_ok ?s ?t" by (rule dhcp_step_keeps) simp
  then have t: "dhcp_step_ok s ?t" by (rule dhcp_step_trans [rotated]) simp
  have "dhcp_inv ?t" using assms by (simp add: dhcp_inv_def)
  then have "dhcp_step_ok s (dhcp_cleanup ?t)" by (rule dhcp_step_trans [OF t dhcp_step_cleanup])
  then show ?thesis using t by (simp add: dhcp_take_offer_def Let_def case_prod_beta)
qed

lemma dhcp_step_accept:
  assumes "dhcp_inv s" and "dhcp_accept p n a b c s = Some s'"
  shows "dhcp_step_ok s s'"
proof -
  have "dhcp_step_ok s (dhcp_cleanup (s\<lparr>dhcp_server_name := x, dhcp_bootfile_name := y, g_t_romloader_options := g\<rparr>))" for x y g
    by (rule dhcp_step_trans [OF _ dhcp_step_cleanup]) (use assms(1) in \<open>simp_all add: dhcp_inv_def\<close>)
  then show ?thesis using assms(2) by (auto simp: dhcp_accept_def Let_def Option.bind_eq_Some_conv)
qed

lemma dhcp_step_rec:
  assumes "dhcp_inv s" and "dhcp_recHandler pf p n s = Some s'"
  shows "dhcp_step_ok s s'"
proof -
  have f: "dhcp_step_ok s (dhcp_fail (s\<lparr>dhcp_server_name := x, dhcp_bootfile_name := y\<rparr>))" for x y
    by (rule dhcp_step_trans [OF _ dhcp_step_fail]) (use assms(1) in \<open>simp_all\<close>)
  have ac: "dhcp_step_ok s t" if "dhcp_accept p n a b c (s\<lparr>dhcp_server_name := x, dhcp_bootfile_name := y\<rparr>) = Some t" for a b c x y t
    by (rule dhcp_step_trans [OF _ dhcp_step_accept [OF _ that]]) (use assms(1) in \<open>simp_all\<close>)
  show ?thesis using assms(2) dhcp_step_take_offer [OF assms(1)] f ac
    by (auto simp: dhcp_recHandler_def dhcp_rec_discover_def dhcp_rec_request_def dhcp_rec_ack_def Let_def Option.bind_eq_Some_conv
      split: DHCP_STATE_T.splits if_splits)
qed

lemma dhcp_step_request:
  assumes "dhcp_inv s" and "\<not> dhcp_waits s"
  shows "dhcp_step_ok s (dhcp_request pf s)"
proof -
  obtain a s1 where r: "udp_registerPort (ucast (MUS2NUS DHCP_DISCOVER_SRC_PORT)) DHCP_DISCOVER_DST_IP
      (ucast (MUS2NUS DHCP_DISCOVER_DST_PORT)) dhcp_rec NULL s = (a, s1)" by force
  have no: "dhcp_ptAssoc s = None" using assms by (auto simp: dhcp_inv_def dhcp_conn_ok_def dhcp_waits_def split: option.splits)
  have more: "dhcp.more s1 = dhcp.more s" using r by (auto simp: udp_registerPort_def split: option.splits)
  show ?thesis
  proof (cases a)
    case None
    then have "s1 = s" using r owns_register_None by simp
    then show ?thesis using r None no by (simp add: dhcp_request_def dhcp_step_ok_def dhcp_only_def)
  next
    case (Some i)
    let ?s = "s1\<lparr>dhcp_ptAssoc := a, dhcp_ulXId := dhcp_ulXId s1 + 1\<rparr>"
    have reg: "dhcp_step_ok s ?s"
      using others_register [OF r] owns_after_register [OF r [unfolded Some]] no more Some
      by (auto simp: dhcp_step_ok_def dhcp_only_def)
    let ?t = "snd (dhcp_send_discover_packet pf ?s)"
    have t: "dhcp_step_ok s ?t" by (rule dhcp_step_trans [OF reg dhcp_step_keeps]) simp
    have "owns (atUdpPortAssoc s1) dhcp_rec i" using owns_register(2) [OF r] Some MUS2NUS_ports_nonzero by simp
    then have "dhcp_inv (?t\<lparr>dhcp_tState := DHCP_STATE_Discover\<rparr>)"
      using Some owns_register(1) [OF r] dhcp_inv_len [OF assms(1)] by (simp add: dhcp_inv_def dhcp_conn_ok_def)
    note fail = dhcp_step_fail [OF this]
    have "dhcp_step_ok s (?t\<lparr>dhcp_tState := DHCP_STATE_Discover\<rparr>)" using t by simp
    then have "dhcp_step_ok s (dhcp_fail (?t\<lparr>dhcp_tState := DHCP_STATE_Discover\<rparr>))" using fail by (rule dhcp_step_trans)
    moreover have "dhcp_fail (?t\<lparr>dhcp_tState := DHCP_STATE_Discover\<rparr>) = dhcp_fail ?t"
      by (simp add: dhcp_fail_def dhcp_cleanup_def udp_unregisterPort_def split: option.split)
    ultimately have "dhcp_step_ok s (dhcp_fail ?t)" by simp
    then show ?thesis using r t Some by (simp add: dhcp_request_def case_prod_beta Let_def)
  qed
qed

subsection \<open>DNS\<close>

definition dns_step_ok :: "('d, 'w, 'z) dns_scheme \<Rightarrow> ('d, 'w, 'z) dns_scheme \<Rightarrow> bool" where
  "dns_step_ok s s' \<longleftrightarrow> others_kept dns_rec (atUdpPortAssoc s) (atUdpPortAssoc s') \<and> dhcp_tState s' = dhcp_tState s \<and>
     dhcp_ptAssoc s' = dhcp_ptAssoc s \<and> dns.more s' = dns.more s"

lemma dns_step_refl [simp]: "dns_step_ok s s"
  by (simp add: dns_step_ok_def)

lemma dns_step_trans: "dns_step_ok s s' \<Longrightarrow> dns_step_ok s' s'' \<Longrightarrow> dns_step_ok s s''"
  by (auto simp: dns_step_ok_def intro: others_trans)

lemma dns_step_upd [simp]:
  "dns_step_ok s (s'\<lparr>dns_tState := a\<rparr>) \<longleftrightarrow> dns_step_ok s s'" "dns_step_ok s (s'\<lparr>dns_ulLastGoodPacket := b\<rparr>) \<longleftrightarrow> dns_step_ok s s'"
  "dns_step_ok s (s'\<lparr>dns_uiRetryCnt := c\<rparr>) \<longleftrightarrow> dns_step_ok s s'" "dns_step_ok s (s'\<lparr>dns_ptAssoc := d\<rparr>) \<longleftrightarrow> dns_step_ok s s'"
  "dns_step_ok s (s'\<lparr>us_dns_transaction_id_cnt := e\<rparr>) \<longleftrightarrow> dns_step_ok s s'" "dns_step_ok s (s'\<lparr>pcHostName := b\<rparr>) \<longleftrightarrow> dns_step_ok s s'"
  by (simp_all add: dns_step_ok_def)

lemma dns_step_time [simp]: "dns_step_ok s (snd (get_ms pf s')) \<longleftrightarrow> dns_step_ok s s'" "dns_step_ok s (snd (is_elapsed pf a b s')) \<longleftrightarrow> dns_step_ok s s'"
  by (simp_all add: dns_step_ok_def)

lemma dns_step_keeps: "ipv4_keeps s s' \<Longrightarrow> dns_step_ok s s'"
  using ipv4_keeps_dns [of s s'] ipv4_keeps_dhcp [of s s'] by (simp add: dns_step_ok_def)

lemma dns_step_fail: "(\<And>i. dns_ptAssoc s = Some i \<Longrightarrow> owns (atUdpPortAssoc s) dns_rec i) \<Longrightarrow> dns_step_ok s (dns_fail s)"
  using others_unregister [of s dns_rec]
  by (auto simp: dns_step_ok_def dns_fail_def dns_cleanup_def) (auto simp: udp_unregisterPort_def)

lemma dns_step_rec:
  assumes "dns_recHandler p n s = Some s'"
  shows "dns_step_ok s s'"
proof -
  have "dns_step_ok s (s1\<lparr>dns_tState := st\<rparr>)" if "dns_keeps s s1" for s1 st
    using dns_keeps_fields [OF that] by (simp add: dns_step_ok_def)
  then show ?thesis using dns_recHandler_cases [OF assms] by auto
qed

lemma dns_inv_owns: "dns_inv s \<Longrightarrow> dns_ptAssoc s = Some i \<Longrightarrow> owns (atUdpPortAssoc s) dns_rec i"
  by (simp add: dns_inv_def dns_conn_ok_def)

lemma dns_step_timer:
  assumes "dns_inv s" and "dns_timer pf s = Some s'"
  shows "dns_step_ok s s'"
proof -
  let ?t = "\<lambda>a b. snd (is_elapsed pf a b s)"
  have f: "dns_step_ok s (dns_fail (?t a b))" for a b
    by (rule dns_step_trans [OF _ dns_step_fail]) (use assms(1) dns_inv_owns [of s] in \<open>simp_all\<close>)
  have "dns_step_ok s s2" if "dns_send_query_packet pf (?t a b) = Some (r, s2)" for a b r s2
    using dns_step_keeps [OF dns_send_query_keeps [OF that]] dns_step_trans [of s "?t a b" s2] by simp
  then show ?thesis using assms(2) f
    by (auto simp: dns_timer_def case_prod_beta Option.bind_eq_Some_conv split: DNS_STATE_T.splits if_splits)
qed

lemma dns_step_request:
  assumes "dns_inv s" and "dns_request pf name s = Some (r, s')"
  shows "dns_step_ok s s'"
proof -
  obtain a s1 where reg: "udp_registerPort (ucast (MUS2NUS DNS_SRC_PORT)) (ulDnsIp (eth_options s)) (ucast (MUS2NUS DNS_DST_PORT))
      dns_rec NULL (s\<lparr>pcHostName := name\<rparr>) = (a, s1)" by force
  have s1: "dns_step_ok s s1" using others_register [OF reg] reg by (auto simp: dns_step_ok_def udp_registerPort_def split: option.splits)
  show ?thesis
  proof (cases a)
    case None
    then show ?thesis using s1 reg assms(2) by (auto simp: dns_request_def)
  next
    case (Some i)
    have "(ucast (MUS2NUS DNS_SRC_PORT) :: u32) \<noteq> 0" by (simp add: MUS2NUS_def DNS_SRC_PORT_def)
    then have own: "owns (atUdpPortAssoc s1) dns_rec i" using owns_register(2) [OF reg] Some by simp
    obtain k s2 where send: "dns_send_query_packet pf (s1\<lparr>dns_ptAssoc := a, us_dns_transaction_id_cnt :=
        us_dns_transaction_id_cnt s1 + 1\<rparr>) = Some (k, s2)"
      using assms(2) reg Some by (auto simp: dns_request_def Option.bind_eq_Some_conv)
    have s2: "dns_step_ok s s2" using dns_step_keeps [OF dns_send_query_keeps [OF send]] s1
      by (intro dns_step_trans [of s "s1\<lparr>dns_ptAssoc := a, us_dns_transaction_id_cnt := us_dns_transaction_id_cnt s1 + 1\<rparr>" s2]) simp_all
    have "dns_step_ok s (dns_fail s2)"
      using own Some ipv4_keeps_dns [OF dns_send_query_keeps [OF send]]
      by (intro dns_step_trans [OF s2 dns_step_fail]) simp_all
    then show ?thesis using assms(2) reg Some send s2 by (auto simp: dns_request_def case_prod_beta split: if_splits)
  qed
qed

subsection \<open>TFTP\<close>

definition tftp_step_ok :: "('d, 'w, 'z) tftp_scheme \<Rightarrow> ('d, 'w, 'z) tftp_scheme \<Rightarrow> bool" where
  "tftp_step_ok s s' \<longleftrightarrow> others_kept tftp_rec (atUdpPortAssoc s) (atUdpPortAssoc s') \<and> dhcp_tState s' = dhcp_tState s \<and>
     dhcp_ptAssoc s' = dhcp_ptAssoc s \<and> dns_tState s' = dns_tState s \<and> dns_ptAssoc s' = dns_ptAssoc s"

text \<open>The client has a port, its own, exactly while a file is open. The next local port is never 0.\<close>

definition tftp_conn_ok :: "UDP_ASSOCIATION_T list \<Rightarrow> tTftpState \<Rightarrow> nat option \<Rightarrow> bool" where
  "tftp_conn_ok t st a \<longleftrightarrow> length t = UDP_PORTLIST_MAX \<and> (a \<noteq> None \<longleftrightarrow> st = TFTPSTATE_Init \<or> st = TFTPSTATE_Transfer) \<and>
     (\<forall>i. a = Some i \<longrightarrow> owns t tftp_rec i)"

definition tftp_inv :: "('d, 'w, 'z) tftp_scheme \<Rightarrow> bool" where
  "tftp_inv s \<longleftrightarrow> tftp_conn_ok (atUdpPortAssoc s) (tftp_tState s) (tftp_ptAssoc s) \<and>
     1024 \<le> uiPortCounter s \<and> uiPortCounter s \<le> 65535"

definition tftp_ok :: "('d, 'w, 'z) tftp_scheme \<Rightarrow> ('d, 'w, 'z) tftp_scheme \<Rightarrow> bool" where
  "tftp_ok s s' \<longleftrightarrow> tftp_step_ok s s' \<and> tftp_inv s'"

lemma tftp_step_refl [simp]: "tftp_step_ok s s"
  by (simp add: tftp_step_ok_def)

lemma tftp_step_trans: "tftp_step_ok s s' \<Longrightarrow> tftp_step_ok s' s'' \<Longrightarrow> tftp_step_ok s s''"
  by (auto simp: tftp_step_ok_def intro: others_trans)

text \<open>Operations that leave the connection alone.\<close>

definition tftp_same :: "('d, 'w, 'z) tftp_scheme \<Rightarrow> ('d, 'w, 'z) tftp_scheme \<Rightarrow> bool" where
  "tftp_same s s' \<longleftrightarrow> atUdpPortAssoc s' = atUdpPortAssoc s \<and> dhcp_tState s' = dhcp_tState s \<and> dhcp_ptAssoc s' = dhcp_ptAssoc s \<and>
     dns_tState s' = dns_tState s \<and> dns_ptAssoc s' = dns_ptAssoc s \<and> tftp_ptAssoc s' = tftp_ptAssoc s \<and> tftp_tState s' = tftp_tState s \<and>
     uiPortCounter s' = uiPortCounter s"

lemma tftp_same_upd [simp]:
  "tftp_same s (s'\<lparr>tftp_ulLastGoodPacket := a\<rparr>) \<longleftrightarrow> tftp_same s s'" "tftp_same s (s'\<lparr>tftp_uiRetryCnt := a\<rparr>) \<longleftrightarrow> tftp_same s s'"
  "tftp_same s (s'\<lparr>uiExpectedBlockNr := a\<rparr>) \<longleftrightarrow> tftp_same s s'" "tftp_same s (s'\<lparr>pucDstBuffer := b\<rparr>) \<longleftrightarrow> tftp_same s s'"
  "tftp_same s (s'\<lparr>ulLoadedBytes := a\<rparr>) \<longleftrightarrow> tftp_same s s'" "tftp_same s (s'\<lparr>pcTftpFileName := b\<rparr>) \<longleftrightarrow> tftp_same s s'"
  "tftp_same s (s'\<lparr>mem := m\<rparr>) \<longleftrightarrow> tftp_same s s'" "tftp_same s (s'\<lparr>env := w\<rparr>) \<longleftrightarrow> tftp_same s s'"
  "tftp_same s (s'\<lparr>tftp_aulHash := e\<rparr>) \<longleftrightarrow> tftp_same s s'"
  "tftp_same s (snd (get_ms pf s')) \<longleftrightarrow> tftp_same s s'" "tftp_same s (snd (is_elapsed pf c d s')) \<longleftrightarrow> tftp_same s s'" "tftp_same s s"
  by (simp_all add: tftp_same_def get_ms_def is_elapsed_def split: prod.split)

lemma tftp_same_keeps: "ipv4_keeps s s' \<Longrightarrow> tftp_same s s'"
  using ipv4_keeps_tftp [of s s'] ipv4_keeps_dns [of s s'] ipv4_keeps_dhcp [of s s']
  by (cases s; cases s') (simp add: tftp_same_def ipv4_keeps_def)

lemma tftp_same_trans: "tftp_same s s' \<Longrightarrow> tftp_same s' s'' \<Longrightarrow> tftp_same s s''"
  by (simp add: tftp_same_def)

lemma tftp_same_ok: "tftp_same s s' \<Longrightarrow> tftp_inv s \<Longrightarrow> tftp_ok s s'"
  by (simp add: tftp_ok_def tftp_step_ok_def tftp_inv_def tftp_same_def)

lemma tftp_same_good [simp]: "tftp_same s (tftp_good_packet pf s') \<longleftrightarrow> tftp_same s s'"
  by (simp add: tftp_good_packet_def case_prod_beta)

lemma tftp_same_ack: "tftp_same s (snd (tftp_send_ack_packet pf s))"
  by (rule tftp_same_keeps) simp

lemma tftp_same_open: "tftp_send_open_packet pf s = Some (r, s') \<Longrightarrow> tftp_same s s'"
  by (rule tftp_same_keeps) (auto simp: tftp_send_open_packet_def Let_def case_prod_beta Option.bind_eq_Some_conv udp_send_keeps split: if_splits)

lemma tftp_same_copy: "tftp_same s (copy_data hw d p n s)"
  by (simp add: copy_data_def case_prod_beta)

lemma tftp_cleanup_counter [simp]: "uiPortCounter (tftp_cleanup s) = uiPortCounter s"
  by (simp add: tftp_cleanup_def udp_unregisterPort_def split: option.split)

lemma tftp_close_ok:
  assumes "tftp_inv s" and "st \<noteq> TFTPSTATE_Init" and "st \<noteq> TFTPSTATE_Transfer"
  shows "tftp_ok s (tftp_cleanup (s\<lparr>tftp_tState := st\<rparr>))"
proof (cases "tftp_ptAssoc s")
  case None
  then show ?thesis using assms by (simp add: tftp_ok_def tftp_inv_def tftp_conn_ok_def tftp_step_ok_def tftp_cleanup_def)
next
  case (Some i)
  let ?s = "s\<lparr>tftp_tState := st\<rparr>"
  have "owns (atUdpPortAssoc ?s) tftp_rec i" using Some assms(1) by (simp add: tftp_inv_def tftp_conn_ok_def)
  from others_unregister [OF this] have "tftp_step_ok s (tftp_cleanup ?s)"
    using Some by (auto simp: tftp_step_ok_def tftp_cleanup_def) (auto simp: udp_unregisterPort_def)
  moreover have "tftp_inv (tftp_cleanup ?s)" using assms by (simp add: tftp_inv_def tftp_conn_ok_def)
  ultimately show ?thesis by (simp add: tftp_ok_def)
qed

lemma tftp_ok_trans: "tftp_ok s s' \<Longrightarrow> tftp_ok s' s'' \<Longrightarrow> tftp_ok s s''"
  by (auto simp: tftp_ok_def intro: tftp_step_trans)

lemma tftp_ok_inv: "tftp_ok s s' \<Longrightarrow> tftp_inv s'"
  by (simp add: tftp_ok_def)

lemma tftp_ok_same: "tftp_ok s s' \<Longrightarrow> tftp_same s' s'' \<Longrightarrow> tftp_ok s s''"
  by (rule tftp_ok_trans [OF _ tftp_same_ok]) (auto simp: tftp_ok_def)

lemma tftp_fail_ok: "tftp_inv s \<Longrightarrow> tftp_ok s (tftp_fail s)"
  by (simp add: tftp_fail_def tftp_close_ok)

lemma tftp_ok_fail: "tftp_ok s s' \<Longrightarrow> tftp_ok s (tftp_fail s')"
  by (rule tftp_ok_trans [OF _ tftp_fail_ok]) (auto simp: tftp_ok_def)

text \<open>The port of the server is stored in the entry of the client.\<close>

lemma tftp_remote_port_ok:
  assumes "tftp_inv s" and "tftp_ptAssoc s = Some i" and "tftp_tState s = TFTPSTATE_Init"
  shows "tftp_ok s (s\<lparr>atUdpPortAssoc := (atUdpPortAssoc s)[i := (atUdpPortAssoc s ! i)\<lparr>uiRemotePort := v\<rparr>], tftp_tState := TFTPSTATE_Transfer\<rparr>)"
  using assms by (auto simp: tftp_ok_def tftp_step_ok_def tftp_inv_def tftp_conn_ok_def others_kept_def owns_def nth_list_update)

lemma tftp_rec_init_ok:
  assumes inv: "tftp_inv s" and st: "tftp_tState s = TFTPSTATE_Init" and r: "tftp_rec_init pf p n s = Some s'"
  shows "tftp_ok s s'"
proof -
  have "tftp_ok s ((tftp_good_packet pf (snd (tftp_send_ack_packet pf t)))\<lparr>tftp_tState := TFTPSTATE_Transfer\<rparr>)"
    if a: "tftp_ptAssoc s = Some i"
      and t: "t = s\<lparr>atUdpPortAssoc := (atUdpPortAssoc s)[i := (atUdpPortAssoc s ! i)\<lparr>uiRemotePort := v\<rparr>], uiExpectedBlockNr := 0\<rparr>" for i v t
  proof -
    have "tftp_same t (tftp_good_packet pf (snd (tftp_send_ack_packet pf t)))" by (simp add: tftp_same_ack)
    then show ?thesis
      by (intro tftp_ok_same [OF tftp_remote_port_ok [OF inv a st, of v]]) (simp add: tftp_same_def t)
  qed
  then show ?thesis using r tftp_fail_ok [OF inv] tftp_same_ok [OF _ inv, of s]
    by (auto simp: tftp_rec_init_def Let_def split: if_splits option.splits)
qed

lemma tftp_rec_block_ok:
  assumes inv: "tftp_inv s" and r: "tftp_rec_block pf hw fin p n s = Some s'"
  shows "tftp_ok s s'"
proof -
  let ?d = "n - 2 - 2"
  define t where "t = (if ?d \<noteq> 0 then let s = copy_data hw (pucDstBuffer s) (tftp_data p) ?d s in
      s\<lparr>pucDstBuffer := pucDstBuffer s + ?d, ulLoadedBytes := ulLoadedBytes s + ?d\<rparr> else s)"
  define u where "u = tftp_good_packet pf (snd (tftp_send_ack_packet pf t))"
  have "tftp_same s t" using tftp_same_copy [of s] by (simp add: t_def Let_def)
  then have "tftp_same s u" unfolding u_def by (simp add: tftp_same_trans [OF _ tftp_same_ack])
  then have u: "tftp_ok s u" by (rule tftp_same_ok [OF _ inv])
  have c: "tftp_ok s (tftp_cleanup (u\<lparr>tftp_tState := TFTPSTATE_Finished\<rparr>))"
    by (rule tftp_ok_trans [OF u tftp_close_ok]) (simp_all add: tftp_ok_inv [OF u])
  have "s' = u \<or> (\<exists>h w. s' = (tftp_cleanup (u\<lparr>tftp_tState := TFTPSTATE_Finished\<rparr>))\<lparr>tftp_aulHash := h, env := w\<rparr>)"
    using r unfolding tftp_rec_block_def Let_def u_def t_def by (auto simp: Option.bind_eq_Some_conv split: if_splits)
  then show ?thesis using u tftp_ok_same [OF c] by auto
qed

lemma tftp_rec_ok:
  assumes inv: "tftp_inv s" and r: "tftp_recHandler pf hw fin p n s = Some s'"
  shows "tftp_ok s s'"
proof -
  have refl: "tftp_ok s s" by (rule tftp_same_ok [OF _ inv]) simp
  have "tftp_ok s t" if "tftp_rec_block pf hw fin p n (s\<lparr>uiExpectedBlockNr := b\<rparr>) = Some t" for b t
  proof -
    have e: "tftp_ok s (s\<lparr>uiExpectedBlockNr := b\<rparr>)" by (rule tftp_same_ok [OF _ inv]) simp
    show ?thesis by (rule tftp_ok_trans [OF e tftp_rec_block_ok [OF tftp_ok_inv [OF e] that]])
  qed
  then have "tftp_ok s t" if "tftp_rec_transfer pf hw fin p n s = Some t" for t
    using that refl tftp_fail_ok [OF inv] by (auto simp: tftp_rec_transfer_def Let_def split: if_splits)
  then show ?thesis using r refl tftp_rec_init_ok [OF inv]
    by (auto simp: tftp_recHandler_def split: tTftpState.splits)
qed

lemma tftp_timer_ok:
  assumes inv: "tftp_inv s" and r: "tftp_timer pf s = Some s'"
  shows "tftp_ok s s'"
proof -
  let ?e = "snd (is_elapsed pf (tftp_ulLastGoodPacket s) (ucast (usTftpTimeout (eth_options s))) s)"
  have refl: "tftp_ok s s" by (rule tftp_same_ok [OF _ inv]) simp
  have e: "tftp_ok s ?e" by (rule tftp_same_ok [OF _ inv]) simp
  have g: "tftp_ok s ((snd (get_ms pf t))\<lparr>tftp_ulLastGoodPacket := a, tftp_uiRetryCnt := b\<rparr>)" if "tftp_same ?e t" for t a b
    by (rule tftp_ok_same [OF e]) (use that in simp)
  show ?thesis using r refl e tftp_ok_fail [OF e] g [OF tftp_same_ack] g [OF tftp_same_open]
    by (auto simp: tftp_timer_def case_prod_beta Option.bind_eq_Some_conv split: if_splits)
qed

lemma tftp_port_nonzero: "1024 \<le> c \<Longrightarrow> c \<le> 65535 \<Longrightarrow> (ucast (MUS2NUS c) :: u32) \<noteq> 0"
proof
  assume c: "1024 \<le> c" "c \<le> 65535" and z: "(ucast (MUS2NUS c) :: u32) = 0"
  have u: "unat c \<le> 65535" using c(2) by (simp add: word_le_nat_alt)
  have "MUS2NUS c = 0" using z by (simp add: word_unat_eq_iff unsigned_ucast_eq)
  then have "le16 (MUS2NUS c) = [0, 0]" by (simp add: le16_def)
  then have "(ucast (drop_bit 8 c) :: u8) = 0" "(ucast c :: u8) = 0" by (simp_all add: le16_def MUS2NUS_bytes)
  then have "unat c = 0" using unat_hi_lo [OF u] by simp
  then show False using c(1) by (simp add: word_le_nat_alt)
qed

text \<open>The state of \<open>tftp_open\<close> before it registers the port.\<close>

definition tftp_prepared :: "'w crypt \<Rightarrow> ptr \<Rightarrow> u32 \<Rightarrow> u8 list \<Rightarrow> u32 \<Rightarrow> ('d, 'w, 'z) tftp_scheme \<Rightarrow> ('d, 'w, 'z) tftp_scheme" where
  "tftp_prepared hw d b v len s = s\<lparr>uiBlockSize := b, pucDstBuffer := d, acBlockSize := v, sizBlockSizeLen := len,
     uiPortCounter := (if uiPortCounter s + 1 > 65535 then 1024 else uiPortCounter s + 1),
     env := sha384_initialize hw (env s), ulLoadedBytes := 0\<rparr>"

lemma tftp_open_steps:
  assumes "printBlocksize (acBlockSize s) b = Some (v, len)" and "s0 = tftp_prepared hw d b v len s"
    and "udp_registerPort (ucast (MUS2NUS (uiPortCounter s))) (ulTftpIp (eth_options s0))
      (ucast (MUS2NUS (ucast (usTftpPort (eth_options s0))))) tftp_rec NULL s0 = (a, s1)"
  shows "tftp_open pf hw fname d b s = (let s = s1\<lparr>tftp_ptAssoc := a\<rparr> in
      if a \<noteq> None then
        do {
          (iResult, s) \<leftarrow> tftp_send_open_packet pf (s\<lparr>pcTftpFileName := fname\<rparr>);
          Some (iResult, if iResult = 0 then tftp_good_packet pf (s\<lparr>tftp_tState := TFTPSTATE_Init\<rparr>) else tftp_cleanup s)
        }
      else Some (-1, s))"
  using assms by (cases "uiPortCounter s + 1 > 65535") (simp_all add: tftp_open_def tftp_prepared_def Let_def)

lemma tftp_prepared_ok:
  assumes "tftp_inv s"
  shows "tftp_ok s (tftp_prepared hw d b v len s)"
proof -
  have "1024 \<le> c \<Longrightarrow> c \<le> 65535 \<Longrightarrow> \<not> c + 1 > 65535 \<Longrightarrow> 1024 \<le> c + 1 \<and> c + 1 \<le> 65535" for c :: u32
    by (simp add: word_le_nat_alt word_less_nat_alt unat_word_ariths)
  then show ?thesis using assms
    by (auto simp: tftp_ok_def tftp_step_ok_def tftp_inv_def tftp_prepared_def)
qed

lemma tftp_register_ok:
  assumes inv: "tftp_inv s" and none: "tftp_ptAssoc s = None" and lp: "lp \<noteq> 0"
    and r: "udp_registerPort lp rip rp tftp_rec u s = (Some i, s1)"
  shows "tftp_ok s (s1\<lparr>tftp_ptAssoc := Some i, tftp_tState := TFTPSTATE_Init\<rparr>)"
proof -
  have f: "dhcp_tState s1 = dhcp_tState s" "dhcp_ptAssoc s1 = dhcp_ptAssoc s" "dns_tState s1 = dns_tState s"
    "dns_ptAssoc s1 = dns_ptAssoc s" "uiPortCounter s1 = uiPortCounter s"
    using r by (auto simp: udp_registerPort_def split: option.splits)
  show ?thesis using inv f others_register [OF r] owns_register(1) [OF r] owns_register(2) [OF r refl lp]
    by (simp add: tftp_ok_def tftp_step_ok_def tftp_inv_def tftp_conn_ok_def)
qed

lemma tftp_open_ok:
  assumes inv: "tftp_inv s" and closed: "tftp_tState s \<noteq> TFTPSTATE_Init" "tftp_tState s \<noteq> TFTPSTATE_Transfer"
    and r: "tftp_open pf hw fname d b s = Some (k, s')"
  shows "tftp_ok s s'"
proof -
  obtain v len where pr: "printBlocksize (acBlockSize s) b = Some (v, len)" using r by (auto simp: tftp_open_def Option.bind_eq_Some_conv)
  define s0 where "s0 = tftp_prepared hw d b v len s"
  let ?lp = "ucast (MUS2NUS (uiPortCounter s)) :: u32"
  obtain a s1 where reg: "udp_registerPort ?lp (ulTftpIp (eth_options s0)) (ucast (MUS2NUS (ucast (usTftpPort (eth_options s0)))))
      tftp_rec NULL s0 = (a, s1)" by force
  note o = tftp_open_steps [OF pr s0_def reg, of pf fname]
  have s0: "tftp_ok s s0" unfolding s0_def by (rule tftp_prepared_ok [OF inv])
  have none: "tftp_ptAssoc s0 = None" and st: "tftp_tState s0 = tftp_tState s"
    using inv closed by (auto simp: tftp_inv_def tftp_conn_ok_def s0_def tftp_prepared_def)
  show ?thesis
  proof (cases a)
    case None
    then have "s1 = s0" using reg owns_register_None by simp
    then have "s' = s0\<lparr>tftp_ptAssoc := tftp_ptAssoc s0\<rparr>" using r o None none by simp
    then show ?thesis using s0 by simp
  next
    case (Some i)
    have lp: "?lp \<noteq> 0" using inv tftp_port_nonzero by (simp add: tftp_inv_def)
    define t where "t = s1\<lparr>tftp_ptAssoc := Some i, tftp_tState := TFTPSTATE_Init\<rparr>"
    have t: "tftp_ok s t" unfolding t_def
      by (rule tftp_ok_trans [OF s0 tftp_register_ok [OF tftp_ok_inv [OF s0] none lp reg [unfolded Some]]])
    obtain s2 where send: "tftp_send_open_packet pf (s1\<lparr>tftp_ptAssoc := Some i, pcTftpFileName := fname\<rparr>) = Some (k, s2)"
      and s': "s' = (if k = 0 then tftp_good_packet pf (s2\<lparr>tftp_tState := TFTPSTATE_Init\<rparr>) else tftp_cleanup s2)"
      using r o Some by (auto simp: Let_def Option.bind_eq_Some_conv)
    have same: "tftp_same (s1\<lparr>tftp_ptAssoc := Some i\<rparr>) s2" using tftp_same_open [OF send] by (simp add: tftp_same_def)
    have st1: "tftp_tState s1 = tftp_tState s" using reg st by (auto simp: udp_registerPort_def split: option.splits)
    have "tftp_same t (s2\<lparr>tftp_tState := TFTPSTATE_Init\<rparr>)" using same by (simp add: tftp_same_def t_def)
    note i = tftp_ok_same [OF t this]
    have "tftp_tState s2 = tftp_tState s" using same st1 by (simp add: tftp_same_def)
    then have "(s2\<lparr>tftp_tState := TFTPSTATE_Init\<rparr>)\<lparr>tftp_tState := tftp_tState s\<rparr> = s2" by simp
    then have "tftp_cleanup s2 = tftp_cleanup ((s2\<lparr>tftp_tState := TFTPSTATE_Init\<rparr>)\<lparr>tftp_tState := tftp_tState s\<rparr>)"
      by (rule arg_cong [OF sym])
    then have "tftp_ok s (tftp_cleanup s2)"
      using tftp_ok_trans [OF i tftp_close_ok [OF tftp_ok_inv [OF i] closed]] by simp
    then show ?thesis using s' tftp_ok_same [OF i] by simp
  qed
qed

end
