(* ===== verification/Stack.thy ===== *)
theory Stack
  imports Ports
begin

text \<open>
  The whole network stack: the receive handlers that the port table names, the dispatch of received
  packets (\<open>ipv4_process_packet\<close> of ipv4.c, \<open>eth_process_packet\<close> of eth.c) and the runs of the stack as an
  inductive step relation. The state is the record of the TFTP client, which extends the records of all
  layers below. The application calls the operations in any order; it starts a request of a client only
  when the client is not waiting. The network delivers any packets but those for the UDP port 0.
\<close>

subsection \<open>Dispatch of received packets\<close>

text \<open>The handlers in the port table. A call through a pointer that was never set has no result.\<close>

definition stack_handler ::
    "'w stack_env \<Rightarrow> 'w crypt \<Rightarrow> (u8 list \<Rightarrow> u32 \<Rightarrow> u32 \<Rightarrow> 'w \<Rightarrow> (u8 list \<times> 'w) option) \<Rightarrow> pfn_udp_receive_handler \<Rightarrow>
     ptr \<Rightarrow> u32 \<Rightarrow> ('d, 'w, 'z) tftp_scheme \<Rightarrow> ('d, 'w, 'z) tftp_scheme option" where
  "stack_handler pf hw fin h p n s =
     (case h of
        pfn_NULL \<Rightarrow> None
      | dhcp_rec \<Rightarrow> dhcp_recHandler pf p n s
      | dns_rec \<Rightarrow> dns_recHandler p n s
      | tftp_rec \<Rightarrow> tftp_recHandler pf hw fin p n s)"

definition ipv4_process_packet ::
    "'w stack_env \<Rightarrow> 'w crypt \<Rightarrow> (u8 list \<Rightarrow> u32 \<Rightarrow> u32 \<Rightarrow> 'w \<Rightarrow> (u8 list \<times> 'w) option) \<Rightarrow>
     ptr \<Rightarrow> u32 \<Rightarrow> ('d, 'w, 'z) tftp_scheme \<Rightarrow> ('d, 'w, 'z) tftp_scheme option" where
  "ipv4_process_packet pf hw fin ptEthPkt sizPacket s =
     (if sizPacket \<ge> sizeof_ETH2_HEADER_T + sizeof_IPV4_HEADER_T then
        if mem s (ip_ucVersion ptEthPkt) = IP_VERSION then
          let ucValue = mem s (ip_ucProtocol ptEthPkt) in
          if ucValue = IP_PROTOCOL_ICMP then Some (icmp_process_packet pf ptEthPkt sizPacket s)
          else if ucValue = IP_PROTOCOL_UDP then udp_process_packet (stack_handler pf hw fin) ptEthPkt sizPacket s
          else Some s
        else Some s
      else Some s)"

text \<open>\<open>siz\<close> is the value of the variable \<open>sizPacket\<close> before the driver sets it.\<close>

definition eth_process_packet ::
    "'w stack_env \<Rightarrow> 'w crypt \<Rightarrow> (u8 list \<Rightarrow> u32 \<Rightarrow> u32 \<Rightarrow> 'w \<Rightarrow> (u8 list \<times> 'w) option) \<Rightarrow> u32 \<Rightarrow>
     ('d, 'w, 'z) tftp_scheme \<Rightarrow> ('d, 'w, 'z) tftp_scheme option" where
  "eth_process_packet pf hw fin siz s =
     (case pfnGetReceivedPacket (tNetworkIf s) siz (drv s) of (ptPacket, sizPacket, d) \<Rightarrow>
        let s = s\<lparr>drv := d\<rparr> in
        if ptPacket \<noteq> NULL then
          do {
            s \<leftarrow> (if sizPacket < sizeof_ETH2_HEADER_T then Some s
                  else
                    let uiEth2Typ = rd16 (mem s) (eth_usTyp ptPacket) in
                    if uiEth2Typ = ETH2HEADER_TYP_IP then ipv4_process_packet pf hw fin ptPacket sizPacket s
                    else if uiEth2Typ = ETH2HEADER_TYP_ARP then Some (arp_process_packet ptPacket sizPacket s)
                    else Some s);
            Some (s\<lparr>drv := pfnReleasePacket (tNetworkIf s) ptPacket (drv s)\<rparr>)
          }
        else Some s)"

subsection \<open>The contract of a client\<close>

text \<open>
  A client of the port table: its handler \<open>own\<close>, its own variables \<open>conn\<close>, the variables of the other
  clients \<open>others\<close>, the invariant \<open>conn_ok\<close>, its receive handler and the calls of the application.
  A client may only change its own entries and variables, and its invariant depends on no other.
\<close>

locale port_client =
  fixes own :: pfn_udp_receive_handler
    and conn :: "('d, 'w, 'z) tftp_scheme \<Rightarrow> 'c" and others :: "('d, 'w, 'z) tftp_scheme \<Rightarrow> 'o"
    and conn_ok :: "UDP_ASSOCIATION_T list \<Rightarrow> 'c \<Rightarrow> bool"
    and recv :: "ptr \<Rightarrow> u32 \<Rightarrow> ('d, 'w, 'z) tftp_scheme \<Rightarrow> ('d, 'w, 'z) tftp_scheme option"
    and call :: "('d, 'w, 'z) tftp_scheme \<Rightarrow> ('d, 'w, 'z) tftp_scheme \<Rightarrow> bool"
  assumes not_null: "own \<noteq> pfn_NULL"
    and own_law: "conn_ok t c \<Longrightarrow> length t' = length t \<Longrightarrow> (\<And>i. owns t' own i = owns t own i) \<Longrightarrow> conn_ok t' c"
    and recv_law: "recv p n s = Some s' \<Longrightarrow> conn_ok (atUdpPortAssoc s) (conn s) \<Longrightarrow> owns (atUdpPortAssoc s) own i \<Longrightarrow>
      conn_ok (atUdpPortAssoc s') (conn s') \<and> others_kept own (atUdpPortAssoc s) (atUdpPortAssoc s') \<and> others s' = others s"
    and call_law: "call s s' \<Longrightarrow> conn_ok (atUdpPortAssoc s) (conn s) \<Longrightarrow>
      conn_ok (atUdpPortAssoc s') (conn s') \<and> others_kept own (atUdpPortAssoc s) (atUdpPortAssoc s') \<and> others s' = others s"
begin

definition ok :: "('d, 'w, 'z) tftp_scheme \<Rightarrow> bool" where
  "ok s \<longleftrightarrow> conn_ok (atUdpPortAssoc s) (conn s)"

lemma foreign:
  assumes "ok s" and "others_kept h (atUdpPortAssoc s) (atUdpPortAssoc s')" and "h \<noteq> own" and "conn s' = conn s"
  shows "ok s'"
  using own_law [of "atUdpPortAssoc s" "conn s" "atUdpPortAssoc s'"] assms by (simp add: ok_def others_kept_def)

lemma quiet:
  assumes "ok s" and "atUdpPortAssoc s' = atUdpPortAssoc s" and "conn s' = conn s"
  shows "ok s'"
  using assms by (simp add: ok_def)

lemma no_null_recv:
  assumes "recv p n s = Some s'" and "ok s" and "owns (atUdpPortAssoc s) own i" and "\<And>j. \<not> owns (atUdpPortAssoc s) pfn_NULL j"
  shows "\<not> owns (atUdpPortAssoc s') pfn_NULL j"
  using recv_law [OF assms(1) _ assms(3)] assms(2,4) not_null by (simp add: ok_def others_kept_def)

lemma no_null_call:
  assumes "call s s'" and "ok s" and "\<And>j. \<not> owns (atUdpPortAssoc s) pfn_NULL j"
  shows "\<not> owns (atUdpPortAssoc s') pfn_NULL j"
  using call_law [OF assms(1)] assms(2,3) not_null by (simp add: ok_def others_kept_def)

end

subsection \<open>The three clients\<close>

inductive dhcp_call :: "'w stack_env \<Rightarrow> ('d, 'w, 'z) dhcp_scheme \<Rightarrow> ('d, 'w, 'z) dhcp_scheme \<Rightarrow> bool" for pf where
  call_dhcp_timer: "dhcp_call pf s (dhcp_timer pf s)"
| call_dhcp_request: "\<not> dhcp_waits s \<Longrightarrow> dhcp_call pf s (dhcp_request pf s)"

inductive dns_call :: "'w stack_env \<Rightarrow> ('d, 'w, 'z) dns_scheme \<Rightarrow> ('d, 'w, 'z) dns_scheme \<Rightarrow> bool" for pf where
  call_dns_timer: "dns_timer pf s = Some s' \<Longrightarrow> dns_call pf s s'"
| call_dns_request: "dns_tState s \<noteq> DNS_STATE_Request \<Longrightarrow> dns_request pf name s = Some (k, s') \<Longrightarrow> dns_call pf s s'"

inductive tftp_call :: "'w stack_env \<Rightarrow> 'w crypt \<Rightarrow> ('d, 'w, 'z) tftp_scheme \<Rightarrow> ('d, 'w, 'z) tftp_scheme \<Rightarrow> bool" for pf hw where
  call_tftp_timer: "tftp_timer pf s = Some s' \<Longrightarrow> tftp_call pf hw s s'"
| call_tftp_open: "tftp_tState s \<noteq> TFTPSTATE_Init \<Longrightarrow> tftp_tState s \<noteq> TFTPSTATE_Transfer \<Longrightarrow>
    tftp_open pf hw fname dst blk s = Some (k, s') \<Longrightarrow> tftp_call pf hw s s'"

definition dhcp_conn :: "('d, 'w, 'z) tftp_scheme \<Rightarrow> DHCP_STATE_T \<times> nat option" where
  "dhcp_conn s = (dhcp_tState s, dhcp_ptAssoc s)"

definition dns_conn :: "('d, 'w, 'z) tftp_scheme \<Rightarrow> DNS_STATE_T \<times> nat option" where
  "dns_conn s = (dns_tState s, dns_ptAssoc s)"

definition tftp_conn :: "('d, 'w, 'z) tftp_scheme \<Rightarrow> tTftpState \<times> nat option \<times> u32" where
  "tftp_conn s = (tftp_tState s, tftp_ptAssoc s, uiPortCounter s)"

lemmas conn_defs = dhcp_conn_def dns_conn_def tftp_conn_def

definition dhcp_ports_ok :: "UDP_ASSOCIATION_T list \<Rightarrow> DHCP_STATE_T \<times> nat option \<Rightarrow> bool" where
  "dhcp_ports_ok t c \<longleftrightarrow> dhcp_conn_ok t (fst c) (snd c) \<and> (\<forall>i. owns t dhcp_rec i \<longrightarrow> snd c = Some i)"

definition dns_ports_ok :: "UDP_ASSOCIATION_T list \<Rightarrow> DNS_STATE_T \<times> nat option \<Rightarrow> bool" where
  "dns_ports_ok t c \<longleftrightarrow> dns_conn_ok t (fst c) (snd c)"

definition tftp_ports_ok :: "UDP_ASSOCIATION_T list \<Rightarrow> tTftpState \<times> nat option \<times> u32 \<Rightarrow> bool" where
  "tftp_ports_ok t c \<longleftrightarrow> tftp_conn_ok t (fst c) (fst (snd c)) \<and> 1024 \<le> snd (snd c) \<and> snd (snd c) \<le> 65535"

lemma ports_ok_iff:
  "dhcp_ports_ok (atUdpPortAssoc s) (dhcp_conn s) \<longleftrightarrow> dhcp_inv s \<and> dhcp_only s"
  "dns_ports_ok (atUdpPortAssoc s) (dns_conn s) \<longleftrightarrow> dns_inv s"
  "tftp_ports_ok (atUdpPortAssoc s) (tftp_conn s) \<longleftrightarrow> tftp_inv s"
  by (simp_all add: dhcp_ports_ok_def dns_ports_ok_def tftp_ports_ok_def conn_defs dhcp_inv_def dhcp_only_def dns_inv_def tftp_inv_def)

lemma dhcp_more_conn: "dhcp.more s' = dhcp.more s \<Longrightarrow> dns_conn s' = dns_conn s \<and> tftp_conn s' = tftp_conn s"
  by (cases s; cases s') (simp add: conn_defs)

lemma dns_more_conn: "dns.more s' = dns.more s \<Longrightarrow> tftp_conn s' = tftp_conn s"
  by (cases s; cases s') (simp add: conn_defs)

lemma dhcp_rec_inv:
  assumes "dhcp_recHandler pf p n s = Some s'" and "dhcp_inv s" and "dhcp_only s" and "owns (atUdpPortAssoc s) dhcp_rec i"
  shows "dhcp_inv s'"
  using assms dhcp_inv_rec_discover [of s pf p n s'] dhcp_inv_rec_request [of s p n s']
  by (auto simp: dhcp_recHandler_def dhcp_only_def split: DHCP_STATE_T.splits)

interpretation dhcp_client: port_client dhcp_rec dhcp_conn "\<lambda>s. (dns_conn s, tftp_conn s)" dhcp_ports_ok "dhcp_recHandler pf" "dhcp_call pf" for pf
proof
  show "dhcp_rec \<noteq> pfn_NULL" by simp
next
  fix t c t'
  assume "dhcp_ports_ok t c" "length t' = length t" and o: "\<And>i. owns t' dhcp_rec i = owns t dhcp_rec i"
  then show "dhcp_ports_ok t' c" by (auto simp: dhcp_ports_ok_def dhcp_conn_ok_def split: option.splits)
next
  fix p n s s' i
  assume "dhcp_recHandler pf p n s = Some s'" "dhcp_ports_ok (atUdpPortAssoc s) (dhcp_conn s)" "owns (atUdpPortAssoc s) dhcp_rec i"
  then show "dhcp_ports_ok (atUdpPortAssoc s') (dhcp_conn s') \<and> others_kept dhcp_rec (atUdpPortAssoc s) (atUdpPortAssoc s') \<and>
      (dns_conn s', tftp_conn s') = (dns_conn s, tftp_conn s)"
    using dhcp_rec_inv [of pf p n s s' i] dhcp_step_rec [of s pf p n s'] dhcp_more_conn [of s' s] by (auto simp: ports_ok_iff dhcp_step_ok_def)
next
  fix s s'
  assume "dhcp_call pf s s'" "dhcp_ports_ok (atUdpPortAssoc s) (dhcp_conn s)"
  moreover from this have "dhcp_inv s' \<and> dhcp_step_ok s s'"
    using dhcp_inv_timer dhcp_step_timer dhcp_step_request [of s pf] dhcp_inv_request [of s pf]
    by (auto simp: ports_ok_iff dhcp_call.simps dhcp_waits_def)
  ultimately show "dhcp_ports_ok (atUdpPortAssoc s') (dhcp_conn s') \<and> others_kept dhcp_rec (atUdpPortAssoc s) (atUdpPortAssoc s') \<and>
      (dns_conn s', tftp_conn s') = (dns_conn s, tftp_conn s)"
    using dhcp_more_conn [of s' s] by (auto simp: ports_ok_iff dhcp_step_ok_def)
qed

lemma dns_step_conn:
  assumes "dns_step_ok s s'"
  shows "others_kept dns_rec (atUdpPortAssoc s) (atUdpPortAssoc s') \<and> (dhcp_conn s', tftp_conn s') = (dhcp_conn s, tftp_conn s)"
  using assms dns_more_conn [of s' s] by (simp add: dns_step_ok_def dhcp_conn_def)

interpretation dns_client: port_client dns_rec dns_conn "\<lambda>s. (dhcp_conn s, tftp_conn s)" dns_ports_ok dns_recHandler "dns_call pf" for pf
proof
  show "dns_rec \<noteq> pfn_NULL" by simp
next
  fix t c t'
  assume "dns_ports_ok t c" "length t' = length t" and o: "\<And>i. owns t' dns_rec i = owns t dns_rec i"
  then show "dns_ports_ok t' c" by (auto simp: dns_ports_ok_def dns_conn_ok_def split: option.splits)
next
  fix p n s s' i
  assume "dns_recHandler p n s = Some s'" "dns_ports_ok (atUdpPortAssoc s) (dns_conn s)"
  then show "dns_ports_ok (atUdpPortAssoc s') (dns_conn s') \<and> others_kept dns_rec (atUdpPortAssoc s) (atUdpPortAssoc s') \<and>
      (dhcp_conn s', tftp_conn s') = (dhcp_conn s, tftp_conn s)"
    using dns_inv_rec [of s p n s'] dns_step_conn [OF dns_step_rec [of p n s s']] by (simp add: ports_ok_iff)
next
  fix s s'
  assume "dns_call pf s s'" "dns_ports_ok (atUdpPortAssoc s) (dns_conn s)"
  then have "dns_inv s' \<and> dns_step_ok s s'"
    using dns_inv_timer [of s pf s'] dns_step_timer [of s pf s'] dns_step_request [of s pf _ _ s'] dns_inv_request [of s pf _ _ s']
    by (auto simp: ports_ok_iff dns_call.simps)
  then show "dns_ports_ok (atUdpPortAssoc s') (dns_conn s') \<and> others_kept dns_rec (atUdpPortAssoc s) (atUdpPortAssoc s') \<and>
      (dhcp_conn s', tftp_conn s') = (dhcp_conn s, tftp_conn s)"
    using dns_step_conn [of s s'] by (simp add: ports_ok_iff)
qed

lemma tftp_ok_conn:
  assumes "tftp_ok s s'"
  shows "tftp_ports_ok (atUdpPortAssoc s') (tftp_conn s') \<and> others_kept tftp_rec (atUdpPortAssoc s) (atUdpPortAssoc s') \<and>
    (dhcp_conn s', dns_conn s') = (dhcp_conn s, dns_conn s)"
  using assms by (simp add: ports_ok_iff tftp_ok_def tftp_step_ok_def dhcp_conn_def dns_conn_def)

interpretation tftp_client: port_client tftp_rec tftp_conn "\<lambda>s. (dhcp_conn s, dns_conn s)" tftp_ports_ok "tftp_recHandler pf hw fin" "tftp_call pf hw"
  for pf hw fin
proof
  show "tftp_rec \<noteq> pfn_NULL" by simp
next
  fix t c t'
  assume "tftp_ports_ok t c" "length t' = length t" and o: "\<And>i. owns t' tftp_rec i = owns t tftp_rec i"
  then show "tftp_ports_ok t' c" by (auto simp: tftp_ports_ok_def tftp_conn_ok_def)
next
  fix p n s s' i
  assume "tftp_recHandler pf hw fin p n s = Some s'" "tftp_ports_ok (atUdpPortAssoc s) (tftp_conn s)"
  then show "tftp_ports_ok (atUdpPortAssoc s') (tftp_conn s') \<and> others_kept tftp_rec (atUdpPortAssoc s) (atUdpPortAssoc s') \<and>
      (dhcp_conn s', dns_conn s') = (dhcp_conn s, dns_conn s)"
    by (intro tftp_ok_conn tftp_rec_ok) (simp_all add: ports_ok_iff)
next
  fix s s'
  assume "tftp_call pf hw s s'" "tftp_ports_ok (atUdpPortAssoc s) (tftp_conn s)"
  then show "tftp_ports_ok (atUdpPortAssoc s') (tftp_conn s') \<and> others_kept tftp_rec (atUdpPortAssoc s) (atUdpPortAssoc s') \<and>
      (dhcp_conn s', dns_conn s') = (dhcp_conn s, dns_conn s)"
    using tftp_timer_ok [of s pf s'] tftp_open_ok [of s pf hw _ _ _ _ s']
    by (intro tftp_ok_conn) (auto simp: ports_ok_iff tftp_call.simps)
qed

subsection \<open>Runs of the stack\<close>

text \<open>The start: all layers are initialised, from below, on an interface \<open>nif\<close>.\<close>

definition stack_start :: "'d NETWORK_IF_T \<Rightarrow> 'w rng_regs \<Rightarrow> ('d, 'w, 'z) tftp_scheme \<Rightarrow> ('d, 'w, 'z) tftp_scheme" where
  "stack_start nif r s = tftp_init (dns_init r (dhcp_init (udp_init (icmp_init (ipv4_init (arp_init (eth_init nif s)))))))"

text \<open>The next received frame is no UDP packet for the port 0.\<close>

definition no_port_zero :: "u32 \<Rightarrow> ('d, 'w, 'z) tftp_scheme \<Rightarrow> bool" where
  "no_port_zero siz s \<longleftrightarrow>
     (case pfnGetReceivedPacket (tNetworkIf s) siz (drv s) of (p, n, d) \<Rightarrow>
        p = NULL \<or> mem s (ip_ucProtocol p) \<noteq> IP_PROTOCOL_UDP \<or> rd16 (mem s) (udp_usDstPort p) \<noteq> 0)"

text \<open>The operations of the stack: a frame is processed, a timer runs, or the application starts a request. Between
  them the hardware and the application change the memory, the driver and the platform.\<close>

inductive stack_op ::
    "'w stack_env \<Rightarrow> 'w crypt \<Rightarrow> (u8 list \<Rightarrow> u32 \<Rightarrow> u32 \<Rightarrow> 'w \<Rightarrow> (u8 list \<times> 'w) option) \<Rightarrow>
     ('d, 'w, 'z) tftp_scheme \<Rightarrow> ('d, 'w, 'z) tftp_scheme \<Rightarrow> bool" for pf hw fin where
  op_receive: "no_port_zero siz s \<Longrightarrow> eth_process_packet pf hw fin siz s = Some s' \<Longrightarrow> stack_op pf hw fin s s'"
| op_arp: "stack_op pf hw fin s (arp_timer pf s)"
| op_dhcp: "dhcp_call pf s s' \<Longrightarrow> stack_op pf hw fin s s'"
| op_dns: "dns_call pf s s' \<Longrightarrow> stack_op pf hw fin s s'"
| op_tftp: "tftp_call pf hw s s' \<Longrightarrow> stack_op pf hw fin s s'"

inductive stack_reach ::
    "'w stack_env \<Rightarrow> 'w crypt \<Rightarrow> (u8 list \<Rightarrow> u32 \<Rightarrow> u32 \<Rightarrow> 'w \<Rightarrow> (u8 list \<times> 'w) option) \<Rightarrow>
     ('d, 'w, 'z) tftp_scheme \<Rightarrow> ('d, 'w, 'z) tftp_scheme \<Rightarrow> bool" for pf hw fin where
  reach_refl: "stack_reach pf hw fin s s"
| reach_outside: "stack_reach pf hw fin s s' \<Longrightarrow> stack_reach pf hw fin s (s'\<lparr>mem := m, env := w, drv := d\<rparr>)"
| reach_op: "stack_reach pf hw fin s s' \<Longrightarrow> stack_op pf hw fin s' s'' \<Longrightarrow> stack_reach pf hw fin s s''"

subsection \<open>The invariant\<close>

definition stack_inv :: "('d, 'w, 'z) tftp_scheme \<Rightarrow> bool" where
  "stack_inv s \<longleftrightarrow> dhcp_inv s \<and> dhcp_only s \<and> dns_inv s \<and> tftp_inv s \<and> (\<forall>i. \<not> owns (atUdpPortAssoc s) pfn_NULL i)"

lemma stack_inv_clients:
  "stack_inv s \<longleftrightarrow> dhcp_client.ok s \<and> dns_client.ok s \<and> tftp_client.ok s \<and> (\<forall>i. \<not> owns (atUdpPortAssoc s) pfn_NULL i)"
  by (simp add: stack_inv_def dhcp_client.ok_def dns_client.ok_def tftp_client.ok_def ports_ok_iff)

lemma stack_inv_start:
  assumes "length (atUdpPortAssoc s) = UDP_PORTLIST_MAX"
  shows "stack_inv (stack_start nif r s)"
  using assms
  by (simp add: stack_inv_def stack_start_def tftp_init_def dns_init_def dhcp_init_def udp_init_def icmp_init_def ipv4_init_def arp_init_def
    eth_init_def dhcp_inv_def dhcp_conn_ok_def dhcp_only_def dns_inv_def dns_conn_ok_def tftp_inv_def tftp_conn_ok_def owns_def Let_def
    case_prod_beta)

lemma stack_inv_quiet:
  assumes "stack_inv s" and "ipv4_keeps s s'"
  shows "stack_inv s'"
proof -
  have "atUdpPortAssoc s' = atUdpPortAssoc s" "dhcp_conn s' = dhcp_conn s" "dns_conn s' = dns_conn s" "tftp_conn s' = tftp_conn s"
    using assms(2) by (cases s; cases s'; simp add: ipv4_keeps_def conn_defs)+
  then show ?thesis using assms(1) by (simp add: stack_inv_clients dhcp_client.ok_def dns_client.ok_def tftp_client.ok_def)
qed

text \<open>A client that works on its own part keeps the invariants of the others.\<close>

lemma stack_inv_dhcp:
  fixes s s' :: "('d, 'w, 'z) tftp_scheme"
  assumes "stack_inv s" and "dhcp_ports_ok (atUdpPortAssoc s') (dhcp_conn s') \<and>
    others_kept dhcp_rec (atUdpPortAssoc s) (atUdpPortAssoc s') \<and> (dns_conn s', tftp_conn s') = (dns_conn s, tftp_conn s)"
  shows "stack_inv s'"
  using assms dns_client.foreign [of s dhcp_rec s'] tftp_client.foreign [of s dhcp_rec s']
  by (simp add: stack_inv_clients dhcp_client.ok_def) (simp add: others_kept_def)

lemma stack_inv_dns:
  fixes s s' :: "('d, 'w, 'z) tftp_scheme"
  assumes "stack_inv s" and "dns_ports_ok (atUdpPortAssoc s') (dns_conn s') \<and>
    others_kept dns_rec (atUdpPortAssoc s) (atUdpPortAssoc s') \<and> (dhcp_conn s', tftp_conn s') = (dhcp_conn s, tftp_conn s)"
  shows "stack_inv s'"
  using assms dhcp_client.foreign [of s dns_rec s'] tftp_client.foreign [of s dns_rec s']
  by (simp add: stack_inv_clients dns_client.ok_def) (simp add: others_kept_def)

lemma stack_inv_tftp:
  fixes s s' :: "('d, 'w, 'z) tftp_scheme"
  assumes "stack_inv s" and "tftp_ports_ok (atUdpPortAssoc s') (tftp_conn s') \<and>
    others_kept tftp_rec (atUdpPortAssoc s) (atUdpPortAssoc s') \<and> (dhcp_conn s', dns_conn s') = (dhcp_conn s, dns_conn s)"
  shows "stack_inv s'"
  using assms dhcp_client.foreign [of s tftp_rec s'] dns_client.foreign [of s tftp_rec s']
  by (simp add: stack_inv_clients tftp_client.ok_def) (simp add: others_kept_def)

lemma stack_inv_handler:
  assumes inv: "stack_inv s" and o: "owns (atUdpPortAssoc s) h i" and r: "stack_handler pf hw fin h p n s = Some s'"
  shows "stack_inv s'"
proof -
  have c: "dhcp_client.ok s" "dns_client.ok s" "tftp_client.ok s" using inv by (simp_all add: stack_inv_clients)
  show ?thesis
  proof (cases h)
    case dhcp_rec
    then show ?thesis using r o c(1) stack_inv_dhcp [OF inv dhcp_client.recv_law [of pf p n s s' i]] by (simp add: stack_handler_def dhcp_client.ok_def)
  next
    case dns_rec
    then show ?thesis using r o c(2) stack_inv_dns [OF inv dns_client.recv_law [of p n s s' i]] by (simp add: stack_handler_def dns_client.ok_def)
  next
    case tftp_rec
    then show ?thesis using r o c(3) stack_inv_tftp [OF inv tftp_client.recv_law [of pf hw fin p n s s' i]]
      by (simp add: stack_handler_def tftp_client.ok_def)
  qed (use r in \<open>simp add: stack_handler_def\<close>)
qed

text \<open>A port that is not 0 is found only in an entry that is in use.\<close>

lemma found_port_owned:
  "udp_find_port port t = Some i \<Longrightarrow> port \<noteq> 0 \<Longrightarrow> owns t (pfn_recHandler (t ! i)) i"
  using find_index_Some [of "\<lambda>a. uiLocalPort a = port" t i] by (simp add: udp_find_port_def owns_def)

lemma stack_inv_udp:
  assumes inv: "stack_inv s" and port: "rd16 (mem s) (udp_usDstPort p) \<noteq> 0"
    and r: "udp_process_packet (stack_handler pf hw fin) p n s = Some s'"
  shows "stack_inv s'"
proof -
  have p: "(ucast (rd16 (mem s) (p + 36)) :: u32) \<noteq> 0" using port by (simp add: word_unat_eq_iff unsigned_ucast_eq)
  have "stack_inv t" if "udp_find_port (ucast (rd16 (mem s) (p + 36))) (atUdpPortAssoc s) = Some i"
      "stack_handler pf hw fin (pfn_recHandler (atUdpPortAssoc s ! i)) p k s = Some t" for i k t
    by (rule stack_inv_handler [OF inv found_port_owned [OF that(1) p] that(2)])
  then show ?thesis using r inv
    by (auto simp: udp_process_packet_def Let_def case_prod_beta split: if_splits option.splits)
qed

lemma stack_inv_drv [simp]: "stack_inv (s\<lparr>drv := d\<rparr>) \<longleftrightarrow> stack_inv s"
  using stack_inv_quiet [of s "s\<lparr>drv := d\<rparr>"] stack_inv_quiet [of "s\<lparr>drv := d\<rparr>" s] by (auto simp: ipv4_keeps_def)

lemma stack_inv_eth:
  assumes inv: "stack_inv s" and port: "no_port_zero siz s" and r: "eth_process_packet pf hw fin siz s = Some s'"
  shows "stack_inv s'"
proof -
  obtain p n d where g: "pfnGetReceivedPacket (tNetworkIf s) siz (drv s) = (p, n, d)" by (metis prod_cases3)
  let ?s = "s\<lparr>drv := d\<rparr>"
  have s: "stack_inv ?s" using inv by simp
  have "stack_inv (arp_process_packet p n ?s)" by (rule stack_inv_quiet [OF s]) simp
  moreover have "stack_inv (icmp_process_packet pf p n ?s)" by (rule stack_inv_quiet [OF s]) simp
  moreover have "stack_inv t" if "ipv4_process_packet pf hw fin p n ?s = Some t" "p \<noteq> NULL" for t
    using that port g s calculation(2) stack_inv_udp [OF s, of p pf hw fin n t]
    by (auto simp: ipv4_process_packet_def no_port_zero_def Let_def split: if_splits)
  ultimately show ?thesis using r g inv
    by (auto simp: eth_process_packet_def Let_def Option.bind_eq_Some_conv split: if_splits)
qed

lemma stack_inv_op:
  assumes inv: "stack_inv s" and op: "stack_op pf hw fin s s'"
  shows "stack_inv s'"
proof -
  have c: "dhcp_client.ok s" "dns_client.ok s" "tftp_client.ok s" using inv by (simp_all add: stack_inv_clients)
  from op show ?thesis
  proof cases
    case (op_receive siz)
    then show ?thesis by (rule stack_inv_eth [OF inv])
  next
    case op_arp
    then show ?thesis using stack_inv_quiet [OF inv, of s'] by simp
  next
    case op_dhcp
    from stack_inv_dhcp [OF inv dhcp_client.call_law [OF this]] show ?thesis using c(1) by (simp add: dhcp_client.ok_def)
  next
    case op_dns
    from stack_inv_dns [OF inv dns_client.call_law [OF this]] show ?thesis using c(2) by (simp add: dns_client.ok_def)
  next
    case op_tftp
    from stack_inv_tftp [OF inv tftp_client.call_law [OF this]] show ?thesis using c(3) by (simp add: tftp_client.ok_def)
  qed
qed

lemma stack_inv_reach:
  assumes "stack_reach pf hw fin s s'" and "stack_inv s"
  shows "stack_inv s'"
  using assms
proof (induction rule: stack_reach.induct)
  case (reach_outside s s' d w m)
  then show ?case using stack_inv_quiet [of s' "s'\<lparr>mem := m, env := w, drv := d\<rparr>"] by simp
qed (auto intro: stack_inv_op)

subsection \<open>Properties\<close>

text \<open>(C7) The clients do not get into each other's way: however the operations of the stack, the packets of the network and the
  changes of the hardware follow each other, the DHCP client has at most one entry of the port table and only while it waits for
  an answer, the TFTP client has one exactly while a file is open, every entry a client holds is in use with the
  client's own handler, and no two clients hold the same entry.\<close>

theorem stack_clients_own_ports:
  assumes "length (atUdpPortAssoc s0) = UDP_PORTLIST_MAX" and "stack_reach pf hw fin (stack_start nif r s0) s"
  shows "dhcp_inv s \<and> dhcp_only s \<and> dns_inv s \<and> tftp_inv s \<and>
    (\<forall>i. dhcp_ptAssoc s = Some i \<longrightarrow> dns_ptAssoc s \<noteq> Some i \<and> tftp_ptAssoc s \<noteq> Some i) \<and>
    (\<forall>i. dns_ptAssoc s = Some i \<longrightarrow> tftp_ptAssoc s \<noteq> Some i)"
proof -
  have inv: "stack_inv s" by (rule stack_inv_reach [OF assms(2) stack_inv_start [OF assms(1)]])
  then have "dhcp_ptAssoc s = Some i \<Longrightarrow> owns (atUdpPortAssoc s) dhcp_rec i" "dns_ptAssoc s = Some i \<Longrightarrow> owns (atUdpPortAssoc s) dns_rec i"
    "tftp_ptAssoc s = Some i \<Longrightarrow> owns (atUdpPortAssoc s) tftp_rec i" for i
    by (simp_all add: stack_inv_def dhcp_inv_def dhcp_conn_ok_def dns_inv_def dns_conn_ok_def tftp_inv_def tftp_conn_ok_def)
  then show ?thesis using inv unfolding stack_inv_def owns_def by fastforce
qed

text \<open>A stack on the list hardware, with the tables as the loader leaves them.\<close>

definition demo_stack :: "((u32 \<Rightarrow> u32 \<Rightarrow> u32 list) xc, u8 list) tftp" where
  "demo_stack = demo_tftp\<lparr>atUdpPortAssoc := replicate UDP_PORTLIST_MAX \<lparr>uiLocalPort = 0, ulRemoteIp = 0, uiRemotePort = 0,
     pfn_recHandler = pfn_NULL, pvUser = NULL\<rparr>\<rparr>"

definition demo_rng :: "u8 list rng_regs" where
  "demo_rng = \<lparr>rd_systime_s = (\<lambda>w. (1, w)), rd_systime_ns = (\<lambda>w. (2, w)), rd_chip_id = (\<lambda>_ w. (0, w))\<rparr>"

abbreviation demo_start :: "((u32 \<Rightarrow> u32 \<Rightarrow> u32 list) xc, u8 list) tftp" where
  "demo_start \<equiv> stack_start (tNetworkIfXc list_regs) demo_rng demo_stack"

lemma demo_stack_ports: "length (atUdpPortAssoc demo_stack) = UDP_PORTLIST_MAX"
  by (simp add: demo_stack_def)

lemma demo_request_reach:
  "stack_reach still_env log_crypt (\<lambda>h k n w. Some (h, w)) demo_start (dhcp_request still_env demo_start)"
proof -
  have "\<not> dhcp_waits demo_start"
    by (simp add: stack_start_def tftp_init_def dns_init_def dhcp_init_def dhcp_waits_def Let_def case_prod_beta)
  then show ?thesis by (intro reach_op [OF reach_refl op_dhcp] call_dhcp_request)
qed

text \<open>(C7) Witness: the DHCP request on the started stack.\<close>

theorem stack_clients_own_ports_witness:
  "dhcp_only (dhcp_request still_env demo_start) \<and> tftp_inv (dhcp_request still_env demo_start)"
  using stack_clients_own_ports [OF demo_stack_ports demo_request_reach] by blast

text \<open>(C26) A received packet reaches the client that waits for it: in every run of the stack, an entry that the table has for
  a port other than 0 has a handler, and a packet handed to the DHCP client comes from the entry the client holds, while it waits
  for an offer or an acknowledgement.\<close>

theorem stack_delivers_to_owner:
  assumes "length (atUdpPortAssoc s0) = UDP_PORTLIST_MAX" and "stack_reach pf hw fin (stack_start nif r s0) s"
    and "udp_find_port port (atUdpPortAssoc s) = Some i" and "port \<noteq> 0"
  shows "pfn_recHandler (atUdpPortAssoc s ! i) \<noteq> pfn_NULL \<and>
    (pfn_recHandler (atUdpPortAssoc s ! i) = dhcp_rec \<longrightarrow> dhcp_ptAssoc s = Some i \<and>
       (dhcp_getState s = DHCP_STATE_Discover \<or> dhcp_getState s = DHCP_STATE_Request))"
proof -
  have inv: "stack_inv s" by (rule stack_inv_reach [OF assms(2) stack_inv_start [OF assms(1)]])
  have o: "owns (atUdpPortAssoc s) (pfn_recHandler (atUdpPortAssoc s ! i)) i" by (rule found_port_owned [OF assms(3,4)])
  then have "pfn_recHandler (atUdpPortAssoc s ! i) \<noteq> pfn_NULL" using inv by (auto simp: stack_inv_def)
  moreover have "dhcp_ptAssoc s = Some i \<and> dhcp_waits s" if "pfn_recHandler (atUdpPortAssoc s ! i) = dhcp_rec"
    using o that inv by (auto simp: stack_inv_def dhcp_only_def dhcp_inv_def dhcp_conn_ok_def dhcp_waits_def)
  ultimately show ?thesis by (auto simp: dhcp_getState_def dhcp_waits_def)
qed

text \<open>The DHCP request registers the first entry.\<close>

lemma demo_request_port:
  "udp_find_port (ucast (MUS2NUS DHCP_DISCOVER_SRC_PORT)) (atUdpPortAssoc (dhcp_request still_env demo_start)) = Some 0"
proof -
  let ?e = "\<lparr>uiLocalPort = 0, ulRemoteIp = 0, uiRemotePort = 0, pfn_recHandler = pfn_NULL, pvUser = NULL\<rparr>"
  have t: "atUdpPortAssoc demo_start = ?e # replicate 7 ?e" "drv demo_start = two_empty" "tNetworkIf demo_start = tNetworkIfXc list_regs"
    by (simp_all add: stack_start_def tftp_init_def dns_init_def dhcp_init_def udp_init_def icmp_init_def ipv4_init_def arp_init_def
      eth_init_def Let_def case_prod_beta demo_stack_def UDP_PORTLIST_MAX_def numeral_eq_Suc demo_tftp_def)
  obtain s1 where reg: "udp_registerPort (ucast (MUS2NUS DHCP_DISCOVER_SRC_PORT)) DHCP_DISCOVER_DST_IP
      (ucast (MUS2NUS DHCP_DISCOVER_DST_PORT)) dhcp_rec NULL demo_start = (Some 0, s1)"
      and s1: "drv s1 = two_empty" "tNetworkIf s1 = tNetworkIfXc list_regs"
      "udp_find_port (ucast (MUS2NUS DHCP_DISCOVER_SRC_PORT)) (atUdpPortAssoc s1) = Some 0"
    using t by (simp add: udp_registerPort_def udp_find_port_def)
  let ?s = "s1\<lparr>dhcp_ptAssoc := Some 0, dhcp_ulXId := dhcp_ulXId s1 + 1\<rparr>"
  obtain d where "pfnGetEmptyPacket (tNetworkIfXc list_regs) two_empty = (0x05000618, d)" using two_empty_get by blast
  then have z: "fst (dhcp_send_discover_packet still_env ?s) = 0"
    using s1 by (simp add: dhcp_send_discover_packet_def eth_get_empty_packet_def Let_def case_prod_beta)
  have "atUdpPortAssoc (snd (dhcp_send_discover_packet still_env ?s)) = atUdpPortAssoc s1"
    using ipv4_keeps_dhcp [of ?s "snd (dhcp_send_discover_packet still_env ?s)"] by simp
  then show ?thesis using reg z s1(3) by (simp add: dhcp_request_def case_prod_beta Let_def)
qed

text \<open>(C26) Witness: an answer for the port of the DHCP client on the started stack.\<close>

theorem stack_delivers_to_owner_witness:
  "pfn_recHandler (atUdpPortAssoc (dhcp_request still_env demo_start) ! 0) \<noteq> pfn_NULL"
  using stack_delivers_to_owner [OF demo_stack_ports demo_request_reach demo_request_port MUS2NUS_ports_nonzero] by blast

text \<open>(C40) A packet for port 0 is taken for a packet of a free entry: on a stack whose first entry was never used, a valid
  UDP packet with the destination port 0 makes \<open>eth_process_packet\<close> call a null pointer.\<close>

theorem stack_port_zero_null_call:
  assumes "pfnGetReceivedPacket (tNetworkIf s) siz (drv s) = (p, n, d)" and "p \<noteq> NULL" and "42 \<le> unat n"
    and "rd16 (mem s) (p + 12) = ETH2HEADER_TYP_IP" and "mem s (p + 14) = IP_VERSION" and "mem s (p + 23) = IP_PROTOCOL_UDP"
    and "rd16 (mem s) (p + 36) = 0" and "NUS2MUS (rd16 (mem s) (p + 38)) \<le> n - 34"
    and "fst (udp_buildChecksum p (NUS2MUS (rd16 (mem s) (p + 38))) (mem s)) = rd16 (mem s) (p + 40)"
    and "atUdpPortAssoc s = e # t" and "uiLocalPort e = 0" and "pfn_recHandler e = pfn_NULL"
  shows "eth_process_packet pf hw fin siz s = None"
proof -
  have n: "42 \<le> n" "\<not> n < 14" "34 \<le> n" using assms(3) by (simp_all add: word_le_nat_alt word_less_nat_alt)
  have t: "IP_PROTOCOL_UDP \<noteq> IP_PROTOCOL_ICMP" by (simp add: IP_PROTOCOL_UDP_def IP_PROTOCOL_ICMP_def)
  have "udp_process_packet (stack_handler pf hw fin) p n (s\<lparr>drv := d\<rparr>) = None"
    using assms n by (simp add: udp_process_packet_def sizeof_defs Let_def case_prod_beta udp_find_port_def stack_handler_def)
  then show ?thesis using assms(1-6) n t
    by (simp add: eth_process_packet_def ipv4_process_packet_def sizeof_defs Let_def)
qed

text \<open>A UDP packet of eight bytes from 192.168.0.1 to port 0.\<close>

definition port_zero_frame :: memory where
  "port_zero_frame = wrbytes (\<lambda>_. 0) (0x05000618 + 12) [0x08, 0x00, 0x45, 0, 0, 28, 0, 0, 0x40, 0, 64, 0x11, 0, 0,
     0xc0, 0xa8, 0, 1, 0xc0, 0xa8, 0, 2, 0, 0, 0, 0, 0, 8, 0x7e, 0x8a]"

text \<open>(C40) Witness: such a packet on the started stack.\<close>

theorem stack_port_zero_null_call_witness:
  "eth_process_packet still_env log_crypt (\<lambda>h k n w. Some (h, w)) 0 (demo_stack\<lparr>mem := port_zero_frame,
     tNetworkIf := (tNetworkIfXc list_regs)\<lparr>pfnGetReceivedPacket := (\<lambda>_ d. (0x05000618, 42, d))\<rparr>\<rparr>) = None"
proof -
  let ?m = port_zero_frame
  note [simp] = port_zero_frame_def rd16_def
  have h: "rd16 ?m (0x05000618 + 12) = ETH2HEADER_TYP_IP" "?m (0x05000618 + 14) = IP_VERSION" "?m (0x05000618 + 23) = IP_PROTOCOL_UDP"
    "rd16 ?m (0x05000618 + 36) = 0" "NUS2MUS (rd16 ?m (0x05000618 + 38)) = 8" "rd16 ?m (0x05000618 + 40) = 0x8a7e"
    by (simp_all add: ETH2HEADER_TYP_IP_def MUS2NUS_def NUS2MUS_def IP_VERSION_def IP_PROTOCOL_UDP_def)
  have "bsum True (udp_pseudo ?m 0x05000618 @ rdbytes ?m (0x05000618 + 34) (unat (8 :: u32))) mod 65535 = 0"
    by (simp add: udp_pseudo_def rdbytes_numeral)
  then have c: "fst (udp_buildChecksum 0x05000618 8 ?m) = rd16 ?m (0x05000618 + 40)"
    using udp_checksum_test [of 8 "0x05000618" ?m] h(6) by simp
  let ?e = "\<lparr>uiLocalPort = 0, ulRemoteIp = 0, uiRemotePort = 0, pfn_recHandler = pfn_NULL, pvUser = NULL\<rparr>"
  have t: "atUdpPortAssoc demo_stack = ?e # replicate 7 ?e" "drv demo_stack = two_empty"
    by (simp_all add: demo_stack_def UDP_PORTLIST_MAX_def numeral_eq_Suc demo_tftp_def)
  show ?thesis
    by (rule stack_port_zero_null_call [where p = "0x05000618" and n = 42 and d = two_empty and e = ?e and t = "replicate 7 ?e"])
      (use h c t in \<open>simp_all del: port_zero_frame_def rd16_def\<close>)
qed

end
