(* ===== verification/Stack_Effects.thy ===== *)
theory Stack_Effects
  imports Stack
begin

text \<open>
  Properties that all operations of the stack keep. The clients use the layers below only through a few
  operations: they get an empty frame, fill it and send it as a UDP packet, and a received frame is
  processed and released. The locale \<open>stack_contract\<close> collects what a predicate must satisfy for these
  operations, and shows once that then every operation of the stack keeps it. It is used for the number
  of the frame buffers and for the lengths of the arrays.
\<close>

subsection \<open>What the clients leave to the layers below\<close>

definition low :: "('d, 'w, 'z) tftp_scheme \<Rightarrow> ('d, 'w, 'z) tftp_scheme \<Rightarrow> bool" where
  "low s s' \<longleftrightarrow> tNetworkIf s' = tNetworkIf s \<and> drv s' = drv s \<and> atPacketQueue s' = atPacketQueue s \<and>
     aui_arp_cache s' = aui_arp_cache s \<and> aucMac (eth_options s') = aucMac (eth_options s)"

lemma low_refl [simp]: "low s s"
  by (simp add: low_def)

lemma low_trans: "low s s' \<Longrightarrow> low s' s'' \<Longrightarrow> low s s''"
  by (simp add: low_def)

lemma low_time [simp]: "low s (snd (get_ms pf s')) \<longleftrightarrow> low s s'" "low s (snd (is_elapsed pf a b s')) \<longleftrightarrow> low s s'"
  by (simp_all add: low_def get_ms_def is_elapsed_def split: prod.split)

lemma low_unregister [simp]: "low s (udp_unregisterPort a s') \<longleftrightarrow> low s s'"
  by (simp add: low_def udp_unregisterPort_def split: option.split)

lemma low_register: "udp_registerPort a b c h u s = (i, s') \<Longrightarrow> low s s'"
  by (auto simp: low_def udp_registerPort_def split: option.splits)

lemma low_base [simp]:
  "low s (s'\<lparr>mem := m\<rparr>) \<longleftrightarrow> low s s'" "low s (s'\<lparr>env := w\<rparr>) \<longleftrightarrow> low s s'" "low s (s'\<lparr>atUdpPortAssoc := t\<rparr>) \<longleftrightarrow> low s s'"
  by (simp_all add: low_def)

lemma low_dhcp [simp]:
  "low s (s'\<lparr>dhcp_tState := a\<rparr>) \<longleftrightarrow> low s s'" "low s (s'\<lparr>dhcp_ptAssoc := b\<rparr>) \<longleftrightarrow> low s s'"
  "low s (s'\<lparr>dhcp_ulLastGoodPacket := c\<rparr>) \<longleftrightarrow> low s s'" "low s (s'\<lparr>dhcp_uiRetryCnt := c\<rparr>) \<longleftrightarrow> low s s'"
  "low s (s'\<lparr>dhcp_ulXId := c\<rparr>) \<longleftrightarrow> low s s'" "low s (s'\<lparr>dhcp_ulRequestIp := c\<rparr>) \<longleftrightarrow> low s s'"
  "low s (s'\<lparr>dhcp_aucServerIdentifier := d\<rparr>) \<longleftrightarrow> low s s'" "low s (s'\<lparr>dhcp_server_name := d\<rparr>) \<longleftrightarrow> low s s'"
  "low s (s'\<lparr>dhcp_bootfile_name := d\<rparr>) \<longleftrightarrow> low s s'"
  by (simp_all add: low_def)

lemma low_dns [simp]:
  "low s (s'\<lparr>dns_tState := a\<rparr>) \<longleftrightarrow> low s s'" "low s (s'\<lparr>us_dns_transaction_id_cnt := e\<rparr>) \<longleftrightarrow> low s s'"
  "low s (s'\<lparr>dns_ptAssoc := b\<rparr>) \<longleftrightarrow> low s s'" "low s (s'\<lparr>dns_ulLastGoodPacket := c\<rparr>) \<longleftrightarrow> low s s'"
  "low s (s'\<lparr>dns_uiRetryCnt := c\<rparr>) \<longleftrightarrow> low s s'" "low s (s'\<lparr>pcHostName := c\<rparr>) \<longleftrightarrow> low s s'"
  "low s (s'\<lparr>ulHostIp := c\<rparr>) \<longleftrightarrow> low s s'" "low s (s'\<lparr>pucBuffer := c\<rparr>) \<longleftrightarrow> low s s'"
  by (simp_all add: low_def)

lemma low_tftp [simp]:
  "low s (s'\<lparr>uiPortCounter := c\<rparr>) \<longleftrightarrow> low s s'" "low s (s'\<lparr>tftp_ptAssoc := b\<rparr>) \<longleftrightarrow> low s s'"
  "low s (s'\<lparr>pcTftpFileName := c\<rparr>) \<longleftrightarrow> low s s'" "low s (s'\<lparr>uiExpectedBlockNr := c\<rparr>) \<longleftrightarrow> low s s'"
  "low s (s'\<lparr>tftp_tState := a\<rparr>) \<longleftrightarrow> low s s'" "low s (s'\<lparr>tftp_ulLastGoodPacket := c\<rparr>) \<longleftrightarrow> low s s'"
  "low s (s'\<lparr>tftp_uiRetryCnt := c\<rparr>) \<longleftrightarrow> low s s'" "low s (s'\<lparr>uiBlockSize := c\<rparr>) \<longleftrightarrow> low s s'"
  "low s (s'\<lparr>acBlockSize := d\<rparr>) \<longleftrightarrow> low s s'" "low s (s'\<lparr>sizBlockSizeLen := c\<rparr>) \<longleftrightarrow> low s s'"
  "low s (s'\<lparr>ulLoadedBytes := c\<rparr>) \<longleftrightarrow> low s s'" "low s (s'\<lparr>pucDstBuffer := c\<rparr>) \<longleftrightarrow> low s s'"
  "low s (s'\<lparr>tftp_aulHash := d\<rparr>) \<longleftrightarrow> low s s'"
  by (simp_all add: low_def)

lemma low_cleanup [simp]:
  "low s (dhcp_cleanup s') \<longleftrightarrow> low s s'" "low s (dhcp_fail s') \<longleftrightarrow> low s s'" "low s (dns_cleanup s') \<longleftrightarrow> low s s'"
  "low s (dns_fail s') \<longleftrightarrow> low s s'" "low s (tftp_cleanup s') \<longleftrightarrow> low s s'" "low s (tftp_fail s') \<longleftrightarrow> low s s'"
  "low s (tftp_good_packet pf s') \<longleftrightarrow> low s s'"
  by (simp_all add: dhcp_cleanup_def dhcp_fail_def dns_cleanup_def dns_fail_def tftp_cleanup_def tftp_fail_def tftp_good_packet_def
    case_prod_beta)

lemma low_copy [simp]: "low s (copy_data hw a b n s') \<longleftrightarrow> low s s'"
  by (simp add: copy_data_def case_prod_beta)

lemma low_options:
  "aucMac (t_ethernet g) = aucMac (eth_options s') \<Longrightarrow> low s (s'\<lparr>g_t_romloader_options := g\<rparr>) \<longleftrightarrow> low s s'"
  by (simp add: low_def)

lemma low_dhcp_accept: "dhcp_accept p n a b c s = Some s' \<Longrightarrow> low s s'"
  by (auto simp: dhcp_accept_def Let_def Option.bind_eq_Some_conv low_options)

lemma low_dns_rec: "dns_recHandler p n s = Some s' \<Longrightarrow> low s s'"
  using dns_recHandler_cases [of p n s s'] by (auto simp: dns_keeps_def)

subsection \<open>The contract\<close>

locale stack_contract =
  fixes pf :: "'w stack_env" and P :: "nat \<Rightarrow> ('d, 'w, 'z) tftp_scheme \<Rightarrow> bool"
  assumes low_law: "P n s \<Longrightarrow> low s s' \<Longrightarrow> P n s'"
    and none_law: "P n s \<Longrightarrow> eth_get_empty_packet s = (NULL, s') \<Longrightarrow> P n s'"
    and udp_law: "P n s \<Longrightarrow> eth_get_empty_packet s = (p, s') \<Longrightarrow> p \<noteq> NULL \<Longrightarrow> P n (udp_send_packet pf p k a (s'\<lparr>mem := m\<rparr>))"
    and icmp_law: "P n s \<Longrightarrow> P n (icmp_process_packet pf p k s)"
    and arp_law: "P n s \<Longrightarrow> P n (arp_process_packet p k s)"
    and timer_law: "P n s \<Longrightarrow> P n (arp_timer pf s)"
    and frame_law: "P n s \<Longrightarrow> pfnGetReceivedPacket (tNetworkIf s) siz (drv s) = (p, k, d) \<Longrightarrow>
      if p = NULL then P n (s\<lparr>drv := d\<rparr>)
      else \<exists>i. P i (s\<lparr>drv := d\<rparr>) \<and> (\<forall>t. P i t \<longrightarrow> P n (t\<lparr>drv := pfnReleasePacket (tNetworkIf t) p (drv t)\<rparr>))"
begin

lemma dhcp_send: "P n s \<Longrightarrow> P n (snd (dhcp_send_discover_packet pf s))" "P n s \<Longrightarrow> P n (snd (dhcp_send_request_packet pf s))"
  using none_law [of n s] udp_law [of n s]
  by (auto simp: dhcp_send_discover_packet_def dhcp_send_request_packet_def Let_def split: prod.split)

lemma dhcp_timeout_keeps:
  assumes "P n s" and "\<And>s. P n s \<Longrightarrow> P n (snd (send s))"
  shows "P n (dhcp_timeout pf send s)"
proof -
  have e: "P n (snd (is_elapsed pf a b s))" for a b by (rule low_law [OF assms(1)]) simp
  have "P n (dhcp_fail (snd (is_elapsed pf a b s)))" for a b by (rule low_law [OF e [of a b]]) simp
  moreover have "P n (snd (get_ms pf (snd (send (snd (is_elapsed pf a b s)))))\<lparr>dhcp_ulLastGoodPacket := c, dhcp_uiRetryCnt := c'\<rparr>)" for a b c c'
    by (rule low_law [OF assms(2) [OF e [of a b]]]) simp
  ultimately show ?thesis using e by (simp add: dhcp_timeout_def case_prod_beta)
qed

lemma dhcp_timer_keeps: "P n s \<Longrightarrow> P n (dhcp_timer pf s)"
  by (auto simp: dhcp_timer_def intro!: dhcp_timeout_keeps dhcp_send split: DHCP_STATE_T.split)

lemma dhcp_take_offer_keeps:
  assumes "P n s"
  shows "P n (dhcp_take_offer pf p q s)"
proof -
  let ?s = "s\<lparr>dhcp_aucServerIdentifier := (if q \<noteq> NULL \<and> mem s (q + 1) = 4 then rdbytes (mem s) (q + 2) 4 else [0, 0, 0, 0]),
    dhcp_ulRequestIp := rd32 (mem s) (p + 58)\<rparr>"
  have "P n ?s" by (rule low_law [OF assms]) simp
  then have t: "P n (snd (dhcp_send_request_packet pf ?s))" by (rule dhcp_send)
  show ?thesis by (rule low_law [OF t]) (simp add: dhcp_take_offer_def Let_def case_prod_beta)
qed

lemma dhcp_rec_keeps:
  assumes "P n s" and "dhcp_recHandler pf p k s = Some s'"
  shows "P n s'"
proof -
  have ac: "low s t" if "dhcp_accept p k a b c (s\<lparr>dhcp_server_name := x, dhcp_bootfile_name := y\<rparr>) = Some t" for a b c x y t
    by (rule low_trans [OF _ low_dhcp_accept [OF that]]) simp
  have "low s s'" if "dhcp_rec_request p k s = Some s'"
    using that ac by (auto simp: dhcp_rec_request_def dhcp_rec_ack_def Let_def Option.bind_eq_Some_conv split: if_splits)
  then show ?thesis using assms dhcp_take_offer_keeps [OF assms(1)] low_law [OF assms(1)]
    by (auto simp: dhcp_recHandler_def dhcp_rec_discover_def Option.bind_eq_Some_conv split: DHCP_STATE_T.splits if_splits)
qed

lemma dhcp_request_keeps:
  assumes "P n s"
  shows "P n (dhcp_request pf s)"
proof -
  obtain a s1 where r: "udp_registerPort (ucast (MUS2NUS DHCP_DISCOVER_SRC_PORT)) DHCP_DISCOVER_DST_IP
      (ucast (MUS2NUS DHCP_DISCOVER_DST_PORT)) dhcp_rec NULL s = (a, s1)" by force
  have s1: "P n (s1\<lparr>dhcp_ptAssoc := a\<rparr>)" by (rule low_law [OF assms]) (simp add: low_register [OF r])
  have "P n (s1\<lparr>dhcp_ptAssoc := a, dhcp_ulXId := dhcp_ulXId s1 + 1\<rparr>)" by (rule low_law [OF s1]) simp
  then have t: "P n (snd (dhcp_send_discover_packet pf (s1\<lparr>dhcp_ptAssoc := a, dhcp_ulXId := dhcp_ulXId s1 + 1\<rparr>)))" by (rule dhcp_send)
  show ?thesis using s1 low_law [OF t] r by (cases a) (simp_all add: dhcp_request_def Let_def case_prod_beta)
qed

lemma dhcp_call_keeps: "dhcp_call pf s s' \<Longrightarrow> P n s \<Longrightarrow> P n s'"
  by (auto elim!: dhcp_call.cases intro: dhcp_timer_keeps dhcp_request_keeps)

lemma dns_send: "dns_send_query_packet pf s = Some (r, s') \<Longrightarrow> P n s \<Longrightarrow> P n s'"
  using none_law [of n s] udp_law [of n s] surjective_pairing [of "eth_get_empty_packet s"]
  by (auto simp: dns_send_query_packet_def Let_def Option.bind_eq_Some_conv split: prod.splits if_splits)

lemma dns_timer_keeps:
  assumes "P n s" and "dns_timer pf s = Some s'"
  shows "P n s'"
proof -
  have e: "P n (snd (is_elapsed pf a b s))" for a b by (rule low_law [OF assms(1)]) simp
  have "P n (dns_fail (snd (is_elapsed pf a b s)))" for a b by (rule low_law [OF e [of a b]]) simp
  moreover have "P n (snd (get_ms pf t)\<lparr>dns_ulLastGoodPacket := c, dns_uiRetryCnt := c'\<rparr>)"
    if "dns_send_query_packet pf (snd (is_elapsed pf a b s)) = Some (r, t)" for a b c c' r t
    by (rule low_law [OF dns_send [OF that e [of a b]]]) simp
  ultimately show ?thesis using assms e
    by (auto simp: dns_timer_def case_prod_beta Option.bind_eq_Some_conv split: DNS_STATE_T.splits if_splits)
qed

lemma dns_request_keeps:
  assumes "P n s" and r: "dns_request pf name s = Some (k, s')"
  shows "P n s'"
proof -
  obtain a s1 where reg: "udp_registerPort (ucast (MUS2NUS DNS_SRC_PORT)) (ulDnsIp (eth_options s)) (ucast (MUS2NUS DNS_DST_PORT))
      dns_rec NULL (s\<lparr>pcHostName := name\<rparr>) = (a, s1)" by force
  have "low s (s\<lparr>pcHostName := name\<rparr>)" by simp
  then have s1: "low s s1" using low_register [OF reg] by (rule low_trans)
  have p: "P n (s1\<lparr>dns_ptAssoc := a, us_dns_transaction_id_cnt := us_dns_transaction_id_cnt s1 + 1\<rparr>)" "P n (s1\<lparr>dns_ptAssoc := a\<rparr>)"
    by (rule low_law [OF assms(1)], simp add: s1)+
  have "P n t" if "dns_send_query_packet pf (s1\<lparr>dns_ptAssoc := a, us_dns_transaction_id_cnt := us_dns_transaction_id_cnt s1 + 1\<rparr>) = Some (i, u)"
      "low u t" for i u t
    by (rule low_law [OF dns_send [OF that(1) p(1)] that(2)])
  then show ?thesis using r reg p(2) by (auto simp: dns_request_def Let_def case_prod_beta Option.bind_eq_Some_conv split: if_splits)
qed

lemma dns_call_keeps: "dns_call pf s s' \<Longrightarrow> P n s \<Longrightarrow> P n s'"
  by (auto elim!: dns_call.cases intro: dns_timer_keeps dns_request_keeps)

lemma tftp_ack: "P n s \<Longrightarrow> P n (snd (tftp_send_ack_packet pf s))"
  using none_law [of n s] udp_law [of n s] by (auto simp: tftp_send_ack_packet_def Let_def split: prod.split)

lemma tftp_send_open: "tftp_send_open_packet pf s = Some (r, s') \<Longrightarrow> P n s \<Longrightarrow> P n s'"
  using none_law [of n s] udp_law [of n s] surjective_pairing [of "eth_get_empty_packet s"]
  by (auto simp: tftp_send_open_packet_def Let_def Option.bind_eq_Some_conv split: prod.splits if_splits)

lemma tftp_rec_block_keeps:
  assumes "P n s" and r: "tftp_rec_block pf hw fin p k s = Some s'"
  shows "P n s'"
proof -
  let ?d = "k - 2 - 2"
  define t where "t = (if ?d \<noteq> 0 then let s = copy_data hw (pucDstBuffer s) (tftp_data p) ?d s in
      s\<lparr>pucDstBuffer := pucDstBuffer s + ?d, ulLoadedBytes := ulLoadedBytes s + ?d\<rparr> else s)"
  have "P n t" by (rule low_law [OF assms(1)]) (simp add: t_def Let_def)
  then have a: "P n (snd (tftp_send_ack_packet pf t))" by (rule tftp_ack)
  have "low (snd (tftp_send_ack_packet pf t)) s'"
    using r unfolding tftp_rec_block_def Let_def t_def by (auto simp: Option.bind_eq_Some_conv split: if_splits)
  then show ?thesis by (rule low_law [OF a])
qed

lemma tftp_rec_keeps:
  assumes "P n s" and r: "tftp_recHandler pf hw fin p k s = Some s'"
  shows "P n s'"
proof -
  have u: "P n (s\<lparr>uiExpectedBlockNr := b\<rparr>)" for b by (rule low_law [OF assms(1)]) simp
  have "P n ((tftp_good_packet pf (snd (tftp_send_ack_packet pf (s\<lparr>atUdpPortAssoc := t, uiExpectedBlockNr := 0\<rparr>))))\<lparr>tftp_tState := st\<rparr>)" for t st
  proof -
    have "P n (s\<lparr>atUdpPortAssoc := t, uiExpectedBlockNr := 0\<rparr>)" by (rule low_law [OF assms(1)]) simp
    from tftp_ack [OF this] show ?thesis by (rule low_law) simp
  qed
  moreover have "P n (tftp_fail s)" by (rule low_law [OF assms(1)]) simp
  ultimately show ?thesis using r assms(1) tftp_rec_block_keeps [OF u]
    by (auto simp: tftp_recHandler_def tftp_rec_init_def tftp_rec_transfer_def Let_def split: tTftpState.splits if_splits option.splits)
qed

lemma tftp_timer_keeps:
  assumes "P n s" and r: "tftp_timer pf s = Some s'"
  shows "P n s'"
proof -
  let ?e = "snd (is_elapsed pf (tftp_ulLastGoodPacket s) (ucast (usTftpTimeout (eth_options s))) s)"
  have e: "P n ?e" by (rule low_law [OF assms(1)]) simp
  have f: "P n (tftp_fail ?e)" by (rule low_law [OF e]) simp
  have g: "P n ((snd (get_ms pf t))\<lparr>tftp_ulLastGoodPacket := a, tftp_uiRetryCnt := b\<rparr>)" if "P n t" for t a b
    by (rule low_law [OF that]) simp
  show ?thesis using r assms(1) e f g [OF tftp_ack [OF e]] g [OF tftp_send_open [OF _ e]]
    by (auto simp: tftp_timer_def case_prod_beta Option.bind_eq_Some_conv split: if_splits)
qed

lemma tftp_open_keeps:
  assumes "P n s" and r: "tftp_open pf hw fname d b s = Some (k, s')"
  shows "P n s'"
proof -
  obtain v len where pr: "printBlocksize (acBlockSize s) b = Some (v, len)" using r by (auto simp: tftp_open_def Option.bind_eq_Some_conv)
  define s0 where "s0 = tftp_prepared hw d b v len s"
  obtain a s1 where reg: "udp_registerPort (ucast (MUS2NUS (uiPortCounter s))) (ulTftpIp (eth_options s0))
      (ucast (MUS2NUS (ucast (usTftpPort (eth_options s0))))) tftp_rec NULL s0 = (a, s1)" by force
  note o = tftp_open_steps [OF pr s0_def reg, of pf fname]
  have s0: "low s s0" by (simp add: s0_def tftp_prepared_def)
  have "low s s1" using s0 low_register [OF reg] by (rule low_trans)
  then have p: "P n (s1\<lparr>tftp_ptAssoc := a\<rparr>)" "P n (s1\<lparr>tftp_ptAssoc := a, pcTftpFileName := fname\<rparr>)"
    by (simp_all add: low_law [OF assms(1)])
  have "P n t" if "tftp_send_open_packet pf (s1\<lparr>tftp_ptAssoc := a, pcTftpFileName := fname\<rparr>) = Some (i, u)" "low u t" for i u t
    by (rule low_law [OF tftp_send_open [OF that(1) p(2)] that(2)])
  then show ?thesis using r o p(1) by (auto simp: Let_def Option.bind_eq_Some_conv split: if_splits)
qed

lemma tftp_call_keeps: "tftp_call pf hw s s' \<Longrightarrow> P n s \<Longrightarrow> P n s'"
  by (auto elim!: tftp_call.cases intro: tftp_timer_keeps tftp_open_keeps)

lemma handler_keeps: "P n s \<Longrightarrow> stack_handler pf hw fin h p k s = Some s' \<Longrightarrow> P n s'"
  using low_law [OF _ low_dns_rec, of n s]
  by (auto simp: stack_handler_def intro: dhcp_rec_keeps tftp_rec_keeps split: pfn_udp_receive_handler.splits)

lemma ipv4_keeps_P:
  assumes "P n s" and "ipv4_process_packet pf hw fin p k s = Some s'"
  shows "P n s'"
  using assms icmp_law [of n s] handler_keeps [OF assms(1), of hw fin]
  by (auto simp: ipv4_process_packet_def udp_process_packet_def Let_def case_prod_beta split: if_splits option.splits)

lemma eth_keeps:
  assumes "P n s" and r: "eth_process_packet pf hw fin siz s = Some s'"
  shows "P n s'"
proof -
  obtain p k d where g: "pfnGetReceivedPacket (tNetworkIf s) siz (drv s) = (p, k, d)" by (metis prod_cases3)
  show ?thesis
  proof (cases "p = NULL")
    case True
    then show ?thesis using frame_law [OF assms(1) g] r g by (simp add: eth_process_packet_def)
  next
    case False
    then obtain i where i: "P i (s\<lparr>drv := d\<rparr>)" "\<And>t. P i t \<Longrightarrow> P n (t\<lparr>drv := pfnReleasePacket (tNetworkIf t) p (drv t)\<rparr>)"
      using frame_law [OF assms(1) g] by auto
    show ?thesis using r g False i(2) [OF i(1)] i ipv4_keeps_P [OF i(1), of hw fin p k] arp_law [OF i(1)]
      by (auto simp: eth_process_packet_def Let_def Option.bind_eq_Some_conv split: if_splits)
  qed
qed

lemma op_keeps: "stack_op pf hw fin s s' \<Longrightarrow> P n s \<Longrightarrow> P n s'"
  by (auto elim!: stack_op.cases intro: eth_keeps timer_law dhcp_call_keeps dns_call_keeps tftp_call_keeps)

end

subsection \<open>Frame buffers\<close>

lemma waiting_zero:
  assumes "i < length q" and "pq_sizPacket (q ! i) = 0" and "pq_sizPacket e = 0"
  shows "waiting (q[i := e]) = waiting q"
proof -
  obtain ys zs where q: "q = ys @ q ! i # zs" "length ys = i" using split_nth [OF assms(1)] by blast
  then have "q[i := e] = ys @ e # zs" by (metis list_update_length)
  moreover have "waiting q = waiting ys @ waiting zs" using assms(2) by (subst q(1)) (simp add: waiting_def)
  ultimately show ?thesis using assms(3) by (simp add: waiting_def)
qed

context network_if
begin

text \<open>A packet of size 0 in the queue is lost; nothing else happens to the frames.\<close>

lemma acct_add_zero: "acct n s \<Longrightarrow> acct n (snd (arp_add_waiting_packet p 0 ip s))"
  using waiting_zero [of _ "atPacketQueue s"] find_index_Some [of "\<lambda>e. pq_sizPacket e = 0" "atPacketQueue s"]
  by (auto simp: arp_add_waiting_packet_def frame_acct_def uses_if_def split: option.split)

lemma acct_send_any:
  assumes "acct n s" and "frame p" and "n < cap"
  shows "\<exists>n' \<le> Suc n. acct n' (arp_send_ipv4_packet pf p k ip s)"
proof (cases "k = 0")
  case True
  have c: "acct n (snd (arp_get_cache_entry ip s))" using assms(1) by simp
  have "acct n (snd (arp_add_waiting_packet p 0 ip (snd (arp_get_cache_entry ip s))))" by (rule acct_add_zero [OF c])
  moreover from this have "acct n (arp_send_request ip (arp_set_mac_request pf ip (snd (arp_add_waiting_packet p 0 ip (snd (arp_get_cache_entry ip s))))))"
    using assms(3) by (intro acct_send_request) simp_all
  ultimately have "acct n (arp_send_ipv4_packet pf p k ip s) \<or> acct (Suc n) (arp_send_ipv4_packet pf p k ip s)"
    using True c acct_send [OF assms] acct_send [OF c assms(2,3)]
    by (simp add: arp_send_ipv4_packet_def case_prod_beta split: option.split)
  then show ?thesis by (auto intro: le_SucI)
next
  case False
  from acct_send_ipv4 [OF assms(1,2) this assms(3), of ip pf] show ?thesis by (cases "arp_drops ip s") (auto intro: le_SucI)
qed

lemma acct_ipv4_any:
  assumes "acct n s" and "frame p" and "n < cap"
  shows "\<exists>n' \<le> Suc n. acct n' (ipv4_send_packet pf p dst pr k s)"
proof -
  let ?s = "s\<lparr>mem := ipv4_fill_header (ulIp (eth_options s)) (uiIpOutputId s) p dst pr (sizeof_IPV4_HEADER_T + k) (mem s),
    uiIpOutputId := uiIpOutputId s + 1\<rparr>"
  have "acct n ?s" using assms(1) by (simp add: frame_acct_def uses_if_def)
  from acct_send_any [OF this assms(2,3)] show ?thesis by (simp add: ipv4_send_packet_def Let_def)
qed

lemma acct_udp_any:
  assumes "acct n s" and "frame p" and "n < cap"
  shows "\<exists>n' \<le> Suc n. acct n' (udp_send_packet pf p k a s)"
proof (cases "\<exists>i. a = Some i \<and> i < UDP_PORTLIST_MAX")
  case True
  then obtain i where i: "a = Some i" "i < UDP_PORTLIST_MAX" by blast
  have "acct n (s\<lparr>mem := m\<rparr>)" for m using assms(1) by simp
  from acct_ipv4_any [OF this assms(2,3)] i show ?thesis by (simp add: udp_send_packet_def Let_def)
qed (use assms(1) in \<open>auto simp: udp_send_packet_def split: option.split intro: exI [of _ n]\<close>)

end

text \<open>At most \<open>n\<close> frame buffers are in the pool or wait in the queue.\<close>

definition frames_le ::
    "'d NETWORK_IF_T \<Rightarrow> ('d \<Rightarrow> bool) \<Rightarrow> ('d \<Rightarrow> nat) \<Rightarrow> (ptr \<Rightarrow> bool) \<Rightarrow> nat \<Rightarrow> nat \<Rightarrow> ('d, 'w, 'z) arp_scheme \<Rightarrow> bool" where
  "frames_le nif ok pool frame cap n s \<longleftrightarrow> n \<le> cap \<and> (\<exists>n' \<le> n. frame_acct nif ok pool frame n' s)"

sublocale network_if \<subseteq> frames: stack_contract pf "frames_le nif if_ok pool frame cap :: nat \<Rightarrow> ('d, 'w, 'z) tftp_scheme \<Rightarrow> bool" for pf :: "'w stack_env"
proof
  fix n and s s' :: "('d, 'w, 'z) tftp_scheme"
  assume "frames_le nif if_ok pool frame cap n s" "low s s'"
  then show "frames_le nif if_ok pool frame cap n s'" by (auto simp: frames_le_def low_def frame_acct_def uses_if_def)
next
  fix n and s s' :: "('d, 'w, 'z) tftp_scheme"
  assume "frames_le nif if_ok pool frame cap n s" "eth_get_empty_packet s = (NULL, s')"
  then show "frames_le nif if_ok pool frame cap n s'" using acct_get_empty [of _ s NULL s'] by (auto simp: frames_le_def)
next
  fix n p k a m and s s' :: "('d, 'w, 'z) tftp_scheme"
  assume f: "frames_le nif if_ok pool frame cap n s" and e: "eth_get_empty_packet s = (p, s')" and p: "p \<noteq> NULL"
  obtain n' where n': "n' \<le> n" "n \<le> cap" "acct n' s" using f by (auto simp: frames_le_def)
  have g: "frame p" "n' \<noteq> 0" "acct (n' - 1) (s'\<lparr>mem := m\<rparr>)" using acct_get_empty [OF n'(3) e] p by simp_all
  have "n' - 1 < cap" using g(2) n' by simp
  from acct_udp_any [OF g(3,1) this]
  obtain j where "j \<le> Suc (n' - 1)" "acct j (udp_send_packet pf p k a (s'\<lparr>mem := m\<rparr>))" by blast
  then show "frames_le nif if_ok pool frame cap n (udp_send_packet pf p k a (s'\<lparr>mem := m\<rparr>))"
    using n' g(2) by (auto simp: frames_le_def intro!: exI [of _ j])
next
  fix n p k and s :: "('d, 'w, 'z) tftp_scheme"
  assume "frames_le nif if_ok pool frame cap n s"
  then obtain n' where n': "n' \<le> n" "n \<le> cap" "acct n' s" by (auto simp: frames_le_def)
  obtain q s1 where e: "eth_get_empty_packet s = (q, s1)" by force
  have "\<exists>j \<le> n'. acct j (icmp_process_packet pf p k s)"
  proof (cases "q = NULL")
    case True
    then show ?thesis using acct_get_empty [OF n'(3) e] n'(3) e by (auto simp: icmp_process_packet_def)
  next
    case False
    then have g: "frame q" "n' \<noteq> 0" "\<And>m. acct (n' - 1) (s1\<lparr>mem := m\<rparr>)" using acct_get_empty [OF n'(3) e] by simp_all
    have "\<exists>j \<le> Suc (n' - 1). acct j (ipv4_send_packet pf q dst pr l (s1\<lparr>mem := m\<rparr>))" for dst pr l m
      by (rule acct_ipv4_any [OF g(3,1)]) (use n' g(2) in simp)
    then show ?thesis using e False n'(3) g(2) by (auto simp: icmp_process_packet_def Let_def)
  qed
  then show "frames_le nif if_ok pool frame cap n (icmp_process_packet pf p k s)"
    using n'(1,2) unfolding frames_le_def by (blast intro: order_trans)
next
  fix n p k and s :: "('d, 'w, 'z) tftp_scheme"
  assume "frames_le nif if_ok pool frame cap n s"
  then show "frames_le nif if_ok pool frame cap n (arp_process_packet p k s)"
    using acct_packet [of _ s p k] by (auto simp: frames_le_def)
next
  fix n and s :: "('d, 'w, 'z) tftp_scheme"
  assume "frames_le nif if_ok pool frame cap n s"
  then show "frames_le nif if_ok pool frame cap n (arp_timer pf s)" using acct_timer [of _ s pf] by (auto simp: frames_le_def)
next
  fix n siz p k d and s :: "('d, 'w, 'z) tftp_scheme"
  assume f: "frames_le nif if_ok pool frame cap n s" and g: "pfnGetReceivedPacket (tNetworkIf s) siz (drv s) = (p, k, d)"
  obtain n' where n': "n' \<le> n" "n \<le> cap" "acct n' s" using f by (auto simp: frames_le_def)
  then have u: "tNetworkIf s = nif" "if_ok (drv s)" by (simp_all add: frame_acct_def uses_if_def)
  note rl = received_law [OF u(2) g [unfolded u(1)]]
  show "if p = NULL then frames_le nif if_ok pool frame cap n (s\<lparr>drv := d\<rparr>)
    else \<exists>i. frames_le nif if_ok pool frame cap i (s\<lparr>drv := d\<rparr>) \<and>
      (\<forall>t. frames_le nif if_ok pool frame cap i t \<longrightarrow> frames_le nif if_ok pool frame cap n (t\<lparr>drv := pfnReleasePacket (tNetworkIf t) p (drv t)\<rparr>))"
  proof (cases "p = NULL")
    case True
    then show ?thesis using rl n' by (auto simp: frames_le_def frame_acct_def uses_if_def)
  next
    case False
    then have a: "acct (n' - 1) (s\<lparr>drv := d\<rparr>)" "n' \<noteq> 0" "frame p" using rl n'(3) by (auto simp: frame_acct_def uses_if_def)
    have "frames_le nif if_ok pool frame cap n (t\<lparr>drv := pfnReleasePacket (tNetworkIf t) p (drv t)\<rparr>)"
      if "frames_le nif if_ok pool frame cap (n - 1) t" for t
    proof -
      from that obtain j where j: "j \<le> n - 1" "acct j t" by (auto simp: frames_le_def)
      then have "acct (Suc j) (eth_release_packet p t)" using acct_release [OF j(2) a(3)] n' a(2) by simp
      then show ?thesis using j(1) n' a(2) by (auto simp: frames_le_def eth_release_packet_def intro!: exI [of _ "Suc j"])
    qed
    moreover have "frames_le nif if_ok pool frame cap (n - 1) (s\<lparr>drv := d\<rparr>)" using a n' by (auto simp: frames_le_def intro!: exI [of _ "n' - 1"])
    ultimately show ?thesis using False by auto
  qed
qed

subsection \<open>Arrays\<close>

text \<open>The arrays of ARP and the MAC addresses have the lengths of their C types.\<close>

definition arrays_ok :: "('d, 'w, 'z) arp_scheme \<Rightarrow> bool" where
  "arrays_ok s \<longleftrightarrow> typed s \<and> length (aui_arp_cache s) = ARP_CACHE_MAX_ENTRIES \<and> length (atPacketQueue s) = ARP_PACKET_QUEUE_MAX_ENTRIES"

lemma arrays_upd [simp]:
  "arrays_ok (s\<lparr>mem := m\<rparr>) \<longleftrightarrow> arrays_ok s" "arrays_ok (s\<lparr>env := w\<rparr>) \<longleftrightarrow> arrays_ok s" "arrays_ok (s\<lparr>drv := d\<rparr>) \<longleftrightarrow> arrays_ok s"
  by (simp_all add: arrays_ok_def)

lemma arrays_eth [simp]:
  "arrays_ok (eth_send_packet p n mac t s) \<longleftrightarrow> arrays_ok s" "arrays_ok (snd (eth_get_empty_packet s)) \<longleftrightarrow> arrays_ok s"
  "arrays_ok (eth_release_packet p s) \<longleftrightarrow> arrays_ok s" "arrays_ok (snd (get_ms pf s)) \<longleftrightarrow> arrays_ok s"
  "arrays_ok (snd (is_elapsed pf a b s)) \<longleftrightarrow> arrays_ok s"
  by (simp_all add: eth_send_packet_def eth_get_empty_packet_def eth_release_packet_def get_ms_def is_elapsed_def Let_def split: prod.split)

lemma arrays_request [simp]: "arrays_ok (arp_send_request ip s) \<longleftrightarrow> arrays_ok s"
  by (simp add: arp_send_request_def Let_def case_prod_beta)

lemma arrays_cache:
  assumes "arrays_ok s" and "length c = length (aui_arp_cache s)" and "list_all (\<lambda>m. length m = 6) (map ac_tMac c)"
  shows "arrays_ok (s\<lparr>aui_arp_cache := c\<rparr>)"
  using assms by (simp add: arrays_ok_def typed_def)

lemma arrays_cache_update:
  assumes "arrays_ok s" and "length (ac_tMac e) = 6"
  shows "arrays_ok (s\<lparr>aui_arp_cache := (aui_arp_cache s)[i := e]\<rparr>)"
  using assms set_update_subset_insert [of "aui_arp_cache s" i e] by (auto simp: arrays_ok_def typed_def list_all_iff)

lemma arrays_scan [simp]: "arrays_ok (snd (arp_get_cache_entry ip s)) \<longleftrightarrow> arrays_ok s"
  using arp_scan_sig [of ip "aui_arp_cache s"] typed_cache_entry [of ip s]
  by (simp add: arrays_ok_def) (simp add: arp_get_cache_entry_def split: prod.split)

lemma arrays_add [simp]: "arrays_ok (snd (arp_add_waiting_packet p n ip s)) \<longleftrightarrow> arrays_ok s"
  by (simp add: arrays_ok_def arp_add_waiting_packet_def split: option.split)

lemma arrays_mac_request [simp]: "arrays_ok (arp_set_mac_request pf ip s) \<longleftrightarrow> arrays_ok s"
  using typed_set_mac_request [of pf ip s] by (simp add: arrays_ok_def) (simp add: arp_set_mac_request_def get_ms_def Let_def split: prod.split)

lemma arrays_send [simp]: "arrays_ok (arp_send_ipv4_packet pf p n ip s) \<longleftrightarrow> arrays_ok s"
  by (simp add: arp_send_ipv4_packet_def case_prod_beta split: option.split)

lemma arrays_queue:
  assumes "arrays_ok s" and "queue_without ip (atPacketQueue s) (atPacketQueue s') \<and> aui_arp_cache s' = aui_arp_cache s" and "arp_keeps s s'"
  shows "arrays_ok s'"
  using assms by (simp add: arrays_ok_def typed_def queue_without_def arp_keeps_def)

lemma arrays_packet: "arrays_ok s \<Longrightarrow> arrays_ok (arp_process_packet p n s)"
proof -
  assume ok: "arrays_ok s"
  have "arrays_ok (arp_process_request p s)" using ok by (simp add: arp_process_request_def Let_def case_prod_beta)
  moreover have "arrays_ok (arp_process_reply p s)"
  proof -
    let ?c = "snd (arp_get_cache_entry (rd32 (mem s) (p + 28)) s)"
    have c: "arrays_ok (?c\<lparr>aui_arp_cache := (aui_arp_cache ?c)[i := (aui_arp_cache ?c ! i)\<lparr>ac_tState := st, ac_iAge := a,
        ac_tMac := rdbytes (mem ?c) (p + 22) 6\<rparr>]\<rparr>)" for i st a
      by (rule arrays_cache_update) (simp_all add: ok)
    note w = arrays_queue [OF c arp_process_waiting_queue]
    show ?thesis using ok by (simp add: arp_process_reply_def Let_def case_prod_beta w split: option.split)
  qed
  ultimately show ?thesis using ok by (simp add: arp_process_packet_def Let_def)
qed

lemma arrays_timer: "arrays_ok s \<Longrightarrow> arrays_ok (arp_timer pf s)"
proof -
  have e: "arrays_ok (arp_timer_entry pf i s)" if ok: "arrays_ok s" "i < ARP_CACHE_MAX_ENTRIES" for i and s :: "('a, 'b, 'c) arp_scheme"
  proof -
    let ?t = "\<lambda>a b. snd (is_elapsed pf a b s)"
    have l: "length (ac_tMac (aui_arp_cache s ! i)) = 6" using ok typed_mac [of s i] by (simp add: arrays_ok_def)
    have "arrays_ok ((?t a b)\<lparr>aui_arp_cache := (aui_arp_cache (?t a b))[i := (aui_arp_cache s ! i)\<lparr>ac_tState := st\<rparr>]\<rparr>)" for a b st
      by (rule arrays_cache_update) (simp_all add: ok l)
    note d = arrays_queue [OF this arp_drop_waiting_queue]
    have g: "arrays_ok (u\<lparr>aui_arp_cache := (aui_arp_cache s)[i := (aui_arp_cache s ! i)\<lparr>ac_ulRequestTimeStamp := x, ac_uiRetryCnt := y\<rparr>]\<rparr>)"
      if "arrays_ok u" "aui_arp_cache u = aui_arp_cache s" for u :: "('a, 'b, 'c) arp_scheme" and x y
      using arrays_cache_update [OF that(1)] by (simp add: l that(2))
    show ?thesis using ok d by (simp add: arp_timer_entry_def Let_def case_prod_beta g)
  qed
  have "arrays_ok s \<Longrightarrow> \<forall>i \<in> set is. i < ARP_CACHE_MAX_ENTRIES \<Longrightarrow> arrays_ok (fold (arp_timer_entry pf) is s)" for "is"
    by (induction "is" arbitrary: s) (auto simp: e)
  then show "arrays_ok s \<Longrightarrow> arrays_ok (arp_timer pf s)" by (simp add: arp_timer_def)
qed

lemma arrays_ipv4_send [simp]: "arrays_ok (ipv4_send_packet pf p dst pr n s) \<longleftrightarrow> arrays_ok s"
  by (simp add: ipv4_send_packet_def Let_def) (simp add: arrays_ok_def typed_def)

lemma arrays_udp_send [simp]: "arrays_ok (udp_send_packet pf p n a s) \<longleftrightarrow> arrays_ok s"
  by (simp add: udp_send_packet_def Let_def split: option.split)

lemma arrays_icmp [simp]: "arrays_ok (icmp_process_packet pf p n s) \<longleftrightarrow> arrays_ok s"
  by (simp add: icmp_process_packet_def Let_def case_prod_beta)

interpretation arrays: stack_contract pf "\<lambda>_. arrays_ok :: ('d, 'w, 'z) tftp_scheme \<Rightarrow> bool" for pf :: "'w stack_env"
proof
  fix s s' :: "('d, 'w, 'z) tftp_scheme"
  assume "arrays_ok s" "low s s'"
  then show "arrays_ok s'" by (simp add: arrays_ok_def typed_def low_def)
next
  fix s s' :: "('d, 'w, 'z) tftp_scheme"
  assume "arrays_ok s" "eth_get_empty_packet s = (NULL, s')"
  then show "arrays_ok s'" using arrays_eth(2) [of s] by simp
next
  fix p k a m and s s' :: "('d, 'w, 'z) tftp_scheme"
  assume "arrays_ok s" "eth_get_empty_packet s = (p, s')"
  then show "arrays_ok (udp_send_packet pf p k a (s'\<lparr>mem := m\<rparr>))" using arrays_eth(2) [of s] by simp
qed (simp_all add: arrays_packet arrays_timer)

lemma arrays_start: "arrays_ok s \<Longrightarrow> arrays_ok (stack_start nif r s)"
  by (simp add: stack_start_def tftp_init_def dns_init_def dhcp_init_def udp_init_def icmp_init_def ipv4_init_def arp_init_def eth_init_def
    arrays_ok_def typed_def Let_def case_prod_beta comp_def)

lemma arrays_reach: "stack_reach pf hw fin s s' \<Longrightarrow> arrays_ok s \<Longrightarrow> arrays_ok s'"
  by (induction rule: stack_reach.induct) (auto intro: arrays.op_keeps)

subsection \<open>Properties\<close>

text \<open>The lists of the model keep the lengths of the C arrays they stand for, so the bounds in the other statements mean the
  declared sizes, and the port that the TFTP client uses next is between 1024 and 65535 in every run.\<close>

theorem stack_keeps_types:
  assumes "arrays_ok s0" and "length (atUdpPortAssoc s0) = UDP_PORTLIST_MAX" and "stack_reach pf hw fin (stack_start nif r s0) s"
  shows "length (aucMac (eth_options s)) = 6 \<and> list_all (\<lambda>e. length (ac_tMac e) = 6) (aui_arp_cache s) \<and>
    length (aui_arp_cache s) = ARP_CACHE_MAX_ENTRIES \<and> length (atPacketQueue s) = ARP_PACKET_QUEUE_MAX_ENTRIES \<and>
    length (atUdpPortAssoc s) = UDP_PORTLIST_MAX \<and> 1024 \<le> uiPortCounter s \<and> uiPortCounter s \<le> 65535"
proof -
  have "arrays_ok s" by (rule arrays_reach [OF assms(3) arrays_start [OF assms(1)]])
  moreover have "stack_inv s" by (rule stack_inv_reach [OF assms(3) stack_inv_start [OF assms(2)]])
  ultimately show ?thesis
    by (simp add: arrays_ok_def typed_def stack_inv_def dhcp_inv_def dhcp_conn_ok_def tftp_inv_def list_all_length)
qed

lemma demo_arrays: "arrays_ok demo_stack"
  by (simp add: arrays_ok_def typed_def demo_stack_def demo_tftp_def demo_options_def empty_cache_def empty_queue_def
    ARP_CACHE_MAX_ENTRIES_def ARP_PACKET_QUEUE_MAX_ENTRIES_def list_all_iff)

text \<open>Witness: the started stack after a DHCP request.\<close>

theorem stack_keeps_types_witness:
  "length (atUdpPortAssoc (dhcp_request still_env demo_start)) = UDP_PORTLIST_MAX \<and>
   length (aui_arp_cache (dhcp_request still_env demo_start)) = ARP_CACHE_MAX_ENTRIES"
  using stack_keeps_types [OF demo_arrays demo_stack_ports demo_request_reach] by blast

text \<open>(C9) On the XC driver no operation of the stack makes two buffers out of one: when at most \<open>n\<close> frame buffers are in
  the FIFOs of the driver or wait in the packet queue, and \<open>n\<close> fits into a FIFO, then after processing a received frame, after
  every timer and after every request of a client there are still at most \<open>n\<close>, every waiting buffer is a frame buffer, and the
  driver is in a good state, so no FIFO overflows.\<close>

theorem stack_never_duplicates_frames:
  assumes "frame_acct (tNetworkIfXc r) (xc_ok r q) (xc_pool q) (xc_frame r) n s" and "n \<le> FIFO_ENTRIES" and "stack_op pf hw fin s s'"
  shows "\<exists>n' \<le> n. frame_acct (tNetworkIfXc r) (xc_ok r q) (xc_pool q) (xc_frame r) n' s'"
proof -
  have "frames_le (tNetworkIfXc r) (xc_ok r q) (xc_pool q) (xc_frame r) FIFO_ENTRIES n s" using assms(1,2) by (auto simp: frames_le_def)
  from xc_if.frames.op_keeps [OF assms(3) this] show ?thesis by (simp add: frames_le_def)
qed

text \<open>(C9) Witness: the DHCP request on the started stack of the list hardware with its two frames.\<close>

theorem stack_never_duplicates_frames_witness:
  "\<exists>n' \<le> 2. frame_acct (tNetworkIfXc list_regs) (xc_ok list_regs list_fifos) (xc_pool list_fifos) (xc_frame list_regs) n'
     (dhcp_request still_env demo_start)"
proof -
  have "waiting (atPacketQueue demo_start) = []"
    by (simp add: stack_start_def tftp_init_def dns_init_def dhcp_init_def udp_init_def icmp_init_def ipv4_init_def arp_init_def eth_init_def
      Let_def case_prod_beta waiting_def filter_map comp_def)
  moreover have "drv demo_start = two_empty" "tNetworkIf demo_start = tNetworkIfXc list_regs"
    by (simp_all add: stack_start_def tftp_init_def dns_init_def dhcp_init_def udp_init_def icmp_init_def ipv4_init_def arp_init_def
      eth_init_def Let_def case_prod_beta demo_stack_def demo_tftp_def)
  ultimately have a: "frame_acct (tNetworkIfXc list_regs) (xc_ok list_regs list_fifos) (xc_pool list_fifos) (xc_frame list_regs) 2 demo_start"
    using two_empty_pool two_empty_ok by (simp add: frame_acct_def uses_if_def)
  have "\<not> dhcp_waits demo_start"
    by (simp add: stack_start_def tftp_init_def dns_init_def dhcp_init_def dhcp_waits_def Let_def case_prod_beta)
  then have "stack_op still_env log_crypt (\<lambda>h k n w. Some (h, w)) demo_start (dhcp_request still_env demo_start)"
    by (intro op_dhcp call_dhcp_request)
  from stack_never_duplicates_frames [OF a _ this] show ?thesis by (simp add: FIFO_ENTRIES_def)
qed

end
