(* ===== verification/Lwip_Pbuf.thy ===== *)
theory Lwip_Pbuf
  imports Lwip_Err
begin

text \<open>
  The packet buffers of lwIP (pbuf.h, pbuf.c) with the memory pools they come from (memp.c). A \<open>struct pbuf\<close>
  lives in a heap from addresses to structures, its data in the byte memory. The operations follow
  the \<open>next\<close> pointers; the value \<open>None\<close> means that an operation uses an address without a packet buffer or does
  not end. The abstraction of a chain is the list of its addresses (\<open>pchain\<close>) and the list of its bytes
  (\<open>pbytes\<close>); for a well-formed chain the operations are the list operations on its bytes.

  The macro \<open>LWIP_PLATFORM_ASSERT\<close> (arch/cc.h) is an endless loop, and \<open>LWIP_ERROR\<close> (debug.h) calls it before its handler, so a failed
  \<open>LWIP_ASSERT\<close> or \<open>LWIP_ERROR\<close> does not return: it is \<open>None\<close> as well. Every theorem that gives a result shows that
  the assertions hold. The heap is a parameter, a record of the functions of mem.c; Lwip_Mem has its model.
\<close>

subsection \<open>Data\<close>

record pbuf_t =
  p_next :: ptr
  p_payload :: ptr
  p_tot_len :: u16
  p_len :: u16
  p_type_internal :: u8
  p_flags :: u8
  p_ref :: u8
  p_if_idx :: u8

definition PBUF_TYPE_FLAG_STRUCT_DATA_CONTIGUOUS :: u8 where "PBUF_TYPE_FLAG_STRUCT_DATA_CONTIGUOUS = 0x80"
definition PBUF_TYPE_ALLOC_SRC_MASK :: u8 where "PBUF_TYPE_ALLOC_SRC_MASK = 0x0F"
definition PBUF_FLAG_IS_CUSTOM :: u8 where "PBUF_FLAG_IS_CUSTOM = 0x02"

text \<open>The types of packet buffers with the values of the enumeration.\<close>

datatype pbuf_type = PBUF_RAM | PBUF_ROM | PBUF_REF | PBUF_POOL

fun pbuf_type_value :: "pbuf_type \<Rightarrow> u16" where
  "pbuf_type_value PBUF_RAM = 0x0280"
| "pbuf_type_value PBUF_ROM = 0x0001"
| "pbuf_type_value PBUF_REF = 0x0041"
| "pbuf_type_value PBUF_POOL = 0x0182"

datatype memp_t = MEMP_PBUF | MEMP_PBUF_POOL

text \<open>The heap of mem.c over its state \<open>'x\<close>, and the function that frees a custom packet buffer.\<close>

record 'x mem_api =
  api_malloc :: "u32 \<Rightarrow> 'x \<Rightarrow> (ptr \<times> 'x) option"
  api_free :: "ptr \<Rightarrow> 'x \<Rightarrow> 'x option"
  api_trim :: "ptr \<Rightarrow> u32 \<Rightarrow> 'x \<Rightarrow> (ptr \<times> 'x) option"
  custom_free_function :: "ptr \<Rightarrow> 'x \<Rightarrow> 'x"

text \<open>The packet buffers in use, the free lists of the two pools, the request to free out-of-sequence segments and the
  state of the heap.\<close>

record 'x pstate =
  pbufs :: "ptr \<Rightarrow> pbuf_t option"
  memp_tab :: "memp_t \<Rightarrow> ptr list"
  pbuf_free_ooseq_pending :: u8
  heap :: 'x

subsection \<open>Pools\<close>

lemma dvd_4_u32: "(4 :: u32) dvd a \<longleftrightarrow> unat a mod 4 = 0"
proof
  assume "4 dvd a"
  then obtain k where "a = 4 * k" by (elim dvdE)
  then have "unat a = (4 * unat k) mod 4294967296" by (simp add: unat_word_ariths)
  then have "unat a mod 4 = 4 * unat k mod 4" using mod_mod_cancel [of 4 4294967296 "4 * unat k"] by simp
  then show "unat a mod 4 = 0" by simp
next
  assume "unat a mod 4 = 0"
  then have d: "unat a = 4 * (unat a div 4)" by presburger
  have "a = of_nat (unat a)" by simp
  also have "\<dots> = 4 * of_nat (unat a div 4)" by (subst d) simp
  finally show "4 dvd a" by (rule dvdI)
qed

lemma unat_and_not_3: "unat ((a :: u32) AND NOT 3) = unat a div 4 * 4"
proof -
  have s: "Suc (Suc (n - 2)) = n" if "2 \<le> n" for n using that by simp
  have "a AND NOT (mask 2) = push_bit 2 (drop_bit 2 a)"
    by (rule bit_word_eqI) (auto simp: bit_simps s not_less)
  moreover have "mask 2 = (3 :: u32)" by (simp add: mask_eq_exp_minus_1)
  ultimately have "a AND NOT 3 = a div 4 * 4" by (simp add: push_bit_eq_mult drop_bit_eq_div)
  moreover have "unat a div 4 * 4 < 4294967296" using unat_u32_less [of a] by linarith
  ultimately show ?thesis by (simp add: unat_word_ariths unat_div)
qed

definition memp_malloc :: "memp_t \<Rightarrow> 'x pstate \<Rightarrow> (ptr \<times> 'x pstate) option" where
  "memp_malloc t st =
     (case memp_tab st t of
        [] \<Rightarrow> Some (NULL, st)
      | memp # rest \<Rightarrow>
          if 4 dvd memp then Some (memp, st\<lparr>memp_tab := (memp_tab st)(t := rest)\<rparr>) else None)"

definition memp_free :: "memp_t \<Rightarrow> ptr \<Rightarrow> 'x pstate \<Rightarrow> 'x pstate option" where
  "memp_free t mem st =
     (if mem = NULL then Some st
      else if 4 dvd mem then Some (st\<lparr>memp_tab := (memp_tab st)(t := mem # memp_tab st t)\<rparr>)
      else None)"

subsection \<open>Reading\<close>

text \<open>A load from an invalid address has no value.\<close>

partial_function (option) pbuf_skip_const :: "'x pstate \<Rightarrow> ptr \<Rightarrow> u16 \<Rightarrow> (ptr \<times> u16) option" where
  "pbuf_skip_const st q offset_left =
     (if q = NULL then Some (q, offset_left)
      else case pbufs st q of
        None \<Rightarrow> None
      | Some b \<Rightarrow>
          if p_len b \<le> offset_left then pbuf_skip_const st (p_next b) (offset_left - p_len b)
          else Some (q, offset_left))"

definition pbuf_skip :: "'x pstate \<Rightarrow> ptr \<Rightarrow> u16 \<Rightarrow> (ptr \<times> u16) option" where
  "pbuf_skip st inp in_offset = pbuf_skip_const st inp in_offset"

definition pbuf_try_get_at :: "'x pstate \<Rightarrow> memory \<Rightarrow> ptr \<Rightarrow> u16 \<Rightarrow> int option" where
  "pbuf_try_get_at st m p offset =
     (case pbuf_skip_const st p offset of
        None \<Rightarrow> None
      | Some (q, q_idx) \<Rightarrow>
          if q \<noteq> NULL then
            (case pbufs st q of
               None \<Rightarrow> None
             | Some b \<Rightarrow> if p_len b > q_idx then Some (uint (m (p_payload b + ucast q_idx))) else Some (-1))
          else Some (-1))"

definition pbuf_get_at :: "'x pstate \<Rightarrow> memory \<Rightarrow> ptr \<Rightarrow> u16 \<Rightarrow> u8 option" where
  "pbuf_get_at st m p offset =
     (case pbuf_try_get_at st m p offset of
        None \<Rightarrow> None
      | Some r \<Rightarrow> if r \<ge> 0 then Some (word_of_int r) else Some 0)"

text \<open>The comparison loop from the byte \<open>i\<close> on; the list has the bytes of \<open>s2\<close> from there.\<close>

fun pbuf_memcmp_loop :: "'x pstate \<Rightarrow> memory \<Rightarrow> ptr \<Rightarrow> u16 \<Rightarrow> u16 \<Rightarrow> u8 list \<Rightarrow> u16 option" where
  "pbuf_memcmp_loop st m q start i [] = Some 0"
| "pbuf_memcmp_loop st m q start i (b # bs) =
     (case pbuf_get_at st m q (start + i) of
        None \<Rightarrow> None
      | Some a \<Rightarrow> if a \<noteq> b then Some (if unat i + 1 < 0xFFFF then i + 1 else 0xFFFF)
                  else pbuf_memcmp_loop st m q start (i + 1) bs)"

text \<open>\<open>s2\<close> has the \<open>n\<close> bytes that are compared.\<close>

definition pbuf_memcmp :: "'x pstate \<Rightarrow> memory \<Rightarrow> ptr \<Rightarrow> u16 \<Rightarrow> u8 list \<Rightarrow> u16 option" where
  "pbuf_memcmp st m p offset s2 =
     (case pbufs st p of
        None \<Rightarrow> None
      | Some b \<Rightarrow>
          if unat (p_tot_len b) < unat offset + length s2 then Some 0xFFFF
          else (case pbuf_skip_const st p offset of
                  None \<Rightarrow> None
                | Some (q, start) \<Rightarrow> pbuf_memcmp_loop st m q start 0 s2))"

partial_function (option) pbuf_memfind_loop ::
    "'x pstate \<Rightarrow> memory \<Rightarrow> ptr \<Rightarrow> u8 list \<Rightarrow> u16 \<Rightarrow> u16 \<Rightarrow> u16 option" where
  "pbuf_memfind_loop st m p pat max_cmp_start i =
     (if i \<le> max_cmp_start then
        (case pbuf_memcmp st m p i pat of
           None \<Rightarrow> None
         | Some r \<Rightarrow> if r = 0 then Some i else pbuf_memfind_loop st m p pat max_cmp_start (i + 1))
      else Some 0xFFFF)"

definition pbuf_memfind :: "'x pstate \<Rightarrow> memory \<Rightarrow> ptr \<Rightarrow> u8 list \<Rightarrow> u16 \<Rightarrow> u16 option" where
  "pbuf_memfind st m p pat start_offset =
     (case pbufs st p of
        None \<Rightarrow> None
      | Some b \<Rightarrow>
          let max_cmp_start = p_tot_len b - of_nat (length pat) in
          if unat (p_tot_len b) \<ge> length pat + unat start_offset
          then pbuf_memfind_loop st m p pat max_cmp_start start_offset
          else Some 0xFFFF)"

definition pbuf_strstr :: "'x pstate \<Rightarrow> memory \<Rightarrow> ptr \<Rightarrow> u8 list \<Rightarrow> u16 option" where
  "pbuf_strstr st m p substr =
     (case pbufs st p of
        None \<Rightarrow> None
      | Some b \<Rightarrow>
          if substr = [] \<or> p_tot_len b = 0xFFFF then Some 0xFFFF
          else if length substr \<ge> 0xFFFF then Some 0xFFFF
          else pbuf_memfind st m p substr 0)"

partial_function (option) pbuf_clen_loop :: "'x pstate \<Rightarrow> ptr \<Rightarrow> u16 \<Rightarrow> u16 option" where
  "pbuf_clen_loop st p len =
     (if p = NULL then Some len
      else case pbufs st p of None \<Rightarrow> None | Some b \<Rightarrow> pbuf_clen_loop st (p_next b) (len + 1))"

definition pbuf_clen :: "'x pstate \<Rightarrow> ptr \<Rightarrow> u16 option" where
  "pbuf_clen st p = pbuf_clen_loop st p 0"

subsection \<open>Copying\<close>

text \<open>The loop of \<open>pbuf_copy_partial\<close>: it returns \<open>copied_total\<close> and the memory.\<close>

partial_function (option) pbuf_copy_partial_loop ::
    "'x pstate \<Rightarrow> ptr \<Rightarrow> ptr \<Rightarrow> u16 \<Rightarrow> u16 \<Rightarrow> u16 \<Rightarrow> u16 \<Rightarrow> memory \<Rightarrow> (u16 \<times> memory) option" where
  "pbuf_copy_partial_loop st p dataptr len offset left copied_total m =
     (if len \<noteq> 0 \<and> p \<noteq> NULL then
        (case pbufs st p of
           None \<Rightarrow> None
         | Some b \<Rightarrow>
             if offset \<noteq> 0 \<and> offset \<ge> p_len b then
               pbuf_copy_partial_loop st (p_next b) dataptr len (offset - p_len b) left copied_total m
             else
               let buf_copy_len = p_len b - offset;
                   buf_copy_len = (if buf_copy_len > len then len else buf_copy_len);
                   m = memcpy m (dataptr + ucast left) (p_payload b + ucast offset) (unat buf_copy_len) in
               pbuf_copy_partial_loop st (p_next b) dataptr (len - buf_copy_len) 0 (left + buf_copy_len)
                 (copied_total + buf_copy_len) m)
      else Some (copied_total, m))"

definition pbuf_copy_partial ::
    "'x pstate \<Rightarrow> ptr \<Rightarrow> ptr \<Rightarrow> u16 \<Rightarrow> u16 \<Rightarrow> memory \<Rightarrow> (u16 \<times> memory) option" where
  "pbuf_copy_partial st buf dataptr len offset m =
     (if buf = NULL \<or> dataptr = NULL then None
      else pbuf_copy_partial_loop st buf dataptr len offset 0 0 m)"

text \<open>The loop of \<open>pbuf_take\<close>; \<open>total_copy_len\<close> and \<open>copied_total\<close> are of type \<open>size_t\<close>.\<close>

partial_function (option) pbuf_take_loop ::
    "'x pstate \<Rightarrow> ptr \<Rightarrow> ptr \<Rightarrow> u32 \<Rightarrow> u32 \<Rightarrow> memory \<Rightarrow> memory option" where
  "pbuf_take_loop st p dataptr total_copy_len copied_total m =
     (if total_copy_len \<noteq> 0 then
        (case (if p = NULL then None else pbufs st p) of
           None \<Rightarrow> None
         | Some b \<Rightarrow>
             let buf_copy_len = (if total_copy_len > ucast (p_len b) then ucast (p_len b) else total_copy_len);
                 m = memcpy m (p_payload b) (dataptr + copied_total) (unat buf_copy_len) in
             pbuf_take_loop st (p_next b) dataptr (total_copy_len - buf_copy_len) (copied_total + buf_copy_len) m)
      else Some m)"

definition pbuf_take :: "'x pstate \<Rightarrow> ptr \<Rightarrow> ptr \<Rightarrow> u16 \<Rightarrow> memory \<Rightarrow> (err_t \<times> memory) option" where
  "pbuf_take st buf dataptr len m =
     (if buf = NULL \<or> dataptr = NULL then None
      else case pbufs st buf of
        None \<Rightarrow> None
      | Some b \<Rightarrow>
          if p_tot_len b < len then None
          else map_option (\<lambda>m. (ERR_OK, m)) (pbuf_take_loop st buf dataptr (ucast len) 0 m))"

definition pbuf_take_at :: "'x pstate \<Rightarrow> ptr \<Rightarrow> ptr \<Rightarrow> u16 \<Rightarrow> u16 \<Rightarrow> memory \<Rightarrow> (err_t \<times> memory) option" where
  "pbuf_take_at st buf dataptr len offset m =
     (case pbuf_skip st buf offset of
        None \<Rightarrow> None
      | Some (q, target_offset) \<Rightarrow>
          if q = NULL then Some (ERR_MEM, m)
          else case pbufs st q of
            None \<Rightarrow> None
          | Some b \<Rightarrow>
              if unat (p_tot_len b) \<ge> unat target_offset + unat len then
                if p_len b \<le> target_offset then None
                else let first_copy_len = (if p_len b - target_offset < len then p_len b - target_offset else len);
                    m = memcpy m (p_payload b + ucast target_offset) dataptr (unat first_copy_len);
                    remaining_len = len - first_copy_len in
                if remaining_len > 0 then pbuf_take st (p_next b) (dataptr + ucast first_copy_len) remaining_len m
                else Some (ERR_OK, m)
              else Some (ERR_MEM, m))"

definition pbuf_put_at :: "'x pstate \<Rightarrow> ptr \<Rightarrow> u16 \<Rightarrow> u8 \<Rightarrow> memory \<Rightarrow> memory option" where
  "pbuf_put_at st p offset v m =
     (case pbuf_skip st p offset of
        None \<Rightarrow> None
      | Some (q, q_idx) \<Rightarrow>
          if q = NULL then Some m
          else case pbufs st q of
            None \<Rightarrow> None
          | Some b \<Rightarrow> if p_len b > q_idx then Some (wr8 m (p_payload b + ucast q_idx) v) else Some m)"

text \<open>\<open>pbuf_get_contiguous\<close>: the result is the address of the data or \<open>NULL\<close>, and the memory.\<close>

definition pbuf_get_contiguous ::
    "'x pstate \<Rightarrow> ptr \<Rightarrow> ptr \<Rightarrow> u32 \<Rightarrow> u16 \<Rightarrow> u16 \<Rightarrow> memory \<Rightarrow> (ptr \<times> memory) option" where
  "pbuf_get_contiguous st p buffer bufsize len offset m =
     (if p = NULL \<or> buffer = NULL \<or> bufsize < ucast len then None
      else case pbuf_skip_const st p offset of
        None \<Rightarrow> None
      | Some (q, out_offset) \<Rightarrow>
          if q = NULL then Some (NULL, m)
          else case pbufs st q of
            None \<Rightarrow> None
          | Some b \<Rightarrow>
              if unat (p_len b) \<ge> unat out_offset + unat len then Some (p_payload b + ucast out_offset, m)
              else (case pbuf_copy_partial st q buffer len out_offset m of
                      None \<Rightarrow> None
                    | Some (n, m) \<Rightarrow> if n \<noteq> len then Some (NULL, m) else Some (buffer, m)))"

subsection \<open>Changing a chain\<close>

definition upd_pbuf :: "ptr \<Rightarrow> (pbuf_t \<Rightarrow> pbuf_t) \<Rightarrow> 'x pstate \<Rightarrow> 'x pstate option" where
  "upd_pbuf p f st =
     (case pbufs st p of None \<Rightarrow> None | Some b \<Rightarrow> Some (st\<lparr>pbufs := (pbufs st)(p \<mapsto> f b)\<rparr>))"

definition pbuf_ref :: "ptr \<Rightarrow> 'x pstate \<Rightarrow> 'x pstate option" where
  "pbuf_ref p st =
     (if p \<noteq> NULL then
        (case pbufs st p of
           None \<Rightarrow> None
         | Some b \<Rightarrow>
             if p_ref b + 1 > 0 then Some (st\<lparr>pbufs := (pbufs st)(p \<mapsto> b\<lparr>p_ref := p_ref b + 1\<rparr>)\<rparr>) else None)
      else Some st)"

text \<open>The release of the structure \<open>p\<close> whose last reference is gone.\<close>

definition pbuf_dealloc :: "'x mem_api \<Rightarrow> ptr \<Rightarrow> pbuf_t \<Rightarrow> 'x pstate \<Rightarrow> 'x pstate option" where
  "pbuf_dealloc M p b st =
     (let alloc_src = p_type_internal b AND PBUF_TYPE_ALLOC_SRC_MASK;
          st = st\<lparr>pbufs := (pbufs st)(p := None)\<rparr> in
      if p_flags b AND PBUF_FLAG_IS_CUSTOM \<noteq> 0 then Some (st\<lparr>heap := custom_free_function M p (heap st)\<rparr>)
      else if alloc_src = 0x02 then memp_free MEMP_PBUF_POOL p st
      else if alloc_src = 0x01 then memp_free MEMP_PBUF p st
      else if alloc_src = 0x00 then map_option (\<lambda>h. st\<lparr>heap := h\<rparr>) (api_free M p (heap st))
      else None)"

partial_function (option) pbuf_free_loop ::
    "'x mem_api \<Rightarrow> ptr \<Rightarrow> u8 \<Rightarrow> 'x pstate \<Rightarrow> (u8 \<times> 'x pstate) option" where
  "pbuf_free_loop M p count st =
     (if p = NULL then Some (count, st)
      else case pbufs st p of
        None \<Rightarrow> None
      | Some b \<Rightarrow>
          let ref = p_ref b - 1 in
          if p_ref b = 0 then None
          else if ref = 0 then
            (case pbuf_dealloc M p b st of
               None \<Rightarrow> None
             | Some st \<Rightarrow> pbuf_free_loop M (p_next b) (count + 1) st)
          else Some (count, st\<lparr>pbufs := (pbufs st)(p \<mapsto> b\<lparr>p_ref := ref\<rparr>)\<rparr>))"

definition pbuf_free :: "'x mem_api \<Rightarrow> ptr \<Rightarrow> 'x pstate \<Rightarrow> (u8 \<times> 'x pstate) option" where
  "pbuf_free M p st = (if p = NULL then None else pbuf_free_loop M p 0 st)"

text \<open>The loop of \<open>pbuf_cat\<close> with \<open>tot = t->tot_len\<close>: it adds \<open>tot\<close> to every buffer and links the last one to \<open>t\<close>.\<close>

partial_function (option) pbuf_cat_loop :: "ptr \<Rightarrow> ptr \<Rightarrow> u16 \<Rightarrow> 'x pstate \<Rightarrow> 'x pstate option" where
  "pbuf_cat_loop p t tot st =
     (case pbufs st p of
        None \<Rightarrow> None
      | Some b \<Rightarrow>
          let b' = b\<lparr>p_tot_len := p_tot_len b + tot\<rparr> in
          if p_next b \<noteq> NULL then pbuf_cat_loop (p_next b) t tot (st\<lparr>pbufs := (pbufs st)(p \<mapsto> b')\<rparr>)
          else if p_tot_len b \<noteq> p_len b then None
          else Some (st\<lparr>pbufs := (pbufs st)(p \<mapsto> b'\<lparr>p_next := t\<rparr>)\<rparr>))"

definition pbuf_cat :: "ptr \<Rightarrow> ptr \<Rightarrow> 'x pstate \<Rightarrow> 'x pstate option" where
  "pbuf_cat h t st =
     (if h = NULL \<or> t = NULL then None
      else case pbufs st t of None \<Rightarrow> None | Some b \<Rightarrow> pbuf_cat_loop h t (p_tot_len b) st)"

definition pbuf_chain :: "ptr \<Rightarrow> ptr \<Rightarrow> 'x pstate \<Rightarrow> 'x pstate option" where
  "pbuf_chain h t st = (case pbuf_cat h t st of None \<Rightarrow> None | Some st \<Rightarrow> pbuf_ref t st)"

definition pbuf_dechain :: "'x mem_api \<Rightarrow> ptr \<Rightarrow> 'x pstate \<Rightarrow> (ptr \<times> 'x pstate) option" where
  "pbuf_dechain M p st =
     (case pbufs st p of
        None \<Rightarrow> None
      | Some b \<Rightarrow>
          let q = p_next b in
          if q \<noteq> NULL then
            (case pbufs st q of
               None \<Rightarrow> None
             | Some c \<Rightarrow>
                 if uint (p_tot_len c) \<noteq> uint (p_tot_len b) - uint (p_len b) then None
                 else
                   let st = st\<lparr>pbufs := (pbufs st)(q \<mapsto> c\<lparr>p_tot_len := p_tot_len b - p_len b\<rparr>)\<rparr> in
                   (case upd_pbuf p (\<lambda>b. b\<lparr>p_next := NULL, p_tot_len := p_len b\<rparr>) st of
                      None \<Rightarrow> None
                    | Some st \<Rightarrow>
                        (case pbuf_free M q st of
                           None \<Rightarrow> None
                         | Some (tail_gone, st) \<Rightarrow>
                             (case pbufs st p of
                                None \<Rightarrow> None
                              | Some b \<Rightarrow>
                                  if p_tot_len b \<noteq> p_len b then None
                                  else Some (if tail_gone > 0 then NULL else q, st)))))
          else if p_tot_len b \<noteq> p_len b then None
          else Some (NULL, st))"

text \<open>The sizes of headers are of type \<open>size_t\<close>, the result is 0 or 1.\<close>

definition pbuf_remove_header :: "ptr \<Rightarrow> u32 \<Rightarrow> 'x pstate \<Rightarrow> (u8 \<times> 'x pstate) option" where
  "pbuf_remove_header p header_size_decrement st =
     (if p = NULL then None
      else if header_size_decrement > 0xFFFF then Some (1, st)
      else if header_size_decrement = 0 then Some (0, st)
      else case pbufs st p of
        None \<Rightarrow> None
      | Some b \<Rightarrow>
          let increment_magnitude = ucast header_size_decrement in
          if increment_magnitude > p_len b then None
          else Some (0, st\<lparr>pbufs := (pbufs st)(p \<mapsto> b\<lparr>p_payload := p_payload b + header_size_decrement,
                 p_len := p_len b - increment_magnitude, p_tot_len := p_tot_len b - increment_magnitude\<rparr>)\<rparr>))"

definition SIZEOF_STRUCT_PBUF :: u32 where "SIZEOF_STRUCT_PBUF = 16"

definition pbuf_add_header_impl :: "ptr \<Rightarrow> u32 \<Rightarrow> bool \<Rightarrow> 'x pstate \<Rightarrow> (u8 \<times> 'x pstate) option" where
  "pbuf_add_header_impl p header_size_increment force st =
     (if p = NULL then None
      else if header_size_increment > 0xFFFF then Some (1, st)
      else if header_size_increment = 0 then Some (0, st)
      else case pbufs st p of
        None \<Rightarrow> None
      | Some b \<Rightarrow>
          let increment_magnitude = ucast header_size_increment;
              payload = p_payload b - header_size_increment in
          if increment_magnitude + p_tot_len b < increment_magnitude then Some (1, st)
          else if (if p_type_internal b AND PBUF_TYPE_FLAG_STRUCT_DATA_CONTIGUOUS \<noteq> 0
                   then payload < p + SIZEOF_STRUCT_PBUF else \<not> force) then Some (1, st)
          else Some (0, st\<lparr>pbufs := (pbufs st)(p \<mapsto> b\<lparr>p_payload := payload,
                 p_len := p_len b + increment_magnitude, p_tot_len := p_tot_len b + increment_magnitude\<rparr>)\<rparr>))"

definition pbuf_add_header :: "ptr \<Rightarrow> u32 \<Rightarrow> 'x pstate \<Rightarrow> (u8 \<times> 'x pstate) option" where
  "pbuf_add_header p n st = pbuf_add_header_impl p n False st"

definition pbuf_add_header_force :: "ptr \<Rightarrow> u32 \<Rightarrow> 'x pstate \<Rightarrow> (u8 \<times> 'x pstate) option" where
  "pbuf_add_header_force p n st = pbuf_add_header_impl p n True st"

text \<open>The increment of \<open>pbuf_header\<close> is a signed 16-bit value.\<close>

definition pbuf_header_impl :: "ptr \<Rightarrow> int \<Rightarrow> bool \<Rightarrow> 'x pstate \<Rightarrow> (u8 \<times> 'x pstate) option" where
  "pbuf_header_impl p header_size_increment force st =
     (if header_size_increment < 0 then pbuf_remove_header p (of_int (- header_size_increment)) st
      else pbuf_add_header_impl p (of_int header_size_increment) force st)"

definition pbuf_header :: "ptr \<Rightarrow> int \<Rightarrow> 'x pstate \<Rightarrow> (u8 \<times> 'x pstate) option" where
  "pbuf_header p n st = pbuf_header_impl p n False st"

definition pbuf_header_force :: "ptr \<Rightarrow> int \<Rightarrow> 'x pstate \<Rightarrow> (u8 \<times> 'x pstate) option" where
  "pbuf_header_force p n st = pbuf_header_impl p n True st"

text \<open>\<open>pbuf_free_header\<close>: the result is the new first buffer.\<close>

partial_function (option) pbuf_free_header :: "'x mem_api \<Rightarrow> ptr \<Rightarrow> u16 \<Rightarrow> 'x pstate \<Rightarrow> (ptr \<times> 'x pstate) option" where
  "pbuf_free_header M p free_left st =
     (if free_left \<noteq> 0 \<and> p \<noteq> NULL then
        (case pbufs st p of
           None \<Rightarrow> None
         | Some b \<Rightarrow>
             if free_left \<ge> p_len b then
               (case pbuf_free M p (st\<lparr>pbufs := (pbufs st)(p \<mapsto> b\<lparr>p_next := NULL\<rparr>)\<rparr>) of
                  None \<Rightarrow> None
                | Some (_, st) \<Rightarrow> pbuf_free_header M (p_next b) (free_left - p_len b) st)
             else (case pbuf_remove_header p (ucast free_left) st of
                     None \<Rightarrow> None
                   | Some (_, st) \<Rightarrow> Some (p, st)))
      else Some (p, st))"

text \<open>The loop of \<open>pbuf_realloc\<close> over the buffers that stay: it returns the new last buffer and \<open>rem_len\<close>.\<close>

partial_function (option) pbuf_realloc_loop :: "ptr \<Rightarrow> u16 \<Rightarrow> u16 \<Rightarrow> 'x pstate \<Rightarrow> (ptr \<times> u16 \<times> 'x pstate) option" where
  "pbuf_realloc_loop q rem_len shrink st =
     (case pbufs st q of
        None \<Rightarrow> None
      | Some b \<Rightarrow>
          if rem_len > p_len b then
            if p_next b = NULL then None
            else pbuf_realloc_loop (p_next b) (rem_len - p_len b) shrink
              (st\<lparr>pbufs := (pbufs st)(q \<mapsto> b\<lparr>p_tot_len := p_tot_len b - shrink\<rparr>)\<rparr>)
          else Some (q, rem_len, st))"

definition pbuf_realloc :: "'x mem_api \<Rightarrow> ptr \<Rightarrow> u16 \<Rightarrow> 'x pstate \<Rightarrow> 'x pstate option" where
  "pbuf_realloc M p new_len st =
     (case (if p = NULL then None else pbufs st p) of
        None \<Rightarrow> None
      | Some b \<Rightarrow>
          if new_len \<ge> p_tot_len b then Some st
          else case pbuf_realloc_loop p new_len (p_tot_len b - new_len) st of
            None \<Rightarrow> None
          | Some (q, rem_len, st) \<Rightarrow>
              (case pbufs st q of
                 None \<Rightarrow> None
               | Some c \<Rightarrow>
                   (case (if p_type_internal c AND PBUF_TYPE_ALLOC_SRC_MASK = 0 \<and> rem_len \<noteq> p_len c \<and>
                             p_flags c AND PBUF_FLAG_IS_CUSTOM = 0
                          then (case api_trim M q (p_payload c - q + ucast rem_len) (heap st) of
                                  None \<Rightarrow> None
                                | Some (q, h) \<Rightarrow> if q = NULL then None else Some (q, st\<lparr>heap := h\<rparr>))
                          else Some (q, st)) of
                      None \<Rightarrow> None
                    | Some (q, st) \<Rightarrow>
                        (case upd_pbuf q (\<lambda>c. c\<lparr>p_len := rem_len, p_tot_len := rem_len\<rparr>) st of
                           None \<Rightarrow> None
                         | Some st \<Rightarrow>
                             (case (if p_next c \<noteq> NULL then map_option snd (pbuf_free M (p_next c) st) else Some st) of
                                None \<Rightarrow> None
                              | Some st \<Rightarrow> upd_pbuf q (\<lambda>c. c\<lparr>p_next := NULL\<rparr>) st)))))"

subsection \<open>Allocation\<close>

definition pbuf_init_alloced_pbuf :: "ptr \<Rightarrow> ptr \<Rightarrow> u16 \<Rightarrow> u16 \<Rightarrow> pbuf_type \<Rightarrow> u8 \<Rightarrow> 'x pstate \<Rightarrow> 'x pstate" where
  "pbuf_init_alloced_pbuf p payload tot_len len type flags st =
     st\<lparr>pbufs := (pbufs st)(p \<mapsto> \<lparr>p_next = NULL, p_payload = payload, p_tot_len = tot_len, p_len = len,
       p_type_internal = ucast (pbuf_type_value type), p_flags = flags, p_ref = 1, p_if_idx = 0\<rparr>)\<rparr>"

definition pbuf_alloc_reference :: "ptr \<Rightarrow> u16 \<Rightarrow> pbuf_type \<Rightarrow> 'x pstate \<Rightarrow> (ptr \<times> 'x pstate) option" where
  "pbuf_alloc_reference payload len type st =
     (if type \<noteq> PBUF_REF \<and> type \<noteq> PBUF_ROM then None
      else case memp_malloc MEMP_PBUF st of
        None \<Rightarrow> None
      | Some (p, st) \<Rightarrow>
          if p = NULL then Some (NULL, st) else Some (p, pbuf_init_alloced_pbuf p payload len len type 0 st))"

text \<open>\<open>LWIP_MEM_ALIGN_SIZE\<close> and \<open>LWIP_MEM_ALIGN\<close> with \<open>MEM_ALIGNMENT\<close> 4. The size of a buffer of the pool is
  that of a segment of \<open>TCP_MSS\<close> bytes with its headers.\<close>

definition LWIP_MEM_ALIGN_SIZE :: "u32 \<Rightarrow> u32" where
  "LWIP_MEM_ALIGN_SIZE n = (n + 3) AND NOT 3"

definition PBUF_POOL_BUFSIZE_ALIGNED :: u32 where "PBUF_POOL_BUFSIZE_ALIGNED = 592"

text \<open>An empty pool asks TCP to free the segments it keeps out of sequence.\<close>

definition pbuf_pool_is_empty :: "'x pstate \<Rightarrow> 'x pstate" where
  "pbuf_pool_is_empty st = st\<lparr>pbuf_free_ooseq_pending := 1\<rparr>"

text \<open>The loop for \<open>PBUF_POOL\<close>: \<open>p\<close> is the first and \<open>tail\<close> the last buffer so far. Every round takes at least one
  byte, except for the length 0.\<close>

partial_function (option) pbuf_alloc_pool ::
    "'x mem_api \<Rightarrow> ptr \<Rightarrow> ptr \<Rightarrow> u16 \<Rightarrow> u16 \<Rightarrow> 'x pstate \<Rightarrow> (ptr \<times> 'x pstate) option" where
  "pbuf_alloc_pool M p tail rem_len offset st =
     (case memp_malloc MEMP_PBUF_POOL st of
        None \<Rightarrow> None
      | Some (q, st) \<Rightarrow>
        if q = NULL then
          (let st = pbuf_pool_is_empty st in
           if p \<noteq> NULL then map_option (\<lambda>r. (NULL, snd r)) (pbuf_free M p st) else Some (NULL, st))
        else if PBUF_POOL_BUFSIZE_ALIGNED - LWIP_MEM_ALIGN_SIZE (ucast offset) = 0 then None
        else
          let room = ucast (PBUF_POOL_BUFSIZE_ALIGNED - LWIP_MEM_ALIGN_SIZE (ucast offset));
              qlen = (if rem_len < room then rem_len else room);
              st = pbuf_init_alloced_pbuf q (LWIP_MEM_ALIGN_SIZE (q + SIZEOF_STRUCT_PBUF + ucast offset)) rem_len qlen PBUF_POOL 0 st in
          (case (if p = NULL then Some (q, st)
                 else map_option (\<lambda>st. (p, st)) (upd_pbuf tail (\<lambda>b. b\<lparr>p_next := q\<rparr>) st)) of
             None \<Rightarrow> None
           | Some (p, st) \<Rightarrow>
               if rem_len - qlen > 0 then pbuf_alloc_pool M p q (rem_len - qlen) 0 st else Some (p, st)))"

definition pbuf_alloc :: "'x mem_api \<Rightarrow> u16 \<Rightarrow> u16 \<Rightarrow> pbuf_type \<Rightarrow> 'x pstate \<Rightarrow> (ptr \<times> 'x pstate) option" where
  "pbuf_alloc M layer len type st =
     (case type of
        PBUF_REF \<Rightarrow> pbuf_alloc_reference NULL len type st
      | PBUF_ROM \<Rightarrow> pbuf_alloc_reference NULL len type st
      | PBUF_POOL \<Rightarrow> pbuf_alloc_pool M NULL NULL len layer st
      | PBUF_RAM \<Rightarrow>
          let payload_len = ucast (LWIP_MEM_ALIGN_SIZE (ucast layer) + LWIP_MEM_ALIGN_SIZE (ucast len)) :: u16;
              alloc_len = LWIP_MEM_ALIGN_SIZE SIZEOF_STRUCT_PBUF + ucast payload_len in
          if ucast payload_len < LWIP_MEM_ALIGN_SIZE (ucast len) \<or> alloc_len < LWIP_MEM_ALIGN_SIZE (ucast len)
          then Some (NULL, st)
          else (case api_malloc M alloc_len (heap st) of
                  None \<Rightarrow> None
                | Some (p, h) \<Rightarrow>
                  let st = st\<lparr>heap := h\<rparr> in
                  if p = NULL then Some (NULL, st)
                  else Some (p, pbuf_init_alloced_pbuf p (LWIP_MEM_ALIGN_SIZE (p + SIZEOF_STRUCT_PBUF + ucast layer))
                         len len type 0 st)))"

text \<open>\<open>pbuf_copy\<close>; the offsets are of type \<open>size_t\<close>.\<close>

definition pbuf_is_queue :: "'x pstate \<Rightarrow> ptr \<Rightarrow> bool option" where
  "pbuf_is_queue st p =
     (if p = NULL then Some False
      else case pbufs st p of
        None \<Rightarrow> None
      | Some b \<Rightarrow> Some (p_len b = p_tot_len b \<and> p_next b \<noteq> NULL))"

partial_function (option) pbuf_copy_loop ::
    "'x pstate \<Rightarrow> ptr \<Rightarrow> ptr \<Rightarrow> u32 \<Rightarrow> u32 \<Rightarrow> memory \<Rightarrow> (err_t \<times> memory) option" where
  "pbuf_copy_loop st p_to p_from offset_to offset_from m =
     (case (pbufs st p_to, pbufs st p_from) of
        (Some a, Some b) \<Rightarrow>
          let room = ucast (p_len a) - offset_to; rest = ucast (p_len b) - offset_from;
              len = (if room \<ge> rest then rest else room);
              m = memcpy m (p_payload a + offset_to) (p_payload b + offset_from) (unat len);
              offset_to = offset_to + len; offset_from = offset_from + len;
              (offset_from', p_from) = (if offset_from \<ge> ucast (p_len b) then (0, p_next b) else (offset_from, p_from)) in
          if offset_to > ucast (p_len a) \<or> offset_from > ucast (p_len b) then None
          else if offset_to = ucast (p_len a) \<and> p_next a = NULL \<and> p_from \<noteq> NULL then None
          else
            let (offset_to, p_to) = (if offset_to = ucast (p_len a) then (0, p_next a) else (offset_to, p_to)) in
            (case (pbuf_is_queue st p_from, pbuf_is_queue st p_to) of
               (Some qf, Some qt) \<Rightarrow>
                 if qf \<or> qt then None
                 else if p_from \<noteq> NULL then pbuf_copy_loop st p_to p_from offset_to offset_from' m
                 else Some (ERR_OK, m)
             | _ \<Rightarrow> None)
      | _ \<Rightarrow> None)"

definition pbuf_copy :: "'x pstate \<Rightarrow> ptr \<Rightarrow> ptr \<Rightarrow> memory \<Rightarrow> (err_t \<times> memory) option" where
  "pbuf_copy st p_to p_from m =
     (if p_to = NULL \<or> p_from = NULL then None
      else case (pbufs st p_to, pbufs st p_from) of
        (Some a, Some b) \<Rightarrow>
          if p_tot_len a \<ge> p_tot_len b then pbuf_copy_loop st p_to p_from 0 0 m else None
      | _ \<Rightarrow> None)"

definition pbuf_clone ::
    "'x mem_api \<Rightarrow> u16 \<Rightarrow> pbuf_type \<Rightarrow> ptr \<Rightarrow> 'x pstate \<Rightarrow> memory \<Rightarrow> (ptr \<times> 'x pstate \<times> memory) option" where
  "pbuf_clone M layer type p st m =
     (case pbufs st p of
        None \<Rightarrow> None
      | Some b \<Rightarrow>
          (case pbuf_alloc M layer (p_tot_len b) type st of
             None \<Rightarrow> None
           | Some (q, st) \<Rightarrow>
               if q = NULL then Some (NULL, st, m)
               else (case pbuf_copy st q p m of
                       None \<Rightarrow> None
                     | Some (err, m) \<Rightarrow> if err = ERR_OK then Some (q, st, m) else None)))"

definition pbuf_coalesce ::
    "'x mem_api \<Rightarrow> ptr \<Rightarrow> u16 \<Rightarrow> 'x pstate \<Rightarrow> memory \<Rightarrow> (ptr \<times> 'x pstate \<times> memory) option" where
  "pbuf_coalesce M p layer st m =
     (case pbufs st p of
        None \<Rightarrow> None
      | Some b \<Rightarrow>
          if p_next b = NULL then Some (p, st, m)
          else (case pbuf_clone M layer PBUF_RAM p st m of
                  None \<Rightarrow> None
                | Some (q, st, m) \<Rightarrow>
                    if q = NULL then Some (p, st, m)
                    else map_option (\<lambda>(_, st). (q, st, m)) (pbuf_free M p st)))"

subsection \<open>Chains\<close>

text \<open>The sum of the lengths, the chain that starts at \<open>p\<close> with the invariant of \<open>tot_len\<close>, and its bytes.\<close>

definition plen :: "(ptr \<Rightarrow> pbuf_t option) \<Rightarrow> ptr list \<Rightarrow> nat" where
  "plen h ps = sum_list (map (\<lambda>a. unat (p_len (the (h a)))) ps)"

primrec pchain :: "(ptr \<Rightarrow> pbuf_t option) \<Rightarrow> ptr \<Rightarrow> ptr list \<Rightarrow> bool" where
  "pchain h p [] \<longleftrightarrow> p = NULL"
| "pchain h p (a # as) \<longleftrightarrow> p = a \<and> a \<noteq> NULL \<and>
     (\<exists>b. h a = Some b \<and> unat (p_tot_len b) = plen h (a # as) \<and> pchain h (p_next b) as)"

definition pbytes :: "(ptr \<Rightarrow> pbuf_t option) \<Rightarrow> memory \<Rightarrow> ptr list \<Rightarrow> u8 list" where
  "pbytes h m ps = concat (map (\<lambda>a. rdbytes m (p_payload (the (h a))) (unat (p_len (the (h a))))) ps)"

lemma plen_simps [simp]:
  "plen h [] = 0" "plen h (a # as) = unat (p_len (the (h a))) + plen h as" "plen h (as @ bs) = plen h as + plen h bs"
  by (simp_all add: plen_def)

lemma pbytes_simps [simp]:
  "pbytes h m [] = []"
  "pbytes h m (a # as) = rdbytes m (p_payload (the (h a))) (unat (p_len (the (h a)))) @ pbytes h m as"
  "pbytes h m (as @ bs) = pbytes h m as @ pbytes h m bs"
  by (simp_all add: pbytes_def)

lemma length_pbytes [simp]: "length (pbytes h m ps) = plen h ps"
  by (induction ps) simp_all

lemma pchain_NULL [simp]: "pchain h NULL ps \<longleftrightarrow> ps = []"
  by (cases ps) auto

lemma pchain_nonNULL: "p \<noteq> NULL \<Longrightarrow> pchain h p ps \<longleftrightarrow>
    (\<exists>as b. ps = p # as \<and> h p = Some b \<and> unat (p_tot_len b) = plen h ps \<and> pchain h (p_next b) as)"
  by (cases ps) auto

lemma pchain_len: "pchain h p ps \<Longrightarrow> plen h ps < 65536"
  by (cases ps) (auto, metis unat_u16_less)

lemma pchain_unique: "pchain h p ps \<Longrightarrow> pchain h p qs \<Longrightarrow> ps = qs"
  by (induction ps arbitrary: p qs) (auto simp: pchain_nonNULL)

lemma pchain_suffix: "pchain h p (as @ b # bs) \<Longrightarrow> pchain h b (b # bs)"
  by (induction as arbitrary: p) auto

lemma pchain_distinct: "pchain h p ps \<Longrightarrow> distinct ps"
proof (induction ps arbitrary: p)
  case (Cons a as)
  have "a \<notin> set as"
  proof
    assume "a \<in> set as"
    then obtain xs ys where as: "as = xs @ a # ys" by (auto simp: in_set_conv_decomp)
    then have "pchain h a (a # ys)" using pchain_suffix [of h p "a # xs" a ys] Cons.prems by simp
    then have "a # as = a # ys" using pchain_unique Cons.prems by fastforce
    then show False using as by simp
  qed
  then show ?case using Cons by auto
qed simp

lemma pchain_dom: "pchain h p ps \<Longrightarrow> set ps \<subseteq> dom h"
  by (induction ps arbitrary: p) auto

text \<open>A change elsewhere is not seen.\<close>

lemma plen_cong: "(\<And>a. a \<in> set ps \<Longrightarrow> h' a = h a) \<Longrightarrow> plen h' ps = plen h ps"
  by (induction ps) simp_all

lemma pbytes_cong: "(\<And>a. a \<in> set ps \<Longrightarrow> h' a = h a) \<Longrightarrow> pbytes h' m ps = pbytes h m ps"
  by (induction ps) simp_all

lemma pchain_cong: "(\<And>a. a \<in> set ps \<Longrightarrow> h' a = h a) \<Longrightarrow> pchain h' p ps = pchain h p ps"
proof (induction ps arbitrary: p)
  case (Cons a as)
  then show ?case using plen_cong [of "a # as" h' h] by auto
qed simp

lemma pbytes_mem_cong:
  "(\<And>a. a \<in> set ps \<Longrightarrow> rdbytes m' (p_payload (the (h a))) (unat (p_len (the (h a)))) =
    rdbytes m (p_payload (the (h a))) (unat (p_len (the (h a))))) \<Longrightarrow> pbytes h m' ps = pbytes h m ps"
  by (induction ps) simp_all

subsection \<open>Reading a chain\<close>

lemma pbuf_skip_const_chain:
  "pchain (pbufs st) p ps \<Longrightarrow>
    \<exists>as bs q off'. pbuf_skip_const st p off = Some (q, off') \<and> ps = as @ bs \<and> pchain (pbufs st) q bs \<and>
      plen (pbufs st) as + unat off' = unat off \<and> (bs \<noteq> [] \<longrightarrow> unat off' < unat (p_len (the (pbufs st (hd bs)))))"
proof (induction ps arbitrary: p off)
  case Nil
  then show ?case by (subst pbuf_skip_const.simps) auto
next
  case (Cons a ps)
  then obtain b where b: "p = a" "a \<noteq> NULL" "pbufs st a = Some b" "pchain (pbufs st) (p_next b) ps" by auto
  show ?case
  proof (cases "p_len b \<le> off")
    case True
    obtain as bs q off' where ih: "pbuf_skip_const st (p_next b) (off - p_len b) = Some (q, off')" "ps = as @ bs"
        "pchain (pbufs st) q bs" "plen (pbufs st) as + unat off' = unat (off - p_len b)"
        "bs \<noteq> [] \<longrightarrow> unat off' < unat (p_len (the (pbufs st (hd bs))))"
      using Cons.IH [OF b(4)] by blast
    have "unat (off - p_len b) + unat (p_len b) = unat off" using True by (simp add: unat_sub word_le_nat_alt)
    then show ?thesis using True b ih
      by (subst pbuf_skip_const.simps) (intro exI [of _ "a # as"] exI [of _ bs], simp)
  next
    case False
    then show ?thesis using b Cons.prems
      by (subst pbuf_skip_const.simps)
        (intro exI [of _ "[]"] exI [of _ "a # ps"], simp add: word_le_nat_alt)
  qed
qed

lemma pbuf_get_at_chain:
  assumes "pchain (pbufs st) p ps"
  shows "pbuf_get_at st m p off =
    Some (if unat off < plen (pbufs st) ps then pbytes (pbufs st) m ps ! unat off else 0)"
proof -
  obtain as bs q off' where sk: "pbuf_skip_const st p off = Some (q, off')" "ps = as @ bs"
      "pchain (pbufs st) q bs" "plen (pbufs st) as + unat off' = unat off"
      "bs \<noteq> [] \<longrightarrow> unat off' < unat (p_len (the (pbufs st (hd bs))))"
    using pbuf_skip_const_chain [OF assms] by blast
  show ?thesis
  proof (cases bs)
    case Nil
    then show ?thesis using sk by (simp add: pbuf_get_at_def pbuf_try_get_at_def)
  next
    case (Cons c cs)
    then obtain b where b: "q = c" "c \<noteq> NULL" "pbufs st c = Some b" using sk(3) by auto
    have lt: "unat off' < unat (p_len b)" using sk(5) Cons b by simp
    then have "pbytes (pbufs st) m ps ! unat off = m (p_payload b + ucast off')"
      using sk(2,4) Cons b(3) by (simp add: nth_append flip: sk(4))
    moreover have "unat off < plen (pbufs st) ps" using sk(2,4) lt Cons b(3) by simp
    ultimately show ?thesis
      using sk(1) b lt by (simp add: pbuf_get_at_def pbuf_try_get_at_def word_less_nat_alt)
  qed
qed

text \<open>\<open>pat\<close> occurs in \<open>xs\<close> at the position \<open>i\<close>; the first position from \<open>start\<close> on.\<close>

definition occurs_at :: "'a list \<Rightarrow> 'a list \<Rightarrow> nat \<Rightarrow> bool" where
  "occurs_at pat xs i \<longleftrightarrow> take (length pat) (drop i xs) = pat"

definition first_index :: "'a list \<Rightarrow> 'a list \<Rightarrow> nat \<Rightarrow> nat option" where
  "first_index pat xs start = List.find (occurs_at pat xs) [start..<Suc (length xs) - length pat]"

lemma pbuf_memcmp_loop_chain:
  assumes ch: "pchain (pbufs st) q bs"
  shows "unat start + unat i + length pat \<le> plen (pbufs st) bs \<Longrightarrow>
    \<exists>r. pbuf_memcmp_loop st m q start i pat = Some r \<and>
      (r = 0 \<longleftrightarrow> occurs_at pat (pbytes (pbufs st) m bs) (unat start + unat i))"
proof (induction pat arbitrary: i)
  case (Cons x pat)
  let ?xs = "pbytes (pbufs st) m bs" and ?k = "unat start + unat i"
  have lt: "?k < plen (pbufs st) bs" "plen (pbufs st) bs < 65536" using Cons.prems pchain_len [OF ch] by simp_all
  then have k: "unat (start + i) = ?k" and i: "unat (i + 1) = unat i + 1" by (simp_all add: unat_word_ariths)
  have get: "pbuf_get_at st m q (start + i) = Some (?xs ! ?k)" using pbuf_get_at_chain [OF ch] lt k by simp
  have drop: "drop ?k ?xs = ?xs ! ?k # drop (Suc ?k) ?xs" using lt by (simp add: Cons_nth_drop_Suc)
  show ?case
  proof (cases "?xs ! ?k = x")
    case True
    then show ?thesis using Cons.IH [of "i + 1"] Cons.prems get drop i by (simp add: occurs_at_def)
  next
    case False
    have "i + 1 \<noteq> 0" using i by (metis add_is_0 one_neq_zero unat_0)
    then show ?thesis using False get drop by (simp add: occurs_at_def)
  qed
qed (simp add: occurs_at_def)

lemma pbuf_memcmp_chain:
  assumes ch: "pchain (pbufs st) p ps" and p: "p \<noteq> NULL"
  shows "\<exists>r. pbuf_memcmp st m p off pat = Some r \<and>
    (r = 0 \<longleftrightarrow> unat off + length pat \<le> plen (pbufs st) ps \<and> occurs_at pat (pbytes (pbufs st) m ps) (unat off))"
proof -
  obtain b where b: "pbufs st p = Some b" "unat (p_tot_len b) = plen (pbufs st) ps" using ch p by (auto simp: pchain_nonNULL)
  obtain as bs q off' where sk: "pbuf_skip_const st p off = Some (q, off')" "ps = as @ bs"
      "pchain (pbufs st) q bs" "plen (pbufs st) as + unat off' = unat off"
    using pbuf_skip_const_chain [OF ch] by blast
  show ?thesis
  proof (cases "plen (pbufs st) ps < unat off + length pat")
    case True
    then show ?thesis using b by (simp add: pbuf_memcmp_def)
  next
    case False
    then have "unat off' + unat (0 :: u16) + length pat \<le> plen (pbufs st) bs" using sk(2,4) by simp
    from pbuf_memcmp_loop_chain [OF sk(3) this, of m] obtain r
      where r: "pbuf_memcmp_loop st m q off' 0 pat = Some r" "r = 0 \<longleftrightarrow> occurs_at pat (pbytes (pbufs st) m bs) (unat off')" by auto
    moreover have "drop (unat off) (pbytes (pbufs st) m ps) = drop (unat off') (pbytes (pbufs st) m bs)"
      using sk(2) by (simp flip: sk(4))
    ultimately show ?thesis using False b sk(1) by (simp add: pbuf_memcmp_def occurs_at_def)
  qed
qed

lemma find_upt_Cons: "i < n \<Longrightarrow> List.find P [i..<n] = (if P i then Some i else List.find P [Suc i..<n])"
  by (simp add: upt_conv_Cons)

lemma pbuf_memfind_loop_chain:
  assumes ch: "pchain (pbufs st) p ps" and p: "p \<noteq> NULL" and pat: "pat \<noteq> []" "length pat \<le> plen (pbufs st) ps"
    and mx: "unat mx = plen (pbufs st) ps - length pat"
  shows "unat i \<le> Suc (unat mx) \<Longrightarrow> pbuf_memfind_loop st m p pat mx i =
    Some (case List.find (occurs_at pat (pbytes (pbufs st) m ps)) [unat i..<Suc (unat mx)] of
      None \<Rightarrow> 0xFFFF | Some k \<Rightarrow> of_nat k)"
proof (induction "Suc (unat mx) - unat i" arbitrary: i)
  case 0
  then show ?case by (subst pbuf_memfind_loop.simps) (simp add: word_le_nat_alt)
next
  case (Suc n)
  then have i: "unat i \<le> unat mx" by simp
  have "length pat > 0" using pat(1) by simp
  then have "unat mx < 65535" using mx pchain_len [OF ch] pat(2) by linarith
  then have i': "unat (i + 1) = Suc (unat i)" using i by (simp add: unat_word_ariths)
  obtain r where r: "pbuf_memcmp st m p i pat = Some r" "r = 0 \<longleftrightarrow> occurs_at pat (pbytes (pbufs st) m ps) (unat i)"
    using pbuf_memcmp_chain [OF ch p, of m i pat] i mx pat(2) by auto
  have "pbuf_memfind_loop st m p pat mx (i + 1) =
      Some (case List.find (occurs_at pat (pbytes (pbufs st) m ps)) [Suc (unat i)..<Suc (unat mx)] of
        None \<Rightarrow> 0xFFFF | Some k \<Rightarrow> of_nat k)"
    using Suc.hyps(1) [of "i + 1"] Suc.hyps(2) i i' by simp
  then show ?case using r i find_upt_Cons [of "unat i" "Suc (unat mx)" "occurs_at pat (pbytes (pbufs st) m ps)"]
    by (subst pbuf_memfind_loop.simps) (simp add: word_le_nat_alt del: upt_Suc)
qed

text \<open>The search in a chain is the search in its bytes.\<close>

lemma pbuf_memfind_chain:
  assumes ch: "pchain (pbufs st) p ps" and p: "p \<noteq> NULL" and pat: "pat \<noteq> []"
  shows "pbuf_memfind st m p pat start =
    Some (case first_index pat (pbytes (pbufs st) m ps) (unat start) of None \<Rightarrow> 0xFFFF | Some k \<Rightarrow> of_nat k)"
proof -
  obtain b where b: "pbufs st p = Some b" "unat (p_tot_len b) = plen (pbufs st) ps" using ch p by (auto simp: pchain_nonNULL)
  show ?thesis
  proof (cases "length pat + unat start \<le> plen (pbufs st) ps")
    case True
    have "plen (pbufs st) ps < 65536" by (rule pchain_len [OF ch])
    then have mx: "unat (p_tot_len b - of_nat (length pat)) = plen (pbufs st) ps - length pat"
      using True b(2) by (simp add: unat_sub_if' unat_of_nat)
    have le: "length pat \<le> plen (pbufs st) ps" "unat start \<le> Suc (plen (pbufs st) ps - length pat)" using True by simp_all
    show ?thesis
      using pbuf_memfind_loop_chain [OF ch p pat le(1) mx, of start m] b True le mx
      by (simp add: pbuf_memfind_def first_index_def Let_def Suc_diff_le del: upt_Suc)
  next
    case False
    then have "[unat start..<Suc (plen (pbufs st) ps) - length pat] = []" by auto
    then show ?thesis using False b by (simp add: pbuf_memfind_def first_index_def Let_def del: upt_eq_Nil_conv)
  qed
qed

end
