(* ===== verification/Pbuf_Chain.thy ===== *)
theory Pbuf_Chain
  imports Lwip_Pbuf "HOL-Library.Multiset"
begin

text \<open>
  What the operations of pbuf.c do to well-formed chains: copying reads and writes the bytes of a chain,
  \<open>pbuf_cat\<close> appends, \<open>pbuf_free_header\<close> drops bytes, \<open>pbuf_free\<close> gives the buffers back to their pool and
  \<open>pbuf_alloc\<close> takes them from it.
\<close>

lemma ucast_u16_u32_u16 [simp]: "(ucast (ucast (n :: u16) :: u32) :: u16) = n"
  by (rule bit_word_eqI) (simp add: bit_simps)

lemma first_index_SomeD:
  assumes "first_index pat xs start = Some k"
  shows "start \<le> k \<and> k < Suc (length xs) - length pat \<and> occurs_at pat xs k \<and>
    (\<forall>i. start \<le> i \<longrightarrow> i < k \<longrightarrow> \<not> occurs_at pat xs i)"
proof -
  obtain j where j: "j < length [start..<Suc (length xs) - length pat]" "occurs_at pat xs ([start..<Suc (length xs) - length pat] ! j)"
      "k = [start..<Suc (length xs) - length pat] ! j" "\<forall>i<j. \<not> occurs_at pat xs ([start..<Suc (length xs) - length pat] ! i)"
    using assms unfolding first_index_def find_Some_iff by blast
  have k: "k = start + j" "k < Suc (length xs) - length pat" using j(1,3) by simp_all
  have "\<not> occurs_at pat xs i" if "start \<le> i" "i < k" for i
    using j(4) [rule_format, of "i - start"] that k by simp
  then show ?thesis using k j(2,3) by auto
qed

lemma first_index_NoneD:
  "first_index pat xs start = None \<Longrightarrow> start \<le> i \<Longrightarrow> i + length pat \<le> length xs \<Longrightarrow> \<not> occurs_at pat xs i"
  by (auto simp: first_index_def find_None_iff Suc_diff_le)

subsection \<open>Copying\<close>

text \<open>The data of a chain is outside of a range of memory.\<close>

definition payload_disjoint :: "(ptr \<Rightarrow> pbuf_t option) \<Rightarrow> ptr list \<Rightarrow> ptr \<Rightarrow> nat \<Rightarrow> bool" where
  "payload_disjoint h ps q n \<longleftrightarrow>
     (\<forall>a \<in> set ps. ranges_disjoint (p_payload (the (h a))) (unat (p_len (the (h a)))) q n)"

lemma payload_disjoint_simps [simp]:
  "payload_disjoint h [] q n"
  "payload_disjoint h (a # as) q n \<longleftrightarrow>
    ranges_disjoint (p_payload (the (h a))) (unat (p_len (the (h a)))) q n \<and> payload_disjoint h as q n"
  "payload_disjoint h (as @ bs) q n \<longleftrightarrow> payload_disjoint h as q n \<and> payload_disjoint h bs q n"
  by (auto simp: payload_disjoint_def)

lemma pbytes_wrbytes:
  "payload_disjoint h ps q (length bs) \<Longrightarrow> pbytes h (wrbytes m q bs) ps = pbytes h m ps"
  by (induction ps) (simp_all add: rdbytes_wrbytes_disjoint)

lemma payload_disjoint_sub:
  assumes "payload_disjoint h ps q n" and "j + k \<le> n"
  shows "payload_disjoint h ps (q + of_nat j) k"
  using assms ranges_disjoint_sub [of _ _ q n 0 _ j k] by (fastforce simp: payload_disjoint_def)

lemma pbuf_copy_partial_loop_chain:
  "pchain (pbufs st) p ps \<Longrightarrow> payload_disjoint (pbufs st) ps (d + ucast left) (unat len) \<Longrightarrow>
    unat left + unat len < 65536 \<Longrightarrow> unat copied + unat len < 65536 \<Longrightarrow>
    pbuf_copy_partial_loop st p d len off left copied m =
      Some (copied + of_nat (length (take (unat len) (drop (unat off) (pbytes (pbufs st) m ps)))),
        wrbytes m (d + ucast left) (take (unat len) (drop (unat off) (pbytes (pbufs st) m ps))))"
proof (induction ps arbitrary: p len off left copied m)
  case Nil
  then show ?case by (subst pbuf_copy_partial_loop.simps) simp
next
  case (Cons a ps)
  then obtain b where b: "p = a" "a \<noteq> NULL" "pbufs st a = Some b" "pchain (pbufs st) (p_next b) ps" by auto
  let ?d = "rdbytes m (p_payload b) (unat (p_len b))"
  consider "len = 0" | "len \<noteq> 0" "off \<noteq> 0" "p_len b \<le> off" | "len \<noteq> 0" "off = 0 \<or> off < p_len b" by force
  then show ?case
  proof cases
    case 1
    then show ?thesis by (subst pbuf_copy_partial_loop.simps) simp
  next
    case 2
    have "pbuf_copy_partial_loop st p d len off left copied m =
        pbuf_copy_partial_loop st (p_next b) d len (off - p_len b) left copied m"
      using 2 b by (subst pbuf_copy_partial_loop.simps) (simp add: not_less)
    moreover have "drop (unat off) (pbytes (pbufs st) m (a # ps)) = drop (unat (off - p_len b)) (pbytes (pbufs st) m ps)"
      using 2 b(3) by (simp add: unat_sub word_le_nat_alt)
    ultimately show ?thesis using Cons.IH [OF b(4)] Cons.prems(2-) by simp
  next
    case 3
    define n where "n = (if p_len b - off > len then len else p_len b - off)"
    have off: "unat off \<le> unat (p_len b)" using 3(2) by (auto simp: word_less_nat_alt)
    then have sub: "unat (p_len b - off) = unat (p_len b) - unat off" by (simp add: unat_sub word_le_nat_alt)
    have n: "unat n = min (unat len) (unat (p_len b) - unat off)"
      using sub by (auto simp: n_def word_less_nat_alt min_def)
    then have le: "unat n \<le> unat len" by simp
    then have nl: "unat (len - n) = unat len - unat n" "unat (left + n) = unat left + unat n"
        "unat (copied + n) = unat copied + unat n"
      using Cons.prems(3,4) by (simp_all add: unat_sub word_le_nat_alt unat_word_ariths)
    let ?bs = "rdbytes m (p_payload b + ucast off) (unat n)"
    let ?m = "wrbytes m (d + ucast left) ?bs"
    have bs: "?bs = take (unat n) (drop (unat off) ?d)"
    proof -
      have "(ucast off :: u32) = of_nat (unat off)" by (simp add: word_unat_eq_iff unat_of_nat order_less_trans [OF unat_u16_less])
      then show ?thesis using off n by (simp add: drop_rdbytes take_rdbytes)
    qed
    have step: "pbuf_copy_partial_loop st p d len off left copied m =
        pbuf_copy_partial_loop st (p_next b) d (len - n) 0 (left + n) (copied + n) ?m"
    proof (cases "off = 0")
      case True
      then show ?thesis using 3 b by (subst pbuf_copy_partial_loop.simps) (simp add: n_def memcpy_def Let_def)
    next
      case False
      then have "\<not> p_len b \<le> off" using 3(2) by simp
      then show ?thesis using 3 b by (subst pbuf_copy_partial_loop.simps) (simp add: n_def memcpy_def Let_def)
    qed
    have ucast: "d + ucast left + of_nat (unat n) = d + ucast (left + n)"
    proof -
      have "(ucast (left + n) :: u32) = ucast left + of_nat (unat n)"
        by (simp add: word_unat_eq_iff unat_word_ariths nl(2))
          (use Cons.prems(3) n in \<open>simp add: unat_word_ariths unat_of_nat\<close>)
      then show ?thesis by (simp add: add.assoc)
    qed
    then have ucast': "d + ucast left + ucast n = d + ucast (left + n)" by simp
    have dis: "payload_disjoint (pbufs st) ps (d + ucast (left + n)) (unat (len - n))"
      using payload_disjoint_sub [of "pbufs st" ps "d + ucast left" "unat len" "unat n" "unat len - unat n"] Cons.prems(2) le
      unfolding nl(1) ucast [symmetric] by simp
    have keep: "pbytes (pbufs st) ?m ps = pbytes (pbufs st) m ps"
      using payload_disjoint_sub [of "pbufs st" ps "d + ucast left" "unat len" 0 "unat n"] Cons.prems(2) le
      by (intro pbytes_wrbytes) simp
    have split: "take (unat len) (drop (unat off) (pbytes (pbufs st) m (a # ps))) =
        ?bs @ take (unat len - unat n) (pbytes (pbufs st) m ps)"
    proof -
      have "take (unat len) (drop (unat off) ?d) = take (unat n) (drop (unat off) ?d)"
        using off n by (simp add: min_def)
      then show ?thesis using b(3) off n unfolding bs by (simp add: min_def)
    qed
    have "pbuf_copy_partial_loop st (p_next b) d (len - n) 0 (left + n) (copied + n) ?m =
        Some (copied + n + of_nat (length (take (unat len - unat n) (pbytes (pbufs st) m ps))),
          wrbytes ?m (d + ucast (left + n)) (take (unat len - unat n) (pbytes (pbufs st) m ps)))"
      using Cons.IH [OF b(4) dis, of "copied + n" 0 ?m] nl Cons.prems(3,4) n keep by simp
    then show ?thesis
      unfolding step split by (simp add: wrbytes_append ucast' flip: add.assoc)
  qed
qed

text \<open>\<open>pbuf_copy_partial\<close> copies \<open>len\<close> bytes from the offset on, or what there is.\<close>

lemma pbuf_copy_partial_chain:
  assumes "pchain (pbufs st) p ps" and "p \<noteq> NULL" and "d \<noteq> NULL" and "payload_disjoint (pbufs st) ps d (unat len)"
  shows "pbuf_copy_partial st p d len off m =
    (let bs = take (unat len) (drop (unat off) (pbytes (pbufs st) m ps)) in Some (of_nat (length bs), wrbytes m d bs))"
  using pbuf_copy_partial_loop_chain [OF assms(1), of d 0 len 0 off m] assms(2-) by (simp add: pbuf_copy_partial_def Let_def)

subsection \<open>Appending\<close>

text \<open>An update of \<open>tot_len\<close> and \<open>next\<close> does not change the data of a buffer.\<close>

definition same_data :: "pbuf_t option \<Rightarrow> pbuf_t option \<Rightarrow> bool" where
  "same_data x y \<longleftrightarrow> (x = None \<longleftrightarrow> y = None) \<and>
     (\<forall>b c. x = Some b \<longrightarrow> y = Some c \<longrightarrow> p_payload b = p_payload c \<and> p_len b = p_len c \<and> p_ref b = p_ref c \<and>
        p_type_internal b = p_type_internal c \<and> p_flags b = p_flags c)"

lemma same_data_refl [simp]: "same_data x x"
  by (simp add: same_data_def)

lemma same_data_fields:
  "same_data x y \<Longrightarrow> y \<noteq> None \<Longrightarrow> p_payload (the x) = p_payload (the y) \<and> p_len (the x) = p_len (the y) \<and>
    p_ref (the x) = p_ref (the y) \<and> p_type_internal (the x) = p_type_internal (the y) \<and> p_flags (the x) = p_flags (the y)"
  by (cases x; cases y) (simp_all add: same_data_def)

lemma same_data_trans: "same_data x y \<Longrightarrow> same_data y z \<Longrightarrow> same_data x z"
  by (cases y) (auto simp: same_data_def)

lemma plen_same_data: "set ps \<subseteq> dom h \<Longrightarrow> (\<And>a. a \<in> set ps \<Longrightarrow> same_data (h' a) (h a)) \<Longrightarrow> plen h' ps = plen h ps"
proof (induction ps)
  case (Cons a ps)
  then show ?case using same_data_fields [OF Cons.prems(2) [of a]] by auto
qed simp

lemma pbytes_same_data:
  "set ps \<subseteq> dom h \<Longrightarrow> (\<And>a. a \<in> set ps \<Longrightarrow> same_data (h' a) (h a)) \<Longrightarrow> pbytes h' m ps = pbytes h m ps"
proof (induction ps)
  case (Cons a ps)
  then show ?case using same_data_fields [OF Cons.prems(2) [of a]] by auto
qed simp

lemma pbuf_cat_loop_chain:
  assumes t: "pchain (pbufs st) t ts" "t \<noteq> NULL" and tot: "unat tot = plen (pbufs st) ts"
  shows "pchain (pbufs st) p ps \<Longrightarrow> ps \<noteq> [] \<Longrightarrow> set ps \<inter> set ts = {} \<Longrightarrow>
    plen (pbufs st) ps + plen (pbufs st) ts < 65536 \<Longrightarrow>
    \<exists>st'. pbuf_cat_loop p t tot st = Some st' \<and> pchain (pbufs st') p (ps @ ts) \<and>
      (\<forall>a. a \<notin> set ps \<longrightarrow> pbufs st' a = pbufs st a) \<and> (\<forall>a. same_data (pbufs st' a) (pbufs st a)) \<and>
      memp_tab st' = memp_tab st \<and> heap st' = heap st"
  using assms
proof (induction ps arbitrary: p st)
  case (Cons a ps)
  note ta = Cons.prems(5) and tn = Cons.prems(6) and tt = Cons.prems(7)
  obtain b where b: "p = a" "a \<noteq> NULL" "pbufs st a = Some b" "unat (p_tot_len b) = plen (pbufs st) (a # ps)"
      "pchain (pbufs st) (p_next b) ps" using Cons.prems(1) by auto
  let ?b = "b\<lparr>p_tot_len := p_tot_len b + tot\<rparr>"
  have tl: "unat (p_tot_len b + tot) = plen (pbufs st) (a # ps) + plen (pbufs st) ts"
    using b(4) tt Cons.prems(4) by (simp add: unat_word_ariths)
  have a: "a \<notin> set ps" "a \<notin> set ts" using pchain_distinct [OF Cons.prems(1)] Cons.prems(3) by auto
  show ?case
  proof (cases "ps = []")
    case True
    define st' where "st' = st\<lparr>pbufs := (pbufs st)(a \<mapsto> ?b\<lparr>p_next := t\<rparr>)\<rparr>"
    have st': "pbufs st' a = Some (?b\<lparr>p_next := t\<rparr>)" "\<And>x. x \<noteq> a \<Longrightarrow> pbufs st' x = pbufs st x"
      "memp_tab st' = memp_tab st" "heap st' = heap st" by (simp_all add: st'_def)
    have ts: "pbufs st' x = pbufs st x" if "x \<in> set ts" for x using that a st'(2) by metis
    have "pchain (pbufs st') t ts" using ta ts pchain_cong [of ts "pbufs st'" "pbufs st"] by blast
    moreover have "plen (pbufs st') ts = plen (pbufs st) ts" using ts by (rule plen_cong)
    ultimately have "pchain (pbufs st') p (a # ts)" using b tl True st'(1) by simp
    moreover have "p_tot_len b = p_len b" using b(3,4) True by (simp add: word_unat_eq_iff)
    then have "pbuf_cat_loop p t tot st = Some st'"
      using b True by (subst pbuf_cat_loop.simps) (simp add: Let_def st'_def)
    moreover have "same_data (pbufs st' x) (pbufs st x)" for x
      using b(3) st'(1,2) by (cases "x = a") (simp_all add: same_data_def)
    ultimately show ?thesis using True st' by (intro exI [of _ st']) simp
  next
    case False
    define st1 where "st1 = st\<lparr>pbufs := (pbufs st)(a \<mapsto> ?b)\<rparr>"
    have st1: "pbufs st1 a = Some ?b" "\<And>x. x \<noteq> a \<Longrightarrow> pbufs st1 x = pbufs st x"
      "memp_tab st1 = memp_tab st" "heap st1 = heap st" by (simp_all add: st1_def)
    have eq: "pbufs st1 x = pbufs st x" if "x \<in> set ps \<union> set ts" for x using that a st1(2) by (metis Un_iff)
    have c1: "pchain (pbufs st1) (p_next b) ps" "pchain (pbufs st1) t ts"
      using b(5) ta eq pchain_cong [of ps "pbufs st1" "pbufs st"] pchain_cong [of ts "pbufs st1" "pbufs st"] by blast+
    have pl: "plen (pbufs st1) ps = plen (pbufs st) ps" "plen (pbufs st1) ts = plen (pbufs st) ts"
      using eq by (auto intro!: plen_cong)
    have "plen (pbufs st1) ps + plen (pbufs st1) ts < 65536" "set ps \<inter> set ts = {}" "unat tot = plen (pbufs st1) ts"
      using Cons.prems(3,4) pl tt by auto
    from Cons.IH [OF c1(1) False this(2,1) c1(2) tn this(3)]
    obtain st' where st': "pbuf_cat_loop (p_next b) t tot st1 = Some st'"
        "pchain (pbufs st') (p_next b) (ps @ ts)" "\<forall>x. x \<notin> set ps \<longrightarrow> pbufs st' x = pbufs st1 x"
        "\<forall>x. same_data (pbufs st' x) (pbufs st1 x)" "memp_tab st' = memp_tab st1" "heap st' = heap st1" by blast
    have "pbufs st' a = Some ?b" using st'(3) a st1(1) by simp
    moreover have "plen (pbufs st') (ps @ ts) = plen (pbufs st1) (ps @ ts)"
      using st'(4) pchain_dom [OF c1(1)] pchain_dom [OF c1(2)] by (intro plen_same_data) auto
    ultimately have "pchain (pbufs st') p ((a # ps) @ ts)" using st'(2) b tl pl by simp
    moreover have "p_next b \<noteq> NULL" using b(5) False by (cases ps) auto
    then have "pbuf_cat_loop p t tot st = Some st'"
      using b st'(1) by (subst pbuf_cat_loop.simps) (simp add: Let_def st1_def)
    moreover have "same_data (pbufs st' x) (pbufs st x)" for x
    proof (cases "x = a")
      case True
      have "pbufs st' a = Some ?b" using st'(3) a st1(1) by simp
      then show ?thesis using True b(3) by (simp add: same_data_def)
    next
      case False
      then show ?thesis using st'(4) st1(2) by metis
    qed
    moreover have "\<forall>x. x \<notin> set (a # ps) \<longrightarrow> pbufs st' x = pbufs st x" using st'(3) st1(2) by simp
    ultimately show ?thesis using st'(5,6) st1(3,4) by (intro exI [of _ st']) simp
  qed
qed simp

text \<open>\<open>pbuf_cat\<close> appends the bytes of the tail, as long as the sum of the lengths fits into 16 bits.\<close>

lemma pbuf_cat_chain:
  assumes "pchain (pbufs st) p ps" "p \<noteq> NULL" and "pchain (pbufs st) t ts" "t \<noteq> NULL" and "set ps \<inter> set ts = {}"
    and "plen (pbufs st) ps + plen (pbufs st) ts < 65536"
  shows "\<exists>st'. pbuf_cat p t st = Some st' \<and> pchain (pbufs st') p (ps @ ts) \<and>
    pbytes (pbufs st') m (ps @ ts) = pbytes (pbufs st) m ps @ pbytes (pbufs st) m ts \<and>
    (\<forall>a. a \<notin> set ps \<longrightarrow> pbufs st' a = pbufs st a) \<and> (\<forall>a. same_data (pbufs st' a) (pbufs st a)) \<and>
    memp_tab st' = memp_tab st \<and> heap st' = heap st"
proof -
  obtain b where b: "pbufs st t = Some b" "unat (p_tot_len b) = plen (pbufs st) ts"
    using assms(3,4) by (auto simp: pchain_nonNULL)
  have "ps \<noteq> []" using assms(1,2) by auto
  from pbuf_cat_loop_chain [OF assms(3,4) b(2) assms(1) this assms(5,6)] obtain st' where st':
      "pbuf_cat_loop p t (p_tot_len b) st = Some st'" "pchain (pbufs st') p (ps @ ts)"
      "\<forall>a. a \<notin> set ps \<longrightarrow> pbufs st' a = pbufs st a" "\<forall>a. same_data (pbufs st' a) (pbufs st a)"
      "memp_tab st' = memp_tab st" "heap st' = heap st" by blast
  moreover have "pbytes (pbufs st') m (ps @ ts) = pbytes (pbufs st) m (ps @ ts)"
    using st'(4) pchain_dom [OF assms(1)] pchain_dom [OF assms(3)] by (intro pbytes_same_data) auto
  ultimately show ?thesis using assms(2,4) b(1) by (intro exI [of _ st']) (simp add: pbuf_cat_def)
qed

subsection \<open>Freeing\<close>

text \<open>Buffers of the pool, at aligned addresses, that have one reference only.\<close>

definition pool_buf :: "pbuf_t \<Rightarrow> bool" where
  "pool_buf b \<longleftrightarrow> p_ref b = 1 \<and> p_type_internal b AND PBUF_TYPE_ALLOC_SRC_MASK = 0x02 \<and> p_flags b AND PBUF_FLAG_IS_CUSTOM = 0"

definition pool_bufs :: "(ptr \<Rightarrow> pbuf_t option) \<Rightarrow> ptr list \<Rightarrow> bool" where
  "pool_bufs h ps \<longleftrightarrow> (\<forall>a \<in> set ps. pool_buf (the (h a)) \<and> 4 dvd a)"

definition pool_freed :: "ptr list \<Rightarrow> 'x pstate \<Rightarrow> 'x pstate" where
  "pool_freed ps st = st\<lparr>pbufs := (\<lambda>a. if a \<in> set ps then None else pbufs st a),
     memp_tab := (memp_tab st)(MEMP_PBUF_POOL := rev ps @ memp_tab st MEMP_PBUF_POOL)\<rparr>"

lemma pool_bufs_simps [simp]:
  "pool_bufs h []" "pool_bufs h (a # as) \<longleftrightarrow> pool_buf (the (h a)) \<and> 4 dvd a \<and> pool_bufs h as"
  "pool_bufs h (as @ bs) \<longleftrightarrow> pool_bufs h as \<and> pool_bufs h bs"
  by (auto simp: pool_bufs_def)

lemma pool_bufs_cong: "(\<And>a. a \<in> set ps \<Longrightarrow> h' a = h a) \<Longrightarrow> pool_bufs h' ps = pool_bufs h ps"
  by (simp add: pool_bufs_def)

lemma pool_bufs_same_data:
  assumes "set ps \<subseteq> dom h" and "\<And>a. a \<in> set ps \<Longrightarrow> same_data (h' a) (h a)"
  shows "pool_bufs h' ps = pool_bufs h ps"
proof -
  have "pool_buf (the (h' a)) = pool_buf (the (h a))" if a: "a \<in> set ps" for a
  proof -
    have "h a \<noteq> None" using a assms(1) by auto
    then show ?thesis using same_data_fields [OF assms(2) [OF a]] by (simp add: pool_buf_def)
  qed
  then show ?thesis by (simp add: pool_bufs_def)
qed

lemma pool_freed_simps [simp]:
  "pbufs (pool_freed ps st) a = (if a \<in> set ps then None else pbufs st a)"
  "heap (pool_freed ps st) = heap st" "pool_freed [] st = st"
  by (simp_all add: pool_freed_def fun_upd_idem)

lemma pool_dealloc:
  assumes "pool_buf b" and "p \<noteq> NULL" and "4 dvd p"
  shows "pbuf_dealloc M p b st = Some (pool_freed [p] st)"
  using assms by (auto simp: pbuf_dealloc_def pool_freed_def pool_buf_def memp_free_def Let_def fun_eq_iff)

lemma pool_freed_freed: "pool_freed qs (pool_freed ps st) = pool_freed (ps @ qs) st"
  by (auto simp: pool_freed_def fun_eq_iff)

text \<open>The links of a chain without the condition on \<open>tot_len\<close>.\<close>

primrec plinked :: "(ptr \<Rightarrow> pbuf_t option) \<Rightarrow> ptr \<Rightarrow> ptr list \<Rightarrow> bool" where
  "plinked h p [] \<longleftrightarrow> p = NULL"
| "plinked h p (a # as) \<longleftrightarrow> p = a \<and> a \<noteq> NULL \<and> (\<exists>b. h a = Some b \<and> plinked h (p_next b) as)"

lemma pchain_plinked: "pchain h p ps \<Longrightarrow> plinked h p ps"
  by (induction ps arbitrary: p) auto

lemma plinked_cong: "(\<And>a. a \<in> set ps \<Longrightarrow> h' a = h a) \<Longrightarrow> plinked h' p ps = plinked h p ps"
  by (induction ps arbitrary: p) auto

lemma pbuf_free_loop_linked:
  "plinked (pbufs st) p ps \<Longrightarrow> distinct ps \<Longrightarrow> pool_bufs (pbufs st) ps \<Longrightarrow>
    pbuf_free_loop M p cnt st = Some (cnt + of_nat (length ps), pool_freed ps st)"
proof (induction ps arbitrary: p cnt st)
  case Nil
  then show ?case by (subst pbuf_free_loop.simps) simp
next
  case (Cons a ps)
  then obtain b where b: "p = a" "a \<noteq> NULL" "pbufs st a = Some b" "plinked (pbufs st) (p_next b) ps" "pool_buf b" "4 dvd a" by auto
  have a: "a \<notin> set ps" "distinct ps" using Cons.prems(2) by simp_all
  let ?st = "pool_freed [a] st"
  have "pbufs ?st x = pbufs st x" if "x \<in> set ps" for x using that a by auto
  then have "plinked (pbufs ?st) (p_next b) ps" "pool_bufs (pbufs ?st) ps"
    using b(4) Cons.prems(3) plinked_cong [of ps "pbufs ?st" "pbufs st"] pool_bufs_cong [of ps "pbufs ?st" "pbufs st"]
    by (metis, metis pool_bufs_simps(2))
  then have "pbuf_free_loop M (p_next b) (cnt + 1) ?st = Some (cnt + 1 + of_nat (length ps), pool_freed ps ?st)"
    using a(2) by (intro Cons.IH)
  moreover have "pbuf_free_loop M p cnt st = pbuf_free_loop M (p_next b) (cnt + 1) ?st"
    using b pool_dealloc [OF b(5,2,6), of M st] by (subst pbuf_free_loop.simps) (simp add: pool_buf_def Let_def)
  ultimately show ?case by (simp add: pool_freed_freed add.assoc)
qed

text \<open>\<open>pbuf_free\<close> gives every buffer of the chain back to the pool.\<close>

lemma pbuf_free_chain:
  "pchain (pbufs st) p ps \<Longrightarrow> p \<noteq> NULL \<Longrightarrow> pool_bufs (pbufs st) ps \<Longrightarrow>
    pbuf_free M p st = Some (of_nat (length ps), pool_freed ps st)"
  using pbuf_free_loop_linked [of st p ps M 0] pchain_plinked pchain_distinct by (fastforce simp: pbuf_free_def)

subsection \<open>Removing headers\<close>

text \<open>A chain as the list of payload addresses and lengths, and this list without its first \<open>n\<close> bytes.\<close>

definition pchunks :: "(ptr \<Rightarrow> pbuf_t option) \<Rightarrow> ptr list \<Rightarrow> (ptr \<times> u16) list" where
  "pchunks h ps = map (\<lambda>a. (p_payload (the (h a)), p_len (the (h a)))) ps"

fun drop_chunks :: "nat \<Rightarrow> (ptr \<times> u16) list \<Rightarrow> (ptr \<times> u16) list" where
  "drop_chunks n [] = []"
| "drop_chunks n ((p, l) # cs) =
     (if n = 0 then (p, l) # cs else if n < unat l then (p + of_nat n, l - of_nat n) # cs else drop_chunks (n - unat l) cs)"

lemma pchunks_simps [simp]:
  "pchunks h [] = []" "pchunks h (a # as) = (p_payload (the (h a)), p_len (the (h a))) # pchunks h as"
  "pchunks h (as @ bs) = pchunks h as @ pchunks h bs"
  by (simp_all add: pchunks_def)

lemma pchunks_cong: "(\<And>a. a \<in> set ps \<Longrightarrow> h' a = h a) \<Longrightarrow> pchunks h' ps = pchunks h ps"
  by (induction ps) simp_all

lemma pchunks_same_data:
  "set ps \<subseteq> dom h \<Longrightarrow> (\<And>a. a \<in> set ps \<Longrightarrow> same_data (h' a) (h a)) \<Longrightarrow> pchunks h' ps = pchunks h ps"
  by (induction ps) (auto dest!: same_data_fields)

lemma drop_chunks_0 [simp]: "drop_chunks 0 cs = cs"
  by (cases cs) auto

lemma drop_chunks_append:
  "plen h ps < n \<Longrightarrow> drop_chunks n (pchunks h ps @ cs) = drop_chunks (n - plen h ps) cs"
  by (induction ps arbitrary: n) auto

lemma pbuf_remove_header_chain:
  assumes "pchain (pbufs st) p (p # ps)" and "n \<noteq> 0" and "unat n \<le> unat (p_len (the (pbufs st p)))"
  shows "\<exists>st'. pbuf_remove_header p (ucast (n :: u16)) st = Some (0, st') \<and> pchain (pbufs st') p (p # ps) \<and>
    pbytes (pbufs st') m (p # ps) = drop (unat n) (pbytes (pbufs st) m (p # ps)) \<and>
    pchunks (pbufs st') (p # ps) = (p_payload (the (pbufs st p)) + of_nat (unat n), p_len (the (pbufs st p)) - n) # pchunks (pbufs st) ps \<and>
    (\<forall>a. a \<noteq> p \<longrightarrow> pbufs st' a = pbufs st a) \<and> (pool_bufs (pbufs st) (p # ps) \<longrightarrow> pool_bufs (pbufs st') (p # ps)) \<and>
    memp_tab st' = memp_tab st \<and> heap st' = heap st"
proof -
  obtain b where b: "p \<noteq> NULL" "pbufs st p = Some b" "unat (p_tot_len b) = plen (pbufs st) (p # ps)"
    "pchain (pbufs st) (p_next b) ps" using assms(1) by auto
  have p: "p \<notin> set ps" using pchain_distinct [OF assms(1)] by simp
  have le: "unat n \<le> unat (p_len b)" using assms(3) b(2) by simp
  define b' where "b' = b\<lparr>p_payload := p_payload b + ucast n, p_len := p_len b - n, p_tot_len := p_tot_len b - n\<rparr>"
  define st' where "st' = st\<lparr>pbufs := (pbufs st)(p \<mapsto> b')\<rparr>"
  have st': "pbufs st' p = Some b'" "\<And>x. x \<noteq> p \<Longrightarrow> pbufs st' x = pbufs st x" "memp_tab st' = memp_tab st" "heap st' = heap st"
    by (simp_all add: st'_def)
  have eq: "pbufs st' x = pbufs st x" if "x \<in> set ps" for x using that p st'(2) by metis
  have "unat n \<le> 65535" using unat_u16_less [of n] by linarith
  then have "(ucast n :: u32) \<le> 0xFFFF" by (simp add: word_le_nat_alt)
  moreover have "(ucast n :: u32) \<noteq> 0" using assms(2) by (metis unat_0 unat_eq_zero unat_ucast_u16_u32)
  moreover have "(ucast (ucast n :: u32) :: u16) = n" by simp
  ultimately have run: "pbuf_remove_header p (ucast n) st = Some (0, st')"
    using b(1,2) le by (simp add: pbuf_remove_header_def Let_def st'_def b'_def not_less word_le_nat_alt)
  have len: "unat (p_len b') = unat (p_len b) - unat n" using le by (simp add: b'_def unat_sub word_le_nat_alt)
  have pl: "plen (pbufs st') ps = plen (pbufs st) ps" using eq by (rule plen_cong)
  have "unat n \<le> unat (p_tot_len b)" using le b(2,3) by simp
  then have "unat (p_tot_len b') = unat (p_tot_len b) - unat n" by (simp add: b'_def unat_sub word_le_nat_alt)
  then have "unat (p_tot_len b') = plen (pbufs st') (p # ps)" using b(2,3) st'(1) pl len le by simp
  moreover have "pchain (pbufs st') (p_next b') ps"
    using b(4) eq pchain_cong [of ps "pbufs st'" "pbufs st"] by (simp add: b'_def)
  ultimately have ch: "pchain (pbufs st') p (p # ps)" using b(1) st'(1) by simp
  have "(ucast n :: u32) = of_nat (unat n)" by simp
  then have "rdbytes m (p_payload b') (unat (p_len b')) = drop (unat n) (rdbytes m (p_payload b) (unat (p_len b)))"
    using le len by (simp add: drop_rdbytes) (simp add: b'_def)
  moreover have "pbytes (pbufs st') m ps = pbytes (pbufs st) m ps" using eq by (rule pbytes_cong)
  ultimately have by': "pbytes (pbufs st') m (p # ps) = drop (unat n) (pbytes (pbufs st) m (p # ps))"
    using b(2) st'(1) le by simp
  have "pool_bufs (pbufs st) (p # ps) \<longrightarrow> pool_bufs (pbufs st') (p # ps)"
    using b(2) st'(1) pool_bufs_cong [OF eq] by (auto simp: pool_buf_def b'_def)
  moreover have "pchunks (pbufs st') (p # ps) =
      (p_payload (the (pbufs st p)) + of_nat (unat n), p_len (the (pbufs st p)) - n) # pchunks (pbufs st) ps"
    using b(2) st'(1) pchunks_cong [OF eq] by (simp add: b'_def)
  ultimately show ?thesis using run ch by' st' by blast
qed

text \<open>\<open>pbuf_free_header\<close> drops the first bytes of a chain of the pool; buffers that are used up go back to the
  pool.\<close>

lemma pbuf_free_header_chain:
  "pchain (pbufs st) p ps \<Longrightarrow> pool_bufs (pbufs st) ps \<Longrightarrow> unat n \<le> plen (pbufs st) ps \<Longrightarrow>
    \<exists>q as qs st'. pbuf_free_header M p n st = Some (q, st') \<and> ps = as @ qs \<and> pchain (pbufs st') q qs \<and>
      pool_bufs (pbufs st') qs \<and> pbytes (pbufs st') m qs = drop (unat n) (pbytes (pbufs st) m ps) \<and>
      pchunks (pbufs st') qs = drop_chunks (unat n) (pchunks (pbufs st) ps) \<and>
      (\<forall>a. a \<notin> set qs \<longrightarrow> pbufs st' a = pbufs (pool_freed as st) a) \<and>
      memp_tab st' = memp_tab (pool_freed as st) \<and> heap st' = heap st"
proof (induction ps arbitrary: p n st)
  case Nil
  then show ?case by (subst pbuf_free_header.simps) (auto simp: unat_eq_0)
next
  case (Cons a ps)
  then obtain b where b: "p = a" "a \<noteq> NULL" "pbufs st a = Some b" "unat (p_tot_len b) = plen (pbufs st) (a # ps)"
      "pchain (pbufs st) (p_next b) ps" "pool_buf b" "4 dvd a" by auto
  have a: "a \<notin> set ps" using pchain_distinct [OF Cons.prems(1)] by simp
  consider "n = 0" | "n \<noteq> 0" "n < p_len b" | "n \<noteq> 0" "p_len b \<le> n" by force
  then show ?case
  proof cases
    case 1
    then show ?thesis using Cons.prems
      by (subst pbuf_free_header.simps) (intro exI [of _ p] exI [of _ "[]"] exI [of _ "a # ps"] exI [of _ st], simp)
  next
    case 2
    then have le: "unat n \<le> unat (p_len (the (pbufs st a)))" using b(3) by (simp add: word_less_nat_alt)
    have ch: "pchain (pbufs st) a (a # ps)" using Cons.prems(1) b(1) by blast
    from pbuf_remove_header_chain [OF ch 2(1) le, of m] obtain st'
      where st': "pbuf_remove_header a (ucast n) st = Some (0, st')" "pchain (pbufs st') a (a # ps)"
        "pbytes (pbufs st') m (a # ps) = drop (unat n) (pbytes (pbufs st) m (a # ps))"
        "pchunks (pbufs st') (a # ps) = (p_payload (the (pbufs st a)) + of_nat (unat n), p_len (the (pbufs st a)) - n) # pchunks (pbufs st) ps"
        "\<forall>x. x \<noteq> a \<longrightarrow> pbufs st' x = pbufs st x" "pool_bufs (pbufs st') (a # ps)"
        "memp_tab st' = memp_tab st" "heap st' = heap st"
      using Cons.prems(2) by blast
    have "pbuf_free_header M p n st = Some (a, st')"
      using 2 b st'(1) by (subst pbuf_free_header.simps) (simp add: not_le [symmetric])
    moreover have "pchunks (pbufs st') (a # ps) = drop_chunks (unat n) (pchunks (pbufs st) (a # ps))"
      using st'(4) 2 b(3) by (simp add: word_less_nat_alt unat_eq_0)
    ultimately show ?thesis using st' unfolding pool_freed_simps
      by (intro exI [of _ a] exI [of _ "[]"] exI [of _ "a # ps"] exI [of _ st']) simp
  next
    case 3
    define st1 where "st1 = st\<lparr>pbufs := (pbufs st)(a \<mapsto> b\<lparr>p_next := NULL\<rparr>)\<rparr>"
    have p1: "pbufs st1 a = Some (b\<lparr>p_next := NULL\<rparr>)" by (simp add: st1_def)
    have f1: "pool_freed [a] st1 = pool_freed [a] st" by (auto simp: st1_def pool_freed_def fun_eq_iff)
    have pb: "pool_buf (b\<lparr>p_next := NULL\<rparr>)" using b(6) by (simp add: pool_buf_def)
    have "pbuf_free_loop M a 0 st1 = pbuf_free_loop M NULL 1 (pool_freed [a] st)"
      using b(2,6) p1 pool_dealloc [OF pb b(2,7), of M st1] f1
      by (subst pbuf_free_loop.simps) (simp add: pool_buf_def Let_def)
    then have free: "pbuf_free M a st1 = Some (1, pool_freed [a] st)"
      using b(2) unfolding pbuf_free_def by (subst (asm) (2) pbuf_free_loop.simps) simp
    define st2 where "st2 = pool_freed [a] st"
    have st2: "pbufs st2 x = pbufs st x" if "x \<in> set ps" for x using that a by (auto simp: st2_def)
    have ch: "pchain (pbufs st2) (p_next b) ps" "pool_bufs (pbufs st2) ps"
      using b(5) Cons.prems(2) pchain_cong [of ps "pbufs st2" "pbufs st", OF st2] pool_bufs_cong [of ps "pbufs st2" "pbufs st", OF st2] by simp_all
    have n: "unat (n - p_len b) = unat n - unat (p_len b)" using 3 by (simp add: unat_sub)
    then have le: "unat (n - p_len b) \<le> plen (pbufs st2) ps"
      using Cons.prems(3) b(3) plen_cong [of ps "pbufs st2" "pbufs st", OF st2] by simp
    from Cons.IH [OF ch le] obtain q as qs st' where ih:
        "pbuf_free_header M (p_next b) (n - p_len b) st2 = Some (q, st')" "ps = as @ qs" "pchain (pbufs st') q qs"
        "pool_bufs (pbufs st') qs" "pbytes (pbufs st') m qs = drop (unat (n - p_len b)) (pbytes (pbufs st2) m ps)"
        "pchunks (pbufs st') qs = drop_chunks (unat (n - p_len b)) (pchunks (pbufs st2) ps)"
        "\<forall>x. x \<notin> set qs \<longrightarrow> pbufs st' x = pbufs (pool_freed as st2) x"
        "memp_tab st' = memp_tab (pool_freed as st2)" "heap st' = heap st2" by blast
    have "pbuf_free_header M p n st = Some (q, st')"
      using 3 b(1-3) free ih(1) by (subst pbuf_free_header.simps) (simp add: st1_def st2_def)
    moreover have "pbytes (pbufs st2) m ps = pbytes (pbufs st) m ps" using st2 by (rule pbytes_cong)
    then have "pbytes (pbufs st') m qs = drop (unat n) (pbytes (pbufs st) m (a # ps))"
      using ih(5) n b(3) 3 by (simp add: word_le_nat_alt)
    moreover have "pchunks (pbufs st2) ps = pchunks (pbufs st) ps" using st2 by (rule pchunks_cong)
    then have "pchunks (pbufs st') qs = drop_chunks (unat n) (pchunks (pbufs st) (a # ps))"
      using ih(6) n b(3) 3 by (simp add: word_le_nat_alt not_less unat_eq_0)
    moreover have "pool_freed as st2 = pool_freed (a # as) st" by (simp add: st2_def pool_freed_freed)
    ultimately show ?thesis using ih by (intro exI [of _ q] exI [of _ "a # as"] exI [of _ qs] exI [of _ st']) (simp add: st2_def)
  qed
qed

subsection \<open>Allocation from the pool\<close>

text \<open>The free list of the pool: different aligned elements that are not in use.\<close>

definition pool_ok :: "'x pstate \<Rightarrow> bool" where
  "pool_ok st \<longleftrightarrow> distinct (memp_tab st MEMP_PBUF_POOL) \<and>
     (\<forall>a \<in> set (memp_tab st MEMP_PBUF_POOL). a \<noteq> NULL \<and> 4 dvd a \<and> pbufs st a = None)"

text \<open>The beginning of a chain whose rest has \<open>r\<close> bytes.\<close>

primrec ppart :: "(ptr \<Rightarrow> pbuf_t option) \<Rightarrow> ptr \<Rightarrow> ptr list \<Rightarrow> nat \<Rightarrow> bool" where
  "ppart h p [] r \<longleftrightarrow> p = NULL"
| "ppart h p (a # as) r \<longleftrightarrow> p = a \<and> a \<noteq> NULL \<and>
     (\<exists>b. h a = Some b \<and> unat (p_tot_len b) = plen h (a # as) + r \<and> ppart h (p_next b) as r)"

lemma ppart_plinked: "ppart h p as r \<Longrightarrow> plinked h p as"
  by (induction as arbitrary: p) auto

lemma ppart_pchain: "ppart h p as 0 = pchain h p as"
  by (induction as arbitrary: p) auto

lemma ppart_cong: "(\<And>a. a \<in> set as \<Longrightarrow> h' a = h a) \<Longrightarrow> ppart h' p as r = ppart h p as r"
proof (induction as arbitrary: p)
  case (Cons a as)
  then show ?case using plen_cong [of "a # as" h' h] by auto
qed simp

text \<open>The next buffer \<open>q\<close> is linked behind the last one.\<close>

lemma ppart_snoc:
  "ppart h p (as @ [t]) r \<Longrightarrow> h t = Some bt \<Longrightarrow> h' t = Some (bt\<lparr>p_next := q\<rparr>) \<Longrightarrow> (\<And>x. x \<in> set as \<Longrightarrow> h' x = h x) \<Longrightarrow>
    h' q = Some bq \<Longrightarrow> q \<noteq> NULL \<Longrightarrow> p_next bq = NULL \<Longrightarrow> unat (p_tot_len bq) = r \<Longrightarrow> unat (p_len bq) + r' = r \<Longrightarrow>
    ppart h' p (as @ [t, q]) r'"
proof (induction as arbitrary: p)
  case (Cons a as)
  then obtain b where b: "p = a" "a \<noteq> NULL" "h a = Some b" "unat (p_tot_len b) = plen h (a # as @ [t]) + r"
    "ppart h (p_next b) (as @ [t]) r" by auto
  have ih: "ppart h' (p_next b) (as @ [t, q]) r'" using Cons.IH [OF b(5)] Cons.prems(2-) by simp
  have "plen h' (a # as @ [t, q]) + r' = plen h (a # as @ [t]) + r"
    using Cons.prems(2-5,9) plen_cong [of as h' h] by simp
  then show ?case using b ih Cons.prems(4) [of a] by simp
qed auto

text \<open>The room of a pool element behind the offset \<open>off\<close>, rounded up to an aligned address.\<close>

lemma align_size_eq: "LWIP_MEM_ALIGN_SIZE n = (n + 3) - of_nat (unat (n + 3) mod 4)"
proof -
  have "LWIP_MEM_ALIGN_SIZE n = of_nat (unat (n + 3) - unat (n + 3) mod 4)"
    unfolding LWIP_MEM_ALIGN_SIZE_def minus_mod_eq_div_mult unat_and_not_3 [symmetric] by simp
  then show ?thesis by (simp add: of_nat_diff)
qed

lemma align_size_add:
  assumes "4 dvd q"
  shows "LWIP_MEM_ALIGN_SIZE (q + n) = q + LWIP_MEM_ALIGN_SIZE n"
proof -
  have "unat (q + (n + 3)) mod 4 = (unat q + unat (n + 3)) mod 4"
    using mod_mod_cancel [of 4 "2 ^ 32" "unat q + unat (n + 3)"] by (simp add: unat_word_ariths(1) [of q])
  also have "\<dots> = unat (n + 3) mod 4" using assms by (simp add: dvd_4_u32 mod_add_eq [of "unat q" 4, symmetric])
  finally show ?thesis by (simp add: align_size_eq add.assoc)
qed

lemma unat_align_size: "unat n + 3 < 2 ^ 32 \<Longrightarrow> unat (LWIP_MEM_ALIGN_SIZE n) = (unat n + 3) div 4 * 4"
  unfolding LWIP_MEM_ALIGN_SIZE_def unat_and_not_3 by (simp add: unat_word_ariths)

definition pool_room :: "u16 \<Rightarrow> nat" where "pool_room off = 592 - (unat off + 3) div 4 * 4"

lemma align_offset: "unat (LWIP_MEM_ALIGN_SIZE (ucast (off :: u16))) = (unat off + 3) div 4 * 4"
proof -
  have "unat off + 3 < 2 ^ 32" using unat_u16_less [of off] by (simp del: unat_u16_less)
  then show ?thesis using unat_align_size [of "ucast off"] by simp
qed

lemma align_le_588: "k \<le> 588 \<Longrightarrow> (k + 3) div 4 * 4 \<le> (588 :: nat)"
  using div_le_mono [of "k + 3" 591 4] by simp

lemma pool_room:
  assumes "unat off \<le> 588"
  shows "unat (ucast (PBUF_POOL_BUFSIZE_ALIGNED - LWIP_MEM_ALIGN_SIZE (ucast off)) :: u16) = pool_room off"
    and "PBUF_POOL_BUFSIZE_ALIGNED - LWIP_MEM_ALIGN_SIZE (ucast off) \<noteq> 0" and "0 < pool_room off"
proof -
  have k: "(unat off + 3) div 4 * 4 \<le> 588" using assms by (rule align_le_588)
  then have "unat (PBUF_POOL_BUFSIZE_ALIGNED - LWIP_MEM_ALIGN_SIZE (ucast off)) = pool_room off"
    by (subst unat_sub) (simp_all add: PBUF_POOL_BUFSIZE_ALIGNED_def word_le_nat_alt align_offset pool_room_def)
  moreover have "pool_room off \<le> 592" by (simp add: pool_room_def)
  ultimately show "unat (ucast (PBUF_POOL_BUFSIZE_ALIGNED - LWIP_MEM_ALIGN_SIZE (ucast off)) :: u16) = pool_room off"
    by (simp add: unsigned_ucast_eq take_bit_eq_mod)
  show "0 < pool_room off" using k by (simp add: pool_room_def)
  then show "PBUF_POOL_BUFSIZE_ALIGNED - LWIP_MEM_ALIGN_SIZE (ucast off) \<noteq> 0"
    using \<open>unat (PBUF_POOL_BUFSIZE_ALIGNED - LWIP_MEM_ALIGN_SIZE (ucast off)) = pool_room off\<close> by (auto simp: unat_eq_0)
qed

text \<open>The data of the buffer at \<open>a\<close> lies inside of its pool element, behind the structure and the offset \<open>off\<close>.\<close>

definition in_element :: "nat \<Rightarrow> ptr \<Rightarrow> pbuf_t option \<Rightarrow> bool" where
  "in_element off a x \<longleftrightarrow> (case x of None \<Rightarrow> False | Some b \<Rightarrow> unat SIZEOF_STRUCT_PBUF + off \<le> unat (p_payload b - a) \<and>
     unat (p_payload b - a) + unat (p_len b) \<le> unat SIZEOF_STRUCT_PBUF + unat PBUF_POOL_BUFSIZE_ALIGNED)"

lemma in_element_same_data: "same_data x y \<Longrightarrow> in_element off a x = in_element off a y"
  by (cases x; cases y) (simp_all add: same_data_def in_element_def)

lemma in_element_new:
  assumes "4 dvd q" and "unat off \<le> 588" and "p_payload b = LWIP_MEM_ALIGN_SIZE (q + SIZEOF_STRUCT_PBUF + ucast off)"
    and "unat (p_len b) \<le> pool_room off"
  shows "in_element (unat off) q (Some b)"
proof -
  have "4 dvd SIZEOF_STRUCT_PBUF" by (simp add: SIZEOF_STRUCT_PBUF_def dvd_4_u32)
  then have "p_payload b - q = SIZEOF_STRUCT_PBUF + LWIP_MEM_ALIGN_SIZE (ucast off)"
    using assms(1,3) align_size_add [of "q + SIZEOF_STRUCT_PBUF" "ucast off"] by (simp add: dvd_add)
  moreover have k: "(unat off + 3) div 4 * 4 \<le> 588" using assms(2) by (rule align_le_588)
  ultimately have "unat (p_payload b - q) = 16 + (unat off + 3) div 4 * 4"
    by (simp add: SIZEOF_STRUCT_PBUF_def unat_word_ariths align_offset)
  moreover have "unat off \<le> (unat off + 3) div 4 * 4" using div_mult_mod_eq [of "unat off + 3" 4] by linarith
  ultimately show ?thesis using assms(4) k
    by (simp add: in_element_def SIZEOF_STRUCT_PBUF_def PBUF_POOL_BUFSIZE_ALIGNED_def pool_room_def)
qed

text \<open>What an allocation gives: a chain of \<open>n\<close> more bytes from the head of the free list, or nothing and every
  element is free again.\<close>

definition alloc_result :: "nat \<Rightarrow> ptr list \<Rightarrow> nat \<Rightarrow> 'x pstate \<Rightarrow> ptr \<Rightarrow> 'x pstate \<Rightarrow> bool" where
  "alloc_result off as n st r st' \<longleftrightarrow>
     (if r = NULL then (\<exists>bs rest. memp_tab st MEMP_PBUF_POOL = bs @ rest \<and> memp_tab st' = memp_tab (pool_freed (as @ bs)
          (st\<lparr>memp_tab := (memp_tab st)(MEMP_PBUF_POOL := rest)\<rparr>)) \<and> (\<forall>x. pbufs st' x = (if x \<in> set as then None else pbufs st x)))
      else (\<exists>bs. memp_tab st MEMP_PBUF_POOL = bs @ memp_tab st' MEMP_PBUF_POOL \<and> memp_tab st' MEMP_PBUF = memp_tab st MEMP_PBUF \<and>
          pchain (pbufs st') r (as @ bs) \<and> bs \<noteq> [] \<and> plen (pbufs st') bs = n \<and> pool_bufs (pbufs st') (as @ bs) \<and>
          (\<forall>x \<in> set as. same_data (pbufs st' x) (pbufs st x)) \<and>
          in_element off (hd bs) (pbufs st' (hd bs)) \<and> (\<forall>x \<in> set bs. in_element 0 x (pbufs st' x)) \<and>
          (\<forall>x. x \<notin> set (as @ bs) \<longrightarrow> pbufs st' x = pbufs st x))) \<and> heap st' = heap st"

lemma pbuf_alloc_pool_chain:
  assumes "memp_tab st MEMP_PBUF_POOL = pl" and "pool_ok st" and "ppart (pbufs st) p as (unat rem)" and "distinct as"
    and "pool_bufs (pbufs st) as" and "set as \<inter> set pl = {}" and "as \<noteq> [] \<longrightarrow> tail = last as \<and> rem \<noteq> 0"
    and "unat off \<le> 588"
  shows "\<exists>r st'. pbuf_alloc_pool M p tail rem off st = Some (r, st') \<and> alloc_result (unat off) as (unat rem) st r st'"
  using assms
proof (induction pl arbitrary: st p as rem tail off)
  case Nil
  let ?st = "st\<lparr>memp_tab := (memp_tab st)(MEMP_PBUF_POOL := [])\<rparr>"
  let ?e = "pbuf_pool_is_empty st"
  have st: "?st = st" using Nil.prems(1) by (simp add: fun_upd_idem)
  have m: "memp_malloc MEMP_PBUF_POOL st = Some (NULL, st)" using Nil.prems(1) by (simp add: memp_malloc_def)
  show ?case
  proof (cases "as = []")
    case True
    then have "pbuf_alloc_pool M p tail rem off st = Some (NULL, ?e)"
      using Nil.prems(3) m by (subst pbuf_alloc_pool.simps) simp
    then show ?thesis using True Nil.prems(1) by (auto simp: alloc_result_def pbuf_pool_is_empty_def st fun_upd_idem)
  next
    case False
    then have pn: "p \<noteq> NULL" using Nil.prems(3) by (cases as) auto
    have "pbuf_free M p ?e = Some (of_nat (length as), pool_freed as ?e)"
      using pbuf_free_loop_linked [OF ppart_plinked, of ?e] Nil.prems(3-5) pn by (simp add: pbuf_free_def pbuf_pool_is_empty_def)
    then have "pbuf_alloc_pool M p tail rem off st = Some (NULL, pool_freed as ?e)"
      using m pn by (subst pbuf_alloc_pool.simps) simp
    moreover have "alloc_result (unat off) as (unat rem) st NULL (pool_freed as ?e)"
      unfolding alloc_result_def using Nil.prems(1)
      by (auto intro!: exI [of _ "[]"] simp: st pool_freed_def pbuf_pool_is_empty_def)
    ultimately show ?thesis by blast
  qed
next
  case (Cons q pl)
  let ?room = "ucast (PBUF_POOL_BUFSIZE_ALIGNED - LWIP_MEM_ALIGN_SIZE (ucast off)) :: u16"
  define qlen where "qlen = (if rem < ?room then rem else ?room)"
  have ql: "unat qlen = min (unat rem) (pool_room off)" "unat (rem - qlen) = unat rem - unat qlen"
    using pool_room [OF Cons.prems(8)] by (auto simp: qlen_def word_less_nat_alt min_def unat_sub_if')
  define bq where "bq = \<lparr>p_next = NULL, p_payload = LWIP_MEM_ALIGN_SIZE (q + SIZEOF_STRUCT_PBUF + ucast off), p_tot_len = rem, p_len = qlen,
    p_type_internal = ucast (pbuf_type_value PBUF_POOL), p_flags = 0, p_ref = 1, p_if_idx = 0\<rparr>"
  define st1 where "st1 = st\<lparr>memp_tab := (memp_tab st)(MEMP_PBUF_POOL := pl), pbufs := (pbufs st)(q \<mapsto> bq)\<rparr>"
  have q: "q \<noteq> NULL" "pbufs st q = None" "q \<notin> set pl" "q \<notin> set as" "4 dvd q"
    using Cons.prems(1,2,6) by (auto simp: pool_ok_def)
  have st1: "pbufs st1 q = Some bq" "\<And>x. x \<noteq> q \<Longrightarrow> pbufs st1 x = pbufs st x" "memp_tab st1 MEMP_PBUF_POOL = pl"
    "memp_tab st1 MEMP_PBUF = memp_tab st MEMP_PBUF" "heap st1 = heap st"
    by (simp_all add: st1_def)
  have pb: "pool_buf bq" by (simp add: pool_buf_def bq_def PBUF_TYPE_ALLOC_SRC_MASK_def PBUF_FLAG_IS_CUSTOM_def)
  \<comment> \<open>the state after linking \<open>q\<close>\<close>
  obtain st2 p2 where st2: "(if p = NULL then Some (q, st1)
        else map_option (\<lambda>st. (p, st)) (upd_pbuf tail (\<lambda>b. b\<lparr>p_next := q\<rparr>) st1)) = Some (p2, st2)"
    and part: "ppart (pbufs st2) p2 (as @ [q]) (unat rem - unat qlen)"
    and keep: "\<forall>x. x \<notin> set (as @ [q]) \<longrightarrow> pbufs st2 x = pbufs st x" "memp_tab st2 = memp_tab st1" "heap st2 = heap st1"
    and pool: "pool_bufs (pbufs st2) (as @ [q])" and bq2: "pbufs st2 q = Some bq"
    and same2: "\<forall>x \<in> set as. same_data (pbufs st2 x) (pbufs st x)"
  proof (cases "as = []")
    case True
    then have "p = NULL" using Cons.prems(3) by simp
    moreover have "ppart (pbufs st1) q [q] (unat rem - unat qlen)"
      using q(1) st1(1) ql(1) by (simp add: bq_def)
    ultimately show thesis using that [of q st1] True st1 pb q(5) by simp
  next
    case False
    then obtain as' t where as: "as = as' @ [t]" "tail = t" using Cons.prems(7) by (metis append_butlast_last_id)
    have pn: "p \<noteq> NULL" using False Cons.prems(3) by (cases as) auto
    have tq: "t \<noteq> q" "t \<notin> set as'" using q(4) as Cons.prems(4) by auto
    obtain bt where bt: "pbufs st t = Some bt"
      using ppart_plinked [OF Cons.prems(3)] unfolding as by (induction as' arbitrary: p) auto
    define st2 where "st2 = st1\<lparr>pbufs := (pbufs st1)(t \<mapsto> bt\<lparr>p_next := q\<rparr>)\<rparr>"
    have p2: "pbufs st2 t = Some (bt\<lparr>p_next := q\<rparr>)" "\<And>x. x \<noteq> t \<Longrightarrow> pbufs st2 x = pbufs st1 x" by (simp_all add: st2_def)
    have same: "pbufs st2 x = pbufs st x" if "x \<in> set as'" for x
      using that p2(2) st1(2) tq q(4) as(1) by (metis Un_iff set_append)
    have "ppart (pbufs st2) p (as' @ [t, q]) (unat rem - unat qlen)"
      using ppart_snoc [of "pbufs st" p as' t "unat rem" bt "pbufs st2" q bq "unat rem - unat qlen"] Cons.prems(3) as(1) bt p2 same
        st1(1) tq(1) q(1) ql(1) by (auto simp: bq_def)
    moreover have "pool_bufs (pbufs st2) (as @ [q])"
      using Cons.prems(5) as(1) pool_bufs_cong [of as' "pbufs st2" "pbufs st", OF same] p2 bt st1(1) tq(1) pb q(5)
      by (simp add: pool_buf_def)
    moreover have "upd_pbuf tail (\<lambda>b. b\<lparr>p_next := q\<rparr>) st1 = Some st2"
      using bt st1(2) [OF tq(1)] as(2) by (simp add: upd_pbuf_def st2_def)
    moreover have "\<forall>x. x \<notin> set (as @ [q]) \<longrightarrow> pbufs st2 x = pbufs st x" using p2(2) st1(2) as(1) by simp
    moreover have "\<forall>x \<in> set as. same_data (pbufs st2 x) (pbufs st x)"
      using same p2(1) bt as(1) by (auto simp: same_data_def)
    moreover have "pbufs st2 q = Some bq" using p2(2) st1(1) tq(1) by metis
    ultimately show thesis using that [of p st2] pn as(1) by (simp add: st2_def)
  qed
  have alloc: "pbuf_alloc_pool M p tail rem off st =
      (if rem - qlen > 0 then pbuf_alloc_pool M p2 q (rem - qlen) 0 st2 else Some (p2, st2))"
  proof -
    let ?st = "st\<lparr>memp_tab := (memp_tab st)(MEMP_PBUF_POOL := pl)\<rparr>"
    have m: "memp_malloc MEMP_PBUF_POOL st = Some (q, ?st)" using Cons.prems(1) q(5) by (simp add: memp_malloc_def)
    have init: "pbuf_init_alloced_pbuf q (LWIP_MEM_ALIGN_SIZE (q + SIZEOF_STRUCT_PBUF + ucast off)) rem qlen PBUF_POOL 0 ?st = st1"
      by (simp add: pbuf_init_alloced_pbuf_def st1_def bq_def)
    note room = pool_room(2) [OF Cons.prems(8)]
    show ?thesis
      by (subst pbuf_alloc_pool.simps)
        (simp only: m prod.case q(1) room if_False Let_def init st2 option.case simp_thms flip: qlen_def)
  qed
  have "in_element (unat off) q (Some bq)"
    using in_element_new [OF q(5) Cons.prems(8), of bq] ql(1) by (simp add: bq_def)
  then have el: "in_element (unat off) q (Some bq)" "in_element 0 q (Some bq)" by (simp_all add: in_element_def)
  have p2: "p2 \<noteq> NULL" using part by (cases as) auto
  show ?case
  proof (cases "rem - qlen > 0")
    case False
    then have "unat rem = unat qlen" using ql by (simp add: word_less_nat_alt min_def split: if_splits)
    then have "pchain (pbufs st2) p2 (as @ [q])" "plen (pbufs st2) [q] = unat rem"
      using part bq2 by (simp_all add: ppart_pchain) (simp add: bq_def)
    then have "alloc_result (unat off) as (unat rem) st p2 st2"
      unfolding alloc_result_def using p2 pool keep same2 Cons.prems(1) st1(3-5) bq2 el
      by (simp only: if_False) (intro conjI exI [of _ "[q]"]; simp)
    then show ?thesis using alloc False by auto
  next
    case True
    have ne: "rem \<noteq> qlen" using True by auto
    have "pool_ok st2" using Cons.prems(1,2,6) keep(1,2) q(3) st1(3) by (auto simp: pool_ok_def)
    moreover have "ppart (pbufs st2) p2 (as @ [q]) (unat (rem - qlen))" using part ql(2) by simp
    ultimately obtain r st' where r: "pbuf_alloc_pool M p2 q (rem - qlen) 0 st2 = Some (r, st')"
      "alloc_result (unat (0 :: u16)) (as @ [q]) (unat (rem - qlen)) st2 r st'"
      using Cons.IH [of st2 p2 "as @ [q]" "rem - qlen" q 0] keep(2) st1(3) Cons.prems(4,6) q pool ne by auto
    have "alloc_result (unat off) as (unat rem) st r st'"
    proof (cases "r = NULL")
      case True
      then obtain bs rest where bs: "memp_tab st2 MEMP_PBUF_POOL = bs @ rest"
          "memp_tab st' = memp_tab (pool_freed ((as @ [q]) @ bs) (st2\<lparr>memp_tab := (memp_tab st2)(MEMP_PBUF_POOL := rest)\<rparr>))"
          "\<forall>x. pbufs st' x = (if x \<in> set (as @ [q]) then None else pbufs st2 x)" "heap st' = heap st2"
        using r(2) unfolding alloc_result_def by auto
      have "memp_tab st' t = memp_tab (pool_freed (as @ q # bs) (st\<lparr>memp_tab := (memp_tab st)(MEMP_PBUF_POOL := rest)\<rparr>)) t" for t
        using bs(2) keep(2) st1(4) by (cases t) (simp_all add: pool_freed_def)
      moreover have "\<forall>x. pbufs st' x = (if x \<in> set as then None else pbufs st x)"
        using bs(3) keep(1) q(2) by auto
      moreover have "memp_tab st MEMP_PBUF_POOL = (q # bs) @ rest" using Cons.prems(1) keep(2) st1(3) bs(1) by simp
      ultimately have "\<exists>bs rest. memp_tab st MEMP_PBUF_POOL = bs @ rest \<and> memp_tab st' = memp_tab (pool_freed (as @ bs)
          (st\<lparr>memp_tab := (memp_tab st)(MEMP_PBUF_POOL := rest)\<rparr>)) \<and> (\<forall>x. pbufs st' x = (if x \<in> set as then None else pbufs st x))"
        by (intro exI [of "\<lambda>bs. \<exists>rest. _ bs rest" "q # bs"] exI [of _ rest]) (simp add: fun_eq_iff)
      then show ?thesis using True keep(3) st1(5) bs(4) unfolding alloc_result_def by simp
    next
      case False
      then obtain bs where bs: "memp_tab st2 MEMP_PBUF_POOL = bs @ memp_tab st' MEMP_PBUF_POOL"
          "memp_tab st' MEMP_PBUF = memp_tab st2 MEMP_PBUF" "pchain (pbufs st') r ((as @ [q]) @ bs)" "bs \<noteq> []"
          "plen (pbufs st') bs = unat (rem - qlen)" "pool_bufs (pbufs st') ((as @ [q]) @ bs)"
          "\<forall>x \<in> set (as @ [q]). same_data (pbufs st' x) (pbufs st2 x)" "\<forall>x \<in> set bs. in_element 0 x (pbufs st' x)"
          "\<forall>x. x \<notin> set ((as @ [q]) @ bs) \<longrightarrow> pbufs st' x = pbufs st2 x" "heap st' = heap st2"
        using r(2) unfolding alloc_result_def by auto
      have same: "same_data (pbufs st' q) (Some bq)" using bs(7) bq2 by (metis in_set_conv_decomp)
      have el': "in_element (unat off) q (pbufs st' q)" "\<forall>x \<in> set (q # bs). in_element 0 x (pbufs st' x)"
        using el in_element_same_data [OF same] bs(8) by simp_all
      from same have "p_len (the (pbufs st' q)) = qlen" using same_data_fields by (fastforce simp: bq_def)
      then have "plen (pbufs st') (q # bs) = unat rem" using bs(5) ql by simp
      moreover have "same_data (pbufs st' x) (pbufs st x)" if "x \<in> set as" for x
        using that bs(7) same2 same_data_trans by fastforce
      ultimately show ?thesis using False bs keep Cons.prems(1) st1(3-5) el'
        unfolding alloc_result_def by (simp only: if_False) (intro conjI exI [of _ "q # bs"]; simp)
    qed
    then show ?thesis using alloc True r(1) by auto
  qed
qed

subsection \<open>Filling a chain\<close>

text \<open>No two buffers of the chain share memory.\<close>

primrec payload_separate :: "(ptr \<Rightarrow> pbuf_t option) \<Rightarrow> ptr list \<Rightarrow> bool" where
  "payload_separate h [] \<longleftrightarrow> True"
| "payload_separate h (a # as) \<longleftrightarrow>
     payload_disjoint h as (p_payload (the (h a))) (unat (p_len (the (h a)))) \<and>
     (\<forall>c \<in> set as. ranges_disjoint (p_payload (the (h a))) (unat (p_len (the (h a))))
        (p_payload (the (h c))) (unat (p_len (the (h c))))) \<and>
     payload_separate h as"

definition in_payload :: "(ptr \<Rightarrow> pbuf_t option) \<Rightarrow> ptr list \<Rightarrow> ptr \<Rightarrow> bool" where
  "in_payload h ps x \<longleftrightarrow> (\<exists>a \<in> set ps. in_range x (p_payload (the (h a))) (unat (p_len (the (h a)))))"

lemma ranges_disjoint_cong:
  "ranges_disjoint a n b k \<Longrightarrow> (\<And>x. \<not> in_range x b k \<Longrightarrow> m' x = m x) \<Longrightarrow> rdbytes m' a n = rdbytes m a n"
  by (rule rdbytes_cong) (simp add: ranges_disjoint_def)

lemma pbuf_take_loop_chain:
  "pchain (pbufs st) p ps \<Longrightarrow> payload_separate (pbufs st) ps \<Longrightarrow>
    (\<forall>a \<in> set ps. ranges_disjoint (d + c) (unat len) (p_payload (the (pbufs st a))) (unat (p_len (the (pbufs st a))))) \<Longrightarrow>
    unat len \<le> plen (pbufs st) ps \<Longrightarrow>
    \<exists>m'. pbuf_take_loop st p d len c m = Some m' \<and>
      pbytes (pbufs st) m' ps = rdbytes m (d + c) (unat len) @ drop (unat len) (pbytes (pbufs st) m ps) \<and>
      (\<forall>x. \<not> in_payload (pbufs st) ps x \<longrightarrow> m' x = m x)"
proof (induction ps arbitrary: p len c m)
  case Nil
  then show ?case by (subst pbuf_take_loop.simps) (simp add: unat_eq_0)
next
  case (Cons a ps)
  then obtain b where b: "p = a" "a \<noteq> NULL" "pbufs st a = Some b" "pchain (pbufs st) (p_next b) ps" by auto
  show ?case
  proof (cases "len = 0")
    case True
    then show ?thesis by (subst pbuf_take_loop.simps) simp
  next
    case False
    define k where "k = (if len > ucast (p_len b) then ucast (p_len b) else len)"
    have k: "unat k = min (unat len) (unat (p_len b))" "unat (len - k) = unat len - unat k"
      by (auto simp: k_def word_less_nat_alt min_def unat_sub_if')
    let ?bs = "rdbytes m (d + c) (unat k)"
    define m1 where "m1 = wrbytes m (p_payload b) ?bs"
    have m1: "m1 x = m x" if "\<not> in_range x (p_payload b) (unat (p_len b))" for x
      using that k(1) unfolding m1_def by (intro wrbytes_not_in_range) (auto simp: in_range_def)
    have step: "pbuf_take_loop st p d len c m = pbuf_take_loop st (p_next b) d (len - k) (c + k) m1"
      using False b by (subst pbuf_take_loop.simps) (simp add: k_def m1_def memcpy_def Let_def)
    have src: "ranges_disjoint (d + c) (unat len) (p_payload (the (pbufs st x))) (unat (p_len (the (pbufs st x))))"
      if "x \<in> set (a # ps)" for x using that Cons.prems(3) by blast
    have sub: "ranges_disjoint (d + (c + k)) (unat (len - k)) q n" if "ranges_disjoint (d + c) (unat len) q n" for q n
    proof -
      have "unat k + unat (len - k) \<le> unat len" using k by simp
      then show ?thesis using ranges_disjoint_sub [OF that, of "unat k" "unat (len - k)" 0 n] by (simp add: add.assoc)
    qed
    have src': "\<forall>x \<in> set ps. ranges_disjoint (d + (c + k)) (unat (len - k)) (p_payload (the (pbufs st x))) (unat (p_len (the (pbufs st x))))"
      using src by (intro ballI sub) simp
    have le: "unat (len - k) \<le> plen (pbufs st) ps" using Cons.prems(4) k b(3) by (auto simp: min_def)
    have sep: "payload_separate (pbufs st) ps" using Cons.prems(2) by simp
    from Cons.IH [OF b(4) sep src' le, of m1] obtain m' where m': "pbuf_take_loop st (p_next b) d (len - k) (c + k) m1 = Some m'"
        "pbytes (pbufs st) m' ps = rdbytes m1 (d + (c + k)) (unat (len - k)) @ drop (unat (len - k)) (pbytes (pbufs st) m1 ps)"
        "\<forall>x. \<not> in_payload (pbufs st) ps x \<longrightarrow> m' x = m1 x" by blast
    have "ranges_disjoint (d + (c + k)) (unat (len - k)) (p_payload b) (unat (p_len b))"
      using src [of a] b(3) by (intro sub) simp
    then have r1: "rdbytes m1 (d + (c + k)) (unat (len - k)) = rdbytes m (d + (c + k)) (unat (len - k))"
      using m1 by (rule ranges_disjoint_cong)
    have p1: "pbytes (pbufs st) m1 ps = pbytes (pbufs st) m ps"
      using Cons.prems(2) b(3) m1 by (intro pbytes_mem_cong ranges_disjoint_cong [of _ _ "p_payload b" "unat (p_len b)"])
        (auto simp: payload_disjoint_def)
    have "\<not> in_payload (pbufs st) ps (p_payload b + of_nat i)" if "i < unat (p_len b)" for i
      using Cons.prems(2) b(3) that by (auto simp: in_payload_def ranges_disjoint_def)
    then have a': "rdbytes m' (p_payload b) (unat (p_len b)) = rdbytes m1 (p_payload b) (unat (p_len b))"
      using m'(3) by (intro rdbytes_cong) simp
    have "rdbytes m1 (p_payload b) (unat (p_len b)) = ?bs @ drop (unat k) (rdbytes m (p_payload b) (unat (p_len b)))"
      using rdbytes_wrbytes_put [of 0 ?bs "unat (p_len b)" m "p_payload b"] k(1) unat_u16_less [of "p_len b"]
      by (simp add: m1_def put_bytes_def)
    then have hd: "rdbytes m' (p_payload b) (unat (p_len b)) = ?bs @ drop (unat k) (rdbytes m (p_payload b) (unat (p_len b)))"
      by (simp only: a')
    have split: "rdbytes m (d + c) (unat len) = ?bs @ rdbytes m (d + (c + k)) (unat (len - k))"
    proof -
      have "unat len = unat k + unat (len - k)" using k by simp
      then have "rdbytes m (d + c) (unat len) = rdbytes m (d + c) (unat k + unat (len - k))" by (rule arg_cong)
      also have "\<dots> = ?bs @ rdbytes m (d + c + of_nat (unat k)) (unat (len - k))" by (rule rdbytes_add)
      also have "d + c + of_nat (unat k) = d + (c + k)" by (simp add: add.assoc)
      finally show ?thesis .
    qed
    have "pbytes (pbufs st) m' (a # ps) = rdbytes m (d + c) (unat len) @ drop (unat len) (pbytes (pbufs st) m (a # ps))"
    proof (cases "unat len \<le> unat (p_len b)")
      case True
      then have "k = len" using k(1) by (simp add: word_unat_eq_iff)
      then show ?thesis using True m'(2) hd b(3) p1 by simp
    next
      case False
      then have "unat k = unat (p_len b)" using k by simp
      then show ?thesis using False m'(2) hd b(3) p1 r1 k(2) unfolding split by simp
    qed
    moreover have "\<forall>x. \<not> in_payload (pbufs st) (a # ps) x \<longrightarrow> m' x = m x"
      using m'(3) m1 b(3) by (simp add: in_payload_def)
    ultimately show ?thesis using step m'(1) by auto
  qed
qed

subsection \<open>Properties\<close>

text \<open>(C27) Buffers are not lost: for a layer whose headers leave room in a pool element (up to 588 bytes), an allocation from the pool returns.
  Either it gives a chain of the requested length, in which the data of every buffer lies inside of its pool element behind the structure, and that of
  the first one behind the room for the headers; freeing this chain gives all its elements back. Or it gives nothing. In both cases the packet buffers are then as before and the
  pool has the same free elements.\<close>

theorem pbuf_alloc_free_roundtrip:
  assumes "pool_ok st" and "unat layer \<le> 588"
  shows "\<exists>r st'. pbuf_alloc M layer n PBUF_POOL st = Some (r, st') \<and>
    (if r = NULL then pbufs st' = pbufs st \<and> mset (memp_tab st' MEMP_PBUF_POOL) = mset (memp_tab st MEMP_PBUF_POOL)
     else \<exists>ps k st''. pchain (pbufs st') r ps \<and> plen (pbufs st') ps = unat n \<and>
       set ps \<subseteq> set (memp_tab st MEMP_PBUF_POOL) \<and>
       in_element (unat layer) r (pbufs st' r) \<and> (\<forall>a \<in> set ps. in_element 0 a (pbufs st' a)) \<and>
       pbuf_free M r st' = Some (k, st'') \<and>
       pbufs st'' = pbufs st \<and> mset (memp_tab st'' MEMP_PBUF_POOL) = mset (memp_tab st MEMP_PBUF_POOL))"
proof -
  obtain r st' where r: "pbuf_alloc_pool M NULL NULL n layer st = Some (r, st')" "alloc_result (unat layer) [] (unat n) st r st'"
    using pbuf_alloc_pool_chain [OF refl assms(1), of NULL "[]" n NULL layer M] assms(2) by auto
  show ?thesis
  proof (cases "r = NULL")
    case True
    then show ?thesis using r by (auto simp: pbuf_alloc_def alloc_result_def pool_freed_def fun_eq_iff)
  next
    case False
    then obtain bs where bs: "memp_tab st MEMP_PBUF_POOL = bs @ memp_tab st' MEMP_PBUF_POOL" "pchain (pbufs st') r bs"
        "plen (pbufs st') bs = unat n" "pool_bufs (pbufs st') bs" "\<forall>x. x \<notin> set bs \<longrightarrow> pbufs st' x = pbufs st x"
        "in_element (unat layer) (hd bs) (pbufs st' (hd bs))" "\<forall>x \<in> set bs. in_element 0 x (pbufs st' x)" "bs \<noteq> []"
      using r(2) by (auto simp: alloc_result_def)
    have hd: "hd bs = r" using bs(2,8) by (cases bs) auto
    have "pbufs st x = None" if "x \<in> set bs" for x using that assms(1) bs(1) by (simp add: pool_ok_def)
    then have "pbufs (pool_freed bs st') = pbufs st" using bs(5) by (auto simp: fun_eq_iff)
    moreover have "mset (memp_tab (pool_freed bs st') MEMP_PBUF_POOL) = mset (memp_tab st MEMP_PBUF_POOL)"
      using bs(1) by (simp add: pool_freed_def)
    moreover have "set bs \<subseteq> set (memp_tab st MEMP_PBUF_POOL)" using bs(1) by auto
    ultimately show ?thesis
      using r(1) False bs(2,3,7) bs(6) [unfolded hd] pbuf_free_chain [OF bs(2) False bs(4), of M]
      by (auto simp: pbuf_alloc_def)
  qed
qed

definition demo_api :: "unit mem_api" where
  "demo_api = \<lparr>api_malloc = (\<lambda>_ _. Some (NULL, ())), api_free = (\<lambda>_ x. Some x), api_trim = (\<lambda>p _ x. Some (p, x)), custom_free_function = (\<lambda>_ x. x)\<rparr>"

definition demo_pool :: "unit pstate" where
  "demo_pool = \<lparr>pbufs = (\<lambda>_. None), memp_tab = (\<lambda>t. if t = MEMP_PBUF_POOL then [0x1000, 0x2000] else []), pbuf_free_ooseq_pending = 0, heap = ()\<rparr>"

lemma demo_pool_ok: "pool_ok demo_pool"
  by (simp add: pool_ok_def demo_pool_def dvd_4_u32)

text \<open>(C27) Witness: a pool of two elements and a request of 600 bytes behind 14 bytes for a header.\<close>

theorem pbuf_alloc_free_roundtrip_witness:
  "\<exists>r st' k st''. pbuf_alloc demo_api 14 600 PBUF_POOL demo_pool = Some (r, st') \<and> r \<noteq> NULL \<and>
    in_element 14 r (pbufs st' r) \<and> pbuf_free demo_api r st' = Some (k, st'') \<and> pbufs st'' = pbufs demo_pool"
proof -
  have "\<exists>st'. pbuf_alloc demo_api 14 600 PBUF_POOL demo_pool = Some (0x1000, st')"
    by (simp add: pbuf_alloc_def demo_pool_def pbuf_alloc_pool.simps memp_malloc_def dvd_4_u32 pbuf_init_alloced_pbuf_def upd_pbuf_def
        PBUF_POOL_BUFSIZE_ALIGNED_def LWIP_MEM_ALIGN_SIZE_def Let_def)
  then show ?thesis using pbuf_alloc_free_roundtrip [OF demo_pool_ok, of 14 demo_api 600] by auto
qed

text \<open>(C36) The search in a chain is the search in its bytes, wherever the buffers are cut: \<open>pbuf_memfind\<close> returns the first
  position from \<open>start\<close> on where the pattern occurs, and 0xFFFF when there is none.\<close>

theorem pbuf_memfind_first:
  assumes "pchain (pbufs st) p ps" and "p \<noteq> NULL" and "pat \<noteq> []"
  shows "\<exists>r. pbuf_memfind st m p pat start = Some r \<and>
    (let bs = pbytes (pbufs st) m ps in
     if r = 0xFFFF then \<forall>i \<ge> unat start. i + length pat \<le> length bs \<longrightarrow> take (length pat) (drop i bs) \<noteq> pat
     else unat start \<le> unat r \<and> take (length pat) (drop (unat r) bs) = pat \<and>
       (\<forall>i. unat start \<le> i \<longrightarrow> i < unat r \<longrightarrow> take (length pat) (drop i bs) \<noteq> pat))"
proof (cases "first_index pat (pbytes (pbufs st) m ps) (unat start)")
  case None
  then have "take (length pat) (drop i (pbytes (pbufs st) m ps)) \<noteq> pat"
    if "unat start \<le> i" "i + length pat \<le> plen (pbufs st) ps" for i
    using that by (auto simp: first_index_def find_None_iff occurs_at_def Suc_diff_le)
  then show ?thesis using pbuf_memfind_chain [OF assms, of m start] None by (simp add: Let_def)
next
  case (Some k)
  have k: "unat start \<le> k" "k < Suc (plen (pbufs st) ps) - length pat" "occurs_at pat (pbytes (pbufs st) m ps) k"
    "\<forall>i. unat start \<le> i \<longrightarrow> i < k \<longrightarrow> \<not> occurs_at pat (pbytes (pbufs st) m ps) i"
    using first_index_SomeD [OF Some] by simp_all
  have "k < 65535" using k(2) pchain_len [OF assms(1)] assms(3) by (cases pat) auto
  then have "unat (of_nat k :: u16) = k" "(of_nat k :: u16) \<noteq> 0xFFFF"
    by (simp_all add: unat_of_nat word_unat_eq_iff)
  then show ?thesis using pbuf_memfind_chain [OF assms, of m start] Some k by (simp add: Let_def occurs_at_def)
qed

definition demo_chain :: "unit pstate" where
  "demo_chain = demo_pool\<lparr>pbufs := [0x10 \<mapsto> \<lparr>p_next = 0x20, p_payload = 0x100, p_tot_len = 5, p_len = 3, p_type_internal = 0x82,
       p_flags = 0, p_ref = 1, p_if_idx = 0\<rparr>,
     0x20 \<mapsto> \<lparr>p_next = NULL, p_payload = 0x200, p_tot_len = 2, p_len = 2, p_type_internal = 0x82,
       p_flags = 0, p_ref = 1, p_if_idx = 0\<rparr>]\<rparr>"

lemma demo_chain_ok: "pchain (pbufs demo_chain) 0x10 [0x10, 0x20]"
  by (simp add: demo_chain_def)

text \<open>(C36) Witness: a pattern across the border of two buffers.\<close>

theorem pbuf_memfind_first_witness:
  "\<exists>r. pbuf_memfind demo_chain (\<lambda>a. ucast a) 0x10 [2, 0] 0 = Some r \<and>
    (let bs = [0, 1, 2, 0, 1] :: u8 list in
     if r = 0xFFFF then \<forall>i \<ge> unat (0 :: u16). i + length [2, 0 :: u8] \<le> length bs \<longrightarrow> take (length [2, 0 :: u8]) (drop i bs) \<noteq> [2, 0]
     else unat (0 :: u16) \<le> unat r \<and> take (length [2, 0 :: u8]) (drop (unat r) bs) = [2, 0] \<and>
       (\<forall>i. unat (0 :: u16) \<le> i \<longrightarrow> i < unat r \<longrightarrow> take (length [2, 0 :: u8]) (drop i bs) \<noteq> [2, 0]))"
proof -
  have b: "pbytes (pbufs demo_chain) (\<lambda>a. ucast a) [0x10, 0x20] = [0, 1, 2, 0, 1]"
    by (simp add: demo_chain_def rdbytes_numeral)
  show ?thesis
    using pbuf_memfind_first [OF demo_chain_ok, of "[2, 0]" "\<lambda>a. ucast a" 0, unfolded b] by simp
qed

end
