(* ===== verification/Http_Parse.thy ===== *)
theory Http_Parse
  imports Pbuf_Chain "HOL-Library.Monad_Syntax"
begin

text \<open>
  The parsing of a response in the HTTP client of lwIP (http_client.c, \<open>http_parse_response_status\<close> and
  \<open>http_wait_headers\<close>): the status line and the header lines are searched in the chain of the packet buffers
  received so far, the numbers are copied to arrays on the stack. The arrays are ranges of the memory, so that a
  number that is too long overwrites what is behind them.

  For a response whose numbers fit, the functions do on every chain what the list functions \<open>status_line\<close> and
  \<open>content_length\<close> do on its bytes. These depend only on the bytes up to the end of the header.
\<close>

subsection \<open>Numbers\<close>

text \<open>\<open>atoi\<close> of the C library: white space, a sign, digits. A number that does not fit an \<open>int\<close> is
  undefined in C; the library of the tool chain saturates.\<close>

definition is_space :: "u8 \<Rightarrow> bool" where
  "is_space c \<longleftrightarrow> c = 0x20 \<or> 9 \<le> c \<and> c \<le> 13"

definition is_digit :: "u8 \<Rightarrow> bool" where
  "is_digit c \<longleftrightarrow> 0x30 \<le> c \<and> c \<le> 0x39"

definition int_sat :: "int \<Rightarrow> int" where
  "int_sat i = max (- (2 ^ 31)) (min (2 ^ 31 - 1) i)"

partial_function (option) atoi_skip :: "memory \<Rightarrow> ptr \<Rightarrow> ptr option" where
  "atoi_skip m a = (if is_space (m a) then atoi_skip m (a + 1) else Some a)"

partial_function (option) atoi_digits :: "memory \<Rightarrow> ptr \<Rightarrow> int \<Rightarrow> int option" where
  "atoi_digits m a acc = (if is_digit (m a) then atoi_digits m (a + 1) (10 * acc + (uint (m a) - 0x30)) else Some acc)"

definition atoi :: "memory \<Rightarrow> ptr \<Rightarrow> int option" where
  "atoi m a =
     (case atoi_skip m a of
        None \<Rightarrow> None
      | Some a \<Rightarrow>
          map_option int_sat
            (if m a = 0x2D then map_option uminus (atoi_digits m (a + 1) 0)
             else if m a = 0x2B then atoi_digits m (a + 1) 0
             else atoi_digits m a 0))"

subsection \<open>Status line\<close>

abbreviation CRLF :: "u8 list" where
  "CRLF \<equiv> [0x0D, 0x0A]"

text \<open>The variables behind the pointers \<open>http_version\<close>, \<open>http_status\<close> and \<open>http_status_str_offset\<close>
  are passed in and out. \<open>num\<close> is the address of \<open>status_num\<close>. \<open>status_num_len\<close> is computed in \<open>int\<close> and converted
  to \<open>size_t\<close>.\<close>

record status_out =
  so_version :: u16
  so_status :: u16
  so_str_offset :: u16

definition http_status_num ::
    "ptr \<Rightarrow> 'x pstate \<Rightarrow> ptr \<Rightarrow> u32 \<Rightarrow> u16 \<Rightarrow> status_out \<Rightarrow> memory \<Rightarrow> (err_t \<times> status_out \<times> memory) option" where
  "http_status_num num st p status_num_len offset out m =
     do {
       (n, m) \<leftarrow> pbuf_copy_partial st p num (ucast status_num_len) offset (memset m num 0 10);
       if ucast n = status_num_len then do {
         status \<leftarrow> atoi m num;
         if 0 < status \<and> status \<le> 0xFFFF then Some (ERR_OK, out\<lparr>so_status := of_int status\<rparr>, m)
         else Some (ERR_VAL, out, m)
       } else Some (ERR_VAL, out, m)
     }"

definition http_parse_response_status ::
    "ptr \<Rightarrow> 'x pstate \<Rightarrow> ptr \<Rightarrow> status_out \<Rightarrow> memory \<Rightarrow> (err_t \<times> status_out \<times> memory) option" where
  "http_parse_response_status num st p out m =
     do {
       end1 \<leftarrow> pbuf_memfind st m p CRLF 0;
       if end1 \<noteq> 0xFFFF then do {
         space1 \<leftarrow> pbuf_memfind st m p [0x20] 0;
         if space1 \<noteq> 0xFFFF then do {
           cmp \<leftarrow> pbuf_memcmp st m p 0 (ascii ''HTTP/'');
           dot \<leftarrow> pbuf_get_at st m p 6;
           if cmp = 0 \<and> dot = 0x2E then do {
             v1 \<leftarrow> pbuf_get_at st m p 5;
             v2 \<leftarrow> pbuf_get_at st m p 7;
             let version = push_bit 8 (ucast v1 - 0x30) OR (ucast v2 - 0x30);
             let out = out\<lparr>so_version := version\<rparr>;
             space2 \<leftarrow> pbuf_memfind st m p [0x20] (space1 + 1);
             let (out, status_num_len) =
               (if space2 \<noteq> 0xFFFF then (out\<lparr>so_str_offset := space2 + 1\<rparr>, ucast space2 - ucast space1 - 1 :: u32)
                else (out, ucast end1 - ucast space1 - 1));
             http_status_num num st p status_num_len (space1 + 1) out m
           } else Some (ERR_VAL, out, m)
         } else Some (ERR_VAL, out, m)
       } else Some (ERR_VAL, out, m)
     }"

subsection \<open>Headers\<close>

definition HTTPC_CONTENT_LEN_INVALID :: u32 where "HTTPC_CONTENT_LEN_INVALID = 0xFFFFFFFF"

text \<open>\<open>num\<close> is the address of \<open>content_len_num\<close>; the result has the variables behind \<open>content_length\<close> and
  \<open>total_header_len\<close>.\<close>

definition http_wait_headers ::
    "ptr \<Rightarrow> 'x pstate \<Rightarrow> ptr \<Rightarrow> u32 \<Rightarrow> u16 \<Rightarrow> memory \<Rightarrow> (err_t \<times> u32 \<times> u16 \<times> memory) option" where
  "http_wait_headers num st p content_length total_header_len m =
     do {
       end1 \<leftarrow> pbuf_memfind st m p (CRLF @ CRLF) 0;
       if end1 < 0xFFFF - 2 then do {
         let content_length = HTTPC_CONTENT_LEN_INVALID;
         let total_header_len = end1 + 4;
         content_len_hdr \<leftarrow> pbuf_memfind st m p (ascii ''Content-Length: '') 0;
         if content_len_hdr \<noteq> 0xFFFF then do {
           content_len_line_end \<leftarrow> pbuf_memfind st m p CRLF content_len_hdr;
           if content_len_line_end \<noteq> 0xFFFF then do {
             let content_len_num_len = content_len_line_end - content_len_hdr - 16;
             (n, m) \<leftarrow> pbuf_copy_partial st p num content_len_num_len (content_len_hdr + 16) (memset m num 0 16);
             if n = content_len_num_len then do {
               len \<leftarrow> atoi m num;
               Some (ERR_OK, if 0 \<le> len \<and> (of_int len :: u32) < HTTPC_CONTENT_LEN_INVALID then of_int len else content_length,
                 total_header_len, m)
             } else Some (ERR_OK, content_length, total_header_len, m)
           } else Some (ERR_OK, content_length, total_header_len, m)
         } else Some (ERR_OK, content_length, total_header_len, m)
       } else Some (ERR_VAL, content_length, total_header_len, m)
     }"

subsection \<open>Numbers in a list\<close>

definition dec_value :: "int \<Rightarrow> u8 list \<Rightarrow> int" where
  "dec_value acc ds = foldl (\<lambda>a d. 10 * a + (uint d - 0x30)) acc ds"

definition digits_value :: "u8 list \<Rightarrow> int" where
  "digits_value bs = dec_value 0 (takeWhile is_digit bs)"

definition atoi_list :: "u8 list \<Rightarrow> int" where
  "atoi_list bs = int_sat
     (case dropWhile is_space bs of
        [] \<Rightarrow> 0
      | c # cs \<Rightarrow> if c = 0x2D then - digits_value cs else if c = 0x2B then digits_value cs else digits_value (c # cs))"

lemma is_space_0 [simp]: "\<not> is_space 0" "\<not> is_digit 0"
  by (simp_all add: is_space_def is_digit_def word_le_nat_alt)

lemma atoi_skip_list:
  "rdbytes m a (Suc (length bs)) = bs @ [0] \<Longrightarrow> \<exists>b. atoi_skip m a = Some b \<and>
    rdbytes m b (Suc (length (dropWhile is_space bs))) = dropWhile is_space bs @ [0]"
proof (induction bs arbitrary: a)
  case Nil
  then show ?case by (subst atoi_skip.simps) simp
next
  case (Cons c bs)
  then show ?case by (subst atoi_skip.simps) (cases "is_space c", auto)
qed

lemma atoi_digits_list:
  "rdbytes m a (Suc (length bs)) = bs @ [0] \<Longrightarrow> atoi_digits m a acc = Some (dec_value acc (takeWhile is_digit bs))"
proof (induction bs arbitrary: a acc)
  case Nil
  then show ?case by (subst atoi_digits.simps) (simp add: dec_value_def)
next
  case (Cons c bs)
  then show ?case by (subst atoi_digits.simps) (simp add: dec_value_def)
qed

lemma atoi_list:
  assumes "rdbytes m a (Suc (length bs)) = bs @ [0]"
  shows "atoi m a = Some (atoi_list bs)"
proof -
  define cs where "cs = dropWhile is_space bs"
  obtain b where b: "atoi_skip m a = Some b" "rdbytes m b (Suc (length cs)) = cs @ [0]"
    using atoi_skip_list [OF assms] by (auto simp: cs_def)
  have "atoi_list bs = int_sat (case cs of [] \<Rightarrow> 0
      | c # cs \<Rightarrow> if c = 0x2D then - digits_value cs else if c = 0x2B then digits_value cs else digits_value (c # cs))"
    by (simp add: atoi_list_def cs_def)
  then show ?thesis using b atoi_digits_list [of m b cs] atoi_digits_list [of m "b + 1" "tl cs"]
    by (cases cs) (auto simp: atoi_def digits_value_def dec_value_def)
qed

text \<open>A number that was copied into a cleared array with room for a zero behind it.\<close>

lemma atoi_copied:
  assumes "length bs < n" and "n \<le> 2 ^ 32"
  shows "atoi (wrbytes (memset m a 0 n) a bs) a = Some (atoi_list bs)"
proof (rule atoi_list)
  have "rdbytes (wrbytes (memset m a 0 n) (a + of_nat 0) bs) a n = put_bytes (rdbytes (memset m a 0 n) a n) 0 bs"
    using assms by (intro rdbytes_wrbytes_put) simp_all
  moreover have "rdbytes (memset m a 0 n) a n = replicate n 0"
    using rdbytes_wrbytes [of "replicate n 0" m a] assms(2) by (simp add: memset_def)
  ultimately have "rdbytes (wrbytes (memset m a 0 n) a bs) a n = bs @ replicate (n - length bs) 0"
    by (simp add: put_bytes_def)
  then have "take (Suc (length bs)) (rdbytes (wrbytes (memset m a 0 n) a bs) a n) = bs @ [0]"
    using assms(1) by (cases "n - length bs") simp_all
  then show "rdbytes (wrbytes (memset m a 0 n) a bs) a (Suc (length bs)) = bs @ [0]"
    using assms(1) by (simp add: take_rdbytes)
qed

subsection \<open>The parser on a list\<close>

text \<open>The same on the list of the bytes. \<open>status_fits\<close> says that the number of the status line is shorter than the
  array; in a line without a second space the number ends with the line.\<close>

definition status_number :: "u8 list \<Rightarrow> (nat \<times> nat) option" where
  "status_number bs =
     (case (first_index CRLF bs 0, first_index [0x20] bs 0) of
        (Some e, Some i) \<Rightarrow> Some (i, case first_index [0x20] bs (Suc i) of Some j \<Rightarrow> j | None \<Rightarrow> e)
      | _ \<Rightarrow> None)"

definition is_http :: "u8 list \<Rightarrow> bool" where
  "is_http bs \<longleftrightarrow> 6 < length bs \<and> take 5 bs = ascii ''HTTP/'' \<and> bs ! 6 = 0x2E"

definition status_fits :: "u8 list \<Rightarrow> bool" where
  "status_fits bs \<longleftrightarrow>
     (case status_number bs of None \<Rightarrow> True | Some (i, j) \<Rightarrow> is_http bs \<longrightarrow> i < j \<and> j - i - 1 < 10)"

definition status_value :: "u8 list \<Rightarrow> nat \<Rightarrow> nat \<Rightarrow> int" where
  "status_value bs i j = atoi_list (take (j - i - 1) (drop (Suc i) bs))"

definition status_line :: "u8 list \<Rightarrow> status_out \<Rightarrow> err_t \<times> status_out" where
  "status_line bs out =
     (case status_number bs of
        None \<Rightarrow> (ERR_VAL, out)
      | Some (i, j) \<Rightarrow>
          if is_http bs then
            let v2 = (if 7 < length bs then bs ! 7 else 0);
                out = out\<lparr>so_version := push_bit 8 (ucast (bs ! 5) - 0x30) OR (ucast v2 - 0x30)\<rparr>;
                out = (if first_index [0x20] bs (Suc i) = None then out else out\<lparr>so_str_offset := of_nat j + 1\<rparr>) in
            if 0 < status_value bs i j \<and> status_value bs i j \<le> 0xFFFF
            then (ERR_OK, out\<lparr>so_status := of_int (status_value bs i j)\<rparr>) else (ERR_VAL, out)
          else (ERR_VAL, out))"

lemma memfind_cases:
  assumes "pchain (pbufs st) p ps" and "p \<noteq> NULL"
  obtains (None) "first_index (c # pat) (pbytes (pbufs st) m ps) (unat start) = None" "pbuf_memfind st m p (c # pat) start = Some 0xFFFF"
    | (Some) k k' where "first_index (c # pat) (pbytes (pbufs st) m ps) (unat start) = Some k" "pbuf_memfind st m p (c # pat) start = Some k'"
        "unat k' = k" "k' \<noteq> 0xFFFF" "k' = of_nat k" "unat start \<le> k" "k + length (c # pat) \<le> plen (pbufs st) ps"
        "k < 65535"
proof (cases "first_index (c # pat) (pbytes (pbufs st) m ps) (unat start)")
  case None
  then show ?thesis using that(1) pbuf_memfind_chain [OF assms list.distinct(2)] by simp
next
  case (Some k)
  have k: "unat start \<le> k" "k < Suc (plen (pbufs st) ps) - length (c # pat)" using first_index_SomeD [OF Some] by simp_all
  then have "k + length (c # pat) \<le> plen (pbufs st) ps" by linarith
  moreover have "length (c # pat) > 0" by simp
  ultimately have "k < 65535" using pchain_len [OF assms(1)] by linarith
  then have "unat (of_nat k :: u16) = k" "(of_nat k :: u16) \<noteq> 0xFFFF"
    by (simp_all add: unat_of_nat word_unat_eq_iff)
  then show ?thesis using that(2) [of k "of_nat k"] pbuf_memfind_chain [OF assms list.distinct(2)] Some k(1) \<open>k < 65535\<close>
      \<open>k + length (c # pat) \<le> plen (pbufs st) ps\<close> by simp
qed

text \<open>Copying a number that fits and reading it.\<close>

lemma copy_number:
  assumes "pchain (pbufs st) p ps" and "p \<noteq> NULL" and "num \<noteq> NULL" and "payload_disjoint (pbufs st) ps num n"
    and "unat len < n" and "unat off + unat len \<le> plen (pbufs st) ps" and "n \<le> 2 ^ 32"
  shows "\<exists>m'. pbuf_copy_partial st p num len off (memset m num 0 n) = Some (len, m') \<and>
    atoi m' num = Some (atoi_list (take (unat len) (drop (unat off) (pbytes (pbufs st) m ps)))) \<and>
    (\<forall>x. \<not> in_range x num n \<longrightarrow> m' x = m x)"
proof -
  let ?bs = "take (unat len) (drop (unat off) (pbytes (pbufs st) m ps))"
  have same: "pbytes (pbufs st) (memset m num 0 n) ps = pbytes (pbufs st) m ps"
    using assms(4) by (simp add: memset_def pbytes_wrbytes)
  have len: "length ?bs = unat len" using assms(6) by simp
  have "payload_disjoint (pbufs st) ps num (unat len)"
    using payload_disjoint_sub [OF assms(4), of 0 "unat len"] assms(5) by simp
  from pbuf_copy_partial_chain [OF assms(1-3) this, of off "memset m num 0 n"] len
  have "pbuf_copy_partial st p num len off (memset m num 0 n) = Some (len, wrbytes (memset m num 0 n) num ?bs)"
    unfolding same by (simp add: Let_def)
  moreover have "wrbytes (memset m num 0 n) num ?bs x = m x" if "\<not> in_range x num n" for x
  proof -
    have ne: "x \<noteq> num + of_nat i" if "i < n" for i using \<open>\<not> in_range x num n\<close> in_rangeI [OF that] by blast
    then have "wrbytes (memset m num 0 n) num ?bs x = memset m num 0 n x" using len assms(5) by (intro wrbytes_outside) simp
    also have "\<dots> = m x" unfolding memset_def using ne by (intro wrbytes_outside) simp
    finally show ?thesis .
  qed
  ultimately show ?thesis using atoi_copied [of ?bs n m num] len assms(5,7) by (intro exI conjI) auto
qed

lemma is_http_check:
  assumes "pchain (pbufs st) p ps" and "p \<noteq> NULL"
  shows "\<exists>cmp dot. pbuf_memcmp st m p 0 (ascii ''HTTP/'') = Some cmp \<and> pbuf_get_at st m p 6 = Some dot \<and>
    (cmp = 0 \<and> dot = 0x2E \<longleftrightarrow> is_http (pbytes (pbufs st) m ps))"
proof -
  let ?bs = "pbytes (pbufs st) m ps"
  obtain r where r: "pbuf_memcmp st m p 0 (ascii ''HTTP/'') = Some r"
      "r = 0 \<longleftrightarrow> unat (0 :: u16) + length (ascii ''HTTP/'') \<le> plen (pbufs st) ps \<and> occurs_at (ascii ''HTTP/'') ?bs (unat (0 :: u16))"
    using pbuf_memcmp_chain [OF assms, of m 0 "ascii ''HTTP/''"] by blast
  have g: "pbuf_get_at st m p 6 = Some (if 6 < plen (pbufs st) ps then ?bs ! 6 else 0)"
    using pbuf_get_at_chain [OF assms(1), of m 6] by simp
  have len: "length (ascii ''HTTP/'') = 5" by (simp add: ascii_def)
  then have "occurs_at (ascii ''HTTP/'') ?bs 0 \<longleftrightarrow> take 5 ?bs = ascii ''HTTP/''" by (simp add: occurs_at_def)
  then show ?thesis using r g len by (auto simp: is_http_def)
qed

lemma u16_next: "k < 65535 \<Longrightarrow> unat (of_nat k + 1 :: u16) = Suc k"
  by (simp add: unat_word_ariths unat_of_nat)

text \<open>The length of the number as the code computes it.\<close>

lemma number_length:
  assumes "unat (i :: u16) < unat (j :: u16)"
  shows "unat (ucast j - ucast i - 1 :: u32) = unat j - unat i - 1"
    and "unat (ucast (ucast j - ucast i - 1 :: u32) :: u16) = unat j - unat i - 1"
    and "ucast (ucast (ucast j - ucast i - 1 :: u32) :: u16) = (ucast j - ucast i - 1 :: u32)"
proof -
  show 1: "unat (ucast j - ucast i - 1 :: u32) = unat j - unat i - 1"
    using assms by (simp add: unat_sub_if')
  then have "unat (ucast j - ucast i - 1 :: u32) < 65536" using unat_u16_less [of j] by linarith
  then show 2: "unat (ucast (ucast j - ucast i - 1 :: u32) :: u16) = unat j - unat i - 1"
    using 1 by (simp add: unsigned_ucast_eq take_bit_nat_eq_self_iff)
  then show "ucast (ucast (ucast j - ucast i - 1 :: u32) :: u16) = (ucast j - ucast i - 1 :: u32)"
    using 1 by (intro word_unat_eq_iff [THEN iffD2]) simp
qed

lemma status_tail:
  assumes ch: "pchain (pbufs st) p ps" and p: "p \<noteq> NULL" and num: "num \<noteq> NULL" "payload_disjoint (pbufs st) ps num 10"
    and ij: "unat (i' :: u16) < unat (j' :: u16)" "unat j' - unat i' - 1 < 10" "unat j' \<le> plen (pbufs st) ps"
  shows "\<exists>m'. http_status_num num st p (ucast j' - ucast i' - 1) (i' + 1) out m =
      (let v = status_value (pbytes (pbufs st) m ps) (unat i') (unat j') in
       if 0 < v \<and> v \<le> 0xFFFF then Some (ERR_OK, out\<lparr>so_status := of_int v\<rparr>, m') else Some (ERR_VAL, out, m')) \<and>
    (\<forall>x. \<not> in_range x num 10 \<longrightarrow> m' x = m x)"
proof -
  have len: "unat (ucast (ucast j' - ucast i' - 1 :: u32) :: u16) = unat j' - unat i' - 1" using number_length(2) [OF ij(1)] .
  have "unat i' < 65535" using ij(1) unat_u16_less [of j'] by linarith
  then have nx: "unat (i' + 1) = Suc (unat i')" by (simp add: unat_word_ariths)
  have "unat (i' + 1) + unat (ucast (ucast j' - ucast i' - 1 :: u32) :: u16) \<le> plen (pbufs st) ps"
    using ij(1,3) unfolding len nx by linarith
  moreover have "unat (ucast (ucast j' - ucast i' - 1 :: u32) :: u16) < 10" using ij(2) unfolding len .
  ultimately obtain m' where m': "pbuf_copy_partial st p num (ucast (ucast j' - ucast i' - 1 :: u32)) (i' + 1) (memset m num 0 10) =
      Some (ucast (ucast j' - ucast i' - 1 :: u32), m')"
      "atoi m' num = Some (status_value (pbytes (pbufs st) m ps) (unat i') (unat j'))"
      "\<forall>x. \<not> in_range x num 10 \<longrightarrow> m' x = m x"
    using copy_number [OF ch p num, of "ucast (ucast j' - ucast i' - 1 :: u32)" "i' + 1" m] unfolding len nx status_value_def
    by auto
  then show ?thesis using number_length(3) [OF ij(1)] by (intro exI [of _ m']) (simp add: Let_def http_status_num_def)
qed

lemma http_parse_response_status_list:
  assumes ch: "pchain (pbufs st) p ps" and p: "p \<noteq> NULL" and num: "num \<noteq> NULL" "payload_disjoint (pbufs st) ps num 10"
    and fits: "status_fits (pbytes (pbufs st) m ps)"
  shows "\<exists>m'. http_parse_response_status num st p out m =
      Some (fst (status_line (pbytes (pbufs st) m ps) out), snd (status_line (pbytes (pbufs st) m ps) out), m') \<and>
    (\<forall>x. \<not> in_range x num 10 \<longrightarrow> m' x = m x)"
proof -
  let ?bs = "pbytes (pbufs st) m ps"
  obtain cmp dot where http: "pbuf_memcmp st m p 0 (ascii ''HTTP/'') = Some cmp" "pbuf_get_at st m p 6 = Some dot"
    "cmp = 0 \<and> dot = 0x2E \<longleftrightarrow> is_http ?bs" using is_http_check [OF ch p] by blast
  show ?thesis
  proof (cases rule: memfind_cases [OF ch p, where c = "0x0D" and pat = "[0x0A]" and m = m and start = "0", case_names nocrlf crlf])
    case nocrlf
    then show ?thesis by (simp add: http_parse_response_status_def status_line_def status_number_def)
  next
    case e: (crlf e e')
    show ?thesis
    proof (cases rule: memfind_cases [OF ch p, where c = "0x20" and pat = "[]" and m = m and start = "0", case_names nospace space])
      case nospace
      then show ?thesis using e by (simp add: http_parse_response_status_def status_line_def status_number_def)
    next
      case i: (space i i')
      show ?thesis
      proof (cases "is_http ?bs")
        case False
        then show ?thesis using e i http
          by (auto simp: http_parse_response_status_def status_line_def status_number_def split: option.splits)
      next
        case True
        have len: "6 < plen (pbufs st) ps" using True by (simp add: is_http_def)
        have v: "pbuf_get_at st m p 5 = Some (?bs ! 5)" "pbuf_get_at st m p 7 = Some (if 7 < length ?bs then ?bs ! 7 else 0)"
          using pbuf_get_at_chain [OF ch, of m] len by simp_all
        have nx: "unat (i' + 1) = Suc i" using u16_next [OF i(8)] i(5) by simp
        have ui: "unat i' = i" and ue: "unat e' = e" using i(3) e(3) by simp_all
        have h: "cmp = 0" "dot = 0x2E" using http(3) True by simp_all
        let ?o1 = "out\<lparr>so_version := push_bit 8 (ucast (?bs ! 5) - 0x30) OR (ucast (if 7 < length ?bs then ?bs ! 7 else 0) - 0x30)\<rparr>"
        note defs = e(2,4) i(2,4) http(1,2) h v
        show ?thesis
        proof (cases rule: memfind_cases [OF ch p, where c = "0x20" and pat = "[]" and m = m and start = "i' + 1", case_names nospace2 space2])
          case nospace2
          then have n: "first_index [0x20] ?bs (Suc i) = None" "status_number ?bs = Some (i, e)"
            using nx e(1) i(1) by (simp_all add: status_number_def)
          then have "unat i' < unat e'" "unat e' - unat i' - 1 < 10" "unat e' \<le> plen (pbufs st) ps"
            using fits True e i by (simp_all add: status_fits_def)
          from status_tail [OF ch p num this, of ?o1 m] obtain m' where m':
            "http_status_num num st p (ucast e' - ucast i' - 1) (i' + 1) ?o1 m =
              (let v = status_value ?bs i e in
               if 0 < v \<and> v \<le> 0xFFFF then Some (ERR_OK, ?o1\<lparr>so_status := of_int v\<rparr>, m') else Some (ERR_VAL, ?o1, m'))"
            "\<forall>x. \<not> in_range x num 10 \<longrightarrow> m' x = m x" unfolding ui ue by blast
          have run: "http_parse_response_status num st p out m = http_status_num num st p (ucast e' - ucast i' - 1) (i' + 1) ?o1 m"
            using nospace2(2) by (simp add: http_parse_response_status_def defs)
          have line: "status_line ?bs out = (let v = status_value ?bs i e in
              if 0 < v \<and> v \<le> 0xFFFF then (ERR_OK, ?o1\<lparr>so_status := of_int v\<rparr>) else (ERR_VAL, ?o1))"
            unfolding status_line_def using n True e(5) by (simp add: Let_def)
          show ?thesis unfolding run line m'(1) using m'(2) by (auto simp: Let_def)
        next
          case j: (space2 j j')
          have uj: "unat j' = j" using j(3) by simp
          let ?o2 = "?o1\<lparr>so_str_offset := j' + 1\<rparr>"
          have n: "first_index [0x20] ?bs (Suc i) = Some j" "status_number ?bs = Some (i, j)"
            using nx e(1) i(1) j(1) by (simp_all add: status_number_def)
          then have "unat i' < unat j'" "unat j' - unat i' - 1 < 10" "unat j' \<le> plen (pbufs st) ps"
            using fits True j i by (simp_all add: status_fits_def)
          from status_tail [OF ch p num this, of ?o2 m] obtain m' where m':
            "http_status_num num st p (ucast j' - ucast i' - 1) (i' + 1) ?o2 m =
              (let v = status_value ?bs i j in
               if 0 < v \<and> v \<le> 0xFFFF then Some (ERR_OK, ?o2\<lparr>so_status := of_int v\<rparr>, m') else Some (ERR_VAL, ?o2, m'))"
            "\<forall>x. \<not> in_range x num 10 \<longrightarrow> m' x = m x" unfolding ui uj by blast
          have run: "http_parse_response_status num st p out m = http_status_num num st p (ucast j' - ucast i' - 1) (i' + 1) ?o2 m"
            using j(2,4) by (simp add: http_parse_response_status_def defs)
          have line: "status_line ?bs out = (let v = status_value ?bs i j in
              if 0 < v \<and> v \<le> 0xFFFF then (ERR_OK, ?o2\<lparr>so_status := of_int v\<rparr>) else (ERR_VAL, ?o2))"
            unfolding status_line_def using n True j(5) by (simp add: Let_def)
          show ?thesis unfolding run line m'(1) using m'(2) by (auto simp: Let_def)
        qed
      qed
    qed
  qed
qed

text \<open>The header fields: the end of the header and the content length. The search for the length goes over all the bytes
  received so far.\<close>

abbreviation CONTENT_LENGTH :: "u8 list" where
  "CONTENT_LENGTH \<equiv> ascii ''Content-Length: ''"

definition header_end :: "u8 list \<Rightarrow> nat option" where
  "header_end bs = map_option (\<lambda>k. k + 4) (first_index (CRLF @ CRLF) bs 0)"

definition content_number :: "u8 list \<Rightarrow> (nat \<times> nat) option" where
  "content_number bs =
     (case first_index CONTENT_LENGTH bs 0 of
        None \<Rightarrow> None
      | Some h \<Rightarrow> (case first_index CRLF bs h of None \<Rightarrow> None | Some l \<Rightarrow> Some (h + 16, l)))"

definition length_fits :: "u8 list \<Rightarrow> bool" where
  "length_fits bs \<longleftrightarrow> (case content_number bs of None \<Rightarrow> True | Some (i, j) \<Rightarrow> j - i < 16)"

definition content_length :: "u8 list \<Rightarrow> u32" where
  "content_length bs =
     (case content_number bs of
        None \<Rightarrow> HTTPC_CONTENT_LEN_INVALID
      | Some (i, j) \<Rightarrow>
          let len = atoi_list (take (j - i) (drop i bs)) in
          if 0 \<le> len \<and> (of_int len :: u32) < HTTPC_CONTENT_LEN_INVALID then of_int len else HTTPC_CONTENT_LEN_INVALID)"

definition header_fields :: "u8 list \<Rightarrow> u32 \<Rightarrow> u16 \<Rightarrow> err_t \<times> u32 \<times> u16" where
  "header_fields bs content_len total_len =
     (case header_end bs of
        None \<Rightarrow> (ERR_VAL, content_len, total_len)
      | Some k \<Rightarrow> (ERR_OK, content_length bs, of_nat k))"

lemma length_CONTENT_LENGTH: "length CONTENT_LENGTH = 16"
  by (simp add: ascii_def)

lemma CONTENT_LENGTH_Cons: "CONTENT_LENGTH = 0x43 # tl CONTENT_LENGTH"
  by (simp add: ascii_def)

text \<open>The line end is behind the name of the field.\<close>

lemma content_number_order:
  assumes "content_number bs = Some (i, j)"
  shows "i \<le> j" and "j + 2 \<le> length bs"
proof -
  obtain h where h: "first_index CONTENT_LENGTH bs 0 = Some h" "i = h + 16" "first_index CRLF bs h = Some j"
    using assms by (auto simp: content_number_def split: option.splits)
  have o: "take 16 (drop h bs) = CONTENT_LENGTH"
    using first_index_SomeD [OF h(1)] by (simp add: occurs_at_def length_CONTENT_LENGTH)
  have j: "h \<le> j" "j < Suc (length bs) - 2" "take 2 (drop j bs) = CRLF"
    using first_index_SomeD [OF h(3)] by (simp_all add: occurs_at_def numeral_2_eq_2)
  show "j + 2 \<le> length bs" using j(2) by linarith
  then have c: "bs ! j = 0x0D" using j(3) by (cases "drop j bs") (auto simp: nth_via_drop)
  show "i \<le> j"
  proof (rule ccontr)
    assume "\<not> i \<le> j"
    then have k: "j - h < 16" using h(2) j(1) by linarith
    then have "CONTENT_LENGTH ! (j - h) = bs ! j" using o [symmetric] j(1,2) by simp
    then have "CONTENT_LENGTH ! (j - h) = 0x0D" using c by simp
    moreover have "0x0D \<notin> set CONTENT_LENGTH" by (simp add: ascii_def)
    ultimately show False using k nth_mem [of "j - h" CONTENT_LENGTH] length_CONTENT_LENGTH by simp
  qed
qed

lemma http_wait_headers_list:
  assumes ch: "pchain (pbufs st) p ps" and p: "p \<noteq> NULL" and num: "num \<noteq> NULL" "payload_disjoint (pbufs st) ps num 16"
    and fits: "header_end (pbytes (pbufs st) m ps) \<noteq> None \<Longrightarrow> length_fits (pbytes (pbufs st) m ps)"
  shows "\<exists>m'. http_wait_headers num st p cl thl m =
      (case header_fields (pbytes (pbufs st) m ps) cl thl of (e, cl', thl') \<Rightarrow> Some (e, cl', thl', m')) \<and>
    (\<forall>x. \<not> in_range x num 16 \<longrightarrow> m' x = m x)"
proof -
  let ?bs = "pbytes (pbufs st) m ps"
  show ?thesis
  proof (cases rule: memfind_cases [OF ch p, where c = "0x0D" and pat = "[0x0A, 0x0D, 0x0A]" and m = m and start = "0", case_names none found])
    case none
    then show ?thesis by (simp add: http_wait_headers_def header_fields_def header_end_def)
  next
    case e: (found e e')
    have end1: "e' < 0xFFFF - 2" using e(3,7) pchain_len [OF ch] by (simp add: word_less_nat_alt)
    have he: "header_end ?bs = Some (e + 4)" using e(1) by (simp add: header_end_def)
    have e4: "e' + 4 = of_nat (e + 4)" using e(5) by simp
    note fields = header_fields_def he option.case e4
    note cf = memfind_cases [OF ch p, where c = "0x43" and pat = "tl CONTENT_LENGTH" and m = m and start = "0", folded CONTENT_LENGTH_Cons, case_names none found]
    show ?thesis
    proof (cases rule: cf)
      case none
      then have "content_length ?bs = HTTPC_CONTENT_LEN_INVALID" by (simp add: content_length_def content_number_def)
      then show ?thesis using none e(2) end1 by (simp add: http_wait_headers_def fields)
    next
      case h: (found h h')
      show ?thesis
      proof (cases rule: memfind_cases [OF ch p, where c = "0x0D" and pat = "[0x0A]" and m = m and start = "h'", case_names none found])
        case none
        then have "content_length ?bs = HTTPC_CONTENT_LEN_INVALID" using h(1,3) by (simp add: content_length_def content_number_def)
        then show ?thesis using none h(2,4) e(2) end1 by (simp add: http_wait_headers_def fields)
      next
        case l: (found l l')
        have cn: "content_number ?bs = Some (h + 16, l)" using h(1,3) l(1) by (simp add: content_number_def)
        have hl: "h + 16 \<le> l" "l + 2 \<le> plen (pbufs st) ps" using content_number_order [OF cn] by simp_all
        have h16: "unat (h' + 16) = h + 16" using h(3) hl pchain_len [OF ch] by (simp add: unat_word_ariths)
        have len: "unat (l' - h' - 16) = l - (h + 16)" using hl(1) h(3) l(3) by (simp add: unat_sub_if')
        have "unat (l' - h' - 16) < 16" using fits he cn len by (simp add: length_fits_def)
        moreover have "unat (h' + 16) + unat (l' - h' - 16) \<le> plen (pbufs st) ps" unfolding len h16 using hl by linarith
        ultimately obtain m' where m': "pbuf_copy_partial st p num (l' - h' - 16) (h' + 16) (memset m num 0 16) = Some (l' - h' - 16, m')"
            "atoi m' num = Some (atoi_list (take (l - (h + 16)) (drop (h + 16) ?bs)))" "\<forall>x. \<not> in_range x num 16 \<longrightarrow> m' x = m x"
          using copy_number [OF ch p num, of "l' - h' - 16" "h' + 16" m] unfolding len h16 by auto
        then show ?thesis using e(2) end1 h(2,4) l(2,4)
          by (intro exI [of _ m']) (simp add: http_wait_headers_def fields content_length_def cn Let_def)
      qed
    qed
  qed
qed

subsection \<open>Responses\<close>

text \<open>What the parser finds depends only on the bytes up to it.\<close>

lemma first_index_eq_Some:
  assumes "pat \<noteq> []"
  shows "first_index pat xs i = Some k \<longleftrightarrow> i \<le> k \<and> k + length pat \<le> length xs \<and> occurs_at pat xs k \<and>
    (\<forall>j. i \<le> j \<longrightarrow> j < k \<longrightarrow> \<not> occurs_at pat xs j)" (is "?l \<longleftrightarrow> ?r")
proof
  assume ?l
  then show ?r using first_index_SomeD [of pat xs i k] by fastforce
next
  assume r: ?r
  show ?l
  proof (cases "first_index pat xs i")
    case None
    then show ?thesis using r first_index_NoneD [OF None, of k] by blast
  next
    case (Some k')
    then have "\<not> k' < k" "\<not> k < k'" using r first_index_SomeD [OF Some] by blast+
    then show ?thesis using Some by simp
  qed
qed

lemma occurs_at_take: "k + length pat \<le> n \<Longrightarrow> occurs_at pat (take n xs) k = occurs_at pat xs k"
  by (simp add: occurs_at_def drop_take min_def)

lemma occurs_at_append:
  assumes "occurs_at (pat @ pat') xs k"
  shows "occurs_at pat xs k"
proof -
  have "take (length pat) (take (length (pat @ pat')) (drop k xs)) = take (length pat) (pat @ pat')"
    using assms by (simp only: occurs_at_def)
  then show ?thesis by (simp add: occurs_at_def)
qed

lemma first_index_take:
  assumes "pat \<noteq> []" and "first_index pat xs i = Some k"
  shows "first_index pat (take n xs) i = (if k + length pat \<le> n then Some k else None)"
proof (cases "k + length pat \<le> n")
  case True
  then show ?thesis using assms by (auto simp: first_index_eq_Some occurs_at_take)
next
  case False
  have "first_index pat (take n xs) i \<noteq> Some k'" for k'
  proof
    assume k': "first_index pat (take n xs) i = Some k'"
    then have "k' + length pat \<le> n" "i \<le> k'" "occurs_at pat xs k'"
      using assms(1) by (auto simp: first_index_eq_Some occurs_at_take)
    then show False using False assms(2) by (auto simp: first_index_eq_Some [OF assms(1)])
  qed
  then show ?thesis using False by (cases "first_index pat (take n xs) i") auto
qed

lemma first_index_take_None:
  assumes "pat \<noteq> []" and "first_index pat xs i = None"
  shows "first_index pat (take n xs) i = None"
proof (rule ccontr)
  assume "first_index pat (take n xs) i \<noteq> None"
  then obtain k where k: "first_index pat (take n xs) i = Some k" by blast
  then have "i \<le> k" "k + length pat \<le> length xs" "occurs_at pat xs k"
    using assms(1) by (auto simp: first_index_eq_Some occurs_at_take)
  then show False using first_index_NoneD [OF assms(2)] by blast
qed

text \<open>A response the client can read: a status line with a number and a text behind it, a header that ends, and a content
  length, if there is one, in the header. The two numbers fit their arrays.\<close>

definition length_ok :: "u8 list \<Rightarrow> nat \<Rightarrow> bool" where
  "length_ok resp k \<longleftrightarrow>
     (case first_index CONTENT_LENGTH resp 0 of
        None \<Rightarrow> True
      | Some h \<Rightarrow> (case first_index CRLF resp h of None \<Rightarrow> False | Some l \<Rightarrow> l + 4 \<le> k \<and> l - (h + 16) < 16))"

definition response_ok :: "u8 list \<Rightarrow> bool" where
  "response_ok resp \<longleftrightarrow> is_http resp \<and>
     (case (first_index CRLF resp 0, status_number resp, header_end resp) of
        (Some e, Some (i, j), Some k) \<Rightarrow>
          j < e \<and> j - i - 1 < 10 \<and> 0 < status_value resp i j \<and> status_value resp i j \<le> 0xFFFF \<and>
          length_ok resp k
      | _ \<Rightarrow> False)"

definition response_status :: "u8 list \<Rightarrow> u16" where
  "response_status resp = (case status_number resp of None \<Rightarrow> 0 | Some (i, j) \<Rightarrow> of_int (status_value resp i j))"

definition response_body :: "u8 list \<Rightarrow> u8 list" where
  "response_body resp = (case header_end resp of None \<Rightarrow> [] | Some k \<Rightarrow> drop k resp)"

lemma response_okD:
  assumes "response_ok resp"
  obtains e i j k where "first_index CRLF resp 0 = Some e" "first_index [0x20] resp 0 = Some i"
    "first_index [0x20] resp (Suc i) = Some j" "header_end resp = Some k" "is_http resp" "i < j" "j < e" "j - i - 1 < 10"
    "0 < status_value resp i j" "status_value resp i j \<le> 0xFFFF" "k \<le> length resp" "e + 4 \<le> k" "length_ok resp k"
    "first_index (CRLF @ CRLF) resp 0 = Some (k - 4)" "4 \<le> k" "status_number resp = Some (i, j)"
proof -
  obtain e i j k where f: "first_index CRLF resp 0 = Some e" "status_number resp = Some (i, j)" "header_end resp = Some k"
      "j < e" "j - i - 1 < 10" "0 < status_value resp i j" "status_value resp i j \<le> 0xFFFF" "is_http resp"
      "length_ok resp k"
    using assms by (auto simp: response_ok_def split: option.splits)
  have i: "first_index [0x20] resp 0 = Some i" using f(1,2) by (auto simp: status_number_def split: option.splits)
  then have j: "first_index [0x20] resp (Suc i) = Some j"
    using f(1,2,4) by (auto simp: status_number_def split: option.splits)
  have c: "first_index (CRLF @ CRLF) resp 0 = Some (k - 4)" "4 \<le> k" using f(3) by (auto simp: header_end_def)
  then have k: "k - 4 + length (CRLF @ CRLF) \<le> length resp" "occurs_at (CRLF @ CRLF) resp (k - 4)"
    using first_index_eq_Some [of "CRLF @ CRLF" resp 0 "k - 4"] by simp_all
  have "occurs_at CRLF resp (k - 4)" using k(2) by (rule occurs_at_append)
  then have "\<not> k - 4 < e" using f(1) by (auto simp: first_index_eq_Some)
  moreover have "i < j" using j by (auto simp: first_index_eq_Some)
  ultimately show ?thesis using that [OF f(1) i j f(3,8) _ f(4-7) _ _ f(9) c f(2)] k(1) c(2) by simp
qed

text \<open>The parser on the first \<open>n\<close> bytes of a response.\<close>

lemma response_header_end:
  assumes "response_ok resp" and "header_end resp = Some k"
  shows "header_end (take n resp) = (if k \<le> n then Some k else None)"
proof (rule response_okD [OF assms(1)])
  fix k' assume "header_end resp = Some k'" "first_index (CRLF @ CRLF) resp 0 = Some (k' - 4)" "4 \<le> k'"
  then have "first_index (CRLF @ CRLF) resp 0 = Some (k - 4)" "4 \<le> k" using assms(2) by simp_all
  then show ?thesis using first_index_take [of "CRLF @ CRLF" resp 0 "k - 4" n] by (auto simp: header_end_def)
qed

lemma is_http_take: "6 < n \<Longrightarrow> is_http (take n resp) = is_http resp"
  by (auto simp: is_http_def min_def)

lemma response_status_number:
  assumes "response_ok resp" and "first_index CRLF resp 0 = Some e" and "e + 2 \<le> n"
  shows "status_number (take n resp) = status_number resp" and "6 < n"
proof -
  obtain i j where f: "first_index [0x20] resp 0 = Some i" "first_index [0x20] resp (Suc i) = Some j" "i < j" "j < e" "is_http resp"
    using response_okD [OF assms(1)] assms(2) by (metis option.inject)
  have ij: "first_index [0x20] (take n resp) 0 = Some i" "first_index [0x20] (take n resp) (Suc i) = Some j"
      "first_index CRLF (take n resp) 0 = Some e"
    using first_index_take [OF _ f(1), of n] first_index_take [OF _ f(2), of n] first_index_take [OF _ assms(2), of n] f(3,4) assms(3)
    by simp_all
  then show "status_number (take n resp) = status_number resp" using f(1,2) assms(2) by (simp add: status_number_def)
  have "resp ! i = 0x20" using f(1) by (auto simp: first_index_eq_Some occurs_at_def take_Suc hd_drop_conv_nth split: list.splits)
  show "6 < n"
  proof (rule ccontr)
    assume "\<not> 6 < n"
    then have "i < 4" using f(3,4) assms(3) by linarith
    then have "take 5 resp ! i = 0x20" using \<open>resp ! i = 0x20\<close> by simp
    then have "ascii ''HTTP/'' ! i = 0x20" using f(5) unfolding is_http_def by simp
    moreover have "0x20 \<notin> set (ascii ''HTTP/'')" "length (ascii ''HTTP/'') = 5" by (simp_all add: ascii_def)
    ultimately show False using \<open>i < 4\<close> nth_mem [of i "ascii ''HTTP/''"] by simp
  qed
qed

lemma response_status_fits:
  assumes "response_ok resp"
  shows "status_fits (take n resp)"
proof (rule response_okD [OF assms])
  fix e i j
  assume f: "first_index CRLF resp 0 = Some e" "status_number resp = Some (i, j)" "i < j" "j - i - 1 < 10"
  show ?thesis
  proof (cases "e + 2 \<le> n")
    case True
    then show ?thesis using response_status_number [OF assms f(1)] f by (simp add: status_fits_def)
  next
    case False
    then have "first_index CRLF (take n resp) 0 = None" using first_index_take [OF _ f(1), of n] by simp
    then show ?thesis by (simp add: status_fits_def status_number_def)
  qed
qed

lemma response_status_line:
  assumes "response_ok resp" and "first_index CRLF resp 0 = Some e"
  shows "e + 2 \<le> n \<Longrightarrow> fst (status_line (take n resp) out) = ERR_OK"
    and "e + 2 \<le> n \<Longrightarrow> so_status (snd (status_line (take n resp) out)) = response_status resp"
    and "\<not> e + 2 \<le> n \<Longrightarrow> status_line (take n resp) out = (ERR_VAL, out)"
proof -
  obtain i j where f: "status_number resp = Some (i, j)" "is_http resp" "j < e" "0 < status_value resp i j" "status_value resp i j \<le> 0xFFFF"
    using response_okD [OF assms(1)] assms(2) by (metis option.inject)
  show "fst (status_line (take n resp) out) = ERR_OK" and "so_status (snd (status_line (take n resp) out)) = response_status resp"
    if n: "e + 2 \<le> n"
  proof -
    note r = response_status_number [OF assms n]
    have "status_value (take n resp) i j = status_value resp i j"
      using f(3) n by (simp add: status_value_def drop_take min_def)
    then show "fst (status_line (take n resp) out) = ERR_OK"
        "so_status (snd (status_line (take n resp) out)) = response_status resp"
      using f r is_http_take [OF r(2)] by (simp_all add: status_line_def response_status_def Let_def)
  qed
  show "status_line (take n resp) out = (ERR_VAL, out)" if "\<not> e + 2 \<le> n"
    using that first_index_take [OF _ assms(2), of n] by (simp add: status_line_def status_number_def)
qed

lemma response_content_length:
  assumes "response_ok resp" and "header_end resp = Some k" and "k \<le> n"
  shows "content_length (take n resp) = content_length resp" and "length_fits (take n resp)"
proof -
  have ok: "length_ok resp k" using response_okD [OF assms(1)] assms(2) by (metis option.inject)
  have "content_number (take n resp) = content_number resp \<and> length_fits (take n resp) \<and>
      (\<forall>i j. content_number resp = Some (i, j) \<longrightarrow> j \<le> n)"
  proof (cases "first_index CONTENT_LENGTH resp 0")
    case None
    then have "first_index CONTENT_LENGTH (take n resp) 0 = None" by (intro first_index_take_None) (simp_all add: ascii_def)
    then show ?thesis using None by (simp add: content_number_def length_fits_def)
  next
    case (Some h)
    then obtain l where l: "first_index CRLF resp h = Some l" "l + 4 \<le> k" "l - (h + 16) < 16"
      using ok by (auto simp: length_ok_def split: option.splits)
    then have cn: "content_number resp = Some (h + 16, l)" using Some by (simp add: content_number_def)
    then have hl: "h + 16 \<le> l" using content_number_order by blast
    have "first_index CONTENT_LENGTH (take n resp) 0 = Some h"
      using first_index_take [OF _ Some, of n] hl l(2) assms(3) length_CONTENT_LENGTH by (simp add: ascii_def)
    moreover have "first_index CRLF (take n resp) h = Some l"
      using first_index_take [OF _ l(1), of n] l(2) assms(3) by simp
    ultimately show ?thesis using cn l(2,3) assms(3) by (simp add: content_number_def length_fits_def)
  qed
  moreover have "take (j - i) (drop i (take n resp)) = take (j - i) (drop i resp)" if "j \<le> n" for i j
    using that by (simp add: drop_take min_def)
  ultimately show "content_length (take n resp) = content_length resp" "length_fits (take n resp)"
    by (auto simp: content_length_def split: option.splits)
qed

end
