(* ===== verification/Lwip_Ip4.thy ===== *)
theory Lwip_Ip4
  imports Lwip_Err
begin

text \<open>
  IPv4 addresses of lwIP (ip4_addr.c, and \<open>lwip_htonl\<close> of def.c): broadcast addresses, netmasks, and the conversion from and
  to dotted decimal text. Text is a range of the memory with a zero at its end. The main results are that the text of an
  address always fits its static buffer and is read back to the same address, and that a netmask is accepted
  exactly when it has no one behind its first zero.
\<close>

definition lwip_isdigit :: "u8 \<Rightarrow> bool" where
  "lwip_isdigit c \<longleftrightarrow> 0x30 \<le> c \<and> c \<le> 0x39"

definition lwip_isxdigit :: "u8 \<Rightarrow> bool" where
  "lwip_isxdigit c \<longleftrightarrow> lwip_isdigit c \<or> 0x61 \<le> c \<and> c \<le> 0x66 \<or> 0x41 \<le> c \<and> c \<le> 0x46"

definition lwip_islower :: "u8 \<Rightarrow> bool" where
  "lwip_islower c \<longleftrightarrow> 0x61 \<le> c \<and> c \<le> 0x7A"

definition lwip_isspace :: "u8 \<Rightarrow> bool" where
  "lwip_isspace c \<longleftrightarrow> c = 0x20 \<or> c = 0x0C \<or> c = 0x0A \<or> c = 0x0D \<or> c = 0x09 \<or> c = 0x0B"

text \<open>The processor is little endian.\<close>

definition lwip_htonl :: "u32 \<Rightarrow> u32" where
  "lwip_htonl x = push_bit 24 (x AND 0x000000FF) OR push_bit 8 (x AND 0x0000FF00) OR
     drop_bit 8 (x AND 0x00FF0000) OR drop_bit 24 (x AND 0xFF000000)"

subsection \<open>Broadcast and netmask\<close>

lemma unat_shift_right: "msk \<noteq> 0 \<Longrightarrow> unat (drop_bit 1 (msk :: u32)) < unat msk"
proof -
  assume "msk \<noteq> 0"
  then have "unat msk \<noteq> 0" by (simp add: unat_eq_0)
  moreover have "unat (drop_bit 1 msk) = unat msk div 2" by (simp add: drop_bit_eq_div unat_div)
  ultimately show ?thesis by simp
qed

text \<open>The interface is given by its flags, its address and its netmask.\<close>

definition NETIF_FLAG_BROADCAST :: u8 where "NETIF_FLAG_BROADCAST = 0x02"

definition ip4_addr_isbroadcast_u32 :: "u32 \<Rightarrow> u8 \<Rightarrow> u32 \<Rightarrow> u32 \<Rightarrow> u8" where
  "ip4_addr_isbroadcast_u32 addr netif_flags ip netmask =
     (if (NOT addr) = 0 \<or> addr = 0 then 1
      else if netif_flags AND NETIF_FLAG_BROADCAST = 0 then 0
      else if addr = ip then 0
      else if addr AND netmask = ip AND netmask \<and> addr AND NOT netmask = 0xFFFFFFFF AND NOT netmask then 1
      else 0)"

text \<open>The two loops over the bits of the netmask; \<open>mask\<close> is shifted right until it is 0.\<close>

function netmask_ones :: "u32 \<Rightarrow> u32 \<Rightarrow> u32" where
  "netmask_ones nm msk =
     (if msk \<noteq> 0 then if nm AND msk = 0 then msk else netmask_ones nm (drop_bit 1 msk) else msk)"
  by pat_completeness auto
termination
  by (relation "measure (\<lambda>(_, msk). unat msk)") (auto simp: unat_shift_right [simplified])

function netmask_zeros :: "u32 \<Rightarrow> u32 \<Rightarrow> u8" where
  "netmask_zeros nm msk =
     (if msk \<noteq> 0 then if nm AND msk \<noteq> 0 then 0 else netmask_zeros nm (drop_bit 1 msk) else 1)"
  by pat_completeness auto
termination
  by (relation "measure (\<lambda>(_, msk). unat msk)") (auto simp: unat_shift_right [simplified])

definition ip4_addr_netmask_valid :: "u32 \<Rightarrow> u8" where
  "ip4_addr_netmask_valid netmask =
     (let nm_hostorder = lwip_htonl netmask in netmask_zeros nm_hostorder (netmask_ones nm_hostorder (push_bit 31 1)))"

subsection \<open>From text\<close>

text \<open>The loop over the digits of a number. The variable \<open>c\<close> of the code always has the character at \<open>cp\<close>.\<close>

partial_function (option) aton_digits :: "memory \<Rightarrow> u32 \<Rightarrow> ptr \<Rightarrow> u32 \<Rightarrow> (u32 \<times> ptr) option" where
  "aton_digits m base cp val =
     (if lwip_isdigit (m cp) then aton_digits m base (cp + 1) (val * base + (ucast (m cp) - 0x30))
      else if base = 16 \<and> lwip_isxdigit (m cp) then
        aton_digits m base (cp + 1) (push_bit 4 val OR (ucast (m cp) + 10 - (if lwip_islower (m cp) then 0x61 else 0x41)))
      else Some (val, cp))"

text \<open>The loop over the parts; \<open>Some None\<close> is the return with 0.\<close>

partial_function (option) aton_parts :: "memory \<Rightarrow> ptr \<Rightarrow> u32 list \<Rightarrow> (u32 list \<times> u32 \<times> ptr) option option" where
  "aton_parts m cp parts =
     (if \<not> lwip_isdigit (m cp) then Some None
      else
        let (base, cp) =
          (if m cp = 0x30 then if m (cp + 1) = 0x78 \<or> m (cp + 1) = 0x58 then (16, cp + 2) else (8, cp + 1) else (10, cp)) in
        (case aton_digits m base cp 0 of
           None \<Rightarrow> None
         | Some (val, cp) \<Rightarrow>
             if m cp = 0x2E then
               if length parts \<ge> 3 then Some None else aton_parts m (cp + 1) (parts @ [val])
             else Some (Some (parts, val, cp))))"

definition aton_combine :: "u32 list \<Rightarrow> u32 \<Rightarrow> u32 option" where
  "aton_combine parts val =
     (case parts of
        [] \<Rightarrow> Some val
      | [a] \<Rightarrow> if val > 0xFFFFFF \<or> a > 0xFF then None else Some (val OR push_bit 24 a)
      | [a, b] \<Rightarrow> if val > 0xFFFF \<or> a > 0xFF \<or> b > 0xFF then None else Some (val OR (push_bit 24 a OR push_bit 16 b))
      | [a, b, c] \<Rightarrow> if val > 0xFF \<or> a > 0xFF \<or> b > 0xFF \<or> c > 0xFF then None
          else Some (val OR (push_bit 24 a OR push_bit 16 b OR push_bit 8 c))
      | _ \<Rightarrow> Some val)"

text \<open>The result is the address, or \<open>None\<close> for the return value 0.\<close>

definition ip4addr_aton :: "memory \<Rightarrow> ptr \<Rightarrow> u32 option option" where
  "ip4addr_aton m cp =
     (case aton_parts m cp [] of
        None \<Rightarrow> None
      | Some None \<Rightarrow> Some None
      | Some (Some (parts, val, cp)) \<Rightarrow>
          if m cp \<noteq> 0 \<and> \<not> lwip_isspace (m cp) then Some None
          else Some (map_option lwip_htonl (aton_combine parts val)))"

definition ipaddr_addr :: "memory \<Rightarrow> ptr \<Rightarrow> u32 option" where
  "ipaddr_addr m cp = map_option (\<lambda>r. case r of Some val \<Rightarrow> val | None \<Rightarrow> 0xFFFFFFFF) (ip4addr_aton m cp)"

subsection \<open>To text\<close>

text \<open>The digits of a byte, the last one first, as they are in the array \<open>inv\<close>.\<close>

function inv_digits :: "u8 \<Rightarrow> u8 list" where
  "inv_digits b = (0x30 + b mod 10) # (if b div 10 = 0 then [] else inv_digits (b div 10))"
  by pat_completeness auto
termination
proof (relation "measure unat")
  fix b :: u8
  assume "b div 10 \<noteq> 0"
  then have "unat b \<noteq> 0" by (auto simp: unat_eq_0)
  then show "(b div 10, b) \<in> measure unat" by (simp add: unat_div)
qed simp

text \<open>Appending a character at \<open>rp\<close>, where \<open>len\<close> have been written; a full buffer is \<open>Inl\<close> with the memory as it is then.\<close>

fun ntoa_put :: "int \<Rightarrow> u8 list \<Rightarrow> ptr \<times> int \<times> memory \<Rightarrow> memory + ptr \<times> int \<times> memory" where
  "ntoa_put buflen [] (rp, len, m) = Inr (rp, len, m)"
| "ntoa_put buflen (c # cs) (rp, len, m) =
     (if len \<ge> buflen then Inl m else ntoa_put buflen cs (rp + 1, len + 1, m(rp := c)))"

fun ntoa_bytes :: "int \<Rightarrow> u8 list \<Rightarrow> ptr \<times> int \<times> memory \<Rightarrow> memory + ptr \<times> int \<times> memory" where
  "ntoa_bytes buflen [] s = Inr s"
| "ntoa_bytes buflen (b # bs) s =
     (case ntoa_put buflen (rev (inv_digits b)) s of
        Inl m \<Rightarrow> Inl m
      | Inr s \<Rightarrow> (case ntoa_put buflen [0x2E] s of Inl m \<Rightarrow> Inl m | Inr s \<Rightarrow> ntoa_bytes buflen bs s))"

text \<open>The result has the returned pointer.\<close>

definition ip4addr_ntoa_r :: "u32 \<Rightarrow> ptr \<Rightarrow> int \<Rightarrow> memory \<Rightarrow> ptr \<times> memory" where
  "ip4addr_ntoa_r addr buf buflen m =
     (case ntoa_bytes buflen (le32 addr) (buf, 0, m) of
        Inl m \<Rightarrow> (NULL, m)
      | Inr (rp, _, m) \<Rightarrow> (buf, m(rp - 1 := 0)))"

definition IP4ADDR_STRLEN_MAX :: int where "IP4ADDR_STRLEN_MAX = 16"

definition ip4addr_ntoa :: "ptr \<Rightarrow> u32 \<Rightarrow> memory \<Rightarrow> ptr \<times> memory" where
  "ip4addr_ntoa str addr m = ip4addr_ntoa_r addr str IP4ADDR_STRLEN_MAX m"

subsection \<open>The text of an address is read back\<close>

lemma isdigit_nat: "lwip_isdigit c \<longleftrightarrow> 48 \<le> unat c \<and> unat c \<le> 57"
  by (simp add: lwip_isdigit_def word_le_nat_alt)

lemma ntoa_digit_char: "unat (0x30 + b mod 10 :: u8) = 48 + unat b mod 10"
proof -
  have "unat b mod 10 < 10" by simp
  then have "unat b mod 10 + 48 < 256" by linarith
  then show ?thesis by (simp add: unat_word_ariths unat_mod)
qed

declare inv_digits.simps [simp del] netmask_ones.simps [simp del] netmask_zeros.simps [simp del]

text \<open>Digits: only decimal ones, no leading zero, at most three, with the value of the byte.\<close>

lemma inv_digits_digits: "d \<in> set (inv_digits b) \<Longrightarrow> lwip_isdigit d"
proof (induction b rule: inv_digits.induct)
  case (1 b)
  have "lwip_isdigit (0x30 + b mod 10)" by (simp add: isdigit_nat ntoa_digit_char del: unat_0)
  then show ?case using 1 by (subst (asm) (2) inv_digits.simps) (auto split: if_splits)
qed

lemma inv_digits_last: "b \<noteq> 0 \<Longrightarrow> last (inv_digits b) \<noteq> 0x30"
proof (induction b rule: inv_digits.induct)
  case (1 b)
  show ?case
  proof (cases "b div 10 = 0")
    case True
    have "unat b div 10 = 0" using True unat_div [of b 10] by simp
    then have "unat b mod 10 = unat b" by simp
    then have "unat (0x30 + b mod 10 :: u8) \<noteq> 48" using 1(2) ntoa_digit_char [of b] by (simp add: unat_eq_0)
    then have "(0x30 + b mod 10 :: u8) \<noteq> 0x30" by (intro notI) simp
    then show ?thesis using True by (subst inv_digits.simps) simp
  next
    case False
    then have "inv_digits (b div 10) \<noteq> []" by (subst inv_digits.simps) simp
    then show ?thesis using 1(1) [OF False False] False by (subst inv_digits.simps) simp
  qed
qed

lemma inv_digits_length: "length (inv_digits b) \<le> 3"
proof -
  have 1: "length (inv_digits a) \<le> 1" if "unat a < 10" for a
  proof -
    have "a div 10 = 0" using that by (simp add: unat_eq_zero [symmetric] unat_div)
    then show ?thesis by (subst inv_digits.simps) simp
  qed
  have 2: "length (inv_digits a) \<le> 2" if "unat a < 100" for a
    using 1 [of "a div 10"] that by (subst inv_digits.simps) (auto simp: unat_div)
  have "unat b div 10 < 100" using unat_u8_less [of b] by linarith
  then have "unat (b div 10) < 100" by (simp add: unat_div)
  then show ?thesis using 2 [of "b div 10"] by (subst inv_digits.simps) auto
qed

definition dec_step :: "u32 \<Rightarrow> u8 \<Rightarrow> u32" where
  "dec_step v d = v * 10 + (ucast d - 0x30)"

lemma inv_digits_value: "foldr (\<lambda>d v. dec_step v d) (inv_digits b) 0 = ucast b"
proof (induction b rule: inv_digits.induct)
  case (1 b)
  have d: "unat (ucast (0x30 + b mod 10 :: u8) - 0x30 :: u32) = unat b mod 10"
    by (simp add: unat_sub_if' ntoa_digit_char del: unat_0)
  have "unat (dec_step (ucast (b div 10)) (0x30 + b mod 10)) = unat b"
  proof -
    have "unat b div 10 * 10 + unat b mod 10 = unat b" by simp
    moreover have "unat (ucast (b div 10) * 10 :: u32) = unat b div 10 * 10"
      using less_imp_diff_less [OF unat_u8_less [of b], of "unat b - unat b div 10"] by (simp add: unat_word_ariths unat_div)
    ultimately show ?thesis using d unat_u8_less [of b] by (simp add: dec_step_def unat_word_ariths del: unat_u8_less)
  qed
  then have step: "dec_step (ucast (b div 10)) (0x30 + b mod 10) = ucast b" by (simp add: word_unat_eq_iff)
  show ?case
  proof (cases "b div 10 = 0")
    case True
    then show ?thesis using step by (subst inv_digits.simps) simp
  next
    case False
    then show ?thesis using step 1 by (subst inv_digits.simps) simp
  qed
qed

definition byte_text :: "u8 \<Rightarrow> u8 list" where
  "byte_text b = rev (inv_digits b)"

lemma byte_text:
  "byte_text b \<noteq> []" "length (byte_text b) \<le> 3" "d \<in> set (byte_text b) \<Longrightarrow> lwip_isdigit d"
  "foldl dec_step 0 (byte_text b) = ucast b" "b \<noteq> 0 \<Longrightarrow> hd (byte_text b) \<noteq> 0x30" "byte_text 0 = [0x30]"
proof -
  show "byte_text b \<noteq> []" unfolding byte_text_def by (subst inv_digits.simps) simp
  then have "inv_digits b \<noteq> []" by (simp add: byte_text_def)
  then show "b \<noteq> 0 \<Longrightarrow> hd (byte_text b) \<noteq> 0x30" using inv_digits_last by (simp add: byte_text_def hd_rev)
  show "byte_text 0 = [0x30]" unfolding byte_text_def by (subst inv_digits.simps) simp
  show "foldl dec_step 0 (byte_text b) = ucast b"
    using inv_digits_value [of b] by (simp add: byte_text_def foldl_conv_foldr)
qed (simp_all add: byte_text_def inv_digits_length inv_digits_digits)

lemma aton_digits_text:
  "rdbytes m cp (Suc (length ds)) = ds @ [c] \<Longrightarrow> (\<And>d. d \<in> set ds \<Longrightarrow> lwip_isdigit d) \<Longrightarrow> \<not> lwip_isdigit c \<Longrightarrow> base \<noteq> 16 \<Longrightarrow>
    aton_digits m base cp v = Some (foldl (\<lambda>v d. v * base + (ucast d - 0x30)) v ds, cp + of_nat (length ds))"
proof (induction ds arbitrary: cp v)
  case Nil
  then show ?case by (subst aton_digits.simps) simp
next
  case (Cons d ds)
  then have "m cp = d" "lwip_isdigit d" "rdbytes m (cp + 1) (Suc (length ds)) = ds @ [c]" by simp_all
  then show ?case using Cons by (subst aton_digits.simps) (simp add: add.assoc)
qed

lemma aton_part:
  assumes t: "rdbytes m cp (Suc (length (byte_text b))) = byte_text b @ [c]" and c: "c = 0x2E \<or> c = 0"
  shows "aton_parts m cp parts =
    (if c = 0x2E then
       if length parts \<ge> 3 then Some None else aton_parts m (cp + of_nat (Suc (length (byte_text b)))) (parts @ [ucast b])
     else Some (Some (parts, ucast b, cp + of_nat (length (byte_text b)))))"
proof -
  have nd: "\<not> lwip_isdigit c" using c by (auto simp: isdigit_nat)
  have mc: "m (cp + of_nat (length (byte_text b))) = c"
    using arg_cong [OF t, of "\<lambda>xs. xs ! length (byte_text b)"] nth_rdbytes [of "length (byte_text b)" "Suc (length (byte_text b))" m cp]
    by simp
  have cp: "m cp = hd (byte_text b)" using t byte_text(1) [of b] by (cases "byte_text b") auto
  then have dig: "lwip_isdigit (m cp)" using byte_text(1) [of b] byte_text(3) [OF hd_in_set] by simp
  have "(if m cp = 0x30 then if m (cp + 1) = 0x78 \<or> m (cp + 1) = 0x58 then (16, cp + 2) else (8, cp + 1) else (10, cp)) =
      (if b = 0 then (8, cp + 1) else (10 :: u32, cp))"
  proof (cases "b = 0")
    case True
    then have "m cp = 0x30" "m (cp + 1) = c" using t byte_text(6) by simp_all
    then show ?thesis using True c by auto
  next
    case False
    then show ?thesis using cp byte_text(5) by simp
  qed
  moreover have "(case (if b = 0 then (8, cp + 1) else (10 :: u32, cp)) of (base, cp) \<Rightarrow> aton_digits m base cp 0) =
      Some (ucast b, cp + of_nat (length (byte_text b)))"
  proof (cases "b = 0")
    case True
    then show ?thesis using aton_digits_text [of m "cp + 1" "[]" c 8 0] t nd byte_text(6) by simp
  next
    case False
    have "foldl (\<lambda>v d. v * 10 + (ucast d - 0x30)) 0 (byte_text b) = (ucast b :: u32)"
      using byte_text(4) [of b] by (simp add: dec_step_def [abs_def])
    then show ?thesis using aton_digits_text [OF t byte_text(3) nd, where base = "10" and v = "0"] False by simp
  qed
  ultimately show ?thesis using dig mc c
    by (subst aton_parts.simps) (cases "b = 0", auto simp: add.assoc ac_simps)
qed

fun dotted :: "u8 list \<Rightarrow> u8 list" where
  "dotted [] = []"
| "dotted [b] = byte_text b @ [0]"
| "dotted (b # bs) = byte_text b @ 0x2E # dotted bs"

lemma rdbytes_parts:
  assumes "rdbytes m a (length (xs @ ys)) = xs @ ys"
  shows "rdbytes m a (length xs) = xs" and "rdbytes m (a + of_nat (length xs)) (length ys) = ys"
  using assms by (simp_all add: rdbytes_add)

lemma aton_parts_dotted:
  "rdbytes m cp (length (dotted bs)) = dotted bs \<Longrightarrow> bs \<noteq> [] \<Longrightarrow> length parts + length bs \<le> 4 \<Longrightarrow>
    \<exists>e. aton_parts m cp parts = Some (Some (parts @ map ucast (butlast bs), ucast (last bs), e)) \<and> m e = 0"
proof (induction bs arbitrary: cp parts rule: dotted.induct)
  case (2 b)
  have t: "rdbytes m cp (Suc (length (byte_text b))) = byte_text b @ [0]" using 2(1) by simp
  then have "m (cp + of_nat (length (byte_text b))) = 0"
    using rdbytes_parts(2) [of m cp "byte_text b" "[0]"] by simp
  then show ?case using aton_part [OF t] by simp
next
  case (3 b b' bs)
  let ?t = "byte_text b @ [0x2E]"
  have t: "rdbytes m cp (length (?t @ dotted (b' # bs))) = ?t @ dotted (b' # bs)" using 3(2) by simp
  have "rdbytes m cp (Suc (length (byte_text b))) = byte_text b @ [0x2E]" using rdbytes_parts(1) [OF t] by simp
  from aton_part [OF this, of parts]
  have "aton_parts m cp parts = aton_parts m (cp + of_nat (length ?t)) (parts @ [ucast b])" using 3(4) by simp
  moreover have "rdbytes m (cp + of_nat (length ?t)) (length (dotted (b' # bs))) = dotted (b' # bs)"
    using rdbytes_parts(2) [OF t] .
  ultimately show ?case using 3(1) [of "cp + of_nat (length ?t)" "parts @ [ucast b]"] 3(4) by simp
qed simp

lemma ntoa_put_text:
  "len + int (length cs) \<le> buflen \<Longrightarrow>
    ntoa_put buflen cs (rp, len, m) = Inr (rp + of_nat (length cs), len + int (length cs), wrbytes m rp cs)"
  by (induction cs arbitrary: rp len m) (auto simp: add.assoc)

definition dot_text :: "u8 list \<Rightarrow> u8 list" where
  "dot_text bs = concat (map (\<lambda>b. byte_text b @ [0x2E]) bs)"

lemma ntoa_bytes_text:
  "len + int (length (dot_text bs)) \<le> buflen \<Longrightarrow>
    ntoa_bytes buflen bs (rp, len, m) =
      Inr (rp + of_nat (length (dot_text bs)), len + int (length (dot_text bs)), wrbytes m rp (dot_text bs))"
proof (induction bs arbitrary: rp len m)
  case (Cons b bs)
  have d: "dot_text (b # bs) = byte_text b @ 0x2E # dot_text bs" by (simp add: dot_text_def)
  have "ntoa_put buflen (rev (inv_digits b)) (rp, len, m) =
      Inr (rp + of_nat (length (byte_text b)), len + int (length (byte_text b)), wrbytes m rp (byte_text b))"
    using ntoa_put_text [of len "byte_text b" buflen rp m] Cons.prems d by (simp add: byte_text_def)
  then show ?case using Cons d by (simp add: wrbytes_append add.assoc ac_simps fun_upd_def)
qed (simp add: dot_text_def)

lemma dot_text_dotted: "bs \<noteq> [] \<Longrightarrow> \<exists>t. dot_text bs = t @ [0x2E] \<and> dotted bs = t @ [0]"
  by (induction bs rule: dotted.induct) (auto simp: dot_text_def)

lemma dot_text_length: "length (dot_text bs) \<le> 4 * length bs"
proof (induction bs)
  case (Cons b bs)
  then show ?case using byte_text(2) [of b] by (simp add: dot_text_def)
qed (simp add: dot_text_def)

lemma ip4addr_ntoa_r_text:
  assumes "16 \<le> buflen"
  shows "ip4addr_ntoa_r addr buf buflen m = (buf, wrbytes m buf (dotted (le32 addr)))"
proof -
  have "le32 addr \<noteq> []" by (simp add: le32_def)
  from dot_text_dotted [OF this] obtain t where t: "dot_text (le32 addr) = t @ [0x2E]" "dotted (le32 addr) = t @ [0]" by blast
  have "length (dot_text (le32 addr)) \<le> 16" using dot_text_length [of "le32 addr"] by (simp add: le32_def)
  then have "ntoa_bytes buflen (le32 addr) (buf, 0, m) =
      Inr (buf + of_nat (length (dot_text (le32 addr))), int (length (dot_text (le32 addr))), wrbytes m buf (dot_text (le32 addr)))"
    using ntoa_bytes_text [of 0 "le32 addr" buflen buf m] assms by simp
  then show ?thesis by (simp add: ip4addr_ntoa_r_def t wrbytes_append)
qed

lemma lwip_htonl_bytes:
  "lwip_htonl (ucast d OR (push_bit 24 (ucast a) OR push_bit 16 (ucast b) OR push_bit 8 (ucast c))) = of_le32 a b c (d :: u8)"
proof -
  have masks: "(0x000000FF :: u32) = mask 8" "(0x0000FF00 :: u32) = push_bit 8 (mask 8)" "(0x00FF0000 :: u32) = push_bit 16 (mask 8)"
    "(0xFF000000 :: u32) = push_bit 24 (mask 8)" by (simp_all add: mask_eq_exp_minus_1 push_bit_eq_mult)
  show ?thesis
  proof (rule bit_word_eqI)
    fix n
    assume "n < LENGTH(32)"
    then consider "n < 8" | "8 \<le> n" "n < 16" | "16 \<le> n" "n < 24" | "24 \<le> n" "n < 32" by fastforce
    then show "bit (lwip_htonl (ucast d OR (push_bit 24 (ucast a) OR push_bit 16 (ucast b) OR push_bit 8 (ucast c)))) n =
        bit (of_le32 a b c d) n"
      unfolding lwip_htonl_def masks of_le32_def by cases (auto simp: bit_simps dest: bit_imp_le_length)
  qed
qed

text \<open>(C38) The text that \<open>ip4addr_ntoa\<close> writes fits its buffer of 16 bytes for every address, nothing else is written, and
  \<open>ip4addr_aton\<close> reads it back to the same address.\<close>

theorem ip4addr_ntoa_aton:
  "\<exists>m'. ip4addr_ntoa str addr m = (str, m') \<and> (\<forall>x. \<not> in_range x str 16 \<longrightarrow> m' x = m x) \<and>
    ip4addr_aton m' str = Some (Some addr)"
proof -
  let ?b = "le32 addr" and ?m = "wrbytes m str (dotted (le32 addr))"
  have run: "ip4addr_ntoa str addr m = (str, ?m)"
    using ip4addr_ntoa_r_text [of 16] by (simp add: ip4addr_ntoa_def IP4ADDR_STRLEN_MAX_def)
  have ne: "?b \<noteq> []" by (simp add: le32_def)
  then have len: "length (dotted ?b) \<le> 16"
    using dot_text_dotted [of ?b] dot_text_length [of ?b] by (auto simp: le32_def)
  then have "?m x = m x" if "\<not> in_range x str 16" for x
    using that in_rangeI by (intro wrbytes_outside) fastforce
  moreover have "rdbytes ?m str (length (dotted ?b)) = dotted ?b" using len by (intro rdbytes_wrbytes) simp
  from aton_parts_dotted [OF this ne, of "[]"] obtain e where e: "aton_parts ?m str [] =
      Some (Some (map ucast (butlast ?b), ucast (last ?b), e))" "?m e = 0" by (auto simp: le32_def)
  have le: "\<not> (ucast c :: u32) > 0xFF" for c :: u8
    using unat_u8_less [of c] by (simp add: word_less_nat_alt not_less del: unat_u8_less)
  have "ip4addr_aton ?m str = Some (Some (of_le32 (?b ! 0) (?b ! 1) (?b ! 2) (?b ! 3)))"
    using e le by (simp add: ip4addr_aton_def aton_combine_def le32_def lwip_htonl_bytes)
  then have "ip4addr_aton ?m str = Some (Some addr)" by (simp add: le32_def)
  ultimately show ?thesis using run by blast
qed

text \<open>(C38) Witness: the address 127.0.0.1.\<close>

theorem ip4addr_ntoa_aton_witness:
  "\<exists>m'. ip4addr_ntoa 0x2200 0x0100007f (\<lambda>_. 0xff) = (0x2200, m') \<and> m' 0x2210 = 0xff \<and>
    ip4addr_aton m' 0x2200 = Some (Some 0x0100007f)"
proof -
  have "\<not> in_range 0x2210 0x2200 16" by (simp add: in_range_def)
  then show ?thesis using ip4addr_ntoa_aton [of "0x2200" "0x0100007f" "\<lambda>_. 0xff"] by metis
qed

subsection \<open>Valid netmasks\<close>

lemma and_single_bit:
  assumes "i < 32"
  shows "nm AND push_bit i 1 = 0 \<longleftrightarrow> \<not> bit (nm :: u32) i"
proof
  assume "nm AND push_bit i 1 = 0"
  then have "bit (nm AND push_bit i 1) i = bit (0 :: u32) i" by (simp only:)
  then show "\<not> bit nm i" using assms by (simp add: bit_simps)
next
  assume "\<not> bit nm i"
  then show "nm AND push_bit i 1 = 0" by (intro bit_eqI) (auto simp: bit_simps)
qed

lemma single_bit_shift: "Suc i < 32 \<Longrightarrow> drop_bit 1 (push_bit (Suc i) 1 :: u32) = push_bit i 1"
  by (rule bit_word_eqI) (auto simp: bit_simps)

lemma single_bit_nonzero: "i < 32 \<Longrightarrow> (push_bit i 1 :: u32) \<noteq> 0"
  using arg_cong [of "push_bit i (1 :: u32)" 0 "\<lambda>w. bit w i"] by (auto simp: bit_simps)

lemma netmask_ones_spec:
  "i < 32 \<Longrightarrow> (\<exists>j \<le> i. netmask_ones nm (push_bit i 1) = push_bit j 1 \<and> \<not> bit nm j \<and> (\<forall>l. j < l \<longrightarrow> l \<le> i \<longrightarrow> bit nm l)) \<or>
    netmask_ones nm (push_bit i 1) = 0 \<and> (\<forall>l \<le> i. bit nm l)"
proof (induction i)
  case 0
  have "netmask_ones nm 0 = 0" by (subst netmask_ones.simps) simp
  then show ?case using and_single_bit [of 0 nm] by (subst (1 2) netmask_ones.simps) auto
next
  case (Suc i)
  show ?case
  proof (cases "bit nm (Suc i)")
    case True
    have "netmask_ones nm (push_bit (Suc i) 1) = netmask_ones nm (push_bit i 1)"
      using Suc.prems True and_single_bit [of "Suc i" nm] single_bit_nonzero [of "Suc i"] single_bit_shift [of i]
      by (subst netmask_ones.simps) simp
    then show ?thesis using Suc True by (auto simp: le_Suc_eq)
  next
    case False
    have "netmask_ones nm (push_bit (Suc i) 1) = push_bit (Suc i) 1"
      using Suc.prems False and_single_bit [of "Suc i" nm] single_bit_nonzero [of "Suc i"] by (subst netmask_ones.simps) simp
    then show ?thesis using False by auto
  qed
qed

lemma netmask_zeros_spec: "i < 32 \<Longrightarrow> netmask_zeros nm (push_bit i 1) = (if \<forall>l \<le> i. \<not> bit nm l then 1 else 0)"
proof (induction i)
  case 0
  have "netmask_zeros nm 0 = 1" by (subst netmask_zeros.simps) simp
  then show ?case using and_single_bit [of 0 nm] by (subst netmask_zeros.simps) auto
next
  case (Suc i)
  have "netmask_zeros nm (push_bit (Suc i) 1) = (if bit nm (Suc i) then 0 else netmask_zeros nm (push_bit i 1))"
    using Suc.prems and_single_bit [of "Suc i" nm] single_bit_nonzero [of "Suc i"] single_bit_shift [of i]
    by (subst netmask_zeros.simps) simp
  then show ?case using Suc by (auto simp: le_Suc_eq)
qed

text \<open>A netmask is valid exactly when its bits, in host order, are ones followed by zeros.\<close>

theorem ip4_addr_netmask_valid_iff:
  "ip4_addr_netmask_valid netmask = 1 \<longleftrightarrow> (\<exists>k. \<forall>i < 32. bit (lwip_htonl netmask) i \<longleftrightarrow> k \<le> i)"
proof -
  let ?n = "lwip_htonl netmask"
  have z: "netmask_zeros ?n 0 = 1" by (subst netmask_zeros.simps) simp
  have v: "ip4_addr_netmask_valid netmask = netmask_zeros ?n (netmask_ones ?n (push_bit 31 1))"
    unfolding ip4_addr_netmask_valid_def Let_def ..
  have "31 < (32 :: nat)" by simp
  from netmask_ones_spec [OF this, of ?n]
  consider "ip4_addr_netmask_valid netmask = 1" "\<forall>l < 32. bit ?n l"
    | j where "j < 32" "ip4_addr_netmask_valid netmask = (if \<forall>l \<le> j. \<not> bit ?n l then 1 else 0)" "\<not> bit ?n j"
        "\<forall>l. j < l \<longrightarrow> l < 32 \<longrightarrow> bit ?n l"
  proof (elim disjE exE conjE)
    fix j :: nat
    assume j: "j \<le> 31" "netmask_ones ?n (push_bit 31 1) = push_bit j 1" "\<not> bit ?n j" "\<forall>l. j < l \<longrightarrow> l \<le> 31 \<longrightarrow> bit ?n l"
    then show thesis using that(2) [of j] netmask_zeros_spec [of j ?n] unfolding v j(2) by auto
  next
    assume "netmask_ones ?n (push_bit 31 1) = 0" "\<forall>l \<le> 31. bit ?n l"
    then show thesis using that(1) z unfolding v by auto
  qed
  then show ?thesis
  proof cases
    case 1
    then show ?thesis by (auto intro: exI [of _ 0])
  next
    case 2
    show ?thesis
    proof
      assume v: "ip4_addr_netmask_valid netmask = 1"
      then have "\<forall>l \<le> j. \<not> bit ?n l" using 2(2) by (auto split: if_splits)
      then show "\<exists>k. \<forall>i < 32. bit ?n i \<longleftrightarrow> k \<le> i" using 2(4) by (intro exI [of _ "Suc j"]) (auto simp: not_less_eq_eq)
    next
      assume "\<exists>k. \<forall>i < 32. bit ?n i \<longleftrightarrow> k \<le> i"
      then obtain k where k: "\<forall>i < 32. bit ?n i \<longleftrightarrow> k \<le> i" by blast
      then have "\<not> k \<le> j" using 2(1,3) by blast
      then have "\<forall>l \<le> j. \<not> bit ?n l" using k 2(1) by auto
      then show "ip4_addr_netmask_valid netmask = 1" using 2(2) by simp
    qed
  qed
qed

end
