(* ===== verification/Http_Client.thy ===== *)
theory Http_Client
  imports Http_Parse Http_Download Lwip_Ip4
begin

text \<open>
  The HTTP client of lwIP (http_client.c) on the packet buffers of pbuf.c. Its handlers are called by TCP; they call
  the data and the result function of the application, so that a handler is a \<open>run\<close> with these calls as nodes. TCP (the
  functions \<open>altcp_*\<close>) is a parameter over the whole state; the functions that TCP gets are given by a flag, which
  is \<open>False\<close> for the null pointer. The connection settings belong to the caller and are read when they are used.

  The options of the application have no DNS and no file system, so \<open>httpc_dns_found\<close> and the functions that write to a file
  are not compiled. A failed \<open>LWIP_ASSERT\<close> or \<open>LWIP_ERROR\<close> does not return (\<open>Stuck\<close> or \<open>None\<close>).
\<close>

subsection \<open>State\<close>

definition HTTPC_RESULT_ERR_CLOSED :: u32 where "HTTPC_RESULT_ERR_CLOSED = 4"
definition HTTPC_RESULT_ERR_TIMEOUT :: u32 where "HTTPC_RESULT_ERR_TIMEOUT = 5"
definition HTTPC_RESULT_ERR_MEM :: u32 where "HTTPC_RESULT_ERR_MEM = 7"
definition HTTPC_RESULT_LOCAL_ABORT :: u32 where "HTTPC_RESULT_LOCAL_ABORT = 8"
definition HTTPC_RESULT_ERR_CONTENT_LEN :: u32 where "HTTPC_RESULT_ERR_CONTENT_LEN = 9"
definition HTTPC_POLL_INTERVAL :: u8 where "HTTPC_POLL_INTERVAL = 1"
definition HTTPC_POLL_TIMEOUT :: int where "HTTPC_POLL_TIMEOUT = 30"
definition HTTP_DEFAULT_PORT :: u16 where "HTTP_DEFAULT_PORT = 80"
definition TCP_WRITE_FLAG_COPY :: u8 where "TCP_WRITE_FLAG_COPY = 1"

datatype httpc_parse_state_t = HTTPC_PARSE_WAIT_FIRST_LINE | HTTPC_PARSE_WAIT_HEADERS | HTTPC_PARSE_RX_DATA

record httpc_state_t =
  pcb :: ptr
  remote_addr :: u32
  remote_port :: u16
  timeout_ticks :: int
  request :: ptr
  rx_hdrs :: ptr
  rx_http_version :: u16
  rx_status :: u16
  recv_fn :: ptr
  conn_settings :: ptr
  callback_arg :: ptr
  rx_content_len :: u32
  hdr_content_len :: u32
  parse_state :: httpc_parse_state_t

definition SIZEOF_HTTPC_STATE_T :: u32 where "SIZEOF_HTTPC_STATE_T = 52"

text \<open>The state of lwIP: the packet buffers, the request structures on the heap, and the rest.\<close>

record ('x, 'w) lw_state =
  pst :: "'x pstate"
  httpcs :: "ptr \<Rightarrow> httpc_state_t option"
  core :: 'w

type_synonym ('e, 'd, 'x, 'w) hsys = "('e, 'd, ('x, 'w) lw_state) sys"

record 's httpc_connection_t =
  proxy_addr :: u32
  proxy_port :: u16
  use_proxy :: u8
  altcp_allocator :: ptr
  result_fn :: bool
  headers_done_fn :: "(ptr \<Rightarrow> ptr \<Rightarrow> ptr \<Rightarrow> u16 \<Rightarrow> u32 \<Rightarrow> 's \<Rightarrow> err_t \<times> 's) option"

record 's altcp =
  alt_new :: "ptr \<Rightarrow> 's \<Rightarrow> ptr \<times> 's"
  alt_arg :: "ptr \<Rightarrow> ptr \<Rightarrow> 's \<Rightarrow> 's"
  alt_recv :: "ptr \<Rightarrow> bool \<Rightarrow> 's \<Rightarrow> 's"
  alt_err :: "ptr \<Rightarrow> bool \<Rightarrow> 's \<Rightarrow> 's"
  alt_poll :: "ptr \<Rightarrow> bool \<Rightarrow> u8 \<Rightarrow> 's \<Rightarrow> 's"
  alt_sent :: "ptr \<Rightarrow> bool \<Rightarrow> 's \<Rightarrow> 's"
  alt_connect :: "ptr \<Rightarrow> u32 \<Rightarrow> u16 \<Rightarrow> 's \<Rightarrow> err_t \<times> 's"
  alt_write :: "ptr \<Rightarrow> u8 list \<Rightarrow> u8 \<Rightarrow> 's \<Rightarrow> err_t \<times> 's"
  alt_output :: "ptr \<Rightarrow> 's \<Rightarrow> err_t \<times> 's"
  alt_recved :: "ptr \<Rightarrow> u16 \<Rightarrow> 's \<Rightarrow> 's"
  alt_close :: "ptr \<Rightarrow> 's \<Rightarrow> err_t \<times> 's"
  alt_abort :: "ptr \<Rightarrow> 's \<Rightarrow> 's"

text \<open>What the client is linked with: the heap, TCP, the settings at an address, and the addresses of its local arrays
  and of the static buffer of \<open>ip4addr_ntoa\<close>.\<close>

record ('x, 's) httpc_env =
  hmem :: "'x mem_api"
  htcp :: "'s altcp"
  hconn :: "ptr \<Rightarrow> 's httpc_connection_t"
  status_num :: ptr
  content_len_num :: ptr
  ntoa_str :: ptr

text \<open>Access to the parts of the state.\<close>

definition set_pst :: "'x pstate \<Rightarrow> ('e, 'd, 'x, 'w) hsys \<Rightarrow> ('e, 'd, 'x, 'w) hsys" where
  "set_pst st s = s\<lparr>lwst := (lwst s)\<lparr>pst := st\<rparr>\<rparr>"

definition get_req :: "ptr \<Rightarrow> ('e, 'd, 'x, 'w) hsys \<Rightarrow> httpc_state_t option" where
  "get_req r s = httpcs (lwst s) r"

definition set_req :: "ptr \<Rightarrow> httpc_state_t \<Rightarrow> ('e, 'd, 'x, 'w) hsys \<Rightarrow> ('e, 'd, 'x, 'w) hsys" where
  "set_req r q s = s\<lparr>lwst := (lwst s)\<lparr>httpcs := (httpcs (lwst s))(r \<mapsto> q)\<rparr>\<rparr>"

definition free_pbuf :: "('x, ('e, 'd, 'x, 'w) hsys) httpc_env \<Rightarrow> ptr \<Rightarrow> ('e, 'd, 'x, 'w) hsys \<Rightarrow> ('e, 'd, 'x, 'w) hsys option" where
  "free_pbuf E p s = map_option (\<lambda>(_, st). set_pst st s) (pbuf_free (hmem E) p (pst (lwst s)))"

text \<open>\<open>mem_free\<close> of a request structure.\<close>

definition free_req ::
    "('x, ('e, 'd, 'x, 'w) hsys) httpc_env \<Rightarrow> ptr \<Rightarrow> ('e, 'd, 'x, 'w) hsys \<Rightarrow> ('e, 'd, 'x, 'w) hsys option" where
  "free_req E r s =
     map_option (\<lambda>h. s\<lparr>lwst := (lwst s)\<lparr>httpcs := (httpcs (lwst s))(r := None), pst := (pst (lwst s))\<lparr>heap := h\<rparr>\<rparr>\<rparr>)
       (api_free (hmem E) r (heap (pst (lwst s))))"

subsection \<open>Closing\<close>

definition httpc_free_state ::
    "('x, ('e, 'd, 'x, 'w) hsys) httpc_env \<Rightarrow> ptr \<Rightarrow> ('e, 'd, 'x, 'w) hsys \<Rightarrow> (err_t \<times> ('e, 'd, 'x, 'w) hsys) option" where
  "httpc_free_state E r s =
     do {
       q \<leftarrow> get_req r s;
       s \<leftarrow> (if request q \<noteq> NULL then map_option (set_req r (q\<lparr>request := NULL\<rparr>)) (free_pbuf E (request q) s) else Some s);
       q \<leftarrow> get_req r s;
       s \<leftarrow> (if rx_hdrs q \<noteq> NULL then map_option (set_req r (q\<lparr>rx_hdrs := NULL\<rparr>)) (free_pbuf E (rx_hdrs q) s) else Some s);
       q \<leftarrow> get_req r s;
       s \<leftarrow> free_req E r s;
       let tpcb = pcb q in
       if tpcb \<noteq> NULL then
         let s = alt_arg (htcp E) tpcb NULL s;
             s = alt_recv (htcp E) tpcb False s;
             s = alt_err (htcp E) tpcb False s;
             s = alt_poll (htcp E) tpcb False 0 s;
             s = alt_sent (htcp E) tpcb False s;
             (e, s) = alt_close (htcp E) tpcb s in
         if e \<noteq> ERR_OK then Some (ERR_ABRT, alt_abort (htcp E) tpcb s) else Some (ERR_OK, s)
       else Some (ERR_OK, s)
     }"

text \<open>The end of a handler that makes no more calls to the application.\<close>

definition finish :: "('r \<times> 's) option \<Rightarrow> ('s, 'r) run" where
  "finish x = (case x of None \<Rightarrow> Stuck | Some (r, s) \<Rightarrow> Ret r s)"

definition httpc_close ::
    "('x, ('e, 'd, 'x, 'w) hsys) httpc_env \<Rightarrow> ptr \<Rightarrow> u32 \<Rightarrow> u32 \<Rightarrow> err_t \<Rightarrow> ('e, 'd, 'x, 'w) hsys \<Rightarrow>
      (('e, 'd, 'x, 'w) hsys, err_t) run" where
  "httpc_close E r result server_response err s =
     (if r \<noteq> NULL then
        (case get_req r s of
           None \<Rightarrow> Stuck
         | Some q \<Rightarrow>
             if conn_settings q \<noteq> NULL \<and> result_fn (hconn E (conn_settings q)) then
               HttpResult result (rx_content_len q) server_response err s (\<lambda>s. finish (httpc_free_state E r s))
             else finish (httpc_free_state E r s))
      else Ret ERR_OK s)"

subsection \<open>Receiving\<close>

text \<open>A chain as the application sees it.\<close>

partial_function (option) view_chain :: "'x pstate \<Rightarrow> ptr \<Rightarrow> (ptr \<times> u16) list option" where
  "view_chain st p =
     (if p = NULL then Some []
      else case pbufs st p of
        None \<Rightarrow> None
      | Some b \<Rightarrow> do { ch \<leftarrow> view_chain st (p_next b); Some ((p_payload b, p_len b) # ch) })"

definition view_pbuf :: "'x pstate \<Rightarrow> ptr \<Rightarrow> pbuf option" where
  "view_pbuf st p =
     (case (pbufs st p, view_chain st p) of
        (Some b, Some ch) \<Rightarrow> Some \<lparr>pb_ptr = p, pb_chain = ch, tot_len = p_tot_len b\<rparr>
      | _ \<Rightarrow> None)"

text \<open>The last part of \<open>httpc_tcp_recv\<close>: data of the body goes to the application.\<close>

definition httpc_recv_data ::
    "('x, ('e, 'd, 'x, 'w) hsys) httpc_env \<Rightarrow> ptr \<Rightarrow> ptr \<Rightarrow> ptr \<Rightarrow> err_t \<Rightarrow> ('e, 'd, 'x, 'w) hsys \<Rightarrow>
      (('e, 'd, 'x, 'w) hsys, err_t) run" where
  "httpc_recv_data E r tpcb p err s =
     (case get_req r s of
        None \<Rightarrow> Stuck
      | Some q \<Rightarrow>
          if p \<noteq> NULL \<and> parse_state q = HTTPC_PARSE_RX_DATA then
            (case pbufs (pst (lwst s)) p of
               None \<Rightarrow> Stuck
             | Some b \<Rightarrow>
                 let s = set_req r (q\<lparr>timeout_ticks := HTTPC_POLL_TIMEOUT, rx_content_len := rx_content_len q + ucast (p_tot_len b)\<rparr>) s in
                 if recv_fn q \<noteq> NULL then
                   (case view_pbuf (pst (lwst s)) p of
                      None \<Rightarrow> Stuck
                    | Some pb \<Rightarrow> HttpData (Some pb) err s (\<lambda>e s. Ret e s))
                 else finish (map_option (\<lambda>s. (ERR_OK, s)) (free_pbuf E p (alt_recved (htcp E) tpcb (p_tot_len b) s))))
          else Ret ERR_OK s)"

text \<open>The part after all headers have been received: the header is removed from the packet buffers.\<close>

definition httpc_headers_done ::
    "('x, ('e, 'd, 'x, 'w) hsys) httpc_env \<Rightarrow> ptr \<Rightarrow> ptr \<Rightarrow> u16 \<Rightarrow> err_t \<Rightarrow> ('e, 'd, 'x, 'w) hsys \<Rightarrow>
      (('e, 'd, 'x, 'w) hsys, err_t) run" where
  "httpc_headers_done E r tpcb total_header_len err s =
     (let s = alt_recved (htcp E) tpcb total_header_len s in
      case get_req r s of
        None \<Rightarrow> Stuck
      | Some q \<Rightarrow>
          let (e, s) =
            (case (if conn_settings q \<noteq> NULL then headers_done_fn (hconn E (conn_settings q)) else None) of
               None \<Rightarrow> (ERR_OK, s)
             | Some f \<Rightarrow> f r (callback_arg q) (rx_hdrs q) total_header_len (hdr_content_len q) s) in
          (case get_req r s of
             None \<Rightarrow> Stuck
           | Some q \<Rightarrow>
               if e \<noteq> ERR_OK then httpc_close E r HTTPC_RESULT_LOCAL_ABORT (ucast (rx_status q)) e s
               else
                 (case pbuf_free_header (hmem E) (rx_hdrs q) total_header_len (pst (lwst s)) of
                    None \<Rightarrow> Stuck
                  | Some (p, st) \<Rightarrow>
                      httpc_recv_data E r tpcb p err
                        (set_req r (q\<lparr>rx_hdrs := NULL, parse_state := HTTPC_PARSE_RX_DATA\<rparr>) (set_pst st s)))))"

text \<open>The status line and the headers; the variable behind \<open>total_header_len\<close> is set when the headers are complete.\<close>

definition httpc_recv_headers ::
    "('x, ('e, 'd, 'x, 'w) hsys) httpc_env \<Rightarrow> ptr \<Rightarrow> ptr \<Rightarrow> ptr \<Rightarrow> err_t \<Rightarrow> ('e, 'd, 'x, 'w) hsys \<Rightarrow>
      (('e, 'd, 'x, 'w) hsys, err_t) run" where
  "httpc_recv_headers E r tpcb p err s =
     (case get_req r s of
        None \<Rightarrow> Stuck
      | Some q \<Rightarrow>
          if parse_state q = HTTPC_PARSE_WAIT_HEADERS then
            (case http_wait_headers (content_len_num E) (pst (lwst s)) (rx_hdrs q) (hdr_content_len q) 0 (mem s) of
               None \<Rightarrow> Stuck
             | Some (e, content_len, total_header_len, m) \<Rightarrow>
                 let s = set_req r (q\<lparr>hdr_content_len := content_len\<rparr>) (s\<lparr>mem := m\<rparr>) in
                 if e = ERR_OK then httpc_headers_done E r tpcb total_header_len err s
                 else httpc_recv_data E r tpcb p err s)
          else httpc_recv_data E r tpcb p err s)"

definition httpc_recv_status ::
    "('x, ('e, 'd, 'x, 'w) hsys) httpc_env \<Rightarrow> ptr \<Rightarrow> ptr \<Rightarrow> ptr \<Rightarrow> err_t \<Rightarrow> ('e, 'd, 'x, 'w) hsys \<Rightarrow>
      (('e, 'd, 'x, 'w) hsys, err_t) run" where
  "httpc_recv_status E r tpcb p err s =
     (case get_req r s of
        None \<Rightarrow> Stuck
      | Some q \<Rightarrow>
          if parse_state q = HTTPC_PARSE_WAIT_FIRST_LINE then
            (case http_parse_response_status (status_num E) (pst (lwst s)) (rx_hdrs q)
                    \<lparr>so_version = rx_http_version q, so_status = rx_status q, so_str_offset = 0\<rparr> (mem s) of
               None \<Rightarrow> Stuck
             | Some (e, out, m) \<Rightarrow>
                 let q = q\<lparr>rx_http_version := so_version out, rx_status := so_status out\<rparr>;
                     q = (if e = ERR_OK then q\<lparr>parse_state := HTTPC_PARSE_WAIT_HEADERS\<rparr> else q) in
                 httpc_recv_headers E r tpcb p err (set_req r q (s\<lparr>mem := m\<rparr>)))
          else httpc_recv_headers E r tpcb p err s)"

definition httpc_tcp_recv ::
    "('x, ('e, 'd, 'x, 'w) hsys) httpc_env \<Rightarrow> ptr \<Rightarrow> ptr \<Rightarrow> ptr \<Rightarrow> err_t \<Rightarrow> ('e, 'd, 'x, 'w) hsys \<Rightarrow>
      (('e, 'd, 'x, 'w) hsys, err_t) run" where
  "httpc_tcp_recv E r tpcb p err s =
     (case get_req r s of
        None \<Rightarrow> Stuck
      | Some q \<Rightarrow>
          if p = NULL then
            let result =
              (if parse_state q \<noteq> HTTPC_PARSE_RX_DATA then HTTPC_RESULT_ERR_CLOSED
               else if hdr_content_len q \<noteq> HTTPC_CONTENT_LEN_INVALID \<and> hdr_content_len q \<noteq> rx_content_len q
                 then HTTPC_RESULT_ERR_CONTENT_LEN
               else HTTPC_RESULT_OK) in
            httpc_close E r result (ucast (rx_status q)) ERR_OK s
          else if parse_state q \<noteq> HTTPC_PARSE_RX_DATA then
            if rx_hdrs q = NULL then httpc_recv_status E r tpcb p err (set_req r (q\<lparr>rx_hdrs := p\<rparr>) s)
            else (case pbuf_cat (rx_hdrs q) p (pst (lwst s)) of
                    None \<Rightarrow> Stuck
                  | Some st \<Rightarrow> httpc_recv_status E r tpcb p err (set_pst st s))
          else httpc_recv_data E r tpcb p err s)"

subsection \<open>The other handlers\<close>

definition httpc_tcp_err ::
    "('x, ('e, 'd, 'x, 'w) hsys) httpc_env \<Rightarrow> ptr \<Rightarrow> err_t \<Rightarrow> ('e, 'd, 'x, 'w) hsys \<Rightarrow> (('e, 'd, 'x, 'w) hsys, err_t) run" where
  "httpc_tcp_err E r err s =
     (if r \<noteq> NULL then
        (case get_req r s of
           None \<Rightarrow> Stuck
         | Some q \<Rightarrow> httpc_close E r HTTPC_RESULT_ERR_CLOSED 0 err (set_req r (q\<lparr>pcb := NULL\<rparr>) s))
      else Ret ERR_OK s)"

definition httpc_tcp_poll ::
    "('x, ('e, 'd, 'x, 'w) hsys) httpc_env \<Rightarrow> ptr \<Rightarrow> ptr \<Rightarrow> ('e, 'd, 'x, 'w) hsys \<Rightarrow> (('e, 'd, 'x, 'w) hsys, err_t) run" where
  "httpc_tcp_poll E r tpcb s =
     (if r \<noteq> NULL then
        (case get_req r s of
           None \<Rightarrow> Stuck
         | Some q \<Rightarrow>
             let q = (if timeout_ticks q \<noteq> 0 then q\<lparr>timeout_ticks := timeout_ticks q - 1\<rparr> else q);
                 s = set_req r q s in
             if timeout_ticks q = 0 then httpc_close E r HTTPC_RESULT_ERR_TIMEOUT 0 ERR_OK s else Ret ERR_OK s)
      else Ret ERR_OK s)"

definition httpc_tcp_sent :: "ptr \<Rightarrow> ptr \<Rightarrow> u16 \<Rightarrow> 's \<Rightarrow> ('s, err_t) run" where
  "httpc_tcp_sent r tpcb len s = Ret ERR_OK s"

definition httpc_tcp_connected ::
    "('x, ('e, 'd, 'x, 'w) hsys) httpc_env \<Rightarrow> ptr \<Rightarrow> ptr \<Rightarrow> err_t \<Rightarrow> ('e, 'd, 'x, 'w) hsys \<Rightarrow>
      (('e, 'd, 'x, 'w) hsys, err_t) run" where
  "httpc_tcp_connected E r tpcb err s =
     (case get_req r s of
        None \<Rightarrow> Stuck
      | Some q \<Rightarrow>
          (case pbufs (pst (lwst s)) (request q) of
             None \<Rightarrow> Stuck
           | Some b \<Rightarrow>
               (case alt_write (htcp E) (pcb q) (rdbytes (mem s) (p_payload b) (unat (p_len b - 1))) TCP_WRITE_FLAG_COPY s of
                  (e, s) \<Rightarrow>
                    if e \<noteq> ERR_OK then httpc_close E r HTTPC_RESULT_ERR_MEM 0 e s
                    else
                      finish (do {
                        q \<leftarrow> get_req r s;
                        s \<leftarrow> free_pbuf E (request q) s;
                        let s = set_req r (q\<lparr>request := NULL\<rparr>) s in
                        Some (ERR_OK, snd (alt_output (htcp E) (pcb q) s))
                      }))))"

subsection \<open>Starting a request\<close>

fun decimal :: "nat \<Rightarrow> u8 list" where
  "decimal n = (if n < 10 then [0x30 + of_nat n] else decimal (n div 10) @ [0x30 + of_nat (n mod 10)])"

definition HTTPC_CLIENT_AGENT :: "u8 list" where
  "HTTPC_CLIENT_AGENT = ascii ''lwIP/2.1.2 (http://savannah.nongnu.org/projects/lwip)''"

definition http_line :: "u8 list \<Rightarrow> u8 list" where
  "http_line l = l @ CRLF"

definition http_get_line :: "u8 list \<Rightarrow> u8 list" where
  "http_get_line uri = http_line (ascii ''GET '' @ uri @ ascii '' HTTP/1.1'') @ http_line (ascii ''User-Agent: '' @ HTTPC_CLIENT_AGENT) @
     http_line (ascii ''Accept: */*'')"

definition http_host_line :: "u8 list \<Rightarrow> u8 list" where
  "http_host_line server_name = http_line (ascii ''Host: '' @ server_name)"

definition http_close_line :: "u8 list" where
  "http_close_line = http_line (ascii ''Connection: Close'') @ CRLF"

text \<open>The four format strings with their arguments.\<close>

definition HTTPC_REQ_11 :: "u8 list \<Rightarrow> u8 list" where
  "HTTPC_REQ_11 uri = http_get_line uri @ http_close_line"

definition HTTPC_REQ_11_HOST :: "u8 list \<Rightarrow> u8 list \<Rightarrow> u8 list" where
  "HTTPC_REQ_11_HOST uri srv_name = http_get_line uri @ http_host_line srv_name @ http_close_line"

definition HTTPC_REQ_11_PROXY :: "u8 list \<Rightarrow> u8 list \<Rightarrow> u8 list \<Rightarrow> u8 list" where
  "HTTPC_REQ_11_PROXY host uri srv_name =
     http_get_line (ascii ''http://'' @ host @ uri) @ http_host_line srv_name @ http_close_line"

definition HTTPC_REQ_11_PROXY_PORT :: "u8 list \<Rightarrow> nat \<Rightarrow> u8 list \<Rightarrow> u8 list \<Rightarrow> u8 list" where
  "HTTPC_REQ_11_PROXY_PORT host host_port uri srv_name =
     http_get_line (ascii ''http://'' @ host @ ascii '':'' @ decimal host_port @ uri) @ http_host_line srv_name @ http_close_line"

text \<open>\<open>snprintf\<close> with the formatted text: the length of the text, and the text cut to the size of the buffer with a zero.\<close>

definition snprintf :: "ptr \<Rightarrow> u32 \<Rightarrow> u8 list \<Rightarrow> memory \<Rightarrow> int \<times> memory" where
  "snprintf buffer buffer_size text m =
     (int (length text), if buffer_size = 0 then m else wrbytes m buffer (take (unat buffer_size - 1) text @ [0]))"

definition httpc_create_request_string ::
    "'s httpc_connection_t \<Rightarrow> u8 list \<Rightarrow> u16 \<Rightarrow> u8 list \<Rightarrow> bool \<Rightarrow> ptr \<Rightarrow> u32 \<Rightarrow> memory \<Rightarrow> int \<times> memory" where
  "httpc_create_request_string settings server_name server_port uri use_host buffer buffer_size m =
     (if use_proxy settings \<noteq> 0 then
        if server_port \<noteq> HTTP_DEFAULT_PORT then
          snprintf buffer buffer_size (HTTPC_REQ_11_PROXY_PORT server_name (unat server_port) uri server_name) m
        else snprintf buffer buffer_size (HTTPC_REQ_11_PROXY server_name uri server_name) m
      else if use_host then snprintf buffer buffer_size (HTTPC_REQ_11_HOST uri server_name) m
      else snprintf buffer buffer_size (HTTPC_REQ_11 uri) m)"

definition httpc_state_zero :: httpc_state_t where
  "httpc_state_zero = \<lparr>pcb = NULL, remote_addr = 0, remote_port = 0, timeout_ticks = 0, request = NULL, rx_hdrs = NULL,
     rx_http_version = 0, rx_status = 0, recv_fn = NULL, conn_settings = NULL, callback_arg = NULL, rx_content_len = 0,
     hdr_content_len = 0, parse_state = HTTPC_PARSE_WAIT_FIRST_LINE\<rparr>"

text \<open>The result has the error code and the connection, which is set for \<open>ERR_OK\<close> only. \<open>fail\<close> frees what has been
  allocated.\<close>

definition httpc_init_fail ::
    "('x, ('e, 'd, 'x, 'w) hsys) httpc_env \<Rightarrow> ptr \<Rightarrow> err_t \<Rightarrow> ('e, 'd, 'x, 'w) hsys \<Rightarrow>
      (err_t \<times> ptr \<times> ('e, 'd, 'x, 'w) hsys) option" where
  "httpc_init_fail E r e s = map_option (\<lambda>(_, s). (e, NULL, s)) (httpc_free_state E r s)"

definition httpc_init_connection_common ::
    "('x, ('e, 'd, 'x, 'w) hsys) httpc_env \<Rightarrow> ptr \<Rightarrow> u8 list \<Rightarrow> u16 \<Rightarrow> u8 list \<Rightarrow> ptr \<Rightarrow> ptr \<Rightarrow> bool \<Rightarrow>
      ('e, 'd, 'x, 'w) hsys \<Rightarrow> (err_t \<times> ptr \<times> ('e, 'd, 'x, 'w) hsys) option" where
  "httpc_init_connection_common E settings server_name server_port uri fn arg use_host s =
     (let cs = hconn E settings;
          req_len = fst (httpc_create_request_string cs server_name server_port uri use_host NULL 0 (mem s)) in
      if req_len < 0 \<or> req_len > 0xFFFF then Some (ERR_VAL, NULL, s)
      else if req_len + 1 > 0xFFFF then Some (ERR_VAL, NULL, s)
      else case api_malloc (hmem E) SIZEOF_HTTPC_STATE_T (heap (pst (lwst s))) of
        None \<Rightarrow> None
      | Some (r, h) \<Rightarrow>
        let s = set_pst ((pst (lwst s))\<lparr>heap := h\<rparr>) s in
        if r = NULL then Some (ERR_MEM, NULL, s)
        else (case pbuf_alloc (hmem E) 0 (of_int (req_len + 1)) PBUF_RAM (pst (lwst s)) of
          None \<Rightarrow> None
        | Some (p, st) \<Rightarrow>
            let q = httpc_state_zero\<lparr>timeout_ticks := HTTPC_POLL_TIMEOUT, request := p\<rparr>;
                s = set_req r q (set_pst st s) in
            if p = NULL then httpc_init_fail E r ERR_MEM s
            else (case pbufs st p of
              None \<Rightarrow> None
            | Some b \<Rightarrow>
                if p_next b \<noteq> NULL then httpc_init_fail E r ERR_MEM s
                else
                  let q = q\<lparr>hdr_content_len := HTTPC_CONTENT_LEN_INVALID\<rparr>;
                      (tpcb, s) = alt_new (htcp E) (altcp_allocator cs) (set_req r q s);
                      q = q\<lparr>pcb := tpcb\<rparr>;
                      s = set_req r q s in
                  if tpcb = NULL then httpc_init_fail E r ERR_MEM s
                  else
                    let q = q\<lparr>remote_port := (if use_proxy cs \<noteq> 0 then proxy_port cs else server_port)\<rparr>;
                        s = set_req r q s;
                        s = alt_arg (htcp E) tpcb r s;
                        s = alt_recv (htcp E) tpcb True s;
                        s = alt_err (htcp E) tpcb True s;
                        s = alt_poll (htcp E) tpcb True HTTPC_POLL_INTERVAL s;
                        s = alt_sent (htcp E) tpcb True s;
                        (req_len2, m) = httpc_create_request_string cs server_name server_port uri use_host
                          (p_payload b) (of_int (req_len + 1)) (mem s);
                        s = s\<lparr>mem := m\<rparr> in
                    if req_len2 \<noteq> req_len then httpc_init_fail E r ERR_VAL s
                    else Some (ERR_OK, r,
                      set_req r (q\<lparr>recv_fn := fn, conn_settings := settings, callback_arg := arg\<rparr>) s))))"

definition httpc_init_connection where
  "httpc_init_connection E settings server_name server_port uri fn arg s =
     httpc_init_connection_common E settings server_name server_port uri fn arg True s"

text \<open>The text of the address is read from the static buffer of \<open>ip4addr_ntoa\<close>.\<close>

definition httpc_init_connection_addr ::
    "('x, ('e, 'd, 'x, 'w) hsys) httpc_env \<Rightarrow> ptr \<Rightarrow> u32 \<Rightarrow> u16 \<Rightarrow> u8 list \<Rightarrow> ptr \<Rightarrow> ptr \<Rightarrow>
      ('e, 'd, 'x, 'w) hsys \<Rightarrow> (err_t \<times> ptr \<times> ('e, 'd, 'x, 'w) hsys) option" where
  "httpc_init_connection_addr E settings server_addr server_port uri fn arg s =
     (case ip4addr_ntoa (ntoa_str E) server_addr (mem s) of
        (p, m) \<Rightarrow>
          if p = NULL then Some (ERR_VAL, NULL, s\<lparr>mem := m\<rparr>)
          else httpc_init_connection_common E settings (takeWhile (\<lambda>c. c \<noteq> 0) (rdbytes m p 16)) server_port uri fn arg True (s\<lparr>mem := m\<rparr>))"

definition httpc_get_internal_addr ::
    "('x, ('e, 'd, 'x, 'w) hsys) httpc_env \<Rightarrow> ptr \<Rightarrow> u32 \<Rightarrow> ('e, 'd, 'x, 'w) hsys \<Rightarrow> (err_t \<times> ('e, 'd, 'x, 'w) hsys) option" where
  "httpc_get_internal_addr E r ipaddr s =
     do {
       q \<leftarrow> get_req r s;
       let q = q\<lparr>remote_addr := ipaddr\<rparr> in
       Some (alt_connect (htcp E) (pcb q) (remote_addr q) (remote_port q) (set_req r q s))
     }"

definition httpc_get_file ::
    "('x, ('e, 'd, 'x, 'w) hsys) httpc_env \<Rightarrow> u32 \<Rightarrow> u16 \<Rightarrow> u8 list \<Rightarrow> ptr \<Rightarrow> ptr \<Rightarrow> ptr \<Rightarrow>
      ('e, 'd, 'x, 'w) hsys \<Rightarrow> (err_t \<times> ptr \<times> ('e, 'd, 'x, 'w) hsys) option" where
  "httpc_get_file E server_addr port uri settings fn arg s =
     (if fn = NULL then None
      else do {
        (e, r, s) \<leftarrow> httpc_init_connection_addr E settings server_addr port uri fn arg s;
        if e \<noteq> ERR_OK then Some (e, NULL, s)
        else do {
          (e, s) \<leftarrow> httpc_get_internal_addr E r
            (if use_proxy (hconn E settings) \<noteq> 0 then proxy_addr (hconn E settings) else server_addr) s;
          if e \<noteq> ERR_OK then httpc_init_fail E r e s else Some (ERR_OK, r, s)
        }
      })"

text \<open>The variants with a server name; without DNS the name is the text of an address. The name is a string of the caller
  at \<open>server_name\<close>, its characters are \<open>name\<close>.\<close>

definition httpc_get_internal_dns ::
    "('x, ('e, 'd, 'x, 'w) hsys) httpc_env \<Rightarrow> ptr \<Rightarrow> ptr \<Rightarrow> ('e, 'd, 'x, 'w) hsys \<Rightarrow> (err_t \<times> ('e, 'd, 'x, 'w) hsys) option" where
  "httpc_get_internal_dns E r server_name s =
     (case ip4addr_aton (mem s) server_name of
        None \<Rightarrow> None
      | Some None \<Rightarrow> Some (ERR_ARG, s)
      | Some (Some addr) \<Rightarrow> httpc_get_internal_addr E r addr s)"

definition httpc_get_file_dns ::
    "('x, ('e, 'd, 'x, 'w) hsys) httpc_env \<Rightarrow> ptr \<Rightarrow> u8 list \<Rightarrow> u16 \<Rightarrow> u8 list \<Rightarrow> ptr \<Rightarrow> ptr \<Rightarrow> ptr \<Rightarrow>
      ('e, 'd, 'x, 'w) hsys \<Rightarrow> (err_t \<times> ptr \<times> ('e, 'd, 'x, 'w) hsys) option" where
  "httpc_get_file_dns E server_name name port uri settings fn arg s =
     (if server_name = NULL \<or> fn = NULL then None
      else do {
        (e, r, s) \<leftarrow> httpc_init_connection E settings name port uri fn arg s;
        if e \<noteq> ERR_OK then Some (e, NULL, s)
        else do {
          (e, s) \<leftarrow> (if use_proxy (hconn E settings) \<noteq> 0 then httpc_get_internal_addr E r (proxy_addr (hconn E settings)) s
            else httpc_get_internal_dns E r server_name s);
          if e \<noteq> ERR_OK then httpc_init_fail E r e s else Some (ERR_OK, r, s)
        }
      })"

end
