(* ===== verification/Http_Session.thy ===== *)
theory Http_Session
  imports Http_Client
begin

text \<open>
  A download as the HTTP client of lwIP sees it: TCP hands over the response in segments, in order, and then the end of the
  stream; in between the timer polls the client, and lwIP does what it likes with everything that does not belong to the
  request. The client calls the data and the result function of the application (network_lwip.c), which copy the body to
  the buffer and to the crypto unit. The main result says that for every segmentation in which the parts of the body reach the next aligned address
  (\<open>chunk_ok\<close> in \<open>segment\<close>), and a body that is smaller than the buffer, the buffer has exactly
  the body of the response, its hash is the result, and the status and the content length decide on success. A shorter part
  is outside of these sessions: \<open>sha384_update\<close> would hash bytes behind it (theory Sha384).
\<close>

lemmas http_const_defs = HTTPC_RESULT_ERR_CLOSED_def HTTPC_RESULT_ERR_TIMEOUT_def HTTPC_RESULT_ERR_CONTENT_LEN_def HTTPC_RESULT_OK_def

subsection \<open>What the client relies on\<close>

text \<open>The packet buffers of a chain and their data stay as they are.\<close>

definition keeps_chain :: "('e, 'd, 'x, 'w) hsys \<Rightarrow> ('e, 'd, 'x, 'w) hsys \<Rightarrow> ptr list \<Rightarrow> bool" where
  "keeps_chain s s' ps \<longleftrightarrow>
     (\<forall>a \<in> set ps. pbufs (pst (lwst s')) a = pbufs (pst (lwst s)) a) \<and>
     pbytes (pbufs (pst (lwst s))) (mem s') ps = pbytes (pbufs (pst (lwst s))) (mem s) ps"

text \<open>The heap accepts the release of the request structure.\<close>

definition freeable :: "('x, ('e, 'd, 'x, 'w) hsys) httpc_env \<Rightarrow> ptr \<Rightarrow> ('e, 'd, 'x, 'w) hsys \<Rightarrow> bool" where
  "freeable E r s \<longleftrightarrow> api_free (hmem E) r (heap (pst (lwst s))) \<noteq> None"

text \<open>\<open>altcp_recved\<close> opens the receive window and may send an acknowledgement: it leaves the buffer, the crypto unit, the
  request and all received packets alone.\<close>

definition recved_ok ::
    "('x, ('e, 'd, 'x, 'w) hsys) httpc_env \<Rightarrow> ptr \<Rightarrow> ptr \<Rightarrow> ptr \<Rightarrow> nat \<Rightarrow> ('e \<Rightarrow> u8 list) \<Rightarrow> bool" where
  "recved_ok E tpcb r p n stream \<longleftrightarrow>
     (\<forall>k s. let s' = alt_recved (htcp E) tpcb k s in
        dl_keeps p n stream s s' \<and> get_req r s' = get_req r s \<and> (freeable E r s \<longrightarrow> freeable E r s') \<and>
        (\<forall>q ps. pchain (pbufs (pst (lwst s))) q ps \<longrightarrow> pool_bufs (pbufs (pst (lwst s))) ps \<longrightarrow> keeps_chain s s' ps))"

text \<open>The functions that are called when the connection is closed leave the buffer, the crypto unit and the
  request structures alone.\<close>

definition quiet ::
    "ptr \<Rightarrow> ptr \<Rightarrow> nat \<Rightarrow> ('e \<Rightarrow> u8 list) \<Rightarrow> (('e, 'd, 'x, 'w) hsys \<Rightarrow> ('e, 'd, 'x, 'w) hsys) \<Rightarrow> bool" where
  "quiet r p n stream f \<longleftrightarrow> (\<forall>s. dl_keeps p n stream s (f s) \<and> get_req r (f s) = get_req r s)"

definition close_ok ::
    "('x, ('e, 'd, 'x, 'w) hsys) httpc_env \<Rightarrow> ptr \<Rightarrow> ptr \<Rightarrow> nat \<Rightarrow> ('e \<Rightarrow> u8 list) \<Rightarrow> bool" where
  "close_ok E r p n stream \<longleftrightarrow>
     (\<forall>t. quiet r p n stream (alt_arg (htcp E) t NULL) \<and> quiet r p n stream (alt_recv (htcp E) t False) \<and>
        quiet r p n stream (alt_err (htcp E) t False) \<and> quiet r p n stream (alt_poll (htcp E) t False 0) \<and>
        quiet r p n stream (alt_sent (htcp E) t False) \<and> quiet r p n stream (\<lambda>s. snd (alt_close (htcp E) t s)) \<and>
        quiet r p n stream (alt_abort (htcp E) t))"

text \<open>The calls of the application to lwIP are those of this model: \<open>pbuf_free\<close> where it is defined, and \<open>altcp_recved\<close> for
  the connection. The local arrays of the client are not in the download buffer.\<close>

definition session_env ::
    "('x, ('e, 'd, 'x, 'w) hsys) httpc_env \<Rightarrow> ('e, 'd, 'x, 'w) hsys lwip \<Rightarrow> ptr \<Rightarrow> ptr \<Rightarrow> ptr \<Rightarrow> nat \<Rightarrow> ('e \<Rightarrow> u8 list) \<Rightarrow> bool" where
  "session_env E lw r tpcb p n stream \<longleftrightarrow>
     p \<noteq> NULL \<and> unat p + n \<le> 2 ^ 32 \<and> r \<noteq> NULL \<and>
     status_num E \<noteq> NULL \<and> ranges_disjoint p n (status_num E) 10 \<and>
     content_len_num E \<noteq> NULL \<and> ranges_disjoint p n (content_len_num E) 16 \<and>
     altcp_recved lw = alt_recved (htcp E) tpcb \<and>
     (\<forall>pb s s'. free_pbuf E (pb_ptr pb) s = Some s' \<longrightarrow> lw_pbuf_free lw pb s = s') \<and>
     recved_ok E tpcb r p n stream \<and> close_ok E r p n stream"

text \<open>The request after the connection has been established, and the settings the application passes.\<close>

definition req_ok :: "('x, ('e, 'd, 'x, 'w) hsys) httpc_env \<Rightarrow> httpc_state_t \<Rightarrow> bool" where
  "req_ok E q \<longleftrightarrow> recv_fn q \<noteq> NULL \<and> conn_settings q \<noteq> NULL \<and> request q = NULL \<and>
     result_fn (hconn E (conn_settings q)) \<and> headers_done_fn (hconn E (conn_settings q)) = None"

text \<open>What happens in lwIP between two calls of a handler: anything that keeps the buffer, the crypto unit, the request
  and the header bytes it holds.\<close>

definition env_keeps ::
    "('x, ('e, 'd, 'x, 'w) hsys) httpc_env \<Rightarrow> ptr \<Rightarrow> ptr \<Rightarrow> nat \<Rightarrow> ('e \<Rightarrow> u8 list) \<Rightarrow> ('e, 'd, 'x, 'w) hsys \<Rightarrow>
      ('e, 'd, 'x, 'w) hsys \<Rightarrow> bool" where
  "env_keeps E r p n stream s s' \<longleftrightarrow>
     dl_keeps p n stream s s' \<and> get_req r s' = get_req r s \<and> (freeable E r s \<longrightarrow> freeable E r s') \<and>
     (\<forall>q ps. get_req r s = Some q \<longrightarrow> pchain (pbufs (pst (lwst s))) (rx_hdrs q) ps \<longrightarrow> keeps_chain s s' ps)"

text \<open>A segment: a chain of packet buffers from the pool, apart from the header bytes the client holds, with the next bytes of
  the response. As long as the header is not complete the bytes are not acknowledged, so that they fit the receive window
  of TCP. The parts of the body are not shorter than their way to an aligned address (the
  crypto driver would read behind them).\<close>

definition TCP_WND :: nat where "TCP_WND = 2144"

definition chain_ok ::
    "('x, ('e, 'd, 'x, 'w) hsys) httpc_env \<Rightarrow> ('e, 'd, 'x, 'w) hsys \<Rightarrow> ptr \<Rightarrow> ptr list \<Rightarrow> u8 list \<Rightarrow> bool" where
  "chain_ok E s q ps bs \<longleftrightarrow>
     pchain (pbufs (pst (lwst s))) q ps \<and> pool_bufs (pbufs (pst (lwst s))) ps \<and>
     pbytes (pbufs (pst (lwst s))) (mem s) ps = bs \<and>
     payload_disjoint (pbufs (pst (lwst s))) ps (status_num E) 10 \<and>
     payload_disjoint (pbufs (pst (lwst s))) ps (content_len_num E) 16"

definition segment ::
    "('x, ('e, 'd, 'x, 'w) hsys) httpc_env \<Rightarrow> ptr \<Rightarrow> ptr \<Rightarrow> nat \<Rightarrow> u8 list \<Rightarrow> u8 list \<Rightarrow> ('e, 'd, 'x, 'w) hsys \<Rightarrow> ptr \<Rightarrow>
      ptr list \<Rightarrow> u8 list \<Rightarrow> bool" where
  "segment E r p n resp got s pp ps bs \<longleftrightarrow>
     pp \<noteq> NULL \<and> chain_ok E s pp ps bs \<and> got @ bs = take (length got + length bs) resp \<and>
     (\<forall>q qs. get_req r s = Some q \<longrightarrow> pchain (pbufs (pst (lwst s))) (rx_hdrs q) qs \<longrightarrow> set qs \<inter> set ps = {}) \<and>
     (case header_end resp of None \<Rightarrow> False | Some k \<Rightarrow>
        (length got < k \<longrightarrow> length got + length bs \<le> TCP_WND) \<and>
        list_all (chunk_ok p n) (drop_chunks (k - length got) (pchunks (pbufs (pst (lwst s))) ps)))"

subsection \<open>Small steps\<close>

lemma state_simps [simp]:
  "get_req r (set_req r q s) = Some q" "get_req r (set_pst st s) = get_req r s" "pst (lwst (set_pst st s)) = st"
  "pst (lwst (set_req r q s)) = pst (lwst s)" "mem (set_req r q s) = mem s" "mem (set_pst st s) = mem s"
  "hw (set_req r q s) = hw s" "hw (set_pst st s) = hw s" "get_req r (s\<lparr>mem := m\<rparr>) = get_req r s" "get_req r (s\<lparr>hw := w\<rparr>) = get_req r s"
  by (simp_all add: get_req_def set_req_def set_pst_def)

lemma freeable_simps [simp]:
  "freeable E r (set_req r' q s) = freeable E r s" "freeable E r (s\<lparr>mem := m\<rparr>) = freeable E r s"
  "freeable E r (s\<lparr>hw := w\<rparr>) = freeable E r s" "heap st = heap (pst (lwst s)) \<Longrightarrow> freeable E r (set_pst st s) = freeable E r s"
  by (simp_all add: freeable_def)

lemma dl_keeps_trivial [simp]:
  "dl_keeps p n stream s (set_req r q s) " "dl_keeps p n stream s (set_pst st s)" "dl_keeps p n stream s s"
  by (simp_all add: dl_keeps_def)

lemma dl_keeps_trans: "dl_keeps p n stream s s' \<Longrightarrow> dl_keeps p n stream s' s'' \<Longrightarrow> dl_keeps p n stream s s''"
  by (simp add: dl_keeps_def)

text \<open>A write to a local array.\<close>

lemma rdbytes_outside:
  assumes "\<forall>x. \<not> in_range x q k \<longrightarrow> m' x = m x" and "ranges_disjoint p n q k"
  shows "rdbytes m' p n = rdbytes m p n"
  using assms in_rangeI by (intro rdbytes_cong) (fastforce simp: ranges_disjoint_def)

lemma pbytes_outside:
  assumes "\<forall>x. \<not> in_range x q k \<longrightarrow> m' x = m x" and "payload_disjoint h ps q k"
  shows "pbytes h m' ps = pbytes h m ps"
  using assms(2) rdbytes_outside [OF assms(1)] by (induction ps) simp_all

lemma chain_ok_outside:
  assumes "chain_ok E s q ps bs" and "lwst s' = lwst s"
    and "\<forall>x. \<not> in_range x a k \<longrightarrow> mem s' x = mem s x" and "payload_disjoint (pbufs (pst (lwst s))) ps a k"
  shows "chain_ok E s' q ps bs"
  using assms pbytes_outside [OF assms(3,4)] by (simp add: chain_ok_def)

lemma chain_ok_keeps:
  assumes "chain_ok E s q ps bs" and "keeps_chain s s' ps"
  shows "chain_ok E s' q ps bs"
proof -
  have eq: "\<And>a. a \<in> set ps \<Longrightarrow> pbufs (pst (lwst s')) a = pbufs (pst (lwst s)) a" using assms(2) by (simp add: keeps_chain_def)
  then have "payload_disjoint (pbufs (pst (lwst s'))) ps x k = payload_disjoint (pbufs (pst (lwst s))) ps x k" for x k
    by (auto simp: payload_disjoint_def)
  then show ?thesis
    using assms pchain_cong [OF eq] pool_bufs_cong [OF eq] pbytes_cong [OF eq, where m = "mem s'"] by (simp add: chain_ok_def keeps_chain_def)
qed

lemma view_chain_list: "pchain (pbufs st) q ps \<Longrightarrow> view_chain st q = Some (pchunks (pbufs st) ps)"
  by (induction ps arbitrary: q; subst view_chain.simps) auto

lemma view_pbuf_list:
  assumes "pchain (pbufs st) q ps" and "q \<noteq> NULL"
  obtains b where "pbufs st q = Some b" "unat (p_tot_len b) = plen (pbufs st) ps"
    "view_pbuf st q = Some \<lparr>pb_ptr = q, pb_chain = pchunks (pbufs st) ps, tot_len = p_tot_len b\<rparr>"
  using assms view_chain_list [OF assms(1)] by (auto simp: view_pbuf_def pchain_nonNULL)

lemma chain_bytes_pchunks: "chain_bytes m (pchunks h ps) = pbytes h m ps"
  by (induction ps) simp_all

subsection \<open>Data of the body\<close>

lemma free_received:
  assumes "session_env E lw r tpcb p n stream" and "pchain (pbufs (pst (lwst s))) pp ps" and "pool_bufs (pbufs (pst (lwst s))) ps"
    and "pb_ptr pb = pp" and "pp \<noteq> NULL"
  shows "\<exists>s'. lw_pbuf_free lw pb (altcp_recved lw k s) = s' \<and> get_req r s' = get_req r s \<and> dl_keeps p n stream s s' \<and>
    (freeable E r s \<longrightarrow> freeable E r s')"
proof -
  let ?s = "alt_recved (htcp E) tpcb k s"
  have k: "dl_keeps p n stream s ?s" "get_req r ?s = get_req r s" "keeps_chain s ?s ps" "freeable E r s \<longrightarrow> freeable E r ?s"
    using assms(1-3) unfolding session_env_def recved_ok_def Let_def by blast+
  have eq: "\<And>a. a \<in> set ps \<Longrightarrow> pbufs (pst (lwst ?s)) a = pbufs (pst (lwst s)) a" using k(3) by (simp add: keeps_chain_def)
  have "pbuf_free (hmem E) pp (pst (lwst ?s)) = Some (of_nat (length ps), pool_freed ps (pst (lwst ?s)))"
    using pbuf_free_chain [of "pst (lwst ?s)" pp ps] pchain_cong [OF eq] pool_bufs_cong [OF eq] assms(2,3,5) by simp
  then have "free_pbuf E (pb_ptr pb) ?s = Some (set_pst (pool_freed ps (pst (lwst ?s))) ?s)"
    using assms(4) by (simp add: free_pbuf_def)
  then have "lw_pbuf_free lw pb ?s = set_pst (pool_freed ps (pst (lwst ?s))) ?s" using assms(1) unfolding session_env_def by blast
  moreover have "altcp_recved lw = alt_recved (htcp E) tpcb" using assms(1) by (simp add: session_env_def)
  ultimately have "lw_pbuf_free lw pb (altcp_recved lw k s) = set_pst (pool_freed ps (pst (lwst ?s))) ?s" by simp
  then show ?thesis using k dl_keeps_trans [OF k(1) dl_keeps_trivial(2)] by simp
qed

lemma recv_data:
  assumes cr: "crypt_unit cr stream digest ready" and env: "session_env E lw r tpcb p n stream"
    and q: "get_req r s = Some q" "req_ok E q" "parse_state q = HTTPC_PARSE_RX_DATA" and fr: "freeable E r s"
    and ch': "pchain (pbufs (pst (lwst s))) pp ps" "pool_bufs (pbufs (pst (lwst s))) ps"
      "pbytes (pbufs (pst (lwst s))) (mem s) ps = bs" and pp: "pp \<noteq> NULL" and chunks: "list_all (chunk_ok p n) (pchunks (pbufs (pst (lwst s))) ps)"
    and inv: "dl_inv p n stream digest good True data c s" and fits: "length data + length bs < n"
  shows "\<exists>c' s'. exec (http_handlers cr lw) (httpc_recv_data E r tpcb pp ERR_OK s) c = Some (ERR_OK, c', s') \<and>
    get_req r s' = Some (q\<lparr>timeout_ticks := HTTPC_POLL_TIMEOUT, rx_content_len := rx_content_len q + of_nat (length bs)\<rparr>) \<and>
    dl_inv p n stream digest good True (data @ bs) c' s' \<and> freeable E r s'"
proof -
  let ?h = "pbufs (pst (lwst s))"
  obtain b where b: "?h pp = Some b" "unat (p_tot_len b) = plen ?h ps"
      "view_pbuf (pst (lwst s)) pp = Some \<lparr>pb_ptr = pp, pb_chain = pchunks ?h ps, tot_len = p_tot_len b\<rparr>"
    using view_pbuf_list [OF ch'(1) pp] by blast
  have len: "length bs = unat (p_tot_len b)" unfolding b(2) ch'(3) [symmetric] by simp
  then have tot: "(ucast (p_tot_len b) :: u32) = of_nat (length bs)" unfolding len by simp
  define q' where "q' = q\<lparr>timeout_ticks := HTTPC_POLL_TIMEOUT, rx_content_len := rx_content_len q + of_nat (length bs)\<rparr>"
  let ?pb = "\<lparr>pb_ptr = pp, pb_chain = pchunks ?h ps, tot_len = p_tot_len b\<rparr>" and ?s = "set_req r q' s"
  have run: "httpc_recv_data E r tpcb pp ERR_OK s = HttpData (Some ?pb) ERR_OK ?s (\<lambda>e s. Ret e s)"
    using q pp b tot by (simp add: httpc_recv_data_def req_ok_def q'_def Let_def)
  have p: "p \<noteq> NULL" "unat p + n \<le> 2 ^ 32" using env by (simp_all add: session_env_def)
  have "dl_inv p n stream digest good True data c ?s" using dl_keeps_inv [OF inv dl_keeps_trivial(1)] .
  moreover have "list_all (chunk_ok p n) (pb_chain ?pb)" using chunks by simp
  moreover have cb: "chain_bytes (mem ?s) (pb_chain ?pb) = bs" using ch'(3) by (simp add: chain_bytes_pchunks)
  ultimately obtain c' m w where d: "on_data (http_handlers cr lw) (Some ?pb) ERR_OK c ?s =
        Some (ERR_OK, c', lw_pbuf_free lw ?pb (altcp_recved lw (tot_len ?pb) (?s\<lparr>mem := m, hw := w\<rparr>)))"
      "dl_inv p n stream digest good True (data @ bs) c' (?s\<lparr>mem := m, hw := w\<rparr>)"
    using data_callback_run [OF cr p, of good data c ?s ?pb lw] fits unfolding cb Let_def by blast
  obtain s' where "lw_pbuf_free lw ?pb (altcp_recved lw (tot_len ?pb) (?s\<lparr>mem := m, hw := w\<rparr>)) = s'"
      "get_req r s' = Some q'" "dl_keeps p n stream (?s\<lparr>mem := m, hw := w\<rparr>) s'" "freeable E r s'"
    using free_received [OF env, of "?s\<lparr>mem := m, hw := w\<rparr>" pp ps ?pb "tot_len ?pb"] ch' pp fr by auto
  then show ?thesis using run d dl_keeps_inv [OF d(2)] unfolding q'_def by auto
qed

subsection \<open>The header\<close>

lemma headers_done:
  assumes cr: "crypt_unit cr stream digest ready" and env: "session_env E lw r tpcb p n stream"
    and q: "get_req r s = Some q" "req_ok E q" "rx_content_len q = 0" and fr: "freeable E r s"
    and ch: "chain_ok E s (rx_hdrs q) ps bs" and k: "k \<le> length bs" "length bs < 65536"
    and chunks: "list_all (chunk_ok p n) (drop_chunks k (pchunks (pbufs (pst (lwst s))) ps))"
    and inv: "dl_inv p n stream digest good True [] c s" and fits: "length bs - k < n"
  shows "\<exists>c' s' t. exec (http_handlers cr lw) (httpc_headers_done E r tpcb (of_nat k) ERR_OK s) c = Some (ERR_OK, c', s') \<and>
    get_req r s' = Some (q\<lparr>timeout_ticks := t, rx_hdrs := NULL, parse_state := HTTPC_PARSE_RX_DATA,
      rx_content_len := of_nat (length bs - k)\<rparr>) \<and> dl_inv p n stream digest good True (drop k bs) c' s' \<and> freeable E r s'"
proof -
  let ?s1 = "alt_recved (htcp E) tpcb (of_nat k) s"
  have ch0: "pchain (pbufs (pst (lwst s))) (rx_hdrs q) ps" "pool_bufs (pbufs (pst (lwst s))) ps" using ch by (simp_all add: chain_ok_def)
  have s1: "dl_keeps p n stream s ?s1" "get_req r ?s1 = Some q" "keeps_chain s ?s1 ps" "freeable E r ?s1"
    using env ch0 q(1) fr unfolding session_env_def recved_ok_def Let_def by auto
  let ?h = "pbufs (pst (lwst ?s1))"
  have eq: "\<And>a. a \<in> set ps \<Longrightarrow> ?h a = pbufs (pst (lwst s)) a" using s1(3) by (simp add: keeps_chain_def)
  have ch1: "pchain ?h (rx_hdrs q) ps" "pool_bufs ?h ps" "pbytes ?h (mem ?s1) ps = bs"
    using chain_ok_keeps [OF ch s1(3)] by (simp_all add: chain_ok_def)
  have uk: "unat (of_nat k :: u16) = k" using k by (simp add: unat_of_nat)
  then have "unat (of_nat k :: u16) \<le> plen ?h ps" using k(1) ch1(3) by (metis length_pbytes)
  from pbuf_free_header_chain [OF ch1(1,2) this, of "hmem E" "mem ?s1"] obtain pp qs st where st:
      "pbuf_free_header (hmem E) (rx_hdrs q) (of_nat k) (pst (lwst ?s1)) = Some (pp, st)" "pchain (pbufs st) pp qs"
      "pool_bufs (pbufs st) qs" "pbytes (pbufs st) (mem ?s1) qs = drop k bs" "pchunks (pbufs st) qs = drop_chunks k (pchunks ?h ps)"
      "heap st = heap (pst (lwst ?s1))"
    unfolding uk ch1(3) by blast
  define q2 where "q2 = q\<lparr>rx_hdrs := NULL, parse_state := HTTPC_PARSE_RX_DATA\<rparr>"
  define s2 where "s2 = set_req r q2 (set_pst st ?s1)"
  have s2: "pst (lwst s2) = st" "mem s2 = mem ?s1" "get_req r s2 = Some q2" and fr2: "freeable E r s2"
    using s1(4) st(6) by (simp_all add: s2_def)
  have run: "httpc_headers_done E r tpcb (of_nat k) ERR_OK s = httpc_recv_data E r tpcb pp ERR_OK s2"
    using s1(2) st(1) q(2) by (simp add: httpc_headers_done_def req_ok_def s2_def q2_def Let_def)
  have q2: "req_ok E q2" "parse_state q2 = HTTPC_PARSE_RX_DATA" "rx_content_len q2 = 0" using q(2,3) by (simp_all add: req_ok_def q2_def)
  have inv2: "dl_inv p n stream digest good True [] c s2"
    unfolding s2_def using dl_keeps_inv [OF dl_keeps_inv [OF dl_keeps_inv [OF inv s1(1)] dl_keeps_trivial(2)] dl_keeps_trivial(1)] .
  show ?thesis
  proof (cases "pp = NULL")
    case True
    then have "drop k bs = []" using st(2,4) by simp
    moreover have "httpc_recv_data E r tpcb pp ERR_OK s2 = Ret ERR_OK s2" using True s2(3) by (simp add: httpc_recv_data_def)
    ultimately show ?thesis using run inv2 s2(3) q2(3) fr2
      by (intro exI [of _ c] exI [of _ s2] exI [of _ "timeout_ticks q"]) (simp add: q2_def)
  next
    case False
    have "list_all (chunk_ok p n) (pchunks (pbufs st) qs)" using chunks st(5) pchunks_cong [OF eq] by simp
    then obtain c' s' where "exec (http_handlers cr lw) (httpc_recv_data E r tpcb pp ERR_OK s2) c = Some (ERR_OK, c', s')"
        "get_req r s' = Some (q2\<lparr>timeout_ticks := HTTPC_POLL_TIMEOUT, rx_content_len := rx_content_len q2 + of_nat (length (drop k bs))\<rparr>)"
        "dl_inv p n stream digest good True ([] @ drop k bs) c' s'" "freeable E r s'"
      using recv_data [OF cr env s2(3) q2(1,2) fr2, of pp qs "drop k bs" good "[]" c] st(2-4) False inv2 fits unfolding s2 by auto
    then show ?thesis using run q2(3) by (intro exI [of _ c'] exI [of _ s'] exI [of _ HTTPC_POLL_TIMEOUT]) (simp add: q2_def)
  qed
qed

text \<open>The state of the client after the first bytes \<open>got\<close> of the response: in the header it holds these bytes; in the body the
  application has got everything behind the header.\<close>

definition http_inv ::
    "('x, ('e, 'd, 'x, 'w) hsys) httpc_env \<Rightarrow> ptr \<Rightarrow> ptr \<Rightarrow> nat \<Rightarrow> ('e \<Rightarrow> u8 list) \<Rightarrow> (u8 list \<Rightarrow> u32 list) \<Rightarrow> u8 list \<Rightarrow> u8 list \<Rightarrow>
      ('e, 'd, 'x, 'w) hsys HTTP_DOWNLOAD_STATE_T \<Rightarrow> ('e, 'd, 'x, 'w) hsys \<Rightarrow> bool" where
  "http_inv E r p n stream digest resp got c s \<longleftrightarrow>
     (case (get_req r s, first_index CRLF resp 0, header_end resp) of
        (Some q, Some e, Some k) \<Rightarrow>
          req_ok E q \<and> freeable E r s \<and> got = take (length got) resp \<and>
          (if length got < k then
             (\<exists>ps. chain_ok E s (rx_hdrs q) ps got) \<and> rx_content_len q = 0 \<and>
             parse_state q = (if e + 2 \<le> length got then HTTPC_PARSE_WAIT_HEADERS else HTTPC_PARSE_WAIT_FIRST_LINE) \<and>
             (e + 2 \<le> length got \<longrightarrow> rx_status q = response_status resp) \<and>
             dl_inv p n stream digest (\<lambda>d. d = response_body resp) True [] c s
           else
             rx_hdrs q = NULL \<and> parse_state q = HTTPC_PARSE_RX_DATA \<and> rx_status q = response_status resp \<and>
             hdr_content_len q = content_length resp \<and> rx_content_len q = of_nat (length got - k) \<and>
             dl_inv p n stream digest (\<lambda>d. d = response_body resp) True (drop k got) c s)
      | _ \<Rightarrow> False)"

lemma recv_headers:
  assumes cr: "crypt_unit cr stream digest ready" and env: "session_env E lw r tpcb p n stream"
    and resp: "response_ok resp" "first_index CRLF resp 0 = Some e" "header_end resp = Some k" "length resp - k < n"
    and q: "get_req r s = Some q" "req_ok E q" "rx_content_len q = 0" "rx_hdrs q \<noteq> NULL"
      "parse_state q = (if e + 2 \<le> length bs then HTTPC_PARSE_WAIT_HEADERS else HTTPC_PARSE_WAIT_FIRST_LINE)"
      "e + 2 \<le> length bs \<longrightarrow> rx_status q = response_status resp"
    and fr: "freeable E r s" and ch: "chain_ok E s (rx_hdrs q) ps bs" and bs: "bs = take (length bs) resp" "length bs < 65536"
    and chunks: "k \<le> length bs \<longrightarrow> list_all (chunk_ok p n) (drop_chunks k (pchunks (pbufs (pst (lwst s))) ps))"
    and inv: "dl_inv p n stream digest (\<lambda>d. d = response_body resp) True [] c s"
  shows "\<exists>c' s'. exec (http_handlers cr lw) (httpc_recv_headers E r tpcb pp ERR_OK s) c = Some (ERR_OK, c', s') \<and>
    http_inv E r p n stream digest resp bs c' s'"
proof -
  have ek: "e + 4 \<le> k" using response_okD [OF resp(1)] resp(2,3) by (metis option.inject)
  have len: "length bs \<le> length resp" using bs(1) by (metis length_take min.bounded_iff order_refl)
  show ?thesis
  proof (cases "e + 2 \<le> length bs")
    case False
    then have "httpc_recv_headers E r tpcb pp ERR_OK s = Ret ERR_OK s"
      using q(1,5) by (simp add: httpc_recv_headers_def httpc_recv_data_def)
    moreover have "http_inv E r p n stream digest resp bs c s"
      using False q resp(2,3) ch bs(1) inv ek fr by (auto simp: http_inv_def)
    ultimately show ?thesis by auto
  next
    case True
    let ?h = "pbufs (pst (lwst s))" and ?a = "content_len_num E"
    have ch': "pchain ?h (rx_hdrs q) ps" "pbytes ?h (mem s) ps = bs" "payload_disjoint ?h ps ?a 16" using ch by (simp_all add: chain_ok_def)
    have a: "?a \<noteq> NULL" "ranges_disjoint p n ?a 16" using env by (simp_all add: session_env_def)
    have he: "header_end bs = (if k \<le> length bs then Some k else None)"
      using response_header_end [OF resp(1,3), of "length bs"] bs(1) by simp
    have cl: "content_length bs = content_length resp \<and> length_fits bs" if "k \<le> length bs"
      using response_content_length [OF resp(1,3) that] bs(1) by simp
    have "header_end bs \<noteq> None \<Longrightarrow> length_fits bs" using he cl by (auto split: if_splits)
    from http_wait_headers_list [OF ch'(1) q(4) a(1) ch'(3), of "mem s" "hdr_content_len q" 0] this
    obtain m where m: "http_wait_headers ?a (pst (lwst s)) (rx_hdrs q) (hdr_content_len q) 0 (mem s) =
        (case header_fields bs (hdr_content_len q) 0 of (e, cl', thl') \<Rightarrow> Some (e, cl', thl', m))"
        "\<forall>x. \<not> in_range x ?a 16 \<longrightarrow> m x = mem s x" unfolding ch'(2) by blast
    let ?s = "\<lambda>cl. set_req r (q\<lparr>hdr_content_len := cl\<rparr>) (s\<lparr>mem := m\<rparr>)"
    have inv2: "dl_inv p n stream digest (\<lambda>d. d = response_body resp) True [] c (?s cl)" for cl
    proof (rule dl_keeps_inv [OF inv])
      show "dl_keeps p n stream s (?s cl)" using rdbytes_outside [OF m(2) a(2)] by (simp add: dl_keeps_def)
    qed
    have ch2: "chain_ok E (?s cl) (rx_hdrs q) ps bs" for cl
    proof -
      have "chain_ok E (s\<lparr>mem := m\<rparr>) (rx_hdrs q) ps bs" using chain_ok_outside [OF ch _ _ ch'(3)] m(2) by simp
      then show ?thesis by (simp add: chain_ok_def)
    qed
    show ?thesis
    proof (cases "k \<le> length bs")
      case False
      then have "httpc_recv_headers E r tpcb pp ERR_OK s = Ret ERR_OK (?s (hdr_content_len q))"
        using q(1,5) True m(1) he by (simp add: httpc_recv_headers_def httpc_recv_data_def header_fields_def Let_def)
      moreover have "http_inv E r p n stream digest resp bs c (?s (hdr_content_len q))"
        using False True q resp(2,3) ch2 [of "hdr_content_len q"] bs(1) inv2 [of "hdr_content_len q"] ek fr
        by (auto simp: http_inv_def req_ok_def)
      ultimately show ?thesis by auto
    next
      case k: True
      let ?q = "q\<lparr>hdr_content_len := content_length resp\<rparr>" and ?t = "?s (content_length resp)"
      have run: "httpc_recv_headers E r tpcb pp ERR_OK s = httpc_headers_done E r tpcb (of_nat k) ERR_OK ?t"
        using q(1,5) True m(1) he k cl by (simp add: httpc_recv_headers_def header_fields_def Let_def)
      have "\<exists>c' s' t. exec (http_handlers cr lw) (httpc_headers_done E r tpcb (of_nat k) ERR_OK ?t) c = Some (ERR_OK, c', s') \<and>
          get_req r s' = Some (?q\<lparr>timeout_ticks := t, rx_hdrs := NULL, parse_state := HTTPC_PARSE_RX_DATA,
            rx_content_len := of_nat (length bs - k)\<rparr>) \<and>
          dl_inv p n stream digest (\<lambda>d. d = response_body resp) True (drop k bs) c' s' \<and> freeable E r s'"
        using fr ch2 k bs(2) chunks inv2 len resp(4) q(2,3)
        by (intro headers_done [OF cr env, where ps = ps]) (auto simp: req_ok_def)
      then obtain c' s' t where d: "exec (http_handlers cr lw) (httpc_headers_done E r tpcb (of_nat k) ERR_OK ?t) c = Some (ERR_OK, c', s')"
          "get_req r s' = Some (?q\<lparr>timeout_ticks := t, rx_hdrs := NULL, parse_state := HTTPC_PARSE_RX_DATA,
            rx_content_len := of_nat (length bs - k)\<rparr>)"
          "dl_inv p n stream digest (\<lambda>d. d = response_body resp) True (drop k bs) c' s'" "freeable E r s'" by blast
      then have "http_inv E r p n stream digest resp bs c' s'"
        using k True q(2,6) resp(2,3) bs(1) by (auto simp: http_inv_def req_ok_def)
      then show ?thesis using d(1) run by auto
    qed
  qed
qed

lemma recv_status:
  assumes cr: "crypt_unit cr stream digest ready" and env: "session_env E lw r tpcb p n stream"
    and resp: "response_ok resp" "first_index CRLF resp 0 = Some e" "header_end resp = Some k" "length resp - k < n"
    and q: "get_req r s = Some q" "req_ok E q" "rx_content_len q = 0" "rx_hdrs q \<noteq> NULL"
      "parse_state q = (if e + 2 \<le> g then HTTPC_PARSE_WAIT_HEADERS else HTTPC_PARSE_WAIT_FIRST_LINE)"
      "e + 2 \<le> g \<longrightarrow> rx_status q = response_status resp" and g: "g \<le> length bs"
    and fr: "freeable E r s" and ch: "chain_ok E s (rx_hdrs q) ps bs" and bs: "bs = take (length bs) resp" "length bs < 65536"
    and chunks: "k \<le> length bs \<longrightarrow> list_all (chunk_ok p n) (drop_chunks k (pchunks (pbufs (pst (lwst s))) ps))"
    and inv: "dl_inv p n stream digest (\<lambda>d. d = response_body resp) True [] c s"
  shows "\<exists>c' s'. exec (http_handlers cr lw) (httpc_recv_status E r tpcb pp ERR_OK s) c = Some (ERR_OK, c', s') \<and>
    http_inv E r p n stream digest resp bs c' s'"
proof (cases "e + 2 \<le> g")
  case True
  then have "httpc_recv_status E r tpcb pp ERR_OK s = httpc_recv_headers E r tpcb pp ERR_OK s"
    using q(1,5) by (simp add: httpc_recv_status_def)
  then show ?thesis using recv_headers [OF cr env resp q(1-4) _ _ fr ch bs chunks inv, of pp] True q(5,6) g by simp
next
  case False
  let ?h = "pbufs (pst (lwst s))" and ?a = "status_num E"
  let ?o = "\<lparr>so_version = rx_http_version q, so_status = rx_status q, so_str_offset = 0\<rparr>"
  have ch': "pchain ?h (rx_hdrs q) ps" "pbytes ?h (mem s) ps = bs" "payload_disjoint ?h ps ?a 10" using ch by (simp_all add: chain_ok_def)
  have a: "?a \<noteq> NULL" "ranges_disjoint p n ?a 10" using env by (simp_all add: session_env_def)
  have "status_fits bs" using response_status_fits [OF resp(1), of "length bs"] bs(1) by simp
  from http_parse_response_status_list [OF ch'(1) q(4) a(1) ch'(3), of "mem s" ?o] this
  obtain m where m: "http_parse_response_status ?a (pst (lwst s)) (rx_hdrs q) ?o (mem s) =
      Some (fst (status_line bs ?o), snd (status_line bs ?o), m)" "\<forall>x. \<not> in_range x ?a 10 \<longrightarrow> m x = mem s x"
    unfolding ch'(2) by blast
  have line: "e + 2 \<le> length bs \<Longrightarrow> fst (status_line bs ?o) = ERR_OK \<and> so_status (snd (status_line bs ?o)) = response_status resp"
      "\<not> e + 2 \<le> length bs \<Longrightarrow> status_line bs ?o = (ERR_VAL, ?o)"
    using response_status_line [OF resp(1,2), of "length bs" ?o] bs(1) by simp_all
  define q1 where "q1 = q\<lparr>rx_http_version := so_version (snd (status_line bs ?o)), rx_status := so_status (snd (status_line bs ?o))\<rparr>"
  define q2 where "q2 = (if e + 2 \<le> length bs then q1\<lparr>parse_state := HTTPC_PARSE_WAIT_HEADERS\<rparr> else q1)"
  have q2: "rx_hdrs q2 = rx_hdrs q" "req_ok E q2 = req_ok E q" "rx_content_len q2 = rx_content_len q" "rx_status q2 = so_status (snd (status_line bs ?o))"
      "parse_state q2 = (if e + 2 \<le> length bs then HTTPC_PARSE_WAIT_HEADERS else HTTPC_PARSE_WAIT_FIRST_LINE)"
    using False q(5) by (simp_all add: q2_def q1_def req_ok_def)
  let ?s = "set_req r q2 (s\<lparr>mem := m\<rparr>)"
  have run: "httpc_recv_status E r tpcb pp ERR_OK s = httpc_recv_headers E r tpcb pp ERR_OK ?s"
    using False q(1,5) m(1) line by (cases "e + 2 \<le> length bs") (simp_all add: httpc_recv_status_def q1_def q2_def Let_def)
  have inv2: "dl_inv p n stream digest (\<lambda>d. d = response_body resp) True [] c ?s"
  proof (rule dl_keeps_inv [OF inv])
    show "dl_keeps p n stream s ?s" using rdbytes_outside [OF m(2) a(2)] by (simp add: dl_keeps_def)
  qed
  have "chain_ok E (s\<lparr>mem := m\<rparr>) (rx_hdrs q) ps bs" using chain_ok_outside [OF ch _ _ ch'(3)] m(2) by simp
  then have ch2: "chain_ok E ?s (rx_hdrs q2) ps bs" by (simp add: chain_ok_def q2(1))
  show ?thesis unfolding run
    using line(1) chunks q(2-4) ch2 inv2 fr
    by (intro recv_headers [OF cr env resp _ _ _ _ _ _ _ _ bs, where q = q2 and ps = ps]) (simp_all add: q2)
qed

lemma payload_disjoint_same_data:
  "set ps \<subseteq> dom h \<Longrightarrow> (\<And>a. a \<in> set ps \<Longrightarrow> same_data (h' a) (h a)) \<Longrightarrow> payload_disjoint h' ps q k = payload_disjoint h ps q k"
proof (induction ps)
  case (Cons a ps)
  then show ?case using same_data_fields [OF Cons.prems(2) [of a]] by auto
qed simp

lemma chain_ok_append:
  assumes "chain_ok E s q qs got" "q \<noteq> NULL" and "chain_ok E s pp ps bs" "pp \<noteq> NULL" and "set qs \<inter> set ps = {}"
    and "length got + length bs < 65536"
  shows "\<exists>st. pbuf_cat q pp (pst (lwst s)) = Some st \<and> chain_ok E (set_pst st s) q (qs @ ps) (got @ bs) \<and>
    pchunks (pbufs st) (qs @ ps) = pchunks (pbufs (pst (lwst s))) (qs @ ps) \<and> heap st = heap (pst (lwst s))"
proof -
  let ?h = "pbufs (pst (lwst s))"
  have a: "pchain ?h q qs" "pool_bufs ?h qs" "pbytes ?h (mem s) qs = got" and b: "pchain ?h pp ps" "pool_bufs ?h ps" "pbytes ?h (mem s) ps = bs"
    using assms(1,3) by (simp_all add: chain_ok_def)
  have "plen ?h qs + plen ?h ps < 65536" using assms(6) a(3) b(3) by (metis length_pbytes)
  from pbuf_cat_chain [OF a(1) assms(2) b(1) assms(4,5) this, of "mem s"] obtain st where st:
      "pbuf_cat q pp (pst (lwst s)) = Some st" "pchain (pbufs st) q (qs @ ps)"
      "pbytes (pbufs st) (mem s) (qs @ ps) = got @ bs" "\<And>x. same_data (pbufs st x) (?h x)"
      "heap st = heap (pst (lwst s))"
    unfolding a(3) b(3) by blast
  have dom: "set (qs @ ps) \<subseteq> dom ?h" using pchain_dom [OF a(1)] pchain_dom [OF b(1)] by simp
  have "chain_ok E (set_pst st s) q (qs @ ps) (got @ bs)"
    using st assms(1,3) pool_bufs_same_data [OF dom st(4)] payload_disjoint_same_data [OF dom st(4)] by (simp add: chain_ok_def)
  then show ?thesis using st(1,5) pchunks_same_data [OF dom st(4)] by blast
qed

lemma http_inv_env:
  assumes "http_inv E r p n stream digest resp got c s" and "env_keeps E r p n stream s s'"
  shows "http_inv E r p n stream digest resp got c s'"
proof -
  have k: "dl_keeps p n stream s s'" "get_req r s' = get_req r s" "freeable E r s \<longrightarrow> freeable E r s'" using assms(2) by (simp_all add: env_keeps_def)
  obtain q e j where q: "get_req r s = Some q" "first_index CRLF resp 0 = Some e" "header_end resp = Some j"
    using assms(1) by (auto simp: http_inv_def split: option.splits)
  have "chain_ok E s' (rx_hdrs q) ps bs" if "chain_ok E s (rx_hdrs q) ps bs" for ps bs
    using that q(1) assms(2) chain_ok_keeps [OF that, of s'] by (auto simp: env_keeps_def chain_ok_def)
  then show ?thesis using assms(1) dl_keeps_inv [OF _ k(1)] by (cases "length got < j") (auto simp: http_inv_def k(2,3) q)
qed

lemma tcp_recv_segment:
  assumes cr: "crypt_unit cr stream digest ready" and env: "session_env E lw r tpcb p n stream"
    and resp: "response_ok resp" "length (response_body resp) < n"
    and inv: "http_inv E r p n stream digest resp got c s" and seg: "segment E r p n resp got s pp ps bs"
  shows "\<exists>c' s'. exec (http_handlers cr lw) (httpc_tcp_recv E r tpcb pp ERR_OK s) c = Some (ERR_OK, c', s') \<and>
    http_inv E r p n stream digest resp (got @ bs) c' s'"
proof -
  obtain e k where ek: "first_index CRLF resp 0 = Some e" "header_end resp = Some k" "k \<le> length resp"
    using response_okD [OF resp(1)] by metis
  have body: "length resp - k < n" using resp(2) ek(2) by (simp add: response_body_def)
  obtain q where q: "get_req r s = Some q" "req_ok E q" and fr: "freeable E r s"
    using inv ek by (auto simp: http_inv_def split: option.splits)
  have sg: "pp \<noteq> NULL" "chain_ok E s pp ps bs" "got @ bs = take (length got + length bs) resp"
      "length got < k \<longrightarrow> length got + length bs \<le> TCP_WND"
      "list_all (chunk_ok p n) (drop_chunks (k - length got) (pchunks (pbufs (pst (lwst s))) ps))"
    and apart: "\<And>qs. pchain (pbufs (pst (lwst s))) (rx_hdrs q) qs \<Longrightarrow> set qs \<inter> set ps = {}"
    using seg ek(2) q(1) by (auto simp: segment_def)
  have le: "length got + length bs \<le> length resp" using arg_cong [OF sg(3), of length] by simp
  define gb where "gb = got @ bs"
  have take: "gb = take (length gb) resp" unfolding gb_def length_append by (rule sg(3))
  show ?thesis
  proof (cases "length got < k")
    case False
    then have i: "rx_hdrs q = NULL" "parse_state q = HTTPC_PARSE_RX_DATA" "rx_status q = response_status resp"
        "hdr_content_len q = content_length resp" "rx_content_len q = of_nat (length got - k)"
        "dl_inv p n stream digest (\<lambda>d. d = response_body resp) True (drop k got) c s"
      using inv ek q(1) by (simp_all add: http_inv_def)
    have ch: "pchain (pbufs (pst (lwst s))) pp ps" "pool_bufs (pbufs (pst (lwst s))) ps" "pbytes (pbufs (pst (lwst s))) (mem s) ps = bs"
      using sg(2) by (simp_all add: chain_ok_def)
    have "length (drop k got) + length bs < n" using le body False by simp
    from recv_data [OF cr env q i(2) fr ch sg(1) _ i(6) this] sg(5) False
    obtain c' s' where d: "exec (http_handlers cr lw) (httpc_recv_data E r tpcb pp ERR_OK s) c = Some (ERR_OK, c', s')"
        "get_req r s' = Some (q\<lparr>timeout_ticks := HTTPC_POLL_TIMEOUT, rx_content_len := rx_content_len q + of_nat (length bs)\<rparr>)"
        "dl_inv p n stream digest (\<lambda>d. d = response_body resp) True (drop k got @ bs) c' s'" "freeable E r s'" by auto
    have "httpc_tcp_recv E r tpcb pp ERR_OK s = httpc_recv_data E r tpcb pp ERR_OK s"
      using q(1) sg(1) i(2) by (simp add: httpc_tcp_recv_def)
    moreover have "http_inv E r p n stream digest resp gb c' s'"
    proof -
      have "drop k gb = drop k got @ bs" "(of_nat (length got - k) + of_nat (length bs) :: u32) = of_nat (length gb - k)"
        using False by (simp_all add: gb_def flip: of_nat_add)
      moreover have "\<not> length gb < k" using False by (simp add: gb_def)
      ultimately show ?thesis using d(2-4) i q(2) ek take by (simp add: http_inv_def req_ok_def)
    qed
    ultimately show ?thesis using d(1) by (auto simp: gb_def)
  next
    case True
    then obtain qs where i: "chain_ok E s (rx_hdrs q) qs got" "rx_content_len q = 0"
        "parse_state q = (if e + 2 \<le> length got then HTTPC_PARSE_WAIT_HEADERS else HTTPC_PARSE_WAIT_FIRST_LINE)"
        "e + 2 \<le> length got \<longrightarrow> rx_status q = response_status resp"
        "dl_inv p n stream digest (\<lambda>d. d = response_body resp) True [] c s"
      using inv ek q(1) by (auto simp: http_inv_def)
    have wnd: "length got + length bs < 65536" using sg(4) True by (simp add: TCP_WND_def)
    have qs: "pchain (pbufs (pst (lwst s))) (rx_hdrs q) qs" "plen (pbufs (pst (lwst s))) qs = length got"
      using i(1) by (auto simp: chain_ok_def)
    have chunks: "list_all (chunk_ok p n) (drop_chunks k (pchunks (pbufs (pst (lwst s))) (qs @ ps)))"
      using drop_chunks_append [of "pbufs (pst (lwst s))" qs k] qs(2) True sg(5) by simp
    have rec: "parse_state q \<noteq> HTTPC_PARSE_RX_DATA" using i(3) by simp
    show ?thesis
    proof (cases "rx_hdrs q = NULL")
      case True
      then have "qs = []" using qs(1) by simp
      then have [simp]: "got = []" using i(1) by (simp add: chain_ok_def)
      let ?q = "q\<lparr>rx_hdrs := pp\<rparr>" and ?s = "set_req r (q\<lparr>rx_hdrs := pp\<rparr>) s"
      have run: "httpc_tcp_recv E r tpcb pp ERR_OK s = httpc_recv_status E r tpcb pp ERR_OK ?s"
        using q(1) sg(1) rec True by (simp add: httpc_tcp_recv_def)
      show ?thesis unfolding run
        using q(2) fr i(2-4) sg(1,2) chunks \<open>qs = []\<close> dl_keeps_inv [OF i(5) dl_keeps_trivial(1)] take [unfolded gb_def] wnd
        by (intro recv_status [OF cr env resp(1) ek(1,2) body, where q = ?q and g = 0 and ps = ps])
          (simp_all add: req_ok_def chain_ok_def)
    next
      case False
      obtain st where st: "pbuf_cat (rx_hdrs q) pp (pst (lwst s)) = Some st" "chain_ok E (set_pst st s) (rx_hdrs q) (qs @ ps) (got @ bs)"
          "pchunks (pbufs st) (qs @ ps) = pchunks (pbufs (pst (lwst s))) (qs @ ps)" "heap st = heap (pst (lwst s))"
        using chain_ok_append [OF i(1) False sg(2,1) apart [OF qs(1)] wnd] by blast
      have run: "httpc_tcp_recv E r tpcb pp ERR_OK s = httpc_recv_status E r tpcb pp ERR_OK (set_pst st s)"
        using q(1) sg(1) rec False st(1) by (simp add: httpc_tcp_recv_def)
      have gb: "chain_ok E (set_pst st s) (rx_hdrs q) (qs @ ps) gb" "length got \<le> length gb" "length gb < 65536"
        using st(2) wnd by (simp_all only: gb_def length_append le_add1)
      show ?thesis unfolding run gb_def [symmetric]
        using q fr i(2-4) False gb chunks dl_keeps_inv [OF i(5) dl_keeps_trivial(2)] take
        by (intro recv_status [OF cr env resp(1) ek(1,2) body, where q = q and g = "length got" and ps = "qs @ ps"])
          (simp_all add: st(3,4) del: pchunks_simps)
    qed
  qed
qed

subsection \<open>The end of a request\<close>

lemma free_state_ok:
  assumes env: "session_env E lw r tpcb p n stream" and q: "get_req r s = Some q" "req_ok E q"
    and ch: "chain_ok E s (rx_hdrs q) ps bs" and fr: "freeable E r s"
  shows "\<exists>e s'. httpc_free_state E r s = Some (e, s') \<and> get_req r s' = None \<and> dl_keeps p n stream s s'"
proof -
  obtain s1 q1 where s1: "(if rx_hdrs q \<noteq> NULL then map_option (set_req r (q\<lparr>rx_hdrs := NULL\<rparr>)) (free_pbuf E (rx_hdrs q) s) else Some s) = Some s1"
      "get_req r s1 = Some q1" "dl_keeps p n stream s s1" "freeable E r s1"
  proof (cases "rx_hdrs q = NULL")
    case True
    then show ?thesis using that [of s q] q(1) fr by simp
  next
    case False
    have "pbuf_free (hmem E) (rx_hdrs q) (pst (lwst s)) = Some (of_nat (length ps), pool_freed ps (pst (lwst s)))"
      using ch False by (intro pbuf_free_chain) (simp_all add: chain_ok_def)
    then have "free_pbuf E (rx_hdrs q) s = Some (set_pst (pool_freed ps (pst (lwst s))) s)"
      by (simp add: free_pbuf_def)
    then show ?thesis using False that [of "set_req r (q\<lparr>rx_hdrs := NULL\<rparr>) (set_pst (pool_freed ps (pst (lwst s))) s)"]
      fr by (simp add: dl_keeps_def)
  qed
  obtain s2 where s2: "free_req E r s1 = Some s2" "get_req r s2 = None" "dl_keeps p n stream s s2"
    using s1(3,4) by (auto simp: free_req_def freeable_def get_req_def dl_keeps_def)
  let ?ok = "\<lambda>s'. get_req r s' = None \<and> dl_keeps p n stream s s'"
  have step: "?ok (f t)" if "?ok t" "quiet r p n stream f" for f t
    using that dl_keeps_trans unfolding quiet_def by metis
  have cl: "quiet r p n stream (alt_arg (htcp E) t NULL)" "quiet r p n stream (alt_recv (htcp E) t False)"
      "quiet r p n stream (alt_err (htcp E) t False)" "quiet r p n stream (alt_poll (htcp E) t False 0)"
      "quiet r p n stream (alt_sent (htcp E) t False)" "quiet r p n stream (\<lambda>s. snd (alt_close (htcp E) t s))"
      "quiet r p n stream (alt_abort (htcp E) t)" for t
    using env by (simp_all add: session_env_def close_ok_def)
  let ?t = "pcb q1"
  define s3 where "s3 = alt_sent (htcp E) ?t False (alt_poll (htcp E) ?t False 0 (alt_err (htcp E) ?t False
      (alt_recv (htcp E) ?t False (alt_arg (htcp E) ?t NULL s2))))"
  have ok3: "?ok s3" unfolding s3_def using s2 by (intro step [OF _ cl(5)] step [OF _ cl(4)] step [OF _ cl(3)] step [OF _ cl(2)] step [OF _ cl(1)]) simp
  obtain e s4 where s4: "alt_close (htcp E) ?t s3 = (e, s4)" by force
  have ok4: "?ok s4" using step [OF ok3 cl(6), of ?t] s4 by simp
  have ok5: "?ok (alt_abort (htcp E) ?t s4)" using step [OF ok4 cl(7)] .
  show ?thesis
  proof (cases "?t = NULL")
    case True
    then have "httpc_free_state E r s = Some (ERR_OK, s2)"
      using q s1(1,2) s2(1) by (simp add: httpc_free_state_def req_ok_def)
    then show ?thesis using s2 by blast
  next
    case False
    then have "httpc_free_state E r s = (if e \<noteq> ERR_OK then Some (ERR_ABRT, alt_abort (htcp E) ?t s4) else Some (ERR_OK, s4))"
      using q s1(1,2) s2(1) s4 by (simp add: httpc_free_state_def req_ok_def Let_def s3_def)
    then show ?thesis using ok4 ok5 by auto
  qed
qed

lemma close_run:
  assumes cr: "crypt_unit cr stream digest ready" and env: "session_env E lw r tpcb p n stream"
    and q: "get_req r s = Some q" "req_ok E q" and ch: "chain_ok E s (rx_hdrs q) ps bs" and fr: "freeable E r s"
    and inv: "dl_inv p n stream digest good True data c s"
    and res: "result = HTTPC_RESULT_OK \<longrightarrow> rx_content_len q = of_nat (length data) \<and> good data"
  shows "\<exists>e c' s'. exec (http_handlers cr lw) (httpc_close E r result srv err s) c = Some (e, c', s') \<and>
    get_req r s' = None \<and> dl_done p n digest good data c' s' \<and>
    tHttpcResult c' = result \<and> ulServerResponse c' = srv \<and> http_tResult c' = err"
proof -
  have n: "n \<le> 2 ^ 32" and rn: "r \<noteq> NULL" using env by (simp_all add: session_env_def)
  obtain c' w where d: "on_result (http_handlers cr lw) result (rx_content_len q) srv err c s = Some (c', s\<lparr>hw := w\<rparr>)"
      "dl_inv p n stream digest good False data c' (s\<lparr>hw := w\<rparr>)"
      "tHttpcResult c' = result" "ulServerResponse c' = srv" "http_tResult c' = err"
    using result_callback_inv [OF cr n inv, of result "rx_content_len q" srv err lw] res by auto
  let ?s = "s\<lparr>hw := w\<rparr>"
  have "get_req r ?s = Some q" "chain_ok E ?s (rx_hdrs q) ps bs" "freeable E r ?s" using q(1) ch fr by (simp_all add: chain_ok_def)
  from free_state_ok [OF env this(1) q(2) this(2,3)] obtain e s' where f: "httpc_free_state E r ?s = Some (e, s')"
      "get_req r s' = None" "dl_keeps p n stream ?s s'" by blast
  have "exec (http_handlers cr lw) (httpc_close E r result srv err s) c = Some (e, c', s')"
    using q rn d(1) f(1) by (simp add: httpc_close_def req_ok_def finish_def)
  moreover have "dl_done p n digest good data c' s'" using dl_keeps_inv [OF d(2) f(3)] by (simp add: dl_inv_def)
  ultimately show ?thesis using f(2) d(3-5) by blast
qed


text \<open>In every state of a request the application has the part of the body that has been received.\<close>

lemma http_inv_data:
  assumes "http_inv E r p n stream digest resp got c s" and "header_end resp = Some k"
  obtains q ps bs where "get_req r s = Some q" "req_ok E q" "chain_ok E s (rx_hdrs q) ps bs" "freeable E r s"
    "rx_content_len q = of_nat (length (drop k got))" "\<And>good. dl_inv p n stream digest good True (drop k got) c s"
proof -
  obtain q e where q: "get_req r s = Some q" "first_index CRLF resp 0 = Some e" "req_ok E q" "freeable E r s"
    using assms by (auto simp: http_inv_def split: option.splits)
  have nil: "chain_ok E s NULL [] []" by (simp add: chain_ok_def payload_disjoint_def)
  show ?thesis
  proof (cases "length got < k")
    case True
    then obtain ps where "chain_ok E s (rx_hdrs q) ps got" using assms q(1,2) by (auto simp: http_inv_def)
    then show ?thesis using True assms q by (intro that [of q ps got]) (auto simp: http_inv_def dl_inv_def)
  next
    case False
    then show ?thesis using assms q nil by (intro that [of q "[]" "[]"]) (auto simp: http_inv_def dl_inv_def)
  qed
qed

text \<open>The timer and the pointer to the connection do not matter for the invariant.\<close>

lemma http_inv_set:
  assumes "http_inv E r p n stream digest resp got c s" and "get_req r s = Some q"
  shows "http_inv E r p n stream digest resp got c (set_req r (q\<lparr>timeout_ticks := t\<rparr>) s)"
    and "http_inv E r p n stream digest resp got c (set_req r (q\<lparr>pcb := b\<rparr>) s)"
proof -
  have "chain_ok E (set_req r q' s) a ps bs = chain_ok E s a ps bs" for q' a ps bs by (simp add: chain_ok_def)
  moreover have "dl_inv p n stream digest g True d c (set_req r q' s) = dl_inv p n stream digest g True d c s" for q' g d
    by (simp add: dl_inv_def dl_loading_def)
  ultimately show "http_inv E r p n stream digest resp got c (set_req r (q\<lparr>timeout_ticks := t\<rparr>) s)"
    and "http_inv E r p n stream digest resp got c (set_req r (q\<lparr>pcb := b\<rparr>) s)"
    using assms by (auto simp: http_inv_def req_ok_def split: option.splits)
qed

lemma close_session:
  assumes cr: "crypt_unit cr stream digest ready" and env: "session_env E lw r tpcb p n stream"
    and inv: "http_inv E r p n stream digest resp got c s" and k: "header_end resp = Some k"
  shows "\<exists>e c' s'. exec (http_handlers cr lw) (httpc_close E r result srv err s) c = Some (e, c', s') \<and>
    get_req r s' = None \<and> dl_done p n digest (\<lambda>_. True) (drop k got) c' s' \<and>
    tHttpcResult c' = result \<and> ulServerResponse c' = srv \<and> http_tResult c' = err"
  using inv k
proof (rule http_inv_data)
  fix q ps bs
  assume "get_req r s = Some q" "req_ok E q" "chain_ok E s (rx_hdrs q) ps bs" "freeable E r s"
    "rx_content_len q = of_nat (length (drop k got))" "\<And>good. dl_inv p n stream digest good True (drop k got) c s"
  then show ?thesis using close_run [OF cr env, of s q ps bs "\<lambda>_. True" "drop k got" c result srv err] by blast
qed

subsection \<open>A session\<close>

text \<open>The request has been sent (\<open>get_internal_addr\<close> and the connected handler have run), then segments arrive and the timer
  runs. \<open>got\<close> is what has arrived.\<close>

inductive session ::
    "('x, ('e, 'd, 'x, 'w) hsys) httpc_env \<Rightarrow> ('e, 'd, 'x, 'w) hsys lwip \<Rightarrow> 'e crypt \<Rightarrow> ptr \<Rightarrow> ptr \<Rightarrow> ptr \<Rightarrow> nat \<Rightarrow>
      ('e \<Rightarrow> u8 list) \<Rightarrow> u8 list \<Rightarrow> u8 list \<Rightarrow> ('e, 'd, 'x, 'w) hsys HTTP_DOWNLOAD_STATE_T \<Rightarrow> ('e, 'd, 'x, 'w) hsys \<Rightarrow> bool"
  for E lw cr r tpcb p n stream resp where
  session_start: "get_req r s = Some q \<Longrightarrow> req_ok E q \<Longrightarrow> rx_hdrs q = NULL \<Longrightarrow> rx_content_len q = 0 \<Longrightarrow> freeable E r s \<Longrightarrow>
    parse_state q = HTTPC_PARSE_WAIT_FIRST_LINE \<Longrightarrow> dl_loading p n stream [] c s \<Longrightarrow>
    session E lw cr r tpcb p n stream resp [] c s"
| session_recv: "session E lw cr r tpcb p n stream resp got c s \<Longrightarrow> env_keeps E r p n stream s s1 \<Longrightarrow>
    segment E r p n resp got s1 pp ps bs \<Longrightarrow>
    exec (http_handlers cr lw) (httpc_tcp_recv E r tpcb pp ERR_OK s1) c = Some (e, c', s') \<Longrightarrow>
    session E lw cr r tpcb p n stream resp (got @ bs) c' s'"
| session_poll: "session E lw cr r tpcb p n stream resp got c s \<Longrightarrow> env_keeps E r p n stream s s1 \<Longrightarrow>
    exec (http_handlers cr lw) (httpc_tcp_poll E r tpcb s1) c = Some (e, c', s') \<Longrightarrow> get_req r s' \<noteq> None \<Longrightarrow>
    session E lw cr r tpcb p n stream resp got c' s'"

lemma tcp_poll_cases:
  assumes "get_req r s = Some q" and "r \<noteq> NULL"
  shows "httpc_tcp_poll E r tpcb s =
    (let t = (if timeout_ticks q \<noteq> 0 then timeout_ticks q - 1 else 0); s' = set_req r (q\<lparr>timeout_ticks := t\<rparr>) s in
     if t = 0 then httpc_close E r HTTPC_RESULT_ERR_TIMEOUT 0 ERR_OK s' else Ret ERR_OK s')"
proof -
  have eq: "q\<lparr>timeout_ticks := 0\<rparr> = q" if "timeout_ticks q = 0" using that by (cases q) simp
  show ?thesis using assms by (cases "timeout_ticks q = 0") (simp_all add: httpc_tcp_poll_def Let_def eq)
qed

lemma session_inv:
  assumes cr: "crypt_unit cr stream digest ready" and env: "session_env E lw r tpcb p n stream"
    and resp: "response_ok resp" "length (response_body resp) < n"
  shows "session E lw cr r tpcb p n stream resp got c s \<Longrightarrow> http_inv E r p n stream digest resp got c s"
proof (induction rule: session.induct)
  case (session_start s q c)
  obtain e k where "first_index CRLF resp 0 = Some e" "header_end resp = Some k" "4 \<le> k"
    using response_okD [OF resp(1)] by metis
  moreover have "chain_ok E s NULL [] []" by (simp add: chain_ok_def payload_disjoint_def)
  ultimately show ?case using session_start by (auto simp: http_inv_def dl_inv_def)
next
  case (session_recv got c s s1 pp ps bs e c' s')
  then show ?case using tcp_recv_segment [OF cr env resp http_inv_env [OF session_recv.IH]] by fastforce
next
  case (session_poll got c s s1 e c' s')
  have inv: "http_inv E r p n stream digest resp got c s1" using http_inv_env session_poll by blast
  obtain k where k: "header_end resp = Some k" using response_okD [OF resp(1)] by metis
  obtain q where q: "get_req r s1 = Some q" using inv k by (auto simp: http_inv_def split: option.splits)
  define t where "t = (if timeout_ticks q \<noteq> 0 then timeout_ticks q - 1 else 0)"
  have inv': "http_inv E r p n stream digest resp got c (set_req r (q\<lparr>timeout_ticks := t\<rparr>) s1)"
    using http_inv_set(1) [OF inv q] .
  have "httpc_tcp_poll E r tpcb s1 = (let s = set_req r (q\<lparr>timeout_ticks := t\<rparr>) s1 in
      if t = 0 then httpc_close E r HTTPC_RESULT_ERR_TIMEOUT 0 ERR_OK s else Ret ERR_OK s)"
    using tcp_poll_cases [OF q] env by (simp add: session_env_def t_def)
  then show ?case
    using close_session [OF cr env inv' k, of HTTPC_RESULT_ERR_TIMEOUT 0 ERR_OK] session_poll.hyps(3,4) inv'
    by (cases "t = 0") auto
qed

lemma tcp_fin:
  assumes cr: "crypt_unit cr stream digest ready" and env: "session_env E lw r tpcb p n stream"
    and inv: "http_inv E r p n stream digest resp got c s" and k: "header_end resp = Some k"
  shows "\<exists>e c' s'. exec (http_handlers cr lw) (httpc_tcp_recv E r tpcb NULL ERR_OK s) c = Some (e, c', s') \<and>
    get_req r s' = None \<and> dl_done p n digest (\<lambda>_. True) (drop k got) c' s' \<and>
    tHttpcResult c' = (if length got < k then HTTPC_RESULT_ERR_CLOSED
      else if content_length resp \<noteq> HTTPC_CONTENT_LEN_INVALID \<and> content_length resp \<noteq> of_nat (length got - k)
        then HTTPC_RESULT_ERR_CONTENT_LEN else HTTPC_RESULT_OK) \<and>
    (k \<le> length got \<longrightarrow> ulServerResponse c' = ucast (response_status resp)) \<and> http_tResult c' = ERR_OK"
proof -
  obtain q where q: "get_req r s = Some q" using inv by (auto simp: http_inv_def split: option.splits)
  have st: "length got < k \<Longrightarrow> parse_state q \<noteq> HTTPC_PARSE_RX_DATA"
    "\<not> length got < k \<Longrightarrow> parse_state q = HTTPC_PARSE_RX_DATA \<and> hdr_content_len q = content_length resp \<and>
      rx_content_len q = of_nat (length got - k) \<and> rx_status q = response_status resp"
    using inv q k by (auto simp: http_inv_def split: option.splits)
  have "httpc_tcp_recv E r tpcb NULL ERR_OK s = httpc_close E r
      (if length got < k then HTTPC_RESULT_ERR_CLOSED
       else if content_length resp \<noteq> HTTPC_CONTENT_LEN_INVALID \<and> content_length resp \<noteq> of_nat (length got - k)
         then HTTPC_RESULT_ERR_CONTENT_LEN else HTTPC_RESULT_OK)
      (ucast (rx_status q)) ERR_OK s"
    using q st by (cases "length got < k") (simp_all add: httpc_tcp_recv_def)
  then show ?thesis
    using close_session [OF cr env inv k, where result = "if length got < k then HTTPC_RESULT_ERR_CLOSED
        else if content_length resp \<noteq> HTTPC_CONTENT_LEN_INVALID \<and> content_length resp \<noteq> of_nat (length got - k)
          then HTTPC_RESULT_ERR_CONTENT_LEN else HTTPC_RESULT_OK" and srv = "ucast (rx_status q)" and err = ERR_OK] st(2)
    by (fastforce simp: not_less)
qed

subsection \<open>Properties\<close>

text \<open>A response in one packet buffer.\<close>

definition demo_resp :: "u8 list" where
  "demo_resp = ascii ''HTTP/1.1 200 OK'' @ CRLF @ ascii ''Content-Length: 4'' @ CRLF @ CRLF @ ascii ''abcd''"

definition demo_altcp :: "'s altcp" where
  "demo_altcp = \<lparr>alt_new = (\<lambda>_ s. (0x40, s)), alt_arg = (\<lambda>_ _ s. s), alt_recv = (\<lambda>_ _ s. s), alt_err = (\<lambda>_ _ s. s),
     alt_poll = (\<lambda>_ _ _ s. s), alt_sent = (\<lambda>_ _ s. s), alt_connect = (\<lambda>_ _ _ s. (ERR_OK, s)),
     alt_write = (\<lambda>_ _ _ s. (ERR_OK, s)), alt_output = (\<lambda>_ s. (ERR_OK, s)), alt_recved = (\<lambda>_ _ s. s),
     alt_close = (\<lambda>_ s. (ERR_OK, s)), alt_abort = (\<lambda>_ s. s)\<rparr>"

type_synonym demo_hsys = "(u8 list, unit, unit, unit) hsys"

definition demo_httpc :: "(unit, demo_hsys) httpc_env" where
  "demo_httpc = \<lparr>hmem = \<lparr>api_malloc = (\<lambda>_ x. Some (0x30, x)), api_free = (\<lambda>_ x. Some x), api_trim = (\<lambda>p _ x. Some (p, x)),
       custom_free_function = (\<lambda>_ x. x)\<rparr>, htcp = demo_altcp,
     hconn = (\<lambda>_. \<lparr>proxy_addr = 0, proxy_port = 0, use_proxy = 0, altcp_allocator = NULL, result_fn = True, headers_done_fn = None\<rparr>),
     status_num = 0x2000, content_len_num = 0x2100, ntoa_str = 0x2200\<rparr>"

definition demo_hlwip :: "demo_hsys lwip" where
  "demo_hlwip = \<lparr>lwip_init = (\<lambda>s. s), netif_add = (\<lambda>_ _ _ f s. snd (f s)), netif_set_default = (\<lambda>s. s),
     netif_set_up = (\<lambda>s. s), netif_set_link_up = (\<lambda>s. s), netif_set_link_down = (\<lambda>s. s),
     netif_input = (\<lambda>_ s. Ret ERR_OK s), sys_check_timeouts = Ret (), lw_pbuf_alloc = (\<lambda>_ s. (None, s)),
     lw_pbuf_take = (\<lambda>_ _ _ s. s), lw_pbuf_copy_partial = (\<lambda>_ _ _ s. s),
     lw_pbuf_free = (\<lambda>pb s. case free_pbuf demo_httpc (pb_ptr pb) s of None \<Rightarrow> s | Some s \<Rightarrow> s),
     altcp_recved = alt_recved demo_altcp 0x40, lw_httpc_get_file = (\<lambda>_ _ _ s. (ERR_OK, s)), tcp_new = (\<lambda>s. (0x40, s)),
     tcp_arg = (\<lambda>_ s. s), tcp_sent = (\<lambda>_ s. s), tcp_connect = (\<lambda>_ _ _ s. (ERR_OK, s)), tcp_sndbuf = (\<lambda>_ s. (100, s)),
     tcp_write = (\<lambda>_ _ _ s. (ERR_OK, s)), tcp_output = (\<lambda>_ s. (ERR_OK, s)), tcp_close = (\<lambda>_ s. (ERR_OK, s)),
     tcp_abort = (\<lambda>_ s. s)\<rparr>"

definition demo_request :: httpc_state_t where
  "demo_request = httpc_state_zero\<lparr>pcb := 0x40, timeout_ticks := 30, recv_fn := 0x50, conn_settings := 0x60\<rparr>"

definition demo_hstate :: demo_hsys where
  "demo_hstate = \<lparr>mem = wrbytes (\<lambda>_. 0) 0x100 demo_resp, hw = [], drv = (),
     tNetworkDeviceState = \<lparr>tIpAddr = 0, tNetmask = 0, tGateway = 0, aucMAC = [], ptNetworkIf = None,
       tNetIf = \<lparr>netif_state = True, linkoutput = Fn_netif_output, ip_output = Fn_etharp_output, mtu = 1518, flags = 0,
         hwaddr = [], hwaddr_len = 6, netif_name = []\<rparr>\<rparr>,
     lwst = \<lparr>pst = \<lparr>pbufs = [0x10 \<mapsto> \<lparr>p_next = NULL, p_payload = 0x100, p_tot_len = 42, p_len = 42, p_type_internal = 0x82,
         p_flags = 0, p_ref = 1, p_if_idx = 0\<rparr>], memp_tab = (\<lambda>_. []), pbuf_free_ooseq_pending = 0, heap = ()\<rparr>,
       httpcs = [0x30 \<mapsto> demo_request], core = ()\<rparr>\<rparr>"

definition demo_dl :: "demo_hsys HTTP_DOWNLOAD_STATE_T" where
  "demo_dl = \<lparr>pucStart = 0x1000, pucCnt = 0x1000, pucEnd = 0x1010, http_tHash = replicate 48 0, pfnResult = None,
    fIsFinished = 0, tHttpcResult = 0, ulServerResponse = 0, http_tResult = 0\<rparr>"

lemma demo_resp_ok:
  "length demo_resp = 42" "header_end demo_resp = Some 38" "response_body demo_resp = [0x61, 0x62, 0x63, 0x64]" "response_status demo_resp = 200"
  "content_length demo_resp = 4" "response_ok demo_resp"
  by code_simp+

lemma demo_session_env: "session_env demo_httpc demo_hlwip 0x30 0x40 0x1000 16 (\<lambda>w. w)"
  by (simp add: session_env_def recved_ok_def close_ok_def quiet_def demo_httpc_def demo_hlwip_def demo_altcp_def dl_keeps_def
      keeps_chain_def freeable_def ranges_disjointI)

lemma demo_session_start: "session demo_httpc demo_hlwip demo_crypt 0x30 0x40 0x1000 16 (\<lambda>w. w) demo_resp [] demo_dl demo_hstate"
  by (rule session_start [of _ _ demo_request])
    (simp_all add: get_req_def freeable_def demo_hstate_def demo_request_def httpc_state_zero_def req_ok_def demo_httpc_def dl_loading_def demo_dl_def)

lemma env_keeps_refl [simp]: "env_keeps E r p n stream s s"
  by (simp add: env_keeps_def keeps_chain_def)

lemma demo_segment: "segment demo_httpc 0x30 0x1000 16 demo_resp [] demo_hstate 0x10 [0x10] demo_resp"
proof -
  have b: "rdbytes (mem demo_hstate) 0x100 42 = demo_resp"
    using rdbytes_wrbytes [of demo_resp "\<lambda>_. 0" "0x100"] by (simp add: demo_hstate_def demo_resp_ok)
  have p: "pbufs (pst (lwst demo_hstate)) = [0x10 \<mapsto> \<lparr>p_next = NULL, p_payload = 0x100, p_tot_len = 42, p_len = 42,
      p_type_internal = 0x82, p_flags = 0, p_ref = 1, p_if_idx = 0\<rparr>]" by (simp add: demo_hstate_def)
  have "chain_ok demo_httpc demo_hstate 0x10 [0x10] demo_resp"
    using b by (simp add: chain_ok_def p pool_bufs_def pool_buf_def demo_httpc_def ranges_disjointI
        PBUF_TYPE_ALLOC_SRC_MASK_def PBUF_FLAG_IS_CUSTOM_def dvd_4_u32)
  moreover have "rx_hdrs q = NULL" if "get_req 0x30 demo_hstate = Some q" for q
    using that by (auto simp: get_req_def demo_hstate_def demo_request_def httpc_state_zero_def)
  moreover have "list_all (chunk_ok 0x1000 16) (drop_chunks 38 (pchunks (pbufs (pst (lwst demo_hstate))) [0x10]))"
    by (simp add: p chunk_ok_def align_dist_def ranges_disjointI)
  ultimately show ?thesis by (auto simp: segment_def demo_resp_ok TCP_WND_def)
qed

lemma demo_session: "\<exists>c s. session demo_httpc demo_hlwip demo_crypt 0x30 0x40 0x1000 16 (\<lambda>w. w) demo_resp demo_resp c s"
proof -
  have "http_inv demo_httpc 0x30 0x1000 16 (\<lambda>w. w) (\<lambda>bs. replicate 12 (of_nat (length bs))) demo_resp [] demo_dl demo_hstate"
    using session_inv [OF demo_crypt_unit demo_session_env _ _ demo_session_start] by (simp add: demo_resp_ok)
  from tcp_recv_segment [OF demo_crypt_unit demo_session_env _ _ this demo_segment] demo_resp_ok
  obtain c s where "exec (http_handlers demo_crypt demo_hlwip) (httpc_tcp_recv demo_httpc 0x30 0x40 0x10 ERR_OK demo_hstate) demo_dl =
      Some (ERR_OK, c, s)" by auto
  from session_recv [OF demo_session_start _ demo_segment this] show ?thesis by auto
qed

text \<open>(C6) A complete response with a body smaller than the buffer, in segments whose body parts are not shorter than
  their way to the next aligned address: the end of the stream finishes the download and frees the request. The download is a success if
  and only if the status is 200 and the content length, when the header has one, is the length of the body; then the buffer
  has the body and the hash is that of the body.\<close>

theorem http_session_delivers_body:
  assumes cr: "crypt_unit cr stream digest ready" and env: "session_env E lw r tpcb p n stream"
    and resp: "response_ok resp" "length (response_body resp) < n"
    and ses: "session E lw cr r tpcb p n stream resp resp c s" and s1: "env_keeps E r p n stream s s1"
  shows "\<exists>e c' s'. exec (http_handlers cr lw) (httpc_tcp_recv E r tpcb NULL ERR_OK s1) c = Some (e, c', s') \<and>
    get_req r s' = None \<and> fIsFinished c' = 1 \<and>
    (dl_success c' \<longleftrightarrow> response_status resp = 200 \<and>
       (content_length resp = HTTPC_CONTENT_LEN_INVALID \<or> content_length resp = of_nat (length (response_body resp)))) \<and>
    (dl_success c' \<longrightarrow> pucCnt c' = p + of_nat (length (response_body resp)) \<and>
       rdbytes (mem s') p (length (response_body resp)) = response_body resp \<and>
       http_tHash c' = hash_bytes (digest (response_body resp @ fips_padding (length (response_body resp)))))"
proof -
  obtain k where k: "header_end resp = Some k" "k \<le> length resp" using response_okD [OF resp(1)] by metis
  have body: "response_body resp = drop k resp" using k(1) by (simp add: response_body_def)
  have st: "(ucast (response_status resp) = (200 :: u32)) = (response_status resp = 200)"
    by (auto simp: word_uint_eq_iff uint_up_ucast is_up)
  from tcp_fin [OF cr env http_inv_env [OF session_inv [OF cr env resp ses] s1] k(1)] obtain e c' s'
    where x: "exec (http_handlers cr lw) (httpc_tcp_recv E r tpcb NULL ERR_OK s1) c = Some (e, c', s')"
      and d: "get_req r s' = None" "dl_done p n digest (\<lambda>_. True) (drop k resp) c' s'"
      and r: "tHttpcResult c' = (if content_length resp \<noteq> HTTPC_CONTENT_LEN_INVALID \<and> content_length resp \<noteq> of_nat (length resp - k)
        then HTTPC_RESULT_ERR_CONTENT_LEN else HTTPC_RESULT_OK)" "ulServerResponse c' = ucast (response_status resp)"
        "http_tResult c' = ERR_OK"
    using k(2) by (auto simp: not_less)
  have "dl_success c' \<longleftrightarrow> response_status resp = 200 \<and>
      (content_length resp = HTTPC_CONTENT_LEN_INVALID \<or> content_length resp = of_nat (length (response_body resp)))"
    using r st by (auto simp: dl_success_def body http_const_defs)
  then show ?thesis using x d by (intro exI [of _ e] exI [of _ c'] exI [of _ s']) (simp_all add: dl_done_def body)
qed

text \<open>(C6) Witness: the response in one segment.\<close>

theorem http_session_delivers_body_witness:
  "\<exists>c s e c' s'. session demo_httpc demo_hlwip demo_crypt 0x30 0x40 0x1000 16 (\<lambda>w. w) demo_resp demo_resp c s \<and>
    exec (http_handlers demo_crypt demo_hlwip) (httpc_tcp_recv demo_httpc 0x30 0x40 NULL ERR_OK s) c = Some (e, c', s') \<and>
    dl_success c' \<and> rdbytes (mem s') 0x1000 4 = [0x61, 0x62, 0x63, 0x64]"
proof -
  obtain c s where s: "session demo_httpc demo_hlwip demo_crypt 0x30 0x40 0x1000 16 (\<lambda>w. w) demo_resp demo_resp c s"
    using demo_session by blast
  have "length (response_body demo_resp) < 16" by (simp add: demo_resp_ok)
  from http_session_delivers_body [OF demo_crypt_unit demo_session_env demo_resp_ok(6) this s env_keeps_refl]
  obtain e c' s' where x: "exec (http_handlers demo_crypt demo_hlwip) (httpc_tcp_recv demo_httpc 0x30 0x40 NULL ERR_OK s) c = Some (e, c', s')"
    and d: "dl_success c' \<longleftrightarrow> response_status demo_resp = 200 \<and> (content_length demo_resp = HTTPC_CONTENT_LEN_INVALID \<or>
        content_length demo_resp = of_nat (length (response_body demo_resp)))"
      "dl_success c' \<longrightarrow> rdbytes (mem s') 0x1000 (length (response_body demo_resp)) = response_body demo_resp"
    by blast
  have "dl_success c' \<and> rdbytes (mem s') 0x1000 4 = [0x61, 0x62, 0x63, 0x64]" using d by (simp add: demo_resp_ok rdbytes_numeral)
  then show ?thesis using s x by blast
qed



text \<open>The client accepts the next such segment in every state of a session, so the sessions above do not get stuck.\<close>

lemma session_accepts_segment:
  assumes cr: "crypt_unit cr stream digest ready" and env: "session_env E lw r tpcb p n stream"
    and resp: "response_ok resp" "length (response_body resp) < n"
    and ses: "session E lw cr r tpcb p n stream resp got c s" and s1: "env_keeps E r p n stream s s1"
    and seg: "segment E r p n resp got s1 pp ps bs"
  shows "\<exists>c' s'. exec (http_handlers cr lw) (httpc_tcp_recv E r tpcb pp ERR_OK s1) c = Some (ERR_OK, c', s') \<and>
    session E lw cr r tpcb p n stream resp (got @ bs) c' s'"
  using tcp_recv_segment [OF cr env resp http_inv_env [OF session_inv [OF cr env resp ses] s1] seg] session_recv [OF ses s1 seg]
  by blast

end
