(* ===== verification/Lwip_Mem.thy ===== *)
theory Lwip_Mem
  imports Lwip_Pbuf
begin

text \<open>
  The heap of lwIP (mem.c): blocks of one array, each behind a \<open>struct mem\<close> with the offsets of the next and the
  previous structure. The structures are in the bytes of the array, as in C, so that a structure that is moved by
  \<open>mem_trim\<close> overwrites the old one. The abstraction is the list of the blocks with their sizes and whether they are in use; the
  operations are first fit, splitting and merging on this list. A failed assertion does not return (\<open>None\<close>).
\<close>

subsection \<open>The structures\<close>

text \<open>\<open>MEM_SIZE\<close> is above 64000, so \<open>mem_size_t\<close> has 32 bits and \<open>struct mem\<close> 12 bytes.\<close>

definition MIN_SIZE_ALIGNED :: u32 where "MIN_SIZE_ALIGNED = 12"
definition SIZEOF_STRUCT_MEM :: u32 where "SIZEOF_STRUCT_MEM = 12"
definition MEM_SIZE_ALIGNED :: u32 where "MEM_SIZE_ALIGNED = 65536"

lemmas mem_const_defs = MIN_SIZE_ALIGNED_def SIZEOF_STRUCT_MEM_def MEM_SIZE_ALIGNED_def

record heap_t =
  hbytes :: memory
  ram :: ptr
  ram_end :: ptr
  lfree :: ptr

definition mem_next :: "heap_t \<Rightarrow> ptr \<Rightarrow> u32" where "mem_next h p = rd32 (hbytes h) p"
definition mem_prev :: "heap_t \<Rightarrow> ptr \<Rightarrow> u32" where "mem_prev h p = rd32 (hbytes h) (p + 4)"
definition mem_used :: "heap_t \<Rightarrow> ptr \<Rightarrow> u8" where "mem_used h p = hbytes h (p + 8)"

definition set_next :: "ptr \<Rightarrow> u32 \<Rightarrow> heap_t \<Rightarrow> heap_t" where "set_next p v h = h\<lparr>hbytes := wr32 (hbytes h) p v\<rparr>"
definition set_prev :: "ptr \<Rightarrow> u32 \<Rightarrow> heap_t \<Rightarrow> heap_t" where "set_prev p v h = h\<lparr>hbytes := wr32 (hbytes h) (p + 4) v\<rparr>"
definition set_used :: "ptr \<Rightarrow> u8 \<Rightarrow> heap_t \<Rightarrow> heap_t" where "set_used p v h = h\<lparr>hbytes := wr8 (hbytes h) (p + 8) v\<rparr>"

definition ptr_to_mem :: "heap_t \<Rightarrow> u32 \<Rightarrow> ptr" where "ptr_to_mem h ptr = ram h + ptr"
definition mem_to_ptr :: "heap_t \<Rightarrow> ptr \<Rightarrow> u32" where "mem_to_ptr h mem = mem - ram h"

subsection \<open>Operations\<close>

definition mem_init :: "ptr \<Rightarrow> memory \<Rightarrow> heap_t" where
  "mem_init ram_heap m =
     (let h = \<lparr>hbytes = m, ram = LWIP_MEM_ALIGN_SIZE ram_heap, ram_end = NULL, lfree = NULL\<rparr>;
          mem = ram h;
          h = set_next mem MEM_SIZE_ALIGNED h;
          h = set_prev mem 0 h;
          h = set_used mem 0 h;
          h = h\<lparr>ram_end := ptr_to_mem h MEM_SIZE_ALIGNED\<rparr>;
          h = set_used (ram_end h) 1 h;
          h = set_next (ram_end h) MEM_SIZE_ALIGNED h;
          h = set_prev (ram_end h) MEM_SIZE_ALIGNED h in
      h\<lparr>lfree := ram h\<rparr>)"

text \<open>The two parts of \<open>plug_holes\<close>.\<close>

definition plug_forward :: "ptr \<Rightarrow> heap_t \<Rightarrow> heap_t" where
  "plug_forward mem h =
     (let nmem = ptr_to_mem h (mem_next h mem) in
      if mem \<noteq> nmem \<and> mem_used h nmem = 0 \<and> nmem \<noteq> ram_end h then
        let h = (if lfree h = nmem then h\<lparr>lfree := mem\<rparr> else h);
            h = set_next mem (mem_next h nmem) h in
        if mem_next h nmem \<noteq> MEM_SIZE_ALIGNED
        then set_prev (ptr_to_mem h (mem_next h nmem)) (mem_to_ptr h mem) h else h
      else h)"

definition plug_backward :: "ptr \<Rightarrow> heap_t \<Rightarrow> heap_t" where
  "plug_backward mem h =
     (let pmem = ptr_to_mem h (mem_prev h mem) in
      if pmem \<noteq> mem \<and> mem_used h pmem = 0 then
        let h = (if lfree h = mem then h\<lparr>lfree := pmem\<rparr> else h);
            h = set_next pmem (mem_next h mem) h in
        if mem_next h mem \<noteq> MEM_SIZE_ALIGNED
        then set_prev (ptr_to_mem h (mem_next h mem)) (mem_to_ptr h pmem) h else h
      else h)"

definition plug_holes :: "ptr \<Rightarrow> heap_t \<Rightarrow> heap_t option" where
  "plug_holes mem h =
     (if mem < ram h \<or> ram_end h \<le> mem \<or> mem_used h mem \<noteq> 0 \<or> mem_next h mem > MEM_SIZE_ALIGNED then None
      else Some (plug_backward mem (plug_forward mem h)))"

definition mem_link_valid :: "heap_t \<Rightarrow> ptr \<Rightarrow> bool" where
  "mem_link_valid h mem =
     (let rmem_idx = mem_to_ptr h mem;
          nmem = ptr_to_mem h (mem_next h mem);
          pmem = ptr_to_mem h (mem_prev h mem) in
      \<not> (mem_next h mem > MEM_SIZE_ALIGNED \<or> mem_prev h mem > MEM_SIZE_ALIGNED \<or>
         (mem_prev h mem \<noteq> rmem_idx \<and> mem_next h pmem \<noteq> rmem_idx) \<or>
         (nmem \<noteq> ram_end h \<and> mem_prev h nmem \<noteq> rmem_idx)))"

definition mem_free :: "ptr \<Rightarrow> heap_t \<Rightarrow> heap_t option" where
  "mem_free rmem h =
     (if rmem = NULL then Some h
      else if rmem AND 3 \<noteq> 0 then None
      else
        let mem = rmem - SIZEOF_STRUCT_MEM in
        if mem < ram h \<or> rmem + MIN_SIZE_ALIGNED > ram_end h then None
        else if mem_used h mem = 0 then None
        else if \<not> mem_link_valid h mem then None
        else
          let h = set_used mem 0 h;
              h = (if mem < lfree h then h\<lparr>lfree := mem\<rparr> else h) in
          plug_holes mem h)"

text \<open>The sizes of the blocks are aligned and at least \<open>MIN_SIZE_ALIGNED\<close>.\<close>

definition block_size :: "u32 \<Rightarrow> u32" where
  "block_size n = (if LWIP_MEM_ALIGN_SIZE n < MIN_SIZE_ALIGNED then MIN_SIZE_ALIGNED else LWIP_MEM_ALIGN_SIZE n)"

text \<open>The new structure \<open>mem2\<close> at the offset \<open>ptr2\<close>, which is linked between \<open>mem\<close> and \<open>next\<close>.\<close>

definition mem_link_free :: "ptr \<Rightarrow> u32 \<Rightarrow> u32 \<Rightarrow> u32 \<Rightarrow> heap_t \<Rightarrow> heap_t" where
  "mem_link_free mem ptr ptr2 next h =
     (let mem2 = ptr_to_mem h ptr2;
          h = set_used mem2 0 h;
          h = set_next mem2 next h;
          h = set_prev mem2 ptr h;
          h = set_next mem ptr2 h in
      if mem_next h mem2 \<noteq> MEM_SIZE_ALIGNED then set_prev (ptr_to_mem h (mem_next h mem2)) ptr2 h else h)"

definition mem_trim :: "ptr \<Rightarrow> u32 \<Rightarrow> heap_t \<Rightarrow> (ptr \<times> heap_t) option" where
  "mem_trim rmem new_size h =
     (let newsize = block_size new_size in
      if newsize > MEM_SIZE_ALIGNED \<or> newsize < new_size then Some (NULL, h)
      else if rmem < ram h \<or> ram_end h \<le> rmem then None
      else
        let mem = rmem - SIZEOF_STRUCT_MEM;
            ptr = mem_to_ptr h mem;
            siz = mem_next h mem - ptr - SIZEOF_STRUCT_MEM in
        if newsize > siz then None
        else if newsize = siz then Some (rmem, h)
        else
          let mem2 = ptr_to_mem h (mem_next h mem); ptr2 = ptr + SIZEOF_STRUCT_MEM + newsize in
          if mem_used h mem2 = 0 then
            if mem_next h mem = MEM_SIZE_ALIGNED then None
            else
              let next = mem_next h mem2;
                  h = (if lfree h = mem2 then h\<lparr>lfree := ptr_to_mem h ptr2\<rparr> else h) in
              Some (rmem, mem_link_free mem ptr ptr2 next h)
          else if newsize + SIZEOF_STRUCT_MEM + MIN_SIZE_ALIGNED \<le> siz then
            if mem_next h mem = MEM_SIZE_ALIGNED then None
            else
              let mem2 = ptr_to_mem h ptr2;
                  h = (if mem2 < lfree h then h\<lparr>lfree := mem2\<rparr> else h) in
              Some (rmem, mem_link_free mem ptr ptr2 (mem_next h mem) h)
          else Some (rmem, h))"

text \<open>The search for the first free block that is large enough; the result is its offset.\<close>

partial_function (option) mem_scan :: "heap_t \<Rightarrow> u32 \<Rightarrow> u32 \<Rightarrow> u32 option option" where
  "mem_scan h siz ptr =
     (if ptr < MEM_SIZE_ALIGNED - siz then
        let mem = ptr_to_mem h ptr in
        if mem_used h mem = 0 \<and> mem_next h mem - (ptr + SIZEOF_STRUCT_MEM) \<ge> siz then Some (Some ptr)
        else mem_scan h siz (mem_next h mem)
      else Some None)"

text \<open>The block at \<open>ptr\<close> is taken and split when the rest is large enough; \<open>mem->used\<close> is written after the offsets, which are other bytes.\<close>

definition mem_take :: "u32 \<Rightarrow> u32 \<Rightarrow> heap_t \<Rightarrow> heap_t option" where
  "mem_take ptr siz h =
     (let mem = ptr_to_mem h ptr in
      if mem_next h mem - (ptr + SIZEOF_STRUCT_MEM) \<ge> siz + SIZEOF_STRUCT_MEM + MIN_SIZE_ALIGNED then
        let ptr2 = ptr + SIZEOF_STRUCT_MEM + siz in
        if ptr2 = MEM_SIZE_ALIGNED then None
        else Some (set_used mem 1 (mem_link_free mem ptr ptr2 (mem_next h mem) h))
      else Some (set_used mem 1 h))"

partial_function (option) mem_next_free :: "heap_t \<Rightarrow> ptr \<Rightarrow> ptr option" where
  "mem_next_free h cur =
     (if mem_used h cur \<noteq> 0 \<and> cur \<noteq> ram_end h then mem_next_free h (ptr_to_mem h (mem_next h cur)) else Some cur)"

definition mem_malloc :: "u32 \<Rightarrow> heap_t \<Rightarrow> (ptr \<times> heap_t) option" where
  "mem_malloc size_in h =
     (let siz = block_size size_in in
      if size_in = 0 then Some (NULL, h)
      else if siz > MEM_SIZE_ALIGNED \<or> siz < size_in then Some (NULL, h)
      else case mem_scan h siz (mem_to_ptr h (lfree h)) of
        None \<Rightarrow> None
      | Some None \<Rightarrow> Some (NULL, h)
      | Some (Some ptr) \<Rightarrow>
          (case mem_take ptr siz h of
             None \<Rightarrow> None
           | Some h \<Rightarrow>
               let mem = ptr_to_mem h ptr in
               (case (if mem = lfree h then
                        (case mem_next_free h (lfree h) of
                           None \<Rightarrow> None
                         | Some cur \<Rightarrow> if cur = ram_end h \<or> mem_used h cur = 0 then Some cur else None)
                      else Some (lfree h)) of
                  None \<Rightarrow> None
                | Some cur \<Rightarrow>
                    let h = h\<lparr>lfree := cur\<rparr> in
                    if mem + SIZEOF_STRUCT_MEM + siz \<le> ram_end h \<and>
                       (mem + SIZEOF_STRUCT_MEM) mod 4 = 0 \<and> mem AND 3 = 0
                    then Some (mem + SIZEOF_STRUCT_MEM, h) else None)))"

text \<open>\<open>size_t\<close> and \<open>mem_size_t\<close> have the same width, so that the check of the product for an overflow never fails.\<close>

definition mem_calloc :: "u32 \<Rightarrow> u32 \<Rightarrow> heap_t \<Rightarrow> (ptr \<times> heap_t) option" where
  "mem_calloc count siz h =
     (let alloc_size = count * siz in
      case mem_malloc alloc_size h of
        None \<Rightarrow> None
      | Some (p, h) \<Rightarrow>
          if p \<noteq> NULL then Some (p, h\<lparr>hbytes := wrbytes (hbytes h) p (replicate (unat alloc_size) 0)\<rparr>) else Some (p, h))"


subsection \<open>Access to the structures\<close>

text \<open>Structures are given by their offset in the array.\<close>

abbreviation mem_at :: "heap_t \<Rightarrow> nat \<Rightarrow> ptr" where
  "mem_at h x \<equiv> ram h + of_nat x"

definition apart :: "nat \<Rightarrow> nat \<Rightarrow> bool" where
  "apart x y \<longleftrightarrow> x + 12 \<le> y \<or> y + 12 \<le> x"

definition heap_base :: "heap_t \<Rightarrow> bool" where
  "heap_base h \<longleftrightarrow> 4 dvd ram h \<and> ram h \<noteq> NULL \<and> unat (ram h) + 65548 \<le> 2 ^ 32 \<and> ram_end h = mem_at h 65536"

lemma set_simps [simp]:
  "ram (set_next p v h) = ram h" "ram (set_prev p v h) = ram h" "ram (set_used p w h) = ram h"
  "ram_end (set_next p v h) = ram_end h" "ram_end (set_prev p v h) = ram_end h" "ram_end (set_used p w h) = ram_end h"
  "lfree (set_next p v h) = lfree h" "lfree (set_prev p v h) = lfree h" "lfree (set_used p w h) = lfree h"
  "mem_next (h\<lparr>lfree := l\<rparr>) q = mem_next h q" "mem_prev (h\<lparr>lfree := l\<rparr>) q = mem_prev h q" "mem_used (h\<lparr>lfree := l\<rparr>) q = mem_used h q"
  "set_next p v (h\<lparr>lfree := l\<rparr>) = set_next p v h\<lparr>lfree := l\<rparr>" "set_prev p v (h\<lparr>lfree := l\<rparr>) = set_prev p v h\<lparr>lfree := l\<rparr>"
  by (simp_all add: set_next_def set_prev_def set_used_def mem_next_def mem_prev_def mem_used_def)

lemma heap_base_simps [simp]:
  "heap_base (set_next p v h) = heap_base h" "heap_base (set_prev p v h) = heap_base h" "heap_base (set_used p w h) = heap_base h"
  "heap_base (h\<lparr>lfree := l\<rparr>) = heap_base h"
  by (simp_all add: heap_base_def)

lemma same_struct [simp]:
  "mem_next (set_next p v h) p = v" "mem_prev (set_next p v h) p = mem_prev h p" "mem_used (set_next p v h) p = mem_used h p"
  "mem_next (set_prev p v h) p = mem_next h p" "mem_prev (set_prev p v h) p = v" "mem_used (set_prev p v h) p = mem_used h p"
  "mem_next (set_used p w h) p = mem_next h p" "mem_prev (set_used p w h) p = mem_prev h p" "mem_used (set_used p w h) p = w"
  by (simp_all add: mem_next_def mem_prev_def mem_used_def set_next_def set_prev_def set_used_def rd32_wr32)
    (simp_all add: rd32_def wr32_def wr8_def)

lemma mem_at_neq:
  assumes "heap_base h" and "apart x y" "x \<le> 65536" "y \<le> 65536" and "unat k < 12" "unat l < 12"
  shows "mem_at h x + k \<noteq> mem_at h y + l"
proof
  assume "mem_at h x + k = mem_at h y + l"
  then have "(of_nat (x + unat k) :: u32) = of_nat (y + unat l)" by (simp add: add.assoc)
  then have "x + unat k = y + unat l" using assms by (subst (asm) of_nat_u32_eq) simp_all
  then show False using assms(2,5,6) by (auto simp: apart_def)
qed

lemma mem_at_inject:
  assumes "x \<le> 65536" "y \<le> 65536"
  shows "mem_at h x = mem_at h y \<longleftrightarrow> x = y"
  using assms by (simp add: of_nat_u32_eq)

text \<open>A structure is not changed by a write to another one.\<close>

definition same_hd :: "heap_t \<Rightarrow> heap_t \<Rightarrow> ptr \<Rightarrow> bool" where
  "same_hd h' h p \<longleftrightarrow> mem_next h' p = mem_next h p \<and> mem_prev h' p = mem_prev h p \<and> mem_used h' p = mem_used h p"

lemma same_hdI:
  assumes "\<And>l. unat l < 12 \<Longrightarrow> hbytes h' (p + l) = hbytes h (p + l)"
  shows "same_hd h' h p"
  using assms [of 0] assms [of 1] assms [of 2] assms [of 3] assms [of 4] assms [of 5] assms [of 6] assms [of 7] assms [of 8]
  by (simp add: same_hd_def mem_next_def mem_prev_def mem_used_def rd32_def add.assoc)

lemma other_struct:
  assumes "heap_base h" and "apart x y" "x \<le> 65536" "y \<le> 65536" and "ram h' = ram h"
  shows "same_hd (set_next (mem_at h x) v h') h' (mem_at h y)" "same_hd (set_prev (mem_at h x) v h') h' (mem_at h y)"
    "same_hd (set_used (mem_at h x) w h') h' (mem_at h y)"
proof -
  note n = mem_at_neq [OF assms(1-4)]
  have ne: "mem_at h y + l \<noteq> mem_at h x + k" if "unat l < 12" "unat k < 12" for k l using n [OF that(2,1)] by metis
  show "same_hd (set_next (mem_at h x) v h') h' (mem_at h y)"
  proof (rule same_hdI)
    fix l :: u32
    assume "unat l < 12"
    then show "hbytes (set_next (mem_at h x) v h') (mem_at h y + l) = hbytes h' (mem_at h y + l)"
      using ne [of l 0] ne [of l 1] ne [of l 2] ne [of l 3] by (simp add: set_next_def wr32_def add.assoc)
  qed
  show "same_hd (set_prev (mem_at h x) v h') h' (mem_at h y)"
  proof (rule same_hdI)
    fix l :: u32
    assume "unat l < 12"
    then show "hbytes (set_prev (mem_at h x) v h') (mem_at h y + l) = hbytes h' (mem_at h y + l)"
      using ne [of l 4] ne [of l 5] ne [of l 6] ne [of l 7] by (simp add: set_prev_def wr32_def add.assoc)
  qed
  show "same_hd (set_used (mem_at h x) w h') h' (mem_at h y)"
  proof (rule same_hdI)
    fix l :: u32
    assume "unat l < 12"
    then show "hbytes (set_used (mem_at h x) w h') (mem_at h y + l) = hbytes h' (mem_at h y + l)"
      using ne [of l 8] by (simp add: set_used_def wr8_def)
  qed
qed

subsection \<open>The list of blocks\<close>

text \<open>A block is given by its size and whether it is in use. \<open>hdr\<close> is the structure at \<open>x\<close>, \<open>seg\<close> the structures of a list of blocks from
  the offset \<open>x\<close> on, where \<open>pv\<close> is the offset of the structure before.\<close>

type_synonym block = "nat \<times> bool"

definition hdr :: "heap_t \<Rightarrow> nat \<Rightarrow> nat \<Rightarrow> nat \<Rightarrow> bool \<Rightarrow> bool" where
  "hdr h x nx pv u \<longleftrightarrow> mem_next h (mem_at h x) = of_nat nx \<and> mem_prev h (mem_at h x) = of_nat pv \<and>
     mem_used h (mem_at h x) = (if u then 1 else 0)"

definition blen :: "block list \<Rightarrow> nat" where
  "blen bs = sum_list (map (\<lambda>b. 12 + fst b) bs)"

primrec seg :: "heap_t \<Rightarrow> nat \<Rightarrow> nat \<Rightarrow> block list \<Rightarrow> bool" where
  "seg h pv x [] \<longleftrightarrow> True"
| "seg h pv x (b # bs) \<longleftrightarrow>
     hdr h x (x + 12 + fst b) pv (snd b) \<and> 12 \<le> fst b \<and> 4 dvd fst b \<and> seg h x (x + 12 + fst b) bs"

primrec last_off :: "nat \<Rightarrow> nat \<Rightarrow> block list \<Rightarrow> nat" where
  "last_off pv x [] = pv"
| "last_off pv x (b # bs) = last_off x (x + 12 + fst b) bs"

primrec first_free :: "nat \<Rightarrow> block list \<Rightarrow> nat" where
  "first_free x [] = x"
| "first_free x (b # bs) = (if snd b then first_free (x + 12 + fst b) bs else x)"

text \<open>No two free blocks are next to each other.\<close>

fun no_adj :: "block list \<Rightarrow> bool" where
  "no_adj (a # b # bs) \<longleftrightarrow> (snd a \<or> snd b) \<and> no_adj (b # bs)"
| "no_adj _ \<longleftrightarrow> True"

definition heap_list :: "heap_t \<Rightarrow> block list \<Rightarrow> bool" where
  "heap_list h bs \<longleftrightarrow> heap_base h \<and> hdr h 65536 65536 65536 True \<and> seg h 0 0 bs \<and> blen bs = 65536"

definition heap_ok :: "heap_t \<Rightarrow> block list \<Rightarrow> bool" where
  "heap_ok h bs \<longleftrightarrow> heap_list h bs \<and> no_adj bs \<and> lfree h = mem_at h (first_free 0 bs)"

lemma blen_simps [simp]: "blen [] = 0" "blen (b # bs) = 12 + fst b + blen bs" "blen (xs @ ys) = blen xs + blen ys"
  by (simp_all add: blen_def)

lemma seg_append [simp]: "seg h pv x (xs @ ys) \<longleftrightarrow> seg h pv x xs \<and> seg h (last_off pv x xs) (x + blen xs) ys"
  by (induction xs arbitrary: pv x) (simp_all add: add.assoc)

lemma last_off_append [simp]: "last_off pv x (xs @ ys) = last_off (last_off pv x xs) (x + blen xs) ys"
  by (induction xs arbitrary: pv x) (simp_all add: add.assoc)

lemma first_free_append:
  "first_free x (xs @ ys) = (if \<forall>b \<in> set xs. snd b then first_free (x + blen xs) ys else first_free x xs)"
  by (induction xs arbitrary: x) (auto simp: add.assoc)

lemma first_free_le: "x \<le> first_free x bs" "first_free x bs \<le> x + blen bs"
proof (induction bs arbitrary: x)
  case (Cons b bs)
  case 1
  then show ?case using Cons(1) [of "x + 12 + fst b"] by auto
  case 2
  then show ?case using Cons(2) [of "x + 12 + fst b"] by auto
qed simp_all

lemma seg_cong:
  assumes "\<And>y. x \<le> y \<Longrightarrow> y + 12 \<le> x + blen bs \<Longrightarrow> same_hd h' h (mem_at h y)" and "ram h' = ram h"
  shows "seg h' pv x bs = seg h pv x bs"
  using assms
proof (induction bs arbitrary: pv x)
  case (Cons b bs)
  have "same_hd h' h (mem_at h x)" using Cons.prems(1) by simp
  then have "hdr h' x nx pv u = hdr h x nx pv u" for nx u using Cons.prems(2) by (simp add: hdr_def same_hd_def)
  moreover have "seg h' x (x + 12 + fst b) bs = seg h x (x + 12 + fst b) bs" using Cons.prems by (intro Cons.IH) simp_all
  ultimately show ?case by simp
qed simp

lemma hdr_cong: "same_hd h' h (mem_at h x) \<Longrightarrow> ram h' = ram h \<Longrightarrow> hdr h' x nx pv u = hdr h x nx pv u"
  by (simp add: hdr_def same_hd_def)

lemma same_hd_trans: "same_hd h' h p \<Longrightarrow> same_hd h'' h' p \<Longrightarrow> same_hd h'' h p"
  by (simp add: same_hd_def)

lemma same_hd_refl [simp]: "same_hd h h p"
  by (simp add: same_hd_def)

lemma last_off_le: "bs \<noteq> [] \<Longrightarrow> last_off pv x bs + 12 \<le> x + blen bs"
proof (induction bs arbitrary: pv x)
  case (Cons b bs)
  show ?case
  proof (cases "bs = []")
    case False
    from Cons.IH [OF this, of x "x + 12 + fst b"] show ?thesis by simp
  qed simp
qed simp

text \<open>The offset of a block fits 32 bits, so that the offsets in the structures are exact.\<close>

lemma hdr_fields:
  assumes "hdr h x nx pv u"
  shows "mem_next h (mem_at h x) = of_nat nx" "mem_prev h (mem_at h x) = of_nat pv" "mem_used h (mem_at h x) = (if u then 1 else 0)"
  using assms by (simp_all add: hdr_def)

lemma first_free_used:
  "seg h pv x bs \<Longrightarrow> x + blen bs = 65536 \<Longrightarrow> first_free x bs = 65536 \<or> mem_used h (mem_at h (first_free x bs)) = 0"
proof (induction bs arbitrary: pv x)
  case (Cons b bs)
  then show ?case using Cons.IH [of x "x + 12 + fst b"] by (cases "snd b") (auto simp: hdr_fields(3))
qed simp

lemma lfree_simps [simp]:
  "hdr (h\<lparr>lfree := l\<rparr>) x nx pv u = hdr h x nx pv u" "seg (h\<lparr>lfree := l\<rparr>) pv x cs = seg h pv x cs"
  by (simp add: hdr_def) (rule seg_cong, simp_all add: same_hd_def)

lemma heap_list_lfree [simp]: "heap_list (h\<lparr>lfree := l\<rparr>) bs = heap_list h bs"
  by (simp add: heap_list_def)

subsection \<open>Changing the list\<close>

text \<open>The previous offset of the structure at \<open>x\<close>, when this is not the end of the heap.\<close>

lemma seg_set_prev:
  assumes "heap_base h" and "seg h pv x bs" and "x + blen bs = 65536"
  shows "seg (if x = 65536 then h else set_prev (mem_at h x) (of_nat pv') h) pv' x bs"
proof (cases bs)
  case (Cons b cs)
  let ?h = "set_prev (mem_at h x) (of_nat pv') h"
  have x: "x \<noteq> 65536" using Cons assms(3) by simp
  have "same_hd ?h h (mem_at h y)" if "x + 12 + fst b \<le> y" "y + 12 \<le> 65536" for y
    using that by (intro other_struct [OF assms(1)]) (simp_all add: apart_def)
  then have "seg ?h x (x + 12 + fst b) cs = seg h x (x + 12 + fst b) cs" using Cons assms(3) by (intro seg_cong) simp_all
  moreover have "hdr ?h x nx pv' u = hdr h x nx pv u" if "hdr h x nx pv u" for nx u using that by (simp add: hdr_def)
  ultimately show ?thesis using Cons assms(2) x by simp
qed (use assms(3) in simp)

text \<open>\<open>kept\<close>: only the bytes of the structures at the offsets \<open>X\<close> are different.\<close>

definition kept :: "heap_t \<Rightarrow> nat set \<Rightarrow> heap_t \<Rightarrow> bool" where
  "kept h X h' \<longleftrightarrow> ram h' = ram h \<and>
     (\<forall>z \<le> 65547. (\<forall>x \<in> X. z < x \<or> x + 12 \<le> z) \<longrightarrow> hbytes h' (mem_at h z) = hbytes h (mem_at h z))"

lemma kept_trans: "kept h X h1 \<Longrightarrow> kept h1 Y h2 \<Longrightarrow> kept h (X \<union> Y) h2"
  by (auto simp: kept_def)

lemma kept_mono: "kept h X h' \<Longrightarrow> X \<subseteq> Y \<Longrightarrow> kept h Y h'"
  unfolding kept_def by (simp add: subset_iff)

lemma kept_lfree [simp]: "kept h X (h'\<lparr>lfree := l\<rparr>) = kept h X h'"
  by (simp add: kept_def)

lemma kept_refl [simp]: "kept h X h"
  by (simp add: kept_def)

lemma wr_other:
  assumes "x \<le> 65536" "z \<le> 65547" and "z < x \<or> x + 12 \<le> z" and "ram h' = ram h"
  shows "hbytes (set_next (mem_at h x) v h') (mem_at h z) = hbytes h' (mem_at h z)"
    "hbytes (set_prev (mem_at h x) v h') (mem_at h z) = hbytes h' (mem_at h z)"
    "hbytes (set_used (mem_at h x) w h') (mem_at h z) = hbytes h' (mem_at h z)"
proof -
  have "mem_at h z \<noteq> mem_at h x + of_nat k" if "k < 12" for k
  proof
    assume "mem_at h z = mem_at h x + of_nat k"
    then have "(of_nat z :: u32) = of_nat (x + k)" by simp
    then have "z = x + k" using assms that by (subst (asm) of_nat_u32_eq) simp_all
    then show False using assms(3) that by simp
  qed
  from this [of 0] this [of 1] this [of 2] this [of 3] this [of 4] this [of 5] this [of 6] this [of 7] this [of 8]
  show "hbytes (set_next (mem_at h x) v h') (mem_at h z) = hbytes h' (mem_at h z)"
    "hbytes (set_prev (mem_at h x) v h') (mem_at h z) = hbytes h' (mem_at h z)"
    "hbytes (set_used (mem_at h x) w h') (mem_at h z) = hbytes h' (mem_at h z)"
    by (simp_all add: set_next_def set_prev_def set_used_def wr32_def wr8_def add.assoc)
qed

lemma kept_step:
  assumes "kept h X h'" and "x \<in> X" "x \<le> 65536"
  shows "kept h X (set_next (mem_at h x) v h')" "kept h X (set_prev (mem_at h x) v h')" "kept h X (set_used (mem_at h x) w h')"
  using assms wr_other [of x _ h' h] unfolding kept_def by simp_all

text \<open>A sequence of writes to the structures at the offsets \<open>X\<close>.\<close>

definition writes :: "heap_t \<Rightarrow> nat set \<Rightarrow> heap_t \<Rightarrow> bool" where
  "writes h X h' \<longleftrightarrow> ram h' = ram h \<and> ram_end h' = ram_end h \<and> lfree h' = lfree h \<and> kept h X h' \<and>
     (\<forall>y \<le> 65536. (\<forall>x \<in> X. apart x y) \<longrightarrow> same_hd h' h (mem_at h y))"

lemma writes_refl [simp]: "writes h X h"
  by (simp add: writes_def)

lemma writes_step:
  assumes "writes h X h'" and "heap_base h" and "x \<in> X" "x \<le> 65536"
  shows "writes h X (set_next (mem_at h x) v h')" "writes h X (set_prev (mem_at h x) v h')" "writes h X (set_used (mem_at h x) w h')"
  using assms other_struct [OF assms(2) _ assms(4), of _ h'] kept_step [OF _ assms(3,4), of h h'] same_hd_trans
  unfolding writes_def by (simp_all, blast+)

lemma writes_mono: "writes h X h' \<Longrightarrow> X \<subseteq> Y \<Longrightarrow> writes h Y h'"
  unfolding writes_def kept_def by (simp add: subset_iff)

lemma writes_seg:
  assumes "writes h X h'" and "x + blen bs \<le> 65548" and "\<And>y z. y \<in> X \<Longrightarrow> x \<le> z \<Longrightarrow> z + 12 \<le> x + blen bs \<Longrightarrow> apart y z"
  shows "seg h' pv x bs = seg h pv x bs"
  using assms by (intro seg_cong) (auto simp: writes_def)

lemma writes_hdr:
  assumes "writes h X h'" and "x \<le> 65536" and "\<And>y. y \<in> X \<Longrightarrow> apart y x"
  shows "hdr h' x nx pv u = hdr h x nx pv u"
  using assms by (intro hdr_cong) (auto simp: writes_def)

lemma writes_base: "writes h X h' \<Longrightarrow> heap_base h' = heap_base h"
  by (simp add: writes_def heap_base_def)

text \<open>A new free block of size \<open>j\<close> behind the block at \<open>blen xs\<close>, which gets the size \<open>k\<close>.\<close>

lemma link_free:
  assumes base: "heap_base h" and xs: "seg h 0 0 xs" and ys: "seg h pvy y ys" "y + blen ys = 65536"
    and m: "mem_prev h (mem_at h x) = of_nat (last_off 0 0 xs)" "mem_used h (mem_at h x) = (if u then 1 else 0)"
    and e: "hdr h 65536 65536 65536 True"
    and x: "x = blen xs" "y = x + 24 + k + j" and k: "12 \<le> k" "4 dvd k" "12 \<le> j" "4 dvd j"
  defines "h' \<equiv> mem_link_free (mem_at h x) (of_nat x) (of_nat (x + 12 + k)) (of_nat y) h"
  shows "heap_list h' (xs @ (k, u) # (j, False) # ys)" "writes h {x, x + 12 + k, y} h'"
proof -
  let ?z = "x + 12 + k"
  define h1 where "h1 = set_next (mem_at h x) (of_nat ?z) (set_prev (mem_at h ?z) (of_nat x)
    (set_next (mem_at h ?z) (of_nat y) (set_used (mem_at h ?z) 0 h)))"
  have le: "y \<le> 65536" "x \<le> 65536" "?z \<le> 65536" using ys(2) x(2) by simp_all
  have w1: "writes h {x, ?z} h1" unfolding h1_def using le
    by (intro writes_step(1) [where h = h] writes_step(2) [where h = h] writes_step(3) [where h = h] writes_refl base) simp_all
  have z1: "hdr h1 ?z y x False"
  proof -
    have "same_hd h1 (set_prev (mem_at h ?z) (of_nat x) (set_next (mem_at h ?z) (of_nat y) (set_used (mem_at h ?z) 0 h))) (mem_at h ?z)"
      unfolding h1_def using le k by (intro other_struct [OF base]) (simp_all add: apart_def)
    then show ?thesis using w1 by (simp add: hdr_def same_hd_def writes_def)
  qed
  have x1: "hdr h1 x ?z (last_off 0 0 xs) u"
  proof -
    have a: "apart ?z x" using k by (simp add: apart_def)
    have "writes h {?z} (set_prev (mem_at h ?z) (of_nat x) (set_next (mem_at h ?z) (of_nat y) (set_used (mem_at h ?z) 0 h)))"
      using le by (intro writes_step(1) [where h = h] writes_step(2) [where h = h] writes_step(3) [where h = h] writes_refl base) simp_all
    then have "same_hd (set_prev (mem_at h ?z) (of_nat x) (set_next (mem_at h ?z) (of_nat y) (set_used (mem_at h ?z) 0 h))) h (mem_at h x)"
      using le a by (auto simp: writes_def)
    then show ?thesis using m w1 by (simp add: hdr_def same_hd_def writes_def h1_def)
  qed
  have h': "h' = (if y = 65536 then h1 else set_prev (mem_at h y) (of_nat ?z) h1)"
  proof -
    have "mem_next h1 (mem_at h ?z) = of_nat y" using z1 w1 by (simp add: hdr_def writes_def)
    moreover have "(of_nat y = MEM_SIZE_ALIGNED) = (y = 65536)"
      using le(1) of_nat_u32_eq [of y 65536] by (simp add: MEM_SIZE_ALIGNED_def)
    moreover have "h' = (if mem_next h1 (mem_at h ?z) \<noteq> MEM_SIZE_ALIGNED
        then set_prev (mem_at h1 0 + mem_next h1 (mem_at h ?z)) (of_nat ?z) h1 else h1)"
      unfolding h'_def mem_link_free_def ptr_to_mem_def Let_def h1_def by simp
    ultimately show ?thesis using w1 by (simp add: writes_def)
  qed
  have w2: "writes h {x, ?z, y} h1" using w1 by (rule writes_mono) auto
  then show w: "writes h {x, ?z, y} h'" unfolding h' using le base by (auto intro: writes_step)
  have r1: "ram h1 = ram h" "heap_base h1" using w1 base writes_base [OF w1] by (simp_all add: writes_def)
  have "seg h1 pvy y ys" using ys x k by (subst writes_seg [OF w1]) (auto simp: apart_def)
  from seg_set_prev [OF r1(2) this ys(2), of ?z] have y': "seg h' ?z y ys" unfolding h' r1(1) .
  have w3: "writes h1 {y} h'" unfolding h' using le r1 by (auto intro!: writes_step(2) [where h = h1, simplified r1(1)])
  have "hdr h' ?z y x False" "hdr h' x ?z (last_off 0 0 xs) u"
    using writes_hdr [OF w3, of ?z] writes_hdr [OF w3, of x] z1 x1 le x k by (simp_all add: apart_def)
  moreover have "seg h' 0 0 xs" using xs x le by (subst writes_seg [OF w]) (auto simp: apart_def)
  moreover have "hdr h' 65536 65536 65536 True"
  proof (cases "y = 65536")
    case True
    then show ?thesis using e x k unfolding h' by (simp, subst writes_hdr [OF w1]) (auto simp: apart_def)
  next
    case False
    then have "y + 12 \<le> 65536" using ys(2) by (cases ys) auto
    then show ?thesis using e x k by (subst writes_hdr [OF w]) (auto simp: apart_def)
  qed
  ultimately show "heap_list h' (xs @ (k, u) # (j, False) # ys)"
    using base writes_base [OF w] y' x ys(2) k by (auto simp: heap_list_def add_ac)
qed

text \<open>Two neighbouring blocks become one.\<close>

lemma join_blocks:
  assumes hl: "heap_list h (xs @ (n, u) # (m, v) # ys)"
  defines "x \<equiv> blen xs" and "y \<equiv> blen xs + 24 + n + m"
  defines "h1 \<equiv> set_next (mem_at h x) (of_nat y) h"
  defines "h' \<equiv> if y = 65536 then h1 else set_prev (mem_at h y) (of_nat x) h1"
  shows "heap_list h' (xs @ (n + 12 + m, u) # ys)" "writes h {x, y} h'"
proof -
  have base: "heap_base h" and e: "hdr h 65536 65536 65536 True" and xs: "seg h 0 0 xs"
    and hx: "hdr h x (x + 12 + n) (last_off 0 0 xs) u" and ys: "seg h (x + 12 + n) y ys" "y + blen ys = 65536"
    and n: "12 \<le> n" "4 dvd n" "12 \<le> m" "4 dvd m"
    using hl by (simp_all add: heap_list_def x_def y_def add_ac)
  have le: "x \<le> 65536" "y \<le> 65536" "x + 12 \<le> y" using ys(2) by (simp_all add: x_def y_def)
  have w1: "writes h {x} h1" unfolding h1_def using le by (intro writes_step(1) [where h = h] writes_refl base) simp_all
  have r1: "ram h1 = ram h" "heap_base h1" using w1 base writes_base [OF w1] by (simp_all add: writes_def)
  have "writes h {x, y} h1" using w1 by (rule writes_mono) auto
  then show w: "writes h {x, y} h'" unfolding h'_def using le base by (auto intro: writes_step)
  have w3: "writes h1 {y} h'" unfolding h'_def using le r1 by (auto intro!: writes_step(2) [where h = h1, simplified r1(1)])
  have "hdr h1 x y (last_off 0 0 xs) u" using hx by (simp add: hdr_def h1_def)
  then have "hdr h' x y (last_off 0 0 xs) u" using writes_hdr [OF w3, of x] le by (simp add: apart_def)
  moreover have "seg h1 (x + 12 + n) y ys" using ys le by (subst writes_seg [OF w1]) (auto simp: apart_def)
  from seg_set_prev [OF r1(2) this ys(2), of x] have "seg h' x y ys" unfolding h'_def r1(1) .
  moreover have "seg h' 0 0 xs" using xs le by (subst writes_seg [OF w]) (auto simp: apart_def x_def)
  moreover have "hdr h' 65536 65536 65536 True"
  proof (cases "y = 65536")
    case True
    then show ?thesis using e le unfolding h'_def by (simp, subst writes_hdr [OF w1]) (auto simp: apart_def)
  next
    case False
    then have "y + 12 \<le> 65536" using ys(2) by (cases ys) auto
    then show ?thesis using e le by (subst writes_hdr [OF w]) (auto simp: apart_def)
  qed
  ultimately show "heap_list h' (xs @ (n + 12 + m, u) # ys)"
    using base writes_base [OF w] ys(2) n by (simp add: heap_list_def x_def y_def add_ac)
qed

text \<open>A block becomes used or free.\<close>

lemma use_block:
  fixes v :: bool
  assumes hl: "heap_list h (xs @ (n, u) # ys)"
  defines "x \<equiv> blen xs"
  defines "h' \<equiv> set_used (mem_at h x) (if v then 1 else 0) h"
  shows "heap_list h' (xs @ (n, v) # ys)" "writes h {x} h'"
proof -
  have base: "heap_base h" and e: "hdr h 65536 65536 65536 True" and xs: "seg h 0 0 xs"
    and hx: "hdr h x (x + 12 + n) (last_off 0 0 xs) u" and ys: "seg h x (x + 12 + n) ys" "x + 12 + n + blen ys = 65536"
    using hl by (simp_all add: heap_list_def x_def add_ac)
  show w: "writes h {x} h'" unfolding h'_def using ys(2) by (intro writes_step(3) [where h = h] writes_refl base) simp_all
  have "hdr h' x (x + 12 + n) (last_off 0 0 xs) v" using hx by (simp add: hdr_def h'_def)
  moreover have "seg h' x (x + 12 + n) ys" using ys by (subst writes_seg [OF w]) (auto simp: apart_def)
  moreover have "seg h' 0 0 xs" using xs ys(2) by (subst writes_seg [OF w]) (auto simp: apart_def x_def)
  moreover have "hdr h' 65536 65536 65536 True" using e ys(2) by (subst writes_hdr [OF w]) (auto simp: apart_def)
  ultimately show "heap_list h' (xs @ (n, v) # ys)" using hl base writes_base [OF w] by (simp add: heap_list_def x_def add_ac)
qed

subsection \<open>Allocation\<close>

text \<open>First fit on the list.\<close>

primrec find_fit :: "nat \<Rightarrow> nat \<Rightarrow> block list \<Rightarrow> nat option" where
  "find_fit n x [] = None"
| "find_fit n x (b # bs) = (if \<not> snd b \<and> n \<le> fst b then Some x else find_fit n (x + 12 + fst b) bs)"

definition split_block :: "nat \<Rightarrow> nat \<Rightarrow> block list" where
  "split_block n m = (if n + 24 \<le> m then [(n, True), (m - n - 12, False)] else [(m, True)])"

lemma find_fit_bound: "find_fit n x bs = Some y \<Longrightarrow> y + 12 + n \<le> x + blen bs \<and> x \<le> y"
  by (induction bs arbitrary: x) (fastforce split: if_splits)+

lemma find_fit_Some:
  "find_fit n x bs = Some y \<Longrightarrow> \<exists>xs m ys. bs = xs @ (m, False) # ys \<and> y = x + blen xs \<and> n \<le> m \<and> (\<forall>b \<in> set xs. snd b \<or> fst b < n)"
proof (induction bs arbitrary: x)
  case (Cons b bs)
  show ?case
  proof (cases "\<not> snd b \<and> n \<le> fst b")
    case True
    then show ?thesis using Cons.prems by (intro exI [of _ "[]"] exI [of _ "fst b"] exI [of _ bs]) (cases b, auto)
  next
    case False
    then obtain xs m ys where "bs = xs @ (m, False) # ys" "y = x + 12 + fst b + blen xs" "n \<le> m" "\<forall>b \<in> set xs. snd b \<or> fst b < n"
      using Cons.IH [of "x + 12 + fst b"] Cons.prems by auto
    then show ?thesis using False by (intro exI [of _ "b # xs"] exI [of _ m] exI [of _ ys]) auto
  qed
qed simp

lemma find_fit_None: "find_fit n x bs = None \<longleftrightarrow> (\<forall>b \<in> set bs. snd b \<or> fst b < n)"
  by (induction bs arbitrary: x) auto

lemma find_fit_skip: "find_fit n x bs = find_fit n (first_free x bs) (dropWhile snd bs)"
  by (induction bs arbitrary: x) auto

lemma first_free_blen: "first_free x bs = x + blen (takeWhile snd bs)"
  by (induction bs arbitrary: x) auto

lemma u32_le_iff: "i < 2 ^ 32 \<Longrightarrow> j < 2 ^ 32 \<Longrightarrow> (of_nat i \<le> (of_nat j :: u32)) = (i \<le> j)"
  by (simp add: word_le_nat_alt unat_of_nat)

lemma u32_less_iff: "i < 2 ^ 32 \<Longrightarrow> j < 2 ^ 32 \<Longrightarrow> (of_nat i < (of_nat j :: u32)) = (i < j)"
  by (simp add: word_less_nat_alt unat_of_nat)

lemma MEM_SIZE_nat: "MEM_SIZE_ALIGNED = of_nat 65536"
  by (simp add: MEM_SIZE_ALIGNED_def)

lemma mem_scan_seg:
  assumes "n \<le> 65536"
  shows "seg h pv x bs \<Longrightarrow> x + blen bs = 65536 \<Longrightarrow> mem_scan h (of_nat n) (of_nat x) = Some (map_option of_nat (find_fit n x bs))"
proof (induction bs arbitrary: pv x)
  case Nil
  have "\<not> (of_nat x :: u32) < of_nat (65536 - n)" using Nil assms by (subst u32_less_iff) simp_all
  then show ?case using assms by (subst mem_scan.simps) (simp add: MEM_SIZE_nat of_nat_diff)
next
  case (Cons b bs)
  let ?y = "x + 12 + fst b"
  have h: "hdr h x ?y pv (snd b)" and sg: "seg h x ?y bs" "?y + blen bs = 65536" using Cons.prems by simp_all
  have guard: "((of_nat x :: u32) < MEM_SIZE_ALIGNED - of_nat n) = (x < 65536 - n)"
    using u32_less_iff [of x "65536 - n"] assms sg(2) by (simp add: MEM_SIZE_nat of_nat_diff)
  have "(of_nat ?y :: u32) - (of_nat x + SIZEOF_STRUCT_MEM) = of_nat (fst b)" by (simp add: SIZEOF_STRUCT_MEM_def)
  then have fits: "(of_nat n \<le> mem_next h (mem_at h x) - (of_nat x + SIZEOF_STRUCT_MEM)) = (n \<le> fst b)"
    using hdr_fields(1) [OF h] u32_le_iff [of n "fst b"] assms sg(2) by simp
  have ih: "mem_scan h (of_nat n) (of_nat ?y) = Some (map_option of_nat (find_fit n ?y bs))" using Cons.IH [OF sg] .
  show ?case
  proof (cases "x < 65536 - n")
    case True
    then show ?thesis using guard fits ih hdr_fields [OF h]
      by (subst mem_scan.simps) (simp add: ptr_to_mem_def del: of_nat_add)
  next
    case False
    have "find_fit n x (b # bs) = None"
    proof (rule ccontr)
      assume "find_fit n x (b # bs) \<noteq> None"
      then obtain y where "find_fit n x (b # bs) = Some y" by blast
      from find_fit_bound [OF this] show False using False Cons.prems(2) assms by linarith
    qed
    then show ?thesis using False guard by (subst mem_scan.simps) simp
  qed
qed

lemma mem_next_free_seg:
  assumes "heap_base h"
  shows "seg h pv x bs \<Longrightarrow> x + blen bs = 65536 \<Longrightarrow> mem_next_free h (mem_at h x) = Some (mem_at h (first_free x bs))"
proof (induction bs arbitrary: pv x)
  case Nil
  then show ?case using assms by (subst mem_next_free.simps) (simp add: heap_base_def)
next
  case (Cons b bs)
  let ?y = "x + 12 + fst b"
  have h: "hdr h x ?y pv (snd b)" and sg: "seg h x ?y bs" "?y + blen bs = 65536" using Cons.prems by simp_all
  have "mem_at h x \<noteq> ram_end h" using assms sg(2) mem_at_inject [of x 65536 h] by (simp add: heap_base_def)
  then show ?case using hdr_fields [OF h] Cons.IH [OF sg]
    by (subst mem_next_free.simps) (simp add: ptr_to_mem_def del: of_nat_add)
qed

lemma mem_take_blocks:
  assumes hl: "heap_list h (xs @ (m, False) # ys)" and n: "12 \<le> n" "4 dvd n" "n \<le> m"
  shows "\<exists>h'. mem_take (of_nat (blen xs)) (of_nat n) h = Some h' \<and> heap_list h' (xs @ split_block n m @ ys) \<and>
    ram h' = ram h \<and> lfree h' = lfree h \<and> kept h {blen xs, blen xs + 12 + n, blen xs + 12 + m} h'"
proof -
  let ?x = "blen xs"
  let ?y = "?x + 12 + m"
  have base: "heap_base h" and e: "hdr h 65536 65536 65536 True" and xs: "seg h 0 0 xs"
    and hx: "hdr h ?x ?y (last_off 0 0 xs) False" and ys: "seg h ?x ?y ys" "?y + blen ys = 65536" and m: "4 dvd m"
    using hl by (simp_all add: heap_list_def add_ac)
  have "(of_nat ?y :: u32) - (of_nat ?x + SIZEOF_STRUCT_MEM) = of_nat m" by (simp add: SIZEOF_STRUCT_MEM_def)
  moreover have "of_nat n + SIZEOF_STRUCT_MEM + MIN_SIZE_ALIGNED = (of_nat (n + 24) :: u32)" by (simp add: mem_const_defs)
  moreover have "((of_nat (n + 24) :: u32) \<le> of_nat m) = (n + 24 \<le> m)" using ys(2) n by (intro u32_le_iff) simp_all
  ultimately have big: "(of_nat n + SIZEOF_STRUCT_MEM + MIN_SIZE_ALIGNED \<le> mem_next h (mem_at h ?x) - (of_nat ?x + SIZEOF_STRUCT_MEM)) =
      (n + 24 \<le> m)" using hdr_fields(1) [OF hx] by metis
  show ?thesis
  proof (cases "n + 24 \<le> m")
    case False
    then show ?thesis using big use_block(1) [OF hl, of True] writes_mono [OF use_block(2) [OF hl, of True], of "{?x, ?x + 12 + n, ?y}"]
      by (simp add: mem_take_def ptr_to_mem_def split_block_def writes_def)
  next
    case True
    let ?h = "mem_link_free (mem_at h ?x) (of_nat ?x) (of_nat (?x + 12 + n)) (of_nat ?y) h"
    have j: "12 \<le> m - n - 12" "4 dvd m - n - 12" "?y = ?x + 24 + n + (m - n - 12)"
      using True m n by (simp_all add: dvd_diff_nat)
    have lf: "heap_list ?h (xs @ (n, False) # (m - n - 12, False) # ys)" "writes h {?x, ?x + 12 + n, ?y} ?h"
      using link_free [OF base xs ys hdr_fields(2,3) [OF hx] e refl j(3) n(1,2) j(1,2)] by simp_all
    have ne: "of_nat ?x + SIZEOF_STRUCT_MEM + of_nat n = (of_nat (?x + 12 + n) :: u32)" by (simp add: SIZEOF_STRUCT_MEM_def)
    have "(of_nat (?x + 12 + n) :: u32) \<noteq> MEM_SIZE_ALIGNED"
      using ys(2) True of_nat_u32_eq [of "?x + 12 + n" 65536] unfolding MEM_SIZE_nat by simp
    then have "mem_take (of_nat ?x) (of_nat n) h = Some (set_used (mem_at ?h ?x) 1 ?h)"
      using True big lf(2) hdr_fields(1) [OF hx] ne by (simp add: mem_take_def ptr_to_mem_def Let_def writes_def del: of_nat_add)
    moreover have "kept h {?x, ?x + 12 + n, ?y} (set_used (mem_at ?h ?x) 1 ?h)"
      using lf(2) ys(2) kept_step(3) [of h _ ?h ?x 1] by (simp add: writes_def)
    ultimately show ?thesis using use_block [OF lf(1), of True] lf(2) True by (simp add: split_block_def writes_def)
  qed
qed

text \<open>The bytes of the blocks in use are not changed.\<close>

definition data_kept :: "heap_t \<Rightarrow> block list \<Rightarrow> heap_t \<Rightarrow> bool" where
  "data_kept h bs h' \<longleftrightarrow> (\<forall>xs n ys i. bs = xs @ (n, True) # ys \<longrightarrow> i < n \<longrightarrow>
     hbytes h' (mem_at h (blen xs + 12 + i)) = hbytes h (mem_at h (blen xs + 12 + i)))"

lemma header_payload:
  assumes "us @ b # vs = xs @ c # ys" and "i < fst c"
  shows "blen xs + 12 + i < blen us \<or> blen us + 12 \<le> blen xs + 12 + i"
  using assms by (auto simp: append_eq_append_conv2 append_eq_Cons_conv Cons_eq_append_conv)

lemma kept_data:
  assumes "kept h X h'" and "blen (as @ bs @ cs) = 65536" and "\<forall>b \<in> set bs. \<not> snd b"
    and "\<forall>x \<in> X. (blen as \<le> x \<and> x \<le> blen as + blen bs) \<or> (\<exists>us b vs. as = us @ b # vs \<and> x = blen us)"
  shows "data_kept h (as @ bs @ cs) h'"
  unfolding data_kept_def
proof (intro allI impI)
  fix xs n ys i assume eq: "as @ bs @ cs = xs @ (n, True) # ys" and i: "i < n"
  let ?z = "blen xs + 12 + i"
  have "(n, True) \<notin> set bs" using assms(3) by auto
  then have z: "?z < blen as \<or> blen as + blen bs + 12 \<le> ?z"
    using eq i by (auto simp: append_eq_append_conv2 append_eq_Cons_conv Cons_eq_append_conv)
  have "blen (xs @ (n, True) # ys) = 65536" using assms(2) unfolding eq .
  then have "?z \<le> 65547" using i by simp
  moreover have "?z < x \<or> x + 12 \<le> ?z" if x: "x \<in> X" for x
  proof (cases "blen as \<le> x \<and> x \<le> blen as + blen bs")
    case False
    then obtain us b vs where "as = us @ b # vs" "x = blen us" using assms(4) x by blast
    then show ?thesis using header_payload [of us b "vs @ bs @ cs" xs "(n, True)" ys i] eq i by simp
  qed (use z in auto)
  ultimately show "hbytes h' (mem_at h ?z) = hbytes h (mem_at h ?z)" using assms(1) unfolding kept_def by blast
qed

lemma of_nat_unat_u32: "of_nat (unat (a :: u32)) = a"
  by simp

text \<open>The size of a block for a request: a multiple of 4, at least 12. Requests that are larger than the heap are refused, also when
  the aligned size wraps around.\<close>

definition request_size :: "nat \<Rightarrow> nat" where
  "request_size n = max 12 ((n + 3) div 4 * 4)"

lemma request_size: "12 \<le> request_size n" "4 dvd request_size n" "n \<le> request_size n"
proof -
  have "n \<le> (n + 3) div 4 * 4" by presburger
  then show "n \<le> request_size n" by (simp add: request_size_def)
qed (simp_all add: request_size_def max_def)

lemma block_size_unat:
  assumes "unat n \<le> 65536"
  shows "unat (block_size n) = request_size (unat n)" "block_size n = of_nat (request_size (unat n))"
    "request_size (unat n) \<le> 65536"
proof -
  have "unat (n + 3) = unat n + 3" using assms by (simp add: unat_word_ariths)
  then have a: "unat (LWIP_MEM_ALIGN_SIZE n) = (unat n + 3) div 4 * 4" unfolding LWIP_MEM_ALIGN_SIZE_def unat_and_not_3 by simp
  then show "unat (block_size n) = request_size (unat n)"
    by (simp add: block_size_def request_size_def MIN_SIZE_ALIGNED_def word_less_nat_alt max_def)
  then show "block_size n = of_nat (request_size (unat n))" by (metis of_nat_unat_u32)
  show "request_size (unat n) \<le> 65536" using assms by (simp add: request_size_def)
qed

lemma block_size_fits:
  assumes "request_size (unat n) \<le> 65536"
  shows "block_size n = of_nat (request_size (unat n))" "\<not> (block_size n > MEM_SIZE_ALIGNED \<or> block_size n < n)"
  using assms block_size_unat [of n] request_size(3) [of "unat n"] by (simp_all add: word_less_nat_alt MEM_SIZE_ALIGNED_def)

lemma block_size_big:
  assumes "65536 < unat n"
  shows "block_size n > MEM_SIZE_ALIGNED \<or> block_size n < n"
proof (cases "unat n + 3 < 2 ^ 32")
  case True
  then have "unat (n + 3) = unat n + 3" by (simp add: unat_word_ariths)
  then have "unat (LWIP_MEM_ALIGN_SIZE n) = (unat n + 3) div 4 * 4" unfolding LWIP_MEM_ALIGN_SIZE_def unat_and_not_3 by simp
  then have "65536 < unat (LWIP_MEM_ALIGN_SIZE n)" using assms by simp
  then show ?thesis by (simp add: block_size_def mem_const_defs word_less_nat_alt)
next
  case False
  define k where "k = unat n + 3 - 4294967296"
  have "4294967296 \<le> unat n + 3" "unat n < 4294967296" using False by simp_all
  then have k: "unat n + 3 = k + 4294967296" "k < 3" unfolding k_def by linarith+
  then have "unat (n + 3) = k" by (simp add: unat_word_ariths)
  then have "unat (LWIP_MEM_ALIGN_SIZE n) = 0" using k(2) unfolding LWIP_MEM_ALIGN_SIZE_def unat_and_not_3 by simp
  then have "unat (block_size n) = 12" by (simp add: block_size_def mem_const_defs word_less_nat_alt)
  then show ?thesis using assms by (simp add: word_less_nat_alt)
qed

lemma no_adj_Cons: "no_adj (a # bs) \<longleftrightarrow> no_adj bs \<and> (bs = [] \<or> snd a \<or> snd (hd bs))"
  by (cases bs) auto

lemma no_adj_append:
  "no_adj (xs @ ys) \<longleftrightarrow> no_adj xs \<and> no_adj ys \<and> (xs = [] \<or> ys = [] \<or> snd (last xs) \<or> snd (hd ys))"
  by (induction xs) (auto simp: no_adj_Cons hd_append)

lemma no_adj_split:
  assumes "no_adj (xs @ (m, False) # ys)"
  shows "no_adj (xs @ split_block n m @ ys)"
  using assms by (cases ys) (auto simp: no_adj_append split_block_def)

lemma seg_dvd: "seg h pv x bs \<Longrightarrow> 4 dvd blen bs"
  by (induction bs arbitrary: pv x) auto

lemma first_free_less: "\<not> (\<forall>b \<in> set bs. snd b) \<Longrightarrow> first_free x bs < x + blen bs"
proof (induction bs arbitrary: x)
  case (Cons b bs)
  then show ?case
  proof (cases "snd b")
    case True
    then have "first_free (x + 12 + fst b) bs < x + 12 + fst b + blen bs" using Cons by (intro Cons.IH) simp
    then show ?thesis using True by (simp add: add_ac)
  qed simp
qed simp

lemma mem_at_aligned:
  assumes "heap_base h" and "4 dvd x"
  shows "4 dvd mem_at h x" "mem_at h x AND 3 = 0"
proof -
  show d: "4 dvd mem_at h x" using assms by (auto simp: heap_base_def elim!: dvdE intro!: dvd_add)
  then have "unat (mem_at h x AND 3) = 0" using unat_and_mask [of "mem_at h x" 2] by (simp add: dvd_4_u32 mask_eq_exp_minus_1)
  then show "mem_at h x AND 3 = 0" by (simp add: unat_eq_0)
qed

lemma unat_mem_at: "heap_base h \<Longrightarrow> x \<le> 65547 \<Longrightarrow> unat (mem_at h x) = unat (ram h) + x"
  by (simp add: heap_base_def unat_word_ariths unat_of_nat)

lemma mem_malloc_blocks:
  assumes ok: "heap_ok h bs" and n: "size_in \<noteq> 0" "unat size_in \<le> 65536"
  shows "case find_fit (request_size (unat size_in)) 0 bs of
      None \<Rightarrow> mem_malloc size_in h = Some (NULL, h)
    | Some x \<Rightarrow> \<exists>h' xs m ys. mem_malloc size_in h = Some (mem_at h (x + 12), h') \<and> bs = xs @ (m, False) # ys \<and> x = blen xs \<and>
        (\<forall>b \<in> set xs. snd b \<or> fst b < request_size (unat size_in)) \<and> request_size (unat size_in) \<le> m \<and> heap_ok h' (xs @ split_block (request_size (unat size_in)) m @ ys) \<and> ram h' = ram h \<and>
        data_kept h bs h'"
proof -
  let ?n = "request_size (unat size_in)"
  have hl: "heap_list h bs" and base: "heap_base h" and lf: "lfree h = mem_at h (first_free 0 bs)" and na: "no_adj bs"
    using ok by (simp_all add: heap_ok_def heap_list_def)
  have sz: "block_size size_in = of_nat ?n" "?n \<le> 65536" "\<not> block_size size_in > MEM_SIZE_ALIGNED" "\<not> block_size size_in < size_in"
    using block_size_unat [OF n(2)] request_size(3) [of "unat size_in"] by (simp_all add: word_less_nat_alt MEM_SIZE_ALIGNED_def)
  let ?as = "takeWhile snd bs" and ?cs = "dropWhile snd bs"
  have "seg h (last_off 0 0 ?as) (blen ?as) ?cs" "blen ?as + blen ?cs = 65536"
    using hl seg_append [of h 0 0 ?as ?cs] blen_simps(3) [of ?as ?cs] by (simp_all add: heap_list_def)
  from mem_scan_seg [OF sz(2) this] have scan: "mem_scan h (of_nat ?n) (mem_to_ptr h (lfree h)) = Some (map_option of_nat (find_fit ?n 0 bs))"
    using find_fit_skip [of ?n 0 bs] by (simp add: mem_to_ptr_def lf first_free_blen)
  show ?thesis
  proof (cases "find_fit ?n 0 bs")
    case None
    then show ?thesis using n(1) sz scan by (simp add: mem_malloc_def)
  next
    case (Some x)
    then obtain xs m ys where bs: "bs = xs @ (m, False) # ys" "x = blen xs" "?n \<le> m" "\<forall>b \<in> set xs. snd b \<or> fst b < ?n"
      using find_fit_Some by fastforce
    from mem_take_blocks [OF hl [unfolded bs(1)] request_size(1,2) bs(3)] obtain h1 where h1:
        "mem_take (of_nat x) (of_nat ?n) h = Some h1" "heap_list h1 (xs @ split_block ?n m @ ys)" "ram h1 = ram h" "lfree h1 = lfree h"
        "kept h {x, x + 12 + ?n, x + 12 + m} h1"
      unfolding bs(2) by blast
    have b1: "heap_base h1" and sg: "seg h1 (last_off 0 0 xs) x (split_block ?n m @ ys)" "x + blen (split_block ?n m @ ys) = 65536"
      using h1(2) bs(2) by (auto simp: heap_list_def)
    have x: "x + 12 + ?n \<le> 65536" "4 dvd x" using hl bs(1-3) seg_dvd [of h 0 0 xs] by (auto simp: heap_list_def)
    have eq: "mem_at h1 x = lfree h1 \<longleftrightarrow> (\<forall>b \<in> set xs. snd b)"
    proof -
      have "first_free 0 bs = x \<longleftrightarrow> (\<forall>b \<in> set xs. snd b)"
        using first_free_less [of xs 0] unfolding bs(1,2) first_free_append by (cases "\<forall>b \<in> set xs. snd b") auto
      moreover have "first_free 0 bs \<le> 65536" using first_free_le(2) [of 0 bs] hl by (simp add: heap_list_def)
      ultimately show ?thesis using h1(3,4) lf x(1) mem_at_inject [of x "first_free 0 bs" h] by auto
    qed
    have used: "\<forall>b \<in> set xs. snd b \<Longrightarrow> first_free 0 (xs @ split_block ?n m @ ys) = first_free x (split_block ?n m @ ys)"
      "\<not> (\<forall>b \<in> set xs. snd b) \<Longrightarrow> first_free 0 (xs @ split_block ?n m @ ys) = first_free 0 bs"
      unfolding bs(1,2) first_free_append [of 0] by auto
    let ?l = "mem_at h1 (first_free 0 (xs @ split_block ?n m @ ys))"
    have nf: "mem_next_free h1 (mem_at h1 x) = Some (mem_at h1 (first_free x (split_block ?n m @ ys)))"
      using mem_next_free_seg [OF b1 sg] .
    have fr: "(if mem_at h1 x = lfree h1 then (case mem_next_free h1 (lfree h1) of None \<Rightarrow> None
          | Some cur \<Rightarrow> if cur = ram_end h1 \<or> mem_used h1 cur = 0 then Some cur else None) else Some (lfree h1)) = Some ?l"
    proof (cases "\<forall>b \<in> set xs. snd b")
      case True
      have "first_free x (split_block ?n m @ ys) = 65536 \<or> mem_used h1 (mem_at h1 (first_free x (split_block ?n m @ ys))) = 0"
        using first_free_used [OF sg] .
      then have "?l = ram_end h1 \<or> mem_used h1 ?l = 0" using b1 used(1) [OF True] by (auto simp: heap_base_def)
      then show ?thesis using True eq nf used(1) by auto
    next
      case False
      then show ?thesis using eq h1(3,4) lf used(2) by auto
    qed
    have eqs: "mem_at h1 x + SIZEOF_STRUCT_MEM + of_nat ?n = mem_at h1 (x + 12 + ?n)" "mem_at h1 x + SIZEOF_STRUCT_MEM = mem_at h1 (x + 12)"
      by (simp_all add: SIZEOF_STRUCT_MEM_def)
    have "mem_at h1 x + SIZEOF_STRUCT_MEM + of_nat ?n \<le> ram_end h1"
      using x(1) unat_mem_at [OF b1, of "x + 12 + ?n"] unat_mem_at [OF b1, of 65536] b1 unfolding eqs(1)
      by (simp add: word_le_nat_alt heap_base_def del: of_nat_add of_nat_numeral)
    moreover have "(mem_at h1 x + SIZEOF_STRUCT_MEM) mod 4 = 0"
      unfolding eqs(2) using mem_at_aligned(1) [OF b1, of "x + 12"] x(2) unfolding unat_eq_0 [symmetric] unat_mod
      by (simp add: dvd_4_u32 del: of_nat_add)
    moreover have "mem_at h1 x AND 3 = 0" using mem_at_aligned(2) [OF b1 x(2)] .
    ultimately have "mem_malloc size_in h = Some (mem_at h1 (x + 12), h1\<lparr>lfree := ?l\<rparr>)"
      using n(1) sz scan Some h1 fr unfolding mem_malloc_def ptr_to_mem_def Let_def eqs(2) [symmetric] by simp
    moreover have "heap_ok (h1\<lparr>lfree := ?l\<rparr>) (xs @ split_block ?n m @ ys)"
      using h1(2) no_adj_split [OF na [unfolded bs(1)]] by (simp add: heap_ok_def heap_list_lfree)
    moreover have "data_kept h bs (h1\<lparr>lfree := ?l\<rparr>)"
      using kept_data [of h "{x, x + 12 + ?n, x + 12 + m}" "h1\<lparr>lfree := ?l\<rparr>" xs "[(m, False)]" ys] h1(5) hl bs(1-3) by (simp add: heap_list_def)
    ultimately have "mem_malloc size_in h = Some (mem_at h1 (x + 12), h1\<lparr>lfree := ?l\<rparr>) \<and> bs = xs @ (m, False) # ys \<and> x = blen xs \<and>
        (\<forall>b \<in> set xs. snd b \<or> fst b < ?n) \<and> ?n \<le> m \<and> heap_ok (h1\<lparr>lfree := ?l\<rparr>) (xs @ split_block ?n m @ ys) \<and> data_kept h bs (h1\<lparr>lfree := ?l\<rparr>)"
      using bs by blast
    then show ?thesis using Some h1(3) by auto
  qed
qed

subsection \<open>Release\<close>

text \<open>A block that is released is joined with a free block behind it and with a free block before it.\<close>

fun join_next :: "nat \<Rightarrow> block list \<Rightarrow> block list" where
  "join_next n ((m, False) # ys) = (n + 12 + m, False) # ys"
| "join_next n ys = (n, False) # ys"

definition free_block :: "block list \<Rightarrow> nat \<Rightarrow> block list \<Rightarrow> block list" where
  "free_block xs n ys =
     (if xs \<noteq> [] \<and> \<not> snd (last xs) then butlast xs @ join_next (fst (last xs)) (join_next n ys) else xs @ join_next n ys)"

text \<open>\<open>lfree_ok\<close>: the list without the rule on neighbours, which does not hold before \<open>plug_holes\<close>.\<close>

definition lfree_ok :: "heap_t \<Rightarrow> block list \<Rightarrow> bool" where
  "lfree_ok h bs \<longleftrightarrow> heap_list h bs \<and> lfree h = mem_at h (first_free 0 bs)"

lemma join_free_blocks:
  assumes ok: "lfree_ok h (xs @ (n, False) # (m, False) # ys)"
  defines "x \<equiv> blen xs" and "y \<equiv> blen xs + 12 + n" and "e \<equiv> blen xs + 24 + n + m"
  defines "h1 \<equiv> set_next (mem_at h x) (of_nat e) h"
  shows "mem_next h (mem_at h y) = of_nat e" "mem_next h1 (mem_at h y) = of_nat e" "lfree h \<noteq> mem_at h y" "mem_at h x \<noteq> mem_at h y"
    "lfree_ok (if mem_next h1 (mem_at h y) \<noteq> MEM_SIZE_ALIGNED then set_prev (mem_at h e) (of_nat x) h1 else h1) (xs @ (n + 12 + m, False) # ys)"
    "kept h {x, e} (if mem_next h1 (mem_at h y) \<noteq> MEM_SIZE_ALIGNED then set_prev (mem_at h e) (of_nat x) h1 else h1)"
proof -
  have hl: "heap_list h (xs @ (n, False) # (m, False) # ys)" and lf: "lfree h = mem_at h (first_free 0 (xs @ [(n, False)]))"
    using ok by (simp_all add: lfree_ok_def first_free_append)
  have base: "heap_base h" and hy: "hdr h y e x False" and le: "e \<le> 65536" "y + 24 \<le> e" "x + 24 \<le> y"
    using hl by (auto simp: heap_list_def x_def y_def e_def add_ac)
  show 1: "mem_next h (mem_at h y) = of_nat e" using hdr_fields(1) [OF hy] .
  have "same_hd h1 h (mem_at h y)" unfolding h1_def using le by (intro other_struct [OF base]) (simp_all add: apart_def)
  then show 2: "mem_next h1 (mem_at h y) = of_nat e" using 1 by (simp add: same_hd_def)
  have "first_free 0 (xs @ [(n, False)]) \<le> x" using first_free_le(2) [of 0 xs] by (simp add: first_free_append x_def)
  then show "lfree h \<noteq> mem_at h y" using le lf mem_at_inject [of "first_free 0 (xs @ [(n, False)])" y h] by auto
  show "mem_at h x \<noteq> mem_at h y" using le mem_at_inject [of x y h] by simp
  have e: "(of_nat e \<noteq> MEM_SIZE_ALIGNED) = (e \<noteq> 65536)" using le of_nat_u32_eq [of e 65536] unfolding MEM_SIZE_nat by simp
  note j = join_blocks [OF hl, folded x_def e_def, folded h1_def]
  have eq: "(if mem_next h1 (mem_at h y) \<noteq> MEM_SIZE_ALIGNED then set_prev (mem_at h e) (of_nat x) h1 else h1) =
      (if e = 65536 then h1 else set_prev (mem_at h e) (of_nat x) h1)" unfolding 2 e by simp
  show "kept h {x, e} (if mem_next h1 (mem_at h y) \<noteq> MEM_SIZE_ALIGNED then set_prev (mem_at h e) (of_nat x) h1 else h1)"
    unfolding eq using j(2) by (simp only: writes_def)
  show "lfree_ok (if mem_next h1 (mem_at h y) \<noteq> MEM_SIZE_ALIGNED then set_prev (mem_at h e) (of_nat x) h1 else h1) (xs @ (n + 12 + m, False) # ys)"
    unfolding eq lfree_ok_def using j lf by (auto simp: writes_def first_free_append)
qed

lemma plug_forward_blocks:
  assumes ok: "lfree_ok h (xs @ (n, False) # ys)"
  shows "lfree_ok (plug_forward (mem_at h (blen xs)) h) (xs @ join_next n ys) \<and>
    kept h {blen xs .. blen xs + 12 + fst (hd (join_next n ys))} (plug_forward (mem_at h (blen xs)) h)"
proof -
  let ?x = "blen xs"
  let ?y = "?x + 12 + n"
  have hl: "heap_list h (xs @ (n, False) # ys)" using ok by (simp add: lfree_ok_def)
  have base: "heap_base h" and hx: "hdr h ?x ?y (last_off 0 0 xs) False" and ys: "seg h ?x ?y ys" "?y + blen ys = 65536"
    using hl by (simp_all add: heap_list_def add_ac)
  have nm: "ptr_to_mem h (mem_next h (mem_at h ?x)) = mem_at h ?y" using hdr_fields(1) [OF hx] by (simp add: ptr_to_mem_def)
  show ?thesis
  proof (cases "ys = [] \<or> snd (hd ys)")
    case True
    then have "mem_used h (mem_at h ?y) \<noteq> 0" if "ys \<noteq> []" using that ys(1) by (auto simp: hdr_def neq_Nil_conv simp del: of_nat_add)
    moreover have "mem_at h ?y = ram_end h" if "ys = []"
    proof -
      have "?y = 65536" using that ys(2) by simp
      then show ?thesis using base by (simp only: heap_base_def)
    qed
    moreover have "join_next n ys = (n, False) # ys" using True by (cases ys; cases "hd ys") auto
    ultimately show ?thesis using ok unfolding plug_forward_def nm by (auto simp: Let_def simp del: of_nat_add)
  next
    case False
    then obtain m zs where join: "ys = (m, False) # zs" by (cases ys) auto
    note j = join_free_blocks [OF ok [unfolded join]]
    have "mem_used h (mem_at h ?y) = 0" "mem_at h ?y \<noteq> ram_end h"
      using ys base join mem_at_inject [of ?y 65536 h] by (auto simp: heap_base_def hdr_def)
    then have "plug_forward (mem_at h ?x) h = (let h1 = set_next (mem_at h ?x) (of_nat (?x + 24 + n + m)) h in
        if mem_next h1 (mem_at h ?y) \<noteq> MEM_SIZE_ALIGNED then set_prev (mem_at h (?x + 24 + n + m)) (of_nat ?x) h1 else h1)"
      using j(1-4) unfolding plug_forward_def nm by (simp add: Let_def ptr_to_mem_def mem_to_ptr_def del: of_nat_add)
    then have P: "lfree_ok (plug_forward (mem_at h ?x) h) (xs @ (n + 12 + m, False) # zs)"
        "kept h {?x, ?x + 24 + n + m} (plug_forward (mem_at h ?x) h)"
      using j(5,6) by (simp_all only: Let_def)
    have "kept h {?x .. ?x + 12 + (n + 12 + m)} (plug_forward (mem_at h ?x) h)" by (intro kept_mono [OF P(2)]) simp
    then show ?thesis using P(1) unfolding join by simp
  qed
qed

lemma plug_backward_blocks:
  assumes ok: "lfree_ok h (xs @ (n, False) # ys)"
  shows "if xs \<noteq> [] \<and> \<not> snd (last xs)
    then lfree_ok (plug_backward (mem_at h (blen xs)) h) (butlast xs @ (fst (last xs) + 12 + n, False) # ys) \<and>
      kept h {blen (butlast xs) .. blen xs + 12 + n} (plug_backward (mem_at h (blen xs)) h)
    else plug_backward (mem_at h (blen xs)) h = h"
proof -
  let ?x = "blen xs"
  let ?y = "?x + 12 + n"
  have hl: "heap_list h (xs @ (n, False) # ys)" using ok by (simp add: lfree_ok_def)
  have hx: "hdr h ?x ?y (last_off 0 0 xs) False" and le: "?y \<le> 65536" using hl by (simp_all add: heap_list_def add_ac)
  have pm: "ptr_to_mem h (mem_prev h (mem_at h ?x)) = mem_at h (last_off 0 0 xs)" using hdr_fields(2) [OF hx] by (simp add: ptr_to_mem_def)
  show ?thesis
  proof (cases xs rule: rev_cases)
    case Nil
    then show ?thesis using pm unfolding plug_backward_def by (simp add: Let_def)
  next
    case (snoc zs b)
    obtain k u where b: "b = (k, u)" by (cases b)
    have pz: "hdr h (blen zs) ?x (last_off 0 0 zs) u" using hl by (simp add: heap_list_def snoc b add_ac)
    have lo: "last_off 0 0 xs = blen zs" by (simp add: snoc)
    show ?thesis
    proof (cases u)
      case True
      then show ?thesis using hdr_fields(3) [OF pz] unfolding plug_backward_def pm lo by (simp add: Let_def snoc b)
    next
      case False
      have ok': "lfree_ok h (zs @ (k, False) # (n, False) # ys)" using ok False by (simp add: snoc b)
      have x: "?x = blen zs + 12 + k" "?y = blen zs + 24 + k + n" by (simp_all add: snoc b)
      note j = join_free_blocks [OF ok', folded x]
      have "plug_backward (mem_at h ?x) h = (let h1 = set_next (mem_at h (blen zs)) (of_nat ?y) h in
          if mem_next h1 (mem_at h ?x) \<noteq> MEM_SIZE_ALIGNED then set_prev (mem_at h ?y) (of_nat (blen zs)) h1 else h1)"
        using j(1-4) hdr_fields(3) [OF pz] False unfolding plug_backward_def pm lo
        by (simp add: Let_def ptr_to_mem_def mem_to_ptr_def del: of_nat_add)
      then have P: "lfree_ok (plug_backward (mem_at h ?x) h) (zs @ (k + 12 + n, False) # ys)" "kept h {blen zs, ?y} (plug_backward (mem_at h ?x) h)"
        using j(5,6) by (simp_all only: Let_def)
      have "kept h {blen zs .. ?y} (plug_backward (mem_at h ?x) h)" using x by (intro kept_mono [OF P(2)]) simp
      moreover have "xs \<noteq> []" "\<not> snd (last xs)" "butlast xs = zs" "fst (last xs) = k" using False by (simp_all add: snoc b)
      ultimately show ?thesis using P(1) by (simp del: of_nat_add)
    qed
  qed
qed

lemma plug_holes_blocks:
  assumes ok: "lfree_ok h (xs @ (n, False) # ys)"
  shows "\<exists>h'. plug_holes (mem_at h (blen xs)) h = Some h' \<and> lfree_ok h' (free_block xs n ys) \<and>
    kept h {if xs \<noteq> [] \<and> \<not> snd (last xs) then blen (butlast xs) else blen xs .. blen xs + 12 + fst (hd (join_next n ys))} h'"
proof -
  let ?x = "blen xs"
  define m where "m = fst (hd (join_next n ys))"
  define zs where "zs = tl (join_next n ys)"
  have jn: "join_next n ys = (m, False) # zs" unfolding m_def zs_def by (cases "(n, ys)" rule: join_next.cases) auto
  define h1 where "h1 = plug_forward (mem_at h ?x) h"
  have hl: "heap_list h (xs @ (n, False) # ys)" using ok by (simp add: lfree_ok_def)
  have base: "heap_base h" and hx: "hdr h ?x (?x + 12 + n) (last_off 0 0 xs) False" and le: "?x + 12 + n \<le> 65536"
    using hl by (simp_all add: heap_list_def add_ac)
  have f: "lfree_ok h1 (xs @ (m, False) # zs)" "kept h {?x .. ?x + 12 + m} h1"
    using plug_forward_blocks [OF ok] unfolding h1_def m_def [symmetric] unfolding jn by simp_all
  have r1: "ram h1 = ram h" using f(2) by (simp add: kept_def)
  have "\<not> mem_at h ?x < ram h" "\<not> ram_end h \<le> mem_at h ?x" "\<not> mem_next h (mem_at h ?x) > MEM_SIZE_ALIGNED"
    using unat_mem_at [OF base, of ?x] unat_mem_at [OF base, of 65536] le base hdr_fields(1) [OF hx] u32_le_iff [of "?x + 12 + n" 65536]
    by (simp_all add: word_less_nat_alt word_le_nat_alt heap_base_def not_less MEM_SIZE_nat del: of_nat_add of_nat_numeral)
  then have p: "plug_holes (mem_at h ?x) h = Some (plug_backward (mem_at h1 ?x) h1)"
    using hdr_fields(3) [OF hx] by (simp add: plug_holes_def h1_def [symmetric] r1)
  have b: "if xs \<noteq> [] \<and> \<not> snd (last xs)
    then lfree_ok (plug_backward (mem_at h1 ?x) h1) (butlast xs @ (fst (last xs) + 12 + m, False) # zs) \<and>
      kept h1 {blen (butlast xs) .. ?x + 12 + m} (plug_backward (mem_at h1 ?x) h1)
    else plug_backward (mem_at h1 ?x) h1 = h1" by (rule plug_backward_blocks [OF f(1)])
  show ?thesis
  proof (cases "xs \<noteq> [] \<and> \<not> snd (last xs)")
    case True
    have "blen (butlast xs) \<le> ?x" using True by (cases xs rule: rev_cases) simp_all
    then have "{?x .. ?x + 12 + m} \<union> {blen (butlast xs) .. ?x + 12 + m} = {blen (butlast xs) .. ?x + 12 + m}" by auto
    then have "kept h {blen (butlast xs) .. ?x + 12 + m} (plug_backward (mem_at h1 ?x) h1)"
      using kept_trans [OF f(2), of "{blen (butlast xs) .. ?x + 12 + m}"] b True by simp
    then show ?thesis using p b True by (simp add: free_block_def jn)
  next
    case False
    then show ?thesis using p b f by (auto simp: free_block_def jn)
  qed
qed

lemma mem_link_valid_block:
  assumes hl: "heap_list h (xs @ (n, u) # ys)"
  shows "mem_link_valid h (mem_at h (blen xs))"
proof -
  let ?x = "blen xs"
  let ?y = "?x + 12 + n"
  have base: "heap_base h" and hx: "hdr h ?x ?y (last_off 0 0 xs) u" and ys: "seg h ?x ?y ys" "?y + blen ys = 65536"
    using hl by (simp_all add: heap_list_def add_ac)
  have lo: "last_off 0 0 xs \<le> 65536" using last_off_le [of xs 0 0] ys(2) by (cases "xs = []") auto
  have "\<not> mem_next h (mem_at h ?x) > MEM_SIZE_ALIGNED" "\<not> mem_prev h (mem_at h ?x) > MEM_SIZE_ALIGNED"
    using hdr_fields [OF hx] ys(2) lo u32_less_iff [of 65536 ?y] u32_less_iff [of 65536 "last_off 0 0 xs"]
    by (simp_all add: MEM_SIZE_nat del: of_nat_add of_nat_numeral)
  moreover have "mem_prev h (mem_at h ?x) = of_nat ?x \<or> mem_next h (mem_at h (last_off 0 0 xs)) = of_nat ?x"
  proof (cases xs rule: rev_cases)
    case Nil
    then show ?thesis using hdr_fields(2) [OF hx] by simp
  next
    case (snoc zs b)
    then have "hdr h (blen zs) ?x (last_off 0 0 zs) (snd b)" using hl by (simp add: heap_list_def add_ac)
    from hdr_fields(1) [OF this] show ?thesis by (simp add: snoc)
  qed
  moreover have "mem_at h ?y = ram_end h \<or> mem_prev h (mem_at h ?y) = of_nat ?x"
  proof (cases ys)
    case Nil
    then have "?y = 65536" using ys(2) by simp
    then show ?thesis using base by (simp only: heap_base_def simp_thms)
  next
    case (Cons b zs)
    then show ?thesis using ys(1) by (simp add: hdr_def del: of_nat_add)
  qed
  ultimately show ?thesis using hdr_fields [OF hx] by (auto simp: mem_link_valid_def mem_to_ptr_def ptr_to_mem_def Let_def simp del: of_nat_add)
qed

lemma free_block_split:
  obtains as m cs where "free_block xs n ys = as @ (m, False) # cs"
    "blen as = (if xs \<noteq> [] \<and> \<not> snd (last xs) then blen (butlast xs) else blen xs)"
    "blen as + 12 + m = blen xs + 12 + fst (hd (join_next n ys))"
proof -
  define m where "m = fst (hd (join_next n ys))"
  define zs where "zs = tl (join_next n ys)"
  have jn: "join_next n ys = (m, False) # zs" unfolding m_def zs_def by (cases "(n, ys)" rule: join_next.cases) auto
  show ?thesis
  proof (cases "xs \<noteq> [] \<and> \<not> snd (last xs)")
    case True
    have "blen (butlast xs) + 12 + fst (last xs) = blen xs" using True by (cases xs rule: rev_cases) simp_all
    then show ?thesis using True that [of "butlast xs" "fst (last xs) + 12 + m" zs] by (simp add: free_block_def jn)
  next
    case False
    then show ?thesis using that [of xs m zs] by (auto simp: free_block_def jn)
  qed
qed

lemma no_adj_free_block:
  assumes "no_adj (xs @ (n, True) # ys)"
  shows "no_adj (free_block xs n ys)"
proof -
  have xs: "no_adj xs" and ys: "no_adj ys" using assms by (cases ys; simp add: no_adj_append)+
  obtain m zs where jn: "join_next n ys = (m, False) # zs" "no_adj ((m, False) # zs)"
    using ys by (cases "(n, ys)" rule: join_next.cases; cases "tl ys") auto
  show ?thesis
  proof (cases xs rule: rev_cases)
    case (snoc as b)
    then show ?thesis using xs jn by (cases zs) (auto simp: free_block_def no_adj_append)
  qed (use jn in \<open>simp add: free_block_def\<close>)
qed

lemma mem_free_blocks:
  assumes ok: "heap_ok h (xs @ (n, True) # ys)"
  shows "\<exists>h'. mem_free (mem_at h (blen xs + 12)) h = Some h' \<and> heap_ok h' (free_block xs n ys) \<and> ram h' = ram h \<and>
    data_kept h (free_block xs n ys) h'"
proof -
  let ?x = "blen xs"
  have hl: "heap_list h (xs @ (n, True) # ys)" and na: "no_adj (xs @ (n, True) # ys)"
    and lf: "lfree h = mem_at h (first_free 0 (xs @ (n, True) # ys))" using ok by (simp_all add: heap_ok_def)
  have base: "heap_base h" and hx: "hdr h ?x (?x + 12 + n) (last_off 0 0 xs) True" and n: "12 \<le> n" and le: "?x + 12 + n + blen ys = 65536"
    and d: "4 dvd ?x" using hl seg_dvd [of h 0 0 xs] by (auto simp: heap_list_def add_ac)
  have rm: "mem_at h (?x + 12) - SIZEOF_STRUCT_MEM = mem_at h ?x" "mem_at h (?x + 12) + MIN_SIZE_ALIGNED = mem_at h (?x + 24)"
    by (simp_all add: mem_const_defs)
  have u: "unat (mem_at h ?x) = unat (ram h) + ?x" "unat (mem_at h (?x + 12)) = unat (ram h) + ?x + 12"
    "unat (mem_at h (?x + 24)) = unat (ram h) + ?x + 24" "unat (ram_end h) = unat (ram h) + 65536"
    using le n base unat_mem_at [OF base] by (simp_all add: heap_base_def del: of_nat_add of_nat_numeral)
  define h0 where "h0 = set_used (mem_at h ?x) 0 h"
  define h1 where "h1 = (if mem_at h ?x < lfree h0 then h0\<lparr>lfree := mem_at h ?x\<rparr> else h0)"
  have ub: "heap_list h0 (xs @ (n, False) # ys)" "writes h {?x} h0" using use_block [OF hl, of False] by (simp_all add: h0_def)
  have l1: "lfree h1 = mem_at h (first_free 0 (xs @ (n, False) # ys))"
  proof (cases "\<forall>b \<in> set xs. snd b")
    case True
    let ?f = "first_free (?x + 12 + n) ys"
    have f: "lfree h = mem_at h ?f" using True lf by (simp add: first_free_append)
    have "?x < ?f" "?f \<le> 65536" using first_free_le [of "?x + 12 + n" ys] le by simp_all
    then have "mem_at h ?x < lfree h" unfolding f using unat_mem_at [OF base] by (simp add: word_less_nat_alt del: of_nat_add)
    then show ?thesis using True ub(2) by (simp add: h1_def first_free_append writes_def)
  next
    case False
    then have f: "lfree h = mem_at h (first_free 0 xs)" "first_free 0 xs < ?x" using lf first_free_less [of xs 0] by (auto simp: first_free_append)
    then have "\<not> mem_at h ?x < lfree h" unfolding f(1) using unat_mem_at [OF base] le by (simp add: word_less_nat_alt)
    then show ?thesis using False f ub(2) by (auto simp: h1_def first_free_append writes_def)
  qed
  have r1: "ram h1 = ram h" "kept h {?x} h1" using ub(2) by (simp_all add: h1_def writes_def)
  have ok1: "lfree_ok h1 (xs @ (n, False) # ys)" using ub(1) l1 r1(1) by (simp add: lfree_ok_def h1_def)
  from plug_holes_blocks [OF ok1] obtain h' where h': "plug_holes (mem_at h ?x) h1 = Some h'" "lfree_ok h' (free_block xs n ys)"
      "kept h1 {if xs \<noteq> [] \<and> \<not> snd (last xs) then blen (butlast xs) else ?x .. ?x + 12 + fst (hd (join_next n ys))} h'"
    unfolding r1(1) by blast
  have "mem_at h (?x + 12) AND 3 = 0" using mem_at_aligned(2) [OF base, of "?x + 12"] d by simp
  moreover have "mem_at h (?x + 12) \<noteq> NULL" using u(2) by (auto simp del: of_nat_add)
  moreover have "\<not> mem_at h ?x < ram h" "\<not> mem_at h (?x + 24) > ram_end h" using u le n by (simp_all add: word_less_nat_alt del: of_nat_add)
  ultimately have "mem_free (mem_at h (?x + 12)) h = Some h'"
    using mem_link_valid_block [OF hl] hdr_fields(3) [OF hx] h'(1)
    unfolding mem_free_def rm Let_def h1_def h0_def by (simp del: of_nat_add)
  moreover have "heap_ok h' (free_block xs n ys)" using h'(2) no_adj_free_block [OF na] by (simp add: heap_ok_def lfree_ok_def)
  moreover have "data_kept h (free_block xs n ys) h'"
  proof -
    obtain as m cs where s: "free_block xs n ys = as @ (m, False) # cs"
      "blen as = (if xs \<noteq> [] \<and> \<not> snd (last xs) then blen (butlast xs) else ?x)"
      "blen as + 12 + m = ?x + 12 + fst (hd (join_next n ys))" by (rule free_block_split)
    have k: "kept h ({?x} \<union> {blen as .. blen as + 12 + m}) h'" using kept_trans [OF r1(2) h'(3) [folded s(2,3)]] .
    have "blen as \<le> ?x" unfolding s(2) by (cases xs rule: rev_cases) simp_all
    moreover have "blen (as @ [(m, False)] @ cs) = 65536" using h'(2) by (simp add: s(1) lfree_ok_def heap_list_def)
    ultimately show ?thesis using kept_data [OF k, of as "[(m, False)]" cs] s(1,3) by auto
  qed
  ultimately show ?thesis using h'(3) r1(1) by (auto simp: kept_def)
qed

subsection \<open>Shrinking\<close>

text \<open>A block of size \<open>n\<close> that is cut to the size \<open>k\<close>: the rest is added to a free block behind it, or becomes a free block when it is
  large enough for one.\<close>

fun trim_block :: "nat \<Rightarrow> nat \<Rightarrow> block list \<Rightarrow> block list" where
  "trim_block k n ((m, False) # ys) = (if k = n then (n, True) # (m, False) # ys else (k, True) # (n - k + m, False) # ys)"
| "trim_block k n ys = (if k + 24 \<le> n then (k, True) # (n - k - 12, False) # ys else (n, True) # ys)"

lemma trim_size:
  assumes hl: "heap_list h (xs @ (n, True) # ys)"
  shows "mem_at h (blen xs + 12) - SIZEOF_STRUCT_MEM = mem_at h (blen xs)" "mem_to_ptr h (mem_at h (blen xs)) = of_nat (blen xs)"
    "mem_next h (mem_at h (blen xs)) - of_nat (blen xs) - SIZEOF_STRUCT_MEM = of_nat n"
    "\<not> (mem_at h (blen xs + 12) < ram h \<or> ram_end h \<le> mem_at h (blen xs + 12))"
proof -
  have base: "heap_base h" and hx: "hdr h (blen xs) (blen xs + 12 + n) (last_off 0 0 xs) True" and n: "12 \<le> n"
      "blen xs + 12 + n + blen ys = 65536" using hl by (auto simp: heap_list_def add_ac)
  show "mem_at h (blen xs + 12) - SIZEOF_STRUCT_MEM = mem_at h (blen xs)" "mem_to_ptr h (mem_at h (blen xs)) = of_nat (blen xs)"
    by (simp_all add: SIZEOF_STRUCT_MEM_def mem_to_ptr_def)
  show "mem_next h (mem_at h (blen xs)) - of_nat (blen xs) - SIZEOF_STRUCT_MEM = of_nat n"
    using hdr_fields(1) [OF hx] by (simp add: SIZEOF_STRUCT_MEM_def)
  show "\<not> (mem_at h (blen xs + 12) < ram h \<or> ram_end h \<le> mem_at h (blen xs + 12))"
    using n base unat_mem_at [OF base, of "blen xs + 12"] unat_mem_at [OF base, of 65536]
    by (simp add: word_less_nat_alt word_le_nat_alt heap_base_def not_less del: of_nat_add of_nat_numeral)
qed

lemma mem_trim_stuck:
  assumes ok: "heap_list h (xs @ [(n, True)])" and k: "request_size (unat new_size) + 24 \<le> n"
  shows "mem_trim (mem_at h (blen xs + 12)) new_size h = None"
proof -
  let ?k = "request_size (unat new_size)" and ?x = "blen xs"
  have base: "heap_base h" and hx: "hdr h ?x (?x + 12 + n) (last_off 0 0 xs) True" and e: "hdr h 65536 65536 65536 True"
    and n: "?x + 12 + n = 65536" using ok by (auto simp: heap_list_def add_ac)
  have nw: "?k \<le> 65536" using k n by simp
  note b = block_size_fits [OF nw]
  have le: "\<not> (of_nat ?k > (of_nat n :: u32))" "of_nat ?k \<noteq> (of_nat n :: u32)"
      "of_nat ?k + SIZEOF_STRUCT_MEM + MIN_SIZE_ALIGNED \<le> (of_nat n :: u32)"
    using k n u32_less_iff [of n ?k] of_nat_u32_eq [of ?k n] u32_le_iff [of "?k + 24" n] by (simp_all add: mem_const_defs add.commute)
  have nx: "ptr_to_mem h (mem_next h (mem_at h ?x)) = mem_at h 65536" "mem_next h (mem_at h ?x) = MEM_SIZE_ALIGNED"
    using hdr_fields(1) [OF hx [unfolded n]] by (simp_all add: ptr_to_mem_def MEM_SIZE_ALIGNED_def)
  show ?thesis using b(2) le hdr_fields(3) [OF e] trim_size [OF ok] unfolding mem_trim_def Let_def b(1) trim_size(1,2,3) [OF ok] nx(1)
    by (simp add: nx(2) del: of_nat_add of_nat_numeral)
qed

lemma trim_link:
  fixes l :: ptr
  assumes hl: "heap_list h (xs @ (n, True) # ys)" and zs: "seg h pv e zs" "e + blen zs = 65536" "e = blen xs + 24 + k + j"
    and k: "12 \<le> k" "4 dvd k" "12 \<le> j" "4 dvd j"
  defines "h' \<equiv> mem_link_free (mem_at h (blen xs)) (of_nat (blen xs)) (of_nat (blen xs + 12 + k)) (of_nat e) (h\<lparr>lfree := l\<rparr>)"
  shows "heap_list h' (xs @ (k, True) # (j, False) # zs) \<and> ram h' = ram h \<and> lfree h' = l \<and> data_kept h (xs @ (k, True) # (j, False) # zs) h'"
proof -
  let ?x = "blen xs" and ?h = "h\<lparr>lfree := l\<rparr>"
  have base: "heap_base h" and e: "hdr h 65536 65536 65536 True" and xs: "seg h 0 0 xs"
    and hx: "hdr h ?x (?x + 12 + n) (last_off 0 0 xs) True" using hl by (simp_all add: heap_list_def add_ac)
  have lf: "heap_list h' (xs @ (k, True) # (j, False) # zs)" "writes ?h {?x, ?x + 12 + k, e} h'"
    unfolding h'_def using link_free [where h = ?h and u = True, OF _ _ _ zs(2) _ _ _ refl zs(3) k, of pv] zs(1) base e xs hdr_fields(2,3) [OF hx] by simp_all
  then have K: "kept h {?x, ?x + 12 + k, e} h'" by (simp add: writes_def kept_def)
  have B: "blen ((xs @ [(k, True)]) @ [(j, False)] @ zs) = 65536" using zs by simp
  have Z: "\<forall>z \<in> {?x, ?x + 12 + k, e}. (blen (xs @ [(k, True)]) \<le> z \<and> z \<le> blen (xs @ [(k, True)]) + blen [(j, False)]) \<or>
      (\<exists>us b vs. xs @ [(k, True)] = us @ b # vs \<and> z = blen us)" using zs(3) by auto
  have "data_kept h ((xs @ [(k, True)]) @ [(j, False)] @ zs) h'" by (rule kept_data [OF K B _ Z]) simp
  then show ?thesis using lf by (simp add: writes_def)
qed

lemma trim_lfree:
  assumes ok: "heap_ok h (xs @ (n, True) # ys)" and kn: "k < n"
  shows "mem_at h (blen xs + 12 + k) < lfree h \<longleftrightarrow> (\<forall>b \<in> set xs. snd b)"
    "ys = (m, False) # zs \<Longrightarrow> lfree h = mem_at h (blen xs + 12 + n) \<longleftrightarrow> (\<forall>b \<in> set xs. snd b)"
    "lfree h = (if \<forall>b \<in> set xs. snd b then mem_at h (first_free (blen xs + 12 + n) ys) else mem_at h (first_free 0 xs))"
proof -
  let ?x = "blen xs"
  have base: "heap_base h" and sz: "?x + 12 + n + blen ys = 65536" and lf: "lfree h = mem_at h (first_free 0 (xs @ (n, True) # ys))"
    using ok by (simp_all add: heap_ok_def heap_list_def add_ac)
  show lf': "lfree h = (if \<forall>b \<in> set xs. snd b then mem_at h (first_free (?x + 12 + n) ys) else mem_at h (first_free 0 xs))"
    using lf by (simp add: first_free_append)
  have g: "?x + 12 + n \<le> first_free (?x + 12 + n) ys" "first_free (?x + 12 + n) ys \<le> 65536" using first_free_le [of "?x + 12 + n" ys] sz by simp_all
  have ls: "mem_at h a < mem_at h b \<longleftrightarrow> a < b" if "a \<le> 65536" "b \<le> 65536" for a b
    using that unat_mem_at [OF base, of a] unat_mem_at [OF base, of b] by (simp add: word_less_nat_alt)
  have fx: "first_free 0 xs \<le> ?x" using first_free_le(2) [of 0 xs] by simp
  show "mem_at h (?x + 12 + k) < lfree h \<longleftrightarrow> (\<forall>b \<in> set xs. snd b)"
    using g kn sz fx ls [of "?x + 12 + k" "first_free (?x + 12 + n) ys"] ls [of "?x + 12 + k" "first_free 0 xs"]
    unfolding lf' by (simp del: of_nat_add)
  show "lfree h = mem_at h (?x + 12 + n) \<longleftrightarrow> (\<forall>b \<in> set xs. snd b)" if "ys = (m, False) # zs"
    using that sz fx mem_at_inject [of "first_free 0 xs" "?x + 12 + n" h] unfolding lf' by (simp del: of_nat_add)
qed

lemma mem_trim_blocks:
  assumes ok: "heap_ok h (xs @ (n, True) # ys)" and k: "request_size (unat new_size) \<le> n"
    and ys: "ys \<noteq> [] \<or> n < request_size (unat new_size) + 24"
  shows "\<exists>h'. mem_trim (mem_at h (blen xs + 12)) new_size h = Some (mem_at h (blen xs + 12), h') \<and>
    heap_ok h' (xs @ trim_block (request_size (unat new_size)) n ys) \<and> ram h' = ram h \<and>
    data_kept h (xs @ trim_block (request_size (unat new_size)) n ys) h'"
proof -
  define k where "k = request_size (unat new_size)"
  let ?x = "blen xs"
  let ?y = "?x + 12 + n"
  have hl: "heap_list h (xs @ (n, True) # ys)" and na: "no_adj (xs @ (n, True) # ys)"
    and lf: "lfree h = mem_at h (first_free 0 (xs @ (n, True) # ys))" using ok by (simp_all add: heap_ok_def)
  have base: "heap_base h" and e: "hdr h 65536 65536 65536 True" and hx: "hdr h ?x ?y (last_off 0 0 xs) True" and sg: "seg h ?x ?y ys" "?y + blen ys = 65536"
    and n: "12 \<le> n" "4 dvd n" using hl by (simp_all add: heap_list_def add_ac)
  note kd = request_size(1,2) [of "unat new_size", folded k_def]
  have kn: "k \<le> n" "k \<le> 65536" "\<not> (of_nat k > (of_nat n :: u32))" "of_nat k = (of_nat n :: u32) \<longleftrightarrow> k = n"
      "of_nat k + SIZEOF_STRUCT_MEM + MIN_SIZE_ALIGNED \<le> (of_nat n :: u32) \<longleftrightarrow> k + 24 \<le> n"
    using k sg(2) u32_less_iff [of n k] of_nat_u32_eq [of k n] u32_le_iff [of "k + 24" n] by (simp_all add: mem_const_defs k_def add.commute)
  note b = block_size_fits [of new_size, folded k_def, OF kn(2)]
  have nx: "ptr_to_mem h (mem_next h (mem_at h ?x)) = mem_at h ?y" "mem_next h (mem_at h ?x) = of_nat ?y"
    using hdr_fields(1) [OF hx] by (simp_all add: ptr_to_mem_def)
  have y: "of_nat ?y = MEM_SIZE_ALIGNED \<longleftrightarrow> ys = []"
    using sg(2) of_nat_u32_eq [of ?y 65536] unfolding MEM_SIZE_nat by (cases ys) simp_all
  have p2: "of_nat ?x + SIZEOF_STRUCT_MEM + of_nat k = (of_nat (?x + 12 + k) :: u32)" by (simp add: SIZEOF_STRUCT_MEM_def)
  have T: "mem_trim (mem_at h (?x + 12)) new_size h =
     (if k = n then Some (mem_at h (?x + 12), h)
      else if mem_used h (mem_at h ?y) = 0 then
        if ys = [] then None
        else Some (mem_at h (?x + 12), mem_link_free (mem_at h ?x) (of_nat ?x) (of_nat (?x + 12 + k)) (mem_next h (mem_at h ?y))
          (if lfree h = mem_at h ?y then h\<lparr>lfree := mem_at h (?x + 12 + k)\<rparr> else h))
      else if k + 24 \<le> n then
        if ys = [] then None
        else Some (mem_at h (?x + 12), mem_link_free (mem_at h ?x) (of_nat ?x) (of_nat (?x + 12 + k)) (of_nat ?y)
          (if mem_at h (?x + 12 + k) < lfree h then h\<lparr>lfree := mem_at h (?x + 12 + k)\<rparr> else h))
      else Some (mem_at h (?x + 12), h))"
    using b(2) kn(3) trim_size(4) [OF hl] nx(2)
    unfolding mem_trim_def Let_def b(1) trim_size(1,2,3) [OF hl] nx(1) kn(4,5) p2
    by (simp add: y ptr_to_mem_def del: of_nat_add)
  show ?thesis
  proof (cases "k = n \<or> (ys = [] \<or> snd (hd ys)) \<and> n < k + 24")
    case True
    then have "trim_block k n ys = (n, True) # ys" by (cases "(k, n, ys)" rule: trim_block.cases) auto
    moreover have "mem_used h (mem_at h ?y) \<noteq> 0" if "k \<noteq> n"
    proof (cases ys)
      case Nil
      then have "?y = 65536" using sg(2) by simp
      then show ?thesis using hdr_fields(3) [OF e] by (simp only: if_True) simp
    qed (use True that sg(1) in \<open>auto simp: hdr_def simp del: of_nat_add\<close>)
    ultimately show ?thesis using T ok True by (auto simp: k_def [symmetric] data_kept_def)
  next
    case False
    then have kl: "k < n" using kn(1) by simp
    obtain m u zs where c: "ys = (m, u) # zs" "u \<longrightarrow> k + 24 \<le> n" 
    proof (cases ys)
      case Nil
      then show ?thesis using False ys kl by (simp add: k_def)
    next
      case (Cons b zs)
      then show ?thesis using False that [of "fst b" "snd b" zs] by (simp add: not_less)
    qed
    have sg': "hdr h ?y (?y + 12 + m) ?x u" "seg h ?y (?y + 12 + m) zs" "4 dvd m" "12 \<le> m" using sg(1) c(1) by simp_all
    have yz: "seg h (if u then ?x else ?y) (if u then ?y else ?y + 12 + m) (if u then ys else zs)" using sg(1) sg' c by (cases u) simp_all
    let ?j = "if u then n - k - 12 else n - k + m"
    let ?zs = "if u then ys else zs"
    let ?bs = "xs @ (k, True) # (?j, False) # ?zs"
    let ?l = "mem_at h (first_free 0 ?bs)"
    have j: "12 \<le> ?j" "4 dvd ?j" "(if u then ?y else ?y + 12 + m) = ?x + 24 + k + ?j" "(if u then ?y else ?y + 12 + m) + blen ?zs = 65536"
      using c kl kd n sg' sg(2) by (auto simp: dvd_diff_nat)
    note l = trim_link [OF hl yz j(4,3) kd j(1,2), of ?l]
    have tb: "trim_block k n ys = (k, True) # (?j, False) # ?zs" using c kl by (cases u) auto
    have "(if u then if mem_at h (?x + 12 + k) < lfree h then h\<lparr>lfree := mem_at h (?x + 12 + k)\<rparr> else h
        else if lfree h = mem_at h ?y then h\<lparr>lfree := mem_at h (?x + 12 + k)\<rparr> else h) = h\<lparr>lfree := ?l\<rparr>"
      using trim_lfree [OF ok kl] c(1) by (cases u; cases "\<forall>b \<in> set xs. snd b") (auto simp: first_free_append)
    then have "mem_trim (mem_at h (?x + 12)) new_size h = Some (mem_at h (?x + 12),
        mem_link_free (mem_at h ?x) (of_nat ?x) (of_nat (?x + 12 + k)) (of_nat (if u then ?y else ?y + 12 + m)) (h\<lparr>lfree := ?l\<rparr>))"
      using T kl c hdr_fields(1,3) [OF sg'(1)] by (cases u) (simp_all del: of_nat_add)
    moreover have "no_adj ?bs" using na c by (cases zs) (auto simp: no_adj_append)
    ultimately show ?thesis using l unfolding k_def [symmetric] tb heap_ok_def by simp
  qed
qed

subsection \<open>The empty heap\<close>

lemma mem_init_blocks:
  assumes "p \<noteq> NULL" and "unat p + 65551 \<le> 2 ^ 32"
  shows "heap_ok (mem_init p m) [(65524, False)]" "ram (mem_init p m) = LWIP_MEM_ALIGN_SIZE p"
proof -
  define a where "a = LWIP_MEM_ALIGN_SIZE p"
  have "unat (p + 3) = unat p + 3" using assms(2) by (simp add: unat_word_ariths)
  then have a: "unat a = (unat p + 3) div 4 * 4" unfolding a_def LWIP_MEM_ALIGN_SIZE_def unat_and_not_3 by simp
  have "0 < unat p" using assms(1) by (simp add: unat_gt_0)
  then have "unat a mod 4 = 0" "0 < unat a" "unat a \<le> unat p + 3" unfolding a by presburger+
  then have al: "4 dvd a" "a \<noteq> NULL" "unat a + 65548 \<le> 2 ^ 32" using assms(2) by (auto simp: dvd_4_u32)
  let ?h = "\<lparr>hbytes = m, ram = a, ram_end = NULL, lfree = NULL\<rparr>"
  define h1 where "h1 = (set_used a 0 (set_prev a 0 (set_next a MEM_SIZE_ALIGNED ?h)))\<lparr>ram_end := a + 65536, lfree := a\<rparr>"
  let ?e = "a + 65536"
  have h: "mem_init p m = set_prev ?e MEM_SIZE_ALIGNED (set_next ?e MEM_SIZE_ALIGNED (set_used ?e 1 h1))"
    unfolding mem_init_def h1_def Let_def a_def [symmetric]
    by (simp add: ptr_to_mem_def MEM_SIZE_ALIGNED_def set_next_def set_prev_def set_used_def)
  have r: "ram h1 = a" "lfree h1 = a" "heap_base h1" using al by (simp_all add: h1_def heap_base_def)
  have "hdr h1 0 65536 0 False"
  proof -
    have "same_hd h1 (set_used a 0 (set_prev a 0 (set_next a MEM_SIZE_ALIGNED ?h))) a"
      by (simp add: h1_def same_hd_def mem_next_def mem_prev_def mem_used_def)
    then show ?thesis using r(1) by (simp add: hdr_def same_hd_def MEM_SIZE_ALIGNED_def)
  qed
  moreover have w: "writes h1 {65536} (mem_init p m)"
    unfolding h using r(1) writes_step [OF _ r(3), of "{65536}" _ 65536] by simp
  ultimately have "hdr (mem_init p m) 0 65536 0 False" using writes_hdr [OF w, of 0] by (simp add: apart_def)
  moreover have rr: "ram (mem_init p m) = a" "lfree (mem_init p m) = a" "heap_base (mem_init p m)"
    using w r writes_base [OF w] by (simp_all add: writes_def)
  moreover have "hdr (mem_init p m) 65536 65536 65536 True" unfolding hdr_def rr(1) unfolding h by (simp add: MEM_SIZE_ALIGNED_def)
  ultimately show "heap_ok (mem_init p m) [(65524, False)]" by (simp add: heap_ok_def heap_list_def)
  show "ram (mem_init p m) = LWIP_MEM_ALIGN_SIZE p" using rr(1) by (simp add: a_def)
qed

lemma mem_malloc_refused:
  assumes "size_in = 0 \<or> 65536 < unat size_in"
  shows "mem_malloc size_in h = Some (NULL, h)"
proof (cases "size_in = 0")
  case False
  then have "block_size size_in > MEM_SIZE_ALIGNED \<or> block_size size_in < size_in" using assms block_size_big by blast
  then show ?thesis using False by (simp only: mem_malloc_def Let_def if_True if_False)
qed (simp add: mem_malloc_def)

lemma mem_malloc_cases:
  assumes ok: "heap_ok h bs" and m: "mem_malloc size_in h = Some (p, h')" and p: "p \<noteq> NULL"
  obtains xs m ys where "bs = xs @ (m, False) # ys" "request_size (unat size_in) \<le> m" "p = mem_at h (blen xs + 12)"
    "heap_ok h' (xs @ split_block (request_size (unat size_in)) m @ ys)" "ram h' = ram h" "data_kept h bs h'"
proof -
  have sz: "size_in \<noteq> 0" "unat size_in \<le> 65536"
    using m p mem_malloc_refused [of size_in h] by fastforce+
  then show ?thesis using mem_malloc_blocks [OF ok sz] m p that by (auto split: option.splits)
qed

lemma free_split_block:
  assumes "no_adj (xs @ (m, False) # ys)" and "n \<le> m"
  shows "\<exists>k zs. split_block n m @ ys = (k, True) # zs \<and> n \<le> k \<and> free_block xs k zs = xs @ (m, False) # ys"
proof -
  have xs: "xs = [] \<or> snd (last xs)" and ys: "ys = [] \<or> snd (hd ys)" using assms(1) by (cases ys; simp add: no_adj_append)+
  have "join_next m ys = (m, False) # ys" using ys by (cases "(m, ys)" rule: join_next.cases) auto
  then show ?thesis using xs assms(2) by (auto simp: split_block_def free_block_def)
qed

subsection \<open>The heap behind packet buffers\<close>

text \<open>What pbuf.c relies on: \<open>ok x a\<close> says that the state \<open>x\<close> of the heap has the abstract value \<open>a\<close>.\<close>

locale mem_contract =
  fixes M :: "'x mem_api" and ok :: "'x \<Rightarrow> 'a \<Rightarrow> bool"
  assumes malloc_returns: "ok x a \<Longrightarrow> api_malloc M n x \<noteq> None"
    and malloc_refused: "ok x a \<Longrightarrow> api_malloc M n x = Some (NULL, x') \<Longrightarrow> ok x' a"
    and malloc_free: "ok x a \<Longrightarrow> api_malloc M n x = Some (p, x') \<Longrightarrow> p \<noteq> NULL \<Longrightarrow> \<exists>x''. api_free M p x' = Some x'' \<and> ok x'' a"
begin

lemma free_ram_pbuf:
  assumes p: "p \<noteq> NULL" and h: "api_free M p (heap st) = Some x'"
  shows "pbuf_free M p (pbuf_init_alloced_pbuf p payload tot_len len PBUF_RAM 0 st) =
    Some (1, st\<lparr>pbufs := (pbufs st)(p := None), heap := x'\<rparr>)"
  using assms by (simp add: pbuf_free_def pbuf_free_loop.simps [of _ p] pbuf_free_loop.simps [of _ NULL] pbuf_init_alloced_pbuf_def
      pbuf_dealloc_def PBUF_TYPE_ALLOC_SRC_MASK_def PBUF_FLAG_IS_CUSTOM_def)

lemma ram_pbuf_alloc_free:
  assumes ok: "ok (heap st) a"
  shows "\<exists>r st'. pbuf_alloc M layer len PBUF_RAM st = Some (r, st') \<and>
    (if r = NULL then pbufs st' = pbufs st \<and> ok (heap st') a
     else (\<exists>b. pbufs st' = (pbufs st)(r \<mapsto> b) \<and> p_len b = len \<and> p_tot_len b = len \<and> p_next b = NULL) \<and>
       (\<exists>st''. pbuf_free M r st' = Some (1, st'') \<and> pbufs st'' = (pbufs st)(r := None) \<and> ok (heap st'') a))"
proof -
  let ?pl = "ucast (LWIP_MEM_ALIGN_SIZE (ucast layer) + LWIP_MEM_ALIGN_SIZE (ucast len)) :: u16"
  let ?al = "LWIP_MEM_ALIGN_SIZE SIZEOF_STRUCT_PBUF + ucast ?pl"
  let ?c = "ucast ?pl < LWIP_MEM_ALIGN_SIZE (ucast len) \<or> ?al < LWIP_MEM_ALIGN_SIZE (ucast len)"
  obtain p x' where m: "api_malloc M ?al (heap st) = Some (p, x')" using malloc_returns [OF ok, of ?al] by auto
  show ?thesis
  proof (cases "?c \<or> p = NULL")
    case True
    have "pbuf_alloc M layer len PBUF_RAM st = Some (NULL, if ?c then st else st\<lparr>heap := x'\<rparr>)"
      using True m by (auto simp: pbuf_alloc_def Let_def)
    moreover have "ok x' a" if "\<not> ?c" using True that malloc_refused [OF ok, of ?al x'] m by auto
    ultimately show ?thesis using ok by (intro exI [of _ NULL]) simp
  next
    case False
    from malloc_free [OF ok m] False obtain x'' where x'': "api_free M p x' = Some x''" "ok x'' a" by auto
    have "pbuf_alloc M layer len PBUF_RAM st = Some (p, pbuf_init_alloced_pbuf p (LWIP_MEM_ALIGN_SIZE (p + SIZEOF_STRUCT_PBUF + ucast layer))
        len len PBUF_RAM 0 (st\<lparr>heap := x'\<rparr>))"
      using False m by (simp add: pbuf_alloc_def Let_def)
    then show ?thesis using False x'' free_ram_pbuf [of p "st\<lparr>heap := x'\<rparr>" x'']
      by (simp add: pbuf_init_alloced_pbuf_def) (rule exI, rule conjI, rule refl, simp)
  qed
qed

end

definition heap_api :: "(ptr \<Rightarrow> heap_t \<Rightarrow> heap_t) \<Rightarrow> heap_t mem_api" where
  "heap_api f = \<lparr>api_malloc = mem_malloc, api_free = mem_free, api_trim = mem_trim, custom_free_function = f\<rparr>"

lemma heap_malloc_free:
  assumes ok: "heap_ok h bs" and m: "mem_malloc n h = Some (p, h')" "p \<noteq> NULL"
  shows "\<exists>h''. mem_free p h' = Some h'' \<and> heap_ok h'' bs \<and> ram h'' = ram h"
proof -
  obtain xs m ys where b: "bs = xs @ (m, False) # ys" "request_size (unat n) \<le> m" "p = mem_at h (blen xs + 12)"
      "heap_ok h' (xs @ split_block (request_size (unat n)) m @ ys)" "ram h' = ram h"
    by (rule mem_malloc_cases [OF ok m])
  have "no_adj bs" using ok by (simp add: heap_ok_def)
  from free_split_block [OF this [unfolded b(1)] b(2)] obtain k zs where
    k: "split_block (request_size (unat n)) m @ ys = (k, True) # zs" "free_block xs k zs = bs" unfolding b(1) by blast
  from mem_free_blocks [OF b(4) [unfolded k(1)]] show ?thesis unfolding k(2) b(3,5) by blast
qed

lemma heap_malloc_returns: "heap_ok h bs \<Longrightarrow> mem_malloc n h \<noteq> None"
  using mem_malloc_blocks [of h bs n] mem_malloc_refused [of n h] by (cases "n = 0 \<or> 65536 < unat n") (auto split: option.splits)

lemma heap_malloc_NULL:
  assumes "heap_ok h bs" and "mem_malloc n h = Some (NULL, h')"
  shows "h' = h"
proof (cases "n = 0 \<or> 65536 < unat n")
  case True
  then show ?thesis using mem_malloc_refused [OF True, of h] assms(2) by simp
next
  case False
  show ?thesis
  proof (cases "find_fit (request_size (unat n)) 0 bs")
    case None
    then show ?thesis using mem_malloc_blocks [OF assms(1), of n] False assms(2) by simp
  next
    case (Some x)
    have "heap_base h" "x + 12 \<le> 65536" using assms(1) find_fit_bound [OF Some] by (simp_all add: heap_ok_def heap_list_def)
    then have "unat (mem_at h (x + 12)) \<noteq> 0" using unat_mem_at [of h "x + 12"] by simp
    then show ?thesis using mem_malloc_blocks [OF assms(1), of n] False assms(2) Some by auto
  qed
qed

interpretation heap_mem: mem_contract "heap_api f" heap_ok
proof
  fix h :: heap_t and bs n h' p
  assume ok: "heap_ok h bs"
  show "api_malloc (heap_api f) n h \<noteq> None" using heap_malloc_returns [OF ok] by (simp add: heap_api_def)
  show "heap_ok h' bs" if "api_malloc (heap_api f) n h = Some (NULL, h')"
    using heap_malloc_NULL [OF ok, of n h'] that ok by (simp add: heap_api_def)
  show "\<exists>h''. api_free (heap_api f) p h' = Some h'' \<and> heap_ok h'' bs" if "api_malloc (heap_api f) n h = Some (p, h')" "p \<noteq> NULL"
    using heap_malloc_free [OF ok, of n p h'] that by (auto simp: heap_api_def)
qed

subsection \<open>Properties\<close>

text \<open>(C28) The allocation is first fit: a request is refused, and nothing changed, when it is empty, larger than the heap or
  larger than every free block. Otherwise it gets the first free block that is large enough, the rest of it stays a free block,
  the structures of the heap stay consistent and the data of the blocks in use is not changed.\<close>

theorem mem_malloc_first_fit:
  assumes ok: "heap_ok h bs"
  shows "if size_in = 0 \<or> 65536 < unat size_in \<or> (\<forall>(n, used) \<in> set bs. used \<or> n < request_size (unat size_in))
    then mem_malloc size_in h = Some (NULL, h)
    else \<exists>xs n ys h'. bs = xs @ (n, False) # ys \<and> (\<forall>(k, used) \<in> set xs. used \<or> k < request_size (unat size_in)) \<and>
      request_size (unat size_in) \<le> n \<and> mem_malloc size_in h = Some (mem_at h (blen xs + 12), h') \<and>
      heap_ok h' (xs @ split_block (request_size (unat size_in)) n @ ys) \<and> data_kept h bs h'"
proof (cases "size_in = 0 \<or> 65536 < unat size_in")
  case True
  then show ?thesis using mem_malloc_refused [OF True, of h] by auto
next
  case False
  then have sz: "size_in \<noteq> 0" "unat size_in \<le> 65536" by simp_all
  note b = mem_malloc_blocks [OF ok sz]
  show ?thesis
  proof (cases "find_fit (request_size (unat size_in)) 0 bs")
    case None
    then have "\<forall>(n, used) \<in> set bs. used \<or> n < request_size (unat size_in)" by (auto simp: find_fit_None)
    then show ?thesis using b None by simp
  next
    case (Some x)
    then have "\<not> (\<forall>(n, used) \<in> set bs. used \<or> n < request_size (unat size_in))"
      using find_fit_None [of "request_size (unat size_in)" 0 bs] by auto
    moreover obtain h' xs m ys where "mem_malloc size_in h = Some (mem_at h (blen xs + 12), h')" "bs = xs @ (m, False) # ys"
        "\<forall>b \<in> set xs. snd b \<or> fst b < request_size (unat size_in)" "request_size (unat size_in) \<le> m"
        "heap_ok h' (xs @ split_block (request_size (unat size_in)) m @ ys)" "data_kept h bs h'"
      using b Some by auto
    ultimately show ?thesis using False by (simp add: case_prod_unfold) blast
  qed
qed

theorem mem_malloc_first_fit_witness:
  "\<exists>h h'. heap_ok h [(65524, False)] \<and> mem_malloc 100 h = Some (mem_at h 12, h') \<and> heap_ok h' [(100, True), (65412, False)]"
proof -
  let ?h = "mem_init 0x1001 (\<lambda>_. 0)"
  have ok: "heap_ok ?h [(65524, False)]" by (rule mem_init_blocks) simp_all
  have r: "request_size (unat (100 :: u32)) = 100" by (simp add: request_size_def)
  from mem_malloc_first_fit [OF ok, of 100] show ?thesis using ok unfolding r
    by (auto simp: split_block_def append_eq_Cons_conv Cons_eq_append_conv)
qed

text \<open>(C29) A block that is released is joined with the free blocks before and behind it, so that no two free blocks are next to
  each other; the structures stay consistent and the data of the other blocks in use is not changed.\<close>

theorem mem_free_joins:
  assumes "heap_ok h (xs @ (n, True) # ys)"
  shows "\<exists>h'. mem_free (mem_at h (blen xs + 12)) h = Some h' \<and> heap_ok h' (free_block xs n ys) \<and> data_kept h (free_block xs n ys) h'"
  using mem_free_blocks [OF assms] by blast

theorem mem_free_joins_witness:
  "\<exists>h h'. heap_ok h [(100, True), (65412, False)] \<and> mem_free (mem_at h 12) h = Some h' \<and> heap_ok h' [(65524, False)]"
proof -
  let ?h = "mem_init 0x1001 (\<lambda>_. 0)"
  have ok: "heap_ok ?h [(65524, False)]" by (rule mem_init_blocks) simp_all
  have "case find_fit (request_size (unat (100 :: u32))) 0 [(65524, False)] of None \<Rightarrow> False | Some x \<Rightarrow> x = 0"
      "request_size (unat (100 :: u32)) = 100" by (simp_all add: request_size_def)
  then obtain h' where "heap_ok h' [(100, True), (65412, False)]"
    using mem_malloc_blocks [OF ok, of 100] by (auto simp: split_block_def append_eq_Cons_conv Cons_eq_append_conv)
  then show ?thesis using mem_free_joins [of h' "[]" 100 "[(65412, False)]"] by (auto simp: free_block_def)
qed

text \<open>(C30) \<open>mem_trim\<close> gives the rest of a block to the free block behind it, or makes it a free block when it is large enough; the
  data that stays and the data of the other blocks is not changed. For the last block of the heap this is not so: when its rest is
  large enough for a free block, the assertion that the block is not the last one fails and the call does not return.\<close>

theorem mem_trim_correct:
  assumes ok: "heap_ok h (xs @ (n, True) # ys)" and le: "request_size (unat new_size) \<le> n"
  shows "if ys = [] \<and> request_size (unat new_size) + 24 \<le> n then mem_trim (mem_at h (blen xs + 12)) new_size h = None
    else \<exists>h'. mem_trim (mem_at h (blen xs + 12)) new_size h = Some (mem_at h (blen xs + 12), h') \<and>
      heap_ok h' (xs @ trim_block (request_size (unat new_size)) n ys) \<and>
      data_kept h (xs @ trim_block (request_size (unat new_size)) n ys) h'"
proof (cases "ys = [] \<and> request_size (unat new_size) + 24 \<le> n")
  case True
  then show ?thesis using mem_trim_stuck [of h xs n new_size] ok by (simp add: heap_ok_def)
next
  case False
  then have "ys \<noteq> [] \<or> n < request_size (unat new_size) + 24" by auto
  from mem_trim_blocks [OF ok le this] False show ?thesis by auto
qed

theorem mem_trim_correct_witness:
  "(\<exists>h h'. heap_ok h [(100, True), (65412, False)] \<and> mem_trim (mem_at h 12) 50 h = Some (mem_at h 12, h') \<and>
      heap_ok h' [(52, True), (65460, False)]) \<and>
   (\<exists>h. heap_ok h [(65524, True)] \<and> mem_trim (mem_at h 12) 100 h = None)"
proof -
  let ?h = "mem_init 0x1001 (\<lambda>_. 0)"
  have ok: "heap_ok ?h [(65524, False)]" by (rule mem_init_blocks) simp_all
  have r: "request_size (unat (100 :: u32)) = 100" "request_size (unat (65524 :: u32)) = 65524" "request_size (unat (50 :: u32)) = 52"
    by (simp_all add: request_size_def)
  obtain h1 where h1: "heap_ok h1 [(100, True), (65412, False)]"
    using mem_malloc_blocks [OF ok, of 100] r(1) by (auto simp: split_block_def append_eq_Cons_conv Cons_eq_append_conv)
  obtain h2 where h2: "heap_ok h2 [(65524, True)]"
    using mem_malloc_blocks [OF ok, of 65524] r(2) by (auto simp: split_block_def append_eq_Cons_conv Cons_eq_append_conv)
  show ?thesis using mem_trim_correct [of h1 "[]" 100 "[(65412, False)]" 50] mem_trim_correct [of h2 "[]" 65524 "[]" 100] h1 h2 r by auto
qed

text \<open>(C31) Packet buffers on this heap are not lost: \<open>pbuf_alloc\<close> of a \<open>PBUF_RAM\<close> either gives nothing and changes nothing, or a single buffer
  of the requested length, and \<open>pbuf_free\<close> of it gives back the same list of blocks.\<close>

theorem pbuf_ram_alloc_free:
  assumes "heap_ok (heap st) bs"
  shows "\<exists>r st'. pbuf_alloc (heap_api f) layer len PBUF_RAM st = Some (r, st') \<and>
    (if r = NULL then pbufs st' = pbufs st \<and> heap_ok (heap st') bs
     else (\<exists>b. pbufs st' = (pbufs st)(r \<mapsto> b) \<and> p_len b = len \<and> p_tot_len b = len \<and> p_next b = NULL) \<and>
       (\<exists>st''. pbuf_free (heap_api f) r st' = Some (1, st'') \<and> pbufs st'' = (pbufs st)(r := None) \<and> heap_ok (heap st'') bs))"
  using heap_mem.ram_pbuf_alloc_free [OF assms] .

theorem pbuf_ram_alloc_free_witness:
  "\<exists>r st' st''. pbuf_alloc (heap_api (\<lambda>_ h. h)) 54 100 PBUF_RAM
    \<lparr>pbufs = \<lambda>_. None, memp_tab = \<lambda>_. [], pbuf_free_ooseq_pending = 0, heap = mem_init 0x1001 (\<lambda>_. 0)\<rparr> = Some (r, st') \<and>
    r \<noteq> NULL \<and> pbuf_free (heap_api (\<lambda>_ h. h)) r st' = Some (1, st'') \<and> pbufs st'' = (\<lambda>_. None) \<and> heap_ok (heap st'') [(65524, False)]"
proof -
  let ?h = "mem_init 0x1001 (\<lambda>_. 0)"
  let ?st = "\<lparr>pbufs = \<lambda>_. None, memp_tab = \<lambda>_. [], pbuf_free_ooseq_pending = 0, heap = ?h\<rparr> :: heap_t pstate"
  have ok: "heap_ok ?h [(65524, False)]" by (rule mem_init_blocks) simp_all
  have "request_size (unat (172 :: u32)) = 172" by (simp add: request_size_def)
  then obtain h' where m: "mem_malloc 172 ?h = Some (mem_at ?h 12, h')"
    using mem_malloc_blocks [OF ok, of 172] by auto
  have "ram ?h = 0x1004" by (simp add: mem_init_blocks(2) LWIP_MEM_ALIGN_SIZE_def)
  then have "fst (the (pbuf_alloc (heap_api (\<lambda>_ h. h)) 54 100 PBUF_RAM ?st)) \<noteq> NULL"
    using m by (simp add: pbuf_alloc_def heap_api_def LWIP_MEM_ALIGN_SIZE_def SIZEOF_STRUCT_PBUF_def)
  then show ?thesis using pbuf_ram_alloc_free [of ?st "[(65524, False)]" "\<lambda>_ h. h" 54 100] ok by (auto split: if_splits)
qed

end
