(* ===== verification/Spec2Isabelle.thy ===== *)
theory Spec2Isabelle
  imports Flashapp Progress_Bar Buckets Stack_Effects Http_Session Lwip_Mem
begin

text \<open>
  Verification of the flash station application for the netX 4000.

  \<^bold>\<open>The program.\<close> The application is started by a boot server over Ethernet. It acknowledges the last packet
  of the ROM code, reads the flash device label, asks the server for an information file (the name and the
  SHA384 of the image), downloads the image over HTTP into RAM, compares the hash, writes the chunks
  of the image (WFP format) to the flash devices, reports the result to the server and shows it with the LEDs.
  The network code of the application uses lwIP (src/src/networking/lwip-2.1.2); the parts of it that handle the
  application's data, its HTTP client, packet buffers and heap, are modelled. The directory src/src/networking/stack holds a
  second, small network stack of its own: ARP, IPv4, ICMP, UDP, DHCP, DNS and TFTP on the same
  driver interface. It is not linked into the application; it is modelled completely.

  \<^bold>\<open>Common ground.\<close> Integers of C are words of their width, so that every wrap-around of the code is in the
  model; pointers are 32 bit words. Memory is a function from addresses to bytes. Theory
  \<open>Prelude\<close> has the types, reading and writing of bytes, half words and words, ranges of the memory and the lemmas
  on them. State is passed explicitly as records; a handler returns the new state, and an
  \<open>option\<close> where a loop may not end or where the code has no defined behaviour. Code that is not modelled (the flasher
  library, the TCP/IP core of lwIP, the registers of the hardware, the system timer) is a parameter: a record of functions on an
  abstract state \<open>'w\<close>, with the documented behaviour as named hypotheses, and a concrete instance in the
  witnesses.

  \<^bold>\<open>The application.\<close>
  \<^item> \<open>Device\<close> (device_info.h): the device information and the SPI configuration.
  \<^item> \<open>Wfp\<close> (wfp.c): \<open>flashDataFile\<close>, the loop over the chunks \<open>wfp_loop\<close> and \<open>processWfp\<close>. The image is parsed into
    a list of chunks by an abstract specification; \<open>processWfp\<close> refines it on images whose size fields do not make the 32-bit pointers
    wrap. On SPI devices data is programmed only where the library reported an erased area; SDIO data is written without an erase.
    The bounds check of a chunk wraps: with a huge size the chunk is accepted, and when the device accepts it too, the loop
    does not end.
  \<^item> \<open>Info_File\<close> (main.c, \<open>parseInfoFile\<close>): which files are accepted, and what is stored. The format is a name, line ends and 96 digits; the code asks
    for one more byte behind them. Print and parse is the identity.
  \<^item> \<open>Sha384\<close> (sha384.c) and \<open>Crc32\<close> (crc32.c): the drivers of the crypto unit and the CRC unit. A chunk that reaches the next
    aligned address is fed byte by byte, a shorter one together with the bytes up to this address; the padding is that of FIPS 180-4.
    The values that are written to the CRC unit make it compute CRC32b. The computations themselves are in the hardware:
    \<open>crypt_unit\<close> and \<open>crc_regs\<close> say what the registers do.
  \<^item> \<open>Fdl\<close> (fdl.h, fdl.c): the layout of the label and \<open>readFDL\<close> on every branch.
  \<^item> \<open>Drv_Eth_Xc\<close> (driver/drv_eth_xc.c): the pointer FIFOs of the Ethernet MAC. The locale \<open>network_if\<close> is the contract
    of the driver interface \<open>NETWORK_IF_T\<close> (who owns a frame buffer, the pool never overflows); the interpretation
    \<open>xc_if\<close> shows it for the driver. Both network stacks are clients of this locale.
  \<^item> \<open>Options\<close> (options.h, boot_drv_eth.h), \<open>Rng\<close> (rng.c), \<open>Progress_Bar\<close> (progress_bar.c).
  \<^item> \<open>Network_Lwip\<close> (network_lwip.c): the interface, the transfer of frames between driver and lwIP, the download and the
    message upload with their callbacks. lwIP is a parameter here; the calls that it makes during one cycle are a list of callback
    events, which \<open>exec\<close> runs.
  \<^item> \<open>Http_Download\<close>: the run of a download on top of it. When lwIP reports the end of the request, the wait loop ends; the download is a
    success exactly when lwIP reported one with the status 200, and then buffer, length and hash are those of the delivered bytes. This is for bodies
    smaller than the buffer, in packet buffers that reach the next aligned address (\<open>chunk_long\<close>): with shorter ones the hash is wrong.
  \<^item> \<open>Flashapp\<close> (main.c): \<open>flashapp_main\<close> with the functions it calls. The functions of the flasher that erase and write are used only by one call of
    \<open>processWfp\<close>, on an image whose hash is the one of the information file, in the state behind its download (\<open>verified_image\<close>).

  \<^bold>\<open>The network stack.\<close> One extensible record; each theory adds the static variables of its source file.
  \<^item> \<open>Checksum\<close>, \<open>Buckets\<close>, \<open>Eth\<close> (checksum.c, buckets.c, eth.h, eth.c): the checksum, the receive buffer, the layout of the
    frames and the use of the driver.
  \<^item> \<open>Arp\<close> (arp.c): cache, queue of waiting packets, retries. \<open>arp_inv\<close>: packets wait for exactly the addresses that are
    requested. \<open>frame_acct\<close> counts the frame buffers in the driver and in the queue.
  \<^item> \<open>Ipv4\<close> (ipv4.c, icmp.c): the header, the next hop, the echo reply.
  \<^item> \<open>Udp\<close> (udp.c): checksum and port table. The locale \<open>port_table\<close> is the contract of the table (what a lookup
    returns after registering and unregistering).
  \<^item> \<open>Dhcp\<close>, \<open>Dns\<close>, \<open>Tftp\<close> (dhcp.c, dns.c, tftp.c): the clients: packets, receive handlers, timers. Each has an invariant
    that ties its state to its entry of the port table. \<open>Tftp_Transfer\<close> follows the blocks of a file
    through \<open>tftp_recHandler\<close>; \<open>Locality\<close> shows that sending writes only into frame buffers.
  \<^item> \<open>Ports\<close>: what each operation of a client does to the port table and to the other clients.
  \<^item> \<open>Stack\<close> (\<open>ipv4_process_packet\<close>, \<open>eth_process_packet\<close>): received frames through all layers, and the runs of the stack as
    inductive relations \<open>stack_op\<close> and \<open>stack_reach\<close>. The locale \<open>port_client\<close> is the contract of a client of the port table; the three
    clients interpret it, so that each keeps its port whatever the others do.
  \<^item> \<open>Stack_Effects\<close>: the locale \<open>stack_contract\<close> lists the few ways in which the clients use the layers below. A predicate
    that keeps it is kept by every operation of the stack. It is used for the number of frame buffers (as a sublocale
    of \<open>network_if\<close>) and for the lengths of the arrays.

  \<^bold>\<open>lwIP.\<close> As the options of the application compile it. A failed assertion is an endless loop (arch/cc.h), so it is a
  call that does not return.
  \<^item> \<open>Lwip_Err\<close>, \<open>Lwip_Ip4\<close> (err.h, ip4_addr.c): the error codes; addresses, net masks, and their text, which is read back as
    the address.
  \<^item> \<open>Lwip_Pbuf\<close> (pbuf.c, memp.c): packet buffers and the pools they come from. \<open>pchain\<close> and \<open>pbytes\<close> are the chain and the list of its bytes;
    \<open>Pbuf_Chain\<close> shows the operations as list operations, that the buffers of the pool are not lost and that their data stays inside the
    elements. The free list of a pool is a list of addresses, not the chain of pointers in the free elements (memp.c).
  \<^item> \<open>Lwip_Mem\<close> (mem.c): the heap, with its structures in the bytes of the array. The abstraction \<open>heap_ok\<close> is the list of blocks; allocation
    is first fit, release joins neighbours, the data of other blocks is kept. \<open>mem_trim\<close> of the last block can run into an assertion.
    The locale \<open>mem_contract\<close> is what pbuf.c relies on; the heap interprets it, so that packet buffers on the heap are not lost.
  \<^item> \<open>Http_Parse\<close>, \<open>Http_Client\<close> (http_client.c): the parser of the response and the handlers for TCP, over chains of packet buffers. TCP is a
    parameter.
  \<^item> \<open>Http_Session\<close>: the client together with the callbacks of network_lwip.c. However the response is cut into segments whose parts of the body reach the next aligned address,
    the download of a body smaller than the buffer is a success exactly for the status 200 and a matching length, and then the buffer has the body; a truncated
    response or a reset is a failure.

  \<^bold>\<open>Loops.\<close> Loops with a bound are total functions with a measure. Loops that wait for the hardware or the network, and
  loops over data that may not end, are partial functions with the value \<open>None\<close> for not returning; the theorems that
  claim a result prove that they return. There is no fuel.

  \<^bold>\<open>Assumptions on the runs of the stack.\<close> The application calls the operations in any order but starts a request of a client only
  when the client does not wait already. The network delivers any frame except UDP packets for port 0, which call a
  null pointer (\<open>stack_port_zero_null_call\<close>). \<open>None\<close> in a run stands for a loop that does not end on a malicious packet (the
  compression pointers of DNS) or for a string without an end.

  \<^bold>\<open>Not modelled.\<close> The rest of lwIP (TCP, IP, ARP, DHCP, timers, and the parts that the application does not use), the submodules (platform, flasher), the xPEC firmware, the assembler start-up and malloc_dummy.c are
  not the program's own logic or not in the repository. Debug messages are left out. The buffer of 64 bytes for the name of a
  DNS answer is a range of the memory, so that a longer name overwrites what is behind it, as in C. \<open>tftp.c\<close> calls
  \<open>sha384_finalize_byte\<close> with an argument list that sha384.h does not have; there this function is a parameter.
  Interrupts do not occur; the caches and the order of the accesses to device registers within one function of the
  platform are not modelled.
\<close>

end
